(* ===== verification/Prelude.thy ===== *)
theory Prelude
  imports Main "HOL-Library.Word" "HOL-Library.Multiset"
begin

text \<open>
  Shared vocabulary of the development: the machine integer types of the C++ code, the ways an
  operation of the simulator can fail, sequencing of fallible operations, checked vector
  access, and the generic lemmas that the component theories share.

  A C++ function that may stop the process is a function into \<open>fault + 'a\<close>: \<open>Inr x\<close> is a normal
  return and \<open>Inl f\<close> the way it stopped.  Logging (spdlog), colour printing and the disabled
  calls into the Rust counters have no effect on the simulated state and are left out.
\<close>

unbundle bit_operations_syntax

type_synonym u32 = "32 word"
type_synonym u64 = "64 word"
type_synonym addr_type = u64
type_synonym cycle_type = u64

subsection \<open>Ways to stop\<close>

text \<open>
  \<open>AssertFailed\<close>: an \<open>assert\<close> or the project's own \<open>ast\<close>; \<open>Thrown\<close>: a C++ exception;
  \<open>Exited\<close>: a call of \<open>exit\<close>; \<open>Undefined\<close>: behaviour that the C++ standard leaves undefined
  (an out-of-range index, front of an empty queue, signed overflow, a null pointer).
\<close>

datatype fault = AssertFailed | Thrown | Exited | Undefined

definition bindE :: "fault + 'a \<Rightarrow> ('a \<Rightarrow> fault + 'b) \<Rightarrow> fault + 'b" where
  "bindE m k = (case m of Inl e \<Rightarrow> Inl e | Inr x \<Rightarrow> k x)"

definition ast :: "bool \<Rightarrow> fault + 'a \<Rightarrow> fault + 'a" where
  "ast c k = (if c then k else Inl AssertFailed)"

definition at :: "'a list \<Rightarrow> nat \<Rightarrow> fault + 'a" where
  "at xs i = (if i < length xs then Inr (xs ! i) else Inl Undefined)"

definition front :: "'a list \<Rightarrow> fault + 'a" where
  "front xs = (case xs of [] \<Rightarrow> Inl Undefined | x # _ \<Rightarrow> Inr x)"

fun foldE :: "('s \<Rightarrow> 'a \<Rightarrow> fault + 's) \<Rightarrow> 's \<Rightarrow> 'a list \<Rightarrow> fault + 's" where
  "foldE f s [] = Inr s"
| "foldE f s (x # xs) = bindE (f s x) (\<lambda>s'. foldE f s' xs)"

text \<open>Repeat a fallible step \<open>n\<close> times.\<close>

fun iterE :: "nat \<Rightarrow> ('s \<Rightarrow> fault + 's) \<Rightarrow> 's \<Rightarrow> fault + 's" where
  "iterE 0 f s = Inr s"
| "iterE (Suc n) f s = bindE (f s) (iterE n f)"

definition returns :: "fault + 'a \<Rightarrow> bool" where
  "returns m = (case m of Inl _ \<Rightarrow> False | Inr _ \<Rightarrow> True)"

named_theorems fault_simps \<open>evaluation of fallible operations\<close>

lemma bindE_simps [simp]:
  "bindE (Inr x) k = k x"
  "bindE (Inl e) k = Inl e"
  by (simp_all add: bindE_def)

lemma bindE_Inr [simp]: "bindE m k = Inr y \<longleftrightarrow> (\<exists>x. m = Inr x \<and> k x = Inr y)"
  by (cases m) auto

lemma bindE_Inl: "bindE m k = Inl e \<longleftrightarrow> m = Inl e \<or> (\<exists>x. m = Inr x \<and> k x = Inl e)"
  by (cases m) auto

lemma ast_Inr [simp]: "ast c k = Inr y \<longleftrightarrow> c \<and> k = Inr y"
  by (simp add: ast_def)

lemma ast_True [simp]: "c \<Longrightarrow> ast c k = k"
  by (simp add: ast_def)

lemma ast_False [simp]: "\<not> c \<Longrightarrow> ast c k = Inl AssertFailed"
  by (simp add: ast_def)

lemma at_Inr [simp]: "at xs i = Inr y \<longleftrightarrow> i < length xs \<and> xs ! i = y"
  by (simp add: at_def)

lemma at_nth [simp]: "i < length xs \<Longrightarrow> at xs i = Inr (xs ! i)"
  by (simp add: at_def)

lemma front_Inr [simp]: "front xs = Inr y \<longleftrightarrow> (\<exists>ys. xs = y # ys)"
  by (auto simp: front_def split: list.splits)

lemma front_simps [simp]: "front [] = Inl Undefined" "front (x # xs) = Inr x"
  by (simp_all add: front_def)

lemma returns_simps [simp]: "returns (Inr x)" "\<not> returns (Inl e)"
  by (simp_all add: returns_def)

lemma returns_iff: "returns m \<longleftrightarrow> (\<exists>x. m = Inr x)"
  by (cases m) auto

lemma returns_bindE: "returns (bindE m k) \<longleftrightarrow> (\<exists>x. m = Inr x \<and> returns (k x))"
  by (cases m) auto

lemma returns_ast [simp]: "returns (ast c k) \<longleftrightarrow> c \<and> returns k"
  by (simp add: ast_def)

lemmas fault_unfold = bindE_def ast_def at_def front_def

lemma foldE_append: "foldE f s (xs @ ys) = bindE (foldE f s xs) (\<lambda>s'. foldE f s' ys)"
proof (induction xs arbitrary: s)
  case (Cons x xs)
  then show ?case by (cases "f s x") simp_all
qed simp

lemma iterE_add: "iterE (m + n) f s = bindE (iterE m f s) (iterE n f)"
proof (induction m arbitrary: s)
  case (Suc m)
  then show ?case by (cases "f s") simp_all
qed simp

text \<open>An invariant that each step of a fallible loop keeps holds after the loop.\<close>

lemma foldE_invariant:
  assumes "foldE f s xs = Inr s'" and "I s"
    and "\<And>s x s'. \<lbrakk>I s; x \<in> set xs; f s x = Inr s'\<rbrakk> \<Longrightarrow> I s'"
  shows "I s'"
  using assms
proof (induction xs arbitrary: s)
  case (Cons x xs)
  from Cons.prems(1) obtain t where t: "f s x = Inr t" and rest: "foldE f t xs = Inr s'"
    by auto
  have "I t" by (rule Cons.prems(3) [OF Cons.prems(2) _ t]) simp
  then show ?case
  proof (rule Cons.IH [OF rest])
    fix s y u
    assume "I s" "y \<in> set xs" "f s y = Inr u"
    then show "I u" using Cons.prems(3) [of s y u] by (metis list.set_intros(2))
  qed
qed simp

lemma foldE_returns:
  assumes "I s"
    and "\<And>s x. \<lbrakk>I s; x \<in> set xs\<rbrakk> \<Longrightarrow> \<exists>s'. f s x = Inr s' \<and> I s'"
  shows "\<exists>s'. foldE f s xs = Inr s' \<and> I s'"
  using assms
proof (induction xs arbitrary: s)
  case (Cons x xs)
  then obtain t where "f s x = Inr t" "I t" by fastforce
  then show ?case using Cons.IH [of t] Cons.prems(2) by simp
qed simp

subsection \<open>Ceiling division\<close>

text \<open>
  The code writes \<open>ceil((double)a / (double)b)\<close> for 32-bit operands.  With \<open>b \<noteq> 0\<close> a quotient
  of two such integers that is no integer lies at least \<open>1/b\<close> away from the next one, and the
  rounding error of the division in double precision is below \<open>2^(-21)/b\<close>, so the result is the
  exact ceiling.
\<close>

definition cdiv :: "nat \<Rightarrow> nat \<Rightarrow> nat" where
  "cdiv a b = (a + b - 1) div b"

lemma cdiv_le_iff: "0 < b \<Longrightarrow> cdiv a b \<le> n \<longleftrightarrow> a \<le> n * b"
proof -
  assume b: "0 < b"
  have "cdiv a b \<le> n \<longleftrightarrow> (a + b - 1) div b < Suc n" by (auto simp: cdiv_def)
  also have "\<dots> \<longleftrightarrow> a + b - 1 < Suc n * b" using b by (simp add: div_less_iff_less_mult)
  also have "\<dots> \<longleftrightarrow> a \<le> n * b" using b by auto
  finally show ?thesis .
qed

lemma cdiv_mult_ge: "0 < b \<Longrightarrow> a \<le> cdiv a b * b"
  using cdiv_le_iff [of b a "cdiv a b"] by simp

lemma cdiv_0 [simp]: "0 < b \<Longrightarrow> cdiv 0 b = 0"
  by (simp add: cdiv_def)

lemma cdiv_mult_less: "0 < b \<Longrightarrow> cdiv a b * b < a + b"
proof -
  assume b: "0 < b"
  have "cdiv a b * b \<le> a + b - 1" by (simp add: cdiv_def div_times_less_eq_dividend)
  then show ?thesis using b by simp
qed

subsection \<open>Words\<close>

lemma unat_u32_less [simp]: "unat (x :: u32) < 4294967296"
  using unsigned_less [of x, where 'a = nat] by simp

lemma unat_u64_less [simp]: "unat (x :: u64) < 18446744073709551616"
  using unsigned_less [of x, where 'a = nat] by simp

lemma unat_plus_u64:
  "unat x + unat y < 2 ^ 64 \<Longrightarrow> unat (x + y :: u64) = unat x + unat y"
  by (simp add: unat_word_ariths)

lemma unat_Suc_u32: "unat (x :: u32) + 1 < 2 ^ 32 \<Longrightarrow> unat (x + 1) = unat x + 1"
  by (simp add: unat_word_ariths)

lemma unat_ucast_up [simp]: "unat (ucast (x :: u32) :: u64) = unat x"
  by (simp add: unsigned_ucast_eq take_bit_nat_eq_self_iff less_trans [OF unat_u32_less])

lemma push_1_minus_1: "push_bit k 1 - 1 = (mask k :: 'a::len word)"
  by (simp add: mask_eq_exp_minus_1 push_bit_of_1)

lemma take_bit_word_id: "unat b < 2 ^ k \<Longrightarrow> take_bit k b = (b::'a::len word)"
  by (rule word_unat_eq_iff[THEN iffD2]) (simp add: unsigned_take_bit_eq take_bit_nat_eq_self)

lemma unat_exp: "k < LENGTH('a) \<Longrightarrow> unat (2 ^ k :: 'a::len word) = 2 ^ k"
  by (simp only: push_bit_of_1 [symmetric] unsigned_push_bit_eq unsigned_1)
    (simp add: take_bit_nat_eq_self power_strict_increasing)

lemma unat_push_bit:
  "unat a * 2 ^ k < 2 ^ LENGTH('a) \<Longrightarrow> unat (push_bit k a :: 'a::len word) = unat a * 2 ^ k"
  by (simp only: unsigned_push_bit_eq) (simp add: push_bit_eq_mult take_bit_nat_eq_self)

lemma or_add_shift:
  fixes a b :: "'a::len word"
  assumes "unat b < 2 ^ k" "unat a * 2 ^ k + unat b < 2 ^ LENGTH('a)"
  shows "unat (push_bit k a OR b) = unat a * 2 ^ k + unat b"
proof -
  have "push_bit k a + b = push_bit k a OR b"
  proof (rule disjunctive_add)
    fix n
    show "\<not> bit (push_bit k a) n \<or> \<not> bit b n"
      using take_bit_word_id [OF assms(1)] by (metis bit_push_bit_iff bit_take_bit_iff leD)
  qed
  moreover have "unat (push_bit k a) = unat a * 2 ^ k"
    using assms(2) by (intro unat_push_bit) simp
  ultimately show ?thesis using assms(2)
    by (metis unat_word_ariths(1) mod_less)
qed

lemma and_mask_mod:
  "unat alignment = 2 ^ k \<Longrightarrow> unat (a AND (alignment - 1)) = unat a mod 2 ^ k"
  for a :: "'a::len word"
proof -
  assume al: "unat alignment = 2 ^ k"
  then have "k < LENGTH('a)" using unsigned_less[of alignment, where 'a=nat] by simp
  then have "alignment = 2 ^ k" using al by (simp add: word_unat_eq_iff unat_exp)
  then have "alignment - 1 = mask k" by (simp add: mask_eq_exp_minus_1)
  then have "a AND (alignment - 1) = take_bit k a" by (simp add: take_bit_eq_mask)
  then show ?thesis by (simp only: unsigned_take_bit_eq) (simp add: take_bit_eq_mod)
qed

subsection \<open>One queue per channel\<close>

text \<open>
  The cores and the interconnect keep vectors of queues, indexed by a channel or a node.
\<close>

definition push_queue :: "nat \<Rightarrow> 'a \<Rightarrow> 'a list list \<Rightarrow> fault + 'a list list" where
  "push_queue i x qs = bindE (at qs i) (\<lambda>q. Inr (qs[i := q @ [x]]))"

definition pop_queue :: "nat \<Rightarrow> 'a list list \<Rightarrow> fault + ('a \<times> 'a list list)" where
  "pop_queue i qs = bindE (at qs i) (\<lambda>q. case q of [] \<Rightarrow> Inl AssertFailed | x # xs \<Rightarrow> Inr (x, qs[i := xs]))"

lemma mset_concat_update:
  "i < length qs \<Longrightarrow> mset (concat (qs[i := q])) + mset (qs ! i) = mset (concat qs) + mset q"
proof (induction qs arbitrary: i)
  case (Cons x qs)
  show ?case
  proof (cases i)
    case 0 then show ?thesis by (simp add: ac_simps)
  next
    case (Suc k)
    then have "mset (concat (qs[k := q])) + mset (qs ! k) = mset (concat qs) + mset q" using Cons by simp
    then show ?thesis using Suc by (simp add: ac_simps)
  qed
qed simp

lemma push_queue_mset:
  "push_queue i x qs = Inr qs' \<Longrightarrow> mset (concat qs') = mset (concat qs) + {#x#}"
  using mset_concat_update [of i qs "qs ! i @ [x]"] by (auto simp: push_queue_def)

lemma pop_queue_mset:
  "pop_queue i qs = Inr (x, qs') \<Longrightarrow> mset (concat qs) = mset (concat qs') + {#x#}"
  using mset_concat_update [of i qs "tl (qs ! i)"] by (auto simp: pop_queue_def split: list.splits)

end
