(* ===== verification/Addr.thy ===== *)
theory Addr
  imports Prelude
begin

text \<open>
  The address arithmetic of namespace \<open>AddressConfig\<close> (Common.cc): the channel of an address,
  the column/channel swap, alignment, and the packing of DRAM coordinates and of PIM commands
  into one 64-bit address.  Channel, rank, row and column numbers are C ints: \<open>i32\<close> values
  read with \<open>sint\<close> and widened with \<open>scast\<close>.
\<close>

type_synonym i32 = "32 word"

subsection \<open>Logarithm, channel and alignment\<close>

text \<open>\<open>LogBase2\<close> counts the halvings in a while loop.\<close>

function LogBase2_loop :: "int \<Rightarrow> nat \<Rightarrow> nat" where
  "LogBase2_loop power_of_two i =
     (if power_of_two > 1 then LogBase2_loop (power_of_two div 2) (i + 1) else i)"
  by pat_completeness auto
termination
  by (relation "measure (\<lambda>(p, i). nat p)") auto

declare LogBase2_loop.simps [simp del]

definition LogBase2 :: "int \<Rightarrow> nat" where
  "LogBase2 power_of_two = LogBase2_loop power_of_two 0"

definition mask_channel :: "addr_type \<Rightarrow> addr_type \<Rightarrow> u32" where
  "mask_channel channel_mask address =
     (let col_bits = 4; offset = 6
      in ucast (drop_bit (col_bits + offset) address AND channel_mask))"

definition switch_co_ch :: "addr_type \<Rightarrow> addr_type" where
  "switch_co_ch addr =
     (let num_col_bits = 4; num_ch_bits = 5; num_offset = 6;
          ch_mask = push_bit (num_col_bits + num_offset) (push_bit num_ch_bits 1 - 1);
          col_mask = push_bit num_offset (push_bit num_col_bits 1 - 1);
          mask = ch_mask OR col_mask;
          new_col_bits = drop_bit num_ch_bits (addr AND push_bit num_ch_bits col_mask);
          new_ch_bits = push_bit num_col_bits (addr AND drop_bit num_col_bits ch_mask);
          addr = addr AND NOT mask;
          addr = addr OR new_col_bits;
          addr = addr OR new_ch_bits
      in addr)"

definition align :: "addr_type \<Rightarrow> addr_type \<Rightarrow> addr_type" where
  "align alignment addr = addr - (addr AND (alignment - 1))"

text \<open>The bump step that every allocator of the code shares: advance, then round up.\<close>

definition round_up :: "addr_type \<Rightarrow> addr_type \<Rightarrow> addr_type" where
  "round_up alignment top_addr =
     (if top_addr AND (alignment - 1) \<noteq> 0
      then top_addr + (alignment - (top_addr AND (alignment - 1))) else top_addr)"

text \<open>\<open>allocate_address\<close> with its static \<open>base_addr\<close> as state: (result, new base_addr).\<close>

definition allocate_address :: "addr_type \<Rightarrow> u32 \<Rightarrow> addr_type \<Rightarrow> addr_type \<times> addr_type" where
  "allocate_address alignment sz base_addr =
     (base_addr, round_up alignment (base_addr + ucast sz))"

subsection \<open>Packing DRAM coordinates\<close>

definition make_address :: "u32 \<Rightarrow> i32 \<Rightarrow> i32 \<Rightarrow> i32 \<Rightarrow> i32 \<Rightarrow> i32 \<Rightarrow> i32 \<Rightarrow> u64" where
  "make_address dram_channels channel rank bankgroup bank row col =
     (let rank_bits = 1; bankgroup_bits = 2; bank_bits = 2;
          channel_bits = LogBase2 (sint dram_channels); col_bits = 4; offset = 6;
          addr = 0;
          addr = addr OR scast row;
          addr = push_bit rank_bits addr;
          addr = addr OR scast rank;
          addr = push_bit bankgroup_bits addr;
          addr = addr OR scast bankgroup;
          addr = push_bit bank_bits addr;
          addr = addr OR scast bank;
          addr = push_bit channel_bits addr;
          addr = addr OR scast channel;
          addr = push_bit col_bits addr;
          addr = addr OR scast (col AND 15);
          addr = push_bit offset addr
      in addr)"

definition encode_pim_header :: "u32 \<Rightarrow> i32 \<Rightarrow> i32 \<Rightarrow> bool \<Rightarrow> i32 \<Rightarrow> i32 \<Rightarrow> u64" where
  "encode_pim_header dram_channels channel row for_gwrite num_comps num_readres =
     (let gwrite_bit = (if for_gwrite then 1 else 0 :: i32);
          log_comps = push_bit 3 gwrite_bit + of_nat (LogBase2 (sint num_comps));
          log_readres = LogBase2 (sint num_readres)
      in make_address dram_channels channel (of_nat (log_readres div 16))
           (of_nat (log_readres div 4) AND 3) (of_nat (log_readres mod 4)) row log_comps)"

definition encode_pim_comps_readres :: "u32 \<Rightarrow> i32 \<Rightarrow> i32 \<Rightarrow> i32 \<Rightarrow> bool \<Rightarrow> fault + u64" where
  "encode_pim_comps_readres dram_channels ch row num_comps last_cmd =
     (let ra_bits = 1; bg_bits = 2; ba_bits = 2;
          bg_mask = push_bit bg_bits 1 - 1;
          ba_mask = push_bit ba_bits 1 - 1;
          num_comps = num_comps - 1
      in ast (sint num_comps < sint (push_bit (ra_bits + bg_bits + ba_bits) 1 :: i32))
           (let rank = signed_drop_bit (bg_bits + ba_bits) num_comps;
                bankgroup = signed_drop_bit ba_bits num_comps AND bg_mask;
                bank = num_comps AND ba_mask;
                col = (if last_cmd then 1 else 0)
            in Inr (make_address dram_channels ch rank bankgroup bank row col)))"

subsection \<open>The swap and the alignment\<close>

lemma bit_addr_less: "bit (a :: addr_type) n \<Longrightarrow> n < 64"
  using bit_imp_le_length [of a n] by simp

lemma switch_co_ch_eq:
  "switch_co_ch a =
     ((a AND NOT (push_bit 10 (mask 5) OR push_bit 6 (mask 4)))
       OR drop_bit 5 (a AND push_bit 5 (push_bit 6 (mask 4))))
     OR push_bit 4 (a AND drop_bit 4 (push_bit 10 (mask 5)))"
proof -
  have m: "\<And>k. push_bit k 1 - 1 = (mask k :: addr_type)" by (rule push_1_minus_1)
  show ?thesis by (simp only: switch_co_ch_def Let_def m) simp
qed

lemma bit_switch_co_ch:
  "bit (switch_co_ch a) n \<longleftrightarrow>
     (if n < 6 \<or> 15 \<le> n then bit a n else if n < 10 then bit a (n + 5) else bit a (n - 4))"
proof -
  have 1: "bit (a AND NOT (push_bit 10 (mask 5) OR push_bit 6 (mask 4))) n \<longleftrightarrow>
     bit a n \<and> (n < 6 \<or> 15 \<le> n)"
    using bit_addr_less [of a n]
    by (auto simp only: bit_and_iff bit_not_iff bit_or_iff bit_push_bit_iff bit_mask_iff
        possible_bit_word len_num1) auto
  have 2: "bit (drop_bit 5 (a AND push_bit 5 (push_bit 6 (mask 4)))) n \<longleftrightarrow>
     bit a (n + 5) \<and> 6 \<le> n \<and> n < 10"
    using bit_addr_less [of a "5 + n"]
    by (auto simp only: bit_and_iff bit_drop_bit_eq comp_def bit_push_bit_iff bit_mask_iff
        possible_bit_word add.commute [of 5 n]) auto
  have 3: "bit (push_bit 4 (a AND drop_bit 4 (push_bit 10 (mask 5)))) n \<longleftrightarrow>
     bit a (n - 4) \<and> 10 \<le> n \<and> n < 15"
    by (auto simp only: bit_and_iff bit_drop_bit_eq comp_def bit_push_bit_iff bit_mask_iff
        possible_bit_word) auto
  show ?thesis
    unfolding switch_co_ch_eq bit_or_iff 1 2 3 by auto
qed

lemma switch_co_ch_inj: "inj switch_co_ch"
proof (rule injI, rule bit_eqI)
  fix x y :: addr_type and n :: nat
  assume eq: "switch_co_ch x = switch_co_ch y"
  define m where "m = (if n < 6 \<or> 15 \<le> n then n else if n < 11 then n + 4 else n - 5)"
  have "bit (switch_co_ch x) m = bit (switch_co_ch y) m" using eq by simp
  then show "bit x n = bit y n" by (auto simp: bit_switch_co_ch m_def split: if_splits)
qed

lemma mask_channel_switch:
  "mask_channel 31 (switch_co_ch a) = ucast (drop_bit 6 a AND 31)"
proof -
  have m31: "(31 :: addr_type) = mask 5" by (simp add: mask_eq_exp_minus_1)
  have "drop_bit 10 (switch_co_ch a) AND 31 = drop_bit 6 a AND 31"
    unfolding m31
  proof (rule bit_eqI)
    fix n :: nat
    show "bit (drop_bit 10 (switch_co_ch a) AND mask 5) n = bit (drop_bit 6 a AND mask 5) n"
     by (auto simp: bit_and_iff bit_drop_bit_eq bit_mask_iff bit_switch_co_ch)
  qed
  then show ?thesis by (simp add: mask_channel_def)
qed

lemma unat_align:
  assumes "unat alignment = 2 ^ k"
  shows "unat (align alignment a) = unat a div 2 ^ k * 2 ^ k"
proof -
  have "unat (a AND (alignment - 1)) \<le> unat a" using and_mask_mod [OF assms] by simp
  then have "unat (align alignment a) = unat a - unat a mod 2 ^ k"
    using and_mask_mod [OF assms] by (simp add: align_def unat_sub word_le_nat_alt)
  then show ?thesis by (simp add: minus_mod_eq_div_mult)
qed

lemma unat_round_up_lt:
  assumes al: "unat alignment = 2 ^ k" and nz: "unat t mod 2^k \<noteq> 0"
    and fits: "(unat t div 2^k + 1) * 2^k < 2 ^ 64"
  shows "unat (round_up alignment t) = (unat t div 2^k + 1) * 2^k"
proof -
  let ?r = "t AND (alignment - 1)"
  have r: "unat ?r = unat t mod 2 ^ k" by (rule and_mask_mod [OF al])
  have z: "?r \<noteq> 0" using r nz by (metis unat_0)
  have lt: "unat ?r < 2^k" using r by simp
  then have s: "unat (alignment - ?r) = 2^k - unat ?r" using al by (simp add: unat_sub word_le_nat_alt)
  have eq: "unat t + (2 ^ k - unat ?r) = (unat t div 2^k + 1) * 2^k"
  proof -
    have "unat t = unat t div 2^k * 2^k + unat ?r" using div_mult_mod_eq [of "unat t" "2 ^ k"] r by presburger
    then show ?thesis using lt by (simp add: algebra_simps)
  qed
  then have "unat (round_up alignment t) = unat t + (2 ^k - unat ?r)"
    using z s fits by (simp add: round_up_def unat_plus_u64)
  then show ?thesis using eq by simp
qed

lemma unat_round_up:
  assumes al: "unat alignment = 2 ^ k" and fits: "unat t + 2 ^ k \<le> 2 ^ 64"
  shows "unat (round_up alignment t) = (if unat t mod 2^k = 0 then unat t else (unat t div 2^k + 1) * 2^k)"
proof (cases "unat t mod 2^k = 0")
  case True
  then have "t AND (alignment - 1) = 0" using and_mask_mod [OF al, of t] by (simp add: unat_eq_zero)
  then show ?thesis using True by (simp add: round_up_def)
next
  case False
  have "unat t = unat t div 2^k * 2^k + unat t mod 2^k" by (simp only: div_mult_mod_eq)
  then have "unat t div 2^k * 2^k < unat t" using False by linarith
  then have "(unat t div 2^k + 1) * 2^k < unat t + 2^k" by (simp only: add_mult_distrib mult_1 add_less_cancel_right)
  then have "(unat t div 2^k + 1) * 2^k < 2^64" using fits by linarith
  from unat_round_up_lt [OF al False this] show ?thesis using False by simp
qed

subsection \<open>Logarithm and packed coordinates\<close>

lemma LogBase2_loop_add: "LogBase2_loop p (i + j) = i + LogBase2_loop p j"
proof (induction p j arbitrary: i rule: LogBase2_loop.induct)
  case (1 p j)
  show ?case
    using 1 [of i] by (simp add: LogBase2_loop.simps [of p "i + j"] LogBase2_loop.simps [of p j])
qed

lemma LogBase2_rec: "LogBase2 p = (if p > 1 then Suc (LogBase2 (p div 2)) else 0)"
proof (cases "p > 1")
  case True
  then have "LogBase2 p = LogBase2_loop (p div 2) 1" by (simp add: LogBase2_def LogBase2_loop.simps [of p])
  then show ?thesis using True LogBase2_loop_add [of "p div 2" 1 0] by (simp add: LogBase2_def)
next
  case False then show ?thesis by (simp add: LogBase2_def LogBase2_loop.simps [of p])
qed

lemma LogBase2_exp [simp]: "LogBase2 (2 ^ n) = n"
proof (induction n)
  case 0 then show ?case by (simp add: LogBase2_rec [of 1])
next
  case (Suc n)
  have "(2::int) ^ Suc n > 1" by (simp add: one_less_power del: power_Suc)
  then show ?case using Suc LogBase2_rec [of "2 ^ Suc n"] by simp
qed

lemma LogBase2_bounds: "1 \<le> p \<Longrightarrow> 2 ^ LogBase2 p \<le> p \<and> p < 2 ^ (LogBase2 p + 1)"
proof (induction "nat p" arbitrary: p rule: less_induct)
  case less
  show ?case
  proof (cases "p > 1")
    case True
    then have "2 ^ LogBase2 (p div 2) \<le> p div 2 \<and> p div 2 < 2 ^ (LogBase2 (p div 2) + 1)"
      by (intro less.hyps) auto
    then show ?thesis using True by (subst (1 2) LogBase2_rec) auto
  next
    case False
    then have "p = 1" using less.prems by simp
    then show ?thesis by (simp add: LogBase2_rec)
  qed
qed

lemma not_bit_31: "unat (x :: i32) < 2 ^ 31 \<Longrightarrow> \<not> bit x 31"
  using take_bit_word_id [of x 31] bit_take_bit_iff [of 31 x 31] by auto

lemma unat_scast_i32: "unat (x :: i32) < 2 ^ 31 \<Longrightarrow> unat (scast x :: u64) = unat x"
proof -
  assume a: "unat x < 2 ^ 31"
  have nb: "\<not> bit x 31" by (rule not_bit_31 [OF a])
  have "(scast x :: u64) = ucast x"
    by (rule bit_eqI) (use nb in \<open>auto simp: bit_word_scast_iff bit_ucast_iff dest: bit_imp_le_length\<close>)
  then show ?thesis by simp
qed

lemma unat_make_address:
  assumes n: "sint dram_channels = 2 ^ c" and c: "c \<le> 30"
    and r: "unat row < 2 ^ 15" "unat rank < 2" "unat bg < 4" "unat bank < 4" "unat ch < 2 ^ c" "unat col < 16"
  shows "unat (make_address dram_channels ch rank bg bank row col) =
     (((((unat row * 2 + unat rank) * 4 + unat bg) * 4 + unat bank) * 2 ^ c + unat ch) * 16 + unat col) * 64"
proof -
  have c2: "(2::nat) ^ c \<le> 2 ^ 30" using c by (rule power_increasing) simp
  have s: "unat (scast x :: u64) = unat x" if "unat x < 2 ^ 30" for x :: i32
    using that by (intro unat_scast_i32) simp
  have col: "col AND 15 = col"
    using take_bit_word_id[of col 4] r(6) by (simp add: take_bit_eq_mask mask_eq_exp_minus_1)
  define a1 where "a1 = push_bit 1 (scast row :: u64) OR scast rank"
  define a2 where "a2 = push_bit 2 a1 OR scast bg"
  define a3 where "a3 = push_bit 2 a2 OR scast bank"
  define a4 where "a4 = push_bit c a3 OR scast ch"
  define a5 where "a5 = push_bit 4 a4 OR scast col"
  have u0: "unat (scast row :: u64) = unat row" using r by (intro s) simp
  have u1: "unat a1 = unat row * 2 + unat rank"
    unfolding a1_def using r s[of rank] u0 by (subst or_add_shift) simp_all
  have u2: "unat a2 = unat a1 * 4 + unat bg"
    unfolding a2_def using r s[of bg] u1 by (subst or_add_shift) simp_all
  have u3: "unat a3 = unat a2 * 4 + unat bank"
    unfolding a3_def using r s[of bank] u1 u2 by (subst or_add_shift) simp_all
  have b3: "unat a3 < 2 ^ 20" using r u1 u2 u3 by simp
  have sch: "unat (scast ch :: u64) = unat ch" using r(5) c2 by (intro s) simp
  have b4': "unat a3 * 2 ^ c + unat ch < 2 ^ 20 * 2 ^ c"
  proof -
    have "(unat a3 + 1) * 2 ^ c \<le> 2 ^ 20 * 2 ^ c" using b3 by (intro mult_le_mono1) simp
    then have "unat a3 * 2 ^ c + 2 ^ c \<le> 2 ^ 20 * 2 ^ c" by (simp only: add_mult_distrib mult_1)
    then show ?thesis using r(5) by linarith
  qed
  have b4: "unat a3 * 2 ^ c + unat ch < 2 ^ 50" using b4' c2 by simp
  have u4: "unat a4 = unat a3 * 2 ^ c + unat ch"
    unfolding a4_def using r b4 sch by (subst or_add_shift) simp_all
  have u5: "unat a5 = unat a4 * 16 + unat col"
    unfolding a5_def using r b4 u4 s[of col] by (subst or_add_shift) simp_all
  have u6: "unat (push_bit 6 a5) = unat a5 * 64"
    using u5 u4 b4 r by (subst unat_push_bit) simp_all
  have "make_address dram_channels ch rank bg bank row col = push_bit 6 a5"
    by (simp only: make_address_def Let_def n LogBase2_exp col a1_def a2_def a3_def a4_def a5_def or.left_neutral)
  then show ?thesis using u6 u5 u4 u3 u2 u1 by simp
qed

lemma sint_eq_unat_i32: "unat (x :: i32) < 2 ^ 31 \<Longrightarrow> sint x = int (unat x)"
proof -
  assume a: "unat x < 2 ^ 31"
  have "sint x = signed_take_bit 31 (uint x)" by (simp add: sint_uint)
  also have "\<dots> = uint x"
  proof (rule signed_take_bit_int_eq_self)
    have "int (unat x) < int (2 ^ 31)" using a by (simp only: of_nat_less_iff)
    then show "uint x < 2 ^ 31" by simp
    show "- (2 ^ 31) \<le> uint x" by (rule order.trans [of _ 0]) simp_all
  qed
  finally show ?thesis by (simp only: uint_nat)
qed

lemma signed_drop_bit_i32:
  "unat (x :: i32) < 2 ^ 31 \<Longrightarrow> unat (signed_drop_bit k x) = unat x div 2 ^ k"
proof -
  assume a: "unat x < 2 ^ 31"
  have nb: "\<not> bit x 31" by (rule not_bit_31 [OF a])
  have "signed_drop_bit k x = drop_bit k x"
    by (rule bit_eqI) (use nb in \<open>auto simp: bit_signed_drop_bit_iff bit_drop_bit_eq dest: bit_imp_le_length\<close>)
  then show ?thesis
    by (simp only: unsigned_drop_bit_eq) (simp add: drop_bit_eq_div take_bit_nat_eq_self)
qed

lemma unat_encode_comps:
  assumes n: "sint dram_channels = 2 ^ c" and c: "c \<le> 30"
    and r: "unat row < 2 ^ 15" "unat ch < 2 ^ c" "1 \<le> unat num_comps" "unat num_comps \<le> 32"
  shows "\<exists>a. encode_pim_comps_readres dram_channels ch row num_comps last_cmd = Inr a \<and>
    unat a = (((unat row * 32 + (unat num_comps - 1)) * 2 ^ c + unat ch) * 16 + (if last_cmd then 1 else 0)) * 64"
proof -
  let ?m = "num_comps - 1"
  have m: "unat ?m = unat num_comps - 1" using r(3) by (subst unat_sub) (simp_all add: word_le_nat_alt)
  have m31: "unat ?m < 2 ^ 31" "unat ?m < 32" using m r by simp_all
  have m3: "push_bit 2 1 - 1 = (3 :: i32)" by (simp)
  have rank: "unat (signed_drop_bit (2 + 2) ?m) = unat ?m div 16"
    using signed_drop_bit_i32 [OF m31(1), of 4] by simp
  have bg: "unat (signed_drop_bit 2 ?m AND 3) = unat ?m div 4 mod 4"
    using signed_drop_bit_i32 [OF m31(1), of 2] and_mask_mod [of "4::i32" 2 "signed_drop_bit 2 ?m"] by simp
  have bank: "unat (?m AND 3) = unat ?m mod 4"
    using and_mask_mod [of "4::i32" 2 ?m] by simp
  let ?a = "make_address dram_channels ch (signed_drop_bit (2 + 2) ?m) (signed_drop_bit 2 ?m AND 3)
    (?m AND 3) row (if last_cmd then 1 else 0)"
  have e: "encode_pim_comps_readres dram_channels ch row num_comps last_cmd = Inr ?a"
  proof -
    have "sint ?m < sint (push_bit (1 + 2 + 2) 1 :: i32)"
    proof -
      have "int (unat ?m) < int 32" using m31(2) by (simp only: of_nat_less_iff)
      then show ?thesis by (simp only: sint_eq_unat_i32 [OF m31(1)]) simp
    qed
    then show ?thesis by (simp only: encode_pim_comps_readres_def Let_def m3 ast_True)
  qed
  have s: "((x * 2 + m div 16) * 4 + m div 4 mod 4) * 4 + m mod 4 = x * 32 + m" for x m :: nat
  proof -
    have lin: "\<lbrakk>q = a; a * 4 + b = d; d * 4 + e = y\<rbrakk> \<Longrightarrow> ((x * 2 + q) * 4 + b) * 4 + e = x * 32 + y"
      for a b d e q y :: nat by simp
    show ?thesis
      by (rule lin [OF _ div_mult_mod_eq div_mult_mod_eq]) (simp add: div_mult2_eq [symmetric])
  qed
  have "unat ?a = (((((unat row * 2 + unat (signed_drop_bit (2 + 2) ?m)) * 4 + unat (signed_drop_bit 2 ?m AND 3)) * 4
     + unat (?m AND 3)) * 2 ^ c + unat ch) * 16 + unat (if last_cmd then 1 else 0 :: i32)) * 64"
    using rank bg bank m31 r by (intro unat_make_address [OF n c]) simp_all
  then have "unat ?a = (((unat row * 32 + unat ?m) * 2 ^ c + unat ch) * 16 + (if last_cmd then 1 else 0)) * 64"
    unfolding rank bg bank s by simp
  then show ?thesis using e m by simp
qed

subsection \<open>Correctness of the address arithmetic\<close>

text \<open>
  The column/channel swap loses no address, and after it consecutive 64-byte lines go to
  the 32 channels in turn: the channel of the swapped address is the line number modulo 32.
\<close>

theorem switch_co_ch_interleaves:
  "bij switch_co_ch \<and> unat (mask_channel 31 (switch_co_ch a)) = unat a div 64 mod 32"
proof
  show "bij switch_co_ch"
    using switch_co_ch_inj by (simp add: bij_def finite_UNIV_inj_surj)
  have m: "(31 :: addr_type) = 32 - 1" by simp
  have "unat (drop_bit 6 a AND 31) = unat a div 64 mod 32"
    unfolding m by (subst and_mask_mod [of _ 5]) (simp_all only: unat_drop_bit_eq, simp_all add: drop_bit_eq_div)
  then show "unat (mask_channel 31 (switch_co_ch a)) = unat a div 64 mod 32"
    by (simp add: mask_channel_switch unsigned_ucast_eq take_bit_nat_eq_self less_trans [of _ 32])
qed

lemma radix_div_mod: "b < m \<Longrightarrow> (a * m + b) div m = a \<and> (a * m + b) mod m = b" for a b m :: nat
  by simp

lemma mixed_radix: "\<lbrakk>a * m + b = c * m + d; b < m; d < m\<rbrakk> \<Longrightarrow> a = c \<and> b = d" for a b c d m :: nat
  by (metis add_right_cancel div_mult_self3 div_less mod_less mod_mult_self3 mult_0 add_0 less_nat_zero_code)

text \<open>
  Two commands encoded by \<open>encode_pim_comps_readres\<close> into the same address have the same
  channel, row, number of computations and last-command flag: nothing is lost in the packing.
\<close>

theorem encode_pim_comps_readres_inj:
  assumes "sint dram_channels = 2 ^ c" "c \<le> 30"
    and "unat row < 2 ^ 15" "unat ch < 2 ^ c" "1 \<le> unat n" "unat n \<le> 32"
    and "unat row' < 2 ^ 15" "unat ch' < 2 ^ c" "1 \<le> unat n'" "unat n' \<le> 32"
    and "encode_pim_comps_readres dram_channels ch row n lst =
         encode_pim_comps_readres dram_channels ch' row' n' lst'"
  shows "ch = ch' \<and> row = row' \<and> n = n' \<and> lst = lst'"
proof -
  obtain a where a: "encode_pim_comps_readres dram_channels ch row n lst = Inr a"
    "unat a = (((unat row * 32 + (unat n - 1)) * 2 ^ c + unat ch) * 16 + (if lst then 1 else 0)) * 64"
    using unat_encode_comps [OF assms(1-6)] by blast
  obtain b where b: "encode_pim_comps_readres dram_channels ch' row' n' lst' = Inr b"
    "unat b = (((unat row' * 32 + (unat n' - 1)) * 2 ^ c + unat ch') * 16 + (if lst' then 1 else 0)) * 64"
    using unat_encode_comps [OF assms(1,2,7-10)] by blast
  have "((unat row * 32 + (unat n - 1)) * 2 ^ c + unat ch) * 16 + (if lst then 1 else 0) =
        ((unat row' * 32 + (unat n' - 1)) * 2 ^ c + unat ch') * 16 + (if lst' then 1 else 0)"
    using a b assms(11) by simp
  moreover have "(if lst then 1 else 0 :: nat) < 16" "(if lst' then 1 else 0 :: nat) < 16" by simp_all
  ultimately have "(unat row * 32 + (unat n - 1)) * 2 ^ c + unat ch = (unat row' * 32 + (unat n' - 1)) * 2 ^ c + unat ch' \<and>
      (if lst then 1 else 0 :: nat) = (if lst' then 1 else 0)" by (rule mixed_radix)
  then have l: "lst = lst'" and
    e: "(unat row * 32 + (unat n - 1)) * 2 ^ c + unat ch = (unat row' * 32 + (unat n' - 1)) * 2 ^ c + unat ch'"
    by (auto split: if_splits)
  from mixed_radix [OF e assms(4,8)] have h: "unat ch = unat ch'" and
    e': "unat row * 32 + (unat n - 1) = unat row' * 32 + (unat n' - 1)" by auto
  from mixed_radix [OF e'] assms(5,6,9,10) have "unat row = unat row'" "unat n - 1 = unat n' - 1" by auto
  then show ?thesis using l h assms(5,9) by (simp add: word_unat_eq_iff)
qed

theorem encode_pim_comps_readres_inj_witness:
  "encode_pim_comps_readres 32 3 7 16 True \<noteq> encode_pim_comps_readres 32 3 7 15 True"
proof
  assume "encode_pim_comps_readres 32 3 7 16 True = encode_pim_comps_readres 32 3 7 15 True"
  from encode_pim_comps_readres_inj [of 32 5 7 3 16 7 3 15, OF _ _ _ _ _ _ _ _ _ _ this]
  show False by simp
qed

text \<open>
  \<open>make_address\<close> puts the channel where the interconnect looks for it: \<open>mask_channel\<close> gives
  back the channel of every address made of coordinates in range, and the other coordinates
  are recovered from the quotients of the address.
\<close>

theorem make_address_fields:
  assumes "sint dram_channels = 2 ^ c" "c \<le> 30"
    and "unat row < 2 ^ 15" "unat rank < 2" "unat bg < 4" "unat bank < 4" "unat ch < 2 ^ c" "unat col < 16"
  defines "a \<equiv> make_address dram_channels ch rank bg bank row col"
  shows "mask_channel (2 ^ c - 1) a = ch \<and> unat a div 64 mod 16 = unat col \<and>
    unat a div (1024 * 2 ^ c) mod 4 = unat bank \<and> unat a div (4096 * 2 ^ c) mod 4 = unat bg \<and>
    unat a div (16384 * 2 ^ c) mod 2 = unat rank \<and> unat a div (32768 * 2 ^ c) = unat row"
proof -
  define r where "r = ((unat row * 2 + unat rank) * 4 + unat bg) * 4 + unat bank"
  have u: "unat a = ((r * 2 ^ c + unat ch) * 16 + unat col) * 64"
    using unat_make_address [OF assms(1-8)] by (simp add: a_def r_def)
  have d1: "unat a div 64 = (r * 2 ^ c + unat ch) * 16 + unat col" unfolding u by simp
  have d2: "unat a div 1024 = r * 2 ^ c + unat ch"
  proof -
    have "unat a div (64 * 16) = r * 2 ^ c + unat ch"
      unfolding div_mult2_eq d1 using assms(8) by simp
    then show ?thesis by simp
  qed
  have d3: "unat a div (1024 * 2 ^ c) = r" unfolding div_mult2_eq d2 using assms(7) by simp
  have d4: "unat a div (k * 2 ^ c) = r div q" if "k = 1024 * q" for k q
  proof -
    have "unat a div (1024 * 2 ^ c * q) = r div q" unfolding div_mult2_eq [of _ _ q] d3 ..
    then show ?thesis using that by (simp add: ac_simps)
  qed
  have p: "unat (2 ^ c :: u64) = 2 ^ c" using assms(2) by (intro unat_exp) simp
  have c30: "unat ch < 2 ^ 32"
    by simp
  have "unat (drop_bit 10 a AND (2 ^ c - 1)) = unat ch"
    using and_mask_mod [OF p] d2 assms(7) by (simp only: unat_drop_bit_eq) (simp add: drop_bit_eq_div)
  then have "mask_channel (2 ^ c - 1) a = ch"
    by (simp only: mask_channel_def Let_def word_unat_eq_iff) (simp add: unsigned_ucast_eq take_bit_nat_eq_self)
  moreover have "unat a div 64 mod 16 = unat col" unfolding d1 using assms(8) by (simp only: mod_mult_self3) simp
  moreover have r4: "r mod 4 = unat bank" "r div 4 = (unat row * 2 + unat rank) * 4 + unat bg"
    unfolding r_def using radix_div_mod [OF assms(6)] by blast+
  moreover have r16: "r div 4 mod 4 = unat bg" "r div 16 = unat row * 2 + unat rank"
  proof -
    have q: "r div (4 * 4) = r div 4 div 4" by (rule div_mult2_eq)
    show "r div 4 mod 4 = unat bg" unfolding r4(2) using radix_div_mod [OF assms(5)] by blast
    show "r div 16 = unat row * 2 + unat rank"
      using q unfolding r4(2) conjunct1 [OF radix_div_mod [OF assms(5)]] by simp
  qed
  moreover have "r div 16 mod 2 = unat rank" "r div 32 = unat row"
  proof -
    have q: "r div (16 * 2) = r div 16 div 2" by (rule div_mult2_eq)
    show "r div 16 mod 2 = unat rank" unfolding r16(2) using radix_div_mod [OF assms(4)] by blast
    show "r div 32 = unat row" using q unfolding r16(2) conjunct1 [OF radix_div_mod [OF assms(4)]] by simp
  qed
  ultimately show ?thesis using d3 d4 [of 4096 4] d4 [of 16384 16] d4 [of 32768 32] by simp
qed

theorem make_address_fields_witness:
  "mask_channel 31 (make_address 32 13 1 2 3 29 5) = 13"
  using make_address_fields [of 32 5 29 1 2 3 13 5] by simp

end
