(* ===== verification/Config.thy ===== *)
theory Config
  imports Prelude
begin

text \<open>
  \<open>SimulationConfig\<close> (SimulationConfig.h): the configuration record that the simulator keeps in
  \<open>Config::global_config\<close> and hands to every component, and the enumerations it uses.
  The model's functions take it as the argument \<open>cfg\<close>.
\<close>

datatype CoreType = SYSTOLIC_OS | SYSTOLIC_WS
datatype DramType = DRAM | NEWTON | NEUPIMS
datatype IcntType = SIMPLE | BOOKSIM2
datatype RunMode = NPU_ONLY | NPU_PIM

record sim_config =
  model_name :: string
  model_params_b :: u32
  model_block_size :: u32
  model_vocab_size :: u32
  model_n_layer :: u32
  model_n_head :: u32
  model_n_embd :: u32
  run_mode :: RunMode
  sub_batch_mode :: bool
  ch_load_balancing :: bool
  kernel_fusion :: bool
  partition_alg_simple :: bool
  max_batch_size :: u32
  max_active_reqs :: u32
  max_seq_len :: u32
  HBM_size :: u64
  HBM_act_buf_size :: u64
  num_cores :: u32
  core_type :: CoreType
  core_freq :: u32
  core_width :: u32
  core_height :: u32
  n_tp :: u32
  vector_core_count :: u32
  vector_core_width :: u32
  process_bit :: u32
  layernorm_latency :: cycle_type
  softmax_latency :: cycle_type
  add_latency :: cycle_type
  mul_latency :: cycle_type
  exp_latency :: cycle_type
  gelu_latency :: cycle_type
  add_tree_latency :: cycle_type
  scalar_sqrt_latency :: cycle_type
  scalar_add_latency :: cycle_type
  scalar_mul_latency :: cycle_type
  sram_width :: u32
  sram_size :: u32
  spad_size :: u32
  accum_spad_size :: u32
  dram_type :: DramType
  dram_freq :: u32
  dram_channels :: u32
  dram_req_size :: u32
  pim_config_path :: string
  dram_page_size :: u32
  dram_banks_per_ch :: u32
  pim_comp_coverage :: u32
  operation_log_output_path :: string
  log_dir :: string
  request_input_seq_len :: u32
  request_interval :: u32
  request_total_cnt :: u32
  request_dataset_path :: string
  icnt_type :: IcntType
  icnt_config_path :: string
  icnt_freq :: u32
  icnt_latency :: u32
  scheduler_type :: string
  precision :: u32
  layout :: string

text \<open>\<open>SimulationConfig::align_address\<close>: round down to a DRAM request.\<close>

definition align_address :: "sim_config \<Rightarrow> u64 \<Rightarrow> fault + u64" where
  "align_address cfg addr =
     (if dram_req_size cfg = 0 then Inl Undefined
      else Inr (addr - (addr mod ucast (dram_req_size cfg))))"

text \<open>A configuration of the repository's own scale, on which the witnesses evaluate.\<close>

definition demo_cfg :: sim_config where
  "demo_cfg =
  \<lparr>model_name = '''', model_params_b = 7, model_block_size = 2048,
   model_vocab_size = 50257, model_n_layer = 32, model_n_head = 32, model_n_embd = 4096,
   run_mode = NPU_PIM, sub_batch_mode = True, ch_load_balancing = True, kernel_fusion = True,
   partition_alg_simple = False, max_batch_size = 4, max_active_reqs = 2, max_seq_len = 32,
   HBM_size = 34359738368, HBM_act_buf_size = 1073741824, num_cores = 1,
   core_type = SYSTOLIC_WS, core_freq = 1000, core_width = 128, core_height = 128, n_tp = 4,
   vector_core_count = 1, vector_core_width = 128, process_bit = 16, layernorm_latency = 100,
   softmax_latency = 100, add_latency = 1, mul_latency = 1, exp_latency = 1,
   gelu_latency = 100, add_tree_latency = 1, scalar_sqrt_latency = 1, scalar_add_latency = 1,
   scalar_mul_latency = 1, sram_width = 32, sram_size = 65536, spad_size = 8192,
   accum_spad_size = 8192, dram_type = NEUPIMS, dram_freq = 1000, dram_channels = 32,
   dram_req_size = 64, pim_config_path = '''', dram_page_size = 1024, dram_banks_per_ch = 32,
   pim_comp_coverage = 1024, operation_log_output_path = '''', log_dir = '''',
   request_input_seq_len = 1, request_interval = 1, request_total_cnt = 4,
   request_dataset_path = '''', icnt_type = SIMPLE, icnt_config_path = '''', icnt_freq = 2000,
   icnt_latency = 1, scheduler_type = '''', precision = 2, layout = ''''\<rparr>"

end
