(* ===== verification/Allocator.thy ===== *)
theory Allocator
  imports Addr Config
begin

text \<open>
  The three address allocators (allocator/): \<open>WgtAlloc\<close> and \<open>ActAlloc\<close> bump a top address and
  round it up to the DRAM interleaving unit; \<open>KVCacheAlloc\<close> hands out fixed blocks (NPU layout)
  or DRAM rows of one channel (PIM layout) from free lists.  The singletons are state records
  passed and returned.
\<close>

subsection \<open>Weight allocator\<close>

record wgt_alloc =
  wgt_base_addr :: addr_type
  wgt_top_addr :: u64

definition WgtAlloc_init :: wgt_alloc where
  "WgtAlloc_init = \<lparr>wgt_base_addr = 0, wgt_top_addr = 0\<rparr>"

definition wgt_alignment :: "sim_config \<Rightarrow> addr_type" where
  "wgt_alignment cfg = ucast (dram_req_size cfg * dram_channels cfg)"

definition WgtAlloc_allocate ::
  "sim_config \<Rightarrow> u64 \<Rightarrow> wgt_alloc \<Rightarrow> fault + (addr_type \<times> wgt_alloc)" where
  "WgtAlloc_allocate cfg sz s =
     (let alignment = wgt_alignment cfg;
          result = wgt_top_addr s;
          t = wgt_top_addr s + sz;
          t = (if t AND (alignment - 1) \<noteq> 0
               then t + (alignment - (t AND (alignment - 1))) else t)
      in Inr (result, s\<lparr>wgt_top_addr := t\<rparr>))"

definition WgtAlloc_get_next_aligned_addr :: "addr_type \<Rightarrow> wgt_alloc \<Rightarrow> fault + addr_type" where
  "WgtAlloc_get_next_aligned_addr alignment s =
     ast (wgt_top_addr s > 0) (Inr (align alignment (wgt_top_addr s) + alignment))"

subsection \<open>Activation allocator\<close>

record act_alloc =
  act_base_addr :: addr_type
  act_top_addr :: addr_type
  act_buf_size :: u64
  act_buf_limit :: u64

definition ActAlloc_init :: "sim_config \<Rightarrow> addr_type \<Rightarrow> act_alloc" where
  "ActAlloc_init cfg base_addr =
     \<lparr>act_base_addr = base_addr, act_top_addr = base_addr,
      act_buf_size = HBM_act_buf_size cfg,
      act_buf_limit = base_addr + HBM_act_buf_size cfg\<rparr>"

text \<open>\<open>ActAlloc::allocate\<close> narrows \<open>AddressConfig::alignment\<close> to 32 bits.\<close>

definition ActAlloc_allocate ::
  "addr_type \<Rightarrow> u64 \<Rightarrow> act_alloc \<Rightarrow> fault + (addr_type \<times> act_alloc)" where
  "ActAlloc_allocate cfg_alignment sz s =
     ast (act_top_addr s + sz < act_buf_limit s)
       (let alignment = (ucast cfg_alignment :: u32);
            result = act_top_addr s;
            t = act_top_addr s + sz;
            t = (if t AND ucast (alignment - 1) \<noteq> 0
                 then t + (ucast alignment - (t AND ucast (alignment - 1))) else t)
        in Inr (result, s\<lparr>act_top_addr := t\<rparr>))"

definition ActAlloc_get_next_aligned_addr :: "addr_type \<Rightarrow> act_alloc \<Rightarrow> fault + addr_type" where
  "ActAlloc_get_next_aligned_addr alignment s =
     ast (act_base_addr s > 0) (ast (act_buf_size s > 0)
       (Inr (align alignment (act_buf_limit s) + alignment)))"

definition ActAlloc_flush :: "act_alloc \<Rightarrow> act_alloc" where
  "ActAlloc_flush s = s\<lparr>act_top_addr := act_base_addr s\<rparr>"

subsection \<open>Key/value cache allocator\<close>

record kv_alloc =
  kv_mode :: RunMode
  kv_base_addr :: addr_type
  kv_cache_size :: u64
  kv_cache_limit :: u64
  kv_cache_entry_size :: u64
  kv_cache :: "addr_type list"
  kv_dram_channels :: u64
  kv_base_row :: u64
  kv_dram_row_size :: u32
  kv_num_ele_per_row :: u32
  kv_bank_per_ch :: u32
  kv_rows :: "u64 list list"

text \<open>The loop of \<open>init_npu_layout\<close>: \<open>n\<close> block base addresses, \<open>stride\<close> bytes apart.\<close>

fun npu_entries :: "nat \<Rightarrow> addr_type \<Rightarrow> addr_type \<Rightarrow> addr_type list" where
  "npu_entries 0 next_addr stride = []"
| "npu_entries (Suc n) next_addr stride = next_addr # npu_entries n (next_addr + stride) stride"

definition init_npu_layout :: "sim_config \<Rightarrow> addr_type \<Rightarrow> kv_alloc \<Rightarrow> fault + kv_alloc" where
  "init_npu_layout cfg base_addr s =
     (if n_tp cfg = 0 \<or> model_n_head cfg = 0 then Inl Undefined else
      let h = model_n_head cfg div n_tp cfg;
          d_k = model_n_embd cfg div model_n_head cfg;
          entry = 32;
          cache_size = ucast (max_active_reqs cfg * max_seq_len cfg * h * d_k * precision cfg);
          num_kv_cache_entries =
            (ucast (max_active_reqs cfg * max_seq_len cfg * h) :: u64) div entry
      in ast (base_addr + cache_size < HBM_size cfg)
           (Inr (s\<lparr>kv_base_addr := base_addr, kv_cache_entry_size := entry,
                  kv_cache_size := cache_size,
                  kv_cache := kv_cache s @ npu_entries (unat num_kv_cache_entries) base_addr
                                (entry * ucast d_k * ucast (precision cfg))\<rparr>)))"

text \<open>
  \<open>init_pim_layout\<close>: the rows of one channel are those from the row after \<open>base_addr\<close> up to the
  end of the bank.  \<open>free_rows_size\<close> is a 32-bit difference: with a base row past the end of the
  bank it wraps around, and from \<open>2 ^ 31\<close> rows on the int counter of the loop would overflow.
\<close>

definition free_rows :: "u64 \<Rightarrow> u32 \<Rightarrow> u64 list" where
  "free_rows base_row free_rows_size =
     filter (\<lambda>r. r < 32768) (map (\<lambda>j. base_row + of_nat j) [0..<unat free_rows_size])"

definition init_pim_layout :: "sim_config \<Rightarrow> addr_type \<Rightarrow> kv_alloc \<Rightarrow> fault + kv_alloc" where
  "init_pim_layout cfg base_addr s =
     (if precision cfg = 0 then Inl Undefined else
      let row_per_bank = 32768; row_offset = 20;
          msk = NOT (push_bit row_offset 1 - 1);
          base_addr = base_addr AND msk;
          base_addr = base_addr + push_bit row_offset 1;
          base_row = drop_bit row_offset base_addr;
          free_rows_size = (ucast (row_per_bank - base_row) :: u32)
      in if dram_channels cfg \<noteq> 0 \<and> 2 ^ 31 \<le> unat free_rows_size then Inl Undefined else
         Inr (s\<lparr>kv_dram_row_size := dram_page_size cfg,
                kv_num_ele_per_row := dram_page_size cfg div precision cfg,
                kv_bank_per_ch := dram_banks_per_ch cfg,
                kv_dram_channels := ucast (dram_channels cfg),
                kv_base_addr := base_addr, kv_base_row := base_row,
                kv_rows := kv_rows s @
                  replicate (unat (dram_channels cfg)) (free_rows base_row free_rows_size)\<rparr>))"

definition KVCacheAlloc_init :: "sim_config \<Rightarrow> addr_type \<Rightarrow> kv_alloc \<Rightarrow> fault + kv_alloc" where
  "KVCacheAlloc_init cfg base_addr s =
     (let s = s\<lparr>kv_mode := run_mode cfg\<rparr>
      in case run_mode cfg of
           NPU_ONLY \<Rightarrow> init_npu_layout cfg base_addr s
         | NPU_PIM \<Rightarrow> init_pim_layout cfg base_addr s)"

definition kv_allocate :: "kv_alloc \<Rightarrow> fault + (addr_type \<times> kv_alloc)" where
  "kv_allocate s =
     ast (kv_mode s = NPU_ONLY) (ast (length (kv_cache s) > 0)
       (bindE (front (kv_cache s)) (\<lambda>addr. Inr (addr, s\<lparr>kv_cache := tl (kv_cache s)\<rparr>))))"

definition kv_allocate_ch :: "nat \<Rightarrow> kv_alloc \<Rightarrow> fault + (u64 \<times> kv_alloc)" where
  "kv_allocate_ch ch s =
     ast (kv_mode s = NPU_PIM) (bindE (at (kv_rows s) ch) (\<lambda>rs. ast (length rs > 0)
       (bindE (front rs) (\<lambda>row. Inr (row, s\<lparr>kv_rows := (kv_rows s)[ch := tl rs]\<rparr>)))))"

definition kv_free :: "addr_type \<Rightarrow> kv_alloc \<Rightarrow> fault + kv_alloc" where
  "kv_free addr s = ast (kv_mode s = NPU_ONLY) (Inr (s\<lparr>kv_cache := kv_cache s @ [addr]\<rparr>))"

definition kv_free_ch :: "nat \<Rightarrow> u64 \<Rightarrow> kv_alloc \<Rightarrow> fault + kv_alloc" where
  "kv_free_ch ch row s =
     ast (kv_mode s = NPU_PIM) (bindE (at (kv_rows s) ch) (\<lambda>rs.
       Inr (s\<lparr>kv_rows := (kv_rows s)[ch := rs @ [row]]\<rparr>)))"

subsection \<open>The contract of a bump allocator\<close>

text \<open>A block is a base address with a size; blocks listed in ascending order that do not overlap.\<close>

fun ascending_blocks :: "nat \<Rightarrow> (addr_type \<times> u64) list \<Rightarrow> nat \<Rightarrow> bool" where
  "ascending_blocks lo [] hi \<longleftrightarrow> lo \<le> hi"
| "ascending_blocks lo ((a, n) # bs) hi \<longleftrightarrow>
     lo \<le> unat a \<and> ascending_blocks (unat a + unat n) bs hi"

text \<open>Allocate blocks of the given sizes one after the other.\<close>

fun alloc_seq :: "(u64 \<Rightarrow> 's \<Rightarrow> fault + (addr_type \<times> 's)) \<Rightarrow> 's \<Rightarrow> u64 list \<Rightarrow>
    fault + ((addr_type \<times> u64) list \<times> 's)" where
  "alloc_seq alloc s [] = Inr ([], s)"
| "alloc_seq alloc s (n # ns) =
     bindE (alloc n s) (\<lambda>(a, s'). bindE (alloc_seq alloc s' ns) (\<lambda>(bs, s''). Inr ((a, n) # bs, s'')))"

locale bump_allocator =
  fixes alloc :: "u64 \<Rightarrow> 's \<Rightarrow> fault + (addr_type \<times> 's)"
    and top_of :: "'s \<Rightarrow> addr_type"
    and unit :: nat
    and invar :: "'s \<Rightarrow> bool"
  assumes alloc_step:
    "\<lbrakk>invar s; alloc n s = Inr (a, s'); unat (top_of s) + unat n + unit \<le> 2 ^ 64\<rbrakk> \<Longrightarrow>
       a = top_of s \<and> unat (top_of s) + unat n \<le> unat (top_of s') \<and>
       unat (top_of s') \<le> unat (top_of s) + unat n + unit \<and> invar s'"
    and invar_unit: "invar s \<Longrightarrow> unit dvd unat (top_of s)"
begin

lemma alloc_seq_blocks:
  assumes "invar s" "alloc_seq alloc s ns = Inr (bs, s')"
    and "unat (top_of s) + (\<Sum>n\<leftarrow>ns. unat n + unit) \<le> 2 ^ 64"
  shows "ascending_blocks (unat (top_of s)) bs (unat (top_of s')) \<and> map snd bs = ns \<and>
         (\<forall>(a, n) \<in> set bs. unit dvd unat a) \<and> invar s'"
  using assms
proof (induction ns arbitrary: s bs)
  case Nil
  then show ?case by simp
next
  case (Cons n ns)
  from Cons.prems(2) obtain a t bs' where a: "alloc n s = Inr (a, t)"
    and rest: "alloc_seq alloc t ns = Inr (bs', s')" and bs: "bs = (a, n) # bs'"
    by (auto split: prod.splits)
  have step: "a = top_of s" "unat (top_of s) + unat n \<le> unat (top_of t)"
    "unat (top_of t) \<le> unat (top_of s) + unat n + unit" "invar t"
    using alloc_step [OF Cons.prems(1) a] Cons.prems(3) by simp_all
  have "ascending_blocks (unat (top_of t)) bs' (unat (top_of s')) \<and> map snd bs' = ns \<and>
        (\<forall>(a, n) \<in> set bs'. unit dvd unat a) \<and> invar s'"
    by (rule Cons.IH [OF step(4) rest]) (use step(3) Cons.prems(3) in simp)
  moreover have "ascending_blocks lo xs hi" if "ascending_blocks lo' xs hi" "lo \<le> lo'" for lo lo' xs hi
    using that by (cases xs) auto
  ultimately show ?case
    using bs step invar_unit [OF Cons.prems(1)] by auto
qed

end

lemma ascending_blocks_disjoint:
  assumes "ascending_blocks lo bs hi" "i < j" "j < length bs"
  shows "unat (fst (bs ! i)) + unat (snd (bs ! i)) \<le> unat (fst (bs ! j))"
  using assms
proof (induction bs arbitrary: lo i j)
  case (Cons b bs)
  obtain a n where b: "b = (a, n)" by fastforce
  have ge: "lo \<le> unat (fst (xs ! k))" if "ascending_blocks lo xs hi" "k < length xs" for lo xs k
    using that
  proof (induction xs arbitrary: lo k)
    case (Cons x xs)
    then show ?case by (cases x; cases k) force+
  qed simp
  from Cons.prems obtain j' where j: "j = Suc j'" by (cases j) auto
  show ?case
  proof (cases i)
    case 0
    then show ?thesis using Cons.prems b j ge by simp
  next
    case (Suc i')
    then show ?thesis using Cons.prems b j Cons.IH [of "unat a + unat n" i' j'] by simp
  qed
qed simp

lemma mod_eq_0_round: "(x::nat) mod m \<noteq> 0 \<Longrightarrow> 0 < m \<Longrightarrow> x \<le> (x div m + 1) * m \<and> (x div m + 1) * m \<le> x + m"
proof -
  assume m: "0 < m"
  have "x = x div m * m + x mod m" by (rule div_mult_mod_eq [symmetric])
  moreover have "x mod m < m" using m by simp
  ultimately show ?thesis by (simp only: add_mult_distrib mult_1) linarith
qed

lemma round_up_step:
  assumes "unat alignment = 2 ^ k" "unat t + 2 ^ k \<le> 2 ^ 64"
  shows "unat t \<le> unat (round_up alignment t) \<and> unat (round_up alignment t) \<le> unat t + 2 ^ k \<and>
    2 ^ k dvd unat (round_up alignment t)"
  using unat_round_up [OF assms] mod_eq_0_round [of "unat t" "2 ^ k"] by (auto simp: mod_eq_0_iff_dvd)

text \<open>All three bump allocators of the code meet the contract when the unit is a power of two.\<close>

definition wgt_inv :: "sim_config \<Rightarrow> wgt_alloc \<Rightarrow> bool" where
  "wgt_inv cfg s \<longleftrightarrow> (\<exists>k. unat (wgt_alignment cfg) = 2 ^ k) \<and>
     unat (wgt_alignment cfg) dvd unat (wgt_top_addr s)"

lemma WgtAlloc_allocate_eq:
  "WgtAlloc_allocate cfg n s =
     Inr (wgt_top_addr s, s\<lparr>wgt_top_addr := round_up (wgt_alignment cfg) (wgt_top_addr s + n)\<rparr>)"
  by (simp add: WgtAlloc_allocate_def round_up_def Let_def)

interpretation wgt: bump_allocator "WgtAlloc_allocate cfg" wgt_top_addr "unat (wgt_alignment cfg)" "wgt_inv cfg"
  for cfg
proof unfold_locales
  fix s n a s'
  assume inv: "wgt_inv cfg s" and al: "WgtAlloc_allocate cfg n s = Inr (a, s')"
    and fits: "unat (wgt_top_addr s) + unat n + unat (wgt_alignment cfg) \<le> 2 ^ 64"
  from inv obtain k where k: "unat (wgt_alignment cfg) = 2 ^ k" by (auto simp: wgt_inv_def)
  have u: "unat (wgt_top_addr s + n) = unat (wgt_top_addr s) + unat n"
  proof (rule unat_plus_u64)
    have "(0::nat) < 2 ^ k" by simp
    then show "unat (wgt_top_addr s) + unat n < 2 ^ 64" using fits unfolding k by linarith
  qed
  have "unat (wgt_top_addr s + n) + 2 ^ k \<le> 2 ^ 64" using u fits k by simp
  from round_up_step [OF k this] show "a = wgt_top_addr s \<and>
       unat (wgt_top_addr s) + unat n \<le> unat (wgt_top_addr s') \<and>
       unat (wgt_top_addr s') \<le> unat (wgt_top_addr s) + unat n + unat (wgt_alignment cfg) \<and> wgt_inv cfg s'"
    using al inv u k by (auto simp: WgtAlloc_allocate_eq wgt_inv_def)
next
  fix s assume "wgt_inv cfg s"
  then show "unat (wgt_alignment cfg) dvd unat (wgt_top_addr s)" by (simp add: wgt_inv_def)
qed

definition act_unit :: "addr_type \<Rightarrow> u32" where
  "act_unit cfg_alignment = ucast cfg_alignment"

definition act_inv :: "addr_type \<Rightarrow> act_alloc \<Rightarrow> bool" where
  "act_inv al s \<longleftrightarrow> (\<exists>k. unat (act_unit al) = 2 ^ k) \<and> unat (act_unit al) dvd unat (act_top_addr s)"

lemma ActAlloc_allocate_eq:
  assumes "unat (act_unit al) = 2 ^ k"
  shows "ActAlloc_allocate al n s =
     ast (act_top_addr s + n < act_buf_limit s)
       (Inr (act_top_addr s, s\<lparr>act_top_addr := round_up (ucast (act_unit al)) (act_top_addr s + n)\<rparr>))"
proof -
  have nz: "act_unit al \<noteq> 0" using assms by auto
  have "unat (ucast (act_unit al) :: u64) \<noteq> unat (0 :: u64)" using assms by simp
  then have "(ucast (act_unit al) :: u64) \<noteq> 0" by metis
  then have "unat (ucast (act_unit al - 1) :: u64) = unat (ucast (act_unit al) - 1 :: u64)"
    using nz by (simp add: unat_minus_one)
  then have "(ucast (act_unit al - 1) :: u64) = ucast (act_unit al) - 1" by (simp add: word_unat_eq_iff)
  then show ?thesis
    by (simp add: ActAlloc_allocate_def round_up_def Let_def act_unit_def)
qed

interpretation act: bump_allocator "ActAlloc_allocate al" act_top_addr "unat (act_unit al)" "act_inv al"
  for al
proof unfold_locales
  fix s n a s'
  assume inv: "act_inv al s" and alc: "ActAlloc_allocate al n s = Inr (a, s')"
    and fits: "unat (act_top_addr s) + unat n + unat (act_unit al) \<le> 2 ^ 64"
  from inv obtain k where k: "unat (act_unit al) = 2 ^ k" by (auto simp: act_inv_def)
  have k64: "unat (ucast (act_unit al) :: u64) = 2 ^ k" using k by simp
  have u: "unat (act_top_addr s + n) = unat (act_top_addr s) + unat n"
  proof (rule unat_plus_u64)
    have "(0::nat) < 2 ^ k" by simp
    then show "unat (act_top_addr s) + unat n < 2 ^ 64" using fits unfolding k by linarith
  qed
  have "unat (act_top_addr s + n) + 2 ^ k \<le> 2 ^ 64" using u fits k by simp
  from round_up_step [OF k64 this] show "a = act_top_addr s \<and>
       unat (act_top_addr s) + unat n \<le> unat (act_top_addr s') \<and>
       unat (act_top_addr s') \<le> unat (act_top_addr s) + unat n + unat (act_unit al) \<and> act_inv al s'"
    using alc inv u k by (auto simp: ActAlloc_allocate_eq [OF k] act_inv_def)
next
  fix s assume "act_inv al s"
  then show "unat (act_unit al) dvd unat (act_top_addr s)" by (simp add: act_inv_def)
qed

subsection \<open>The contract of a free list\<close>

text \<open>
  A client of a free list holds what it took and may give back only what it holds.  \<open>pool_run\<close>
  runs a sequence of such operations; giving back something not held is a client error.
\<close>

datatype 'x pool_op = Take | Give 'x

fun pool_run :: "('s \<Rightarrow> fault + ('x \<times> 's)) \<Rightarrow> ('x \<Rightarrow> 's \<Rightarrow> fault + 's) \<Rightarrow> 'x list \<Rightarrow> 's \<Rightarrow>
    'x pool_op list \<Rightarrow> fault + ('x list \<times> 's)" where
  "pool_run take_op give_op held s [] = Inr (held, s)"
| "pool_run take_op give_op held s (Take # ops) =
     bindE (take_op s) (\<lambda>(x, s'). pool_run take_op give_op (x # held) s' ops)"
| "pool_run take_op give_op held s (Give x # ops) =
     (if x \<in> set held
      then bindE (give_op x s) (\<lambda>s'. pool_run take_op give_op (remove1 x held) s' ops)
      else Inl Undefined)"

locale free_pool =
  fixes take_op :: "'s \<Rightarrow> fault + ('x \<times> 's)"
    and give_op :: "'x \<Rightarrow> 's \<Rightarrow> fault + 's"
    and free_of :: "'s \<Rightarrow> 'x list"
  assumes take_law: "take_op s = Inr (x, s') \<Longrightarrow> free_of s = x # free_of s'"
    and give_law: "give_op x s = Inr s' \<Longrightarrow> free_of s' = free_of s @ [x]"
begin

lemma pool_run_mset:
  "pool_run take_op give_op held s ops = Inr (held', s') \<Longrightarrow>
     mset held' + mset (free_of s') = mset held + mset (free_of s)"
proof (induction ops arbitrary: held s)
  case Nil
  then show ?case by simp
next
  case (Cons oper ops)
  show ?case
  proof (cases oper)
    case Take
    with Cons.prems obtain x t where "take_op s = Inr (x, t)"
      and "pool_run take_op give_op (x # held) t ops = Inr (held', s')" by auto
    then show ?thesis using Cons.IH take_law by fastforce
  next
    case (Give x)
    with Cons.prems obtain t where "x \<in> set held" "give_op x s = Inr t"
      and "pool_run take_op give_op (remove1 x held) t ops = Inr (held', s')"
      by (auto split: if_splits)
    then show ?thesis using Cons.IH give_law by fastforce
  qed
qed

lemma pool_run_distinct:
  assumes "pool_run take_op give_op held s ops = Inr (held', s')" "distinct (held @ free_of s)"
  shows "distinct (held' @ free_of s') \<and> set held' \<union> set (free_of s') = set held \<union> set (free_of s)"
proof -
  have m: "mset (held' @ free_of s') = mset (held @ free_of s)"
    using pool_run_mset [OF assms(1)] by simp
  have "distinct (held' @ free_of s')" using mset_eq_imp_distinct_iff [OF m] assms(2) by simp
  moreover have "set (held' @ free_of s') = set (held @ free_of s)" by (rule mset_eq_setD [OF m])
  ultimately show ?thesis by simp
qed

end

lemma kv_allocate_Inr:
  "kv_allocate s = Inr (a, s') \<longleftrightarrow>
     kv_mode s = NPU_ONLY \<and> kv_cache s \<noteq> [] \<and> a = hd (kv_cache s) \<and> s' = s\<lparr>kv_cache := tl (kv_cache s)\<rparr>"
  by (cases "kv_cache s") (auto simp: kv_allocate_def)

lemma kv_allocate_ch_Inr:
  "kv_allocate_ch ch s = Inr (r, s') \<longleftrightarrow>
     kv_mode s = NPU_PIM \<and> ch < length (kv_rows s) \<and> kv_rows s ! ch \<noteq> [] \<and>
     r = hd (kv_rows s ! ch) \<and> s' = s\<lparr>kv_rows := (kv_rows s)[ch := tl (kv_rows s ! ch)]\<rparr>"
  by (cases "kv_rows s ! ch") (auto simp: kv_allocate_ch_def)

interpretation kv_blocks: free_pool kv_allocate kv_free kv_cache
  by unfold_locales (auto simp: kv_allocate_Inr kv_free_def)

interpretation kv_channel: free_pool "kv_allocate_ch ch" "kv_free_ch ch" "\<lambda>s. if ch < length (kv_rows s) then kv_rows s ! ch else []"
  for ch
  by unfold_locales (auto simp: kv_allocate_ch_Inr kv_free_ch_def)

subsection \<open>Correctness of the allocators\<close>

text \<open>
  C35: Weights laid out by any sequence of \<open>WgtAlloc::allocate\<close> calls occupy pairwise disjoint
  byte ranges, each starting on a multiple of the DRAM interleaving unit, as long as the sizes
  and the rounding fit into 64 bits and the unit is a power of two.
\<close>

theorem wgt_allocations_disjoint:
  assumes "unat (wgt_alignment cfg) = 2 ^ k" "2 ^ k dvd unat (wgt_top_addr s)"
    and "alloc_seq (WgtAlloc_allocate cfg) s ns = Inr (bs, s')"
    and "unat (wgt_top_addr s) + (\<Sum>n\<leftarrow>ns. unat n + unat (wgt_alignment cfg)) \<le> 2 ^ 64"
    and "i < j" "j < length ns"
  shows "snd (bs ! i) = ns ! i \<and> unat (fst (bs ! i)) + unat (ns ! i) \<le> unat (fst (bs ! j)) \<and>
    2 ^ k dvd unat (fst (bs ! j))"
proof -
  have "wgt_inv cfg s" using assms(1,2) by (auto simp: wgt_inv_def)
  from wgt.alloc_seq_blocks [OF this assms(3,4)] obtain hi where
    b: "ascending_blocks (unat (wgt_top_addr s)) bs hi" and m: "map snd bs = ns" and
    al: "\<forall>(a, n) \<in> set bs. unat (wgt_alignment cfg) dvd unat a" by blast
  have l: "length bs = length ns" and si: "snd (bs ! i) = ns ! i"
    using m assms(5,6) by auto
  have "bs ! j \<in> set bs" using l assms(6) by simp
  then have "2 ^ k dvd unat (fst (bs ! j))" using al assms(1) by auto
  then show ?thesis
    using ascending_blocks_disjoint [OF b assms(5)] l si assms(6) by simp
qed

theorem wgt_allocations_disjoint_witness:
  "\<exists>bs s'. alloc_seq (WgtAlloc_allocate demo_cfg) WgtAlloc_init [100, 5000, 7] = Inr (bs, s') \<and>
     unat (fst (bs ! 1)) + 5000 \<le> unat (fst (bs ! 2)) \<and> 2 ^ 11 dvd unat (fst (bs ! 2))"
proof -
  have al: "unat (wgt_alignment demo_cfg) = 2 ^ 11"
    by (simp add: wgt_alignment_def demo_cfg_def)
  obtain bs s' where run: "alloc_seq (WgtAlloc_allocate demo_cfg) WgtAlloc_init [100, 5000, 7] = Inr (bs, s')"
    by (simp add: WgtAlloc_allocate_eq)
  have "snd (bs ! 1) = [100, 5000, 7] ! 1 \<and>
      unat (fst (bs ! 1)) + unat ([100, 5000, 7 :: u64] ! 1) \<le> unat (fst (bs ! 2)) \<and>
      2 ^ 11 dvd unat (fst (bs ! 2))"
    by (rule wgt_allocations_disjoint [OF al _ run]) (simp_all add: al WgtAlloc_init_def)
  with run show ?thesis by auto
qed

text \<open>
  A successful \<open>ActAlloc::allocate\<close> returns the old top; the new block ends strictly below the
  buffer limit, and when the limit is aligned the rounded top does not pass it either.
\<close>

theorem act_allocate_within_buffer:
  assumes "unat (act_unit al) = 2 ^ k" "2 ^ k dvd unat (act_buf_limit s)"
    and "unat (act_top_addr s) + unat n < 2 ^ 64"
    and "ActAlloc_allocate al n s = Inr (a, s')"
  shows "a = act_top_addr s \<and> unat a + unat n < unat (act_buf_limit s) \<and>
    unat a + unat n \<le> unat (act_top_addr s') \<and> unat (act_top_addr s') \<le> unat (act_buf_limit s) \<and>
    act_buf_limit s' = act_buf_limit s"
proof -
  let ?u = "ucast (act_unit al) :: u64" and ?t = "act_top_addr s + n"
  have u64: "unat ?u = 2 ^ k" using assms(1) by simp
  have t: "unat ?t = unat (act_top_addr s) + unat n" using assms(3) by (rule unat_plus_u64)
  from assms(4) have lt: "unat ?t < unat (act_buf_limit s)" and a: "a = act_top_addr s"
    and s': "s' = s\<lparr>act_top_addr := round_up ?u ?t\<rparr>"
    by (auto simp: ActAlloc_allocate_eq [OF assms(1)] word_less_nat_alt)
  from assms(2) obtain q where q: "unat (act_buf_limit s) = 2 ^ k * q" by blast
  have dq: "unat ?t div 2 ^ k < q" using lt q by (simp add: less_mult_imp_div_less mult.commute)
  have le: "(unat ?t div 2 ^ k + 1) * 2 ^ k \<le> unat (act_buf_limit s)"
    using mult_le_mono1 [of "unat ?t div 2 ^ k + 1" q "2 ^ k"] dq q by (simp add: mult.commute)
  have "unat (round_up ?u ?t) \<le> unat (act_buf_limit s) \<and> unat ?t \<le> unat (round_up ?u ?t)"
  proof (cases "unat ?t mod 2 ^ k = 0")
    case True
    then have "unat (?t AND (?u - 1)) = 0" using and_mask_mod [OF u64] by simp
    then have "round_up ?u ?t = ?t" by (simp add: round_up_def unat_eq_zero)
    then show ?thesis using lt by simp
  next
    case False
    have "(unat ?t div 2 ^ k + 1) * 2 ^ k < 2 ^ 64"
      by (rule le_less_trans [OF le]) simp
    from unat_round_up_lt [OF u64 False this] show ?thesis
      using le mod_eq_0_round [OF False] by simp
  qed
  then show ?thesis using a s' t lt by simp
qed

theorem act_allocate_within_buffer_witness:
  "\<exists>a s'. ActAlloc_allocate 2048 5000 (ActAlloc_init demo_cfg 4096) = Inr (a, s') \<and>
     unat a + 5000 < 4096 + 1073741824"
proof -
  have u: "unat (act_unit 2048) = 2 ^ 11" by (simp add: act_unit_def)
  obtain a s' where al: "ActAlloc_allocate 2048 5000 (ActAlloc_init demo_cfg 4096) = Inr (a, s')"
    by (simp add: ActAlloc_allocate_eq [OF u] ActAlloc_init_def demo_cfg_def)
  have "unat a + unat (5000 :: u64) < unat (act_buf_limit (ActAlloc_init demo_cfg 4096))"
    by (rule act_allocate_within_buffer [OF u _ _ al, THEN conjunct2, THEN conjunct1])
      (simp_all add: ActAlloc_init_def demo_cfg_def)
  with al show ?thesis by (intro exI) (simp add: ActAlloc_init_def demo_cfg_def)
qed

lemma unat_times3:
  "unat a * unat b * unat c < 2 ^ LENGTH('a) \<Longrightarrow> unat (a * b * c :: 'a::len word) = unat a * unat b * unat c"
  by (simp add: unat_word_ariths mod_simps)

lemma pim_base_row:
  assumes "unat base_addr + 2 ^ 20 \<le> 2 ^ 64 - 1"
  shows "unat (drop_bit 20 ((base_addr AND NOT (push_bit 20 1 - 1)) + push_bit 20 1) :: u64) =
    unat base_addr div 2 ^ 20 + 1"
proof -
  have m: "base_addr AND NOT (push_bit 20 1 - 1) = push_bit 20 (drop_bit 20 base_addr)"
    unfolding push_1_minus_1 by (rule bit_eqI) (auto simp: bit_simps)
  have p: "push_bit 20 (1 :: u64) = 1048576" by simp
  have d: "unat (drop_bit 20 base_addr) = unat base_addr div 2 ^ 20"
    by (simp only: unsigned_drop_bit_eq) (simp add: drop_bit_eq_div take_bit_nat_eq_self)
  have le: "unat base_addr div 2 ^ 20 * 2 ^ 20 \<le> unat base_addr" by (rule div_times_less_eq_dividend)
  have u: "unat (push_bit 20 (drop_bit 20 base_addr)) = unat base_addr div 2 ^ 20 * 2 ^ 20"
    using d by (subst unat_push_bit) (simp_all add: div_less_iff_less_mult)
  have s: "unat (push_bit 20 (drop_bit 20 base_addr) + push_bit 20 1 :: u64) =
      unat base_addr div 2 ^ 20 * 2 ^ 20 + 2 ^ 20"
    unfolding p using u le assms by (subst unat_plus_u64) simp_all
  have "unat (drop_bit 20 (push_bit 20 (drop_bit 20 base_addr) + push_bit 20 1) :: u64) =
      (unat base_addr div 2 ^ 20 * 2 ^ 20 + 2 ^ 20) div 2 ^ 20"
    by (simp only: unat_drop_bit_eq s) (simp only: drop_bit_eq_div)
  then show ?thesis unfolding m by simp
qed

lemma free_rows_set:
  assumes "unat b < 2 ^ 44" "n = (ucast (32768 - b :: u64) :: u32)" "unat n \<le> 2 ^ 31"
  shows "set (free_rows b n) = {r. b \<le> r \<and> r < 32768}" and "distinct (free_rows b n)"
proof -
  have pl: "unat (b + of_nat j) = unat b + j" if "j < 2 ^ 31" for j
    using that assms(1) by (subst unat_plus_u64) (simp_all add: unat_of_nat)
  have "inj_on (\<lambda>j. b + of_nat j) {0..<unat n}"
  proof (rule inj_onI)
    fix i j assume "i \<in> {0..<unat n}" "j \<in> {0..<unat n}" "b + of_nat i = b + of_nat j"
    then have "unat (b + of_nat i) = unat (b + of_nat j)" "i < 2 ^ 31" "j < 2 ^ 31"
      using assms(3) by auto
    then show "i = j" using pl by simp
  qed
  then show "distinct (free_rows b n)" by (simp add: free_rows_def distinct_map)
  show "set (free_rows b n) = {r. b \<le> r \<and> r < 32768}"
  proof (intro set_eqI iffI)
    fix r assume "r \<in> set (free_rows b n)"
    then obtain j where "j < unat n" "r = b + of_nat j" "r < 32768" by (auto simp: free_rows_def)
    then show "r \<in> {r. b \<le> r \<and> r < 32768}" using pl [of j] assms(3) by (simp add: word_le_nat_alt)
  next
    fix r assume "r \<in> {r. b \<le> r \<and> r < 32768}"
    then have r: "b \<le> r" "r < 32768" by simp_all
    then have ru: "unat b \<le> unat r" "unat r < 32768" by (simp_all add: word_le_nat_alt word_less_nat_alt)
    have sub: "unat (32768 - b) = 32768 - unat b"
      using ru by (subst unat_sub) (simp_all add: word_le_nat_alt)
    have nn: "unat n = 32768 - unat b"
      unfolding assms(2) by (simp add: unsigned_ucast_eq sub take_bit_nat_eq_self)
    have "r = b + of_nat (unat r - unat b)"
      using pl [of "unat r - unat b"] ru by (simp add: word_unat_eq_iff)
    moreover have "unat r - unat b \<in> {0..<unat n}" using ru nn by auto
    ultimately show "r \<in> set (free_rows b n)"
      unfolding free_rows_def using r(2) by (simp only: set_filter set_map set_upt) blast
  qed
qed

lemma kv_free_ch_Inr:
  "kv_free_ch ch r s = Inr s' \<longleftrightarrow>
     kv_mode s = NPU_PIM \<and> ch < length (kv_rows s) \<and> s' = s\<lparr>kv_rows := (kv_rows s)[ch := kv_rows s ! ch @ [r]]\<rparr>"
  by (auto simp: kv_free_ch_def)

lemma kv_run_length:
  "pool_run (kv_allocate_ch ch) (kv_free_ch ch) held s ops = Inr (held', s') \<Longrightarrow>
     length (kv_rows s') = length (kv_rows s)"
proof (induction ops arbitrary: held s)
  case (Cons oper ops)
  obtain h t where "pool_run (kv_allocate_ch ch) (kv_free_ch ch) h t ops = Inr (held', s')"
    "length (kv_rows t) = length (kv_rows s)"
    using Cons.prems
    by (cases oper) (fastforce simp: kv_allocate_ch_Inr kv_free_ch_Inr split: if_splits)+
  then show ?case using Cons.IH by metis
qed simp

lemma npu_entries_nth: "length (npu_entries n a st) = n"
  "i < n \<Longrightarrow> npu_entries n a st ! i = a + of_nat i * st"
proof (induction n arbitrary: a i)
  case (Suc n)
  { case 1 then show ?case using Suc by simp next case 2 then show ?case using Suc by (cases i) (auto simp: algebra_simps) }
qed simp_all

text \<open>
  C13: After \<open>init_pim_layout\<close>, whatever a client of one channel takes from and gives back to
  \<open>KVCacheAlloc\<close>, it never holds a row twice, and the rows it holds together with the free rows
  are exactly the rows of the bank after the one that \<open>base_addr\<close> falls into.
\<close>

theorem kv_rows_no_double_allocation:
  assumes "init_pim_layout cfg base_addr s0 = Inr s" "kv_rows s0 = []"
    and "unat base_addr + 2 ^ 20 \<le> 2 ^ 64 - 1" "ch < unat (dram_channels cfg)"
    and "pool_run (kv_allocate_ch ch) (kv_free_ch ch) [] s ops = Inr (held, s')"
  shows "distinct held \<and> set held \<inter> set (kv_rows s' ! ch) = {} \<and>
    set held \<union> set (kv_rows s' ! ch) = {r. unat base_addr div 2 ^ 20 < unat r \<and> unat r < 32768}"
proof -
  let ?b = "drop_bit 20 ((base_addr AND NOT (push_bit 20 1 - 1)) + push_bit 20 1) :: u64"
  let ?n = "ucast (32768 - ?b) :: u32"
  have nz: "dram_channels cfg \<noteq> 0" using assms(4) by auto
  have n: "unat ?n \<le> 2 ^ 31" and
    rows: "kv_rows s = replicate (unat (dram_channels cfg)) (free_rows ?b ?n)"
    using assms(1,2) nz
    by (auto simp only: init_pim_layout_def Let_def if_True if_False simp_thms split: if_splits) auto
  have b: "unat ?b = unat base_addr div 2 ^ 20 + 1" by (rule pim_base_row [OF assms(3)])
  then have "unat ?b < 2 ^ 44" using assms(3) by simp
  from free_rows_set [OF this refl n] have
    fs: "set (free_rows ?b ?n) = {r. ?b \<le> r \<and> r < 32768}" and fd: "distinct (free_rows ?b ?n)" .
  have run: "distinct (held @ (if ch < length (kv_rows s') then kv_rows s' ! ch else [])) \<and>
     set held \<union> set (if ch < length (kv_rows s') then kv_rows s' ! ch else []) = set [] \<union> set (free_rows ?b ?n)"
    using kv_channel.pool_run_distinct [OF assms(5)] fd assms(4) by (simp add: rows)
  have len: "length (kv_rows s') = length (kv_rows s)"
    using assms(5) by (rule kv_run_length)
  show ?thesis using run len assms(4) rows fs b by (auto simp: word_le_nat_alt word_less_nat_alt)
qed

definition KVCacheAlloc_new :: kv_alloc where
  "KVCacheAlloc_new = \<lparr>kv_mode = NPU_PIM, kv_base_addr = 0, kv_cache_size = 0, kv_cache_limit = 0,
     kv_cache_entry_size = 0, kv_cache = [], kv_dram_channels = 0, kv_base_row = 0,
     kv_dram_row_size = 0, kv_num_ele_per_row = 0, kv_bank_per_ch = 0, kv_rows = []\<rparr>"

theorem kv_rows_no_double_allocation_witness:
  "\<exists>s held s'. init_pim_layout demo_cfg 34320000000 KVCacheAlloc_new = Inr s \<and>
     pool_run (kv_allocate_ch 3) (kv_free_ch 3) [] s [Take, Take, Give 32731, Take] = Inr (held, s') \<and> distinct held"
proof -
  let ?s = "projr (init_pim_layout demo_cfg 34320000000 KVCacheAlloc_new)"
  have fr: "free_rows 32731 37 = map of_nat [32731..<32768]"
    by (simp add: free_rows_def upt_rec)
  have i: "init_pim_layout demo_cfg 34320000000 KVCacheAlloc_new = Inr ?s"
    by (simp add: init_pim_layout_def demo_cfg_def KVCacheAlloc_new_def)
  have r: "kv_rows ?s = replicate 32 (free_rows 32731 37)"
    by (simp add: init_pim_layout_def demo_cfg_def KVCacheAlloc_new_def)
  have m: "kv_mode ?s = NPU_PIM" by (simp add: init_pim_layout_def demo_cfg_def KVCacheAlloc_new_def)
  obtain held s' where run:
    "pool_run (kv_allocate_ch 3) (kv_free_ch 3) [] ?s [Take, Take, Give 32731, Take] = Inr (held, s')"
    using r m by (simp add: kv_allocate_ch_def kv_free_ch_def fr upt_rec)
  have "distinct held"
    by (rule kv_rows_no_double_allocation [OF i _ _ _ run, THEN conjunct1])
      (simp_all add: KVCacheAlloc_new_def demo_cfg_def)
  with i run show ?thesis by blast
qed

text \<open>
  C36: In the NPU layout, when the 32-bit products of \<open>init_npu_layout\<close> do not wrap around, the
  cache blocks are pairwise disjoint, lie between \<open>base_addr\<close> and \<open>base_addr\<close> plus the checked
  cache size, and so below the end of the HBM.
\<close>

theorem npu_blocks_disjoint_in_hbm:
  assumes init: "init_npu_layout cfg base_addr s0 = Inr s" and s0: "kv_cache s0 = []"
    and fits: "unat (max_active_reqs cfg) * unat (max_seq_len cfg) * unat (model_n_head cfg div n_tp cfg) *
      unat (model_n_embd cfg div model_n_head cfg) * unat (precision cfg) < 2 ^ 32"
    and pos: "0 < unat (model_n_embd cfg div model_n_head cfg) * unat (precision cfg)"
    and nowrap: "unat base_addr + unat (kv_cache_size s) < 2 ^ 64"
    and ij: "i < j" "j < length (kv_cache s)"
  defines "stride \<equiv> 32 * unat (model_n_embd cfg div model_n_head cfg) * unat (precision cfg)"
  shows "unat (kv_cache s ! i) + stride \<le> unat (kv_cache s ! j) \<and> unat base_addr \<le> unat (kv_cache s ! i) \<and>
    unat (kv_cache s ! j) + stride \<le> unat base_addr + unat (kv_cache_size s) \<and>
    unat base_addr + unat (kv_cache_size s) < unat (HBM_size cfg)"
proof -
  let ?A = "max_active_reqs cfg * max_seq_len cfg * (model_n_head cfg div n_tp cfg)"
  let ?d = "model_n_embd cfg div model_n_head cfg" and ?p = "precision cfg"
  let ?n = "unat ((ucast ?A :: u64) div 32)" and ?st = "32 * ucast ?d * ucast ?p :: u64"
  define D where "D = unat ?d * unat ?p"
  define A where "A = unat (max_active_reqs cfg) * unat (max_seq_len cfg) * unat (model_n_head cfg div n_tp cfg)"
  have AD: "A * D < 2 ^ 32" using fits by (simp add: A_def D_def mult.assoc)
  have D: "0 < D" using pos by (simp add: D_def)
  have A32: "A < 2 ^ 32"
    by (rule le_less_trans [OF _ AD]) (use D in simp)
  have uA: "unat ?A = A"
    unfolding A_def by (rule unat_times3) (use A32 in \<open>simp add: A_def\<close>)
  have uAD: "unat (?A * ?d * ?p) = A * D"
  proof -
    have "unat ?A * unat ?d * unat ?p < 2 ^ LENGTH(32)" using AD uA by (simp add: D_def mult.assoc)
    from unat_times3 [OF this] show ?thesis using uA by (simp only: D_def mult.assoc)
  qed
  from init s0 have cache: "kv_cache s = npu_entries ?n base_addr ?st"
    and sz: "kv_cache_size s = ucast (?A * ?d * ?p)" and lt: "base_addr + kv_cache_size s < HBM_size cfg"
    by (auto simp: init_npu_layout_def Let_def split: if_splits)
  have n: "?n = A div 32" by (simp add: unat_div uA)
  have usz: "unat (kv_cache_size s) = A * D" unfolding sz by (simp only: unat_ucast_up uAD)
  have Apos: "32 * (j + 1) \<le> A" using ij(2) unfolding cache npu_entries_nth n by simp
  have D32: "D < 2 ^ 32"
    by (rule le_less_trans [OF _ AD]) (use Apos in simp)
  have ud: "unat (ucast ?d * ucast ?p :: u64) = D"
    using D32 by (subst unat_word_ariths(2)) (simp only: unat_ucast_up, simp add: D_def)
  have ust: "unat ?st = 32 * D"
  proof -
    have "unat (32 * (ucast ?d * ucast ?p) :: u64) = 32 * D"
      by (subst unat_word_ariths(2)) (use ud D32 in simp)
    then show ?thesis by (simp only: mult.assoc)
  qed
  have nth: "unat (kv_cache s ! k) = unat base_addr + k * (32 * D)" if k: "k \<le> j" for k
  proof -
    have "32 * (k + 1) * D \<le> A * D" using k Apos by (intro mult_le_mono1) simp
    then have le: "k * (32 * D) + 32 * D \<le> A * D" by (simp add: algebra_simps)
    have AD64: "A * D < 2 ^ 64" using AD by simp
    have k64: "k < 2 ^ 64" using k Apos A32 by simp
    have lt64: "k * (32 * D) < 2 ^ 64"
      by (rule le_less_trans [OF add_leD1 [OF le] AD64])
    have m: "unat (of_nat k * ?st) = k * (32 * D)"
      by (subst unat_word_ariths(2)) (use ust lt64 k64 in \<open>simp add: unat_of_nat\<close>)
    have "unat (base_addr + of_nat k * ?st) = unat base_addr + k * (32 * D)"
      using le nowrap usz m by (subst unat_plus_u64) simp_all
    then show ?thesis using ij(2) k unfolding cache by (simp add: npu_entries_nth)
  qed
  have jle: "j * (32 * D) + 32 * D \<le> A * D"
  proof -
    have "32 * (j + 1) * D \<le> A * D" using Apos by (intro mult_le_mono1)
    then show ?thesis by (simp add: algebra_simps)
  qed
  have ile: "i * (32 * D) + 32 * D \<le> j * (32 * D)"
  proof -
    have "(i + 1) * (32 * D) \<le> j * (32 * D)" using ij(1) by (intro mult_le_mono1) simp
    then show ?thesis by (simp only: add_mult_distrib mult_1)
  qed
  have st: "stride = 32 * D" by (simp add: stride_def D_def)
  have "unat base_addr + unat (kv_cache_size s) < unat (HBM_size cfg)"
    using lt nowrap by (simp add: word_less_nat_alt unat_plus_u64)
  then show ?thesis using nth [of i] nth [of j] ile jle ij(1) usz unfolding st by simp
qed

theorem npu_blocks_disjoint_in_hbm_witness:
  "\<exists>s. init_npu_layout demo_cfg 4096 KVCacheAlloc_new = Inr s \<and>
     unat (kv_cache s ! 3) + 8192 \<le> unat (kv_cache s ! 7) \<and>
     unat (kv_cache s ! 7) + 8192 \<le> 4096 + 131072"
proof -
  let ?s = "projr (init_npu_layout demo_cfg 4096 KVCacheAlloc_new)"
  have i: "init_npu_layout demo_cfg 4096 KVCacheAlloc_new = Inr ?s"
    by (simp add: init_npu_layout_def demo_cfg_def KVCacheAlloc_new_def)
  have l: "length (kv_cache ?s) = 16" "kv_cache_size ?s = 131072"
    by (simp_all add: init_npu_layout_def demo_cfg_def KVCacheAlloc_new_def npu_entries_nth)
  have "unat (kv_cache ?s ! 3) + 32 * unat (model_n_embd demo_cfg div model_n_head demo_cfg) * unat (precision demo_cfg)
        \<le> unat (kv_cache ?s ! 7) \<and> unat (4096 :: u64) \<le> unat (kv_cache ?s ! 3) \<and>
      unat (kv_cache ?s ! 7) + 32 * unat (model_n_embd demo_cfg div model_n_head demo_cfg) * unat (precision demo_cfg)
        \<le> unat (4096 :: u64) + unat (kv_cache_size ?s) \<and>
      unat (4096 :: u64) + unat (kv_cache_size ?s) < unat (HBM_size demo_cfg)"
    by (rule npu_blocks_disjoint_in_hbm [OF i])
      (simp_all only: l, simp_all add: KVCacheAlloc_new_def demo_cfg_def)
  moreover have "32 * unat (model_n_embd demo_cfg div model_n_head demo_cfg) * unat (precision demo_cfg) = 8192"
    by (simp add: demo_cfg_def)
  ultimately show ?thesis using i l by (intro exI [of _ ?s]) simp
qed

end
