(* ===== verification/Tensor.thy ===== *)
theory Tensor
  imports Allocator
begin

text \<open>
  The tensors (tensor/): \<open>NPUTensor2D\<close> and \<open>NPUTensorKV\<close> map element indices to DRAM addresses,
  \<open>NPUTensor\<close> bundles one of them per head or batch entry, \<open>PIMTensor\<close> owns DRAM rows of one
  channel.  C++ inheritance is record extension; a pointer to a base class is a datatype with
  one constructor per subclass.  The allocator singletons and the id counter are the state
  \<open>mem_state\<close>.
\<close>

record mem_state =
  ms_wgt :: wgt_alloc
  ms_act :: act_alloc
  ms_kv :: kv_alloc
  ms_next_id :: u32

definition generate_id :: "mem_state \<Rightarrow> u32 \<times> mem_state" where
  "generate_id ms = (ms_next_id ms, ms\<lparr>ms_next_id := ms_next_id ms + 1\<rparr>)"

text \<open>\<open>slice(v, 1, -1)\<close>, the only way \<open>slice\<close> is called; on an empty vector it is undefined.\<close>

definition slice1 :: "'a list \<Rightarrow> fault + 'a list" where
  "slice1 xs = (if xs = [] then Inl Undefined else Inr (tl xs))"

subsection \<open>Inner tensors\<close>

datatype NPUTensorBufType = WGT | ACT | KV
datatype NPUTensorKVType = KEY | VALUE

record npu_inner =
  ti_base_addr :: addr_type
  ti_dims :: "u32 list"
  ti_size :: u64
  ti_buf_type :: NPUTensorBufType
  ti_precision :: u32

definition NPUTensor2D_new :: "sim_config \<Rightarrow> addr_type \<Rightarrow> u32 list \<Rightarrow> NPUTensorBufType \<Rightarrow> mem_state \<Rightarrow>
    fault + (npu_inner \<times> mem_state)" where
  "NPUTensor2D_new cfg alignment dims buf_type ms =
     (let sz = foldl (\<lambda>s d. s * ucast d) (ucast (precision cfg)) dims;
          t = \<lparr>ti_base_addr = 0, ti_dims = dims, ti_size = sz, ti_buf_type = buf_type,
               ti_precision = precision cfg\<rparr>
      in case buf_type of
           WGT \<Rightarrow> bindE (WgtAlloc_allocate cfg sz (ms_wgt ms))
                     (\<lambda>(a, w). Inr (t\<lparr>ti_base_addr := a\<rparr>, ms\<lparr>ms_wgt := w\<rparr>))
         | ACT \<Rightarrow> bindE (ActAlloc_allocate alignment sz (ms_act ms))
                     (\<lambda>(a, w). Inr (t\<lparr>ti_base_addr := a\<rparr>, ms\<lparr>ms_act := w\<rparr>))
         | KV \<Rightarrow> Inr (t, ms))"

definition get_addr_2D :: "u32 list \<Rightarrow> npu_inner \<Rightarrow> fault + addr_type" where
  "get_addr_2D indexes t =
     ast (length indexes = length (ti_dims t))
       (if length indexes = 1
        then Inr (ti_base_addr t + ucast (indexes ! 0 * ti_precision t))
        else bindE (at indexes 0) (\<lambda>i. bindE (at (ti_dims t) 1) (\<lambda>d. bindE (at indexes 1) (\<lambda>j.
          Inr (switch_co_ch (ti_base_addr t + ucast ((i * d + j) * ti_precision t)))))))"

definition get_row_addrs_2D :: "u32 \<Rightarrow> npu_inner \<Rightarrow> fault + addr_type list" where
  "get_row_addrs_2D row_idx t =
     bindE (at (ti_dims t) 1) (\<lambda>col_size.
       Inr (map (\<lambda>j. ti_base_addr t + ucast ((row_idx * col_size + of_nat j) * ti_precision t))
              [0..<unat col_size]))"

definition get_all_addrs_2D :: "npu_inner \<Rightarrow> fault + addr_type list" where
  "get_all_addrs_2D t =
     (if length (ti_dims t) = 1
      then Inr (map (\<lambda>i. ti_base_addr t + ucast (of_nat i * ti_precision t)) [0..<unat (ti_dims t ! 0)])
      else bindE (at (ti_dims t) 0) (\<lambda>d0. if d0 = 0 then Inr [] else bindE (at (ti_dims t) 1) (\<lambda>d1.
        Inr (concat (map (\<lambda>i. map (\<lambda>j. ti_base_addr t + ucast ((of_nat i * d1 + of_nat j) * ti_precision t))
                                  [0..<unat d1]) [0..<unat d0])))))"

text \<open>\<open>split_by_row\<close>: the row counts are summed in an int and compared with the row dimension.\<close>

fun split_rows :: "u32 \<Rightarrow> u32 \<Rightarrow> u32 list \<Rightarrow> npu_inner \<Rightarrow> fault + npu_inner list" where
  "split_rows base_idx column_size [] t = Inr []"
| "split_rows base_idx column_size (row_dim # row_dims) t =
     bindE (get_addr_2D [base_idx, 0] t) (\<lambda>a.
       bindE (split_rows (base_idx + row_dim) column_size row_dims t) (\<lambda>ts.
         Inr (\<lparr>ti_base_addr = a, ti_dims = [row_dim, column_size],
               ti_size = ucast (ti_precision t * row_dim * column_size),
               ti_buf_type = ti_buf_type t, ti_precision = ti_precision t\<rparr> # ts)))"

definition split_by_row_2D :: "u32 list \<Rightarrow> npu_inner \<Rightarrow> fault + npu_inner list" where
  "split_by_row_2D row_dims t =
     ast (length (ti_dims t) = 2) (ast (foldl (+) 0 row_dims = ti_dims t ! 0)
       (split_rows 0 (ti_dims t ! 1) row_dims t))"

record npu_kv = npu_inner +
  tk_kv_type :: NPUTensorKVType
  tk_bases :: "addr_type list"
  tk_entry_size :: u32
  tk_seq_len :: u32

text \<open>Take \<open>n\<close> blocks of the KV cache, in order.\<close>

fun kv_allocate_n :: "nat \<Rightarrow> kv_alloc \<Rightarrow> fault + (addr_type list \<times> kv_alloc)" where
  "kv_allocate_n 0 s = Inr ([], s)"
| "kv_allocate_n (Suc n) s =
     bindE (kv_allocate s) (\<lambda>(a, s). bindE (kv_allocate_n n s) (\<lambda>(as, s). Inr (a # as, s)))"

fun kv_allocate_ch_n :: "nat \<Rightarrow> nat \<Rightarrow> kv_alloc \<Rightarrow> fault + (u64 list \<times> kv_alloc)" where
  "kv_allocate_ch_n ch 0 s = Inr ([], s)"
| "kv_allocate_ch_n ch (Suc n) s =
     bindE (kv_allocate_ch ch s) (\<lambda>(a, s). bindE (kv_allocate_ch_n ch n s) (\<lambda>(as, s). Inr (a # as, s)))"

text \<open>\<open>ceil((double)a / (double)b)\<close> of 32-bit values, converted back; division by zero gives an
  infinity or NaN, whose conversion is undefined.\<close>

definition ceil_div :: "u32 \<Rightarrow> u32 \<Rightarrow> fault + u32" where
  "ceil_div a b = (if b = 0 then Inl Undefined else Inr (of_nat (cdiv (unat a) (unat b))))"

definition NPUTensorKV_new :: "sim_config \<Rightarrow> u32 list \<Rightarrow> NPUTensorKVType \<Rightarrow> mem_state \<Rightarrow>
    fault + (npu_kv \<times> mem_state)" where
  "NPUTensorKV_new cfg dims kv_type ms =
     (let entry = ucast (kv_cache_entry_size (ms_kv ms)) in
      bindE (at dims (case kv_type of KEY \<Rightarrow> 1 | VALUE \<Rightarrow> 0)) (\<lambda>seq_len.
      bindE (ceil_div seq_len entry) (\<lambda>num_required_alloc.
      bindE (kv_allocate_n (unat num_required_alloc) (ms_kv ms)) (\<lambda>(bases, kv).
        Inr (\<lparr>ti_base_addr = 0, ti_dims = dims, ti_size = 0, ti_buf_type = KV,
              ti_precision = precision cfg, tk_kv_type = kv_type, tk_bases = bases,
              tk_entry_size = entry, tk_seq_len = seq_len\<rparr>, ms\<lparr>ms_kv := kv\<rparr>)))))"

definition get_addr_KV :: "u32 list \<Rightarrow> npu_kv \<Rightarrow> fault + addr_type" where
  "get_addr_KV indexes t =
     bindE (at indexes 0) (\<lambda>i0. bindE (at indexes 1) (\<lambda>i1.
     bindE (at (ti_dims t) (case tk_kv_type t of KEY \<Rightarrow> 0 | VALUE \<Rightarrow> 1)) (\<lambda>dk.
       if tk_entry_size t = 0 then Inl Undefined else
       let seq_idx = (case tk_kv_type t of KEY \<Rightarrow> i1 | VALUE \<Rightarrow> i0);
           byte_idx = (case tk_kv_type t of KEY \<Rightarrow> i0 | VALUE \<Rightarrow> i1);
           idx = seq_idx div tk_entry_size t
       in bindE (at (tk_bases t) (unat idx)) (\<lambda>base_addr.
            Inr (switch_co_ch (base_addr +
              ucast (((seq_idx mod tk_entry_size t) * dk + byte_idx) * ti_precision t)))))))"

fun kv_addrs_loop :: "nat \<Rightarrow> u32 \<Rightarrow> u32 \<Rightarrow> u32 \<Rightarrow> npu_kv \<Rightarrow> fault + addr_type list" where
  "kv_addrs_loop 0 d_k cnt idx t = Inr []"
| "kv_addrs_loop (Suc n) d_k cnt idx t =
     bindE (at (tk_bases t) (unat idx)) (\<lambda>b.
       bindE (if cnt + 1 = tk_entry_size t * d_k
              then kv_addrs_loop n d_k 0 (idx + 1) t
              else kv_addrs_loop n d_k (cnt + 1) idx t) (\<lambda>ret.
         Inr ((b + ucast (cnt * ti_precision t)) # ret)))"

definition get_all_addrs_KV :: "npu_kv \<Rightarrow> fault + addr_type list" where
  "get_all_addrs_KV t =
     bindE (at (ti_dims t) (case tk_kv_type t of KEY \<Rightarrow> 0 | VALUE \<Rightarrow> 1)) (\<lambda>d_k.
       if unat (tk_seq_len t * d_k) > 2 ^ 31 then Inl Undefined
       else kv_addrs_loop (unat (tk_seq_len t * d_k)) d_k 0 0 t)"

definition get_allocated_seq_len_KV :: "npu_kv \<Rightarrow> u32" where
  "get_allocated_seq_len_KV t = of_nat (length (tk_bases t)) * tk_entry_size t"

definition add_token_KV :: "npu_kv \<Rightarrow> mem_state \<Rightarrow> fault + (npu_kv \<times> mem_state)" where
  "add_token_KV t ms =
     (let t = t\<lparr>tk_seq_len := tk_seq_len t + 1\<rparr>;
          i = (case tk_kv_type t of KEY \<Rightarrow> 1 | VALUE \<Rightarrow> 0)
      in bindE (at (ti_dims t) i) (\<lambda>d.
         let t = t\<lparr>ti_dims := (ti_dims t)[i := d + 1]\<rparr>
         in if tk_seq_len t \<le> get_allocated_seq_len_KV t then Inr (t, ms)
            else bindE (kv_allocate (ms_kv ms)) (\<lambda>(a, kv).
                   Inr (t\<lparr>tk_bases := tk_bases t @ [a]\<rparr>, ms\<lparr>ms_kv := kv\<rparr>))))"

subsection \<open>Tensors of the operation graph\<close>

text \<open>\<open>BTensor\<close>; child operations are indices into the list of operations.\<close>

record btensor =
  bt_produced :: bool
  bt_id :: u32
  bt_name :: string
  bt_dims :: "u32 list"
  bt_child_nodes :: "nat list"
  bt_precision :: u32

definition add_child_node :: "nat \<Rightarrow> 'a btensor_scheme \<Rightarrow> 'a btensor_scheme" where
  "add_child_node oper t = t\<lparr>bt_child_nodes := bt_child_nodes t @ [oper]\<rparr>"

definition clear_child_nodes :: "'a btensor_scheme \<Rightarrow> 'a btensor_scheme" where
  "clear_child_nodes t = t\<lparr>bt_child_nodes := []\<rparr>"

definition set_produced :: "'a btensor_scheme \<Rightarrow> 'a btensor_scheme" where
  "set_produced t = t\<lparr>bt_produced := True\<rparr>"

datatype npu_any = Inner2D npu_inner | InnerKV npu_kv

record npu_tensor = btensor +
  nt_inners :: "npu_any list"
  nt_is_transposed :: bool

text \<open>
  The constructors.  Those of a KV tensor and of a part made by \<open>split_by_row\<close> leave
  \<open>_is_transposed\<close> uninitialised: its value is the argument \<open>junk\<close>.
\<close>

fun inners_2D :: "sim_config \<Rightarrow> addr_type \<Rightarrow> nat \<Rightarrow> u32 list \<Rightarrow> NPUTensorBufType \<Rightarrow> mem_state \<Rightarrow>
    fault + (npu_any list \<times> mem_state)" where
  "inners_2D cfg alignment 0 dims buf_type ms = Inr ([], ms)"
| "inners_2D cfg alignment (Suc n) dims buf_type ms =
     bindE (NPUTensor2D_new cfg alignment dims buf_type ms) (\<lambda>(t, ms).
     bindE (inners_2D cfg alignment n dims buf_type ms) (\<lambda>(ts, ms). Inr (Inner2D t # ts, ms)))"

fun inners_KV :: "sim_config \<Rightarrow> nat \<Rightarrow> u32 list \<Rightarrow> NPUTensorKVType \<Rightarrow> mem_state \<Rightarrow>
    fault + (npu_any list \<times> mem_state)" where
  "inners_KV cfg 0 dims kv_type ms = Inr ([], ms)"
| "inners_KV cfg (Suc n) dims kv_type ms =
     bindE (NPUTensorKV_new cfg dims kv_type ms) (\<lambda>(t, ms).
     bindE (inners_KV cfg n dims kv_type ms) (\<lambda>(ts, ms). Inr (InnerKV t # ts, ms)))"

definition NPUTensor_new :: "sim_config \<Rightarrow> addr_type \<Rightarrow> string \<Rightarrow> u32 list \<Rightarrow> NPUTensorBufType \<Rightarrow> bool \<Rightarrow>
    mem_state \<Rightarrow> fault + (npu_tensor \<times> mem_state)" where
  "NPUTensor_new cfg alignment name dims buf_type produced ms =
     ast (buf_type \<noteq> KV)
       (let (i, ms) = generate_id ms;
            (num_inners, inner_dims) = (if length dims = 3 then (unat (dims ! 0), tl dims) else (1, dims))
        in bindE (inners_2D cfg alignment num_inners inner_dims buf_type ms) (\<lambda>(ts, ms).
             Inr (\<lparr>bt_produced = produced, bt_id = i, bt_name = name, bt_dims = dims,
                   bt_child_nodes = [], bt_precision = precision cfg, nt_inners = ts,
                   nt_is_transposed = False\<rparr>, ms)))"

definition NPUTensor_new_KV :: "sim_config \<Rightarrow> bool \<Rightarrow> string \<Rightarrow> u32 list \<Rightarrow> NPUTensorKVType \<Rightarrow> bool \<Rightarrow>
    mem_state \<Rightarrow> fault + (npu_tensor \<times> mem_state)" where
  "NPUTensor_new_KV cfg junk name dims kv_type produced ms =
     (let (i, ms) = generate_id ms in
      ast (length dims \<noteq> 2)
       (let (num_inners, inner_dims) = (if length dims = 3 then (unat (dims ! 0), tl dims) else (1, dims))
        in bindE (inners_KV cfg num_inners inner_dims kv_type ms) (\<lambda>(ts, ms).
             Inr (\<lparr>bt_produced = produced, bt_id = i, bt_name = name, bt_dims = dims,
                   bt_child_nodes = [], bt_precision = precision cfg, nt_inners = ts,
                   nt_is_transposed = junk\<rparr>, ms))))"

definition NPUTensor_of_2D :: "sim_config \<Rightarrow> bool \<Rightarrow> string \<Rightarrow> npu_inner \<Rightarrow> bool \<Rightarrow>
    mem_state \<Rightarrow> npu_tensor \<times> mem_state" where
  "NPUTensor_of_2D cfg junk name t produced ms =
     (let (i, ms) = generate_id ms
      in (\<lparr>bt_produced = produced, bt_id = i, bt_name = name, bt_dims = ti_dims t,
           bt_child_nodes = [], bt_precision = precision cfg, nt_inners = [Inner2D t],
           nt_is_transposed = junk\<rparr>, ms))"

definition inner_buf_type :: "npu_any \<Rightarrow> NPUTensorBufType" where
  "inner_buf_type i = (case i of Inner2D t \<Rightarrow> ti_buf_type t | InnerKV t \<Rightarrow> ti_buf_type t)"

definition set_transposed :: "bool \<Rightarrow> npu_tensor \<Rightarrow> fault + npu_tensor" where
  "set_transposed b t =
     bindE (at (nt_inners t) 0) (\<lambda>i.
       ast (inner_buf_type i = ACT \<or> inner_buf_type i = WGT) (Inr (t\<lparr>nt_is_transposed := b\<rparr>)))"

definition get_dims :: "npu_tensor \<Rightarrow> u32 list" where
  "get_dims t = (if nt_is_transposed t then rev (bt_dims t) else bt_dims t)"

definition inner_get_addr :: "u32 list \<Rightarrow> npu_any \<Rightarrow> fault + addr_type" where
  "inner_get_addr indexes i =
     (case i of Inner2D t \<Rightarrow> get_addr_2D indexes t | InnerKV t \<Rightarrow> get_addr_KV indexes t)"

definition NPUTensor_get_addr :: "u32 list \<Rightarrow> npu_tensor \<Rightarrow> fault + addr_type" where
  "NPUTensor_get_addr indexes t =
     ast (length (bt_dims t) = length indexes)
       (let dims = (if nt_is_transposed t then rev (bt_dims t) else bt_dims t)
        in if list_ex (\<lambda>(i, d). i \<ge> d) (zip indexes dims) then Inl Thrown
           else if length indexes \<le> 2
           then bindE (at (nt_inners t) 0) (inner_get_addr indexes)
           else bindE (at (nt_inners t) (unat (indexes ! 0))) (\<lambda>i.
                  bindE (slice1 indexes) (\<lambda>rest. inner_get_addr rest i)))"

definition inner_get_all_addrs :: "npu_any \<Rightarrow> fault + addr_type list" where
  "inner_get_all_addrs i =
     (case i of Inner2D t \<Rightarrow> get_all_addrs_2D t | InnerKV t \<Rightarrow> get_all_addrs_KV t)"

definition NPUTensor_get_all_addrs :: "npu_tensor \<Rightarrow> fault + addr_type list" where
  "NPUTensor_get_all_addrs t =
     ast (length (nt_inners t) > 0)
       (foldE (\<lambda>res i. bindE (inner_get_all_addrs i) (\<lambda>addrs. Inr (res @ addrs))) [] (nt_inners t))"

text \<open>\<open>add_token\<close> casts every inner tensor to \<open>NPUTensorKV\<close>.\<close>

fun add_token_inners :: "npu_any list \<Rightarrow> mem_state \<Rightarrow> fault + (npu_any list \<times> mem_state)" where
  "add_token_inners [] ms = Inr ([], ms)"
| "add_token_inners (Inner2D t # is) ms = Inl Undefined"
| "add_token_inners (InnerKV t # is) ms =
     bindE (add_token_KV t ms) (\<lambda>(t, ms).
     bindE (add_token_inners is ms) (\<lambda>(ts, ms). Inr (InnerKV t # ts, ms)))"

definition NPUTensor_add_token :: "npu_tensor \<Rightarrow> mem_state \<Rightarrow> fault + (npu_tensor \<times> mem_state)" where
  "NPUTensor_add_token t ms =
     bindE (add_token_inners (nt_inners t) ms) (\<lambda>(is, ms). Inr (t\<lparr>nt_inners := is\<rparr>, ms))"

definition inner_get_row_addrs :: "u32 \<Rightarrow> npu_any \<Rightarrow> fault + addr_type list" where
  "inner_get_row_addrs row_idx i =
     (case i of Inner2D t \<Rightarrow> get_row_addrs_2D row_idx t | InnerKV t \<Rightarrow> Inl Undefined)"

definition NPUTensor_get_row_addrs :: "u32 \<Rightarrow> npu_tensor \<Rightarrow> fault + addr_type list" where
  "NPUTensor_get_row_addrs row_idx t =
     (if length (bt_dims t) = 2 then bindE (at (nt_inners t) 0) (inner_get_row_addrs row_idx)
      else if length (bt_dims t) = 3 then
        let l = bt_dims t ! 1
        in if l = 0 then Inl Undefined
           else bindE (at (nt_inners t) (unat (row_idx div l))) (inner_get_row_addrs (row_idx mod l))
      else Inl AssertFailed)"

text \<open>
  \<open>split_by_row\<close>; the counter \<open>i\<close> that the source appends to the name stays 0, so every part has
  the same name.
\<close>

fun wrap_splits :: "sim_config \<Rightarrow> bool \<Rightarrow> string \<Rightarrow> npu_inner list \<Rightarrow> mem_state \<Rightarrow> npu_tensor list \<times> mem_state" where
  "wrap_splits cfg junk name [] ms = ([], ms)"
| "wrap_splits cfg junk name (t # ts) ms =
     (let (nt, ms) = NPUTensor_of_2D cfg junk (name @ ''_0'') t True ms;
          (nts, ms) = wrap_splits cfg junk name ts ms
      in (nt # nts, ms))"

definition NPUTensor_split_by_row :: "sim_config \<Rightarrow> bool \<Rightarrow> u32 list \<Rightarrow> npu_tensor \<Rightarrow> mem_state \<Rightarrow>
    fault + (npu_tensor list \<times> mem_state)" where
  "NPUTensor_split_by_row cfg junk row_dims t ms =
     ast (length (nt_inners t) = 1) (ast (length (bt_dims t) = 2)
       (ast (inner_buf_type (nt_inners t ! 0) = ACT)
         (case nt_inners t ! 0 of
            InnerKV _ \<Rightarrow> Inl Undefined
          | Inner2D inner \<Rightarrow> bindE (split_by_row_2D row_dims inner) (\<lambda>ts.
              Inr (wrap_splits cfg junk (bt_name t) ts ms)))))"

subsection \<open>PIM tensors\<close>

record pim_tensor = btensor +
  pt_kv_type :: NPUTensorKVType
  pt_bank_per_ch :: u32
  pt_E :: u32
  pt_num_ele_per_row :: u32
  pt_num_rows_per_alloc :: u32
  pt_ch :: u32
  pt_rows :: "u64 list"
  pt_seq_len :: u32

definition PIMTensor_new :: "sim_config \<Rightarrow> string \<Rightarrow> u32 \<Rightarrow> u32 list \<Rightarrow> NPUTensorKVType \<Rightarrow> bool \<Rightarrow>
    mem_state \<Rightarrow> fault + (pim_tensor \<times> mem_state)" where
  "PIMTensor_new cfg name ch dims kv_type produced ms =
     bindE (at dims (case kv_type of KEY \<Rightarrow> 2 | VALUE \<Rightarrow> 1)) (\<lambda>seq_len.
     let bank_per_ch = kv_bank_per_ch (ms_kv ms); num_ele_per_row = kv_num_ele_per_row (ms_kv ms);
         E = model_n_embd cfg
     in bindE (case kv_type of KEY \<Rightarrow> ceil_div E num_ele_per_row | VALUE \<Rightarrow> ceil_div E bank_per_ch)
          (\<lambda>num_rows_per_alloc.
        bindE (case kv_type of KEY \<Rightarrow> ceil_div seq_len bank_per_ch | VALUE \<Rightarrow> ceil_div seq_len num_ele_per_row)
          (\<lambda>num_alloc_iter.
        bindE (kv_allocate_ch_n (unat ch) (unat (num_alloc_iter * num_rows_per_alloc)) (ms_kv ms)) (\<lambda>(rows, kv).
          Inr (\<lparr>bt_produced = produced, bt_id = 0, bt_name = name, bt_dims = dims, bt_child_nodes = [],
                bt_precision = precision cfg, pt_kv_type = kv_type, pt_bank_per_ch = bank_per_ch,
                pt_E = E, pt_num_ele_per_row = num_ele_per_row,
                pt_num_rows_per_alloc = num_rows_per_alloc, pt_ch = ch, pt_rows = rows,
                pt_seq_len = seq_len\<rparr>, ms\<lparr>ms_kv := kv\<rparr>)))))"

definition PIMTensor_get_addr :: "u32 list \<Rightarrow> pim_tensor \<Rightarrow> addr_type" where
  "PIMTensor_get_addr indexes t = 0"

definition PIMTensor_get_all_addrs :: "pim_tensor \<Rightarrow> addr_type list" where
  "PIMTensor_get_all_addrs t = []"

text \<open>The ceiling is a double; its product with the 32-bit unit is converted back.\<close>

definition get_allocated_seq_len_PIM :: "pim_tensor \<Rightarrow> fault + u32" where
  "get_allocated_seq_len_PIM t =
     (let unit = (case pt_kv_type t of KEY \<Rightarrow> pt_bank_per_ch t | VALUE \<Rightarrow> pt_num_ele_per_row t)
      in if unit = 0 \<or> cdiv (unat (pt_seq_len t)) (unat unit) * unat unit \<ge> 2 ^ 32 then Inl Undefined
         else Inr (of_nat (cdiv (unat (pt_seq_len t)) (unat unit) * unat unit)))"

definition PIMTensor_add_token :: "pim_tensor \<Rightarrow> mem_state \<Rightarrow> fault + (pim_tensor \<times> mem_state)" where
  "PIMTensor_add_token t ms =
     (let t = t\<lparr>pt_seq_len := pt_seq_len t + 1\<rparr>;
          i = (case pt_kv_type t of KEY \<Rightarrow> 2 | VALUE \<Rightarrow> 1)
      in bindE (at (bt_dims t) i) (\<lambda>d.
         let t = t\<lparr>bt_dims := (bt_dims t)[i := d + 1]\<rparr>
         in bindE (get_allocated_seq_len_PIM t) (\<lambda>allocated.
            if pt_seq_len t \<le> allocated then Inr (t, ms)
            else bindE (kv_allocate_ch_n (unat (pt_ch t)) (unat (pt_num_rows_per_alloc t)) (ms_kv ms)) (\<lambda>(rows, kv).
                   Inr (t\<lparr>pt_rows := pt_rows t @ rows\<rparr>, ms\<lparr>ms_kv := kv\<rparr>)))))"

definition get_num_rows :: "pim_tensor \<Rightarrow> u32" where
  "get_num_rows t = of_nat (length (pt_rows t))"

subsection \<open>Addresses of two-dimensional tensors\<close>

lemma get_addr_2D_eq:
  "ti_dims t = [d0, d1] \<Longrightarrow>
     get_addr_2D [i, j] t = Inr (switch_co_ch (ti_base_addr t + ucast ((i * d1 + j) * ti_precision t)))"
  by (simp add: get_addr_2D_def)

lemma get_all_addrs_2D_eq:
  "ti_dims t = [d0, d1] \<Longrightarrow> get_all_addrs_2D t =
     Inr (concat (map (\<lambda>i. map (\<lambda>j. ti_base_addr t + ucast ((of_nat i * d1 + of_nat j) * ti_precision t))
                               [0..<unat d1]) [0..<unat d0]))"
  by (cases "d0 = 0") (simp_all add: get_all_addrs_2D_def)

lemma nth_concat_uniform:
  assumes "\<forall>x \<in> set xs. length (f x) = n" "i < length xs" "j < n"
  shows "concat (map f xs) ! (i * n + j) = f (xs ! i) ! j"
  using assms
proof (induction xs arbitrary: i)
  case (Cons x xs)
  show ?case
  proof (cases i)
    case 0 then show ?thesis using Cons.prems by (simp add: nth_append)
  next
    case (Suc k)
    then show ?thesis using Cons by (simp add: nth_append)
  qed
qed simp

lemma pair_index_less: "i < m \<Longrightarrow> j < n \<Longrightarrow> i * n + j < m * n" for i j m n :: nat
proof -
  assume "i < m" "j < n"
  then have "(i + 1) * n \<le> m * n" by (intro mult_le_mono1) simp
  then show ?thesis using \<open>j < n\<close> by simp
qed

text \<open>
  C38: Within a two-dimensional tensor whose byte size fits into 32 bits, different index pairs
  have different DRAM addresses.
\<close>

theorem tensor_2D_addr_inj:
  assumes "ti_dims t = [d0, d1]" "0 < unat (ti_precision t)"
    and "unat d0 * unat d1 * unat (ti_precision t) < 2 ^ 32"
    and "i < d0" "j < d1" "i' < d0" "j' < d1"
    and "get_addr_2D [i, j] t = get_addr_2D [i', j'] t"
  shows "i = i' \<and> j = j'"
proof -
  have off: "unat ((a * d1 + b) * ti_precision t) = (unat a * unat d1 + unat b) * unat (ti_precision t)"
    if "a < d0" "b < d1" for a b
  proof -
    have "unat a * unat d1 + unat b < unat d0 * unat d1"
      using that by (intro pair_index_less) (simp_all add: word_less_nat_alt)
    then have "(unat a * unat d1 + unat b) * unat (ti_precision t) \<le> unat d0 * unat d1 * unat (ti_precision t)"
      by (intro mult_le_mono1) simp
    then have "(unat a * unat d1 + unat b) * unat (ti_precision t) < 2 ^ 32" using assms(3) by linarith
    then show ?thesis by (simp add: unat_word_ariths mod_simps)
  qed
  have "ucast ((i * d1 + j) * ti_precision t) = (ucast ((i' * d1 + j') * ti_precision t) :: u64)"
    using assms(8) injD [OF switch_co_ch_inj] by (fastforce simp: get_addr_2D_eq [OF assms(1)])
  then have "unat (ucast ((i * d1 + j) * ti_precision t) :: u64) = unat (ucast ((i' * d1 + j') * ti_precision t) :: u64)"
    by simp
  then have "(unat i * unat d1 + unat j) * unat (ti_precision t) = (unat i' * unat d1 + unat j') * unat (ti_precision t)"
    by (simp only: unat_ucast_up off assms(4-7))
  then have "unat i * unat d1 + unat j = unat i' * unat d1 + unat j'" using assms(2) by simp
  from mixed_radix [OF this] show ?thesis
    using assms(5,7) by (simp add: word_less_nat_alt word_unat_eq_iff)
qed

definition demo_2D :: npu_inner where
  "demo_2D = \<lparr>ti_base_addr = 4096, ti_dims = [100, 128], ti_size = 25600, ti_buf_type = ACT, ti_precision = 2\<rparr>"

theorem tensor_2D_addr_inj_witness:
  "get_addr_2D [3, 5] demo_2D \<noteq> get_addr_2D [4, 5] demo_2D"
proof
  assume "get_addr_2D [3, 5] demo_2D = get_addr_2D [4, 5] demo_2D"
  from tensor_2D_addr_inj [OF _ _ _ _ _ _ _ this, of 100 128] show False by (simp add: demo_2D_def)
qed

text \<open>
  \<open>get_all_addrs\<close> lists the elements row by row, each row as \<open>get_row_addrs\<close> gives it, and
  \<open>get_addr\<close> is the channel swap of the entry at the row-major position.
\<close>

theorem tensor_2D_addrs_row_major:
  assumes "ti_dims t = [d0, d1]" "i < d0" "j < d1"
  shows "\<exists>addrs row. get_all_addrs_2D t = Inr addrs \<and> length addrs = unat d0 * unat d1 \<and>
    get_row_addrs_2D i t = Inr row \<and> row = take (unat d1) (drop (unat i * unat d1) addrs) \<and>
    get_addr_2D [i, j] t = Inr (switch_co_ch (addrs ! (unat i * unat d1 + unat j)))"
proof -
  let ?f = "\<lambda>i. map (\<lambda>j. ti_base_addr t + ucast ((of_nat i * d1 + of_nat j) * ti_precision t)) [0..<unat d1]"
  let ?addrs = "concat (map ?f [0..<unat d0])"
  have i: "unat i < unat d0" and j: "unat j < unat d1" using assms by (simp_all add: word_less_nat_alt)
  have len: "length ?addrs = unat d0 * unat d1"
    by (simp add: length_concat comp_def sum_list_triv)
  have nth: "?addrs ! (unat i * unat d1 + k) = ?f (unat i) ! k" if "k < unat d1" for k
    using nth_concat_uniform [of "[0..<unat d0]" ?f "unat d1" "unat i" k] i that by simp
  have "?f (unat i) = take (unat d1) (drop (unat i * unat d1) ?addrs)"
  proof (rule nth_equalityI)
    have "(unat i + 1) * unat d1 \<le> unat d0 * unat d1" using i by (intro mult_le_mono1) simp
    then have "unat d1 \<le> unat d0 * unat d1 - unat i * unat d1" by simp
    then show "length (?f (unat i)) = length (take (unat d1) (drop (unat i * unat d1) ?addrs))"
      by (simp only: length_take length_drop len) simp
  next
    fix k assume "k < length (?f (unat i))"
    then have k: "k < unat d1" by simp
    have "unat i * unat d1 + k < length ?addrs" using pair_index_less [OF i k] len by simp
    then show "?f (unat i) ! k = take (unat d1) (drop (unat i * unat d1) ?addrs) ! k"
      using k nth [OF k] by (simp only: nth_take nth_drop)
  qed
  moreover have "get_row_addrs_2D i t = Inr (?f (unat i))"
    by (simp add: get_row_addrs_2D_def assms(1))
  moreover have "get_addr_2D [i, j] t = Inr (switch_co_ch (?addrs ! (unat i * unat d1 + unat j)))"
    unfolding nth [OF j] using j by (simp add: get_addr_2D_eq [OF assms(1)])
  ultimately show ?thesis using get_all_addrs_2D_eq [OF assms(1)] len by blast
qed

theorem tensor_2D_addrs_row_major_witness:
  "\<exists>addrs. get_all_addrs_2D demo_2D = Inr addrs \<and> length addrs = 12800"
  using tensor_2D_addrs_row_major [of demo_2D 100 128 3 5] by (auto simp: demo_2D_def)

lemma split_rows_parts:
  assumes "split_rows b c rds t = Inr ts" "k < length rds"
  shows "length ts = length rds \<and> ti_dims (ts ! k) = [rds ! k, c] \<and>
    get_addr_2D [b + foldl (+) 0 (take k rds), 0] t = Inr (ti_base_addr (ts ! k)) \<and>
    ti_buf_type (ts ! k) = ti_buf_type t \<and> ti_precision (ts ! k) = ti_precision t"
proof -
  have fl: "foldl (+) x xs = x + foldl (+) 0 xs" for x :: u32 and xs
  proof (induction xs arbitrary: x)
    case (Cons y ys)
    show ?case using Cons [of "x + y"] Cons [of y] by (simp add: add.assoc)
  qed simp
  show ?thesis using assms
  proof (induction rds arbitrary: b ts k)
    case (Cons r rds)
    from Cons.prems(1) obtain a us where a: "get_addr_2D [b, 0] t = Inr a"
      and us: "split_rows (b + r) c rds t = Inr us"
      and ts: "ts = \<lparr>ti_base_addr = a, ti_dims = [r, c], ti_size = ucast (ti_precision t * r * c),
               ti_buf_type = ti_buf_type t, ti_precision = ti_precision t\<rparr> # us" by auto
    have len: "length us = length rds"
    proof (cases rds)
      case Nil then show ?thesis using us by simp
    next
      case (Cons x xs) then show ?thesis using Cons.IH [OF us, of 0] by simp
    qed
    show ?case
    proof (cases k)
      case 0 then show ?thesis using ts a len by simp
    next
      case (Suc m)
      then have "m < length rds" using Cons.prems(2) by simp
      from Cons.IH [OF us this] show ?thesis
        using ts Suc fl [of r "take m rds"] by (simp add: add.assoc)
    qed
  qed simp
qed

text \<open>
  \<open>split_by_row\<close> cuts a tensor into parts with the requested row counts that together have all
  its rows; each part keeps the columns and starts at the address of its first row.
\<close>

theorem split_by_row_parts:
  assumes "split_by_row_2D row_dims t = Inr ts" "k < length row_dims"
  shows "\<exists>d0 d1. ti_dims t = [d0, d1] \<and> foldl (+) 0 row_dims = d0 \<and> length ts = length row_dims \<and>
    ti_dims (ts ! k) = [row_dims ! k, d1] \<and>
    get_addr_2D [foldl (+) 0 (take k row_dims), 0] t = Inr (ti_base_addr (ts ! k))"
proof -
  from assms(1) obtain d0 d1 where d: "ti_dims t = [d0, d1]" and s: "foldl (+) 0 row_dims = d0"
    and r: "split_rows 0 d1 row_dims t = Inr ts"
    by (auto simp: split_by_row_2D_def length_Suc_conv numeral_2_eq_2)
  from split_rows_parts [OF r assms(2)] d s show ?thesis by simp
qed

theorem split_by_row_parts_witness:
  "\<exists>ts. split_by_row_2D [60, 40] demo_2D = Inr ts \<and> ti_dims (ts ! 1) = [40, 128]"
proof -
  obtain ts where ts: "split_by_row_2D [60, 40] demo_2D = Inr ts"
    by (simp add: split_by_row_2D_def demo_2D_def get_addr_2D_def)
  from split_by_row_parts [OF ts, of 1] ts show ?thesis by (auto simp: demo_2D_def)
qed

subsection \<open>The key/value cache of an NPU tensor\<close>

text \<open>A client appends \<open>n\<close> tokens.\<close>

fun add_tokens_KV :: "nat \<Rightarrow> npu_kv \<Rightarrow> mem_state \<Rightarrow> fault + (npu_kv \<times> mem_state)" where
  "add_tokens_KV 0 t ms = Inr (t, ms)"
| "add_tokens_KV (Suc n) t ms = bindE (add_token_KV t ms) (\<lambda>(t, ms). add_tokens_KV n t ms)"

definition kv_seq_index :: "NPUTensorKVType \<Rightarrow> nat" where
  "kv_seq_index ty = (case ty of KEY \<Rightarrow> 1 | VALUE \<Rightarrow> 0)"

definition kv_wf :: "npu_kv \<Rightarrow> bool" where
  "kv_wf t \<longleftrightarrow> 0 < unat (tk_entry_size t) \<and> length (ti_dims t) = 2 \<and>
     ti_dims t ! kv_seq_index (tk_kv_type t) = tk_seq_len t \<and>
     length (tk_bases t) = cdiv (unat (tk_seq_len t)) (unat (tk_entry_size t))"

lemma cdiv_Suc:
  "0 < b \<Longrightarrow> cdiv (Suc a) b = (if Suc a \<le> cdiv a b * b then cdiv a b else Suc (cdiv a b))"
proof -
  assume b: "0 < b"
  have up: "cdiv (Suc a) b \<le> Suc (cdiv a b)"
    using cdiv_mult_ge [OF b, of a] b by (subst cdiv_le_iff [OF b]) simp
  have "cdiv a b \<le> cdiv (Suc a) b"
    using cdiv_mult_ge [OF b, of "Suc a"] by (subst cdiv_le_iff [OF b]) simp
  moreover have "cdiv (Suc a) b \<le> cdiv a b \<longleftrightarrow> Suc a \<le> cdiv a b * b" by (rule cdiv_le_iff [OF b])
  ultimately show ?thesis using up by auto
qed

lemma cdiv_le_self: "0 < b \<Longrightarrow> cdiv a b \<le> a"
  by (subst cdiv_le_iff) auto

lemma kv_allocate_n_length: "kv_allocate_n n s = Inr (as, s') \<Longrightarrow> length as = n"
proof (induction n arbitrary: s as)
  case (Suc n)
  from Suc.prems obtain a s1 as' where "kv_allocate s = Inr (a, s1)"
    "kv_allocate_n n s1 = Inr (as', s')" "as = a # as'" by fastforce
  then show ?case using Suc.IH by simp
qed simp

lemma NPUTensorKV_new_wf:
  assumes "NPUTensorKV_new cfg dims kv_type ms = Inr (t, ms')" "length dims = 2"
  shows "kv_wf t \<and> ti_dims t = dims \<and> tk_kv_type t = kv_type"
proof -
  let ?e = "ucast (kv_cache_entry_size (ms_kv ms)) :: u32"
  let ?q = "dims ! kv_seq_index kv_type"
  have k: "kv_seq_index kv_type < 2" by (cases kv_type) (simp_all add: kv_seq_index_def)
  from assms obtain bases kv where e: "?e \<noteq> 0" and
    al: "kv_allocate_n (unat (of_nat (cdiv (unat ?q) (unat ?e)) :: u32)) (ms_kv ms) = Inr (bases, kv)"
    and t: "t = \<lparr>ti_base_addr = 0, ti_dims = dims, ti_size = 0, ti_buf_type = KV,
        ti_precision = precision cfg, tk_kv_type = kv_type, tk_bases = bases,
        tk_entry_size = ?e, tk_seq_len = ?q\<rparr>"
    by (fastforce simp: NPUTensorKV_new_def Let_def ceil_div_def kv_seq_index_def split: if_splits)
  have e0: "0 < unat ?e" using e by (simp add: unat_gt_0)
  have "cdiv (unat ?q) (unat ?e) < 2 ^ 32"
    by (rule le_less_trans [OF cdiv_le_self [OF e0]]) simp
  then have "length bases = cdiv (unat ?q) (unat ?e)"
    using kv_allocate_n_length [OF al] by (simp add: unat_of_nat)
  then show ?thesis using t e0 assms(2) by (simp add: kv_wf_def)
qed

lemma add_token_KV_wf:
  assumes "kv_wf t" "unat (tk_seq_len t) + unat (tk_entry_size t) < 2 ^ 32"
    and "add_token_KV t ms = Inr (t', ms')"
  shows "kv_wf t' \<and> unat (tk_seq_len t') = unat (tk_seq_len t) + 1 \<and>
    tk_entry_size t' = tk_entry_size t \<and> tk_kv_type t' = tk_kv_type t"
proof -
  let ?i = "kv_seq_index (tk_kv_type t)" and ?s = "unat (tk_seq_len t)" and ?e = "unat (tk_entry_size t)"
  let ?u = "t\<lparr>tk_seq_len := tk_seq_len t + 1, ti_dims := (ti_dims t)[?i := ti_dims t ! ?i + 1]\<rparr>"
  have e: "0 < ?e" and l: "length (tk_bases t) = cdiv ?s ?e" and d: "length (ti_dims t) = 2"
    and q: "ti_dims t ! ?i = tk_seq_len t" using assms(1) by (simp_all add: kv_wf_def)
  have i: "?i < length (ti_dims t)" using d by (cases "tk_kv_type t") (simp_all add: kv_seq_index_def)
  have s1: "unat (tk_seq_len t + 1) = ?s + 1" using assms(2) e by (intro unat_Suc_u32) simp
  have m: "cdiv ?s ?e * ?e < 2 ^ 32" using cdiv_mult_less [OF e, of ?s] assms(2) by linarith
  have c: "cdiv ?s ?e < 2 ^ 32"
    by (rule le_less_trans [OF cdiv_le_self [OF e]]) simp
  have al: "unat (of_nat (length (tk_bases t)) * tk_entry_size t) = cdiv ?s ?e * ?e"
    using m c by (subst unat_word_ariths(2)) (simp add: l unat_of_nat)
  have cond: "tk_seq_len t + 1 \<le> get_allocated_seq_len_KV ?u \<longleftrightarrow> Suc ?s \<le> cdiv ?s ?e * ?e"
    by (simp add: get_allocated_seq_len_KV_def word_le_nat_alt al s1)
  have eq: "add_token_KV t ms =
      (if tk_seq_len t + 1 \<le> get_allocated_seq_len_KV ?u then Inr (?u, ms)
       else bindE (kv_allocate (ms_kv ms)) (\<lambda>(a, kv). Inr (?u\<lparr>tk_bases := tk_bases t @ [a]\<rparr>, ms\<lparr>ms_kv := kv\<rparr>)))"
    using i by (cases "tk_kv_type t") (simp_all add: add_token_KV_def Let_def kv_seq_index_def)
  show ?thesis
    using assms(3) i q e l d s1 cdiv_Suc [OF e, of ?s] unfolding eq cond
    by (auto simp: kv_wf_def split: if_splits)
qed

lemma get_addr_KV_returns:
  assumes "kv_wf t" "length idx = 2" "idx ! kv_seq_index (tk_kv_type t) < tk_seq_len t"
  shows "\<exists>a. get_addr_KV idx t = Inr a"
proof -
  let ?e = "unat (tk_entry_size t)" and ?q = "idx ! kv_seq_index (tk_kv_type t)"
  have e: "0 < ?e" using assms(1) by (simp add: kv_wf_def)
  have "unat (?q div tk_entry_size t) = unat ?q div ?e" by (simp add: unat_div)
  moreover have "unat ?q < cdiv (unat (tk_seq_len t)) ?e * ?e"
    using cdiv_mult_ge [OF e, of "unat (tk_seq_len t)"] assms(3) by (simp add: word_less_nat_alt)
  ultimately have "unat (?q div tk_entry_size t) < length (tk_bases t)"
    using assms(1) e by (simp add: kv_wf_def div_less_iff_less_mult)
  moreover have "tk_entry_size t \<noteq> 0" using e by auto
  moreover have "length (ti_dims t) = 2" using assms(1) by (simp add: kv_wf_def)
  ultimately show ?thesis using assms(2)
    by (cases "tk_kv_type t") (simp_all add: get_addr_KV_def kv_seq_index_def Let_def)
qed

lemma add_tokens_KV_wf:
  assumes "kv_wf t" "unat (tk_seq_len t) + n + unat (tk_entry_size t) < 2 ^ 32"
    and "add_tokens_KV n t ms = Inr (t', ms')"
  shows "kv_wf t' \<and> unat (tk_seq_len t') = unat (tk_seq_len t) + n \<and>
    tk_entry_size t' = tk_entry_size t \<and> tk_kv_type t' = tk_kv_type t"
  using assms
proof (induction n arbitrary: t ms)
  case (Suc n)
  from Suc.prems(3) obtain u mu where u: "add_token_KV t ms = Inr (u, mu)"
    and r: "add_tokens_KV n u mu = Inr (t', ms')" by auto
  have w: "kv_wf u \<and> unat (tk_seq_len u) = unat (tk_seq_len t) + 1 \<and>
    tk_entry_size u = tk_entry_size t \<and> tk_kv_type u = tk_kv_type t"
    by (rule add_token_KV_wf [OF Suc.prems(1) _ u]) (use Suc.prems(2) in simp)
  show ?case using Suc.IH [OF _ _ r] w Suc.prems(2) by simp
qed simp

text \<open>
  C37: A key or value tensor of the NPU layout owns exactly the blocks its tokens need: right after
  construction and after any number of \<open>add_token\<close> calls the number of blocks is the sequence
  length divided by the block length, rounded up, and every token in the sequence has an address.
\<close>

theorem npu_kv_blocks_cover_tokens:
  assumes "NPUTensorKV_new cfg dims kv_type ms = Inr (t, ms1)" "length dims = 2"
    and "add_tokens_KV n t ms1 = Inr (t', ms2)"
    and "unat (tk_seq_len t) + n + unat (tk_entry_size t) < 2 ^ 32"
  shows "unat (tk_seq_len t') = unat (dims ! kv_seq_index kv_type) + n \<and>
    length (tk_bases t') = cdiv (unat (tk_seq_len t')) (unat (tk_entry_size t)) \<and>
    (\<forall>i < tk_seq_len t'. \<forall>k. \<exists>a.
       get_addr_KV (case kv_type of KEY \<Rightarrow> [k, i] | VALUE \<Rightarrow> [i, k]) t' = Inr a)"
proof -
  from NPUTensorKV_new_wf [OF assms(1,2)] have w: "kv_wf t" "ti_dims t = dims" "tk_kv_type t = kv_type" by auto
  from add_tokens_KV_wf [OF w(1) assms(4,3)] have w': "kv_wf t'" "unat (tk_seq_len t') = unat (tk_seq_len t) + n"
    "tk_entry_size t' = tk_entry_size t" "tk_kv_type t' = kv_type" using w(3) by auto
  have "\<exists>a. get_addr_KV (case kv_type of KEY \<Rightarrow> [k, i] | VALUE \<Rightarrow> [i, k]) t' = Inr a"
    if "i < tk_seq_len t'" for i k
    using that w' by (cases kv_type) (auto intro!: get_addr_KV_returns simp: kv_seq_index_def)
  then show ?thesis using w w' by (auto simp: kv_wf_def)
qed

definition demo_mem :: mem_state where
  "demo_mem = \<lparr>ms_wgt = WgtAlloc_init, ms_act = ActAlloc_init demo_cfg 4096,
     ms_kv = KVCacheAlloc_new\<lparr>kv_mode := NPU_ONLY, kv_cache_entry_size := 32,
       kv_cache := [8192, 16384, 24576], kv_bank_per_ch := 32, kv_num_ele_per_row := 512\<rparr>, ms_next_id = 0\<rparr>"

theorem npu_kv_blocks_cover_tokens_witness:
  "\<exists>t ms1 t' ms2. NPUTensorKV_new demo_cfg [128, 31] KEY demo_mem = Inr (t, ms1) \<and>
     add_tokens_KV 2 t ms1 = Inr (t', ms2) \<and> length (tk_bases t') = 2"
proof -
  define t where "t = \<lparr>ti_base_addr = 0, ti_dims = [128, 31], ti_size = 0, ti_buf_type = KV, ti_precision = 2,
      tk_kv_type = KEY, tk_bases = [8192], tk_entry_size = 32, tk_seq_len = 31\<rparr>"
  define ms1 where "ms1 = demo_mem\<lparr>ms_kv := (ms_kv demo_mem)\<lparr>kv_cache := [16384, 24576]\<rparr>\<rparr>"
  have n: "NPUTensorKV_new demo_cfg [128, 31] KEY demo_mem = Inr (t, ms1)"
    by (simp add: NPUTensorKV_new_def demo_mem_def KVCacheAlloc_new_def ceil_div_def cdiv_def kv_allocate_def
        t_def ms1_def demo_cfg_def)
  define t1 where "t1 = t\<lparr>ti_dims := [128, 32], tk_seq_len := 32\<rparr>"
  have a1: "add_token_KV t ms1 = Inr (t1, ms1)"
    by (simp add: add_token_KV_def t_def t1_def get_allocated_seq_len_KV_def)
  have "\<exists>t2 ms2. add_token_KV t1 ms1 = Inr (t2, ms2)"
    by (simp add: add_token_KV_def t_def t1_def get_allocated_seq_len_KV_def ms1_def demo_mem_def
        kv_allocate_def KVCacheAlloc_new_def)
  then obtain t2 ms2 where a2: "add_token_KV t1 ms1 = Inr (t2, ms2)" by blast
  have r: "add_tokens_KV 2 t ms1 = Inr (t2, ms2)" using a1 a2 by (simp add: numeral_2_eq_2)
  have "unat (tk_seq_len t2) = 31 + 2 \<and> length (tk_bases t2) = cdiv (unat (tk_seq_len t2)) 32"
    using npu_kv_blocks_cover_tokens [OF n _ r] by (simp add: kv_seq_index_def t_def)
  with n r show ?thesis by (auto simp: cdiv_def)
qed

subsection \<open>The rows of a PIM tensor\<close>

text \<open>
  \<open>PIMTensor::add_token\<close> compares the new length with a capacity computed from that same new
  length, so whatever the tensor, a call that returns takes no row: only the length and the
  shape change.
\<close>

theorem pim_add_token_takes_no_row:
  assumes "PIMTensor_add_token t ms = Inr (t', ms')"
  shows "pt_rows t' = pt_rows t \<and> ms' = ms \<and> pt_seq_len t' = pt_seq_len t + 1"
proof -
  have ge: "pt_seq_len u \<le> a" if "get_allocated_seq_len_PIM u = Inr a" for u a
  proof -
    let ?b = "case pt_kv_type u of KEY \<Rightarrow> pt_bank_per_ch u | VALUE \<Rightarrow> pt_num_ele_per_row u"
    from that have b: "0 < unat ?b" and m: "cdiv (unat (pt_seq_len u)) (unat ?b) * unat ?b < 2 ^ 32"
      and a: "a = of_nat (cdiv (unat (pt_seq_len u)) (unat ?b) * unat ?b)"
      by (auto simp only: get_allocated_seq_len_PIM_def Let_def unat_gt_0 sum.inject not_le split: if_splits)
    have "unat a = cdiv (unat (pt_seq_len u)) (unat ?b) * unat ?b"
      using m unfolding a by (simp only: unat_of_nat) simp
    then show ?thesis using cdiv_mult_ge [OF b, of "unat (pt_seq_len u)"] by (simp add: word_le_nat_alt)
  qed
  from assms obtain u a where g: "get_allocated_seq_len_PIM u = Inr a"
    and r: "(if pt_seq_len u \<le> a then Inr (u, ms)
       else bindE (kv_allocate_ch_n (unat (pt_ch u)) (unat (pt_num_rows_per_alloc u)) (ms_kv ms)) (\<lambda>(rows, kv).
         Inr (u\<lparr>pt_rows := pt_rows u @ rows\<rparr>, ms\<lparr>ms_kv := kv\<rparr>))) = Inr (t', ms')"
    and u: "pt_rows u = pt_rows t" "pt_seq_len u = pt_seq_len t + 1"
    unfolding PIMTensor_add_token_def Let_def bindE_Inr at_Inr
    by (elim exE conjE) (rule that, assumption, assumption, simp, simp)
  have "t' = u" "ms' = ms" using r ge [OF g] by simp_all
  then show ?thesis using u by simp
qed

definition demo_pim :: pim_tensor where
  "demo_pim = \<lparr>bt_produced = False, bt_id = 0, bt_name = ''K'', bt_dims = [8, 128, 32], bt_child_nodes = [],
     bt_precision = 2, pt_kv_type = KEY, pt_bank_per_ch = 32, pt_E = 4096, pt_num_ele_per_row = 512,
     pt_num_rows_per_alloc = 8, pt_ch = 3, pt_rows = [1, 2, 3, 4, 5, 6, 7, 8], pt_seq_len = 32\<rparr>"

theorem pim_add_token_takes_no_row_witness:
  "\<exists>t'. PIMTensor_add_token demo_pim demo_mem = Inr (t', demo_mem) \<and> pt_seq_len t' = 33 \<and>
     length (pt_rows t') = 8 \<and> cdiv 33 32 * 8 = 16"
proof -
  obtain t' ms' where r: "PIMTensor_add_token demo_pim demo_mem = Inr (t', ms')"
    by (simp add: PIMTensor_add_token_def demo_pim_def get_allocated_seq_len_PIM_def cdiv_def)
  from pim_add_token_takes_no_row [OF r] r show ?thesis by (simp add: demo_pim_def cdiv_def)
qed

text \<open>
  \<open>NPUTensor::add_token\<close> grows the inner tensors but not the shape that \<open>NPUTensor::get_addr\<close>
  checks, so an index beyond the original shape, such as that of a token just added, is
  still answered by the exception.
\<close>

theorem npu_add_token_not_addressable:
  assumes "NPUTensor_add_token t ms = Inr (t', ms')" "\<not> nt_is_transposed t"
    and "length idx = length (bt_dims t)" "k < length idx" "bt_dims t ! k \<le> idx ! k"
  shows "NPUTensor_get_addr idx t' = Inl Thrown"
proof -
  obtain "is" where t': "t' = t\<lparr>nt_inners := is\<rparr>" using assms(1) by (auto simp: NPUTensor_add_token_def)
  have "(idx ! k, bt_dims t ! k) \<in> set (zip idx (bt_dims t))"
    using assms(3,4) by (auto simp: in_set_zip)
  then have "list_ex (\<lambda>(i, d). i \<ge> d) (zip idx (bt_dims t))"
    using assms(5) by (auto simp: list_ex_iff)
  then show ?thesis using assms(2,3) t' by (simp add: NPUTensor_get_addr_def)
qed

theorem npu_add_token_not_addressable_witness:
  "\<exists>t ms t' ms'. NPUTensor_new_KV demo_cfg False ''K'' [1, 128, 31] KEY False demo_mem = Inr (t, ms) \<and>
     NPUTensor_add_token t ms = Inr (t', ms') \<and> NPUTensor_get_addr [0, 5, 31] t' = Inl Thrown"
proof -
  obtain t ms t' ms' where a: "NPUTensor_new_KV demo_cfg False ''K'' [1, 128, 31] KEY False demo_mem = Inr (t, ms)"
    and b: "NPUTensor_add_token t ms = Inr (t', ms')" and d: "bt_dims t = [1, 128, 31]" "\<not> nt_is_transposed t"
    by (simp add: NPUTensor_new_KV_def generate_id_def NPUTensorKV_new_def demo_mem_def KVCacheAlloc_new_def
        ceil_div_def cdiv_def kv_allocate_def NPUTensor_add_token_def add_token_KV_def get_allocated_seq_len_KV_def
        demo_cfg_def)
  have "NPUTensor_get_addr [0, 5, 31] t' = Inl Thrown"
    by (rule npu_add_token_not_addressable [OF b d(2), of _ 2]) (simp_all add: d)
  with a b show ?thesis by blast
qed

end
