(* ===== verification/Instr.thy ===== *)
theory Instr
  imports Addr Config
begin

text \<open>
  Instructions, tiles and memory accesses (Common.h, Stat.h) and the two functions that turn an
  instruction into memory requests (Common.cc).  Tiles are shared objects: a \<open>weak_ptr<Tile>\<close> is
  a tile number, which the core looks up in its store of live tiles.
\<close>

subsection \<open>Data\<close>

datatype Opcode = MOVIN | MOVOUT | MOVOUT_POOL | GEMM_PRELOAD | GEMM | GEMM_WRITE | COMP | IM2COL
  | LAYERNORM | GELU | SOFTMAX | ADD | BAR | PIM_HEADER | PIM_GWRITE | PIM_COMP | PIM_READRES
  | PIM_COMPS_READRES | DUMMY | OPCODE_SIZE

datatype StagePlatform = SA | PIM | PLATFORM_SIZE
datatype Stage = Stage_A | Stage_B | Stage_C | Stage_D | Stage_E | Stage_F | Stage_Finish

datatype MemoryAccessType = READ | WRITE | GWRITE | COMP_ACCESS | READRES | P_HEADER | COMPS_READRES | ACCESS_SIZE

datatype tile_status = INITIALIZED | RUNNING | FINISH | TILE_BAR | EMPTY

abbreviation "SPAD_BASE \<equiv> (0x10000000 :: addr_type)"
abbreviation "ACCUM_SPAD_BASE \<equiv> (0x20000000 :: addr_type)"
abbreviation "GARBAGE_ADDR \<equiv> (0xFFFFFFFFFFFFFFF :: addr_type)"

record Instruction =
  opcode :: Opcode
  start_cycle :: cycle_type
  finish_cycle :: cycle_type
  inst_id :: string
  dependent_ids :: "string list"
  dest_id :: string
  dest_addr :: addr_type
  inst_size :: u32
  src_addrs :: "addr_type list"
  spad_id :: nat
  accum_spad_id :: nat
  operand_id :: u32
  base_addr :: addr_type
  tensor_id :: u32
  tile_m :: u32
  tile_k :: u32
  tile_n :: u32
  src_from_accum :: bool
  inst_valid :: bool
  is_pim_inst :: bool
  inst_parent :: "nat option"

text \<open>The members that a designated initialiser \<open>Instruction{...}\<close> does not name.\<close>

definition Instruction0 :: Instruction where
  "Instruction0 = \<lparr>opcode = MOVIN, start_cycle = 0, finish_cycle = 0, inst_id = '''', dependent_ids = [],
     dest_id = '''', dest_addr = 0, inst_size = 0, src_addrs = [], spad_id = 0, accum_spad_id = 0,
     operand_id = 0, base_addr = 0, tensor_id = 0, tile_m = 0, tile_k = 0, tile_n = 0,
     src_from_accum = False, inst_valid = True, is_pim_inst = False, inst_parent = None\<rparr>"

record TileStat =
  ts_start_cycle :: u64
  ts_end_cycle :: u64
  ts_compute_cycles :: u64
  ts_weight_load_cycles :: u64
  ts_memory_stalls :: u64
  ts_systolic_memory_stalls :: u64
  ts_memory_reads :: u64
  ts_memory_writes :: u64
  ts_sram_reads :: u64
  ts_sram_writes :: u64
  ts_num_calculation :: u64

definition TileStat_new :: "u64 \<Rightarrow> TileStat" where
  "TileStat_new core_cycle = \<lparr>ts_start_cycle = core_cycle, ts_end_cycle = 0, ts_compute_cycles = 0,
     ts_weight_load_cycles = 0, ts_memory_stalls = 0, ts_systolic_memory_stalls = 0,
     ts_memory_reads = 0, ts_memory_writes = 0, ts_sram_reads = 0, ts_sram_writes = 0,
     ts_num_calculation = 0\<rparr>"

record Tile =
  tl_status :: tile_status
  tl_optype :: string
  tl_operation_id :: u32
  tl_batch :: u32
  tl_Q :: u32
  tl_P :: u32
  tl_C :: u32
  tl_S :: u32
  tl_R :: u32
  tl_batches :: "u32 list"
  tl_N :: u32
  tl_K :: u32
  tl_M :: u32
  tl_stat :: TileStat
  tl_instructions :: "Instruction list"
  tl_accum :: bool
  tl_skip :: bool
  tl_spad_id :: nat
  tl_accum_spad_id :: nat
  remaining_loads :: u32
  remaining_computes :: u32
  remaining_accum_io :: u32
  tl_stage_platform :: StagePlatform

definition Tile0 :: Tile where
  "Tile0 = \<lparr>tl_status = EMPTY, tl_optype = '''', tl_operation_id = 0, tl_batch = 0, tl_Q = 0, tl_P = 0,
     tl_C = 0, tl_S = 0, tl_R = 0, tl_batches = [], tl_N = 0, tl_K = 0, tl_M = 0,
     tl_stat = TileStat_new 0, tl_instructions = [], tl_accum = False, tl_skip = False,
     tl_spad_id = 0, tl_accum_spad_id = 0, remaining_loads = 0, remaining_computes = 0,
     remaining_accum_io = 0, tl_stage_platform = SA\<rparr>"

record MemoryAccess =
  ma_id :: u32
  dram_address :: addr_type
  spad_address :: addr_type
  ma_size :: u64
  req_type :: MemoryAccessType
  ma_request :: bool
  ma_core_id :: u32
  ma_start_cycle :: cycle_type
  dram_enter_cycle :: cycle_type
  dram_finish_cycle :: cycle_type
  ma_buffer_id :: nat
  ma_parent :: "nat option"
  ma_stage_platform :: StagePlatform

subsection \<open>Names\<close>

definition stageToString :: "Stage \<Rightarrow> string" where
  "stageToString s = (case s of Stage_A \<Rightarrow> ''A'' | Stage_B \<Rightarrow> ''B'' | Stage_C \<Rightarrow> ''C'' | Stage_D \<Rightarrow> ''D''
     | Stage_E \<Rightarrow> ''E'' | Stage_F \<Rightarrow> ''F'' | Stage_Finish \<Rightarrow> ''Finish'')"

definition stagePlatformToString :: "StagePlatform \<Rightarrow> string" where
  "stagePlatformToString sp = (case sp of SA \<Rightarrow> ''SA'' | PIM \<Rightarrow> ''PIM'' | _ \<Rightarrow> ''unknown'')"

text \<open>\<open>name_gen\<close> joins its arguments with dots; it asserts that there is one.\<close>

fun name_gen :: "string list \<Rightarrow> fault + string" where
  "name_gen [] = Inl AssertFailed"
| "name_gen (s # strs) = Inr (s @ concat (map (\<lambda>t. ''.'' @ t) strs))"

subsection \<open>Requests of an instruction\<close>

text \<open>
  What the functions below read or keep outside their arguments: the configuration and the
  \<open>AddressConfig\<close> globals, the iteration order of \<open>robin_hood::unordered_set\<close> (a third-party
  container; the model takes the order as a function of the inserted keys), the opcode that
  \<open>front()\<close> reads from an empty queue (stale memory, see \<open>update_stats\<close>), and the static counters.
\<close>

record env =
  e_cfg :: sim_config
  e_alignment :: addr_type
  e_channel_mask :: addr_type
  e_set_order :: "addr_type list \<Rightarrow> addr_type list"
  e_stale_opcode :: Opcode

record req_state =
  const_addr :: addr_type
  pre_req_count :: nat
  req_count :: nat
  mem_access_id :: u32

definition generate_mem_access_id :: "req_state \<Rightarrow> u32 \<times> req_state" where
  "generate_mem_access_id r = (mem_access_id r, r\<lparr>mem_access_id := mem_access_id r + 1\<rparr>)"

definition max_address :: "sim_config \<Rightarrow> addr_type" where
  "max_address cfg = ucast (model_n_embd cfg * model_n_embd cfg * 5 * 2 div n_tp cfg)"

text \<open>
  The loop of \<open>from_instruction\<close>: one synthetic address per source address, advancing the static
  \<open>const_addr\<close>; the source address itself is not used.  Inserting into the set keeps the first
  occurrence.
\<close>

fun collect_addrs :: "env \<Rightarrow> addr_type list \<Rightarrow> addr_type list \<Rightarrow> req_state \<Rightarrow> addr_type list \<times> req_state" where
  "collect_addrs e [] acc r = (acc, r)"
| "collect_addrs e (addr # addrs) acc r =
     (let c = const_addr r + 2;
          c = (if c \<ge> max_address (e_cfg e) then 0 else c);
          x = align (e_alignment e) (switch_co_ch c);
          acc = (if x \<in> set acc then acc else acc @ [x])
      in collect_addrs e addrs acc (r\<lparr>pre_req_count := pre_req_count r + 1, const_addr := c\<rparr>))"

definition from_instruction :: "env \<Rightarrow> Instruction \<Rightarrow> u32 \<Rightarrow> u32 \<Rightarrow> MemoryAccessType \<Rightarrow> bool \<Rightarrow> u32 \<Rightarrow>
    cycle_type \<Rightarrow> nat \<Rightarrow> StagePlatform \<Rightarrow> req_state \<Rightarrow> fault + (MemoryAccess list \<times> req_state)" where
  "from_instruction e inst mid sz rtype request core_id cyc buffer_id stage_platform r =
     (if n_tp (e_cfg e) = 0 then Inl Undefined else
      let (keys, r) = collect_addrs e (src_addrs inst) [] r;
          ret = map (\<lambda>addr. \<lparr>ma_id = mid, dram_address = addr, spad_address = dest_addr inst,
            ma_size = ucast sz, req_type = rtype, ma_request = request, ma_core_id = core_id,
            ma_start_cycle = cyc, dram_enter_cycle = 0, dram_finish_cycle = 0,
            ma_buffer_id = buffer_id, ma_parent = inst_parent inst,
            ma_stage_platform = stage_platform\<rparr>) (e_set_order e keys)
      in Inr (ret, r\<lparr>req_count := req_count r + length ret\<rparr>))"

definition access_type :: "Opcode \<Rightarrow> MemoryAccessType" where
  "access_type opc = (case opc of PIM_HEADER \<Rightarrow> P_HEADER | PIM_GWRITE \<Rightarrow> GWRITE | PIM_COMP \<Rightarrow> COMP_ACCESS
     | PIM_READRES \<Rightarrow> READRES | PIM_COMPS_READRES \<Rightarrow> COMPS_READRES | MOVIN \<Rightarrow> READ | MOVOUT \<Rightarrow> WRITE
     | _ \<Rightarrow> ACCESS_SIZE)"

definition TransToMemoryAccess :: "Instruction \<Rightarrow> u32 \<Rightarrow> u32 \<Rightarrow> cycle_type \<Rightarrow> nat \<Rightarrow> StagePlatform \<Rightarrow>
    req_state \<Rightarrow> fault + (MemoryAccess \<times> req_state)" where
  "TransToMemoryAccess inst sz core_id cyc buffer_id stage_platform r =
     ast (src_addrs inst \<noteq> [])
       (let (i, r) = generate_mem_access_id r
        in Inr (\<lparr>ma_id = i, dram_address = hd (src_addrs inst), spad_address = dest_addr inst,
                 ma_size = ucast sz, req_type = access_type (opcode inst), ma_request = True,
                 ma_core_id = core_id, ma_start_cycle = cyc, dram_enter_cycle = 0,
                 dram_finish_cycle = 0, ma_buffer_id = buffer_id, ma_parent = inst_parent inst,
                 ma_stage_platform = stage_platform\<rparr>, r))"

subsection \<open>What the requests look like\<close>

lemma collect_addrs_props:
  assumes "collect_addrs e addrs acc r = (keys, r')" "distinct acc"
  shows "distinct keys \<and> length keys \<le> length acc + length addrs \<and> (addrs \<noteq> [] \<longrightarrow> keys \<noteq> []) \<and>
    length acc \<le> length keys \<and>
    set keys \<subseteq> set acc \<union> range (\<lambda>c. align (e_alignment e) (switch_co_ch c)) \<and>
    pre_req_count r' = pre_req_count r + length addrs"
  using assms
proof (induction addrs arbitrary: acc r)
  case (Cons a addrs)
  define c where "c = (if const_addr r + 2 \<ge> max_address (e_cfg e) then 0 else const_addr r + 2)"
  define x where "x = align (e_alignment e) (switch_co_ch c)"
  define acc' where "acc' = (if x \<in> set acc then acc else acc @ [x])"
  have run: "collect_addrs e addrs acc' (r\<lparr>pre_req_count := pre_req_count r + 1, const_addr := c\<rparr>) = (keys, r')"
    using Cons.prems(1) by (simp only: collect_addrs.simps Let_def c_def x_def acc'_def)
  have d: "distinct acc'" using Cons.prems(2) by (simp add: acc'_def)
  have n: "acc' \<noteq> []" by (auto simp: acc'_def)
  have "length acc' \<le> Suc (length acc)" "length acc \<le> length acc'"
    "set acc' \<subseteq> set acc \<union> range (\<lambda>c. align (e_alignment e) (switch_co_ch c))"
    by (auto simp: acc'_def x_def)
  with Cons.IH [OF run d] n show ?case by (auto 0 3)
qed simp

lemma unat_mask_channel: "unat (mask_channel 31 a) = unat a div 1024 mod 32"
proof -
  have m: "(31 :: addr_type) = 32 - 1" by simp
  have "unat (drop_bit 10 a AND 31) = unat a div 1024 mod 32"
    unfolding m by (subst and_mask_mod [of _ 5]) (simp_all only: unat_drop_bit_eq, simp_all add: drop_bit_eq_div)
  then show ?thesis
    by (simp add: mask_channel_def unsigned_ucast_eq take_bit_nat_eq_self less_trans [of _ 32])
qed

lemma even_mod_32: "even (n * 2 mod 32)" for n :: nat
  by presburger

lemma from_instruction_total:
  "n_tp (e_cfg e) \<noteq> 0 \<Longrightarrow>
     \<exists>ret r'. from_instruction e inst mid sz rtype request core_id cyc buffer_id sp r = Inr (ret, r')"
  by (simp add: from_instruction_def split: prod.split)

lemma from_instruction_Inr:
  assumes "from_instruction e inst mid sz rtype request core_id cyc buffer_id sp r = Inr (ret, r')"
  obtains keys r1 where "collect_addrs e (src_addrs inst) [] r = (keys, r1)"
    "map dram_address ret = e_set_order e keys" "r' = r1\<lparr>req_count := req_count r1 + length ret\<rparr>"
    "\<forall>a \<in> set ret. ma_parent a = inst_parent inst \<and> req_type a = rtype \<and> spad_address a = dest_addr inst \<and>
       ma_buffer_id a = buffer_id \<and> ma_request a = request \<and> ma_stage_platform a = sp \<and> ma_core_id a = core_id"
  using assms by (auto simp: from_instruction_def comp_def split: if_splits prod.splits)

text \<open>
  The requests that \<open>MemoryAccess::from_instruction\<close> makes are at least one and at most as many
  as the source addresses, address different lines, and all belong to the instruction's tile,
  scratchpad entry and buffer; the statistics counters advance by the numbers of source addresses and of requests.
\<close>

theorem from_instruction_requests:
  assumes "\<And>xs. mset (e_set_order e xs) = mset xs" "src_addrs inst \<noteq> []"
    and "from_instruction e inst mid sz rtype request core_id cyc buffer_id sp r = Inr (ret, r')"
  shows "0 < length ret \<and> length ret \<le> length (src_addrs inst) \<and> distinct (map dram_address ret) \<and>
    (\<forall>a \<in> set ret. ma_parent a = inst_parent inst \<and> req_type a = rtype \<and> spad_address a = dest_addr inst \<and>
       ma_buffer_id a = buffer_id) \<and>
    pre_req_count r' = pre_req_count r + length (src_addrs inst)"
proof -
  from assms(3) obtain keys r1 where c: "collect_addrs e (src_addrs inst) [] r = (keys, r1)"
    and m: "map dram_address ret = e_set_order e keys" and r: "r' = r1\<lparr>req_count := req_count r1 + length ret\<rparr>"
    and al: "\<forall>a \<in> set ret. ma_parent a = inst_parent inst \<and> req_type a = rtype \<and> spad_address a = dest_addr inst \<and>
       ma_buffer_id a = buffer_id" by (rule from_instruction_Inr) blast
  have o: "mset (map dram_address ret) = mset keys" using m assms(1) by simp
  have "length ret = length keys" using mset_eq_length [OF o] by simp
  moreover have "distinct (map dram_address ret) = distinct keys" by (rule mset_eq_imp_distinct_iff [OF o])
  moreover note collect_addrs_props [OF c]
  ultimately show ?thesis using assms(2) al r by (auto simp flip: length_greater_0_conv)
qed

definition demo_env :: env where
  "demo_env = \<lparr>e_cfg = demo_cfg, e_alignment = 2048, e_channel_mask = 31, e_set_order = rev, e_stale_opcode = MOVIN\<rparr>"

definition demo_req_state :: req_state where
  "demo_req_state = \<lparr>const_addr = 64510, pre_req_count = 0, req_count = 0, mem_access_id = 0\<rparr>"

definition demo_load :: Instruction where
  "demo_load = Instruction0\<lparr>opcode := MOVIN, dest_addr := 0x10000000, inst_size := 6,
     src_addrs := [0, 2, 4], inst_parent := Some 0\<rparr>"

theorem from_instruction_requests_witness:
  "\<exists>ret r'. from_instruction demo_env demo_load 0 64 READ True 0 5 1 SA demo_req_state = Inr (ret, r') \<and>
     0 < length ret \<and> length ret \<le> 3"
proof -
  have "n_tp (e_cfg demo_env) \<noteq> 0" by (simp add: demo_env_def demo_cfg_def)
  from from_instruction_total [OF this] obtain ret r'
    where r: "from_instruction demo_env demo_load 0 64 READ True 0 5 1 SA demo_req_state = Inr (ret, r')" by blast
  have "0 < length ret \<and> length ret \<le> length (src_addrs demo_load)"
    using from_instruction_requests [OF _ _ r] by (simp add: demo_env_def demo_load_def)
  with r show ?thesis by (auto simp: demo_load_def)
qed

text \<open>
  C40: With the interleaving unit of the repository's configuration (64-byte requests, 32 channels,
  so 2048), aligning an address after the channel swap clears the lowest channel bit: every
  read or write request made by \<open>from_instruction\<close> goes to an even channel.
\<close>

theorem npu_requests_even_channels:
  assumes "\<And>xs. mset (e_set_order e xs) = mset xs" "e_alignment e = 64 * 32"
    and "from_instruction e inst mid sz rtype request core_id cyc buffer_id sp r = Inr (ret, r')"
    and "a \<in> set ret"
  shows "even (unat (mask_channel 31 (dram_address a)))"
proof -
  from assms(3) obtain keys r1 where c: "collect_addrs e (src_addrs inst) [] r = (keys, r1)"
    and m: "map dram_address ret = e_set_order e keys" by (rule from_instruction_Inr) blast
  have "set (map dram_address ret) = set keys" using assms(1) [of keys] m mset_eq_setD by metis
  then have "dram_address a \<in> set keys" using assms(4) by auto
  then obtain k where d: "dram_address a = align 2048 (switch_co_ch k)"
    using collect_addrs_props [OF c] assms(2) by auto
  have "unat (2048 :: addr_type) = 2 ^ 11" by simp
  from unat_align [OF this, of "switch_co_ch k"] have "unat (dram_address a) = unat (switch_co_ch k) div 2048 * 2 * 1024"
    unfolding d by simp
  then have "unat (dram_address a) div 1024 = unat (switch_co_ch k) div 2048 * 2" by simp
  moreover have "unat (mask_channel 31 (dram_address a)) = unat (dram_address a) div 1024 mod 32"
    by (rule unat_mask_channel)
  ultimately have "unat (mask_channel 31 (dram_address a)) = unat (switch_co_ch k) div 2048 * 2 mod 32" by simp
  then show ?thesis using even_mod_32 [of "unat (switch_co_ch k) div 2048"] by (simp only:)
qed

theorem npu_requests_even_channels_witness:
  "\<exists>ret r'. from_instruction demo_env demo_load 0 64 READ True 0 5 1 SA demo_req_state = Inr (ret, r') \<and>
     (\<forall>a \<in> set ret. even (unat (mask_channel 31 (dram_address a))))"
proof -
  have "n_tp (e_cfg demo_env) \<noteq> 0" by (simp add: demo_env_def demo_cfg_def)
  from from_instruction_total [OF this] obtain ret r'
    where r: "from_instruction demo_env demo_load 0 64 READ True 0 5 1 SA demo_req_state = Inr (ret, r')" by blast
  then show ?thesis
    using npu_requests_even_channels [OF _ _ r] by (auto simp: demo_env_def)
qed

end
