(* ===== verification/SramModel.thy ===== *)
theory SramModel
  imports Addr Config "HOL-Library.Signed_Division"
begin

text \<open>
  The scratchpads (Sram.h, Sram.cc): two buffers, each a table from addresses to entries with a
  byte budget of half the scratchpad.  An entry counts the memory responses or computations it
  still waits for and is valid when there are none.  The arrays of two elements are functions of
  the buffer number, which is 0 or 1 at every call (the core only ever toggles it).
\<close>

record SramEntry =
  se_valid :: bool
  se_size :: u64
  se_remain_req_count :: u64
  se_timestamp :: cycle_type

record Sram =
  sr_size :: i32
  sr_data_width :: i32
  sr_current_size :: "nat \<Rightarrow> i32"
  sr_accum :: bool
  sr_table :: "nat \<Rightarrow> addr_type \<Rightarrow> SramEntry option"

definition Sram_new :: "sim_config \<Rightarrow> bool \<Rightarrow> Sram" where
  "Sram_new cfg accum = \<lparr>sr_size = (if accum then accum_spad_size cfg * 1024 else spad_size cfg * 1024),
     sr_data_width = dram_req_size cfg, sr_current_size = (\<lambda>_. 0), sr_accum = accum,
     sr_table = (\<lambda>_. Map.empty)\<rparr>"

definition sr_set :: "nat \<Rightarrow> addr_type \<Rightarrow> SramEntry \<Rightarrow> Sram \<Rightarrow> Sram" where
  "sr_set b a e s = s\<lparr>sr_table := (sr_table s)(b := (sr_table s b)(a \<mapsto> e))\<rparr>"

definition check_allocated :: "addr_type \<Rightarrow> nat \<Rightarrow> Sram \<Rightarrow> bool" where
  "check_allocated address buffer_id s \<longleftrightarrow> sr_table s buffer_id address \<noteq> None"

definition check_hit :: "cycle_type \<Rightarrow> addr_type \<Rightarrow> nat \<Rightarrow> Sram \<Rightarrow> bool \<times> Sram" where
  "check_hit core_cycle address buffer_id s =
     (case sr_table s buffer_id address of
        None \<Rightarrow> (False, s)
      | Some e \<Rightarrow> (se_valid e, sr_set buffer_id address (e\<lparr>se_timestamp := core_cycle\<rparr>) s))"

text \<open>\<open>_size / 2\<close> truncates towards zero; the comparisons of \<open>check_remain\<close> are in \<open>size_t\<close>.\<close>

definition half_size :: "Sram \<Rightarrow> i32" where
  "half_size s = word_of_int (sint (sr_size s) sdiv 2)"

definition check_full :: "nat \<Rightarrow> Sram \<Rightarrow> bool" where
  "check_full buffer_id s \<longleftrightarrow> sint (sr_current_size s buffer_id) < sint (half_size s)"

definition check_remain :: "u64 \<Rightarrow> nat \<Rightarrow> Sram \<Rightarrow> bool" where
  "check_remain sz buffer_id s \<longleftrightarrow> scast (sr_current_size s buffer_id) + sz \<le> (scast (half_size s) :: u64)"

definition flush :: "nat \<Rightarrow> Sram \<Rightarrow> Sram" where
  "flush buffer_id s = s\<lparr>sr_current_size := (sr_current_size s)(buffer_id := 0),
     sr_table := (sr_table s)(buffer_id := Map.empty)\<rparr>"

text \<open>Reserving an address twice ends in \<open>assert(0)\<close> on both branches of the source.\<close>

definition reserve :: "cycle_type \<Rightarrow> addr_type \<Rightarrow> nat \<Rightarrow> u64 \<Rightarrow> u64 \<Rightarrow> Sram \<Rightarrow> fault + Sram" where
  "reserve core_cycle address buffer_id allocated_size req_cnt s =
     (case sr_table s buffer_id address of
        Some _ \<Rightarrow> Inl AssertFailed
      | None \<Rightarrow> ast (check_remain allocated_size buffer_id s)
          (let s = s\<lparr>sr_current_size := (sr_current_size s)(buffer_id :=
                       ucast (scast (sr_current_size s buffer_id) + allocated_size))\<rparr>
           in Inr (sr_set buffer_id address \<lparr>se_valid = False, se_size = allocated_size,
                     se_remain_req_count = req_cnt, se_timestamp = core_cycle\<rparr> s)))"

definition fill :: "addr_type \<Rightarrow> nat \<Rightarrow> Sram \<Rightarrow> fault + Sram" where
  "fill address buffer_id s =
     (case sr_table s buffer_id address of
        None \<Rightarrow> Inl AssertFailed
      | Some e \<Rightarrow> ast (se_remain_req_count e > 0 \<and> \<not> se_valid e)
          (let e = e\<lparr>se_remain_req_count := se_remain_req_count e - 1\<rparr>;
               e = (if se_remain_req_count e = 0 then e\<lparr>se_valid := True\<rparr> else e)
           in Inr (sr_set buffer_id address e s)))"

definition count_up :: "addr_type \<Rightarrow> nat \<Rightarrow> Sram \<Rightarrow> fault + Sram" where
  "count_up address buffer_id s =
     (case sr_table s buffer_id address of
        None \<Rightarrow> Inl AssertFailed
      | Some e \<Rightarrow>
          (let e = e\<lparr>se_remain_req_count := se_remain_req_count e + 1\<rparr>;
               e = (if se_valid e then e\<lparr>se_valid := False\<rparr> else e)
           in Inr (sr_set buffer_id address e s)))"

subsection \<open>The contract of an entry that waits for responses\<close>

text \<open>
  \<open>pending s\<close> is None while the entry is not allocated and otherwise the number of responses it
  waits for.
\<close>

locale scoreboard =
  fixes reserve_op :: "nat \<Rightarrow> 's \<Rightarrow> fault + 's"
    and fill_op :: "'s \<Rightarrow> fault + 's"
    and pending :: "'s \<Rightarrow> nat option"
    and ready :: "'s \<Rightarrow> bool"
    and invar :: "'s \<Rightarrow> bool"
  assumes reserve_law: "\<lbrakk>invar s; 0 < n; n < 2 ^ 64; reserve_op n s = Inr s'\<rbrakk> \<Longrightarrow>
      pending s = None \<and> pending s' = Some n \<and> invar s'"
    and fill_law: "\<lbrakk>invar s; pending s = Some (Suc n)\<rbrakk> \<Longrightarrow>
      \<exists>s'. fill_op s = Inr s' \<and> pending s' = Some n \<and> invar s'"
    and fill_fault: "\<lbrakk>invar s; pending s = None \<or> pending s = Some 0\<rbrakk> \<Longrightarrow> fill_op s = Inl AssertFailed"
    and ready_law: "invar s \<Longrightarrow> ready s \<longleftrightarrow> pending s = Some 0"
begin

lemma fills_pending:
  "\<lbrakk>invar s; pending s = Some n; k \<le> n\<rbrakk> \<Longrightarrow>
     \<exists>s'. iterE k fill_op s = Inr s' \<and> pending s' = Some (n - k) \<and> invar s'"
proof (induction k arbitrary: s n)
  case (Suc k)
  then obtain m where m: "n = Suc m" by (cases n) auto
  with Suc.prems fill_law obtain t where "fill_op s = Inr t" "pending t = Some m" "invar t" by blast
  then show ?case using Suc.IH [of t m] Suc.prems(3) m by simp
qed simp

lemma reserved_ready_after_fills:
  assumes "invar s" "0 < n" "n < 2 ^ 64" "reserve_op n s = Inr s'"
  shows "(\<forall>k \<le> n. \<exists>t. iterE k fill_op s' = Inr t \<and> (ready t \<longleftrightarrow> k = n)) \<and> iterE (Suc n) fill_op s' = Inl AssertFailed"
proof -
  from reserve_law [OF assms] have p: "pending s' = Some n" and i: "invar s'" by auto
  have "\<exists>t. iterE k fill_op s' = Inr t \<and> (ready t \<longleftrightarrow> k = n)" if k: "k \<le> n" for k
  proof -
    from fills_pending [OF i p k] obtain t where "iterE k fill_op s' = Inr t" "pending t = Some (n - k)" "invar t" by blast
    then show ?thesis using ready_law k by auto
  qed
  moreover have "iterE (Suc n) fill_op s' = Inl AssertFailed"
  proof -
    from fills_pending [OF i p order.refl] obtain t where t: "iterE n fill_op s' = Inr t" "pending t = Some 0" "invar t" by auto
    then have "iterE (n + 1) fill_op s' = Inl AssertFailed" using fill_fault [of t] by (subst iterE_add) simp
    then show ?thesis by simp
  qed
  ultimately show ?thesis by blast
qed

end

subsection \<open>Invariant of a scratchpad\<close>

definition sram_bytes :: "(addr_type \<Rightarrow> SramEntry option) \<Rightarrow> nat" where
  "sram_bytes T = (\<Sum>a \<in> dom T. unat (se_size (the (T a))))"

definition sram_buf_ok :: "i32 \<Rightarrow> i32 \<Rightarrow> (addr_type \<Rightarrow> SramEntry option) \<Rightarrow> bool" where
  "sram_buf_ok sz cur T \<longleftrightarrow> finite (dom T) \<and> sram_bytes T = unat cur \<and> unat cur \<le> unat sz div 2 \<and>
     (\<forall>a e. T a = Some e \<longrightarrow> (se_valid e \<longleftrightarrow> se_remain_req_count e = 0))"

definition sram_ok :: "Sram \<Rightarrow> bool" where
  "sram_ok s \<longleftrightarrow> unat (sr_size s) < 2 ^ 31 \<and>
     (\<forall>b. sram_buf_ok (sr_size s) (sr_current_size s b) (sr_table s b))"

lemma sram_bytes_empty [simp]: "sram_bytes Map.empty = 0"
  by (simp add: sram_bytes_def)

lemma sram_bytes_insert:
  "finite (dom T) \<Longrightarrow> T a = None \<Longrightarrow> sram_bytes (T(a \<mapsto> e)) = unat (se_size e) + sram_bytes T"
proof -
  assume f: "finite (dom T)" and n: "T a = None"
  have "a \<notin> dom T" using n by auto
  moreover have "(\<Sum>x \<in> dom T. unat (se_size (the ((T(a \<mapsto> e)) x)))) = sram_bytes T"
    unfolding sram_bytes_def by (rule sum.cong) (use n in auto)
  ultimately show ?thesis using f by (simp add: sram_bytes_def)
qed

lemma sram_bytes_update:
  "T a = Some e' \<Longrightarrow> se_size e = se_size e' \<Longrightarrow> sram_bytes (T(a \<mapsto> e)) = sram_bytes T"
proof -
  assume a: "T a = Some e'" "se_size e = se_size e'"
  then have "dom (T(a \<mapsto> e)) = dom T" by auto
  then show ?thesis using a unfolding sram_bytes_def by (intro sum.cong) auto
qed

lemma sram_buf_ok_update:
  "\<lbrakk>sram_buf_ok sz cur T; T a = Some e'; se_size e = se_size e'; se_valid e \<longleftrightarrow> se_remain_req_count e = 0\<rbrakk> \<Longrightarrow>
     sram_buf_ok sz cur (T(a \<mapsto> e))"
  by (simp add: sram_buf_ok_def sram_bytes_update)

lemma sram_ok_set:
  "\<lbrakk>sram_ok s; sr_table s b a = Some e'; se_size e = se_size e'; se_valid e \<longleftrightarrow> se_remain_req_count e = 0\<rbrakk> \<Longrightarrow>
     sram_ok (sr_set b a e s)"
  by (simp add: sram_ok_def sr_set_def sram_buf_ok_update)

lemma sdiv2_nat: "int n sdiv 2 = int (n div 2)"
  by (simp add: signed_divide_int_def sgn_if zdiv_int)

lemma sint_half:
  assumes "unat (sr_size s) < 2 ^ 31"
  shows "unat (scast (half_size s) :: u64) = unat (sr_size s) div 2"
proof -
  have s: "sint (sr_size s) = int (unat (sr_size s))" by (rule sint_eq_unat_i32 [OF assms])
  have "half_size s = of_nat (unat (sr_size s) div 2)"
    by (simp only: half_size_def s sdiv2_nat of_int_of_nat_eq)
  moreover have lt: "unat (sr_size s) div 2 < 2 ^ 30"
  proof -
    have h: "x < 2 ^ 31 \<Longrightarrow> x div 2 < 2 ^ 30" for x :: nat by simp
    show ?thesis by (rule h [OF assms])
  qed
  ultimately have "unat (half_size s) = unat (sr_size s) div 2"
    by (simp add: unat_of_nat)
  then show ?thesis using lt by (subst unat_scast_i32) simp_all
qed

lemma check_remain_iff:
  assumes "sram_ok s" "unat sz < 2 ^ 32"
  shows "check_remain sz b s \<longleftrightarrow> unat (sr_current_size s b) + unat sz \<le> unat (sr_size s) div 2"
    and "unat (scast (sr_current_size s b) + sz :: u64) = unat (sr_current_size s b) + unat sz"
proof -
  have c: "unat (sr_size s) < 2 ^ 31" "unat (sr_current_size s b) \<le> unat (sr_size s) div 2"
    using assms(1) by (auto simp: sram_ok_def sram_buf_ok_def)
  then have c31: "unat (sr_current_size s b) < 2 ^ 31"
  proof -
    have "unat (sr_size s) div 2 \<le> unat (sr_size s)" by simp
    then show ?thesis using c by linarith
  qed
  show sum: "unat (scast (sr_current_size s b) + sz :: u64) = unat (sr_current_size s b) + unat sz"
    using c31 assms(2) unat_scast_i32 [OF c31] by (subst unat_plus_u64) simp_all
  show "check_remain sz b s \<longleftrightarrow> unat (sr_current_size s b) + unat sz \<le> unat (sr_size s) div 2"
    by (simp only: check_remain_def word_le_nat_alt sum sint_half [OF c(1)])
qed

lemma sram_ok_reserve:
  assumes "sram_ok s" "unat sz < 2 ^ 32" "n \<noteq> 0" "reserve t a b sz n s = Inr s'"
  shows "sram_ok s' \<and> unat (sr_current_size s' b) = unat (sr_current_size s b) + unat sz"
proof -
  from assms(4) have fresh: "sr_table s b a = None" and fits: "check_remain sz b s"
    and s': "s' = sr_set b a \<lparr>se_valid = False, se_size = sz, se_remain_req_count = n, se_timestamp = t\<rparr>
        (s\<lparr>sr_current_size := (sr_current_size s)(b := ucast (scast (sr_current_size s b) + sz))\<rparr>)"
    by (auto simp: reserve_def Let_def split: option.splits)
  have le: "unat (sr_current_size s b) + unat sz \<le> unat (sr_size s) div 2"
    using fits check_remain_iff(1) [OF assms(1,2)] by simp
  have sz31: "unat (sr_size s) < 2 ^ 31" using assms(1) by (simp add: sram_ok_def)
  have bound: "\<lbrakk>x \<le> h; h \<le> m; m < 2 ^ 31\<rbrakk> \<Longrightarrow> x < 2 ^ 32" for x h m :: nat by simp
  have "unat (sr_size s) div 2 \<le> unat (sr_size s)" by simp
  from bound [OF le this sz31] have "unat (sr_current_size s b) + unat sz < 2 ^ 32" .
  then have cur: "unat (ucast (scast (sr_current_size s b) + sz :: u64) :: i32) = unat (sr_current_size s b) + unat sz"
    using check_remain_iff(2) [OF assms(1,2), of b]
    by (simp only: unsigned_ucast_eq) (simp add: take_bit_nat_eq_self)
  have ok: "sram_buf_ok (sr_size s) (sr_current_size s b') (sr_table s b')" for b'
    using assms(1) by (simp add: sram_ok_def)
  have "sram_buf_ok (sr_size s) (ucast (scast (sr_current_size s b) + sz))
      ((sr_table s b)(a \<mapsto> \<lparr>se_valid = False, se_size = sz, se_remain_req_count = n, se_timestamp = t\<rparr>))"
    using ok [of b] cur le fresh assms(3) unfolding sram_buf_ok_def
    by (simp add: sram_bytes_insert)
  then show ?thesis using ok sz31 cur unfolding s' by (simp add: sram_ok_def sr_set_def)
qed

lemma sram_ok_flush: "sram_ok s \<Longrightarrow> sram_ok (flush b s)"
  by (simp add: sram_ok_def flush_def sram_buf_ok_def)

lemma sram_ok_valid: "\<lbrakk>sram_ok s; sr_table s b a = Some e\<rbrakk> \<Longrightarrow> se_valid e \<longleftrightarrow> se_remain_req_count e = 0"
  by (simp add: sram_ok_def sram_buf_ok_def)

lemma sram_ok_hit: "sram_ok s \<Longrightarrow> sram_ok (snd (check_hit t a b s))"
  by (auto simp: check_hit_def sram_ok_valid intro!: sram_ok_set split: option.splits)

lemma sram_ok_fill: "\<lbrakk>sram_ok s; fill a b s = Inr s'\<rbrakk> \<Longrightarrow> sram_ok s'"
  by (auto simp: fill_def Let_def intro!: sram_ok_set split: option.splits if_splits)

lemma sram_ok_count_up:
  assumes "sram_ok s" "count_up a b s = Inr s'"
    and "\<And>e. sr_table s b a = Some e \<Longrightarrow> se_remain_req_count e + 1 \<noteq> 0"
  shows "sram_ok s'"
  using assms by (auto simp: count_up_def Let_def intro!: sram_ok_set split: option.splits if_splits)

lemma sram_ok_new:
  assumes "unat (spad_size cfg) < 2 ^ 21" "unat (accum_spad_size cfg) < 2 ^ 21"
  shows "sram_ok (Sram_new cfg accum)"
proof -
  have "unat (x * 1024) < 2 ^ 31" if "unat x < 2 ^ 21" for x :: u32
    using that by (simp add: unat_word_ariths)
  then show ?thesis using assms by (simp add: sram_ok_def Sram_new_def sram_buf_ok_def)
qed

text \<open>An entry of a well-formed scratchpad meets the contract.\<close>

definition pending_of :: "nat \<Rightarrow> addr_type \<Rightarrow> Sram \<Rightarrow> nat option" where
  "pending_of b a s = map_option (\<lambda>e. unat (se_remain_req_count e)) (sr_table s b a)"

definition ready_of :: "nat \<Rightarrow> addr_type \<Rightarrow> Sram \<Rightarrow> bool" where
  "ready_of b a s \<longleftrightarrow> fst (check_hit 0 a b s)"

interpretation entry: scoreboard "\<lambda>n. reserve t a b (ucast (sz :: u32)) (of_nat n)" "fill a b" "pending_of b a" "ready_of b a" sram_ok
  for t a b sz
proof unfold_locales
  fix s s' and n :: nat
  assume ok: "sram_ok s" and n: "0 < n" "n < 2 ^ 64" and r: "reserve t a b (ucast sz) (of_nat n) s = Inr s'"
  have u: "unat (of_nat n :: u64) = n" using n(2) by (simp add: unat_of_nat)
  then have nz: "(of_nat n :: u64) \<noteq> 0" using n(1) by (metis unat_0 less_numeral_extra(3))
  have "pending_of b a s = None \<and> pending_of b a s' = Some n"
    using r u by (auto simp: reserve_def Let_def pending_of_def sr_set_def split: option.splits)
  then show "pending_of b a s = None \<and> pending_of b a s' = Some n \<and> sram_ok s'"
    using sram_ok_reserve [OF ok _ nz r] by simp
next
  fix s and n :: nat
  assume ok: "sram_ok s" and p: "pending_of b a s = Some (Suc n)"
  then obtain e where e: "sr_table s b a = Some e" "unat (se_remain_req_count e) = Suc n"
    by (auto simp: pending_of_def)
  have nz: "se_remain_req_count e \<noteq> 0" using e(2) by auto
  then have nv: "\<not> se_valid e" using ok e(1) by (auto simp: sram_ok_def sram_buf_ok_def)
  have m: "unat (se_remain_req_count e - 1) = n" using nz e(2) by (simp add: unat_minus_one)
  obtain s' where "fill a b s = Inr s'" "pending_of b a s' = Some n"
    using e nz nv m by (auto simp: fill_def pending_of_def sr_set_def Let_def word_greater_zero_iff)
  then show "\<exists>s'. fill a b s = Inr s' \<and> pending_of b a s' = Some n \<and> sram_ok s'"
    using sram_ok_fill [OF ok] by blast
next
  fix s
  assume "sram_ok s" "pending_of b a s = None \<or> pending_of b a s = Some 0"
  then show "fill a b s = Inl AssertFailed"
    by (auto simp: fill_def pending_of_def unat_eq_zero split: option.splits)
next
  fix s
  assume "sram_ok s"
  then show "ready_of b a s \<longleftrightarrow> pending_of b a s = Some 0"
    by (auto simp: ready_of_def check_hit_def pending_of_def sram_ok_def sram_buf_ok_def unat_eq_zero
        split: option.splits)
qed

subsection \<open>Correctness of the scratchpads\<close>

datatype sram_op = Flush nat | Hit addr_type nat | Reserve addr_type nat u32 u64 | Fill addr_type nat | CountUp addr_type nat

fun sram_step :: "cycle_type \<Rightarrow> sram_op \<Rightarrow> Sram \<Rightarrow> fault + Sram" where
  "sram_step t (Flush b) s = Inr (flush b s)"
| "sram_step t (Hit a b) s = Inr (snd (check_hit t a b s))"
| "sram_step t (Reserve a b sz n) s = (if n = 0 then Inl Undefined else reserve t a b (ucast sz) n s)"
| "sram_step t (Fill a b) s = fill a b s"
| "sram_step t (CountUp a b) s =
     (case sr_table s b a of Some e \<Rightarrow> if se_remain_req_count e + 1 = 0 then Inl Undefined else count_up a b s
      | None \<Rightarrow> count_up a b s)"

lemma sram_step_ok: "\<lbrakk>sram_ok s; sram_step t c s = Inr s'\<rbrakk> \<Longrightarrow> sram_ok s'"
  by (cases c)
    (auto intro: sram_ok_flush sram_ok_hit sram_ok_fill sram_ok_count_up
      dest: sram_ok_reserve [THEN conjunct1, rotated 3] split: if_splits option.splits)

text \<open>
  C19: Whatever sequence of scratchpad operations the core performs, each reservation with at least
  one outstanding request, the bytes counted for a buffer are exactly the sum of the sizes of its
  entries and never exceed half of the scratchpad, and an entry is valid exactly when it waits
  for nothing.
\<close>

theorem sram_accounting:
  assumes "unat (spad_size cfg) < 2 ^ 21" "unat (accum_spad_size cfg) < 2 ^ 21"
    and "foldE (\<lambda>s (t, c). sram_step t c s) (Sram_new cfg accum) ops = Inr s"
  shows "unat (sr_current_size s b) = (\<Sum>a \<in> dom (sr_table s b). unat (se_size (the (sr_table s b a)))) \<and>
    unat (sr_current_size s b) \<le> unat (sr_size s) div 2 \<and>
    (sr_table s b a = Some e \<longrightarrow> (se_valid e \<longleftrightarrow> se_remain_req_count e = 0))"
proof -
  have "sram_ok s"
    by (rule foldE_invariant [where I = sram_ok, OF assms(3) sram_ok_new [OF assms(1,2)]]) (auto intro: sram_step_ok)
  then show ?thesis by (auto simp: sram_ok_def sram_buf_ok_def sram_bytes_def)
qed

theorem sram_accounting_witness:
  "\<exists>s. foldE (\<lambda>s (t, c). sram_step t c s) (Sram_new demo_cfg False)
       [(1, Reserve 0x10000000 0 4096 2), (5, Fill 0x10000000 0)] = Inr s \<and>
     unat (sr_current_size s 0) \<le> 4194304"
proof -
  obtain s where s: "foldE (\<lambda>s (t, c). sram_step t c s) (Sram_new demo_cfg False)
       [(1, Reserve 0x10000000 0 4096 2), (5, Fill 0x10000000 0)] = Inr s" and z: "sr_size s = 8388608"
    by (simp add: Sram_new_def demo_cfg_def reserve_def check_remain_def half_size_def signed_divide_int_def
        sr_set_def fill_def Let_def)
  have "unat (sr_current_size s 0) \<le> unat (sr_size s) div 2"
    by (rule sram_accounting [OF _ _ s, THEN conjunct2, THEN conjunct1]) (simp_all add: demo_cfg_def)
  with s z show ?thesis by auto
qed

text \<open>
  An entry reserved for \<open>n\<close> requests becomes a hit exactly with the \<open>n\<close>-th \<open>fill\<close>: before that
  \<open>check_hit\<close> fails, and one more \<open>fill\<close> violates the assertion of the source.
\<close>

theorem sram_hit_after_all_fills:
  assumes "sram_ok s" "0 < n" "n < 2 ^ 64" "reserve t a b (ucast (sz :: u32)) (of_nat n) s = Inr s'"
  shows "(\<forall>k \<le> n. \<exists>u. iterE k (fill a b) s' = Inr u \<and> (fst (check_hit now a b u) \<longleftrightarrow> k = n)) \<and>
    iterE (Suc n) (fill a b) s' = Inl AssertFailed"
proof -
  have "fst (check_hit now a b u) \<longleftrightarrow> ready_of b a u" for u
    by (simp add: ready_of_def check_hit_def split: option.splits)
  then show ?thesis using entry.reserved_ready_after_fills [OF assms] by simp
qed

theorem sram_hit_after_all_fills_witness:
  "\<exists>s'. reserve 7 0x20000000 1 64 3 (Sram_new demo_cfg True) = Inr s' \<and>
     iterE 4 (fill 0x20000000 1) s' = Inl AssertFailed"
proof -
  have ok: "sram_ok (Sram_new demo_cfg True)" by (rule sram_ok_new) (simp_all add: demo_cfg_def)
  obtain s' where r: "reserve 7 0x20000000 1 64 3 (Sram_new demo_cfg True) = Inr s'"
    by (simp add: Sram_new_def demo_cfg_def reserve_def check_remain_def half_size_def signed_divide_int_def)
  then have r': "reserve 7 0x20000000 1 (ucast (64 :: u32)) (of_nat 3) (Sram_new demo_cfg True) = Inr s'" by simp
  have "iterE (Suc 3) (fill 0x20000000 1) s' = Inl AssertFailed"
    using sram_hit_after_all_fills [OF ok _ _ r'] by simp
  with r show ?thesis by simp
qed

end
