(* ===== verification/Core.thy ===== *)
theory Core
  imports Instr SramModel
begin

text \<open>
  \<open>NeuPIMSCore\<close> (NeuPIMSCore.h, NeuPIMSCore.cc): the state of an NPU core and the operations the
  simulator calls on it.  Tiles are shared objects: \<open>c_heap\<close> holds the tiles that some
  \<open>shared_ptr\<close> of the core keeps alive, the deques and queues hold tile numbers, and locking a
  \<open>weak_ptr\<close> is a lookup in \<open>c_heap\<close>.
\<close>

record NPUStat =
  ns_start_cycle :: u64
  ns_num_calculations :: u64

record core =
  c_id :: u32
  core_cycle :: cycle_type
  stat_idle_cycle :: cycle_type
  stat_memory_cycle :: cycle_type
  compute_memory_stall_cycle :: cycle_type
  layernorm_stall_cycle :: cycle_type
  softmax_stall_cycle :: cycle_type
  add_stall_cycle :: cycle_type
  gelu_stall_cycle :: cycle_type
  load_memory_cycle :: cycle_type
  store_memory_cycle :: cycle_type
  stat_matmul_cycle :: cycle_type
  stat_layernorm_cycle :: cycle_type
  stat_add_cycle :: cycle_type
  stat_gelu_cycle :: cycle_type
  stat_softmax_cycle :: cycle_type
  running_layer :: u32
  c_heap :: "nat \<Rightarrow> Tile option"
  c_next_tile :: nat
  c_tiles :: "nat list"
  c_pim_tiles :: "nat list"
  c_finished_tiles :: "nat list"
  compute_pipeline :: "Instruction list"
  vector_pipelines :: "Instruction list list"
  ld_sa :: "Instruction list"
  st_sa :: "Instruction list"
  ex_sa :: "Instruction list"
  ld_pim :: "Instruction list"
  st_pim :: "Instruction list"
  ex_pim :: "Instruction list"
  mem_queues1 :: "MemoryAccess list list"
  mem_queues2 :: "MemoryAccess list list"
  waiting_write_reqs :: u32
  current_spad :: nat
  current_acc_spad :: nat
  spad :: Sram
  acc_spad :: Sram
  pim_spad :: Sram
  pim_acc_spad :: Sram
  c_req :: req_state
  c_stat :: "NPUStat list"
  systolic_inst_issue_count :: u32
  systolic_preload_issue_count :: u32

definition NeuPIMSCore_new :: "env \<Rightarrow> u32 \<Rightarrow> req_state \<Rightarrow> core" where
  "NeuPIMSCore_new e i r =
     \<lparr>c_id = i, core_cycle = 0, stat_idle_cycle = 0, stat_memory_cycle = 0, compute_memory_stall_cycle = 0,
      layernorm_stall_cycle = 0, softmax_stall_cycle = 0, add_stall_cycle = 0, gelu_stall_cycle = 0,
      load_memory_cycle = 0, store_memory_cycle = 0, stat_matmul_cycle = 0, stat_layernorm_cycle = 0,
      stat_add_cycle = 0, stat_gelu_cycle = 0, stat_softmax_cycle = 0, running_layer = - 1,
      c_heap = Map.empty, c_next_tile = 0, c_tiles = [], c_pim_tiles = [], c_finished_tiles = [],
      compute_pipeline = [], vector_pipelines = replicate (unat (vector_core_count (e_cfg e))) [],
      ld_sa = [], st_sa = [], ex_sa = [], ld_pim = [], st_pim = [], ex_pim = [],
      mem_queues1 = replicate (unat (dram_channels (e_cfg e))) [],
      mem_queues2 = replicate (unat (dram_channels (e_cfg e))) [],
      waiting_write_reqs = 0, current_spad = 0, current_acc_spad = 0,
      spad = Sram_new (e_cfg e) False, acc_spad = Sram_new (e_cfg e) True,
      pim_spad = Sram_new (e_cfg e) False, pim_acc_spad = Sram_new (e_cfg e) True,
      c_req = r, c_stat = [\<lparr>ns_start_cycle = 0, ns_num_calculations = 0\<rparr>],
      systolic_inst_issue_count = 0, systolic_preload_issue_count = 0\<rparr>"

subsection \<open>Tiles of the core\<close>

definition lock_tile :: "nat option \<Rightarrow> core \<Rightarrow> fault + (nat \<times> Tile)" where
  "lock_tile p c = (case p of None \<Rightarrow> Inl AssertFailed
     | Some n \<Rightarrow> (case c_heap c n of None \<Rightarrow> Inl AssertFailed | Some t \<Rightarrow> Inr (n, t)))"

definition upd_tile :: "nat option \<Rightarrow> (Tile \<Rightarrow> Tile) \<Rightarrow> core \<Rightarrow> fault + core" where
  "upd_tile p f c = bindE (lock_tile p c) (\<lambda>(n, t). Inr (c\<lparr>c_heap := (c_heap c)(n \<mapsto> f t)\<rparr>))"

definition tile_of :: "core \<Rightarrow> nat \<Rightarrow> Tile" where
  "tile_of c n = the (c_heap c n)"

definition can_issue_pim :: "core \<Rightarrow> bool" where
  "can_issue_pim c \<longleftrightarrow> c_pim_tiles c = []"

text \<open>\<open>x ^ 1\<close> and \<open>(x + 1) % 2\<close> of a buffer number 0 or 1.\<close>

definition can_issue :: "Tile \<Rightarrow> core \<Rightarrow> bool" where
  "can_issue next_tile c =
     (if c_tiles c = [] then True else
      let next_spad = (if current_spad c = 0 then 1 else 0 :: nat);
          next_acc_spad = (if current_acc_spad c = 0 then 1 else 0 :: nat)
      in if list_ex (\<lambda>n. let t = tile_of c n in tl_spad_id t = next_spad \<and>
              (remaining_loads t \<noteq> 0 \<or> remaining_computes t \<noteq> 0)) (c_tiles c) then False
         else if \<not> tl_accum next_tile \<and> list_ex (\<lambda>n. let t = tile_of c n in
              tl_accum_spad_id t = next_acc_spad \<and> remaining_accum_io t \<noteq> 0) (c_tiles c) then False
         else True)"

definition is_pim_opcode :: "Opcode \<Rightarrow> bool" where
  "is_pim_opcode opc \<longleftrightarrow> opc \<in> {PIM_GWRITE, PIM_COMP, PIM_READRES, PIM_COMPS_READRES, PIM_HEADER}"

text \<open>One iteration of the instruction loop of \<open>issue\<close>; \<open>n\<close> is the number of the new tile.\<close>

definition issue_inst :: "nat \<Rightarrow> core \<times> Tile \<Rightarrow> Instruction \<Rightarrow> fault + (core \<times> Tile)" where
  "issue_inst n ct inst =
     (let (c, t) = ct;
          inst = inst\<lparr>inst_parent := Some n, spad_id := tl_spad_id t, accum_spad_id := tl_accum_spad_id t\<rparr>;
          (buffer, buffer_id) = (if dest_addr inst \<ge> ACCUM_SPAD_BASE then (acc_spad c, tl_accum_spad_id t)
                                 else (spad c, tl_spad_id t));
          t = t\<lparr>tl_instructions := tl_instructions t @ [inst]\<rparr>
      in if is_pim_opcode (opcode inst) then Inl AssertFailed
         else if opcode inst = MOVIN then
           ast (\<not> check_allocated (dest_addr inst) buffer_id buffer \<and>
                check_remain (ucast (inst_size inst)) buffer_id buffer)
             (Inr (c\<lparr>ld_sa := ld_sa c @ [inst]\<rparr>, t\<lparr>remaining_loads := remaining_loads t + 1\<rparr>))
         else if opcode inst = MOVOUT \<or> opcode inst = MOVOUT_POOL then
           Inr (c\<lparr>st_sa := st_sa c @ [inst]\<rparr>, t\<lparr>remaining_accum_io := remaining_accum_io t + 1\<rparr>)
         else
           Inr (c\<lparr>ex_sa := ex_sa c @ [inst]\<rparr>,
                t\<lparr>remaining_accum_io := remaining_accum_io t + 1,
                  remaining_computes := remaining_computes t + 1\<rparr>))"

definition issue :: "Tile \<Rightarrow> core \<Rightarrow> fault + core" where
  "issue in_tile c =
     (let n = c_next_tile c; c = c\<lparr>c_next_tile := n + 1\<rparr>;
          t = in_tile\<lparr>tl_stat := TileStat_new (core_cycle c)\<rparr>
      in if tl_skip t then
           Inr (c\<lparr>c_heap := (c_heap c)(n \<mapsto> t\<lparr>tl_status := FINISH\<rparr>),
                  c_finished_tiles := c_finished_tiles c @ [n]\<rparr>)
         else
           let cs = (current_spad c + 1) mod 2;
               c = c\<lparr>current_spad := cs, spad := flush cs (spad c)\<rparr>;
               t = t\<lparr>tl_spad_id := cs\<rparr>;
               c = (if tl_accum t then c else
                    let ca = (current_acc_spad c + 1) mod 2
                    in c\<lparr>current_acc_spad := ca, acc_spad := flush ca (acc_spad c)\<rparr>);
               t = t\<lparr>tl_accum_spad_id := current_acc_spad c, tl_status := RUNNING\<rparr>;
               c = c\<lparr>running_layer := tl_operation_id t\<rparr>;
               insts = tl_instructions t;
               t = t\<lparr>remaining_loads := 0, remaining_computes := 0, remaining_accum_io := 0,
                     tl_instructions := []\<rparr>
           in bindE (foldE (issue_inst n) (c, t) insts) (\<lambda>(c, t).
                Inr (c\<lparr>c_heap := (c_heap c)(n \<mapsto> t), c_tiles := c_tiles c @ [n]\<rparr>)))"

definition issue_pim_inst :: "nat \<Rightarrow> core \<times> Tile \<Rightarrow> Instruction \<Rightarrow> fault + (core \<times> Tile)" where
  "issue_pim_inst n ct inst =
     (let (c, t) = ct;
          inst = inst\<lparr>is_pim_inst := True, inst_parent := Some n, spad_id := tl_spad_id t,
                      accum_spad_id := tl_accum_spad_id t\<rparr>;
          (buffer, buffer_id) = (if dest_addr inst \<ge> ACCUM_SPAD_BASE
                                 then (pim_acc_spad c, tl_accum_spad_id t)
                                 else (pim_spad c, tl_spad_id t));
          t = t\<lparr>tl_instructions := tl_instructions t @ [inst]\<rparr>
      in if opcode inst = PIM_HEADER then Inr (c\<lparr>ld_pim := ld_pim c @ [inst]\<rparr>, t)
         else if opcode inst \<in> {MOVIN, PIM_GWRITE, PIM_COMP, PIM_READRES, PIM_COMPS_READRES} then
           ast (\<not> check_allocated (dest_addr inst) buffer_id buffer \<and>
                check_remain (ucast (inst_size inst)) buffer_id buffer)
             (Inr (c\<lparr>ld_pim := ld_pim c @ [inst]\<rparr>, t\<lparr>remaining_loads := remaining_loads t + 1\<rparr>))
         else if opcode inst = MOVOUT \<or> opcode inst = MOVOUT_POOL then
           Inr (c\<lparr>st_pim := st_pim c @ [inst]\<rparr>, t\<lparr>remaining_accum_io := remaining_accum_io t + 1\<rparr>)
         else
           Inr (c\<lparr>ex_pim := ex_pim c @ [inst]\<rparr>,
                t\<lparr>remaining_accum_io := remaining_accum_io t + 1,
                  remaining_computes := remaining_computes t + 1\<rparr>))"

definition issue_pim :: "Tile \<Rightarrow> core \<Rightarrow> fault + core" where
  "issue_pim in_tile c =
     (let n = c_next_tile c; c = c\<lparr>c_next_tile := n + 1\<rparr>;
          t = in_tile\<lparr>tl_stat := TileStat_new (core_cycle c)\<rparr>
      in if tl_skip t then
           Inr (c\<lparr>c_heap := (c_heap c)(n \<mapsto> t\<lparr>tl_status := FINISH\<rparr>),
                  c_finished_tiles := c_finished_tiles c @ [n]\<rparr>)
         else
           let c = c\<lparr>pim_spad := flush 0 (pim_spad c), pim_acc_spad := flush 0 (pim_acc_spad c),
                     running_layer := tl_operation_id t\<rparr>;
               insts = tl_instructions t;
               t = t\<lparr>tl_spad_id := 0, tl_accum_spad_id := 0, tl_status := RUNNING,
                     remaining_loads := 0, remaining_computes := 0, remaining_accum_io := 0,
                     tl_instructions := []\<rparr>
           in bindE (foldE (issue_pim_inst n) (c, t) insts) (\<lambda>(c, t).
                Inr (c\<lparr>c_heap := (c_heap c)(n \<mapsto> t), c_pim_tiles := c_pim_tiles c @ [n]\<rparr>)))"

text \<open>The popped \<open>shared_ptr\<close> is the caller's; the core no longer keeps the tile alive.\<close>

definition pop_finished_tile :: "core \<Rightarrow> Tile option \<times> core" where
  "pop_finished_tile c =
     (case c_finished_tiles c of
        [] \<Rightarrow> (None, c)
      | n # ns \<Rightarrow> (map_option (\<lambda>t. t\<lparr>tl_stat := (tl_stat t)\<lparr>ts_end_cycle := core_cycle c\<rparr>\<rparr>) (c_heap c n),
                  c\<lparr>c_heap := (c_heap c)(n := None), c_finished_tiles := ns\<rparr>))"

text \<open>The two loops of \<open>cycle\<close> move the tiles with nothing left to do to the finished queue.\<close>

definition tile_done :: "Tile \<Rightarrow> bool" where
  "tile_done t \<longleftrightarrow> remaining_accum_io t = 0 \<and> remaining_computes t = 0 \<and> remaining_loads t = 0"

fun retire :: "nat list \<Rightarrow> core \<Rightarrow> nat list \<times> core" where
  "retire [] c = ([], c)"
| "retire (n # ns) c =
     (let t = tile_of c n in
      if tile_done t
      then retire ns (c\<lparr>c_heap := (c_heap c)(n \<mapsto> t\<lparr>tl_status := FINISH\<rparr>),
                        c_finished_tiles := c_finished_tiles c @ [n]\<rparr>)
      else let (keep, c) = retire ns c in (n # keep, c))"

definition core_cycle_step :: "core \<Rightarrow> core" where
  "core_cycle_step c =
     (let c = c\<lparr>core_cycle := core_cycle c + 1\<rparr>;
          (ts, c) = retire (c_tiles c) c; c = c\<lparr>c_tiles := ts\<rparr>;
          (ts, c) = retire (c_pim_tiles c) c
      in c\<lparr>c_pim_tiles := ts\<rparr>)"

definition core_running :: "core \<Rightarrow> bool" where
  "core_running c \<longleftrightarrow> c_tiles c \<noteq> [] \<or> compute_pipeline c \<noteq> [] \<or> waiting_write_reqs c \<noteq> 0 \<or>
     ld_sa c \<noteq> [] \<or> st_sa c \<noteq> [] \<or> ex_sa c \<noteq> [] \<or> list_ex (\<lambda>q. q \<noteq> []) (vector_pipelines c)"

subsection \<open>Memory requests and responses\<close>

text \<open>
  One queue per channel.  \<open>push_memory_request1/2\<close> index the vector with the channel of the
  address, the accessors with the caller's index.
\<close>

definition push_memory_request1 :: "env \<Rightarrow> MemoryAccess \<Rightarrow> core \<Rightarrow> fault + core" where
  "push_memory_request1 e req c =
     bindE (push_queue (unat (mask_channel (e_channel_mask e) (dram_address req))) req (mem_queues1 c))
       (\<lambda>qs. Inr (c\<lparr>mem_queues1 := qs\<rparr>))"

definition push_memory_request2 :: "env \<Rightarrow> MemoryAccess \<Rightarrow> core \<Rightarrow> fault + core" where
  "push_memory_request2 e req c =
     bindE (push_queue (unat (mask_channel (e_channel_mask e) (dram_address req))) req (mem_queues2 c))
       (\<lambda>qs. Inr (c\<lparr>mem_queues2 := qs\<rparr>))"

definition has_memory_request1 :: "nat \<Rightarrow> core \<Rightarrow> fault + bool" where
  "has_memory_request1 i c = bindE (at (mem_queues1 c) i) (\<lambda>q. Inr (q \<noteq> []))"

definition has_memory_request2 :: "nat \<Rightarrow> core \<Rightarrow> fault + bool" where
  "has_memory_request2 i c = bindE (at (mem_queues2 c) i) (\<lambda>q. Inr (q \<noteq> []))"

text \<open>\<open>top_memory_request\<close> followed by \<open>pop_memory_request\<close>: the request and the core without it.\<close>

definition pop_memory_request1 :: "nat \<Rightarrow> core \<Rightarrow> fault + (MemoryAccess \<times> core)" where
  "pop_memory_request1 i c = bindE (pop_queue i (mem_queues1 c)) (\<lambda>(m, qs). Inr (m, c\<lparr>mem_queues1 := qs\<rparr>))"

definition pop_memory_request2 :: "nat \<Rightarrow> core \<Rightarrow> fault + (MemoryAccess \<times> core)" where
  "pop_memory_request2 i c = bindE (pop_queue i (mem_queues2 c)) (\<lambda>(m, qs). Inr (m, c\<lparr>mem_queues2 := qs\<rparr>))"

text \<open>The last part of \<open>push_memory_response\<close>: the scratchpad entry that the response fills.\<close>

definition response_fill :: "bool \<Rightarrow> MemoryAccess \<Rightarrow> core \<Rightarrow> fault + core" where
  "response_fill pim response c =
     (if req_type response \<in> {P_HEADER, GWRITE, COMP_ACCESS} then Inr c
      else if spad_address response \<ge> ACCUM_SPAD_BASE then
        if pim
        then bindE (fill (spad_address response) (ma_buffer_id response) (pim_acc_spad c))
               (\<lambda>s. Inr (c\<lparr>pim_acc_spad := s\<rparr>))
        else bindE (fill (spad_address response) (ma_buffer_id response) (acc_spad c))
               (\<lambda>s. Inr (c\<lparr>acc_spad := s\<rparr>))
      else
        if pim
        then bindE (fill (spad_address response) (ma_buffer_id response) (pim_spad c))
               (\<lambda>s. Inr (c\<lparr>pim_spad := s\<rparr>))
        else bindE (fill (spad_address response) (ma_buffer_id response) (spad c))
               (\<lambda>s. Inr (c\<lparr>spad := s\<rparr>)))"

definition push_memory_response :: "MemoryAccess \<Rightarrow> core \<Rightarrow> fault + core" where
  "push_memory_response response c =
     ast (\<not> ma_request response) (bindE (lock_tile (ma_parent response) c) (\<lambda>(n, tile).
       if req_type response = WRITE
       then bindE (upd_tile (ma_parent response) (\<lambda>t. t\<lparr>remaining_accum_io := remaining_accum_io t - 1\<rparr>) c)
              (\<lambda>c. Inr (c\<lparr>waiting_write_reqs := waiting_write_reqs c - 1\<rparr>))
       else ast (remaining_loads tile > 0)
              (bindE (upd_tile (ma_parent response) (\<lambda>t. t\<lparr>remaining_loads := remaining_loads t - 1\<rparr>) c)
                (response_fill (tl_stage_platform tile = PIM) response))))"

text \<open>
  \<open>can_issue_compute\<close> stops calling \<open>check_hit\<close> (and so stamping entries) once \<open>result\<close> is false.
\<close>

fun hits :: "cycle_type \<Rightarrow> Instruction \<Rightarrow> addr_type list \<Rightarrow> Sram \<Rightarrow> Sram \<Rightarrow> bool \<times> Sram \<times> Sram" where
  "hits now inst [] sp asp = (True, sp, asp)"
| "hits now inst (addr # addrs) sp asp =
     (if src_from_accum inst \<and> addr \<ge> ACCUM_SPAD_BASE
      then let (h, asp) = check_hit now addr (accum_spad_id inst) asp
           in if h then hits now inst addrs sp asp else (False, sp, asp)
      else let (h, sp) = check_hit now addr (spad_id inst) sp
           in if h then hits now inst addrs sp asp else (False, sp, asp))"

definition can_issue_compute :: "Instruction \<Rightarrow> core \<Rightarrow> bool \<times> core" where
  "can_issue_compute inst c =
     (let (r, sp, asp) = hits (core_cycle c) inst (src_addrs inst) (spad c) (acc_spad c)
      in (r, c\<lparr>spad := sp, acc_spad := asp\<rparr>))"

definition pim_can_issue_compute :: "Instruction \<Rightarrow> core \<Rightarrow> bool \<times> core" where
  "pim_can_issue_compute inst c =
     (let (r, sp, asp) = hits (core_cycle c) inst (src_addrs inst) (pim_spad c) (pim_acc_spad c)
      in (r, c\<lparr>pim_spad := sp, pim_acc_spad := asp\<rparr>))"

end
