(* ===== verification/Systolic.thy ===== *)
theory Systolic
  imports Core
begin

text \<open>
  \<open>NeuPIMSystolicWS\<close> (NeuPIMSystolicWS.cc): one cycle of a core.  Finished computations leave the
  systolic array and the vector units, load and store instructions become memory requests,
  ready compute instructions are issued; the same for the PIM sub-batch; then the statistics and
  \<open>NeuPIMSCore::cycle\<close>.
\<close>

subsection \<open>Latencies\<close>

definition get_inst_compute_cycles :: "sim_config \<Rightarrow> Instruction \<Rightarrow> cycle_type" where
  "get_inst_compute_cycles cfg inst =
     ucast (core_height cfg + core_width cfg - 2 + (if inst_size inst > 4 then inst_size inst else 4))"

definition calculate_vector_op_iterations :: "sim_config \<Rightarrow> u32 \<Rightarrow> fault + cycle_type" where
  "calculate_vector_op_iterations cfg vector_size =
     (let calculation_unit = vector_core_width cfg
      in if calculation_unit = 0 then Inl Undefined
         else Inr (ucast (vector_size div calculation_unit + (if vector_size mod calculation_unit \<noteq> 0 then 1 else 0))))"

text \<open>
  \<open>calculate_add_tree_iterations\<close> calls itself on the number of partial results; \<open>None\<close> means
  that it never returns.
\<close>

partial_function (option) add_tree_iterations :: "u32 \<Rightarrow> u32 \<Rightarrow> cycle_type option" where
  "add_tree_iterations calculation_unit vector_size =
     (if vector_size \<le> calculation_unit then Some 1
      else let ret = vector_size div calculation_unit + (if vector_size mod calculation_unit \<noteq> 0 then 1 else 0)
           in Option.bind (add_tree_iterations calculation_unit ret) (\<lambda>x. Some (ucast ret + x)))"

definition calculate_add_tree_iterations :: "sim_config \<Rightarrow> u32 \<Rightarrow> fault + cycle_type" where
  "calculate_add_tree_iterations cfg vector_size =
     (if vector_core_width cfg = 0 \<and> vector_size \<noteq> 0 then Inl Undefined
      else case add_tree_iterations (vector_core_width cfg) vector_size of
             None \<Rightarrow> Inl Undefined | Some x \<Rightarrow> Inr x)"

definition get_vector_compute_cycles :: "sim_config \<Rightarrow> Instruction \<Rightarrow> fault + cycle_type" where
  "get_vector_compute_cycles cfg inst =
     bindE (calculate_vector_op_iterations cfg (inst_size inst)) (\<lambda>vec_op_iter.
     bindE (calculate_add_tree_iterations cfg (inst_size inst)) (\<lambda>add_tree_iter.
       case opcode inst of
         LAYERNORM \<Rightarrow>
           (let add_tree = 2 * add_tree_iter * add_tree_latency cfg;
                scalar_ops = 2 * scalar_mul_latency cfg + scalar_sqrt_latency cfg;
                vector_ops = vec_op_iter * (2 * add_latency cfg + 3 * mul_latency cfg)
            in Inr (add_tree + scalar_ops + vector_ops))
       | SOFTMAX \<Rightarrow>
           (let add_tree = 2 * add_tree_iter * add_tree_latency cfg;
                vector_ops = vec_op_iter * (add_latency cfg + exp_latency cfg + mul_latency cfg)
            in Inr (add_tree + vector_ops))
       | ADD \<Rightarrow> Inr (vec_op_iter * add_latency cfg)
       | GELU \<Rightarrow> Inr (vec_op_iter * gelu_latency cfg)
       | DUMMY \<Rightarrow> Inr 1
       | _ \<Rightarrow> Inl AssertFailed))"

subsection \<open>Completion of computations\<close>

definition finish_compute :: "Tile \<Rightarrow> Tile" where
  "finish_compute t = t\<lparr>remaining_accum_io := remaining_accum_io t - 1,
                       remaining_computes := remaining_computes t - 1\<rparr>"

definition systolic_cycle :: "core \<Rightarrow> fault + core" where
  "systolic_cycle c =
     (case compute_pipeline c of
        [] \<Rightarrow> Inr c
      | inst # rest \<Rightarrow>
          if finish_cycle inst \<le> core_cycle c then
            ast (dest_addr inst \<ge> ACCUM_SPAD_BASE)
              (bindE (fill (dest_addr inst) (accum_spad_id inst) (acc_spad c)) (\<lambda>s.
                 bindE (upd_tile (inst_parent inst) finish_compute (c\<lparr>acc_spad := s\<rparr>)) (\<lambda>c.
                   Inr (c\<lparr>compute_pipeline := rest\<rparr>))))
          else Inr c)"

text \<open>One vector pipeline; \<open>pipe i\<close> is the i-th of \<open>_vector_pipelines\<close>.\<close>

definition vector_pipe_cycle :: "core \<Rightarrow> nat \<Rightarrow> fault + core" where
  "vector_pipe_cycle c i =
     (case vector_pipelines c ! i of
        [] \<Rightarrow> Inr c
      | inst # rest \<Rightarrow>
          if finish_cycle inst \<le> core_cycle c then
            ast (dest_addr inst \<ge> ACCUM_SPAD_BASE)
              (bindE (if is_pim_inst inst
                      then bindE (fill (dest_addr inst) (accum_spad_id inst) (pim_acc_spad c)) (\<lambda>s. Inr (c\<lparr>pim_acc_spad := s\<rparr>))
                      else bindE (fill (dest_addr inst) (accum_spad_id inst) (acc_spad c)) (\<lambda>s. Inr (c\<lparr>acc_spad := s\<rparr>)))
                (\<lambda>c. bindE (upd_tile (inst_parent inst) finish_compute c) (\<lambda>c.
                   Inr (c\<lparr>vector_pipelines := (vector_pipelines c)[i := rest]\<rparr>))))
          else Inr c)"

definition vector_unit_cycle :: "core \<Rightarrow> fault + core" where
  "vector_unit_cycle c = foldE vector_pipe_cycle c [0..<length (vector_pipelines c)]"

subsection \<open>Loads and stores\<close>

definition sa_buffer :: "Instruction \<Rightarrow> core \<Rightarrow> Sram \<times> nat" where
  "sa_buffer inst c = (if dest_addr inst \<ge> ACCUM_SPAD_BASE then (acc_spad c, accum_spad_id inst)
                      else (spad c, spad_id inst))"

definition set_sa_buffer :: "Instruction \<Rightarrow> Sram \<Rightarrow> core \<Rightarrow> core" where
  "set_sa_buffer inst s c = (if dest_addr inst \<ge> ACCUM_SPAD_BASE then c\<lparr>acc_spad := s\<rparr> else c\<lparr>spad := s\<rparr>)"

definition pim_buffer :: "Instruction \<Rightarrow> core \<Rightarrow> Sram \<times> nat" where
  "pim_buffer inst c = (if dest_addr inst \<ge> ACCUM_SPAD_BASE then (pim_acc_spad c, accum_spad_id inst)
                      else (pim_spad c, spad_id inst))"

definition set_pim_buffer :: "Instruction \<Rightarrow> Sram \<Rightarrow> core \<Rightarrow> core" where
  "set_pim_buffer inst s c =
     (if dest_addr inst \<ge> ACCUM_SPAD_BASE then c\<lparr>pim_acc_spad := s\<rparr> else c\<lparr>pim_spad := s\<rparr>)"

text \<open>\<open>MemoryAccess::from_instruction(front, generate_mem_access_id(), ...)\<close> with the core's counters.\<close>

definition make_accesses :: "env \<Rightarrow> Instruction \<Rightarrow> MemoryAccessType \<Rightarrow> nat \<Rightarrow> StagePlatform \<Rightarrow> core \<Rightarrow>
    fault + (MemoryAccess list \<times> core)" where
  "make_accesses e inst ty buffer_id sp c =
     (let (mid, r) = generate_mem_access_id (c_req c)
      in bindE (from_instruction e inst mid (dram_req_size (e_cfg e)) ty True (c_id c) (core_cycle c) buffer_id sp r)
           (\<lambda>(accs, r). Inr (accs, c\<lparr>c_req := r\<rparr>)))"

definition ld_inst :: "env \<Rightarrow> core \<Rightarrow> Instruction \<Rightarrow> fault + core" where
  "ld_inst e c inst =
     (if opcode inst = MOVIN then
        let (buffer, buffer_id) = sa_buffer inst c
        in ast (src_addrs inst \<noteq> []) (bindE (make_accesses e inst READ buffer_id SA c) (\<lambda>(accs, c).
             bindE (reserve (core_cycle c) (dest_addr inst) buffer_id (ucast (inst_size inst)) (of_nat (length accs)) buffer) (\<lambda>s.
             let c = set_sa_buffer inst s c
             in bindE (lock_tile (inst_parent inst) c) (\<lambda>_. ast (length accs > 0)
               (bindE (upd_tile (inst_parent inst) (\<lambda>t. t\<lparr>remaining_loads := remaining_loads t + of_nat (length accs) - 1,
                   tl_stat := (tl_stat t)\<lparr>ts_memory_reads := ts_memory_reads (tl_stat t) + of_nat (length accs) * e_alignment e\<rparr>\<rparr>) c)
                 (\<lambda>c. foldE (\<lambda>c a. push_memory_request1 e a c) c accs))))))
      else Inl AssertFailed)"

fun ld_loop :: "env \<Rightarrow> Instruction list \<Rightarrow> core \<Rightarrow> fault + core" where
  "ld_loop e [] c = Inr (c\<lparr>ld_sa := []\<rparr>)"
| "ld_loop e (inst # insts) c = bindE (ld_inst e c inst) (\<lambda>c. ld_loop e insts c)"

definition ld_queue_cycle :: "env \<Rightarrow> core \<Rightarrow> fault + core" where
  "ld_queue_cycle e c = ld_loop e (ld_sa c) c"

definition pim_ld_inst :: "env \<Rightarrow> core \<Rightarrow> Instruction \<Rightarrow> fault + core" where
  "pim_ld_inst e c inst =
     (if is_pim_opcode (opcode inst) then
        let (buffer, buffer_id) = pim_buffer inst c
        in ast (src_addrs inst \<noteq> [])
          (bindE (TransToMemoryAccess inst (dram_req_size (e_cfg e)) (c_id c) (core_cycle c) buffer_id PIM (c_req c))
            (\<lambda>(req, r). let c = c\<lparr>c_req := r\<rparr>
             in bindE (if opcode inst = PIM_READRES \<or> opcode inst = PIM_COMPS_READRES
                       then bindE (reserve (core_cycle c) (dest_addr inst) buffer_id (ucast (inst_size inst)) 1 buffer)
                              (\<lambda>s. Inr (set_pim_buffer inst s c))
                       else Inr c)
                  (push_memory_request2 e req)))
      else Inl Thrown)"

fun pim_ld_loop :: "env \<Rightarrow> Instruction list \<Rightarrow> core \<Rightarrow> fault + core" where
  "pim_ld_loop e [] c = Inr (c\<lparr>ld_pim := []\<rparr>)"
| "pim_ld_loop e (inst # insts) c = bindE (pim_ld_inst e c inst) (\<lambda>c. pim_ld_loop e insts c)"

definition pim_ld_queue_cycle :: "env \<Rightarrow> core \<Rightarrow> fault + core" where
  "pim_ld_queue_cycle e c = pim_ld_loop e (ld_pim c) c"

definition add_stores :: "env \<Rightarrow> nat \<Rightarrow> Tile \<Rightarrow> Tile" where
  "add_stores e k t = t\<lparr>remaining_accum_io := remaining_accum_io t + of_nat k - 1,
     tl_stat := (tl_stat t)\<lparr>ts_memory_writes := ts_memory_writes (tl_stat t) + of_nat k * e_alignment e\<rparr>\<rparr>"

definition st_queue_cycle :: "env \<Rightarrow> core \<Rightarrow> fault + core" where
  "st_queue_cycle e c =
     (case st_sa c of
        [] \<Rightarrow> Inr c
      | inst # rest \<Rightarrow>
          let (buffer, buffer_id) = sa_buffer inst c;
              (hit, buffer) = check_hit (core_cycle c) (dest_addr inst) buffer_id buffer;
              c = set_sa_buffer inst buffer c
          in if hit \<and> (opcode inst = MOVOUT \<or> opcode inst = MOVOUT_POOL) then
               bindE (make_accesses e inst WRITE buffer_id SA c) (\<lambda>(accs, c).
               bindE (lock_tile (inst_parent inst) c) (\<lambda>_. ast (length accs > 0)
                 (bindE (upd_tile (inst_parent inst) (add_stores e (length accs)) c) (\<lambda>c.
                  bindE (foldE (\<lambda>c a. bindE (push_memory_request1 e a c)
                           (\<lambda>c. Inr (c\<lparr>waiting_write_reqs := waiting_write_reqs c + 1\<rparr>))) c accs) (\<lambda>c.
                  Inr (c\<lparr>st_sa := rest\<rparr>))))))
             else Inr c)"

definition pim_st_queue_cycle :: "env \<Rightarrow> core \<Rightarrow> fault + core" where
  "pim_st_queue_cycle e c =
     (case st_pim c of
        [] \<Rightarrow> Inr c
      | inst # rest \<Rightarrow>
          let (buffer, buffer_id) = pim_buffer inst c;
              (hit, buffer) = check_hit (core_cycle c) (dest_addr inst) buffer_id buffer;
              c = set_pim_buffer inst buffer c
          in if hit \<and> (opcode inst = MOVOUT \<or> opcode inst = MOVOUT_POOL) then
               bindE (make_accesses e inst WRITE buffer_id PIM c) (\<lambda>(accs, c).
               bindE (upd_tile (inst_parent inst) (add_stores e (length accs)) c) (\<lambda>c.
               bindE (foldE (\<lambda>c a. bindE (push_memory_request2 e a c)
                        (\<lambda>c. Inr (c\<lparr>waiting_write_reqs := waiting_write_reqs c + 1\<rparr>))) c accs) (\<lambda>c.
               Inr (c\<lparr>st_pim := rest\<rparr>))))
             else Inr c)"

subsection \<open>Issue of compute instructions\<close>

definition is_gemm :: "Opcode \<Rightarrow> bool" where
  "is_gemm opc \<longleftrightarrow> opc = GEMM \<or> opc = GEMM_PRELOAD"

definition is_vector :: "Opcode \<Rightarrow> bool" where
  "is_vector opc \<longleftrightarrow> opc \<in> {COMP, IM2COL, LAYERNORM, SOFTMAX, ADD, GELU, DUMMY}"

text \<open>The search for \<open>least_filled_vpu\<close>; without a pipeline the pointer stays uninitialised.\<close>

fun vpu_loop :: "cycle_type \<Rightarrow> nat \<Rightarrow> Instruction list list \<Rightarrow> nat option \<times> cycle_type \<Rightarrow> nat option \<times> cycle_type" where
  "vpu_loop now i [] r = r"
| "vpu_loop now i (q # qs) (least_filled, finish) =
     (if q = [] then (Some i, now)
      else if finish_cycle (last q) < finish then vpu_loop now (Suc i) qs (Some i, now)
      else vpu_loop now (Suc i) qs (least_filled, finish))"

definition issue_gemm :: "sim_config \<Rightarrow> Instruction \<Rightarrow> core \<Rightarrow> fault + core" where
  "issue_gemm cfg inst c =
     bindE (upd_tile (inst_parent inst) (\<lambda>t. t\<lparr>tl_stat := (tl_stat t)\<lparr>ts_num_calculation :=
              ts_num_calculation (tl_stat t) + ucast (tile_m inst * tile_n inst * tile_k inst)\<rparr>\<rparr>) c) (\<lambda>c.
     let preload = (opcode inst = GEMM_PRELOAD);
         c = (if preload then c\<lparr>systolic_preload_issue_count := systolic_preload_issue_count c + 1\<rparr> else c)
     in bindE (if compute_pipeline c \<noteq> [] then
                 let b = last (compute_pipeline c);
                     offset = (if inst_size b > 4 then inst_size b else 4)
                 in if preload then
                      bindE (upd_tile (inst_parent inst) (\<lambda>t. t\<lparr>tl_stat := (tl_stat t)\<lparr>ts_weight_load_cycles :=
                          ts_weight_load_cycles (tl_stat t) + ucast (core_height cfg)\<rparr>\<rparr>) c)
                        (\<lambda>c. Inr (start_cycle b + ucast (core_height cfg), c))
                    else Inr (start_cycle b + ucast offset, c)
               else if preload then Inr (core_cycle c + ucast (core_height cfg + core_height cfg - 1), c)
               else Inr (core_cycle c, c)) (\<lambda>(start, c).
          let inst = inst\<lparr>start_cycle := start, finish_cycle := start + get_inst_compute_cycles cfg inst\<rparr>
          in Inr (c\<lparr>compute_pipeline := compute_pipeline c @ [inst],
                    systolic_inst_issue_count := systolic_inst_issue_count c + 1\<rparr>)))"

definition issue_vector :: "sim_config \<Rightarrow> Instruction \<Rightarrow> core \<Rightarrow> fault + core" where
  "issue_vector cfg inst c =
     (let (least_filled, finish) = vpu_loop (core_cycle c) 0 (vector_pipelines c) (None, - 1)
      in bindE (get_vector_compute_cycles cfg inst) (\<lambda>cycles.
           case least_filled of
             None \<Rightarrow> Inl Undefined
           | Some i \<Rightarrow>
               let inst = inst\<lparr>start_cycle := finish, finish_cycle := finish + cycles\<rparr>
               in Inr (c\<lparr>vector_pipelines := (vector_pipelines c)[i := vector_pipelines c ! i @ [inst]]\<rparr>)))"

definition issue_ex_inst :: "env \<Rightarrow> Instruction \<Rightarrow> core \<Rightarrow> fault + core" where
  "issue_ex_inst e inst c =
     bindE (if is_gemm (opcode inst) then issue_gemm (e_cfg e) inst c
            else if is_vector (opcode inst) then issue_vector (e_cfg e) inst c else Inr c) (\<lambda>c.
     bindE (if check_allocated (dest_addr inst) (accum_spad_id inst) (acc_spad c)
            then count_up (dest_addr inst) (accum_spad_id inst) (acc_spad c)
            else reserve (core_cycle c) (dest_addr inst) (accum_spad_id inst) (ucast (inst_size inst)) 1 (acc_spad c))
       (\<lambda>s. Inr (c\<lparr>acc_spad := s\<rparr>)))"

definition pim_issue_ex_inst :: "env \<Rightarrow> Instruction \<Rightarrow> core \<Rightarrow> fault + core" where
  "pim_issue_ex_inst e inst c =
     bindE (if is_gemm (opcode inst) then Inl AssertFailed
            else if is_vector (opcode inst) then issue_vector (e_cfg e) inst c else Inr c) (\<lambda>c.
     bindE (if check_allocated (dest_addr inst) (accum_spad_id inst) (pim_acc_spad c)
            then count_up (dest_addr inst) (accum_spad_id inst) (pim_acc_spad c)
            else reserve (core_cycle c) (dest_addr inst) (accum_spad_id inst) (ucast (inst_size inst)) 1 (pim_acc_spad c))
       (\<lambda>s. Inr (c\<lparr>pim_acc_spad := s\<rparr>)))"

text \<open>\<open>get_first_ready_ex_inst\<close> returns an instruction with \<open>valid = false\<close> when the front is not ready.\<close>

definition ex_queue_cycle :: "env \<Rightarrow> core \<Rightarrow> fault + core" where
  "ex_queue_cycle e c =
     (case ex_sa c of
        [] \<Rightarrow> Inr c
      | inst # rest \<Rightarrow>
          (let (ready, c) = can_issue_compute inst c
           in if ready then let c = c\<lparr>ex_sa := rest\<rparr> in if inst_valid inst then issue_ex_inst e inst c else Inr c
              else Inr c))"

definition pim_ex_queue_cycle :: "env \<Rightarrow> core \<Rightarrow> fault + core" where
  "pim_ex_queue_cycle e c =
     (case ex_pim c of
        [] \<Rightarrow> Inr c
      | inst # rest \<Rightarrow>
          (let (ready, c) = pim_can_issue_compute inst c
           in if ready then let c = c\<lparr>ex_pim := rest\<rparr> in if inst_valid inst then pim_issue_ex_inst e inst c else Inr c
              else Inr c))"

subsection \<open>Statistics and the cycle\<close>

definition count_busy :: "u64 \<Rightarrow> Instruction \<Rightarrow> core \<Rightarrow> fault + core" where
  "count_busy calcs inst c =
     bindE (upd_tile (inst_parent inst) (\<lambda>t. t\<lparr>tl_stat := (tl_stat t)\<lparr>ts_compute_cycles := ts_compute_cycles (tl_stat t) + 1\<rparr>\<rparr>) c)
       (\<lambda>c. if c_stat c = [] then Inl Undefined
            else Inr (c\<lparr>c_stat := butlast (c_stat c) @ [(last (c_stat c))\<lparr>ns_num_calculations :=
                          ns_num_calculations (last (c_stat c)) + calcs\<rparr>]\<rparr>))"

definition stall_stat :: "Opcode \<Rightarrow> core \<Rightarrow> core" where
  "stall_stat opc c = (case opc of
       GEMM \<Rightarrow> c\<lparr>compute_memory_stall_cycle := compute_memory_stall_cycle c + 1\<rparr>
     | GEMM_PRELOAD \<Rightarrow> c\<lparr>compute_memory_stall_cycle := compute_memory_stall_cycle c + 1\<rparr>
     | LAYERNORM \<Rightarrow> c\<lparr>layernorm_stall_cycle := layernorm_stall_cycle c + 1\<rparr>
     | SOFTMAX \<Rightarrow> c\<lparr>softmax_stall_cycle := softmax_stall_cycle c + 1\<rparr>
     | ADD \<Rightarrow> c\<lparr>add_stall_cycle := add_stall_cycle c + 1\<rparr>
     | GELU \<Rightarrow> c\<lparr>gelu_stall_cycle := gelu_stall_cycle c + 1\<rparr>
     | _ \<Rightarrow> c)"

definition vector_stat :: "Opcode \<Rightarrow> core \<Rightarrow> core" where
  "vector_stat opc c = (case opc of
       LAYERNORM \<Rightarrow> c\<lparr>stat_layernorm_cycle := stat_layernorm_cycle c + 1\<rparr>
     | SOFTMAX \<Rightarrow> c\<lparr>stat_softmax_cycle := stat_softmax_cycle c + 1\<rparr>
     | ADD \<Rightarrow> c\<lparr>stat_add_cycle := stat_add_cycle c + 1\<rparr>
     | GELU \<Rightarrow> c\<lparr>stat_gelu_cycle := stat_gelu_cycle c + 1\<rparr>
     | _ \<Rightarrow> c)"

text \<open>
  When some vector pipeline is busy and the systolic array is not, the source reads \<open>front()\<close> of
  every vector pipeline, also of the empty ones: the opcode it finds there is \<open>e_stale_opcode\<close>.
\<close>

definition update_stats :: "env \<Rightarrow> core \<Rightarrow> fault + core" where
  "update_stats e c =
     bindE (case compute_pipeline c of [] \<Rightarrow> Inr c | inst # _ \<Rightarrow> count_busy (128 * 8 * 2) inst c) (\<lambda>c.
     bindE (foldE (\<lambda>c q. case q of [] \<Rightarrow> Inr c | inst # _ \<Rightarrow> count_busy 16 inst c) c (vector_pipelines c)) (\<lambda>c.
       let is_idle = (compute_pipeline c = [] \<and> list_all (\<lambda>q. q = []) (vector_pipelines c));
           c = (if is_idle then
                  let c = c\<lparr>stat_memory_cycle := stat_memory_cycle c + 1\<rparr>
                  in (case ex_sa c of
                        [] \<Rightarrow> c\<lparr>store_memory_cycle := store_memory_cycle c + 1\<rparr>
                      | inst # _ \<Rightarrow> stall_stat (opcode inst) (c\<lparr>load_memory_cycle := load_memory_cycle c + 1\<rparr>))
                else if compute_pipeline c \<noteq> [] then c\<lparr>stat_matmul_cycle := stat_matmul_cycle c + 1\<rparr>
                else fold (\<lambda>q c. vector_stat (case q of [] \<Rightarrow> e_stale_opcode e | inst # _ \<Rightarrow> opcode inst) c)
                       (vector_pipelines c) c)
       in Inr (if \<not> core_running c then c\<lparr>stat_idle_cycle := stat_idle_cycle c + 1\<rparr> else c)))"

definition NeuPIMSystolicWS_cycle :: "env \<Rightarrow> core \<Rightarrow> fault + core" where
  "NeuPIMSystolicWS_cycle e c =
     (if c_stat c = [] then Inl Undefined else
      let c = (if ns_start_cycle (last (c_stat c)) + 1000 < core_cycle c
               then c\<lparr>c_stat := c_stat c @ [\<lparr>ns_start_cycle = core_cycle c, ns_num_calculations = 0\<rparr>]\<rparr> else c)
      in bindE (foldE (\<lambda>c part. part c) c
           [systolic_cycle, vector_unit_cycle,
            ld_queue_cycle e, st_queue_cycle e, ex_queue_cycle e,
            pim_ld_queue_cycle e, pim_st_queue_cycle e, pim_ex_queue_cycle e,
            update_stats e])
         (\<lambda>c. Inr (core_cycle_step c)))"

subsection \<open>Termination of the add tree\<close>

lemma unat_partial_results:
  assumes "2 \<le> unat u" "unat u < unat v"
  shows "unat (v div u + (if v mod u \<noteq> 0 then 1 else 0) :: u32) < unat v"
proof -
  have half: "unat v div unat u \<le> unat v div 2" using assms(1) by (intro div_le_mono2) simp_all
  have d: "unat (v div u) = unat v div unat u" by (simp add: unat_div)
  show ?thesis
  proof (cases "unat v = 3")
    case True
    then have u: "unat u = 2" using assms by simp
    have "v = 3" "u = 2" using True u by (simp_all add: word_unat_eq_iff)
    then show ?thesis by simp
  next
    case False
    then have "unat v div 2 + 1 < unat v" using assms by simp
    then have lt: "unat v div unat u + 1 < unat v" using half by linarith
    have "unat (v div u + 1) = unat (v div u) + 1"
    proof (rule unat_Suc_u32)
      show "unat (v div u) + 1 < 2 ^ 32" unfolding d by (rule less_trans [OF lt]) simp
    qed
    then show ?thesis using lt d by auto
  qed
qed

text \<open>
  The add tree of the vector unit is finite when the unit is at least two elements wide, whatever
  the vector size; with a width of one the recursion never ends for two or more elements.
\<close>

theorem add_tree_terminates_iff_width:
  assumes "0 < unat calculation_unit" "unat calculation_unit < unat vector_size"
  shows "(\<exists>n. add_tree_iterations calculation_unit vector_size = Some n) \<longleftrightarrow> 2 \<le> unat calculation_unit"
proof
  assume w: "2 \<le> unat calculation_unit"
  have "\<exists>n. add_tree_iterations calculation_unit v = Some n" for v
  proof (induction "unat v" arbitrary: v rule: less_induct)
    case less
    show ?case
    proof (cases "v \<le> calculation_unit")
      case True then show ?thesis by (simp add: add_tree_iterations.simps)
    next
      case False
      let ?r = "v div calculation_unit + (if v mod calculation_unit \<noteq> 0 then 1 else 0)"
      have "unat ?r < unat v" using False w by (intro unat_partial_results) (simp_all add: word_le_nat_alt)
      from less [OF this] obtain n where "add_tree_iterations calculation_unit ?r = Some n" ..
      then show ?thesis using False by (subst add_tree_iterations.simps) (simp add: Let_def)
    qed
  qed
  then show "\<exists>n. add_tree_iterations calculation_unit vector_size = Some n" .
next
  assume "\<exists>n. add_tree_iterations calculation_unit vector_size = Some n"
  then obtain n where n: "add_tree_iterations calculation_unit vector_size = Some n" ..
  show "2 \<le> unat calculation_unit"
  proof (rule ccontr)
    assume "\<not> 2 \<le> unat calculation_unit"
    then have u: "calculation_unit = 1" using assms(1) by (simp add: word_unat_eq_iff)
    have v: "\<not> vector_size \<le> 1" using assms(2) u by (simp add: word_le_nat_alt)
    have "vector_size div 1 + (if vector_size mod 1 \<noteq> 0 then 1 else 0) = vector_size"
      by (simp add: word_unat_eq_iff unat_div unat_mod)
    moreover have "add_tree_iterations 1 vector_size = (if vector_size \<le> 1 then Some 1
      else let ret = vector_size div 1 + (if vector_size mod 1 \<noteq> 0 then 1 else 0)
           in Option.bind (add_tree_iterations 1 ret) (\<lambda>x. Some (ucast ret + x)))"
      by (rule add_tree_iterations.simps)
    ultimately have "add_tree_iterations 1 vector_size =
        Option.bind (add_tree_iterations 1 vector_size) (\<lambda>x. Some (ucast vector_size + x))"
      using v by (simp only: Let_def if_False)
    then have "Some n = Option.bind (Some n) (\<lambda>x. Some (ucast vector_size + x))"
      using n u by (simp only:)
    then have "(ucast vector_size :: u64) = 0" by simp
    then have "unat vector_size = 0" by (metis unat_0 unat_ucast_up)
    then show False using assms(2) by simp
  qed
qed

theorem add_tree_terminates_iff_width_witness:
  "\<exists>n. add_tree_iterations 128 4096 = Some n"
  using add_tree_terminates_iff_width [of 128 4096] by simp

subsection \<open>Issue to a busy vector unit\<close>

lemma vpu_loop_busy:
  "\<lbrakk>\<forall>q \<in> set qs. q \<noteq> [] \<and> now \<le> finish_cycle (last q)\<rbrakk> \<Longrightarrow> vpu_loop now i qs (k, now) = (k, now)"
  by (induction qs arbitrary: i) auto

text \<open>
  When every vector pipeline is busy beyond the current cycle, \<open>issue_ex_inst\<close> does not wait: the
  instruction goes to the first pipeline with the current cycle as its start, before the end of
  the instruction in front of it.
\<close>

theorem busy_vector_unit_overlaps:
  assumes "issue_vector cfg inst c = Inr c'" "vector_pipelines c = q # qs"
    and "\<forall>p \<in> set (q # qs). p \<noteq> [] \<and> core_cycle c \<le> finish_cycle (last p)" "finish_cycle (last q) \<noteq> - 1"
  shows "\<exists>i. vector_pipelines c' = (q @ [i]) # qs \<and> start_cycle i = core_cycle c \<and> start_cycle i \<le> finish_cycle (last q)"
proof -
  have "finish_cycle (last q) < - 1"
    using assms(4) word_order.not_eq_extremum by auto
  then have "vpu_loop (core_cycle c) 0 (q # qs) (None, - 1) = (Some 0, core_cycle c)"
    using assms(3) vpu_loop_busy [of qs] by simp
  then show ?thesis using assms by (auto simp: issue_vector_def)
qed

definition demo_vector_inst :: Instruction where
  "demo_vector_inst = Instruction0\<lparr>opcode := ADD, inst_size := 256, dest_addr := 0x20000000\<rparr>"

theorem busy_vector_unit_overlaps_witness:
  "\<exists>c' i. issue_vector demo_cfg demo_vector_inst ((NeuPIMSCore_new demo_env 0 demo_req_state)\<lparr>core_cycle := 10,
       vector_pipelines := [[demo_vector_inst\<lparr>finish_cycle := 500\<rparr>]]\<rparr>) = Inr c' \<and>
     vector_pipelines c' = [[demo_vector_inst\<lparr>finish_cycle := 500\<rparr>, i]] \<and> start_cycle i = 10"
proof -
  let ?c = "(NeuPIMSCore_new demo_env 0 demo_req_state)\<lparr>core_cycle := 10,
       vector_pipelines := [[demo_vector_inst\<lparr>finish_cycle := 500\<rparr>]]\<rparr>"
  have "add_tree_iterations 128 256 = Some 3"
    by (simp add: add_tree_iterations.simps)
  then obtain c' where r: "issue_vector demo_cfg demo_vector_inst ?c = Inr c'"
    by (simp add: issue_vector_def get_vector_compute_cycles_def calculate_vector_op_iterations_def
        calculate_add_tree_iterations_def demo_vector_inst_def Instruction0_def demo_cfg_def)
  from busy_vector_unit_overlaps [OF r] r show ?thesis by auto
qed

end
