(* ===== verification/CoreInv.thy ===== *)
theory CoreInv
  imports Systolic
begin

text \<open>
  The accounting invariant of a core: the counters of every live tile equal the work of the tile
  that is still in flight, so a tile is retired exactly when nothing of it is left and a
  \<open>weak_ptr\<close> to a tile never dangles.
\<close>

subsection \<open>Work in flight\<close>

text \<open>
  A token is a piece of work that the counters of its tile account for: a load (an instruction in
  a load queue, or a request that reads), a store (an instruction in a store queue, or a write
  request), a computation (an instruction in an execution queue or a pipeline).  A PIM header is
  not counted by the code.  \<open>fl\<close> lists the requests that have left the core and are not answered.
\<close>

datatype work = WLoad | WStore | WComp | WHeader

definition ld_tok :: "Instruction \<Rightarrow> nat option \<times> work" where
  "ld_tok i = (inst_parent i, if opcode i = PIM_HEADER then WHeader else WLoad)"

definition inst_tok :: "work \<Rightarrow> Instruction \<Rightarrow> nat option \<times> work" where
  "inst_tok w i = (inst_parent i, w)"

definition req_tok :: "MemoryAccess \<Rightarrow> nat option \<times> work" where
  "req_tok m = (ma_parent m, if req_type m = WRITE then WStore else if req_type m = P_HEADER then WHeader else WLoad)"

definition tokens :: "core \<Rightarrow> MemoryAccess list \<Rightarrow> (nat option \<times> work) multiset" where
  "tokens c fl =
     image_mset ld_tok (mset (ld_sa c)) + image_mset ld_tok (mset (ld_pim c)) +
     image_mset (inst_tok WStore) (mset (st_sa c)) + image_mset (inst_tok WStore) (mset (st_pim c)) +
     image_mset (inst_tok WComp) (mset (ex_sa c)) + image_mset (inst_tok WComp) (mset (ex_pim c)) +
     image_mset (inst_tok WComp) (mset (compute_pipeline c)) +
     image_mset (inst_tok WComp) (mset (concat (vector_pipelines c))) +
     image_mset req_tok (mset (concat (mem_queues1 c))) + image_mset req_tok (mset (concat (mem_queues2 c))) +
     image_mset req_tok (mset fl)"

definition live_tiles :: "core \<Rightarrow> nat set" where
  "live_tiles c = set (c_tiles c) \<union> set (c_pim_tiles c)"

text \<open>The counters of a tile, and what they should be.\<close>

definition counters :: "Tile \<Rightarrow> u32 \<times> u32 \<times> u32" where
  "counters t = (remaining_loads t, remaining_computes t, remaining_accum_io t)"

definition due :: "(nat option \<times> work) multiset \<Rightarrow> nat \<Rightarrow> u32 \<times> u32 \<times> u32" where
  "due T n = (of_nat (count T (Some n, WLoad)), of_nat (count T (Some n, WComp)),
     of_nat (count T (Some n, WStore)) + of_nat (count T (Some n, WComp)))"

text \<open>Instructions that \<open>issue_ex_inst\<close> hands to a pipeline.\<close>

definition supported :: "Instruction \<Rightarrow> bool" where
  "supported i \<longleftrightarrow> inst_valid i \<and> (is_gemm (opcode i) \<or> is_vector (opcode i))"

definition acct :: "core \<Rightarrow> MemoryAccess list \<Rightarrow> bool" where
  "acct c fl \<longleftrightarrow>
     (\<forall>n \<in> live_tiles c. map_option counters (c_heap c n) = Some (due (tokens c fl) n)) \<and>
     (\<forall>p w. w \<noteq> WHeader \<longrightarrow> p \<notin> Some ` live_tiles c \<longrightarrow> count (tokens c fl) (p, w) = 0) \<and>
     (\<forall>n \<in> live_tiles c \<union> set (c_finished_tiles c). n < c_next_tile c) \<and>
     distinct (c_tiles c @ c_pim_tiles c @ c_finished_tiles c) \<and>
     (\<forall>n \<in> set (c_finished_tiles c). c_heap c n \<noteq> None) \<and>
     (\<forall>i \<in> set (ex_sa c) \<union> set (ex_pim c). supported i)"

text \<open>What \<open>acct\<close> looks at besides tokens and heap.\<close>

definition frame_eq :: "core \<Rightarrow> core \<Rightarrow> bool" where
  "frame_eq c c' \<longleftrightarrow> c_tiles c' = c_tiles c \<and> c_pim_tiles c' = c_pim_tiles c \<and>
     c_finished_tiles c' = c_finished_tiles c \<and> c_next_tile c' = c_next_tile c"

text \<open>The heaps agree on all counters.\<close>

definition same_counters :: "core \<Rightarrow> core \<Rightarrow> bool" where
  "same_counters c c' \<longleftrightarrow> (\<forall>n. map_option counters (c_heap c' n) = map_option counters (c_heap c n))"

lemma acct_same:
  assumes "acct c fl" "frame_eq c c'" "same_counters c c'" "tokens c' fl' = tokens c fl"
    "set (ex_sa c') \<union> set (ex_pim c') \<subseteq> set (ex_sa c) \<union> set (ex_pim c)"
  shows "acct c' fl'"
proof -
  have l: "live_tiles c' = live_tiles c" using assms(2) by (simp add: frame_eq_def live_tiles_def)
  have "c_heap c' n \<noteq> None" if "c_heap c n \<noteq> None" for n
    using assms(3) that unfolding same_counters_def by (metis option.map_disc_iff)
  then show ?thesis
    using assms unfolding acct_def l frame_eq_def same_counters_def by auto
qed

lemma acct_token_live:
  "\<lbrakk>acct c fl; (p, w) \<in># tokens c fl; w \<noteq> WHeader\<rbrakk> \<Longrightarrow> \<exists>n \<in> live_tiles c. p = Some n"
  unfolding acct_def by (metis count_eq_zero_iff imageE)

text \<open>Work of one tile is replaced by other work of the same tile and its counters follow.\<close>

lemma acct_move:
  assumes a: "acct c fl" and f: "frame_eq c c'" and n: "n \<in> live_tiles c" "c_heap c n = Some t"
    and h: "\<forall>m. m \<noteq> n \<longrightarrow> map_option counters (c_heap c' m) = map_option counters (c_heap c m)"
    and t: "map_option counters (c_heap c' n) = Some (counters t')"
    and tok: "tokens c' fl' + A = tokens c fl + B" "\<forall>x \<in># A + B. fst x = Some n \<or> snd x = WHeader"
    and l: "remaining_loads t' = remaining_loads t + of_nat (count B (Some n, WLoad)) - of_nat (count A (Some n, WLoad))"
    and cm: "remaining_computes t' = remaining_computes t + of_nat (count B (Some n, WComp)) - of_nat (count A (Some n, WComp))"
    and io: "remaining_accum_io t' = remaining_accum_io t + of_nat (count B (Some n, WStore)) + of_nat (count B (Some n, WComp))
        - of_nat (count A (Some n, WStore)) - of_nat (count A (Some n, WComp))"
    and ex: "set (ex_sa c') \<union> set (ex_pim c') \<subseteq> set (ex_sa c) \<union> set (ex_pim c) \<union> {i. supported i}"
  shows "acct c' fl'"
proof -
  have L: "live_tiles c' = live_tiles c" using f by (simp add: frame_eq_def live_tiles_def)
  have cnt: "count (tokens c' fl') x + count A x = count (tokens c fl) x + count B x" for x
    using arg_cong [OF tok(1), of "\<lambda>M. count M x"] by simp
  have other: "count (tokens c' fl') (p, w) = count (tokens c fl) (p, w)" if "p \<noteq> Some n" "w \<noteq> WHeader" for p w
  proof -
    have "(p, w) \<notin># A + B" using tok(2) that by force
    then have "count A (p, w) = 0 \<and> count B (p, w) = 0" by (simp add: not_in_iff [symmetric])
    then show ?thesis using cnt [of "(p, w)"] by simp
  qed
  have sub: "of_nat (count (tokens c' fl') x) = of_nat (count (tokens c fl) x) + of_nat (count B x) - (of_nat (count A x) :: u32)" for x
    using arg_cong [OF cnt [of x], of "of_nat :: nat \<Rightarrow> u32"] by (simp add: algebra_simps)
  have bal: "counters t = due (tokens c fl) n" using a n unfolding acct_def by auto
  have "counters t' = due (tokens c' fl') n"
    using bal l cm io by (simp add: counters_def due_def sub)
  then have heap: "map_option counters (c_heap c' m) = Some (due (tokens c' fl') m)" if m: "m \<in> live_tiles c" for m
  proof (cases "m = n")
    case True then show ?thesis using t \<open>counters t' = _\<close> by simp
  next
    case False
    then have "due (tokens c' fl') m = due (tokens c fl) m" by (simp add: due_def other)
    then show ?thesis using a h False m unfolding acct_def by auto
  qed
  have dead: "count (tokens c' fl') (p, w) = 0" if "w \<noteq> WHeader" "p \<notin> Some ` live_tiles c" for p w
  proof -
    have "p \<noteq> Some n" using that n by auto
    then show ?thesis using a that other unfolding acct_def by simp
  qed
  have fin: "c_heap c' m \<noteq> None" if "m \<in> set (c_finished_tiles c)" for m
  proof (cases "m = n")
    case True then show ?thesis using t by auto
  next
    case False
    have "c_heap c m \<noteq> None" using a that unfolding acct_def by auto
    then show ?thesis using h False by (metis option.map_disc_iff)
  qed
  show ?thesis
    using a heap dead fin ex f unfolding acct_def L frame_eq_def by auto
qed

lemma upd_tile_Inr:
  "upd_tile p f c = Inr c' \<longleftrightarrow> (\<exists>n t. p = Some n \<and> c_heap c n = Some t \<and> c' = c\<lparr>c_heap := (c_heap c)(n \<mapsto> f t)\<rparr>)"
  by (auto simp: upd_tile_def lock_tile_def split: option.splits)

lemma lock_tile_Inr: "lock_tile p c = Inr (n, t) \<longleftrightarrow> p = Some n \<and> c_heap c n = Some t"
  by (auto simp: lock_tile_def split: option.splits)

lemma frame_eq_refl [simp]: "frame_eq c c"
  by (simp add: frame_eq_def)

lemma same_counters_refl [simp]: "same_counters c c"
  by (simp add: same_counters_def)

lemma upd_tile_same:
  "\<lbrakk>upd_tile p f c = Inr c'; \<And>t. counters (f t) = counters t\<rbrakk> \<Longrightarrow>
     frame_eq c c' \<and> same_counters c c' \<and> (\<forall>fl. tokens c' fl = tokens c fl) \<and> ex_sa c' = ex_sa c \<and> ex_pim c' = ex_pim c"
  by (auto simp: upd_tile_Inr frame_eq_def same_counters_def tokens_def)

subsection \<open>Completion\<close>

lemma counters_finish_compute [simp]:
  "remaining_loads (finish_compute t) = remaining_loads t"
  "remaining_computes (finish_compute t) = remaining_computes t - 1"
  "remaining_accum_io (finish_compute t) = remaining_accum_io t - 1"
  by (simp_all add: finish_compute_def)

text \<open>A computation leaves the core.\<close>

lemma acct_finish_compute:
  assumes a: "acct c fl" and u: "upd_tile p finish_compute c = Inr c1"
    and f: "frame_eq c1 c'" "c_heap c' = c_heap c1" "ex_sa c' = ex_sa c1" "ex_pim c' = ex_pim c1"
    and tok: "tokens c1 fl = tokens c' fl + {#(p, WComp)#}"
  shows "acct c' fl"
proof -
  from u obtain n t where p: "p = Some n" "c_heap c n = Some t" and c1: "c1 = c\<lparr>c_heap := (c_heap c)(n \<mapsto> finish_compute t)\<rparr>"
    by (auto simp: upd_tile_Inr)
  have tk: "tokens c' fl + {#(p, WComp)#} = tokens c fl + {#}" using tok c1 by (simp add: tokens_def)
  then have "(p, WComp) \<in># tokens c fl" by (metis add.right_neutral union_single_eq_member add_mset_add_single)
  from acct_token_live [OF a this] p have n: "n \<in> live_tiles c" by auto
  show ?thesis
    by (rule acct_move [OF a _ n p(2) _ _ tk, where t' = "finish_compute t"])
      (use f c1 p in \<open>simp_all add: frame_eq_def\<close>)
qed

lemma acct_systolic_cycle: "\<lbrakk>acct c fl; systolic_cycle c = Inr c'\<rbrakk> \<Longrightarrow> acct c' fl"
proof (cases "compute_pipeline c")
  case (Cons inst rest)
  assume a: "acct c fl" and r: "systolic_cycle c = Inr c'"
  show ?thesis
  proof (cases "finish_cycle inst \<le> core_cycle c")
    case True
    with r Cons obtain s c1 where u: "upd_tile (inst_parent inst) finish_compute (c\<lparr>acc_spad := s\<rparr>) = Inr c1"
      and c': "c' = c1\<lparr>compute_pipeline := rest\<rparr>" by (auto simp: systolic_cycle_def)
    have a': "acct (c\<lparr>acc_spad := s\<rparr>) fl"
      by (rule acct_same [OF a]) (simp_all add: frame_eq_def same_counters_def tokens_def)
    have "compute_pipeline c1 = inst # rest" using u Cons by (auto simp: upd_tile_Inr)
    then show ?thesis
      by (intro acct_finish_compute [OF a' u]) (simp_all add: c' frame_eq_def tokens_def inst_tok_def)
  next
    case False then show ?thesis using a r Cons by (simp add: systolic_cycle_def)
  qed
qed (simp add: systolic_cycle_def)

lemma acct_vector_pipe_cycle:
  assumes a: "acct c fl" and i: "i < length (vector_pipelines c)" and r: "vector_pipe_cycle c i = Inr c'"
  shows "acct c' fl \<and> length (vector_pipelines c') = length (vector_pipelines c)"
proof (cases "vector_pipelines c ! i")
  case Nil then show ?thesis using a r by (simp add: vector_pipe_cycle_def)
next
  case (Cons inst rest)
  show ?thesis
  proof (cases "finish_cycle inst \<le> core_cycle c")
    case True
    with r Cons obtain c0 c1 where c0: "c0 = c \<or> (\<exists>s. c0 = c\<lparr>pim_acc_spad := s\<rparr>) \<or> (\<exists>s. c0 = c\<lparr>acc_spad := s\<rparr>)"
      and u: "upd_tile (inst_parent inst) finish_compute c0 = Inr c1"
      and c': "c' = c1\<lparr>vector_pipelines := (vector_pipelines c1)[i := rest]\<rparr>"
      by (auto simp: vector_pipe_cycle_def split: if_splits)
    have v0: "vector_pipelines c0 = vector_pipelines c" using c0 by auto
    have a': "acct c0 fl"
      by (rule acct_same [OF a]) (use c0 in \<open>auto simp: frame_eq_def same_counters_def tokens_def\<close>)
    have v1: "vector_pipelines c1 = vector_pipelines c" using u v0 by (auto simp: upd_tile_Inr)
    have m: "mset (concat (vector_pipelines c1)) = mset (concat ((vector_pipelines c1)[i := rest])) + {#inst#}"
      using mset_concat_update [OF i, of rest] Cons v1 by simp
    have "acct c' fl"
      by (rule acct_finish_compute [OF a' u]) (simp_all add: c' frame_eq_def tokens_def inst_tok_def m)
    then show ?thesis using c' v1 by simp
  next
    case False then show ?thesis using a r Cons by (simp add: vector_pipe_cycle_def)
  qed
qed

lemma acct_vector_unit_cycle: 
  assumes "acct c fl" "vector_unit_cycle c = Inr c'"
  shows "acct c' fl"
proof -
  let ?I = "\<lambda>x. acct x fl \<and> length (vector_pipelines x) = length (vector_pipelines c)"
  have "?I c'"
  proof (rule foldE_invariant [where I = ?I, OF assms(2) [unfolded vector_unit_cycle_def]])
    show "?I c" using assms(1) by simp
  next
    fix x i y
    assume x: "?I x" and i: "i \<in> set [0..<length (vector_pipelines c)]" and y: "vector_pipe_cycle x i = Inr y"
    have "i < length (vector_pipelines x)" using i x by simp
    from acct_vector_pipe_cycle [OF conjunct1 [OF x] this y] show "?I y" using x by simp
  qed
  then show ?thesis by simp
qed

subsection \<open>Loads and stores\<close>

lemma set_buffer_simps [simp]:
  "c_heap (set_sa_buffer i s c) = c_heap c" "c_heap (set_pim_buffer i s c) = c_heap c"
  "c_tiles (set_sa_buffer i s c) = c_tiles c" "c_tiles (set_pim_buffer i s c) = c_tiles c"
  "c_pim_tiles (set_sa_buffer i s c) = c_pim_tiles c" "c_pim_tiles (set_pim_buffer i s c) = c_pim_tiles c"
  "c_finished_tiles (set_sa_buffer i s c) = c_finished_tiles c" "c_finished_tiles (set_pim_buffer i s c) = c_finished_tiles c"
  "c_next_tile (set_sa_buffer i s c) = c_next_tile c" "c_next_tile (set_pim_buffer i s c) = c_next_tile c"
  "compute_pipeline (set_sa_buffer i s c) = compute_pipeline c" "compute_pipeline (set_pim_buffer i s c) = compute_pipeline c"
  "vector_pipelines (set_sa_buffer i s c) = vector_pipelines c" "vector_pipelines (set_pim_buffer i s c) = vector_pipelines c"
  "ld_sa (set_sa_buffer i s c) = ld_sa c" "ld_sa (set_pim_buffer i s c) = ld_sa c"
  "st_sa (set_sa_buffer i s c) = st_sa c" "st_sa (set_pim_buffer i s c) = st_sa c"
  "ex_sa (set_sa_buffer i s c) = ex_sa c" "ex_sa (set_pim_buffer i s c) = ex_sa c"
  "ld_pim (set_sa_buffer i s c) = ld_pim c" "ld_pim (set_pim_buffer i s c) = ld_pim c"
  "st_pim (set_sa_buffer i s c) = st_pim c" "st_pim (set_pim_buffer i s c) = st_pim c"
  "ex_pim (set_sa_buffer i s c) = ex_pim c" "ex_pim (set_pim_buffer i s c) = ex_pim c"
  "mem_queues1 (set_sa_buffer i s c) = mem_queues1 c" "mem_queues1 (set_pim_buffer i s c) = mem_queues1 c"
  "mem_queues2 (set_sa_buffer i s c) = mem_queues2 c" "mem_queues2 (set_pim_buffer i s c) = mem_queues2 c"
  "c_req (set_sa_buffer i s c) = c_req c" "c_req (set_pim_buffer i s c) = c_req c"
  by (simp_all add: set_sa_buffer_def set_pim_buffer_def)

lemma push1_loop:
  "foldE (\<lambda>c a. push_memory_request1 e a c) c accs = Inr c' \<Longrightarrow>
     \<exists>qs. c' = c\<lparr>mem_queues1 := qs\<rparr> \<and> mset (concat qs) = mset (concat (mem_queues1 c)) + mset accs"
proof (induction accs arbitrary: c)
  case Nil
  then have "c' = c\<lparr>mem_queues1 := mem_queues1 c\<rparr>" by simp
  then show ?case by fastforce
next
  case (Cons a accs)
  then obtain qs where p: "push_queue (unat (mask_channel (e_channel_mask e) (dram_address a))) a (mem_queues1 c) = Inr qs"
    and r: "foldE (\<lambda>c a. push_memory_request1 e a c) (c\<lparr>mem_queues1 := qs\<rparr>) accs = Inr c'"
    by (auto simp: push_memory_request1_def)
  from Cons.IH [OF r] push_queue_mset [OF p] show ?case by auto
qed

lemma push1_write_loop:
  "foldE (\<lambda>c a. bindE (push_memory_request1 e a c) (\<lambda>c. Inr (c\<lparr>waiting_write_reqs := waiting_write_reqs c + 1\<rparr>))) c accs = Inr c' \<Longrightarrow>
     \<exists>qs. c' = c\<lparr>mem_queues1 := qs, waiting_write_reqs := waiting_write_reqs c + of_nat (length accs)\<rparr> \<and>
       mset (concat qs) = mset (concat (mem_queues1 c)) + mset accs"
proof (induction accs arbitrary: c)
  case Nil
  then have "c' = c\<lparr>mem_queues1 := mem_queues1 c, waiting_write_reqs := waiting_write_reqs c + of_nat (length ([] :: MemoryAccess list))\<rparr>" by simp
  then show ?case by fastforce
next
  case (Cons a accs)
  then obtain qs where p: "push_queue (unat (mask_channel (e_channel_mask e) (dram_address a))) a (mem_queues1 c) = Inr qs"
    and r: "foldE (\<lambda>c a. bindE (push_memory_request1 e a c) (\<lambda>c. Inr (c\<lparr>waiting_write_reqs := waiting_write_reqs c + 1\<rparr>)))
      (c\<lparr>mem_queues1 := qs, waiting_write_reqs := waiting_write_reqs c + 1\<rparr>) accs = Inr c'"
    by (auto simp: push_memory_request1_def)
  from Cons.IH [OF r] push_queue_mset [OF p] show ?case by (auto simp: algebra_simps)
qed

lemma push2_write_loop:
  "foldE (\<lambda>c a. bindE (push_memory_request2 e a c) (\<lambda>c. Inr (c\<lparr>waiting_write_reqs := waiting_write_reqs c + 1\<rparr>))) c accs = Inr c' \<Longrightarrow>
     \<exists>qs. c' = c\<lparr>mem_queues2 := qs, waiting_write_reqs := waiting_write_reqs c + of_nat (length accs)\<rparr> \<and>
       mset (concat qs) = mset (concat (mem_queues2 c)) + mset accs"
proof (induction accs arbitrary: c)
  case Nil
  then have "c' = c\<lparr>mem_queues2 := mem_queues2 c, waiting_write_reqs := waiting_write_reqs c + of_nat (length ([] :: MemoryAccess list))\<rparr>" by simp
  then show ?case by fastforce
next
  case (Cons a accs)
  then obtain qs where p: "push_queue (unat (mask_channel (e_channel_mask e) (dram_address a))) a (mem_queues2 c) = Inr qs"
    and r: "foldE (\<lambda>c a. bindE (push_memory_request2 e a c) (\<lambda>c. Inr (c\<lparr>waiting_write_reqs := waiting_write_reqs c + 1\<rparr>)))
      (c\<lparr>mem_queues2 := qs, waiting_write_reqs := waiting_write_reqs c + 1\<rparr>) accs = Inr c'"
    by (auto simp: push_memory_request2_def)
  from Cons.IH [OF r] push_queue_mset [OF p] show ?case by (auto simp: algebra_simps)
qed

lemma make_accesses_Inr:
  assumes "make_accesses e inst ty b sp c = Inr (accs, c')"
  shows "\<exists>r. c' = c\<lparr>c_req := r\<rparr> \<and> (\<forall>a \<in> set accs. ma_parent a = inst_parent inst \<and> req_type a = ty)"
proof -
  from assms obtain mid r r' where
    f: "from_instruction e inst mid (dram_req_size (e_cfg e)) ty True (c_id c) (core_cycle c) b sp r = Inr (accs, r')"
    and c': "c' = c\<lparr>c_req := r'\<rparr>" by (auto simp: make_accesses_def split: prod.splits)
  from f have "\<forall>a \<in> set accs. ma_parent a = inst_parent inst \<and> req_type a = ty"
    by (rule from_instruction_Inr) auto
  with c' show ?thesis by blast
qed

lemma image_mset_replicate:
  "\<forall>a \<in> set xs. f a = y \<Longrightarrow> image_mset f (mset xs) = replicate_mset (length xs) y"
  by (induction xs) auto

text \<open>Replacing one piece of work of a tile by \<open>k\<close> requests of the same kind.\<close>

lemma acct_split:
  assumes a: "acct c fl" and u: "upd_tile p f c = Inr c1" and w: "w \<noteq> WHeader"
    and mem: "(p, w) \<in># tokens c fl"
    and fr: "frame_eq c c'" "c_heap c' = c_heap c1" "set (ex_sa c') \<union> set (ex_pim c') \<subseteq> set (ex_sa c) \<union> set (ex_pim c)"
    and tok: "tokens c' fl + {#(p, w)#} = tokens c fl + replicate_mset k (p, w)"
    and cnt: "\<And>t. counters (f t) =
      (remaining_loads t + (if w = WLoad then of_nat k - 1 else 0),
       remaining_computes t + (if w = WComp then of_nat k - 1 else 0),
       remaining_accum_io t + (if w = WLoad then 0 else of_nat k - 1))"
  shows "acct c' fl"
proof -
  from u obtain n t where p: "p = Some n" "c_heap c n = Some t" and c1: "c1 = c\<lparr>c_heap := (c_heap c)(n \<mapsto> f t)\<rparr>"
    by (auto simp: upd_tile_Inr)
  from acct_token_live [OF a mem w] p have n: "n \<in> live_tiles c" by auto
  show ?thesis
  proof (rule acct_move [OF a fr(1) n p(2) _ _ tok, where t' = "f t"])
    show "map_option counters (c_heap c' n) = Some (counters (f t))" using c1 fr(2) by simp
    show "set (ex_sa c') \<union> set (ex_pim c') \<subseteq> set (ex_sa c) \<union> set (ex_pim c) \<union> {i. supported i}"
      using fr(3) by blast
  qed (use c1 fr p cnt [of t] w in \<open>cases w; simp add: counters_def\<close>)+
qed

lemma acct_ld_inst:
  assumes a: "acct (c\<lparr>ld_sa := inst # insts\<rparr>) fl" and r: "ld_inst e c inst = Inr c1"
  shows "acct (c1\<lparr>ld_sa := insts\<rparr>) fl \<and> ld_sa c1 = ld_sa c"
proof -
  obtain buffer b where sb: "sa_buffer inst c = (buffer, b)" by fastforce
  from r sb obtain accs ca s cc where op: "opcode inst = MOVIN"
    and ma: "make_accesses e inst READ b SA c = Inr (accs, ca)"
    and up: "upd_tile (inst_parent inst) (\<lambda>t. t\<lparr>remaining_loads := remaining_loads t + of_nat (length accs) - 1,
       tl_stat := (tl_stat t)\<lparr>ts_memory_reads := ts_memory_reads (tl_stat t) + of_nat (length accs) * e_alignment e\<rparr>\<rparr>)
       (set_sa_buffer inst s ca) = Inr cc"
    and pu: "foldE (\<lambda>c a. push_memory_request1 e a c) cc accs = Inr c1"
    by (auto simp: ld_inst_def Let_def split: if_splits)
  from make_accesses_Inr [OF ma] obtain q where ca: "ca = c\<lparr>c_req := q\<rparr>"
    and accs: "\<forall>a \<in> set accs. ma_parent a = inst_parent inst \<and> req_type a = READ" by blast
  from push1_loop [OF pu] obtain qs where c1: "c1 = cc\<lparr>mem_queues1 := qs\<rparr>"
    and qs: "mset (concat qs) = mset (concat (mem_queues1 cc)) + mset accs" by blast
  have rt: "image_mset req_tok (mset accs) = replicate_mset (length accs) (inst_parent inst, WLoad)"
    by (rule image_mset_replicate) (use accs in \<open>simp add: req_tok_def\<close>)
  let ?f = "\<lambda>t. t\<lparr>remaining_loads := remaining_loads t + of_nat (length accs) - 1,
       tl_stat := (tl_stat t)\<lparr>ts_memory_reads := ts_memory_reads (tl_stat t) + of_nat (length accs) * e_alignment e\<rparr>\<rparr>"
  from up obtain n t where n: "inst_parent inst = Some n" "c_heap c n = Some t"
    and cc: "cc = (set_sa_buffer inst s ca)\<lparr>c_heap := (c_heap c)(n \<mapsto> ?f t)\<rparr>"
    by (auto simp: upd_tile_Inr ca)
  have u: "upd_tile (inst_parent inst) ?f (c\<lparr>ld_sa := inst # insts\<rparr>)
      = Inr (c\<lparr>ld_sa := inst # insts, c_heap := (c_heap c)(n \<mapsto> ?f t)\<rparr>)"
    using n by (simp add: upd_tile_def lock_tile_def)
  have "acct (c1\<lparr>ld_sa := insts\<rparr>) fl"
    by (rule acct_split [OF a u, where k = "length accs" and w = WLoad])
      (use op qs rt in \<open>simp_all add: c1 cc ca frame_eq_def tokens_def ld_tok_def counters_def\<close>)
  then show ?thesis by (simp add: c1 cc ca)
qed

lemma acct_ld_loop:
  "\<lbrakk>acct (c\<lparr>ld_sa := insts\<rparr>) fl; ld_loop e insts c = Inr c'\<rbrakk> \<Longrightarrow> acct c' fl"
proof (induction insts arbitrary: c)
  case (Cons i insts)
  then obtain c1 where "ld_inst e c i = Inr c1" "ld_loop e insts c1 = Inr c'" by auto
  with Cons acct_ld_inst show ?case by blast
qed simp

lemma acct_ld_queue_cycle: "\<lbrakk>acct c fl; ld_queue_cycle e c = Inr c'\<rbrakk> \<Longrightarrow> acct c' fl"
  using acct_ld_loop [where c = c and insts = "ld_sa c"] by (simp add: ld_queue_cycle_def)

lemma acct_buffer:
  "acct c fl \<Longrightarrow> acct (set_sa_buffer i s c) fl"
  "acct c fl \<Longrightarrow> acct (set_pim_buffer i s c) fl"
  by (rule acct_same, assumption, simp_all add: frame_eq_def same_counters_def tokens_def)+

lemma counters_add_stores [simp]:
  "counters (add_stores e k t) = (remaining_loads t, remaining_computes t, remaining_accum_io t + of_nat k - 1)"
  by (simp add: add_stores_def counters_def)

lemma acct_st_queue_cycle:
  assumes a: "acct c fl" and r: "st_queue_cycle e c = Inr c'"
  shows "acct c' fl"
proof (cases "st_sa c")
  case Nil then show ?thesis using a r by (simp add: st_queue_cycle_def)
next
  case (Cons inst rest)
  obtain buffer b where sb: "sa_buffer inst c = (buffer, b)" by fastforce
  obtain hit buf where ch: "check_hit (core_cycle c) (dest_addr inst) b buffer = (hit, buf)" by fastforce
  let ?c0 = "set_sa_buffer inst buf c"
  have a0: "acct ?c0 fl" by (rule acct_buffer [OF a])
  show ?thesis
  proof (cases "hit \<and> (opcode inst = MOVOUT \<or> opcode inst = MOVOUT_POOL)")
    case False
    then show ?thesis using a0 r Cons sb ch by (simp add: st_queue_cycle_def Let_def split: if_splits)
  next
    case True
    with r Cons sb ch obtain accs ca cc cd where ma: "make_accesses e inst WRITE b SA ?c0 = Inr (accs, ca)"
      and up: "upd_tile (inst_parent inst) (add_stores e (length accs)) ca = Inr cc"
      and pu: "foldE (\<lambda>c a. bindE (push_memory_request1 e a c)
          (\<lambda>c. Inr (c\<lparr>waiting_write_reqs := waiting_write_reqs c + 1\<rparr>))) cc accs = Inr cd"
      and c': "c' = cd\<lparr>st_sa := rest\<rparr>"
      by (auto simp: st_queue_cycle_def Let_def)
    from make_accesses_Inr [OF ma] obtain q where ca: "ca = ?c0\<lparr>c_req := q\<rparr>"
      and accs: "\<forall>a \<in> set accs. ma_parent a = inst_parent inst \<and> req_type a = WRITE" by blast
    from push1_write_loop [OF pu] obtain qs where cd: "cd = cc\<lparr>mem_queues1 := qs, waiting_write_reqs := waiting_write_reqs cc + of_nat (length accs)\<rparr>"
      and qs: "mset (concat qs) = mset (concat (mem_queues1 cc)) + mset accs" by blast
    have rt: "image_mset req_tok (mset accs) = replicate_mset (length accs) (inst_parent inst, WStore)"
      by (rule image_mset_replicate) (use accs in \<open>simp add: req_tok_def\<close>)
    from up obtain n t where n: "inst_parent inst = Some n" "c_heap c n = Some t"
      and cc: "cc = ca\<lparr>c_heap := (c_heap c)(n \<mapsto> add_stores e (length accs) t)\<rparr>"
      by (auto simp: upd_tile_Inr ca)
    have u: "upd_tile (inst_parent inst) (add_stores e (length accs)) ?c0
        = Inr (?c0\<lparr>c_heap := (c_heap c)(n \<mapsto> add_stores e (length accs) t)\<rparr>)"
      using n by (simp add: upd_tile_def lock_tile_def)
    show ?thesis
      by (rule acct_split [OF a0 u, where k = "length accs" and w = WStore])
        (use Cons qs rt in \<open>simp_all add: c' cd cc ca frame_eq_def tokens_def inst_tok_def\<close>)
  qed
qed

lemma acct_pim_st_queue_cycle:
  assumes a: "acct c fl" and r: "pim_st_queue_cycle e c = Inr c'"
  shows "acct c' fl"
proof (cases "st_pim c")
  case Nil then show ?thesis using a r by (simp add: pim_st_queue_cycle_def)
next
  case (Cons inst rest)
  obtain buffer b where sb: "pim_buffer inst c = (buffer, b)" by fastforce
  obtain hit buf where ch: "check_hit (core_cycle c) (dest_addr inst) b buffer = (hit, buf)" by fastforce
  let ?c0 = "set_pim_buffer inst buf c"
  have a0: "acct ?c0 fl" by (rule acct_buffer [OF a])
  show ?thesis
  proof (cases "hit \<and> (opcode inst = MOVOUT \<or> opcode inst = MOVOUT_POOL)")
    case False
    then show ?thesis using a0 r Cons sb ch by (simp add: pim_st_queue_cycle_def Let_def split: if_splits)
  next
    case True
    with r Cons sb ch obtain accs ca cc cd where ma: "make_accesses e inst WRITE b PIM ?c0 = Inr (accs, ca)"
      and up: "upd_tile (inst_parent inst) (add_stores e (length accs)) ca = Inr cc"
      and pu: "foldE (\<lambda>c a. bindE (push_memory_request2 e a c)
          (\<lambda>c. Inr (c\<lparr>waiting_write_reqs := waiting_write_reqs c + 1\<rparr>))) cc accs = Inr cd"
      and c': "c' = cd\<lparr>st_pim := rest\<rparr>"
      by (auto simp: pim_st_queue_cycle_def Let_def)
    from make_accesses_Inr [OF ma] obtain q where ca: "ca = ?c0\<lparr>c_req := q\<rparr>"
      and accs: "\<forall>a \<in> set accs. ma_parent a = inst_parent inst \<and> req_type a = WRITE" by blast
    from push2_write_loop [OF pu] obtain qs where cd: "cd = cc\<lparr>mem_queues2 := qs, waiting_write_reqs := waiting_write_reqs cc + of_nat (length accs)\<rparr>"
      and qs: "mset (concat qs) = mset (concat (mem_queues2 cc)) + mset accs" by blast
    have rt: "image_mset req_tok (mset accs) = replicate_mset (length accs) (inst_parent inst, WStore)"
      by (rule image_mset_replicate) (use accs in \<open>simp add: req_tok_def\<close>)
    from up obtain n t where n: "inst_parent inst = Some n" "c_heap c n = Some t"
      and cc: "cc = ca\<lparr>c_heap := (c_heap c)(n \<mapsto> add_stores e (length accs) t)\<rparr>"
      by (auto simp: upd_tile_Inr ca)
    have u: "upd_tile (inst_parent inst) (add_stores e (length accs)) ?c0
        = Inr (?c0\<lparr>c_heap := (c_heap c)(n \<mapsto> add_stores e (length accs) t)\<rparr>)"
      using n by (simp add: upd_tile_def lock_tile_def)
    show ?thesis
      by (rule acct_split [OF a0 u, where k = "length accs" and w = WStore])
        (use Cons qs rt in \<open>simp_all add: c' cd cc ca frame_eq_def tokens_def inst_tok_def\<close>)
  qed
qed

lemma acct_pim_ld_inst:
  assumes a: "acct (c\<lparr>ld_pim := inst # insts\<rparr>) fl" and r: "pim_ld_inst e c inst = Inr c1"
  shows "acct (c1\<lparr>ld_pim := insts\<rparr>) fl"
proof -
  obtain buffer b where sb: "pim_buffer inst c = (buffer, b)" by fastforce
  from r sb obtain req q ca where op: "is_pim_opcode (opcode inst)"
    and tr: "TransToMemoryAccess inst (dram_req_size (e_cfg e)) (c_id c) (core_cycle c) b PIM (c_req c) = Inr (req, q)"
    and ca: "ca = c\<lparr>c_req := q\<rparr> \<or> (\<exists>s. ca = set_pim_buffer inst s (c\<lparr>c_req := q\<rparr>))"
    and pu: "push_memory_request2 e req ca = Inr c1"
    by (auto simp: pim_ld_inst_def Let_def split: if_splits)
  have rq: "req_tok req = ld_tok inst"
    using tr op by (cases "opcode inst")
      (auto simp: TransToMemoryAccess_def req_tok_def ld_tok_def access_type_def is_pim_opcode_def split: prod.splits)
  from pu obtain qs where c1: "c1 = ca\<lparr>mem_queues2 := qs\<rparr>"
    and qs: "mset (concat qs) = mset (concat (mem_queues2 ca)) + {#req#}"
    using push_queue_mset by (fastforce simp: push_memory_request2_def)
  show ?thesis
    by (rule acct_same [OF a]) (use ca qs rq in \<open>auto simp: c1 frame_eq_def same_counters_def tokens_def\<close>)
qed

lemma acct_pim_ld_queue_cycle:
  assumes "acct c fl" "pim_ld_queue_cycle e c = Inr c'"
  shows "acct c' fl"
proof -
  have "\<lbrakk>acct (c\<lparr>ld_pim := insts\<rparr>) fl; pim_ld_loop e insts c = Inr c'\<rbrakk> \<Longrightarrow> acct c' fl" for insts c
  proof (induction insts arbitrary: c)
    case (Cons i insts)
    then obtain c1 where "pim_ld_inst e c i = Inr c1" "pim_ld_loop e insts c1 = Inr c'" by auto
    with Cons acct_pim_ld_inst show ?case by blast
  qed simp
  from this [of "ld_pim c" c] show ?thesis using assms by (simp add: pim_ld_queue_cycle_def)
qed

subsection \<open>Issue to the pipelines\<close>

text \<open>Nothing that \<open>acct\<close> looks at changes.\<close>

definition quiet :: "core \<Rightarrow> core \<Rightarrow> bool" where
  "quiet c c' \<longleftrightarrow> frame_eq c c' \<and> same_counters c c' \<and> ex_sa c' = ex_sa c \<and> ex_pim c' = ex_pim c \<and>
     (\<forall>fl. tokens c' fl = tokens c fl)"

lemma quiet_refl [simp]: "quiet c c"
  by (simp add: quiet_def)

lemma quiet_trans [trans]: "quiet c c1 \<Longrightarrow> quiet c1 c2 \<Longrightarrow> quiet c c2"
  by (simp add: quiet_def frame_eq_def same_counters_def)

lemma acct_quiet: "\<lbrakk>acct c fl; quiet c c'\<rbrakk> \<Longrightarrow> acct c' fl"
  by (rule acct_same) (auto simp: quiet_def)

lemma quiet_upd_tile: "\<lbrakk>upd_tile p f c = Inr c'; \<And>t. counters (f t) = counters t\<rbrakk> \<Longrightarrow> quiet c c'"
  using upd_tile_same by (simp add: quiet_def)

lemma quiet_fields:
  "quiet c (c\<lparr>acc_spad := s\<rparr>)" "quiet c (c\<lparr>pim_acc_spad := s\<rparr>)" "quiet c (c\<lparr>spad := s, acc_spad := s'\<rparr>)"
  "quiet c (c\<lparr>pim_spad := s, pim_acc_spad := s'\<rparr>)"
  "quiet c (c\<lparr>systolic_preload_issue_count := k\<rparr>)" "quiet c (c\<lparr>c_stat := z\<rparr>)"
  "quiet c (c\<lparr>spad := s\<rparr>)" "quiet c (c\<lparr>pim_spad := s\<rparr>)"
  by (simp_all add: quiet_def frame_eq_def same_counters_def tokens_def)

text \<open>An instruction enters a pipeline.\<close>

definition enters_pipe :: "Instruction \<Rightarrow> core \<Rightarrow> core \<Rightarrow> bool" where
  "enters_pipe inst c c' \<longleftrightarrow> frame_eq c c' \<and> same_counters c c' \<and> ex_sa c' = ex_sa c \<and> ex_pim c' = ex_pim c \<and>
     (\<forall>fl. tokens c' fl = tokens c fl + {#(inst_parent inst, WComp)#})"

lemma quiet_enters: "quiet c c1 \<Longrightarrow> enters_pipe i c1 c2 \<Longrightarrow> enters_pipe i c c2"
  by (simp add: quiet_def enters_pipe_def frame_eq_def same_counters_def)

lemma enters_quiet: "enters_pipe i c c1 \<Longrightarrow> quiet c1 c2 \<Longrightarrow> enters_pipe i c c2"
  by (simp add: quiet_def enters_pipe_def frame_eq_def same_counters_def)

lemma issue_gemm_enters:
  assumes "issue_gemm cfg inst c = Inr c'"
  shows "enters_pipe inst c c'"
proof -
  let ?pre = "\<lambda>c1. if opcode inst = GEMM_PRELOAD
      then c1\<lparr>systolic_preload_issue_count := systolic_preload_issue_count c1 + 1\<rparr> else c1"
  from assms obtain c1 c3 start f where
    u: "upd_tile (inst_parent inst) (\<lambda>t. t\<lparr>tl_stat := (tl_stat t)\<lparr>ts_num_calculation :=
       ts_num_calculation (tl_stat t) + ucast (tile_m inst * tile_n inst * tile_k inst)\<rparr>\<rparr>) c = Inr c1"
    and c3: "c3 = ?pre c1 \<or> upd_tile (inst_parent inst) (\<lambda>t. t\<lparr>tl_stat := (tl_stat t)\<lparr>ts_weight_load_cycles :=
       ts_weight_load_cycles (tl_stat t) + ucast (core_height cfg)\<rparr>\<rparr>) (?pre c1) = Inr c3"
    and c': "c' = c3\<lparr>compute_pipeline := compute_pipeline c3 @
       [inst\<lparr>start_cycle := start, finish_cycle := start + f\<rparr>], systolic_inst_issue_count := systolic_inst_issue_count c3 + 1\<rparr>"
    unfolding issue_gemm_def Let_def by (fastforce split: if_splits)
  have "quiet c c1" by (rule quiet_upd_tile [OF u]) (simp add: counters_def)
  also have "quiet c1 (?pre c1)" by (simp add: quiet_fields)
  also have "quiet (?pre c1) c3"
    using c3 quiet_upd_tile [of "inst_parent inst" _ "?pre c1" c3] by (auto simp: counters_def)
  finally have "quiet c c3" .
  moreover have "enters_pipe inst c3 c'"
    by (simp add: enters_pipe_def frame_eq_def same_counters_def tokens_def c' inst_tok_def)
  ultimately show ?thesis by (rule quiet_enters)
qed

lemma vpu_loop_index:
  "vpu_loop now i qs r = (Some k, t) \<Longrightarrow> fst r = Some k \<or> (i \<le> k \<and> k < i + length qs)"
proof (induction now i qs r rule: vpu_loop.induct)
  case (2 now i q qs lf fin)
  then show ?case by (auto split: if_splits)
qed simp

lemma issue_vector_enters:
  assumes "issue_vector cfg inst c = Inr c'"
  shows "enters_pipe inst c c'"
proof -
  from assms obtain k st cy where v: "vpu_loop (core_cycle c) 0 (vector_pipelines c) (None, - 1) = (Some k, st)"
    and c': "c' = c\<lparr>vector_pipelines := (vector_pipelines c)[k := vector_pipelines c ! k @
       [inst\<lparr>start_cycle := st, finish_cycle := st + cy\<rparr>]]\<rparr>"
    by (auto simp: issue_vector_def split: prod.splits option.splits)
  have k: "k < length (vector_pipelines c)" using vpu_loop_index [OF v] by simp
  have "mset (concat (vector_pipelines c')) = mset (concat (vector_pipelines c)) + {#inst\<lparr>start_cycle := st, finish_cycle := st + cy\<rparr>#}"
    using mset_concat_update [OF k, of "vector_pipelines c ! k @ [inst\<lparr>start_cycle := st, finish_cycle := st + cy\<rparr>]"]
    by (simp add: c')
  then show ?thesis
    by (simp add: enters_pipe_def frame_eq_def same_counters_def tokens_def inst_tok_def) (simp add: c')
qed

lemma issue_ex_inst_enters:
  assumes "supported inst" "issue_ex_inst e inst c = Inr c' \<or> pim_issue_ex_inst e inst c = Inr c'"
  shows "enters_pipe inst c c'"
proof -
  from assms(2) show ?thesis
  proof
    assume "issue_ex_inst e inst c = Inr c'"
    then obtain c1 s where i: "(if is_gemm (opcode inst) then issue_gemm (e_cfg e) inst c
            else if is_vector (opcode inst) then issue_vector (e_cfg e) inst c else Inr c) = Inr c1"
      and c': "c' = c1\<lparr>acc_spad := s\<rparr>" unfolding issue_ex_inst_def bindE_Inr by blast
    have "enters_pipe inst c c1"
      using i assms(1) issue_gemm_enters issue_vector_enters by (metis supported_def)
    then show ?thesis unfolding c' by (rule enters_quiet [OF _ quiet_fields(1)])
  next
    assume "pim_issue_ex_inst e inst c = Inr c'"
    then obtain c1 s where i: "(if is_gemm (opcode inst) then Inl AssertFailed
            else if is_vector (opcode inst) then issue_vector (e_cfg e) inst c else Inr c) = Inr c1"
      and c': "c' = c1\<lparr>pim_acc_spad := s\<rparr>" unfolding pim_issue_ex_inst_def bindE_Inr by blast
    have "issue_vector (e_cfg e) inst c = Inr c1" using i assms(1) by (auto simp: supported_def split: if_splits)
    then have "enters_pipe inst c c1" by (rule issue_vector_enters)
    then show ?thesis unfolding c' by (rule enters_quiet [OF _ quiet_fields(2)])
  qed
qed

lemma acct_enters:
  assumes a: "acct c fl" and e: "enters_pipe inst c0 c'"
    and c0: "c0 = c\<lparr>ex_sa := rest\<rparr> \<and> ex_sa c = inst # rest \<or> c0 = c\<lparr>ex_pim := rest\<rparr> \<and> ex_pim c = inst # rest"
  shows "acct c' fl"
proof (rule acct_same [OF a])
  show "frame_eq c c'" "same_counters c c'"
    using e c0 by (auto simp: enters_pipe_def frame_eq_def same_counters_def)
  have "tokens c0 fl + {#(inst_parent inst, WComp)#} = tokens c fl"
    using c0 by (auto simp: tokens_def inst_tok_def)
  then show "tokens c' fl = tokens c fl" using e by (simp add: enters_pipe_def)
  show "set (ex_sa c') \<union> set (ex_pim c') \<subseteq> set (ex_sa c) \<union> set (ex_pim c)"
    using e c0 by (auto simp: enters_pipe_def)
qed

lemma acct_ex_queue_cycle:
  assumes a: "acct c fl" and r: "ex_queue_cycle e c = Inr c'"
  shows "acct c' fl"
proof (cases "ex_sa c")
  case Nil then show ?thesis using a r by (simp add: ex_queue_cycle_def)
next
  case (Cons inst rest)
  obtain ready c1 where ci: "can_issue_compute inst c = (ready, c1)" by fastforce
  then obtain s s' where c1: "c1 = c\<lparr>spad := s, acc_spad := s'\<rparr>"
    by (auto simp: can_issue_compute_def split: prod.splits)
  have q: "acct c1 fl" unfolding c1 by (rule acct_quiet [OF a quiet_fields(3)])
  have sup: "supported inst" using a Cons by (auto simp: acct_def)
  show ?thesis
  proof (cases ready)
    case True
    then have "issue_ex_inst e inst (c1\<lparr>ex_sa := rest\<rparr>) = Inr c'"
      using r Cons ci sup by (simp add: ex_queue_cycle_def supported_def)
    then have "enters_pipe inst (c1\<lparr>ex_sa := rest\<rparr>) c'" using issue_ex_inst_enters [OF sup] by blast
    then show ?thesis by (rule acct_enters [where rest = rest, OF q]) (simp add: c1 Cons)
  next
    case False then show ?thesis using r Cons ci q by (simp add: ex_queue_cycle_def)
  qed
qed

lemma acct_pim_ex_queue_cycle:
  assumes a: "acct c fl" and r: "pim_ex_queue_cycle e c = Inr c'"
  shows "acct c' fl"
proof (cases "ex_pim c")
  case Nil then show ?thesis using a r by (simp add: pim_ex_queue_cycle_def)
next
  case (Cons inst rest)
  obtain ready c1 where ci: "pim_can_issue_compute inst c = (ready, c1)" by fastforce
  then obtain s s' where c1: "c1 = c\<lparr>pim_spad := s, pim_acc_spad := s'\<rparr>"
    by (auto simp: pim_can_issue_compute_def split: prod.splits)
  have q: "acct c1 fl" unfolding c1 by (rule acct_quiet [OF a quiet_fields(4)])
  have sup: "supported inst" using a Cons by (auto simp: acct_def)
  show ?thesis
  proof (cases ready)
    case True
    then have "pim_issue_ex_inst e inst (c1\<lparr>ex_pim := rest\<rparr>) = Inr c'"
      using r Cons ci sup by (simp add: pim_ex_queue_cycle_def supported_def)
    then have "enters_pipe inst (c1\<lparr>ex_pim := rest\<rparr>) c'" using issue_ex_inst_enters [OF sup] by blast
    then show ?thesis by (rule acct_enters [where rest = rest, OF q]) (simp add: c1 Cons)
  next
    case False then show ?thesis using r Cons ci q by (simp add: pim_ex_queue_cycle_def)
  qed
qed

subsection \<open>Statistics and retirement\<close>

lemma quiet_foldE:
  assumes "foldE f c xs = Inr c'" "\<And>c x c'. f c x = Inr c' \<Longrightarrow> quiet c c'"
  shows "quiet c c'"
  by (rule foldE_invariant [where I = "quiet c", OF assms(1)]) (auto intro: quiet_trans assms(2))

lemma quiet_count_busy: "count_busy k inst c = Inr c' \<Longrightarrow> quiet c c'"
proof -
  assume "count_busy k inst c = Inr c'"
  then obtain c1 z where u: "upd_tile (inst_parent inst) (\<lambda>t. t\<lparr>tl_stat := (tl_stat t)\<lparr>ts_compute_cycles :=
      ts_compute_cycles (tl_stat t) + 1\<rparr>\<rparr>) c = Inr c1" and c': "c' = c1\<lparr>c_stat := z\<rparr>"
    by (auto simp: count_busy_def split: if_splits)
  have "quiet c c1" by (rule quiet_upd_tile [OF u]) (simp add: counters_def)
  also have "quiet c1 c'" unfolding c' by (rule quiet_fields)
  finally show ?thesis .
qed

lemma quiet_stats:
  "quiet c (stall_stat opc c)" "quiet c (vector_stat opc c)"
  "quiet c (c\<lparr>stat_memory_cycle := k\<rparr>)" "quiet c (c\<lparr>store_memory_cycle := k\<rparr>)" "quiet c (c\<lparr>load_memory_cycle := k\<rparr>)"
  "quiet c (c\<lparr>stat_matmul_cycle := k\<rparr>)" "quiet c (c\<lparr>stat_idle_cycle := k\<rparr>)" "quiet c (c\<lparr>core_cycle := k\<rparr>)"
  by (cases opc; simp add: stall_stat_def vector_stat_def quiet_def frame_eq_def same_counters_def tokens_def)+

lemma quiet_fold: "(\<And>x c. quiet c (f x c)) \<Longrightarrow> quiet c (fold f xs c)"
  by (induction xs arbitrary: c) (auto intro: quiet_trans)

lemma quiet_update_stats: "update_stats e c = Inr c' \<Longrightarrow> quiet c c'"
proof -
  assume "update_stats e c = Inr c'"
  then obtain c1 c2 where
    1: "(case compute_pipeline c of [] \<Rightarrow> Inr c | inst # _ \<Rightarrow> count_busy (128 * 8 * 2) inst c) = Inr c1"
    and 2: "foldE (\<lambda>c q. case q of [] \<Rightarrow> Inr c | inst # _ \<Rightarrow> count_busy 16 inst c) c1 (vector_pipelines c1) = Inr c2"
    and 3: "(let is_idle = (compute_pipeline c2 = [] \<and> list_all (\<lambda>q. q = []) (vector_pipelines c2));
           c = (if is_idle then
                  let c = c2\<lparr>stat_memory_cycle := stat_memory_cycle c2 + 1\<rparr>
                  in (case ex_sa c of
                        [] \<Rightarrow> c\<lparr>store_memory_cycle := store_memory_cycle c + 1\<rparr>
                      | inst # _ \<Rightarrow> stall_stat (opcode inst) (c\<lparr>load_memory_cycle := load_memory_cycle c + 1\<rparr>))
                else if compute_pipeline c2 \<noteq> [] then c2\<lparr>stat_matmul_cycle := stat_matmul_cycle c2 + 1\<rparr>
                else fold (\<lambda>q c. vector_stat (case q of [] \<Rightarrow> e_stale_opcode e | inst # _ \<Rightarrow> opcode inst) c)
                       (vector_pipelines c2) c2)
       in if \<not> core_running c then c\<lparr>stat_idle_cycle := stat_idle_cycle c + 1\<rparr> else c) = c'"
    by (auto simp: update_stats_def Let_def)
  have "quiet c c1" using 1 by (auto split: list.splits dest: quiet_count_busy)
  also have "quiet c1 c2"
    by (rule quiet_foldE [OF 2]) (auto split: list.splits dest: quiet_count_busy)
  also have "quiet c2 c'"
    unfolding 3 [symmetric] Let_def
    by (auto split: list.split intro!: quiet_fold quiet_stats intro: quiet_trans [OF _ quiet_stats(7)]
        quiet_trans [OF quiet_stats(3)] quiet_trans [OF quiet_stats(5)])
  finally show ?thesis .
qed

lemma retire_spec:
  assumes "retire ns c = (keep, c')" "distinct ns" "\<forall>n \<in> set ns. c_heap c n \<noteq> None"
  shows "keep = filter (\<lambda>n. \<not> tile_done (tile_of c n)) ns \<and>
    c_finished_tiles c' = c_finished_tiles c @ filter (\<lambda>n. tile_done (tile_of c n)) ns \<and>
    same_counters c c' \<and> (\<forall>fl. tokens c' fl = tokens c fl) \<and> c_tiles c' = c_tiles c \<and> c_pim_tiles c' = c_pim_tiles c \<and>
    c_next_tile c' = c_next_tile c \<and> ex_sa c' = ex_sa c \<and> ex_pim c' = ex_pim c"
  using assms
proof (induction ns arbitrary: c keep)
  case Nil then show ?case by simp
next
  case (Cons n ns)
  show ?case
  proof (cases "tile_done (tile_of c n)")
    case True
    let ?c1 = "c\<lparr>c_heap := (c_heap c)(n \<mapsto> (tile_of c n)\<lparr>tl_status := FINISH\<rparr>),
      c_finished_tiles := c_finished_tiles c @ [n]\<rparr>"
    from Cons.prems(1) True have r: "retire ns ?c1 = (keep, c')" by (simp add: Let_def)
    have t: "tile_of ?c1 m = tile_of c m" if "m \<in> set ns" for m
      using that Cons.prems(2) by (auto simp: tile_of_def)
    have f: "filter (\<lambda>m. tile_done (tile_of ?c1 m)) ns = filter (\<lambda>m. tile_done (tile_of c m)) ns"
      "filter (\<lambda>m. \<not> tile_done (tile_of ?c1 m)) ns = filter (\<lambda>m. \<not> tile_done (tile_of c m)) ns"
      by (rule filter_cong, simp_all add: t)+
    obtain tn where tn: "c_heap c n = Some tn" using Cons.prems(3) by auto
    have s: "same_counters c ?c1"
      using tn by (auto simp: same_counters_def tile_of_def counters_def)
    have tk: "tokens ?c1 fl = tokens c fl" for fl by (simp add: tokens_def)
    have "\<forall>m \<in> set ns. c_heap ?c1 m \<noteq> None" using Cons.prems(3) by auto
    from Cons.IH [OF r _ this] Cons.prems(2) s True show ?thesis
      unfolding f by (auto simp: tk same_counters_def)
  next
    case False
    from Cons.prems(1) False obtain k where r: "retire ns c = (k, c')" and keep: "keep = n # k"
      by (auto simp: Let_def split: prod.splits)
    from Cons.IH [OF r] Cons.prems(2,3) False keep show ?thesis by auto
  qed
qed

lemma tokens_retire: "retire ns c = (keep, c') \<Longrightarrow> tokens c' fl = tokens c fl"
proof (induction ns c arbitrary: keep rule: retire.induct)
  case (2 n ns c)
  show ?case
  proof (cases "tile_done (tile_of c n)")
    case True
    with "2.prems" "2.IH"(1) [OF refl True] show ?thesis by (auto simp: Let_def tokens_def)
  next
    case False
    with "2.prems" "2.IH"(2) [OF refl False] show ?thesis by (auto simp: Let_def split: prod.splits)
  qed
qed simp

lemma tokens_core_cycle_step: "tokens (core_cycle_step c) fl = tokens c fl"
proof -
  let ?c0 = "c\<lparr>core_cycle := core_cycle c + 1\<rparr>"
  obtain ts c1 where r1: "retire (c_tiles ?c0) ?c0 = (ts, c1)" by fastforce
  obtain us c2 where r2: "retire (c_pim_tiles (c1\<lparr>c_tiles := ts\<rparr>)) (c1\<lparr>c_tiles := ts\<rparr>) = (us, c2)" by fastforce
  have "core_cycle_step c = c2\<lparr>c_pim_tiles := us\<rparr>" using r1 r2 by (simp add: core_cycle_step_def Let_def)
  then have "tokens (core_cycle_step c) fl = tokens c2 fl" by (simp add: tokens_def)
  also have "\<dots> = tokens (c1\<lparr>c_tiles := ts\<rparr>) fl" by (rule tokens_retire [OF r2])
  also have "\<dots> = tokens c1 fl" by (simp add: tokens_def)
  also have "\<dots> = tokens ?c0 fl" by (rule tokens_retire [OF r1])
  finally show ?thesis by (simp add: tokens_def)
qed

lemma due_zero:
  assumes "due T n = (0, 0, 0)" "size T < 2 ^ 32" "w \<noteq> WHeader"
  shows "count T (Some n, w) = 0"
proof -
  have z: "k = 0" if "(of_nat k :: u32) = 0" "k < 2 ^ 32" for k
    using that by (cases "k = 0") (auto simp: word_of_nat_eq_0_iff dest: dvd_imp_le)
  have le: "count T x < 2 ^ 32" for x using count_le_size [of T x] assms(2) by linarith
  have "count T (Some n, WLoad) = 0" "count T (Some n, WComp) = 0"
    using assms(1) le by (auto simp: due_def intro: z)
  moreover have "count T (Some n, WStore) = 0"
    using assms(1) le by (auto simp: due_def intro: z)
  ultimately show ?thesis using assms(3) by (cases w) simp_all
qed

text \<open>Tiles with nothing in flight leave the set of live tiles.\<close>

lemma acct_leave:
  assumes a: "acct c fl" and sz: "size (tokens c fl) < 2 ^ 32"
    and s: "same_counters c c'" "tokens c' fl = tokens c fl" "c_next_tile c' = c_next_tile c"
      "ex_sa c' = ex_sa c" "ex_pim c' = ex_pim c"
    and l: "live_tiles c' = live_tiles c - set ds" "\<forall>n \<in> set ds. tile_done (tile_of c n)" "set ds \<subseteq> live_tiles c"
    and d: "distinct (c_tiles c' @ c_pim_tiles c' @ c_finished_tiles c')" "c_finished_tiles c' = c_finished_tiles c @ ds"
  shows "acct c' fl"
proof -
  have z: "count (tokens c fl) (Some n, w) = 0" if "n \<in> set ds" "w \<noteq> WHeader" for n w
  proof (rule due_zero [OF _ sz that(2)])
    have "n \<in> live_tiles c" using l(3) that(1) by auto
    then obtain t where t: "c_heap c n = Some t" "counters t = due (tokens c fl) n" using a unfolding acct_def by auto
    then show "due (tokens c fl) n = (0, 0, 0)" using l(2) that(1)
      by (auto simp: tile_done_def tile_of_def counters_def)
  qed
  have h: "map_option counters (c_heap c' n) = map_option counters (c_heap c n)" for n
    using s(1) by (simp add: same_counters_def)
  have p1: "\<forall>n \<in> live_tiles c'. map_option counters (c_heap c' n) = Some (due (tokens c' fl) n)"
    using a l(1) unfolding acct_def h s(2) by auto
  have p2: "count (tokens c' fl) (p, w) = 0" if "w \<noteq> WHeader" "p \<notin> Some ` live_tiles c'" for p w
  proof (cases "p \<in> Some ` live_tiles c")
    case True
    with that(2) l(1) have "\<exists>n. p = Some n \<and> n \<in> set ds" by auto
    then show ?thesis using z that(1) s(2) by auto
  next
    case False then show ?thesis using a that(1) s(2) unfolding acct_def by simp
  qed
  have p3: "\<forall>n \<in> live_tiles c' \<union> set (c_finished_tiles c'). n < c_next_tile c'"
    using a l(1,3) d(2) s(3) unfolding acct_def by auto
  have p5: "c_heap c' n \<noteq> None" if "n \<in> set (c_finished_tiles c')" for n
  proof -
    have "c_heap c n \<noteq> None" using that a l(3) unfolding acct_def d(2) by auto
    then show ?thesis using h [of n] by auto
  qed
  show ?thesis unfolding acct_def using p1 p2 p3 p5 d(1) a s(4,5) by (auto simp: acct_def)
qed

lemma acct_retire_tiles:
  assumes a: "acct c fl" and sz: "size (tokens c fl) < 2 ^ 32" and r: "retire (c_tiles c) c = (ts, c1)"
  shows "acct (c1\<lparr>c_tiles := ts\<rparr>) fl \<and> tokens (c1\<lparr>c_tiles := ts\<rparr>) fl = tokens c fl"
proof -
  have dist: "distinct (c_tiles c)" and h: "\<forall>n \<in> set (c_tiles c). c_heap c n \<noteq> None"
    using a by (auto simp: acct_def live_tiles_def)
  note sp = retire_spec [OF r dist h]
  have tk: "tokens (c1\<lparr>c_tiles := ts\<rparr>) fl = tokens c1 fl" by (simp add: tokens_def)
  have "acct (c1\<lparr>c_tiles := ts\<rparr>) fl"
    by (rule acct_leave [OF a sz, where ds = "filter (\<lambda>n. tile_done (tile_of c n)) (c_tiles c)"])
      (use sp a tk in \<open>auto simp: same_counters_def live_tiles_def acct_def\<close>)
  moreover have "tokens (c1\<lparr>c_tiles := ts\<rparr>) fl = tokens c1 fl" by (simp add: tokens_def)
  moreover have "tokens c1 fl = tokens c fl" using sp by blast
  ultimately show ?thesis by simp
qed

lemma acct_retire_pim_tiles:
  assumes a: "acct c fl" and sz: "size (tokens c fl) < 2 ^ 32" and r: "retire (c_pim_tiles c) c = (ts, c1)"
  shows "acct (c1\<lparr>c_pim_tiles := ts\<rparr>) fl"
proof -
  have dist: "distinct (c_pim_tiles c)" and h: "\<forall>n \<in> set (c_pim_tiles c). c_heap c n \<noteq> None"
    using a by (auto simp: acct_def live_tiles_def)
  note sp = retire_spec [OF r dist h]
  have tk: "tokens (c1\<lparr>c_pim_tiles := ts\<rparr>) fl = tokens c1 fl" by (simp add: tokens_def)
  show ?thesis
    by (rule acct_leave [OF a sz, where ds = "filter (\<lambda>n. tile_done (tile_of c n)) (c_pim_tiles c)"])
      (use sp a tk in \<open>auto simp: same_counters_def live_tiles_def acct_def\<close>)
qed

lemma acct_core_cycle_step:
  assumes a: "acct c fl" and sz: "size (tokens c fl) < 2 ^ 32"
  shows "acct (core_cycle_step c) fl"
proof -
  let ?c0 = "c\<lparr>core_cycle := core_cycle c + 1\<rparr>"
  have q: "quiet c ?c0" by (rule quiet_stats)
  have a0: "acct ?c0 fl" by (rule acct_quiet [OF a q])
  have sz0: "size (tokens ?c0 fl) < 2 ^ 32" using sz q by (simp add: quiet_def)
  obtain ts c1 where r1: "retire (c_tiles ?c0) ?c0 = (ts, c1)" by fastforce
  from acct_retire_tiles [OF a0 sz0 r1] have a1: "acct (c1\<lparr>c_tiles := ts\<rparr>) fl"
    and sz1: "size (tokens (c1\<lparr>c_tiles := ts\<rparr>) fl) < 2 ^ 32" using sz0 by auto
  obtain us c2 where r2: "retire (c_pim_tiles (c1\<lparr>c_tiles := ts\<rparr>)) (c1\<lparr>c_tiles := ts\<rparr>) = (us, c2)" by fastforce
  have "core_cycle_step c = c2\<lparr>c_pim_tiles := us\<rparr>"
    using r1 r2 by (simp add: core_cycle_step_def Let_def)
  then show ?thesis using acct_retire_pim_tiles [OF a1 sz1 r2] by simp
qed

lemma acct_update_stats: "\<lbrakk>acct c fl; update_stats e c = Inr c'\<rbrakk> \<Longrightarrow> acct c' fl"
  using quiet_update_stats acct_quiet by blast

lemmas acct_cycle_parts = acct_systolic_cycle acct_vector_unit_cycle acct_ld_queue_cycle acct_st_queue_cycle
  acct_ex_queue_cycle acct_pim_ld_queue_cycle acct_pim_st_queue_cycle acct_pim_ex_queue_cycle acct_update_stats

lemma acct_NeuPIMSystolicWS_cycle:
  assumes "acct c fl" "NeuPIMSystolicWS_cycle e c = Inr c'" "size (tokens c' fl) < 2 ^ 32"
  shows "acct c' fl"
proof -
  let ?c0 = "if ns_start_cycle (last (c_stat c)) + 1000 < core_cycle c
    then c\<lparr>c_stat := c_stat c @ [\<lparr>ns_start_cycle = core_cycle c, ns_num_calculations = 0\<rparr>]\<rparr> else c"
  have q: "quiet c ?c0" by (simp add: quiet_fields)
  have ne: "c_stat c \<noteq> []" using assms(2) by (rule_tac notI) (simp add: NeuPIMSystolicWS_cycle_def)
  let ?parts = "[systolic_cycle, vector_unit_cycle, ld_queue_cycle e, st_queue_cycle e, ex_queue_cycle e,
    pim_ld_queue_cycle e, pim_st_queue_cycle e, pim_ex_queue_cycle e, update_stats e]"
  from assms(2) [unfolded NeuPIMSystolicWS_cycle_def Let_def if_not_P [OF ne] bindE_Inr]
  obtain c9 where r: "foldE (\<lambda>c part. part c) ?c0 ?parts = Inr c9" and c': "c' = core_cycle_step c9" by blast
  have "acct c9 fl"
  proof (rule foldE_invariant [where I = "\<lambda>c. acct c fl", OF r])
    show "acct ?c0 fl" by (rule acct_quiet [OF assms(1) q])
  next
    fix x y part
    assume x: "acct x fl" and p: "part \<in> set ?parts" and y: "part x = Inr y"
    from p consider "part = systolic_cycle" | "part = vector_unit_cycle" | "part = ld_queue_cycle e"
      | "part = st_queue_cycle e" | "part = ex_queue_cycle e" | "part = pim_ld_queue_cycle e"
      | "part = pim_st_queue_cycle e" | "part = pim_ex_queue_cycle e" | "part = update_stats e"
      by auto
    then show "acct y fl"
      using x y by cases (auto intro: acct_cycle_parts)
  qed
  then show ?thesis
    using acct_core_cycle_step assms(3) c' by (simp add: tokens_core_cycle_step)
qed

subsection \<open>Requests and responses\<close>

lemma tokens_remove1:
  "m \<in> set fl \<Longrightarrow> tokens c fl = tokens c (remove1 m fl) + {#req_tok m#}"
  by (simp add: tokens_def) (simp flip: image_mset_add_mset)

lemma response_fill_quiet: "response_fill pim m c = Inr c' \<Longrightarrow> quiet c c'"
  by (auto simp only: response_fill_def bindE_Inr sum.inject quiet_refl intro: quiet_fields split: if_splits)

lemma acct_push_memory_response:
  assumes a: "acct c fl" and m: "m \<in> set fl" "req_type m \<noteq> P_HEADER"
    and m': "ma_parent m' = ma_parent m" "req_type m' = req_type m"
    and r: "push_memory_response m' c = Inr c'"
  shows "acct c' (remove1 m fl)"
proof -
  let ?f = "\<lambda>t. if req_type m = WRITE then t\<lparr>remaining_accum_io := remaining_accum_io t - 1\<rparr>
    else t\<lparr>remaining_loads := remaining_loads t - 1\<rparr>"
  have "\<exists>c1. upd_tile (ma_parent m) ?f c = Inr c1 \<and> ((\<exists>k. c' = c1\<lparr>waiting_write_reqs := k\<rparr>) \<or> quiet c1 c')"
    using r m' response_fill_quiet unfolding push_memory_response_def
    by (cases "req_type m = WRITE") auto
  then obtain c1 where u: "upd_tile (ma_parent m) ?f c = Inr c1" and
    "(\<exists>k. c' = c1\<lparr>waiting_write_reqs := k\<rparr>) \<or> quiet c1 c'" by blast
  moreover have "quiet c1 (c1\<lparr>waiting_write_reqs := k\<rparr>)" for k
    by (simp add: quiet_def frame_eq_def same_counters_def tokens_def)
  ultimately have q: "quiet c1 c'" by blast
  from u obtain n t where p: "ma_parent m = Some n" "c_heap c n = Some t" and c1: "c1 = c\<lparr>c_heap := (c_heap c)(n \<mapsto> ?f t)\<rparr>"
    by (auto simp: upd_tile_Inr)
  have tk: "tokens c' (remove1 m fl) + {#req_tok m#} = tokens c fl + {#}"
  proof -
    have "tokens c1 fl' = tokens c fl'" for fl' by (simp add: c1 tokens_def)
    then show ?thesis using q tokens_remove1 [OF m(1), of c] by (simp add: quiet_def)
  qed
  then have "req_tok m \<in># tokens c fl" by (metis add.right_neutral union_single_eq_member add_mset_add_single)
  then have "\<exists>n \<in> live_tiles c. ma_parent m = Some n"
    using acct_token_live [OF a, of "ma_parent m"] m(2) by (auto simp: req_tok_def split: if_splits)
  then have n: "n \<in> live_tiles c" using p by auto
  show ?thesis
    by (rule acct_move [OF a _ n p(2) _ _ tk, where t' = "?f t"])
      (use q c1 p m(2) in \<open>auto simp: quiet_def same_counters_def frame_eq_def req_tok_def counters_def\<close>)
qed

lemma acct_pop_memory_request:
  assumes a: "acct c fl" and r: "pop_memory_request1 i c = Inr (m, c') \<or> pop_memory_request2 i c = Inr (m, c')"
  shows "acct c' (m # fl)"
proof -
  have q: "mset (concat qs) = mset (concat qs') + {#m#}" if "pop_queue i qs = Inr (m, qs')" for qs qs'
  proof -
    from that obtain xs where "i < length qs" "qs ! i = m # xs" "qs' = qs[i := xs]"
      by (auto simp: pop_queue_def split: list.splits)
    then show ?thesis using mset_concat_update [of i qs xs] by simp
  qed
  have "frame_eq c c' \<and> same_counters c c' \<and> tokens c' (m # fl) = tokens c fl \<and> ex_sa c' = ex_sa c \<and> ex_pim c' = ex_pim c"
    using r q by (auto simp: pop_memory_request1_def pop_memory_request2_def frame_eq_def same_counters_def tokens_def)
  then show ?thesis by (intro acct_same [OF a]) auto
qed

subsection \<open>Issue and retirement of tiles\<close>

definition tile_ok :: "Tile \<Rightarrow> bool" where
  "tile_ok t \<longleftrightarrow> list_all (\<lambda>i. inst_valid i \<and> opcode i \<notin> {GEMM_WRITE, BAR, OPCODE_SIZE}) (tl_instructions t)"

lemma acct_new_tile:
  assumes a: "acct c fl" and n: "n = c_next_tile c" and t: "counters t = (0, 0, 0)"
    and c': "c_heap c' = (c_heap c)(n \<mapsto> t)" "c_next_tile c' = n + 1" "tokens c' fl = tokens c fl"
      "ex_sa c' = ex_sa c" "ex_pim c' = ex_pim c" "c_finished_tiles c' = c_finished_tiles c"
    and l: "c_tiles c' = c_tiles c @ [n] \<and> c_pim_tiles c' = c_pim_tiles c \<or>
      c_tiles c' = c_tiles c \<and> c_pim_tiles c' = c_pim_tiles c @ [n]"
  shows "acct c' fl"
proof -
  have L: "live_tiles c' = insert n (live_tiles c)" using l by (auto simp: live_tiles_def)
  have fresh: "n \<notin> live_tiles c" "n \<notin> set (c_finished_tiles c)" using a n by (auto simp: acct_def)
  then have z: "count (tokens c fl) (Some n, w) = 0" if "w \<noteq> WHeader" for w
  proof -
    have "Some n \<notin> Some ` live_tiles c" using fresh(1) by auto
    then show ?thesis using a that unfolding acct_def by blast
  qed
  have "due (tokens c' fl) n = (0, 0, 0)" by (simp add: due_def c'(3) z)
  moreover have "n \<notin> set (c_tiles c)" "n \<notin> set (c_pim_tiles c)" using fresh by (auto simp: live_tiles_def)
  ultimately show ?thesis
    using a fresh t l unfolding acct_def L c' n [symmetric] by (auto simp: less_Suc_eq)
qed

lemma issue_inst_cases:
  assumes "issue_inst n (c, t) inst = Inr (c1, t1)"
  defines "i \<equiv> inst\<lparr>inst_parent := Some n, spad_id := tl_spad_id t, accum_spad_id := tl_accum_spad_id t\<rparr>"
  shows "opcode inst = MOVIN \<and> c1 = c\<lparr>ld_sa := ld_sa c @ [i]\<rparr> \<and>
        t1 = t\<lparr>tl_instructions := tl_instructions t @ [i], remaining_loads := remaining_loads t + 1\<rparr> \<or>
      c1 = c\<lparr>st_sa := st_sa c @ [i]\<rparr> \<and>
        t1 = t\<lparr>tl_instructions := tl_instructions t @ [i], remaining_accum_io := remaining_accum_io t + 1\<rparr> \<or>
      opcode inst \<notin> {MOVIN, MOVOUT, MOVOUT_POOL} \<and> \<not> is_pim_opcode (opcode inst) \<and> c1 = c\<lparr>ex_sa := ex_sa c @ [i]\<rparr> \<and>
        t1 = t\<lparr>tl_instructions := tl_instructions t @ [i], remaining_accum_io := remaining_accum_io t + 1,
           remaining_computes := remaining_computes t + 1\<rparr>"
proof (cases "is_pim_opcode (opcode inst)")
  case True then show ?thesis using assms(1) by (simp add: issue_inst_def Let_def split: prod.splits)
next
  case False
  consider "opcode inst = MOVIN" | "opcode inst = MOVOUT \<or> opcode inst = MOVOUT_POOL"
    | "opcode inst \<notin> {MOVIN, MOVOUT, MOVOUT_POOL}" by auto
  then show ?thesis
    using assms(1) False
    by cases (auto simp: issue_inst_def Let_def i_def split: prod.splits)
qed

lemma executable_opcode:
  "\<lbrakk>opc \<notin> {MOVIN, MOVOUT, MOVOUT_POOL}; \<not> is_pim_opcode opc; opc \<notin> {GEMM_WRITE, BAR, OPCODE_SIZE}\<rbrakk> \<Longrightarrow>
     is_gemm opc \<or> is_vector opc"
  by (cases opc) (simp_all add: is_pim_opcode_def is_gemm_def is_vector_def)

lemma acct_issue_inst:
  assumes a: "acct (c\<lparr>c_heap := (c_heap c)(n \<mapsto> t), c_tiles := ts @ [n]\<rparr>) fl"
    and i: "inst_valid inst" "opcode inst \<notin> {GEMM_WRITE, BAR, OPCODE_SIZE}" and r: "issue_inst n (c, t) inst = Inr (c1, t1)"
  shows "acct (c1\<lparr>c_heap := (c_heap c1)(n \<mapsto> t1), c_tiles := ts @ [n]\<rparr>) fl"
proof -
  let ?K = "\<lambda>c t. c\<lparr>c_heap := (c_heap c)(n \<mapsto> t), c_tiles := ts @ [n]\<rparr>"
  let ?i = "inst\<lparr>inst_parent := Some n, spad_id := tl_spad_id t, accum_spad_id := tl_accum_spad_id t\<rparr>"
  have live: "n \<in> live_tiles (?K c t)" and h: "c_heap (?K c t) n = Some t" by (simp_all add: live_tiles_def)
  have sup: "supported ?i" if "opcode inst \<notin> {MOVIN, MOVOUT, MOVOUT_POOL}" "\<not> is_pim_opcode (opcode inst)"
    using executable_opcode [OF that i(2)] i(1) by (simp add: supported_def)
  consider (ld) "opcode inst = MOVIN" "c1 = c\<lparr>ld_sa := ld_sa c @ [?i]\<rparr>"
        "t1 = t\<lparr>tl_instructions := tl_instructions t @ [?i], remaining_loads := remaining_loads t + 1\<rparr>"
    | (st) "c1 = c\<lparr>st_sa := st_sa c @ [?i]\<rparr>"
        "t1 = t\<lparr>tl_instructions := tl_instructions t @ [?i], remaining_accum_io := remaining_accum_io t + 1\<rparr>"
    | (ex) "supported ?i" "c1 = c\<lparr>ex_sa := ex_sa c @ [?i]\<rparr>"
        "t1 = t\<lparr>tl_instructions := tl_instructions t @ [?i], remaining_accum_io := remaining_accum_io t + 1,
           remaining_computes := remaining_computes t + 1\<rparr>"
    using issue_inst_cases [OF r] sup by blast
  then show ?thesis
  proof cases
    case ld
    show ?thesis
      by (rule acct_move [OF a _ live h, where t' = t1 and A = "{#}" and B = "{#(Some n, WLoad)#}"])
        (use ld in \<open>simp_all add: frame_eq_def tokens_def ld_tok_def\<close>)
  next
    case st
    show ?thesis
      by (rule acct_move [OF a _ live h, where t' = t1 and A = "{#}" and B = "{#(Some n, WStore)#}"])
        (use st in \<open>simp_all add: frame_eq_def tokens_def inst_tok_def\<close>)
  next
    case ex
    show ?thesis
      by (rule acct_move [OF a _ live h, where t' = t1 and A = "{#}" and B = "{#(Some n, WComp)#}"])
        (use ex in \<open>auto simp: frame_eq_def tokens_def inst_tok_def\<close>)
  qed
qed

lemma acct_skipped:
  assumes a: "acct c fl" and n: "n = c_next_tile c"
  shows "acct (c\<lparr>c_next_tile := n + 1, c_heap := (c_heap c)(n \<mapsto> t), c_finished_tiles := c_finished_tiles c @ [n]\<rparr>) fl"
proof -
  let ?c = "c\<lparr>c_next_tile := n + 1, c_heap := (c_heap c)(n \<mapsto> t), c_finished_tiles := c_finished_tiles c @ [n]\<rparr>"
  have L: "live_tiles ?c = live_tiles c" "tokens ?c fl = tokens c fl" by (simp_all add: live_tiles_def tokens_def)
  have fresh: "n \<notin> live_tiles c" "n \<notin> set (c_finished_tiles c)" using a n by (auto simp: acct_def)
  then have "n \<notin> set (c_tiles c)" "n \<notin> set (c_pim_tiles c)" by (auto simp: live_tiles_def)
  with a fresh n show ?thesis unfolding acct_def L by (auto simp: less_Suc_eq)
qed

lemma acct_issue:
  assumes a: "acct c fl" and ok: "tile_ok tile" and r: "issue tile c = Inr c'"
  shows "acct c' fl"
proof -
  let ?n = "c_next_tile c"
  let ?t = "tile\<lparr>tl_stat := TileStat_new (core_cycle c)\<rparr>"
  show ?thesis
  proof (cases "tl_skip tile")
    case True
    then have "c' = c\<lparr>c_next_tile := ?n + 1, c_heap := (c_heap c)(?n \<mapsto> ?t\<lparr>tl_status := FINISH\<rparr>),
        c_finished_tiles := c_finished_tiles c @ [?n]\<rparr>"
      using r by (simp add: issue_def Let_def)
    then show ?thesis using acct_skipped [OF a refl] by simp
  next
    case False
    define cs where "cs = (current_spad c + 1) mod 2"
    define c0 where "c0 = (let c = c\<lparr>c_next_tile := ?n + 1, current_spad := cs, spad := flush cs (spad c)\<rparr>;
        c = (if tl_accum tile then c else
             let ca = (current_acc_spad c + 1) mod 2 in c\<lparr>current_acc_spad := ca, acc_spad := flush ca (acc_spad c)\<rparr>)
        in c\<lparr>running_layer := tl_operation_id tile\<rparr>)"
    define t0 where "t0 = ?t\<lparr>tl_spad_id := cs, tl_accum_spad_id := current_acc_spad c0, tl_status := RUNNING,
        remaining_loads := 0, remaining_computes := 0, remaining_accum_io := 0, tl_instructions := []\<rparr>"
    from r False obtain c1 t1 where f: "foldE (issue_inst ?n) (c0, t0) (tl_instructions tile) = Inr (c1, t1)"
      and c': "c' = c1\<lparr>c_heap := (c_heap c1)(?n \<mapsto> t1), c_tiles := c_tiles c1 @ [?n]\<rparr>"
      by (cases "tl_accum tile") (auto simp: issue_def Let_def c0_def t0_def cs_def)
    let ?I = "\<lambda>(c1, t1). acct (c1\<lparr>c_heap := (c_heap c1)(?n \<mapsto> t1), c_tiles := c_tiles c @ [?n]\<rparr>) fl \<and> c_tiles c1 = c_tiles c"
    have c0f: "c_heap c0 = c_heap c" "c_tiles c0 = c_tiles c" "c_pim_tiles c0 = c_pim_tiles c" "c_next_tile c0 = ?n + 1"
      "c_finished_tiles c0 = c_finished_tiles c" "ex_sa c0 = ex_sa c" "ex_pim c0 = ex_pim c" "tokens c0 fl = tokens c fl"
      by (simp_all add: c0_def Let_def tokens_def)
    have "?I (c1, t1)"
    proof (rule foldE_invariant [where I = ?I, OF f])
      have "acct (c0\<lparr>c_heap := (c_heap c0)(?n \<mapsto> t0), c_tiles := c_tiles c @ [?n]\<rparr>) fl"
        by (rule acct_new_tile [OF a refl, where t = t0])
          (use c0f in \<open>simp_all add: t0_def counters_def tokens_def\<close>)
      then show "?I (c0, t0)" using c0f(2) by simp
    next
      fix s inst s'
      assume I: "?I s" and i: "inst \<in> set (tl_instructions tile)" and st: "issue_inst ?n s inst = Inr s'"
      obtain cc tt cd td where ss: "s = (cc, tt)" "s' = (cd, td)" by (cases s; cases s') blast
      note st' = st [unfolded ss]
      have "inst_valid inst" "opcode inst \<notin> {GEMM_WRITE, BAR, OPCODE_SIZE}"
        using ok i by (auto simp: tile_ok_def list_all_iff)
      then have "acct (cd\<lparr>c_heap := (c_heap cd)(?n \<mapsto> td), c_tiles := c_tiles c @ [?n]\<rparr>) fl"
        using acct_issue_inst [OF _ _ _ st', of "c_tiles c" fl] I ss by simp
      moreover have "c_tiles cd = c_tiles cc" using issue_inst_cases [OF st'] by fastforce
      ultimately show "?I s'" using I ss by simp
    qed
    then show ?thesis using c' by simp
  qed
qed

lemma issue_pim_inst_cases:
  assumes "issue_pim_inst n (c, t) inst = Inr (c1, t1)"
  defines "i \<equiv> inst\<lparr>is_pim_inst := True, inst_parent := Some n, spad_id := tl_spad_id t, accum_spad_id := tl_accum_spad_id t\<rparr>"
  shows "opcode inst = PIM_HEADER \<and> c1 = c\<lparr>ld_pim := ld_pim c @ [i]\<rparr> \<and> t1 = t\<lparr>tl_instructions := tl_instructions t @ [i]\<rparr> \<or>
      opcode inst \<noteq> PIM_HEADER \<and> c1 = c\<lparr>ld_pim := ld_pim c @ [i]\<rparr> \<and>
        t1 = t\<lparr>tl_instructions := tl_instructions t @ [i], remaining_loads := remaining_loads t + 1\<rparr> \<or>
      c1 = c\<lparr>st_pim := st_pim c @ [i]\<rparr> \<and>
        t1 = t\<lparr>tl_instructions := tl_instructions t @ [i], remaining_accum_io := remaining_accum_io t + 1\<rparr> \<or>
      opcode inst \<notin> {MOVIN, MOVOUT, MOVOUT_POOL} \<and> \<not> is_pim_opcode (opcode inst) \<and> c1 = c\<lparr>ex_pim := ex_pim c @ [i]\<rparr> \<and>
        t1 = t\<lparr>tl_instructions := tl_instructions t @ [i], remaining_accum_io := remaining_accum_io t + 1,
           remaining_computes := remaining_computes t + 1\<rparr>"
proof -
  let ?t = "t\<lparr>tl_instructions := tl_instructions t @ [i]\<rparr>"
  define bb where "bb = (if dest_addr inst \<ge> ACCUM_SPAD_BASE then (pim_acc_spad c, tl_accum_spad_id t)
      else (pim_spad c, tl_spad_id t))"
  define b where "b = (\<not> check_allocated (dest_addr inst) (snd bb) (fst bb) \<and>
      check_remain (ucast (inst_size inst)) (snd bb) (fst bb))"
  have b: "issue_pim_inst n (c, t) inst =
      (if opcode inst = PIM_HEADER then Inr (c\<lparr>ld_pim := ld_pim c @ [i]\<rparr>, ?t)
       else if opcode inst \<in> {MOVIN, PIM_GWRITE, PIM_COMP, PIM_READRES, PIM_COMPS_READRES}
       then ast b (Inr (c\<lparr>ld_pim := ld_pim c @ [i]\<rparr>, ?t\<lparr>remaining_loads := remaining_loads t + 1\<rparr>))
       else if opcode inst = MOVOUT \<or> opcode inst = MOVOUT_POOL
       then Inr (c\<lparr>st_pim := st_pim c @ [i]\<rparr>, ?t\<lparr>remaining_accum_io := remaining_accum_io t + 1\<rparr>)
       else Inr (c\<lparr>ex_pim := ex_pim c @ [i]\<rparr>,
         ?t\<lparr>remaining_accum_io := remaining_accum_io t + 1, remaining_computes := remaining_computes t + 1\<rparr>))"
    by (simp add: issue_pim_inst_def Let_def i_def b_def bb_def split_def cong: if_cong)
  note r = assms(1) [unfolded b]
  show ?thesis
  proof (cases "opcode inst = PIM_HEADER")
    case True
    with r have "c1 = c\<lparr>ld_pim := ld_pim c @ [i]\<rparr>" "t1 = ?t" by simp_all
    with True show ?thesis by (intro disjI1) simp
  next
    case nh: False
    show ?thesis
    proof (cases "opcode inst \<in> {MOVIN, PIM_GWRITE, PIM_COMP, PIM_READRES, PIM_COMPS_READRES}")
      case True
      with r nh have "c1 = c\<lparr>ld_pim := ld_pim c @ [i]\<rparr>" "t1 = ?t\<lparr>remaining_loads := remaining_loads t + 1\<rparr>"
        by (simp_all only: if_True if_False ast_Inr sum.inject prod.inject)
      with nh show ?thesis by (intro disjI2 [OF disjI1]) simp
    next
      case ng: False
      show ?thesis
      proof (cases "opcode inst = MOVOUT \<or> opcode inst = MOVOUT_POOL")
        case True
        with r nh ng have "c1 = c\<lparr>st_pim := st_pim c @ [i]\<rparr>" "t1 = ?t\<lparr>remaining_accum_io := remaining_accum_io t + 1\<rparr>"
          by (simp_all only: if_True if_False sum.inject prod.inject)
        then show ?thesis by (intro disjI2 [OF disjI2 [OF disjI1]]) simp
      next
        case False
        with r nh ng have "c1 = c\<lparr>ex_pim := ex_pim c @ [i]\<rparr>" "t1 = ?t\<lparr>remaining_accum_io := remaining_accum_io t + 1,
            remaining_computes := remaining_computes t + 1\<rparr>"
          by (simp_all only: if_True if_False sum.inject prod.inject)
        with nh ng False show ?thesis
          by (intro disjI2 [OF disjI2 [OF disjI2]]) (simp add: is_pim_opcode_def)
      qed
    qed
  qed
qed

lemma acct_issue_pim_inst:
  assumes a: "acct (c\<lparr>c_heap := (c_heap c)(n \<mapsto> t), c_pim_tiles := ts @ [n]\<rparr>) fl"
    and i: "inst_valid inst" "opcode inst \<notin> {GEMM_WRITE, BAR, OPCODE_SIZE}" and r: "issue_pim_inst n (c, t) inst = Inr (c1, t1)"
  shows "acct (c1\<lparr>c_heap := (c_heap c1)(n \<mapsto> t1), c_pim_tiles := ts @ [n]\<rparr>) fl"
proof -
  let ?K = "\<lambda>c t. c\<lparr>c_heap := (c_heap c)(n \<mapsto> t), c_pim_tiles := ts @ [n]\<rparr>"
  let ?i = "inst\<lparr>is_pim_inst := True, inst_parent := Some n, spad_id := tl_spad_id t, accum_spad_id := tl_accum_spad_id t\<rparr>"
  have live: "n \<in> live_tiles (?K c t)" and h: "c_heap (?K c t) n = Some t" by (simp_all add: live_tiles_def)
  have sup: "supported ?i" if "opcode inst \<notin> {MOVIN, MOVOUT, MOVOUT_POOL}" "\<not> is_pim_opcode (opcode inst)"
    using executable_opcode [OF that i(2)] i(1) by (simp add: supported_def)
  consider (hd) "opcode inst = PIM_HEADER" "c1 = c\<lparr>ld_pim := ld_pim c @ [?i]\<rparr>" "t1 = t\<lparr>tl_instructions := tl_instructions t @ [?i]\<rparr>"
    | (ld) "opcode inst \<noteq> PIM_HEADER" "c1 = c\<lparr>ld_pim := ld_pim c @ [?i]\<rparr>"
        "t1 = t\<lparr>tl_instructions := tl_instructions t @ [?i], remaining_loads := remaining_loads t + 1\<rparr>"
    | (st) "c1 = c\<lparr>st_pim := st_pim c @ [?i]\<rparr>"
        "t1 = t\<lparr>tl_instructions := tl_instructions t @ [?i], remaining_accum_io := remaining_accum_io t + 1\<rparr>"
    | (ex) "supported ?i" "c1 = c\<lparr>ex_pim := ex_pim c @ [?i]\<rparr>"
        "t1 = t\<lparr>tl_instructions := tl_instructions t @ [?i], remaining_accum_io := remaining_accum_io t + 1,
           remaining_computes := remaining_computes t + 1\<rparr>"
    using issue_pim_inst_cases [OF r] sup by blast
  then show ?thesis
  proof cases
    case hd
    show ?thesis
      by (rule acct_move [OF a _ live h, where t' = t1 and A = "{#}" and B = "{#(Some n, WHeader)#}"])
        (use hd in \<open>simp_all add: frame_eq_def tokens_def ld_tok_def\<close>)
  next
    case ld
    show ?thesis
      by (rule acct_move [OF a _ live h, where t' = t1 and A = "{#}" and B = "{#(Some n, WLoad)#}"])
        (use ld in \<open>simp_all add: frame_eq_def tokens_def ld_tok_def\<close>)
  next
    case st
    show ?thesis
      by (rule acct_move [OF a _ live h, where t' = t1 and A = "{#}" and B = "{#(Some n, WStore)#}"])
        (use st in \<open>simp_all add: frame_eq_def tokens_def inst_tok_def\<close>)
  next
    case ex
    show ?thesis
      by (rule acct_move [OF a _ live h, where t' = t1 and A = "{#}" and B = "{#(Some n, WComp)#}"])
        (use ex in \<open>auto simp: frame_eq_def tokens_def inst_tok_def\<close>)
  qed
qed

lemma acct_issue_pim:
  assumes a: "acct c fl" and ok: "tile_ok tile" and r: "issue_pim tile c = Inr c'"
  shows "acct c' fl"
proof -
  let ?n = "c_next_tile c"
  let ?t = "tile\<lparr>tl_stat := TileStat_new (core_cycle c)\<rparr>"
  show ?thesis
  proof (cases "tl_skip tile")
    case True
    then have "c' = c\<lparr>c_next_tile := ?n + 1, c_heap := (c_heap c)(?n \<mapsto> ?t\<lparr>tl_status := FINISH\<rparr>),
        c_finished_tiles := c_finished_tiles c @ [?n]\<rparr>"
      using r by (simp add: issue_pim_def Let_def)
    then show ?thesis using acct_skipped [OF a refl] by simp
  next
    case False
    define c0 where "c0 = c\<lparr>c_next_tile := ?n + 1, pim_spad := flush 0 (pim_spad c), pim_acc_spad := flush 0 (pim_acc_spad c),
        running_layer := tl_operation_id tile\<rparr>"
    define t0 where "t0 = ?t\<lparr>tl_spad_id := 0, tl_accum_spad_id := 0, tl_status := RUNNING,
        remaining_loads := 0, remaining_computes := 0, remaining_accum_io := 0, tl_instructions := []\<rparr>"
    from r False obtain c1 t1 where f: "foldE (issue_pim_inst ?n) (c0, t0) (tl_instructions tile) = Inr (c1, t1)"
      and c': "c' = c1\<lparr>c_heap := (c_heap c1)(?n \<mapsto> t1), c_pim_tiles := c_pim_tiles c1 @ [?n]\<rparr>"
      by (auto simp: issue_pim_def Let_def c0_def t0_def)
    let ?I = "\<lambda>(c1, t1). acct (c1\<lparr>c_heap := (c_heap c1)(?n \<mapsto> t1), c_pim_tiles := c_pim_tiles c @ [?n]\<rparr>) fl \<and>
      c_pim_tiles c1 = c_pim_tiles c"
    have c0f: "c_heap c0 = c_heap c" "c_tiles c0 = c_tiles c" "c_pim_tiles c0 = c_pim_tiles c" "c_next_tile c0 = ?n + 1"
      "c_finished_tiles c0 = c_finished_tiles c" "ex_sa c0 = ex_sa c" "ex_pim c0 = ex_pim c" "tokens c0 fl = tokens c fl"
      by (simp_all add: c0_def tokens_def)
    have "?I (c1, t1)"
    proof (rule foldE_invariant [where I = ?I, OF f])
      have "acct (c0\<lparr>c_heap := (c_heap c0)(?n \<mapsto> t0), c_pim_tiles := c_pim_tiles c @ [?n]\<rparr>) fl"
        by (rule acct_new_tile [OF a refl, where t = t0])
          (use c0f in \<open>simp_all add: t0_def counters_def tokens_def\<close>)
      then show "?I (c0, t0)" using c0f(3) by simp
    next
      fix s inst s'
      assume I: "?I s" and i: "inst \<in> set (tl_instructions tile)" and st: "issue_pim_inst ?n s inst = Inr s'"
      obtain cc tt cd td where ss: "s = (cc, tt)" "s' = (cd, td)" by (cases s; cases s') blast
      note st' = st [unfolded ss]
      have "inst_valid inst" "opcode inst \<notin> {GEMM_WRITE, BAR, OPCODE_SIZE}"
        using ok i by (auto simp: tile_ok_def list_all_iff)
      then have "acct (cd\<lparr>c_heap := (c_heap cd)(?n \<mapsto> td), c_pim_tiles := c_pim_tiles c @ [?n]\<rparr>) fl"
        using acct_issue_pim_inst [OF _ _ _ st', of "c_pim_tiles c" fl] I ss by simp
      moreover have "c_pim_tiles cd = c_pim_tiles cc" using issue_pim_inst_cases [OF st'] by fastforce
      ultimately show "?I s'" using I ss by simp
    qed
    then show ?thesis using c' by simp
  qed
qed

lemma acct_pop_finished_tile:
  assumes a: "acct c fl" and r: "pop_finished_tile c = (t, c')"
  shows "acct c' fl"
proof (cases "c_finished_tiles c")
  case Nil then show ?thesis using a r by (simp add: pop_finished_tile_def)
next
  case (Cons n ns)
  then have c': "c' = c\<lparr>c_heap := (c_heap c)(n := None), c_finished_tiles := ns\<rparr>"
    using r by (simp add: pop_finished_tile_def)
  have L: "live_tiles c' = live_tiles c" "tokens c' fl = tokens c fl" by (simp_all add: c' live_tiles_def tokens_def)
  have "n \<notin> live_tiles c" "n \<notin> set ns" using a Cons by (auto simp: acct_def live_tiles_def)
  then show ?thesis using a Cons unfolding acct_def L by (auto simp: c')
qed

lemma acct_new: "acct (NeuPIMSCore_new e i r) []"
  by (auto simp: acct_def NeuPIMSCore_new_def live_tiles_def tokens_def)

subsection \<open>Reachable states\<close>

text \<open>
  The states of a core under the calls that the simulator makes, in any order: issue of tiles,
  cycles, the transfer of requests to the interconnect and the answers of the memory.  An answer
  is a request with other time stamps and the same tile and kind; PIM headers are consumed by the
  memory without an answer.  Other cores use the static variables \<open>c_req\<close>, too.  The number of pieces
  of work in flight stays below \<open>2 ^ 32\<close>, the range of the counters.
\<close>

inductive core_reach :: "env \<Rightarrow> core \<Rightarrow> MemoryAccess list \<Rightarrow> bool" for e where
  start: "core_reach e (NeuPIMSCore_new e i r) []"
| issue: "\<lbrakk>core_reach e c fl; tile_ok t; issue t c = Inr c'\<rbrakk> \<Longrightarrow> core_reach e c' fl"
| issue_pim: "\<lbrakk>core_reach e c fl; tile_ok t; issue_pim t c = Inr c'\<rbrakk> \<Longrightarrow> core_reach e c' fl"
| cycle: "\<lbrakk>core_reach e c fl; NeuPIMSystolicWS_cycle e c = Inr c'; size (tokens c' fl) < 2 ^ 32\<rbrakk> \<Longrightarrow> core_reach e c' fl"
| send1: "\<lbrakk>core_reach e c fl; pop_memory_request1 i c = Inr (m, c')\<rbrakk> \<Longrightarrow> core_reach e c' (m # fl)"
| send2: "\<lbrakk>core_reach e c fl; pop_memory_request2 i c = Inr (m, c')\<rbrakk> \<Longrightarrow> core_reach e c' (m # fl)"
| answer: "\<lbrakk>core_reach e c fl; m \<in> set fl; req_type m \<noteq> P_HEADER; ma_parent m' = ma_parent m; req_type m' = req_type m;
     push_memory_response m' c = Inr c'\<rbrakk> \<Longrightarrow> core_reach e c' (remove1 m fl)"
| header: "\<lbrakk>core_reach e c fl; m \<in> set fl; req_type m = P_HEADER\<rbrakk> \<Longrightarrow> core_reach e c (remove1 m fl)"
| finish: "\<lbrakk>core_reach e c fl; pop_finished_tile c = (t, c')\<rbrakk> \<Longrightarrow> core_reach e c' fl"
| statics: "core_reach e c fl \<Longrightarrow> core_reach e (c\<lparr>c_req := r\<rparr>) fl"

inductive_cases core_reach_cases: "core_reach e c fl"

lemma acct_header:
  assumes a: "acct c fl" and m: "m \<in> set fl" "req_type m = P_HEADER"
  shows "acct c (remove1 m fl)"
proof -
  have tk: "tokens c fl = tokens c (remove1 m fl) + {#(ma_parent m, WHeader)#}"
    using tokens_remove1 [OF m(1), of c] m(2) by (simp add: req_tok_def)
  then have "count (tokens c (remove1 m fl)) (p, w) = count (tokens c fl) (p, w)" if "w \<noteq> WHeader" for p w
    using that by simp
  then show ?thesis using a unfolding acct_def by (simp add: due_def)
qed

lemma acct_statics: "acct c fl \<Longrightarrow> acct (c\<lparr>c_req := r\<rparr>) fl"
  by (erule acct_quiet) (simp add: quiet_def frame_eq_def same_counters_def tokens_def)

lemma core_reach_acct: "core_reach e c fl \<Longrightarrow> acct c fl"
  by (induction rule: core_reach.induct)
    (blast intro: acct_statics acct_new acct_issue acct_issue_pim acct_NeuPIMSystolicWS_cycle acct_pop_memory_request
      acct_push_memory_response acct_header acct_pop_finished_tile)+

subsection \<open>Correctness of the accounting\<close>

text \<open>
  C11: In every reachable state the counters of a tile that the core works on are exact: the
  remaining loads, computations and accumulator operations are the numbers of its instructions
  still queued or computing and of its requests still queued or on the way (modulo \<open>2 ^ 32\<close>).
\<close>

theorem core_counters_exact:
  assumes "core_reach e c fl" "n \<in> set (c_tiles c) \<union> set (c_pim_tiles c)"
  shows "\<exists>t. c_heap c n = Some t \<and>
    remaining_loads t = of_nat (count (tokens c fl) (Some n, WLoad)) \<and>
    remaining_computes t = of_nat (count (tokens c fl) (Some n, WComp)) \<and>
    remaining_accum_io t = of_nat (count (tokens c fl) (Some n, WStore)) + of_nat (count (tokens c fl) (Some n, WComp))"
proof -
  have "map_option counters (c_heap c n) = Some (due (tokens c fl) n)"
    using core_reach_acct [OF assms(1)] assms(2) by (auto simp: acct_def live_tiles_def)
  then show ?thesis by (auto simp: counters_def due_def)
qed

definition demo_compute :: Instruction where
  "demo_compute = Instruction0\<lparr>opcode := GEMM, dest_addr := 0x20000000, inst_size := 8,
     src_addrs := [0x10000000]\<rparr>"

definition demo_tile :: Tile where
  "demo_tile = Tile0\<lparr>tl_instructions := [demo_load, demo_compute]\<rparr>"

lemma demo_issue:
  "\<exists>c t. issue demo_tile (NeuPIMSCore_new demo_env 0 demo_req_state) = Inr c \<and> c_tiles c = [0] \<and>
     c_heap c 0 = Some t \<and> remaining_loads t = 1 \<and> tokens c [] = {#(Some 0, WLoad), (Some 0, WComp)#}"
  by (simp add: issue_def demo_tile_def Tile0_def NeuPIMSCore_new_def Let_def issue_inst_def demo_load_def
      demo_compute_def Instruction0_def is_pim_opcode_def check_allocated_def flush_def Sram_new_def demo_env_def
      check_remain_def half_size_def signed_divide_int_def demo_cfg_def tokens_def ld_tok_def inst_tok_def)

theorem core_counters_exact_witness:
  "\<exists>c t. issue demo_tile (NeuPIMSCore_new demo_env 0 demo_req_state) = Inr c \<and> c_heap c 0 = Some t \<and>
     remaining_loads t = 1 \<and> remaining_computes t = 1"
proof -
  from demo_issue obtain c t where i: "issue demo_tile (NeuPIMSCore_new demo_env 0 demo_req_state) = Inr c"
    and tl: "c_tiles c = [0]" and t: "c_heap c 0 = Some t" and tk: "tokens c [] = {#(Some 0, WLoad), (Some 0, WComp)#}" by blast
  have ok: "tile_ok demo_tile" by (simp add: tile_ok_def demo_tile_def demo_load_def demo_compute_def Instruction0_def)
  have "core_reach demo_env c []" by (rule core_reach.issue [OF core_reach.start ok i])
  from core_counters_exact [OF this, of 0] tl t tk i show ?thesis by auto
qed

text \<open>The instructions and the requests that count: all but PIM headers.\<close>

definition counted_insts :: "core \<Rightarrow> Instruction list" where
  "counted_insts c = filter (\<lambda>i. opcode i \<noteq> PIM_HEADER) (ld_sa c @ ld_pim c) @ st_sa c @ st_pim c @
     ex_sa c @ ex_pim c @ compute_pipeline c @ concat (vector_pipelines c)"

definition counted_reqs :: "core \<Rightarrow> MemoryAccess list \<Rightarrow> MemoryAccess list" where
  "counted_reqs c fl = filter (\<lambda>m. req_type m \<noteq> P_HEADER) (concat (mem_queues1 c) @ concat (mem_queues2 c) @ fl)"

lemma counted_inst_token: "i \<in> set (counted_insts c) \<Longrightarrow> \<exists>w. w \<noteq> WHeader \<and> (inst_parent i, w) \<in># tokens c fl"
proof -
  assume "i \<in> set (counted_insts c)"
  then consider "i \<in> set (ld_sa c)" "opcode i \<noteq> PIM_HEADER" | "i \<in> set (ld_pim c)" "opcode i \<noteq> PIM_HEADER" | "i \<in> set (st_sa c)"
    | "i \<in> set (st_pim c)" | "i \<in> set (ex_sa c)" | "i \<in> set (ex_pim c)" | "i \<in> set (compute_pipeline c)"
    | "i \<in> set (concat (vector_pipelines c))" by (auto simp: counted_insts_def)
  then show ?thesis
  proof cases
    case 1
    then have "ld_tok i \<in># tokens c fl" by (simp add: tokens_def)
    then show ?thesis using 1 by (auto simp: ld_tok_def)
  next
    case 2
    then have "ld_tok i \<in># tokens c fl" by (simp add: tokens_def)
    then show ?thesis using 2 by (auto simp: ld_tok_def)
  next
    case 3
    then have "inst_tok WStore i \<in># tokens c fl" by (simp add: tokens_def)
    then show ?thesis by (auto simp: inst_tok_def)
  next
    case 4
    then have "inst_tok WStore i \<in># tokens c fl" by (simp add: tokens_def)
    then show ?thesis by (auto simp: inst_tok_def)
  qed (rule exI [of _ WComp], force simp: tokens_def inst_tok_def)+
qed

lemma counted_req_token: "m \<in> set (counted_reqs c fl) \<Longrightarrow>
  (ma_parent m, if req_type m = WRITE then WStore else WLoad) \<in># tokens c fl"
proof -
  assume m: "m \<in> set (counted_reqs c fl)"
  then have "req_tok m \<in># tokens c fl" by (auto simp: counted_reqs_def tokens_def)
  then show ?thesis using m by (auto simp: counted_reqs_def req_tok_def split: if_splits)
qed

lemma acct_finished_no_token:
  "\<lbrakk>acct c fl; n \<in> set (c_finished_tiles c); w \<noteq> WHeader\<rbrakk> \<Longrightarrow> (Some n, w) \<notin># tokens c fl"
proof
  assume a: "acct c fl" and f: "n \<in> set (c_finished_tiles c)" and w: "w \<noteq> WHeader" and t: "(Some n, w) \<in># tokens c fl"
  from acct_token_live [OF a t w] have "n \<in> live_tiles c" by auto
  then show False using a f by (auto simp: acct_def live_tiles_def)
qed

text \<open>
  C12: A tile on the finished queue has nothing left in the machine: no instruction of it is queued
  or computing and no request of it is queued or unanswered (PIM headers apart, which nobody
  waits for).
\<close>

theorem finished_tile_is_drained:
  assumes "core_reach e c fl" "n \<in> set (c_finished_tiles c)"
  shows "Some n \<notin> inst_parent ` set (counted_insts c) \<and> Some n \<notin> ma_parent ` set (counted_reqs c fl)"
proof -
  note a = core_reach_acct [OF assms(1)]
  have "inst_parent i \<noteq> Some n" if "i \<in> set (counted_insts c)" for i
    using counted_inst_token [OF that, of fl] acct_finished_no_token [OF a assms(2)] by metis
  moreover have "ma_parent m \<noteq> Some n" if "m \<in> set (counted_reqs c fl)" for m
    using counted_req_token [OF that] acct_finished_no_token [OF a assms(2)] by (metis work.distinct(3) work.distinct(9) work.distinct(5))
  ultimately show ?thesis by (metis imageE)
qed

theorem finished_tile_is_drained_witness:
  "\<exists>c c'. issue (Tile0\<lparr>tl_skip := True\<rparr>) (NeuPIMSCore_new demo_env 0 demo_req_state) = Inr c \<and>
     issue demo_tile c = Inr c' \<and> length (counted_insts c') = 2 \<and> Some 0 \<notin> inst_parent ` set (counted_insts c')"
proof -
  let ?s = "NeuPIMSCore_new demo_env 0 demo_req_state"
  have "\<exists>c c'. issue (Tile0\<lparr>tl_skip := True\<rparr>) ?s = Inr c \<and> issue demo_tile c = Inr c' \<and>
      c_finished_tiles c' = [0] \<and> length (counted_insts c') = 2"
    by (simp add: issue_def demo_tile_def Tile0_def NeuPIMSCore_new_def Let_def issue_inst_def demo_load_def
      demo_compute_def Instruction0_def is_pim_opcode_def check_allocated_def flush_def Sram_new_def demo_env_def
      check_remain_def half_size_def signed_divide_int_def demo_cfg_def counted_insts_def)
  then obtain c c' where i: "issue (Tile0\<lparr>tl_skip := True\<rparr>) ?s = Inr c" "issue demo_tile c = Inr c'"
    and f: "c_finished_tiles c' = [0]" "length (counted_insts c') = 2" by blast
  have ok: "tile_ok demo_tile" "tile_ok (Tile0\<lparr>tl_skip := True\<rparr>)"
    by (simp_all add: tile_ok_def demo_tile_def demo_load_def demo_compute_def Instruction0_def Tile0_def)
  have "core_reach demo_env c' []"
    by (rule core_reach.issue [OF core_reach.issue [OF core_reach.start ok(2) i(1)] ok(1) i(2)])
  from finished_tile_is_drained [OF this, of 0] f i show ?thesis by auto
qed

lemma acct_request_alive:
  assumes a: "acct c fl" and sz: "size (tokens c fl) < 2 ^ 32" and m: "m \<in> set (counted_reqs c fl)"
  shows "\<exists>n t. lock_tile (ma_parent m) c = Inr (n, t) \<and> n \<in> live_tiles c \<and> (req_type m \<noteq> WRITE \<longrightarrow> 0 < remaining_loads t)"
proof -
  note tk = counted_req_token [OF m]
  have "(if req_type m = WRITE then WStore else WLoad) \<noteq> WHeader" by simp
  from acct_token_live [OF a tk this] obtain n where n: "n \<in> live_tiles c" "ma_parent m = Some n" by blast
  then obtain t where t: "lock_tile (ma_parent m) c = Inr (n, t)" "counters t = due (tokens c fl) n"
    using a by (auto simp: acct_def lock_tile_Inr)
  have "0 < remaining_loads t" if "req_type m \<noteq> WRITE"
  proof -
    have "0 < count (tokens c fl) (Some n, WLoad)" using tk that n(2) by (simp add: count_greater_zero_iff)
    moreover have "count (tokens c fl) (Some n, WLoad) < 2 ^ 32"
      using count_le_size [of "tokens c fl" "(Some n, WLoad)"] sz by linarith
    ultimately have "unat (of_nat (count (tokens c fl) (Some n, WLoad)) :: u32) > 0" by (simp add: unat_of_nat)
    then show ?thesis using t(2) by (simp add: counters_def due_def word_greater_zero_iff unat_gt_0)
  qed
  then show ?thesis using t(1) n(1) by blast
qed

text \<open>
  C22: No \<open>weak_ptr\<close> dangles: every instruction and every request that counts belongs to a tile that
  the core works on, so locking its parent succeeds, and for a request that is not a write
  the assertion \<open>remaining_loads > 0\<close> of \<open>push_memory_response\<close> holds when it is answered.
\<close>

theorem parent_tiles_alive:
  assumes "core_reach e c fl" "size (tokens c fl) < 2 ^ 32"
  shows "(\<forall>i \<in> set (counted_insts c). \<exists>n t. lock_tile (inst_parent i) c = Inr (n, t) \<and> n \<in> live_tiles c) \<and>
    (\<forall>m \<in> set (counted_reqs c fl). \<exists>n t. lock_tile (ma_parent m) c = Inr (n, t) \<and> n \<in> live_tiles c \<and>
       (req_type m \<noteq> WRITE \<longrightarrow> 0 < remaining_loads t))"
proof -
  note a = core_reach_acct [OF assms(1)]
  have lk: "\<exists>t. lock_tile p c = Inr (n, t) \<and> counters t = due (tokens c fl) n" if "p = Some n" "n \<in> live_tiles c" for p n
    using a that by (auto simp: acct_def lock_tile_Inr)
  have 1: "\<exists>n t. lock_tile (inst_parent i) c = Inr (n, t) \<and> n \<in> live_tiles c" if "i \<in> set (counted_insts c)" for i
    using counted_inst_token [OF that, of fl] acct_token_live [OF a] lk by metis
  show ?thesis using 1 acct_request_alive [OF a assms(2)] by blast
qed

theorem parent_tiles_alive_witness:
  "\<exists>c. issue demo_tile (NeuPIMSCore_new demo_env 0 demo_req_state) = Inr c \<and>
     (\<forall>i \<in> set (counted_insts c). \<exists>n t. lock_tile (inst_parent i) c = Inr (n, t) \<and> n \<in> live_tiles c)"
proof -
  from demo_issue obtain c where i: "issue demo_tile (NeuPIMSCore_new demo_env 0 demo_req_state) = Inr c"
    and tk: "tokens c [] = {#(Some 0, WLoad), (Some 0, WComp)#}" by blast
  have ok: "tile_ok demo_tile" by (simp add: tile_ok_def demo_tile_def demo_load_def demo_compute_def Instruction0_def)
  have "core_reach demo_env c []" by (rule core_reach.issue [OF core_reach.start ok i])
  from parent_tiles_alive [OF this] tk i show ?thesis by auto
qed

end
