(* ===== verification/Partition.thy ===== *)
theory Partition
  imports Prelude
begin

text \<open>
  The partition of the requests of a channel into two sub-batches of similar latency
  (\<open>Scheduler::partition_lists_dp\<close> and \<open>partition_lists_simple\<close>, scheduler/Scheduler.cc).
\<close>

subsection \<open>The dynamic program\<close>

text \<open>
  \<open>totalSum\<close> and its loop variable are int: elements are converted, a sum outside the range of int
  is undefined.
\<close>

fun int_sum :: "int \<Rightarrow> u32 list \<Rightarrow> fault + int" where
  "int_sum tot [] = Inr tot"
| "int_sum tot (num # nums) =
     (let t = tot + sint num
      in if - (2 ^ 31) \<le> t \<and> t < 2 ^ 31 then int_sum t nums else Inl Undefined)"

text \<open>
  The table \<open>dp\<close>, row by row: entry \<open>j\<close> of row \<open>i\<close> says whether a subset of the first \<open>i\<close> latencies
  sums to \<open>j\<close>, for \<open>j \<le> target\<close>.
\<close>

definition dp_row :: "nat \<Rightarrow> nat \<Rightarrow> bool list \<Rightarrow> bool list" where
  "dp_row target x prev =
     map (\<lambda>j. if j = 0 then True else prev ! j \<or> (x \<le> j \<and> prev ! (j - x))) [0..<Suc target]"

fun dp_rows :: "nat \<Rightarrow> bool list \<Rightarrow> u32 list \<Rightarrow> bool list list" where
  "dp_rows target row [] = [row]"
| "dp_rows target row (x # xs) = row # dp_rows target (dp_row target (unat x) row) xs"

definition dp_table :: "nat \<Rightarrow> u32 list \<Rightarrow> bool list list" where
  "dp_table target xs = dp_rows target (True # replicate target False) xs"

fun max_sum :: "bool list \<Rightarrow> nat \<Rightarrow> nat" where
  "max_sum row 0 = 0"
| "max_sum row (Suc j) = (if row ! Suc j then Suc j else max_sum row j)"

text \<open>The two loops that walk back through the table; the second one runs once \<open>j\<close> is 0.\<close>

fun dp_walk :: "bool list list \<Rightarrow> u32 list \<Rightarrow> nat \<Rightarrow> nat \<Rightarrow> nat list \<Rightarrow> nat list \<Rightarrow> nat list \<times> nat list" where
  "dp_walk dp xs 0 j list1 list2 = (list1, list2)"
| "dp_walk dp xs (Suc i) j list1 list2 =
     (if 0 < j then
        if dp ! Suc i ! j \<and> \<not> dp ! i ! j
        then dp_walk dp xs i (j - unat (xs ! i)) (list1 @ [i]) list2
        else dp_walk dp xs i j list1 (list2 @ [i])
      else dp_walk dp xs i j list1 (list2 @ [i]))"

text \<open>
  A negative sum makes \<open>targetSum + 1\<close> a negative vector size (an exception), or 0 for the sums
  -2 and -3, and then \<open>dp[i][0]\<close> is out of range.
\<close>

definition partition_lists_dp :: "u32 list \<Rightarrow> fault + (nat list \<times> nat list)" where
  "partition_lists_dp xs = bindE (int_sum 0 xs) (\<lambda>tot.
     if tot < - 3 then Inl Thrown
     else if tot < - 1 then Inl Undefined
     else let target = nat (tot div 2); n = length xs; dp = dp_table target xs
          in Inr (dp_walk dp xs n (max_sum (dp ! n) target) [] []))"

text \<open>The unused variant: it returns the values, not the indices.\<close>

definition partition_lists_simple :: "u32 list \<Rightarrow> fault + (int list \<times> int list)" where
  "partition_lists_simple xs =
     (let mid = length xs div 2
      in if xs = [] then Inl Exited
         else if mid \<ge> length xs then Inl Exited
         else Inr (map sint (take mid xs), map sint (drop mid xs)))"

subsection \<open>The table is exact\<close>

definition lat_sum :: "u32 list \<Rightarrow> nat set \<Rightarrow> nat" where
  "lat_sum xs S = (\<Sum>k\<in>S. unat (xs ! k))"

definition reachable :: "u32 list \<Rightarrow> nat \<Rightarrow> nat \<Rightarrow> bool" where
  "reachable xs i j \<longleftrightarrow> (\<exists>S \<subseteq> {..<i}. lat_sum xs S = j)"

lemma reachable_0: "reachable xs 0 j \<longleftrightarrow> j = 0"
  by (auto simp: reachable_def lat_sum_def)

lemma reachable_zero [simp]: "reachable xs i 0"
  unfolding reachable_def by (rule exI [of _ "{}"]) (simp add: lat_sum_def)

lemma lat_sum_insert: "S \<subseteq> {..<i} \<Longrightarrow> lat_sum xs (insert i S) = unat (xs ! i) + lat_sum xs S"
proof -
  assume "S \<subseteq> {..<i}"
  then have "finite S" "i \<notin> S" using finite_subset by auto
  then show ?thesis by (simp add: lat_sum_def)
qed

lemma reachable_Suc:
  "reachable xs (Suc i) j \<longleftrightarrow> reachable xs i j \<or> (unat (xs ! i) \<le> j \<and> reachable xs i (j - unat (xs ! i)))"
proof
  assume "reachable xs (Suc i) j"
  then obtain S where S: "S \<subseteq> {..<Suc i}" "lat_sum xs S = j" by (auto simp: reachable_def)
  show "reachable xs i j \<or> (unat (xs ! i) \<le> j \<and> reachable xs i (j - unat (xs ! i)))"
  proof (cases "i \<in> S")
    case True
    then have d: "S - {i} \<subseteq> {..<i}" and ins: "insert i (S - {i}) = S" using S(1) by (auto simp: less_Suc_eq)
    have "j = unat (xs ! i) + lat_sum xs (S - {i})" using lat_sum_insert [OF d, of xs] S(2) ins by simp
    then show ?thesis using d by (auto simp: reachable_def)
  next
    case False
    then have "S \<subseteq> {..<i}" using S(1) by (auto simp: less_Suc_eq)
    then show ?thesis using S(2) by (auto simp: reachable_def)
  qed
next
  assume "reachable xs i j \<or> (unat (xs ! i) \<le> j \<and> reachable xs i (j - unat (xs ! i)))"
  then show "reachable xs (Suc i) j"
  proof
    assume "reachable xs i j"
    then obtain S where "S \<subseteq> {..<i}" "lat_sum xs S = j" by (auto simp: reachable_def)
    moreover from this(1) have "S \<subseteq> {..<Suc i}" by auto
    ultimately show ?thesis by (auto simp: reachable_def)
  next
    assume a: "unat (xs ! i) \<le> j \<and> reachable xs i (j - unat (xs ! i))"
    then obtain S where S: "S \<subseteq> {..<i}" "lat_sum xs S = j - unat (xs ! i)" by (auto simp: reachable_def)
    have "insert i S \<subseteq> {..<Suc i}" using S(1) by auto
    moreover have "lat_sum xs (insert i S) = j" using a S(2) lat_sum_insert [OF S(1), of xs] by simp
    ultimately show ?thesis unfolding reachable_def by blast
  qed
qed

lemma length_dp_row [simp]: "length (dp_row t x r) = Suc t"
  by (simp add: dp_row_def)

lemma dp_row_nth: "j \<le> t \<Longrightarrow> dp_row t x r ! j \<longleftrightarrow> j = 0 \<or> r ! j \<or> (x \<le> j \<and> r ! (j - x))"
  unfolding dp_row_def by (simp del: upt_Suc)

lemma dp_rows_nth:
  assumes "\<forall>j \<le> t. row ! j \<longleftrightarrow> reachable xs k j" "drop k xs = ys" "i \<le> length ys" "j \<le> t"
  shows "dp_rows t row ys ! i ! j \<longleftrightarrow> reachable xs (k + i) j"
  using assms
proof (induction ys arbitrary: row k i)
  case Nil
  then show ?case by simp
next
  case (Cons y ys)
  have y: "xs ! k = y" "drop (Suc k) xs = ys"
  proof -
    have "k < length xs" using Cons.prems(2) by (metis drop_all list.distinct(1) not_less)
    from Cons_nth_drop_Suc [OF this] Cons.prems(2) show "xs ! k = y" "drop (Suc k) xs = ys" by simp_all
  qed
  have row: "\<forall>j \<le> t. dp_row t (unat y) row ! j \<longleftrightarrow> reachable xs (Suc k) j"
    using Cons.prems(1) y(1) by (auto simp: dp_row_nth reachable_Suc)
  show ?case
  proof (cases i)
    case 0 then show ?thesis using Cons.prems by simp
  next
    case (Suc i')
    then show ?thesis using Cons.IH [OF row y(2), of i'] Cons.prems by simp
  qed
qed

lemma dp_table_nth:
  assumes "i \<le> length xs" "j \<le> t"
  shows "dp_table t xs ! i ! j \<longleftrightarrow> reachable xs i j"
proof -
  have "\<forall>j \<le> t. (True # replicate t False) ! j \<longleftrightarrow> reachable xs 0 j"
    by (auto simp: reachable_0 nth_Cons split: nat.splits)
  from dp_rows_nth [OF this, of xs] assms show ?thesis by (simp add: dp_table_def)
qed

lemma max_sum_le: "max_sum row j \<le> j"
  by (induction j) auto

lemma max_sum_greatest: "\<lbrakk>row ! 0; k \<le> j; row ! k\<rbrakk> \<Longrightarrow> k \<le> max_sum row j"
  by (induction j) (auto simp: le_Suc_eq)

lemma max_sum_hit: "row ! 0 \<Longrightarrow> row ! max_sum row j"
  by (induction j) auto

text \<open>The walk splits the indices and picks a set of sum \<open>j\<close>.\<close>

lemma dp_walk_correct:
  assumes dp: "\<And>i j. \<lbrakk>i \<le> length xs; j \<le> t\<rbrakk> \<Longrightarrow> dp ! i ! j \<longleftrightarrow> reachable xs i j"
    and "i \<le> length xs" "j \<le> t" "reachable xs i j" "dp_walk dp xs i j l1 l2 = (l1', l2')"
  shows "\<exists>m1 m2. l1' = l1 @ m1 \<and> l2' = l2 @ m2 \<and> mset m1 + mset m2 = mset [0..<i] \<and> (\<Sum>k\<leftarrow>m1. unat (xs ! k)) = j"
  using assms(2-)
proof (induction i arbitrary: j l1 l2)
  case 0
  then show ?case by (simp add: reachable_0)
next
  case (Suc i)
  show ?case
  proof (cases "0 < j \<and> \<not> reachable xs i j")
    case True
    then have r: "unat (xs ! i) \<le> j" "reachable xs i (j - unat (xs ! i))" using Suc.prems(3) reachable_Suc by blast+
    have "dp_walk dp xs i (j - unat (xs ! i)) (l1 @ [i]) l2 = (l1', l2')"
      using Suc.prems True dp by simp
    then obtain m1 m2 where "l1' = (l1 @ [i]) @ m1" "l2' = l2 @ m2" "mset m1 + mset m2 = mset [0..<i]"
      "(\<Sum>k\<leftarrow>m1. unat (xs ! k)) = j - unat (xs ! i)"
      using Suc.IH [of "j - unat (xs ! i)" "l1 @ [i]" l2] Suc.prems(1,2) r(2) by fastforce
    then show ?thesis using r(1) by (intro exI [of _ "i # m1"] exI [of _ m2]) simp
  next
    case False
    then have ri: "reachable xs i j" by (cases "j = 0") auto
    have "dp_walk dp xs i j l1 (l2 @ [i]) = (l1', l2')"
      using Suc.prems ri dp by (auto split: if_splits)
    then obtain m1 m2 where "l1' = l1 @ m1" "l2' = (l2 @ [i]) @ m2" "mset m1 + mset m2 = mset [0..<i]"
      "(\<Sum>k\<leftarrow>m1. unat (xs ! k)) = j"
      using Suc.IH [of j l1 "l2 @ [i]"] Suc.prems ri by auto
    then show ?thesis by (intro exI [of _ m1] exI [of _ "i # m2"]) simp
  qed
qed

lemma int_sum_small:
  "\<lbrakk>0 \<le> tot; tot + (\<Sum>x\<leftarrow>xs. int (unat x)) < 2 ^ 31\<rbrakk> \<Longrightarrow> int_sum tot xs = Inr (tot + (\<Sum>x\<leftarrow>xs. int (unat x)))"
proof (induction xs arbitrary: tot)
  case (Cons x xs)
  have nn: "0 \<le> (\<Sum>x\<leftarrow>xs. int (unat x))" by (rule sum_list_nonneg) auto
  then have "int (unat x) < 2 ^ 31" using Cons.prems by simp
  then have "sint x = int (unat x)" 
    using order_trans [OF _ uint_ge_0 [of x], of "- 2147483648"] by (simp add: sint_uint signed_take_bit_int_eq_self)
  moreover have nt: "0 \<le> tot + int (unat x)"
    by (rule add_nonneg_nonneg [OF Cons.prems(1) of_nat_0_le_iff])
  moreover have "- (2 ^ 31) \<le> tot + int (unat x)" by (rule order_trans [OF _ nt]) simp
  moreover have "tot + int (unat x) + (\<Sum>x\<leftarrow>xs. int (unat x)) < 2 ^ 31" using Cons.prems(2) by simp
  moreover from this nn have "tot + int (unat x) < 2 ^ 31" by linarith
  ultimately show ?case using Cons.IH [of "tot + int (unat x)"] by (simp add: Let_def)
qed simp

lemma lat_sum_list: "distinct ks \<Longrightarrow> lat_sum xs (set ks) = (\<Sum>k\<leftarrow>ks. unat (xs ! k))"
  by (simp add: lat_sum_def sum_list_distinct_conv_sum_set)

text \<open>
  C15: The sub-batches are as balanced as they can be: for latencies whose sum fits an int,
  \<open>partition_lists_dp\<close> returns each request of the channel in exactly one of the two lists, and no
  other way of splitting the requests has a smaller difference of latencies.
\<close>

theorem partition_optimal:
  assumes "(\<Sum>x\<leftarrow>xs. unat x) < 2 ^ 31"
  shows "\<exists>list1 list2. partition_lists_dp xs = Inr (list1, list2) \<and>
    mset list1 + mset list2 = mset [0..<length xs] \<and>
    (\<forall>S \<subseteq> {..<length xs}.
       \<bar>int (\<Sum>k\<leftarrow>list2. unat (xs ! k)) - int (\<Sum>k\<leftarrow>list1. unat (xs ! k))\<bar>
       \<le> \<bar>int (lat_sum xs ({..<length xs} - S)) - int (lat_sum xs S)\<bar>)"
proof -
  let ?n = "length xs" and ?total = "\<Sum>x\<leftarrow>xs. unat x"
  define t where "t = ?total div 2"
  define best where "best = max_sum (dp_table t xs ! ?n) t"
  have sum: "(\<Sum>x\<leftarrow>xs. int (unat x)) = int ?total" by (induction xs) simp_all
  have ti: "int_sum 0 xs = Inr (int ?total)"
    using int_sum_small [of 0 xs] assms unfolding sum by simp
  have r0: "dp_table t xs ! ?n ! 0" by (simp add: dp_table_nth)
  have bt: "best \<le> t" by (simp add: best_def max_sum_le)
  have rb: "reachable xs ?n best" using max_sum_hit [OF r0, of t] bt dp_table_nth [of ?n xs best t] by (simp add: best_def)
  obtain l1 l2 where w: "dp_walk (dp_table t xs) xs ?n best [] [] = (l1, l2)" by fastforce
  from dp_walk_correct [OF _ _ bt rb w] dp_table_nth
  have m: "mset l1 + mset l2 = mset [0..<?n]" and s1: "(\<Sum>k\<leftarrow>l1. unat (xs ! k)) = best" by auto
  have p: "partition_lists_dp xs = Inr (l1, l2)"
    using w nat_int [of t] by (simp add: partition_lists_dp_def ti Let_def t_def best_def zdiv_int)
  have all: "(\<Sum>k\<leftarrow>[0..<?n]. unat (xs ! k)) = ?total"
    by (metis map_nth map_map comp_def map_eq_conv)
  have "(\<Sum>k\<leftarrow>l1. unat (xs ! k)) + (\<Sum>k\<leftarrow>l2. unat (xs ! k)) = (\<Sum>k\<leftarrow>[0..<?n]. unat (xs ! k))"
    using arg_cong [OF m, of "\<lambda>M. sum_mset (image_mset (\<lambda>k. unat (xs ! k)) M)"] by (simp add: sum_mset_sum_list [symmetric])
  then have s2: "(\<Sum>k\<leftarrow>l2. unat (xs ! k)) = ?total - best" and bb: "best \<le> ?total" using s1 all by simp_all
  have "\<bar>int (?total - best) - int best\<bar> \<le> \<bar>int (lat_sum xs ({..<?n} - S)) - int (lat_sum xs S)\<bar>" if S: "S \<subseteq> {..<?n}" for S
  proof -
    have "lat_sum xs {..<?n} = ?total" using all lat_sum_list [of "[0..<?n]" xs] by (simp add: lessThan_atLeast0)
    moreover have "lat_sum xs {..<?n} = lat_sum xs ({..<?n} - S) + lat_sum xs S"
      unfolding lat_sum_def by (rule sum.subset_diff) (use S in auto)
    ultimately have c: "lat_sum xs ({..<?n} - S) + lat_sum xs S = ?total" by simp
    have le: "lat_sum xs T \<le> best" if "T \<subseteq> {..<?n}" "lat_sum xs T \<le> t" for T
      using max_sum_greatest [OF r0 that(2)] that dp_table_nth [of ?n xs "lat_sum xs T" t]
      by (auto simp: best_def reachable_def)
    have "lat_sum xs S \<le> best \<or> lat_sum xs ({..<?n} - S) \<le> best"
    proof (cases "lat_sum xs S \<le> t")
      case True then show ?thesis using le S by simp
    next
      case False
      then have "lat_sum xs ({..<?n} - S) \<le> t" using c by (simp add: t_def)
      then show ?thesis using le [of "{..<?n} - S"] by simp
    qed
    then show ?thesis using c bt bb unfolding t_def by (auto simp: of_nat_diff)
  qed
  then show ?thesis using p m s1 s2 by auto
qed

theorem partition_optimal_witness:
  "\<exists>l1 l2. partition_lists_dp [5, 3, 4, 7] = Inr (l1, l2) \<and> mset l1 + mset l2 = mset [0..<4] \<and>
     \<bar>int (\<Sum>k\<leftarrow>l2. unat ([5, 3, 4, 7] ! k :: u32)) - int (\<Sum>k\<leftarrow>l1. unat ([5, 3, 4, 7] ! k :: u32))\<bar> \<le> 1"
proof -
  have s: "(\<Sum>x\<leftarrow>[5, 3, 4, 7 :: u32]. unat x) < 2 ^ 31" by simp
  have sub: "{0, 2} \<subseteq> {..<length [5, 3, 4, 7 :: u32]}" by auto
  have "{..<length [5, 3, 4, 7 :: u32]} - {0, 2} = {1, 3 :: nat}" by auto
  then have "\<bar>int (lat_sum [5, 3, 4, 7] ({..<length [5, 3, 4, 7 :: u32]} - {0, 2})) - int (lat_sum [5, 3, 4, 7] {0, 2})\<bar> = 1"
    by (simp add: lat_sum_def)
  moreover obtain l1 l2 where p: "partition_lists_dp [5, 3, 4, 7] = Inr (l1, l2)"
    "mset l1 + mset l2 = mset [0..<length [5, 3, 4, 7 :: u32]]"
    and b: "\<bar>int (\<Sum>k\<leftarrow>l2. unat ([5, 3, 4, 7] ! k :: u32)) - int (\<Sum>k\<leftarrow>l1. unat ([5, 3, 4, 7] ! k :: u32))\<bar>
       \<le> \<bar>int (lat_sum [5, 3, 4, 7] ({..<length [5, 3, 4, 7 :: u32]} - {0, 2})) - int (lat_sum [5, 3, 4, 7] {0, 2})\<bar>"
    using partition_optimal [OF s] sub by blast
  ultimately have "\<bar>int (\<Sum>k\<leftarrow>l2. unat ([5, 3, 4, 7] ! k :: u32)) - int (\<Sum>k\<leftarrow>l1. unat ([5, 3, 4, 7] ! k :: u32))\<bar> \<le> 1"
    by linarith
  moreover have "length [5, 3, 4, 7 :: u32] = 4" by simp
  ultimately show ?thesis using p by metis
qed

end
