(* ===== verification/Requests.thy ===== *)
theory Requests
  imports Tensor
begin

text \<open>
  Inference requests: their record (Common.h), the data set they come from (RequestGenerator.cc),
  the client that issues them (client/Client.cc) and batches of them (BatchedRequest.cc).
  \<open>Ptr<InferRequest>\<close> is an index into the list of all requests ever made.
\<close>

record InferRequest =
  ir_id :: u32
  arrival_cycle :: u32
  completed_cycle :: u32
  input_size :: u32
  output_size :: u32
  is_initiated :: bool
  generated :: u32
  ir_channel :: u32
  K_cache :: "pim_tensor list"
  V_cache :: "pim_tensor list"

subsection \<open>Reading the data set\<close>

text \<open>
  \<open>getline\<close> in a loop: the pieces between delimiters; a last piece that is empty is no piece,
  because the stream is exhausted.
\<close>

fun getlines_acc :: "char \<Rightarrow> string \<Rightarrow> string \<Rightarrow> string list" where
  "getlines_acc delim acc [] = (if acc = [] then [] else [acc])"
| "getlines_acc delim acc (c # cs) =
     (if c = delim then acc # getlines_acc delim [] cs else getlines_acc delim (acc @ [c]) cs)"

definition getlines :: "char \<Rightarrow> string \<Rightarrow> string list" where
  "getlines delim cs = getlines_acc delim [] cs"

text \<open>\<open>std::stoul\<close> in base 10.\<close>

definition is_space :: "char \<Rightarrow> bool" where
  "is_space c \<longleftrightarrow> of_char c \<in> {9, 10, 11, 12, 13, 32 :: nat}"

definition is_digit :: "char \<Rightarrow> bool" where
  "is_digit c \<longleftrightarrow> 48 \<le> (of_char c :: nat) \<and> (of_char c :: nat) \<le> 57"

fun digits_val :: "nat \<Rightarrow> string \<Rightarrow> nat" where
  "digits_val acc [] = acc"
| "digits_val acc (c # cs) = digits_val (acc * 10 + (of_char c - 48)) cs"

definition stoul :: "string \<Rightarrow> fault + u64" where
  "stoul s =
     (let s = dropWhile is_space s;
          (neg, s) = (case s of [] \<Rightarrow> (False, s)
             | c # cs \<Rightarrow> if c = CHR ''-'' then (True, cs) else if c = CHR ''+'' then (False, cs) else (False, s));
          ds = takeWhile is_digit s; v = digits_val 0 ds
      in if ds = [] then Inl Thrown
         else if v \<ge> 2 ^ 64 then Inl Thrown
         else Inr (if neg then - of_nat v else of_nat v))"

fun parse_cells :: "string list \<Rightarrow> fault + u32 list" where
  "parse_cells [] = Inr []"
| "parse_cells (cell # cells) =
     bindE (stoul cell) (\<lambda>v. bindE (parse_cells cells) (\<lambda>vs. Inr (ucast v # vs)))"

fun parse_rows :: "string list \<Rightarrow> fault + u32 list list" where
  "parse_rows [] = Inr []"
| "parse_rows (line # ls) =
     bindE (parse_cells (getlines CHR '','' line)) (\<lambda>row. bindE (parse_rows ls) (\<lambda>rows. Inr (row # rows)))"

record request_generator =
  answer_index :: u32
  row_index :: u32
  columns :: "string list"
  rg_table :: "u32 list list"

text \<open>The contents of the file, \<open>None\<close> when it cannot be opened; \<open>parse\<close> appends to the globals.\<close>

definition rg_parse :: "string option \<Rightarrow> request_generator \<Rightarrow> fault + request_generator" where
  "rg_parse file g = (case file of None \<Rightarrow> Inl AssertFailed
     | Some contents \<Rightarrow> (case getlines CHR 0x0A contents of
          [] \<Rightarrow> Inr g
        | header # ls \<Rightarrow> bindE (parse_rows ls) (\<lambda>rows.
            Inr (g\<lparr>columns := columns g @ getlines CHR '','' header, rg_table := rg_table g @ rows\<rparr>))))"

definition rg_init :: "string option \<Rightarrow> u32 \<Rightarrow> request_generator \<Rightarrow> fault + request_generator" where
  "rg_init file answer g = rg_parse file (g\<lparr>row_index := 0, answer_index := answer\<rparr>)"

definition get_total_req_cnt :: "request_generator \<Rightarrow> u32" where
  "get_total_req_cnt g = of_nat (length (rg_table g))"

definition has_data :: "request_generator \<Rightarrow> bool" where
  "has_data g \<longleftrightarrow> unat (row_index g) < length (rg_table g)"

definition get_qa_length :: "request_generator \<Rightarrow> fault + ((u32 \<times> u32) \<times> request_generator)" where
  "get_qa_length g = ast (has_data g) (bindE (at (rg_table g) (unat (row_index g))) (\<lambda>row.
     bindE (at row 0) (\<lambda>a. bindE (at row (unat (answer_index g))) (\<lambda>b.
       Inr ((a, b), g\<lparr>row_index := row_index g + 1\<rparr>)))))"

subsection \<open>The client\<close>

text \<open>
  \<open>cl_reqs\<close> is the store of all requests, \<open>cl_rid\<close> the static counter of \<open>generate_rid\<close>.  The random
  number generators of the class are set up but not used.
\<close>

record client =
  cl_cycles :: u32
  last_request_cycle :: u32
  need_wait_cycles :: u32
  total_cnt :: u32
  issued_cnt :: u32
  completed_cnt :: u32
  cl_request_interval :: u32
  waiting_queue :: "nat list"
  cl_touch :: bool
  cl_rg :: request_generator
  cl_rid :: u32
  cl_reqs :: "InferRequest list"

definition Client_new :: "sim_config \<Rightarrow> string option \<Rightarrow> request_generator \<Rightarrow> fault + client" where
  "Client_new cfg file g = bindE (rg_init file 1 g) (\<lambda>g.
     Inr \<lparr>cl_cycles = 0, last_request_cycle = 0, need_wait_cycles = 0, total_cnt = get_total_req_cnt g,
          issued_cnt = 0, completed_cnt = 0, cl_request_interval = request_interval cfg, waiting_queue = [],
          cl_touch = False, cl_rg = g, cl_rid = 0, cl_reqs = []\<rparr>)"

text \<open>One iteration of the loop of \<open>cycle\<close> when there is data.\<close>

definition client_issue :: "client \<Rightarrow> fault + client" where
  "client_issue c = bindE (get_qa_length (cl_rg c)) (\<lambda>((input, channel), g).
     let request = \<lparr>ir_id = cl_rid c, arrival_cycle = cl_cycles c, completed_cycle = 0, input_size = input,
           output_size = 1, is_initiated = False, generated = 0, ir_channel = channel, K_cache = [], V_cache = []\<rparr>
     in Inr (c\<lparr>cl_rid := cl_rid c + 1, cl_rg := g, cl_reqs := cl_reqs c @ [request],
               waiting_queue := waiting_queue c @ [length (cl_reqs c)], issued_cnt := issued_cnt c + 1,
               last_request_cycle := cl_cycles c, need_wait_cycles := 0\<rparr>))"

text \<open>
  The loop: \<open>fuel\<close> bounds the iterations; each one consumes a row, so the number of rows left is
  enough.  The iteration that finds no data also takes an id from \<open>generate_rid\<close>.
\<close>

fun client_loop :: "nat \<Rightarrow> client \<Rightarrow> (fault + client) option" where
  "client_loop 0 c = None"
| "client_loop (Suc fuel) c =
     (if cl_touch c then Some (Inr c)
      else if has_data (cl_rg c) then
        (case client_issue c of Inl e \<Rightarrow> Some (Inl e) | Inr c \<Rightarrow> client_loop fuel c)
      else client_loop fuel (c\<lparr>cl_rid := cl_rid c + 1, cl_touch := True\<rparr>))"

definition client_fuel :: "client \<Rightarrow> nat" where
  "client_fuel c = length (rg_table (cl_rg c)) + 2"

definition client_cycle :: "client \<Rightarrow> (fault + client) option" where
  "client_cycle c = (case client_loop (client_fuel c) c of
       None \<Rightarrow> None
     | Some r \<Rightarrow> Some (bindE r (\<lambda>c. let c = c\<lparr>cl_cycles := cl_cycles c + 1\<rparr>
         in if completed_cnt c = total_cnt c then Inl Exited else Inr c)))"

definition client_running :: "client \<Rightarrow> bool" where
  "client_running c \<longleftrightarrow> completed_cnt c < total_cnt c"

definition has_request :: "client \<Rightarrow> bool" where
  "has_request c \<longleftrightarrow> waiting_queue c \<noteq> []"

definition pop_request :: "client \<Rightarrow> fault + (nat \<times> client)" where
  "pop_request c = bindE (front (waiting_queue c)) (\<lambda>r. Inr (r, c\<lparr>waiting_queue := tl (waiting_queue c)\<rparr>))"

definition receive_response :: "nat \<Rightarrow> client \<Rightarrow> fault + client" where
  "receive_response r c = bindE (at (cl_reqs c) r) (\<lambda>req.
     ast (generated req = output_size req)
       (Inr (c\<lparr>cl_reqs := (cl_reqs c)[r := req\<lparr>completed_cycle := cl_cycles c\<rparr>],
               completed_cnt := completed_cnt c + 1\<rparr>)))"

subsection \<open>Batches\<close>

type_synonym batched_request = "nat list"

definition get_num_reqs :: "batched_request \<Rightarrow> u32" where
  "get_num_reqs b = of_nat (length b)"

definition rows_of :: "InferRequest \<Rightarrow> u32" where
  "rows_of req = (if is_initiated req then 1 else input_size req)"

definition get_num_rows_breakdown :: "InferRequest list \<Rightarrow> batched_request \<Rightarrow> fault + u32 list" where
  "get_num_rows_breakdown reqs b = foldE (\<lambda>acc r. bindE (at reqs r) (\<lambda>req. Inr (acc @ [rows_of req]))) [] b"

definition breq_num_rows :: "InferRequest list \<Rightarrow> batched_request \<Rightarrow> fault + u32" where
  "breq_num_rows reqs b = foldE (\<lambda>n r. bindE (at reqs r) (\<lambda>req. Inr (n + rows_of req))) 0 b"

definition breq_is_initiated :: "InferRequest list \<Rightarrow> nat \<Rightarrow> batched_request \<Rightarrow> fault + bool" where
  "breq_is_initiated reqs i b = ast (i < length b) (bindE (at b i) (\<lambda>r. bindE (at reqs r) (\<lambda>req. Inr (is_initiated req))))"

definition get_cache :: "InferRequest list \<Rightarrow> nat \<Rightarrow> nat \<Rightarrow> batched_request \<Rightarrow> fault + (pim_tensor \<times> pim_tensor)" where
  "get_cache reqs layer i b = bindE (at b i) (\<lambda>r. bindE (at reqs r) (\<lambda>req.
     bindE (at (K_cache req) layer) (\<lambda>k. bindE (at (V_cache req) layer) (\<lambda>v. Inr (k, v)))))"

subsection \<open>The data set is read back\<close>

text \<open>A comma separated file, as the data set generator of the repository prints it.\<close>

fun show_nat :: "nat \<Rightarrow> string" where
  "show_nat n = (if n < 10 then [char_of (48 + n)] else show_nat (n div 10) @ [char_of (48 + n mod 10)])"

declare show_nat.simps [simp del]

fun print_row :: "u32 list \<Rightarrow> string" where
  "print_row [] = []"
| "print_row [v] = show_nat (unat v)"
| "print_row (v # vs) = show_nat (unat v) @ CHR '','' # print_row vs"

definition print_table :: "string \<Rightarrow> u32 list list \<Rightarrow> string" where
  "print_table header rows = header @ CHR 0x0A # concat (map (\<lambda>row. print_row row @ [CHR 0x0A]) rows)"

lemma getlines_acc_piece:
  "delim \<notin> set xs \<Longrightarrow> getlines_acc delim acc (xs @ delim # ys) = (acc @ xs) # getlines_acc delim [] ys"
  by (induction xs arbitrary: acc) auto

lemma getlines_acc_last:
  "delim \<notin> set xs \<Longrightarrow> getlines_acc delim acc xs = (if acc @ xs = [] then [] else [acc @ xs])"
  by (induction xs arbitrary: acc) auto

lemma of_char_digit [simp]: "d < 10 \<Longrightarrow> of_char (char_of (48 + d)) = (48 + d :: nat)"
  by simp

lemma show_nat_digits: "\<forall>c \<in> set (show_nat n). is_digit c"
proof (induction n rule: show_nat.induct)
  case (1 n)
  have "is_digit (char_of (48 + d))" if "d < 10" for d :: nat using that by (simp add: is_digit_def)
  then show ?case using 1 by (subst show_nat.simps) auto
qed

lemma show_nat_ne [simp]: "show_nat n \<noteq> []"
  by (subst show_nat.simps) simp

lemma digits_val_append: "digits_val acc (xs @ [c]) = digits_val acc xs * 10 + (of_char c - 48)"
  by (induction xs arbitrary: acc) simp_all

lemma digits_val_show: "digits_val 0 (show_nat n) = n"
proof (induction n rule: show_nat.induct)
  case (1 n)
  show ?case
  proof (cases "n < 10")
    case True then show ?thesis by (subst show_nat.simps) simp
  next
    case False
    then have "digits_val 0 (show_nat n) = digits_val 0 (show_nat (n div 10)) * 10 + n mod 10"
      by (subst show_nat.simps) (simp add: digits_val_append del: of_char_of)
    then show ?thesis using 1 [OF False] by simp
  qed
qed

lemma not_digit: "\<not> is_digit CHR '',''" "\<not> is_digit CHR 0x0A" "\<not> is_digit CHR ''-''" "\<not> is_digit CHR ''+''"
  by (simp_all add: is_digit_def)

lemma digit_not_space: "is_digit c \<Longrightarrow> \<not> is_space c"
  by (auto simp: is_digit_def is_space_def)

lemma stoul_show: "n < 2 ^ 64 \<Longrightarrow> stoul (show_nat n) = Inr (of_nat n)"
proof -
  assume n: "n < 2 ^ 64"
  obtain c cs where s: "show_nat n = c # cs" by (cases "show_nat n") auto
  have d: "\<forall>x \<in> set (c # cs). is_digit x" using show_nat_digits [of n] s by simp
  then have "is_digit c" by simp
  then have c: "\<not> is_space c" "c \<noteq> CHR ''-''" "c \<noteq> CHR ''+''"
    using digit_not_space not_digit by auto
  have "takeWhile is_digit (c # cs) = c # cs" using d by (simp add: takeWhile_eq_all_conv)
  then show ?thesis
    using n c digits_val_show [of n] by (simp add: stoul_def s)
qed

lemma print_row_chars: "\<forall>c \<in> set (print_row row). is_digit c \<or> c = CHR '',''"
  by (induction row rule: print_row.induct) (simp_all add: show_nat_digits ball_Un)

lemma getlines_row: "getlines CHR '','' (print_row row) = map (\<lambda>v. show_nat (unat v)) row"
proof -
  have nc: "CHR '','' \<notin> set (show_nat n)" for n using show_nat_digits [of n] not_digit by blast
  show ?thesis unfolding getlines_def
    by (induction row rule: print_row.induct) (simp_all add: getlines_acc_last getlines_acc_piece nc)
qed

lemma parse_cells_show: "parse_cells (map (\<lambda>v. show_nat (unat v)) row) = Inr row"
proof (induction row)
  case (Cons v row)
  have "unat v < 2 ^ 64" by (rule less_trans [OF unat_u32_less]) simp
  from stoul_show [OF this] have "stoul (show_nat (unat v)) = Inr (ucast v)" by (simp add: unat_ucast_up [symmetric] del: unat_ucast_up)
  moreover have "ucast (ucast v :: u64) = v" by (simp add: ucast_up_ucast_id is_up)
  ultimately show ?case using Cons by simp
qed simp

lemma getlines_table:
  "getlines_acc CHR 0x0A [] (concat (map (\<lambda>row. print_row row @ [CHR 0x0A]) rows)) = map print_row rows"
proof (induction rows)
  case (Cons row rows)
  have "CHR 0x0A \<notin> set (print_row row)" using print_row_chars [of row] not_digit by auto
  then show ?case using Cons by (simp add: getlines_acc_piece)
qed simp

lemma parse_rows_print: "parse_rows (map print_row rows) = Inr rows"
  by (induction rows) (simp_all add: getlines_row parse_cells_show)

lemma rg_parse_print:
  assumes "CHR 0x0A \<notin> set header"
  shows "rg_parse (Some (print_table header rows)) g =
    Inr (g\<lparr>columns := columns g @ getlines CHR '','' header, rg_table := rg_table g @ rows\<rparr>)"
proof -
  have "getlines CHR 0x0A (print_table header rows) = header # map print_row rows"
    using assms by (simp add: getlines_def print_table_def getlines_acc_piece getlines_table)
  then show ?thesis by (simp add: rg_parse_def parse_rows_print)
qed

text \<open>
  C34: Reading a data set back: from a file that holds a header line and the decimal numbers of a
  table, \<open>parse\<close> obtains exactly this table, whatever its size and values.
\<close>

theorem dataset_roundtrip:
  assumes "CHR 0x0A \<notin> set header"
  shows "rg_parse (Some (print_table header rows)) g =
    Inr (g\<lparr>columns := columns g @ getlines CHR '','' header, rg_table := rg_table g @ rows\<rparr>)"
  by (rule rg_parse_print [OF assms])

definition rg_empty :: request_generator where
  "rg_empty = \<lparr>answer_index = 0, row_index = 0, columns = [], rg_table = []\<rparr>"

theorem dataset_roundtrip_witness:
  "rg_parse (Some (print_table ''seq_len,channel'' [[128, 3], [64, 0]])) rg_empty =
     Inr (rg_empty\<lparr>columns := getlines CHR '','' ''seq_len,channel'', rg_table := [[128, 3], [64, 0]]\<rparr>)"
  using dataset_roundtrip [of "''seq_len,channel''" "[[128, 3], [64, 0]]" rg_empty] by (simp add: rg_empty_def)

subsection \<open>The client issues the data set\<close>

text \<open>The requests that the rows of the data set stand for, with consecutive ids.\<close>

definition row_request :: "u32 \<Rightarrow> u32 \<Rightarrow> u32 \<Rightarrow> u32 list \<Rightarrow> InferRequest" where
  "row_request now rid answer row = \<lparr>ir_id = rid, arrival_cycle = now, completed_cycle = 0, input_size = row ! 0,
     output_size = 1, is_initiated = False, generated = 0, ir_channel = row ! unat answer, K_cache = [], V_cache = []\<rparr>"

fun row_requests :: "u32 \<Rightarrow> u32 \<Rightarrow> u32 \<Rightarrow> u32 list list \<Rightarrow> InferRequest list" where
  "row_requests now rid answer [] = []"
| "row_requests now rid answer (row # rows) = row_request now rid answer row # row_requests now (rid + 1) answer rows"

lemma length_row_requests [simp]: "length (row_requests now rid answer rows) = length rows"
  by (induction rows arbitrary: rid) simp_all

lemma row_requests_nth:
  "i < length rows \<Longrightarrow> row_requests now rid answer rows ! i = row_request now (rid + of_nat i) answer (rows ! i)"
  by (induction rows arbitrary: rid i) (auto simp: nth_Cons less_Suc_eq_0_disj algebra_simps split: nat.splits)

lemma client_loop_issues:
  assumes "drop (unat (row_index (cl_rg c))) (rg_table (cl_rg c)) = rows" "length (rg_table (cl_rg c)) < 2 ^ 32"
    and "\<forall>row \<in> set rows. 0 < length row \<and> unat (answer_index (cl_rg c)) < length row"
    and "\<not> cl_touch c" "length rows + 2 \<le> fuel" "unat (row_index (cl_rg c)) \<le> length (rg_table (cl_rg c))"
  shows "\<exists>c'. client_loop fuel c = Some (Inr c') \<and> cl_touch c' \<and>
    cl_reqs c' = cl_reqs c @ row_requests (cl_cycles c) (cl_rid c) (answer_index (cl_rg c)) rows \<and>
    waiting_queue c' = waiting_queue c @ [length (cl_reqs c)..<length (cl_reqs c) + length rows] \<and>
    issued_cnt c' = issued_cnt c + of_nat (length rows) \<and>
    cl_cycles c' = cl_cycles c \<and> completed_cnt c' = completed_cnt c \<and> total_cnt c' = total_cnt c"
  using assms
proof (induction rows arbitrary: c fuel)
  case Nil
  then have nd: "\<not> has_data (cl_rg c)" by (simp add: has_data_def)
  from Nil.prems(5) obtain f where "fuel = Suc (Suc f)" by (metis add_2_eq_Suc' le_Suc_ex plus_nat.simps(2))
  then show ?case using Nil.prems nd by simp
next
  case (Cons row rows)
  let ?g = "cl_rg c" and ?i = "unat (row_index (cl_rg c))"
  have i: "?i < length (rg_table ?g)" using Cons.prems(1) by (metis drop_all list.distinct(1) not_less)
  have row: "rg_table ?g ! ?i = row" and rest: "drop (Suc ?i) (rg_table ?g) = rows"
    using Cons_nth_drop_Suc [OF i] Cons.prems(1) by simp_all
  have u: "unat (row_index ?g + 1) = Suc ?i" using i Cons.prems(2) unat_Suc_u32 [of "row_index ?g"] by simp
  have rl: "0 < length row" "unat (answer_index ?g) < length row" using Cons.prems(3) by simp_all
  define d where "d = c\<lparr>cl_rid := cl_rid c + 1, cl_rg := ?g\<lparr>row_index := row_index ?g + 1\<rparr>,
     cl_reqs := cl_reqs c @ [row_request (cl_cycles c) (cl_rid c) (answer_index ?g) row],
     waiting_queue := waiting_queue c @ [length (cl_reqs c)], issued_cnt := issued_cnt c + 1,
     last_request_cycle := cl_cycles c, need_wait_cycles := 0\<rparr>"
  have q: "get_qa_length ?g = Inr ((row ! 0, row ! unat (answer_index ?g)), ?g\<lparr>row_index := row_index ?g + 1\<rparr>)"
    using i row rl by (simp add: get_qa_length_def has_data_def)
  have iss: "client_issue c = Inr d"
    by (simp add: client_issue_def q d_def row_request_def)
  from Cons.prems(5) obtain f where f: "fuel = Suc f" "length rows + 2 \<le> f" by (cases fuel) auto
  have l: "client_loop fuel c = client_loop f d"
    using Cons.prems(4) i iss by (simp add: f has_data_def)
  have "\<exists>c'. client_loop f d = Some (Inr c') \<and> cl_touch c' \<and>
    cl_reqs c' = cl_reqs d @ row_requests (cl_cycles d) (cl_rid d) (answer_index (cl_rg d)) rows \<and>
    waiting_queue c' = waiting_queue d @ [length (cl_reqs d)..<length (cl_reqs d) + length rows] \<and>
    issued_cnt c' = issued_cnt d + of_nat (length rows) \<and>
    cl_cycles c' = cl_cycles d \<and> completed_cnt c' = completed_cnt d \<and> total_cnt c' = total_cnt d"
    by (rule Cons.IH) (use rest u Cons.prems f i in \<open>simp_all add: d_def\<close>)
  moreover have "[length (cl_reqs c)..<length (cl_reqs c) + length (row # rows)] =
     length (cl_reqs c) # [length (cl_reqs d)..<length (cl_reqs d) + length rows]"
    by (simp add: d_def upt_conv_Cons del: upt_Suc)
  ultimately show ?case unfolding l by (auto simp: d_def simp del: upt_Suc)
qed

text \<open>
  What happens to a client later on: its cycles, the requests taken from it, what the simulator does to a
  request, and the responses.
\<close>

inductive client_later :: "client \<Rightarrow> client \<Rightarrow> bool" where
  client_now: "client_later c c"
| client_tick: "client_later c d \<Longrightarrow> client_cycle d = Some (Inr d') \<Longrightarrow> client_later c d'"
| client_pop: "client_later c d \<Longrightarrow> pop_request d = Inr (r, d') \<Longrightarrow> client_later c d'"
| client_update: "client_later c d \<Longrightarrow> client_later c (d\<lparr>cl_reqs := (cl_reqs d)[r := q]\<rparr>)"
| client_response: "client_later c d \<Longrightarrow> receive_response r d = Inr d' \<Longrightarrow> client_later c d'"

lemma touched_loop: "cl_touch c \<Longrightarrow> client_loop (client_fuel c) c = Some (Inr c)"
  by (simp add: client_fuel_def)

lemma touched_cycle:
  "cl_touch c \<Longrightarrow> client_cycle c = Some (if completed_cnt c = total_cnt c then Inl Exited else Inr (c\<lparr>cl_cycles := cl_cycles c + 1\<rparr>))"
  by (simp add: client_cycle_def touched_loop Let_def)

lemma client_later_issues_nothing:
  "client_later c d \<Longrightarrow> cl_touch c \<Longrightarrow> cl_touch d \<and> issued_cnt d = issued_cnt c \<and> length (cl_reqs d) = length (cl_reqs c) \<and>
     (\<exists>k. waiting_queue d = drop k (waiting_queue c))"
proof (induction rule: client_later.induct)
  case (client_now c)
  then show ?case by (auto intro: exI [of _ 0])
next
  case (client_tick c d d')
  then show ?case by (auto simp: touched_cycle split: if_splits)
next
  case (client_pop c d r d')
  then obtain k where k: "waiting_queue d = drop k (waiting_queue c)" by blast
  have "waiting_queue d' = drop (Suc k) (waiting_queue c)"
    using client_pop(2) k by (auto simp: pop_request_def drop_Suc drop_tl)
  moreover have "cl_touch d' = cl_touch d" "issued_cnt d' = issued_cnt d" "cl_reqs d' = cl_reqs d"
    using client_pop(2) by (auto simp: pop_request_def)
  ultimately show ?case using client_pop by auto
qed (auto simp: receive_response_def ast_def split: if_splits)

text \<open>
  C33: The first cycle of a client issues its whole data set: the loop ends, every row becomes one
  request with an id of its own, in order, and unless the data set is empty (then the process
  exits) the cycle returns.  In every later state, whatever cycles, hand-overs and responses there have
  been, no further request has been issued, the waiting requests are those not yet taken, in order, and
  a cycle only counts the time, or ends the process when all responses are in.
\<close>

theorem client_issues_dataset:
  assumes "Client_new cfg file g = Inr c" "rg_table g = []"
    and "\<forall>row \<in> set (rg_table (cl_rg c)). 2 \<le> length row" "length (rg_table (cl_rg c)) < 2 ^ 32"
    and "rg_table (cl_rg c) \<noteq> []"
  shows "\<exists>c'. client_cycle c = Some (Inr c') \<and> waiting_queue c' = [0..<length (cl_reqs c')] \<and>
    map (\<lambda>r. [input_size r, ir_channel r]) (cl_reqs c') = map (take 2) (rg_table (cl_rg c)) \<and>
    (\<forall>i < length (cl_reqs c'). ir_id (cl_reqs c' ! i) = of_nat i \<and> output_size (cl_reqs c' ! i) = 1 \<and>
       generated (cl_reqs c' ! i) = 0) \<and>
    client_cycle c' = Some (Inr (c'\<lparr>cl_cycles := cl_cycles c' + 1\<rparr>)) \<and>
    (\<forall>d. client_later c' d \<longrightarrow> issued_cnt d = issued_cnt c' \<and> length (cl_reqs d) = length (cl_reqs c') \<and>
       (\<exists>k. waiting_queue d = drop k (waiting_queue c')) \<and>
       client_cycle d = Some (if completed_cnt d = total_cnt d then Inl Exited else Inr (d\<lparr>cl_cycles := cl_cycles d + 1\<rparr>)))"
proof -
  let ?t = "rg_table (cl_rg c)"
  from assms(1) have c: "row_index (cl_rg c) = 0" "answer_index (cl_rg c) = 1" "\<not> cl_touch c" "cl_reqs c = []"
    "waiting_queue c = []" "cl_rid c = 0" "completed_cnt c = 0" "total_cnt c = of_nat (length ?t)" "cl_cycles c = 0"
    by (auto simp: Client_new_def rg_init_def rg_parse_def get_total_req_cnt_def split: option.splits list.splits)
  have "\<exists>c'. client_loop (client_fuel c) c = Some (Inr c') \<and> cl_touch c' \<and>
    cl_reqs c' = cl_reqs c @ row_requests (cl_cycles c) (cl_rid c) (answer_index (cl_rg c)) ?t \<and>
    waiting_queue c' = waiting_queue c @ [length (cl_reqs c)..<length (cl_reqs c) + length ?t] \<and>
    issued_cnt c' = issued_cnt c + of_nat (length ?t) \<and>
    cl_cycles c' = cl_cycles c \<and> completed_cnt c' = completed_cnt c \<and> total_cnt c' = total_cnt c"
    by (rule client_loop_issues) (use c assms(3,4) in \<open>auto simp: client_fuel_def\<close>)
  then obtain d where d: "client_loop (client_fuel c) c = Some (Inr d)" "cl_touch d"
    "cl_reqs d = row_requests 0 0 1 ?t" "waiting_queue d = [0..<length ?t]" "completed_cnt d = 0"
    "total_cnt d = of_nat (length ?t)" using c by auto
  have ne: "(0 :: u32) \<noteq> of_nat (length ?t)"
  proof
    assume "(0 :: u32) = of_nat (length ?t)"
    then have "unat (of_nat (length ?t) :: u32) = 0" by simp
    then show False using assms(4,5) by (simp add: unat_of_nat)
  qed
  define c' where "c' = d\<lparr>cl_cycles := cl_cycles d + 1\<rparr>"
  have cy: "client_cycle c = Some (Inr c')" using d ne by (simp add: client_cycle_def c'_def Let_def)
  have touch: "cl_touch c'" using d(2) by (simp add: c'_def)
  then have "client_cycle c' = Some (Inr (c'\<lparr>cl_cycles := cl_cycles c' + 1\<rparr>))"
    using d ne by (simp add: touched_cycle c'_def)
  moreover note client_later_issues_nothing [OF _ touch] touched_cycle
  moreover have "map (\<lambda>r. [input_size r, ir_channel r]) (cl_reqs c') = map (take 2) ?t"
  proof (rule nth_equalityI)
    fix i assume "i < length (map (\<lambda>r. [input_size r, ir_channel r]) (cl_reqs c'))"
    then have i: "i < length ?t" by (simp add: c'_def d)
    then have "2 \<le> length (?t ! i)" using assms(3) by simp
    then obtain a b xs where "?t ! i = a # b # xs" by (metis Suc_le_length_iff numeral_2_eq_2)
    then show "map (\<lambda>r. [input_size r, ir_channel r]) (cl_reqs c') ! i = map (take 2) ?t ! i"
      using i by (simp add: c'_def d row_requests_nth row_request_def)
  qed (simp add: c'_def d)
  ultimately show ?thesis using cy by (auto simp: c'_def d row_requests_nth row_request_def)
qed

theorem client_issues_dataset_witness:
  "\<exists>c c' d. Client_new demo_cfg (Some (print_table ''seq_len,channel'' [[128, 3], [64, 0]])) rg_empty = Inr c \<and>
     client_cycle c = Some (Inr c') \<and> waiting_queue c' = [0, 1] \<and>
     map (\<lambda>r. [input_size r, ir_channel r]) (cl_reqs c') = [[128, 3], [64, 0]] \<and>
     pop_request (c'\<lparr>cl_cycles := cl_cycles c' + 1\<rparr>) = Inr (0, d) \<and> issued_cnt d = issued_cnt c' \<and> length (cl_reqs d) = 2"
proof -
  let ?f = "Some (print_table ''seq_len,channel'' [[128, 3], [64, 0]])"
  have "rg_init ?f 1 rg_empty =
     Inr ((rg_empty\<lparr>row_index := 0, answer_index := 1\<rparr>)\<lparr>columns := getlines CHR '','' ''seq_len,channel'',
       rg_table := [[128, 3], [64, 0]]\<rparr>)"
    unfolding rg_init_def by (subst rg_parse_print) (simp_all add: rg_empty_def)
  then obtain c where n: "Client_new demo_cfg ?f rg_empty = Inr c" and t: "rg_table (cl_rg c) = [[128, 3], [64, 0]]"
    by (simp add: Client_new_def)
  have e: "rg_table rg_empty = []" by (simp add: rg_empty_def)
  obtain c' where c': "client_cycle c = Some (Inr c')" "waiting_queue c' = [0..<length (cl_reqs c')]"
    "map (\<lambda>r. [input_size r, ir_channel r]) (cl_reqs c') = [[128, 3], [64, 0]]"
    "client_cycle c' = Some (Inr (c'\<lparr>cl_cycles := cl_cycles c' + 1\<rparr>))"
    "\<And>d. client_later c' d \<Longrightarrow> issued_cnt d = issued_cnt c' \<and> length (cl_reqs d) = length (cl_reqs c')"
    using client_issues_dataset [OF n e] t by auto
  have l: "length (cl_reqs c') = 2" using arg_cong [OF c'(3), of length] by simp
  then have q: "waiting_queue c' = [0, 1]" using c'(2) by (simp add: upt_conv_Cons)
  then obtain d where d: "pop_request (c'\<lparr>cl_cycles := cl_cycles c' + 1\<rparr>) = Inr (0, d)" by (simp add: pop_request_def)
  have "client_later c' d" by (rule client_pop [OF client_tick [OF client_now c'(4)] d])
  then have "issued_cnt d = issued_cnt c'" "length (cl_reqs d) = 2" using c'(5) l by auto
  with n c'(1,3) q d show ?thesis by (intro exI [of _ c] exI [of _ c'] exI [of _ d] conjI)
qed

end
