(* ===== verification/Ops.thy ===== *)
theory Ops
  imports Instr Tensor
begin

text \<open>
  \<open>Operation\<close> (operations/Operation.h, Operation.cc): the nodes of the operation graph and the
  part of their behaviour that all operations share.  Operations and tensors are shared objects:
  the graph holds the list of all tensors and of all operations, and a pointer is a position in
  one of them (\<open>None\<close> for a null pointer).
\<close>

subsection \<open>Computations that may not end\<close>

text \<open>\<open>None\<close>: the C++ function loops for ever; otherwise the result or the way it stopped.\<close>

type_synonym 'a run = "(fault + 'a) option"

definition bindR :: "'a run \<Rightarrow> ('a \<Rightarrow> 'b run) \<Rightarrow> 'b run" where
  "bindR m k = (case m of None \<Rightarrow> None | Some (Inl e) \<Rightarrow> Some (Inl e) | Some (Inr x) \<Rightarrow> k x)"

fun foldR :: "('s \<Rightarrow> 'a \<Rightarrow> 's run) \<Rightarrow> 's \<Rightarrow> 'a list \<Rightarrow> 's run" where
  "foldR f s [] = Some (Inr s)"
| "foldR f s (x # xs) = bindR (f s x) (\<lambda>s'. foldR f s' xs)"

lemma bindR_simps [simp]:
  "bindR (Some (Inr x)) k = k x" "bindR (Some (Inl e)) k = Some (Inl e)" "bindR None k = None"
  by (simp_all add: bindR_def)

lemma bindR_Inr [simp]: "bindR m k = Some (Inr y) \<longleftrightarrow> (\<exists>x. m = Some (Inr x) \<and> k x = Some (Inr y))"
  by (auto simp: bindR_def split: option.splits sum.splits)

lemma foldR_append: "foldR f s (xs @ ys) = bindR (foldR f s xs) (\<lambda>s'. foldR f s' ys)"
  by (induction xs arbitrary: s) (auto simp: bindR_def split: option.splits sum.splits)

text \<open>The values of a loop \<open>for (x = start; x < lim; x += step)\<close> on 32-bit unsigned integers.\<close>

partial_function (option) step_range :: "u32 \<Rightarrow> u32 \<Rightarrow> u32 \<Rightarrow> u32 list option" where
  "step_range x lim step =
     (if x < lim then Option.bind (step_range (x + step) lim step) (\<lambda>xs. Some (x # xs)) else Some [])"

declare step_range.simps [code]

subsection \<open>Tensors and operations\<close>

datatype tensor = NT npu_tensor | PT pim_tensor

definition tensor_dims :: "tensor \<Rightarrow> u32 list" where
  "tensor_dims t = (case t of NT n \<Rightarrow> bt_dims n | PT p \<Rightarrow> bt_dims p)"

definition tensor_produced :: "tensor \<Rightarrow> bool" where
  "tensor_produced t = (case t of NT n \<Rightarrow> bt_produced n | PT p \<Rightarrow> bt_produced p)"

definition tensor_children :: "tensor \<Rightarrow> nat list" where
  "tensor_children t = (case t of NT n \<Rightarrow> bt_child_nodes n | PT p \<Rightarrow> bt_child_nodes p)"

definition tensor_add_child :: "nat \<Rightarrow> tensor \<Rightarrow> tensor" where
  "tensor_add_child oi t = (case t of NT n \<Rightarrow> NT (add_child_node oi n) | PT p \<Rightarrow> PT (add_child_node oi p))"

definition tensor_set_produced :: "tensor \<Rightarrow> tensor" where
  "tensor_set_produced t = (case t of NT n \<Rightarrow> NT (set_produced n) | PT p \<Rightarrow> PT (set_produced p))"

text \<open>\<open>std::static_pointer_cast\<close>: a cast to the wrong class is undefined when used.\<close>

definition as_npu :: "tensor \<Rightarrow> fault + npu_tensor" where
  "as_npu t = (case t of NT n \<Rightarrow> Inr n | PT _ \<Rightarrow> Inl Undefined)"

definition as_pim :: "tensor \<Rightarrow> fault + pim_tensor" where
  "as_pim t = (case t of PT p \<Rightarrow> Inr p | NT _ \<Rightarrow> Inl Undefined)"

record OperationStat =
  os_op_name :: string
  os_start_cycle :: u64
  os_end_cycle :: u64
  os_compute_cycles :: u64
  os_weight_load_cycles :: u64
  os_memory_stalls :: u64
  os_systolic_memory_stalls :: u64
  os_memory_reads :: u64
  os_memory_writes :: u64
  os_sram_reads :: u64
  os_sram_writes :: u64
  os_num_calculation :: u64

definition OperationStat_new :: "string \<Rightarrow> OperationStat" where
  "OperationStat_new name = \<lparr>os_op_name = name, os_start_cycle = - 1, os_end_cycle = 0, os_compute_cycles = 0,
     os_weight_load_cycles = 0, os_memory_stalls = 0, os_systolic_memory_stalls = 0, os_memory_reads = 0,
     os_memory_writes = 0, os_sram_reads = 0, os_sram_writes = 0, os_num_calculation = 0\<rparr>"

definition op_update_stat :: "TileStat \<Rightarrow> OperationStat \<Rightarrow> OperationStat" where
  "op_update_stat ts s = s\<lparr>
     os_start_cycle := (if ts_start_cycle ts < os_start_cycle s then ts_start_cycle ts else os_start_cycle s),
     os_end_cycle := (if os_end_cycle s > ts_end_cycle ts then os_end_cycle s else ts_end_cycle ts),
     os_compute_cycles := os_compute_cycles s + ts_compute_cycles ts,
     os_memory_stalls := os_memory_stalls s + ts_memory_stalls ts,
     os_memory_reads := os_memory_reads s + ts_memory_reads ts,
     os_memory_writes := os_memory_writes s + ts_memory_writes ts,
     os_num_calculation := os_num_calculation s + ts_num_calculation ts\<rparr>"

record operation =
  op_id :: u32
  op_name :: string
  op_optype :: string
  op_inputs :: "nat option list"
  op_outputs :: "nat list"
  op_tiles :: "Tile list"
  op_stat :: OperationStat
  op_finish :: bool
  op_spad_addr :: addr_type
  op_acc_spad_addr :: addr_type

abbreviation "INPUT_OPERAND \<equiv> (100 :: u32)"
abbreviation "OUTPUT_OPERAND \<equiv> (200 :: u32)"

record graph =
  g_tensors :: "tensor list"
  g_ops :: "operation list"
  g_mem :: mem_state

definition get_op :: "nat \<Rightarrow> graph \<Rightarrow> fault + operation" where
  "get_op oi g = at (g_ops g) oi"

definition upd_op :: "nat \<Rightarrow> (operation \<Rightarrow> operation) \<Rightarrow> graph \<Rightarrow> fault + graph" where
  "upd_op oi f g = bindE (get_op oi g) (\<lambda>oper. Inr (g\<lparr>g_ops := (g_ops g)[oi := f oper]\<rparr>))"

definition get_tensor :: "nat \<Rightarrow> graph \<Rightarrow> fault + tensor" where
  "get_tensor ti g = at (g_tensors g) ti"

definition upd_tensor :: "nat \<Rightarrow> (tensor \<Rightarrow> tensor) \<Rightarrow> graph \<Rightarrow> fault + graph" where
  "upd_tensor ti f g = bindE (get_tensor ti g) (\<lambda>t. Inr (g\<lparr>g_tensors := (g_tensors g)[ti := f t]\<rparr>))"

text \<open>The input \<open>k\<close> of an operation; a missing or null input is undefined.\<close>

definition op_input :: "operation \<Rightarrow> nat \<Rightarrow> graph \<Rightarrow> fault + tensor" where
  "op_input oper k g = bindE (at (op_inputs oper) k) (\<lambda>r. case r of None \<Rightarrow> Inl Undefined | Some ti \<Rightarrow> get_tensor ti g)"

text \<open>\<open>make_shared\<close> of a tensor or an operation.\<close>

definition new_tensor :: "tensor \<Rightarrow> graph \<Rightarrow> nat \<times> graph" where
  "new_tensor t g = (length (g_tensors g), g\<lparr>g_tensors := g_tensors g @ [t]\<rparr>)"

definition new_act_tensor :: "env \<Rightarrow> string \<Rightarrow> u32 list \<Rightarrow> bool \<Rightarrow> graph \<Rightarrow> fault + (nat \<times> graph)" where
  "new_act_tensor e name dims produced g =
     bindE (NPUTensor_new (e_cfg e) (e_alignment e) name dims ACT produced (g_mem g)) (\<lambda>(t, ms).
       Inr (new_tensor (NT t) (g\<lparr>g_mem := ms\<rparr>)))"

definition Operation_new :: "string \<Rightarrow> nat option list \<Rightarrow> graph \<Rightarrow> nat \<times> graph" where
  "Operation_new name inputs g =
     (let (i, ms) = generate_id (g_mem g);
          oper = \<lparr>op_id = i, op_name = name, op_optype = name, op_inputs = inputs, op_outputs = [], op_tiles = [],
                op_stat = OperationStat_new name, op_finish = False, op_spad_addr = SPAD_BASE,
                op_acc_spad_addr = ACCUM_SPAD_BASE\<rparr>
      in (length (g_ops g), g\<lparr>g_ops := g_ops g @ [oper], g_mem := ms\<rparr>))"

definition allocate_sram_addr :: "sim_config \<Rightarrow> u32 \<Rightarrow> bool \<Rightarrow> operation \<Rightarrow> (addr_type \<times> u32) \<times> operation" where
  "allocate_sram_addr cfg sz accum oper =
     (let spad_addr = (if accum then op_acc_spad_addr oper else op_spad_addr oper);
          bytes = sz * precision cfg;
          oper = (if accum then oper\<lparr>op_acc_spad_addr := op_acc_spad_addr oper + ucast bytes\<rparr>
                else oper\<lparr>op_spad_addr := op_spad_addr oper + ucast bytes\<rparr>)
      in ((spad_addr, bytes), oper))"

definition set_as_parent_tensor :: "nat \<Rightarrow> nat list \<Rightarrow> graph \<Rightarrow> fault + graph" where
  "set_as_parent_tensor oi inputs g = foldE (\<lambda>g ti. upd_tensor ti (tensor_add_child oi) g) g inputs"

definition reduce_tile :: "nat \<Rightarrow> Tile \<Rightarrow> graph \<Rightarrow> fault + graph" where
  "reduce_tile oi tile g = upd_op oi (\<lambda>oper. oper\<lparr>op_stat := op_update_stat (tl_stat tile) (op_stat oper)\<rparr>) g"

definition set_finish :: "nat \<Rightarrow> graph \<Rightarrow> fault + graph" where
  "set_finish oi g = bindE (get_op oi g) (\<lambda>oper.
     bindE (foldE (\<lambda>g ti. upd_tensor ti tensor_set_produced g) g (op_outputs oper)) (\<lambda>g.
       upd_op oi (\<lambda>oper. oper\<lparr>op_finish := True\<rparr>) g))"

definition op_child_nodes :: "nat \<Rightarrow> graph \<Rightarrow> fault + nat list" where
  "op_child_nodes oi g = bindE (get_op oi g) (\<lambda>oper.
     foldE (\<lambda>res ti. bindE (get_tensor ti g) (\<lambda>t. Inr (res @ tensor_children t))) [] (op_outputs oper))"

text \<open>The trace message dereferences every input, also after \<open>result\<close> is false.\<close>

definition check_executable :: "nat \<Rightarrow> graph \<Rightarrow> fault + bool" where
  "check_executable oi g = bindE (get_op oi g) (\<lambda>oper.
     foldE (\<lambda>res r. case r of None \<Rightarrow> Inl Undefined
       | Some ti \<Rightarrow> bindE (get_tensor ti g) (\<lambda>t. Inr (res \<and> tensor_produced t))) True (op_inputs oper))"

end
