(* ===== verification/VecOps.thy ===== *)
theory VecOps
  imports Ops Systolic
begin

text \<open>
  The operations on the vector units (operations/Add.cc, Gelu.cc, LayerNorm.cc, Softmax.cc): how
  each splits its rows into tiles that fit half of the scratchpad, and the instructions of a tile.
\<close>

subsection \<open>Splitting the rows\<close>

text \<open>
  The loop that all \<open>calculate_loops\<close> share: halve the rows of a tile, rounding up, and double the
  number of tiles until the tile fits.
\<close>

partial_function (option) vec_loops :: "(u32 \<Rightarrow> u32) \<Rightarrow> u32 \<Rightarrow> u32 \<Rightarrow> u32 \<Rightarrow> (u32 \<times> u32) option" where
  "vec_loops needed limit outer inner =
     (if needed inner > limit
      then vec_loops needed limit (outer * 2) ((inner AND 1) + drop_bit 1 inner)
      else Some (outer, inner))"

declare vec_loops.simps [code]

definition spad_limit :: "sim_config \<Rightarrow> u32" where
  "spad_limit cfg = spad_size cfg * 1024 div 2"

definition round_to :: "u32 \<Rightarrow> u32 \<Rightarrow> u32" where
  "round_to width k = (if k mod width \<noteq> 0 then k + (width - k mod width) else k)"

definition dims_prod :: "u32 list \<Rightarrow> u32" where
  "dims_prod ds = foldl (*) 1 ds"

text \<open>\<open>calculate_loops\<close>: all dimensions but the last \<open>skip\<close> are rows.\<close>

definition calc_vec_loops :: "sim_config \<Rightarrow> u32 \<Rightarrow> (u32 \<Rightarrow> u32) \<Rightarrow> nat \<Rightarrow> u32 list \<Rightarrow> (u32 \<times> u32) run" where
  "calc_vec_loops cfg width needed skip dims =
     (if width = 0 then Some (Inl Undefined)
      else case vec_loops needed (spad_limit cfg) 1 (dims_prod (take (length dims - skip) dims)) of
             None \<Rightarrow> None | Some r \<Rightarrow> Some (Inr r))"

definition vec_back :: "u32 list \<Rightarrow> fault + u32" where
  "vec_back ds = (if ds = [] then Inl Undefined else Inr (last ds))"

subsection \<open>Instructions\<close>

definition vec_tile :: "operation \<Rightarrow> u32 \<Rightarrow> Instruction list \<Rightarrow> Tile" where
  "vec_tile oper N insts = Tile0\<lparr>tl_status := INITIALIZED, tl_optype := op_name oper, tl_operation_id := op_id oper,
     tl_batch := N, tl_K := 0, tl_accum := False, tl_instructions := insts\<rparr>"

definition movin :: "sim_config \<Rightarrow> addr_type \<Rightarrow> addr_type list \<Rightarrow> u32 \<Rightarrow> Instruction" where
  "movin cfg dest addrs operand = Instruction0\<lparr>opcode := MOVIN, dest_addr := dest,
     inst_size := of_nat (length addrs) * precision cfg, src_addrs := addrs, operand_id := operand\<rparr>"

definition movout :: "sim_config \<Rightarrow> addr_type \<Rightarrow> addr_type list \<Rightarrow> Instruction" where
  "movout cfg dest addrs = Instruction0\<lparr>opcode := MOVOUT, dest_addr := dest,
     inst_size := of_nat (length addrs) * precision cfg, src_addrs := addrs, operand_id := OUTPUT_OPERAND\<rparr>"

text \<open>
  A compute instruction.  Its size is \<open>activation_addrs.size()\<close>, read after the vector was moved
  into the load instruction: a moved-from vector is empty, so the size is 0.
\<close>

definition vcomp :: "Opcode \<Rightarrow> addr_type \<Rightarrow> u32 \<Rightarrow> addr_type list \<Rightarrow> Instruction" where
  "vcomp opc dest sz srcs = Instruction0\<lparr>opcode := opc, dest_addr := dest, inst_size := sz, src_addrs := srcs\<rparr>"

text \<open>The activation and output rows that the row \<open>i\<close> of the tile \<open>N\<close> works on.\<close>

definition in_row :: "operation \<Rightarrow> nat \<Rightarrow> u32 \<Rightarrow> graph \<Rightarrow> fault + addr_type list" where
  "in_row oper k row g = bindE (op_input oper k g) (\<lambda>t. bindE (as_npu t) (\<lambda>n. NPUTensor_get_row_addrs row n))"

definition out_row :: "operation \<Rightarrow> nat \<Rightarrow> u32 \<Rightarrow> graph \<Rightarrow> fault + addr_type list" where
  "out_row oper k row g = bindE (at (op_outputs oper) k) (\<lambda>ti. bindE (get_tensor ti g) (\<lambda>t.
     bindE (as_npu t) (\<lambda>n. NPUTensor_get_row_addrs row n)))"

definition Add_row :: "sim_config \<Rightarrow> operation \<Rightarrow> graph \<Rightarrow> u32 \<Rightarrow> u32 \<Rightarrow> u32 \<Rightarrow> fault + Instruction list" where
  "Add_row cfg oper g weight_count n_outer_offset i =
     (let act0 = SPAD_BASE + ucast (2 * i * weight_count * precision cfg);
          act1 = SPAD_BASE + ucast ((2 * i + 1) * weight_count * precision cfg);
          acc = ACCUM_SPAD_BASE + ucast (i * weight_count * precision cfg)
      in bindE (in_row oper 0 (n_outer_offset + i) g) (\<lambda>a0.
         bindE (in_row oper 1 (n_outer_offset + i) g) (\<lambda>a1.
         bindE (out_row oper 0 (n_outer_offset + i) g) (\<lambda>out.
         ast (length out > 0)
           (Inr [movin cfg act0 a0 INPUT_OPERAND, movin cfg act1 a1 INPUT_OPERAND,
                 vcomp ADD acc 0 [act0, act1], movout cfg acc out])))))"

text \<open>\<open>Gelu\<close> and \<open>Softmax\<close> differ in the opcode and in which request they belong to.\<close>

definition unary_row :: "Opcode \<Rightarrow> nat \<Rightarrow> sim_config \<Rightarrow> operation \<Rightarrow> graph \<Rightarrow> u32 \<Rightarrow> u32 \<Rightarrow> u32 \<Rightarrow>
    fault + Instruction list" where
  "unary_row opc req_idx cfg oper g weight_count n_outer_offset i =
     (let act = SPAD_BASE + ucast (i * weight_count * precision cfg);
          acc = ACCUM_SPAD_BASE + ucast (i * weight_count * precision cfg)
      in bindE (in_row oper req_idx (n_outer_offset + i) g) (\<lambda>a.
         bindE (out_row oper req_idx (n_outer_offset + i) g) (\<lambda>out.
         ast (length out > 0)
           (Inr [movin cfg act a INPUT_OPERAND, vcomp opc acc 0 [act], movout cfg acc out]))))"

text \<open>
  \<open>LayerNorm\<close> leaves out an empty load.
\<close>

definition LayerNorm_row :: "sim_config \<Rightarrow> operation \<Rightarrow> graph \<Rightarrow> u32 \<Rightarrow> u32 \<Rightarrow> u32 \<Rightarrow> fault + Instruction list" where
  "LayerNorm_row cfg oper g weight_count n_outer_offset i =
     (let gamma = SPAD_BASE; beta = gamma + ucast (weight_count * precision cfg);
          act = beta + ucast (weight_count * precision cfg) + ucast (i * weight_count * precision cfg);
          acc = ACCUM_SPAD_BASE + ucast (i * weight_count * precision cfg)
      in bindE (in_row oper 0 (n_outer_offset + i) g) (\<lambda>a.
         bindE (out_row oper 0 (n_outer_offset + i) g) (\<lambda>out.
         ast (length out > 0)
           (Inr ((if length a = 0 then [] else [movin cfg act a INPUT_OPERAND]) @
                 [vcomp LAYERNORM acc 0 [act, gamma, beta], movout cfg acc out])))))"

definition rows_insts :: "(u32 \<Rightarrow> fault + Instruction list) \<Rightarrow> u32 \<Rightarrow> fault + Instruction list" where
  "rows_insts row n_inner = foldE (\<lambda>insts i. bindE (row (of_nat i)) (\<lambda>xs. Inr (insts @ xs))) [] [0..<unat n_inner]"

definition Add_initialize_instructions :: "sim_config \<Rightarrow> operation \<Rightarrow> graph \<Rightarrow> u32 list \<Rightarrow> u32 \<Rightarrow> u32 \<Rightarrow> fault + Tile" where
  "Add_initialize_instructions cfg oper g input_dim n_inner N =
     bindE (vec_back input_dim) (\<lambda>weight_count.
     bindE (rows_insts (Add_row cfg oper g weight_count (n_inner * N)) n_inner) (\<lambda>insts. Inr (vec_tile oper N insts)))"

definition unary_initialize_instructions :: "Opcode \<Rightarrow> nat \<Rightarrow> sim_config \<Rightarrow> operation \<Rightarrow> graph \<Rightarrow> u32 list \<Rightarrow>
    u32 \<Rightarrow> u32 \<Rightarrow> fault + Tile" where
  "unary_initialize_instructions opc req_idx cfg oper g input_dim n_inner N =
     bindE (vec_back input_dim) (\<lambda>weight_count.
     bindE (rows_insts (unary_row opc req_idx cfg oper g weight_count (n_inner * N)) n_inner) (\<lambda>insts.
       Inr (vec_tile oper N insts)))"

definition LayerNorm_initialize_instructions :: "sim_config \<Rightarrow> operation \<Rightarrow> graph \<Rightarrow> u32 list \<Rightarrow> u32 \<Rightarrow> u32 \<Rightarrow>
    fault + Tile" where
  "LayerNorm_initialize_instructions cfg oper g weight_dim n_inner N =
     (let weight_count = dims_prod weight_dim; gamma = SPAD_BASE;
          beta = gamma + ucast (weight_count * precision cfg)
      in bindE (if length (op_inputs oper) = 3
                then bindE (op_input oper 2 g) (\<lambda>t. bindE (as_npu t) (\<lambda>n. bindE (NPUTensor_get_all_addrs n) (\<lambda>addrs.
                       Inr [movin cfg beta addrs (INPUT_OPERAND + 2)])))
                else Inr []) (\<lambda>bias.
         bindE (op_input oper 1 g) (\<lambda>t. bindE (as_npu t) (\<lambda>n. bindE (NPUTensor_get_all_addrs n) (\<lambda>gaddrs.
         bindE (rows_insts (LayerNorm_row cfg oper g weight_count (n_inner * N)) n_inner) (\<lambda>insts.
           Inr (vec_tile oper N (bias @ [movin cfg gamma gaddrs (INPUT_OPERAND + 1)] @ insts))))))))"

definition make_tiles :: "(u32 \<Rightarrow> fault + Tile) \<Rightarrow> u32 \<Rightarrow> fault + Tile list" where
  "make_tiles tile n_outer = foldE (\<lambda>ts N. bindE (tile (of_nat N)) (\<lambda>t. Inr (ts @ [t]))) [] [0..<unat n_outer]"

subsection \<open>The operations\<close>

text \<open>The first statements of every \<open>get_outputs\<close>: register as a child, record inputs and outputs.\<close>

definition set_inputs :: "nat \<Rightarrow> nat option list \<Rightarrow> graph \<Rightarrow> fault + graph" where
  "set_inputs oi ins g = upd_op oi (\<lambda>oper. oper\<lparr>op_inputs := ins\<rparr>) g"

definition set_outputs :: "nat \<Rightarrow> nat list \<Rightarrow> graph \<Rightarrow> fault + graph" where
  "set_outputs oi outs g = upd_op oi (\<lambda>oper. oper\<lparr>op_outputs := outs\<rparr>) g"

definition add_tiles :: "nat \<Rightarrow> Tile list \<Rightarrow> graph \<Rightarrow> fault + graph" where
  "add_tiles oi ts g = upd_op oi (\<lambda>oper. oper\<lparr>op_tiles := op_tiles oper @ ts\<rparr>) g"

definition Add_sram_size_needed :: "sim_config \<Rightarrow> u32 \<Rightarrow> u32 \<Rightarrow> u32" where
  "Add_sram_size_needed cfg k n = 3 * n * round_to (core_width cfg) k * precision cfg"

definition Gelu_sram_size_needed :: "sim_config \<Rightarrow> u32 \<Rightarrow> u32 \<Rightarrow> u32" where
  "Gelu_sram_size_needed cfg k n = 2 * n * round_to (vector_core_width cfg) k * precision cfg"

definition LayerNorm_sram_size_needed :: "sim_config \<Rightarrow> u32 \<Rightarrow> u32 \<Rightarrow> u32" where
  "LayerNorm_sram_size_needed cfg k n = round_to (core_width cfg) k * (n * 3 + 2) * precision cfg"

definition Softmax_sram_size_needed :: "sim_config \<Rightarrow> u32 \<Rightarrow> u32 \<Rightarrow> u32" where
  "Softmax_sram_size_needed cfg k n = n * (2 * round_to (vector_core_width cfg) k + 1) * precision cfg"

text \<open>\<open>calculate_loops\<close> and \<open>initialize_tiles\<close> of \<open>Add\<close>, then the result of \<open>get_outputs\<close>.\<close>

definition Add_new :: "string \<Rightarrow> graph \<Rightarrow> nat \<times> graph" where
  "Add_new name g = Operation_new name [None, None] g"

definition Add_get_outputs :: "env \<Rightarrow> nat \<Rightarrow> nat list \<Rightarrow> graph \<Rightarrow> (nat list \<times> graph) run" where
  "Add_get_outputs e oi inputs g =
     (let cfg = e_cfg e in
      bindR (Some (bindE (set_as_parent_tensor oi inputs g) (\<lambda>g. ast (length inputs = 2)
        (bindE (set_inputs oi (map Some inputs) g) (\<lambda>g. bindE (get_tensor (inputs ! 0) g) (\<lambda>t0.
         bindE (get_tensor (inputs ! 1) g) (\<lambda>t1. ast (tensor_dims t1 = tensor_dims t0)
           (bindE (get_op oi g) (\<lambda>oper.
            bindE (new_act_tensor e (op_name oper @ ''_output'') (tensor_dims t0) False g) (\<lambda>(ti, g).
            bindE (set_outputs oi [ti] g) (\<lambda>g. bindE (vec_back (tensor_dims t0)) (\<lambda>k. Inr (tensor_dims t0, k, ti, g)))))))))))))
        (\<lambda>(dims, k, ti, g). bindR (calc_vec_loops cfg (core_width cfg) (Add_sram_size_needed cfg k) 1 dims) (\<lambda>(outer, inner).
           Some (bindE (get_op oi g) (\<lambda>oper. bindE (make_tiles (Add_initialize_instructions cfg oper g dims inner) outer) (\<lambda>ts.
             bindE (add_tiles oi ts g) (\<lambda>g. Inr ([ti], g))))))))"

definition Gelu_new :: "string \<Rightarrow> graph \<Rightarrow> nat \<times> graph" where
  "Gelu_new name g = Operation_new name [None] g"

definition Gelu_get_outputs :: "env \<Rightarrow> nat \<Rightarrow> nat list \<Rightarrow> graph \<Rightarrow> (nat list \<times> graph) run" where
  "Gelu_get_outputs e oi inputs g =
     (let cfg = e_cfg e in
      bindR (Some (bindE (set_as_parent_tensor oi inputs g) (\<lambda>g. ast (length inputs = 1)
        (bindE (set_inputs oi (map Some inputs) g) (\<lambda>g. bindE (get_tensor (inputs ! 0) g) (\<lambda>t0.
         bindE (get_op oi g) (\<lambda>oper.
         bindE (new_act_tensor e (op_name oper @ ''_output'') (tensor_dims t0) False g) (\<lambda>(ti, g).
         bindE (set_outputs oi [ti] g) (\<lambda>g. bindE (vec_back (tensor_dims t0)) (\<lambda>k. Inr (tensor_dims t0, k, ti, g)))))))))))
        (\<lambda>(dims, k, ti, g). bindR (calc_vec_loops cfg (vector_core_width cfg) (Gelu_sram_size_needed cfg k) 1 dims) (\<lambda>(outer, inner).
           Some (bindE (get_op oi g) (\<lambda>oper.
             bindE (make_tiles (unary_initialize_instructions GELU 0 cfg oper g dims inner) outer) (\<lambda>ts.
             bindE (add_tiles oi ts g) (\<lambda>g. Inr ([ti], g))))))))"

text \<open>The weights are tensors of the model; a weight that the model does not have is a null pointer.\<close>

definition deref_npu :: "nat option \<Rightarrow> graph \<Rightarrow> fault + npu_tensor" where
  "deref_npu r g = (case r of None \<Rightarrow> Inl Undefined | Some ti \<Rightarrow> bindE (get_tensor ti g) as_npu)"

definition LayerNorm_new :: "string \<Rightarrow> nat option list \<Rightarrow> graph \<Rightarrow> fault + (nat \<times> u32 list \<times> graph)" where
  "LayerNorm_new name weights g =
     (let (oi, g) = Operation_new name [] g
      in ast (length weights = 2) (bindE (deref_npu (weights ! 0) g) (\<lambda>w0. bindE (deref_npu (weights ! 1) g) (\<lambda>w1.
           ast (get_dims w0 = get_dims w1)
             (bindE (set_inputs oi (None # weights) g) (\<lambda>g. Inr (oi, get_dims w0, g)))))))"

fun dims_match :: "u32 list \<Rightarrow> u32 list \<Rightarrow> fault + unit" where
  "dims_match [] ds = Inr ()"
| "dims_match (w # ws) [] = Inl Undefined"
| "dims_match (w # ws) (d # ds) = ast (w = d) (dims_match ws ds)"

definition LayerNorm_get_outputs :: "env \<Rightarrow> nat \<Rightarrow> u32 list \<Rightarrow> nat list \<Rightarrow> graph \<Rightarrow> (nat list \<times> graph) run" where
  "LayerNorm_get_outputs e oi weight_dim inputs g =
     (let cfg = e_cfg e in
      bindR (Some (bindE (set_as_parent_tensor oi inputs g) (\<lambda>g. ast (length inputs = 1)
        (bindE (get_op oi g) (\<lambda>oper. if op_inputs oper = [] then Inl Undefined else
         bindE (set_inputs oi ((op_inputs oper)[0 := Some (inputs ! 0)]) g) (\<lambda>g.
         bindE (get_tensor (inputs ! 0) g) (\<lambda>t0. bindE (dims_match (rev weight_dim) (rev (tensor_dims t0))) (\<lambda>_.
         bindE (new_act_tensor e (op_name oper @ ''_output'') (tensor_dims t0) False g) (\<lambda>(ti, g).
         bindE (set_outputs oi [ti] g) (\<lambda>g. Inr (tensor_dims t0, ti, g)))))))))))
        (\<lambda>(dims, ti, g). bindR (calc_vec_loops cfg (core_width cfg) (LayerNorm_sram_size_needed cfg (dims_prod weight_dim))
             (length weight_dim) dims) (\<lambda>(outer, inner).
           Some (bindE (get_op oi g) (\<lambda>oper.
             bindE (make_tiles (LayerNorm_initialize_instructions cfg oper g weight_dim inner) outer) (\<lambda>ts.
             bindE (add_tiles oi ts g) (\<lambda>g. Inr ([ti], g))))))))"

definition Softmax_new :: "string \<Rightarrow> graph \<Rightarrow> nat \<times> graph" where
  "Softmax_new name g = Operation_new name [] g"

definition Softmax_outputs :: "env \<Rightarrow> nat \<Rightarrow> nat list \<Rightarrow> graph \<Rightarrow> fault + (nat list \<times> graph)" where
  "Softmax_outputs e oi inputs g = foldE (\<lambda>(outs, g) ti. bindE (get_tensor ti g) (\<lambda>t. bindE (get_op oi g) (\<lambda>oper.
       bindE (new_act_tensor e (op_name oper @ ''_output'') (tensor_dims t) False g) (\<lambda>(o', g). Inr (outs @ [o'], g)))))
     ([], g) inputs"

definition Softmax_tiles :: "env \<Rightarrow> nat \<Rightarrow> nat list \<Rightarrow> graph \<Rightarrow> nat \<Rightarrow> graph run" where
  "Softmax_tiles e oi inputs g i =
     (let cfg = e_cfg e in
      bindR (Some (bindE (get_tensor (inputs ! i) g) (\<lambda>t. bindE (vec_back (tensor_dims t)) (\<lambda>k. Inr (tensor_dims t, k)))))
        (\<lambda>(dims, k). bindR (calc_vec_loops cfg (vector_core_width cfg) (Softmax_sram_size_needed cfg k) 1 dims) (\<lambda>(outer, inner).
           Some (bindE (get_op oi g) (\<lambda>oper.
             bindE (make_tiles (unary_initialize_instructions SOFTMAX i cfg oper g dims inner) outer) (\<lambda>ts. add_tiles oi ts g))))))"

definition Softmax_get_outputs :: "env \<Rightarrow> nat \<Rightarrow> nat list \<Rightarrow> graph \<Rightarrow> (nat list \<times> graph) run" where
  "Softmax_get_outputs e oi inputs g =
     bindR (Some (bindE (set_as_parent_tensor oi inputs g) (\<lambda>g. bindE (set_inputs oi (map Some inputs) g) (\<lambda>g.
        bindE (Softmax_outputs e oi inputs g) (\<lambda>(outs, g). bindE (set_outputs oi outs g) (\<lambda>g. Inr (outs, g)))))))
       (\<lambda>(outs, g). bindR (foldR (Softmax_tiles e oi inputs) g [0..<length inputs]) (\<lambda>g. Some (Inr (outs, g))))"

subsection \<open>The tiling\<close>

lemma unat_half_up: "unat ((n AND 1) + drop_bit 1 n :: u32) = cdiv (unat n) 2"
proof -
  have a: "unat (n AND 1) = unat n mod 2" by (simp add: and_one_eq unat_mod)
  have d: "unat (drop_bit 1 n) = unat n div 2" by (simp add: drop_bit_eq_div unat_div)
  have "unat n mod 2 + unat n div 2 = cdiv (unat n) 2" unfolding cdiv_def by (cases "even (unat n)") (auto elim!: evenE oddE)
  moreover have "cdiv k 2 < 2 ^ 32" if "k < 4294967296" for k using that by (simp add: cdiv_def)
  ultimately show ?thesis using a d unat_u32_less [of n] by (simp add: unat_word_ariths)
qed

lemma cdiv_cdiv_2: "cdiv (cdiv n (2 ^ j)) 2 = cdiv n (2 ^ Suc j)"
proof -
  have "cdiv (cdiv n (2 ^ j)) 2 \<le> m \<longleftrightarrow> cdiv n (2 ^ Suc j) \<le> m" for m
    by (simp add: cdiv_le_iff mult.assoc mult.commute)
  then show ?thesis by (meson le_antisym order_refl)
qed

lemma cdiv_1 [simp]: "cdiv n 1 = n"
  by (simp add: cdiv_def)

lemma cdiv_pos: "0 < b \<Longrightarrow> 0 < n \<Longrightarrow> 0 < cdiv n b"
  by (simp add: cdiv_def div_greater_zero_iff)

lemma cdiv_le: "0 < b \<Longrightarrow> cdiv n b \<le> n"
  by (simp add: cdiv_le_iff)

lemma cdiv_pow_eq_1: "0 < n \<Longrightarrow> n \<le> 2 ^ j \<Longrightarrow> cdiv n (2 ^ j) = 1"
  using cdiv_le_iff [of "2 ^ j" n 1] cdiv_pos [of "2 ^ j" n] by simp

lemma vec_loops_returns_fits:
  assumes "vec_loops needed limit outer inner = Some r" "inner \<noteq> 0"
  shows "\<exists>n. n \<noteq> 0 \<and> n \<le> inner \<and> needed n \<le> limit"
proof -
  have "inner \<noteq> 0 \<longrightarrow> (\<exists>n. n \<noteq> 0 \<and> n \<le> inner \<and> needed n \<le> limit)"
  proof (rule vec_loops.raw_induct [where P = "\<lambda>needed limit outer inner r.
        inner \<noteq> 0 \<longrightarrow> (\<exists>n. n \<noteq> 0 \<and> n \<le> inner \<and> needed n \<le> limit)", OF _ assms(1)], intro impI)
    fix vec_loops and needed :: "u32 \<Rightarrow> u32" and limit outer inner :: u32 and r :: "u32 \<times> u32"
    assume ih: "\<And>needed limit outer inner r. vec_loops needed limit outer inner = Some r \<Longrightarrow>
        inner \<noteq> 0 \<longrightarrow> (\<exists>n. n \<noteq> 0 \<and> n \<le> inner \<and> needed n \<le> limit)"
      and r: "(if limit < needed inner then vec_loops needed limit (outer * 2) ((inner AND 1) + drop_bit 1 inner)
             else Some (outer, inner)) = Some r" and i: "inner \<noteq> 0"
    let ?h = "(inner AND 1) + drop_bit 1 inner"
    have u: "unat ?h = cdiv (unat inner) 2" by (rule unat_half_up)
    have "0 < unat inner" using i by (simp add: unat_gt_0)
    then have h: "?h \<le> inner" "?h \<noteq> 0"
      using u cdiv_le [of 2 "unat inner"] cdiv_pos [of 2 "unat inner"] unat_eq_0 [of ?h] by (auto simp: word_le_nat_alt)
    show "\<exists>n. n \<noteq> 0 \<and> n \<le> inner \<and> needed n \<le> limit"
    proof (cases "limit < needed inner")
      case True
      then have "vec_loops needed limit (outer * 2) ?h = Some r" using r by simp
      from ih [OF this] h show ?thesis using order_trans by blast
    next
      case False then show ?thesis using i by (auto intro!: exI [of _ inner])
    qed
  qed
  then show ?thesis using assms(2) by simp
qed

lemma vec_loops_halves:
  assumes "\<And>n. n \<noteq> 0 \<Longrightarrow> unat n \<le> N \<Longrightarrow> unat (needed n) = a * unat n + b" "0 < N" "N < 2 ^ 31"
    and "unat inner = cdiv N (2 ^ j)" "unat outer = 2 ^ j" "a + b \<le> unat limit"
  shows "\<exists>i p q. vec_loops needed limit outer inner = Some (p, q) \<and> j \<le> i \<and> unat p = 2 ^ i \<and> unat q = cdiv N (2 ^ i) \<and>
    needed q \<le> limit \<and> (\<forall>m. j \<le> m \<longrightarrow> m < i \<longrightarrow> unat limit < a * cdiv N (2 ^ m) + b)"
  using assms(4,5)
proof (induction "31 - j" arbitrary: j inner outer)
  have n: "unat (needed x) = a * unat x + b" "x \<noteq> 0" if "unat x = cdiv N (2 ^ m)" for x m
    using assms(1) [of x] cdiv_le [of "2 ^ m" N] cdiv_pos [of "2 ^ m" N] assms(2) that by fastforce+
  {
    case 0
    have "N \<le> 2 ^ j" using 0 assms(3) power_increasing [of 31 j "2::nat"] by simp
    then have "unat inner = 1" using 0 cdiv_pow_eq_1 assms(2) by simp
    then have "needed inner \<le> limit" using n(1) [OF 0(2)] assms(6) by (simp add: word_le_nat_alt)
    then show ?case using 0 by (subst vec_loops.simps) auto
  next
    case (Suc d)
    show ?case
    proof (cases "needed inner \<le> limit")
      case True then show ?thesis using Suc(3,4) by (subst vec_loops.simps) auto
    next
      case False
      let ?h = "(inner AND 1) + drop_bit 1 inner"
      have j: "Suc j \<le> 31" "d = 31 - Suc j" using Suc(2) by simp_all
      have "(2::nat) ^ Suc j \<le> 2 ^ 31" using j(1) by (intro power_increasing) simp_all
      then have o2: "unat (outer * 2) = 2 ^ Suc j" using Suc(4) by (simp add: unat_word_ariths)
      have h2: "unat ?h = cdiv N (2 ^ Suc j)" using Suc(3) by (simp only: unat_half_up cdiv_cdiv_2)
      from Suc(1) [OF j(2) h2 o2] obtain i p q where
        r: "vec_loops needed limit (outer * 2) ?h = Some (p, q)" "Suc j \<le> i" "unat p = 2 ^ i" "unat q = cdiv N (2 ^ i)"
          "needed q \<le> limit" "\<forall>m. Suc j \<le> m \<longrightarrow> m < i \<longrightarrow> unat limit < a * cdiv N (2 ^ m) + b" by blast
      have "unat limit < a * cdiv N (2 ^ j) + b" using False n(1) [OF Suc(3)] Suc(3) by (simp add: word_le_nat_alt)
      then have "\<forall>m. j \<le> m \<longrightarrow> m < i \<longrightarrow> unat limit < a * cdiv N (2 ^ m) + b"
        using r(6) by (metis Suc_leI le_neq_implies_less)
      moreover have "vec_loops needed limit outer inner = Some (p, q)"
        using r(1) False by (subst vec_loops.simps) (simp add: linorder_not_le)
      ultimately show ?thesis using r by (intro exI [of _ i] exI [of _ p] exI [of _ q]) simp
    qed
  }
qed

lemma cdiv_mult [simp]: "0 < w \<Longrightarrow> cdiv (q * w) w = q"
proof -
  assume w: "0 < w"
  then have "cdiv (q * w) w \<le> q" by (simp add: cdiv_le_iff)
  moreover have "q * w \<le> cdiv (q * w) w * w" using w by (rule cdiv_mult_ge)
  ultimately show ?thesis using w by simp
qed

lemma unat_round_to:
  assumes "0 < unat w" "unat k + unat w < 2 ^ 32"
  shows "unat (round_to w k) = cdiv (unat k) (unat w) * unat w"
proof -
  let ?k = "unat k" and ?w = "unat w"
  have m: "?k mod ?w < ?w" using assms(1) by simp
  have k: "?k = ?k div ?w * ?w + ?k mod ?w" by simp
  show ?thesis
  proof (cases "?k mod ?w = 0")
    case True
    then have "k mod w = 0" by (simp add: word_unat_eq_iff unat_mod)
    moreover have "cdiv ?k ?w * ?w = ?k" using True assms(1) k cdiv_mult [of ?w "?k div ?w"] by simp
    ultimately show ?thesis by (simp add: round_to_def)
  next
    case False
    then have kw: "k mod w \<noteq> 0" by (simp add: word_unat_eq_iff unat_mod)
    have "unat (w - k mod w) = ?w - ?k mod ?w" using m by (subst unat_sub) (simp_all add: word_le_nat_alt unat_mod)
    then have u: "unat (round_to w k) = ?k + (?w - ?k mod ?w)"
      using kw assms(2) m by (simp add: round_to_def unat_word_ariths)
    have "cdiv ?k ?w = ?k div ?w + 1"
    proof -
      have "?k + ?w - 1 = (?k mod ?w - 1) + (?k div ?w + 1) * ?w" using k False by (simp add: Suc_leI)
      then have "(?k + ?w - 1) div ?w = (?k mod ?w - 1) div ?w + (?k div ?w + 1)"
        using assms(1) by (metis add.commute div_mult_self1 less_not_refl)
      then show ?thesis using m by (simp add: cdiv_def)
    qed
    moreover have "a + (c - r) = (q + 1) * c" if "a = q * c + r" "r < c" for a c r q :: nat
      using that by (simp add: algebra_simps)
    ultimately show ?thesis using u k m by metis
  qed
qed

text \<open>A word that is computed without overflow has the value of the same expression on numbers.\<close>

lemma unat_eq_of_natI: "w = of_nat m \<Longrightarrow> m < 2 ^ 32 \<Longrightarrow> unat (w :: u32) = m"
  by (simp add: unat_of_nat)

lemma sram_size_needed_affine:
  assumes "0 < unat w" "unat k + unat w < 2 ^ 32" "unat n \<le> N" "(unat k + unat w) * (3 * N + 3) * unat (precision cfg) < 2 ^ 32"
    and "w = core_width cfg \<or> w = vector_core_width cfg"
  defines "kp \<equiv> cdiv (unat k) (unat w) * unat w * unat (precision cfg)"
  shows "w = core_width cfg \<Longrightarrow> unat (Add_sram_size_needed cfg k n) = 3 * kp * unat n"
    and "w = vector_core_width cfg \<Longrightarrow> unat (Gelu_sram_size_needed cfg k n) = 2 * kp * unat n"
    and "w = core_width cfg \<Longrightarrow> unat (LayerNorm_sram_size_needed cfg k n) = 3 * kp * unat n + 2 * kp"
    and "w = vector_core_width cfg \<Longrightarrow> unat (Softmax_sram_size_needed cfg k n) = (2 * kp + unat (precision cfg)) * unat n"
proof -
  let ?p = "unat (precision cfg)" and ?k = "cdiv (unat k) (unat w) * unat w"
  have r: "round_to w k = of_nat ?k" using unat_round_to [OF assms(1,2)] by (metis of_nat_unat ucast_id)
  have k: "?k \<le> unat k + unat w" using cdiv_mult_less [OF assms(1), of "unat k"] by simp
  have le: "m < 2 ^ 32" if "m \<le> (unat k + unat w) * (3 * N + 3) * ?p" for m using that assms(4) by (rule le_less_trans)
  have b: "?k * (3 * unat n + 2) * ?p \<le> (unat k + unat w) * (3 * N + 3) * ?p"
    using k assms(3) by (intro mult_le_mono mult_le_mono1) simp_all
  have s: "(2 * ?k + 1) * unat n * ?p \<le> (unat k + unat w) * (3 * N + 3) * ?p"
  proof -
    have "(2 * ?k + 1) * unat n \<le> (3 * (unat k + unat w)) * N" using k assms(1,3) by (intro mult_le_mono) simp_all
    then show ?thesis by (intro mult_le_mono1) (simp add: algebra_simps)
  qed
  show "w = core_width cfg \<Longrightarrow> unat (Add_sram_size_needed cfg k n) = 3 * kp * unat n"
    by (rule unat_eq_of_natI) (use r le [OF order_trans [OF _ b]] in \<open>simp_all add: Add_sram_size_needed_def kp_def algebra_simps\<close>)
  show "w = vector_core_width cfg \<Longrightarrow> unat (Gelu_sram_size_needed cfg k n) = 2 * kp * unat n"
    by (rule unat_eq_of_natI) (use r le [OF order_trans [OF _ b]] in \<open>simp_all add: Gelu_sram_size_needed_def kp_def algebra_simps\<close>)
  show "w = core_width cfg \<Longrightarrow> unat (LayerNorm_sram_size_needed cfg k n) = 3 * kp * unat n + 2 * kp"
    by (rule unat_eq_of_natI) (use r le [OF order_trans [OF _ b]] in \<open>simp_all add: LayerNorm_sram_size_needed_def kp_def algebra_simps\<close>)
  show "w = vector_core_width cfg \<Longrightarrow> unat (Softmax_sram_size_needed cfg k n) = (2 * kp + ?p) * unat n"
    by (rule unat_eq_of_natI) (use r le [OF order_trans [OF _ s]] in \<open>simp_all add: Softmax_sram_size_needed_def kp_def algebra_simps\<close>)
qed

text \<open>
  C32: The row loops of the vector operations.  Without 32-bit overflow, \<open>calculate_loops\<close> returns
  exactly when the scratchpad half holds one row; the number of tiles is then the least power of two
  for which a tile of the rows, divided equally and rounded up, fits, and they cover all rows.
\<close>

theorem vec_tiling:
  assumes "(w, needed) \<in> {(core_width cfg, Add_sram_size_needed cfg k), (vector_core_width cfg, Gelu_sram_size_needed cfg k),
      (core_width cfg, LayerNorm_sram_size_needed cfg k), (vector_core_width cfg, Softmax_sram_size_needed cfg k)}"
    and "0 < w" "rows = dims_prod (take (length dims - skip) dims)" "0 < rows" "0 < precision cfg"
    and "(unat k + unat w) * (3 * unat rows + 3) * unat (precision cfg) < 2 ^ 32"
  shows "if needed 1 \<le> spad_limit cfg
    then \<exists>i outer inner. calc_vec_loops cfg w needed skip dims = Some (Inr (outer, inner)) \<and>
        unat outer = 2 ^ i \<and> unat inner = cdiv (unat rows) (2 ^ i) \<and> unat rows \<le> unat outer * unat inner \<and>
        needed inner \<le> spad_limit cfg \<and> (\<forall>m<i. spad_limit cfg < needed (of_nat (cdiv (unat rows) (2 ^ m))))
    else calc_vec_loops cfg w needed skip dims = None"
proof -
  let ?N = "unat rows" and ?k = "unat k + unat w"
  have w: "0 < unat w" and N: "0 < ?N" and p: "0 < unat (precision cfg)" using assms by (simp_all add: word_less_nat_alt)
  have k: "?k < 2 ^ 32" and N3: "3 * ?N + 3 < 2 ^ 32"
  proof -
    have le: "x * 1 \<le> x * y" "x * 1 \<le> y * x" if "1 \<le> y" for x y :: nat using that by (simp_all add: Suc_le_eq)
    have "?k * (3 * ?N + 3) * 1 \<le> ?k * (3 * ?N + 3) * unat (precision cfg)" using p by (intro le) simp
    then have l: "?k * (3 * ?N + 3) < 2 ^ 32" using assms(6) by linarith
    show "?k < 2 ^ 32" by (rule le_less_trans [OF _ l]) (use le(1) [of "3 * ?N + 3" ?k] in simp)
    show "3 * ?N + 3 < 2 ^ 32" by (rule le_less_trans [OF _ l]) (use le(2) [of ?k "3 * ?N + 3"] w in simp)
  qed
  then have N31: "?N < 2 ^ 31" by simp
  note aff = sram_size_needed_affine [OF w k _ assms(6)]
  obtain a b where ab: "unat (needed n) = a * unat n + b" if "unat n \<le> ?N" for n
  proof -
    let ?kp = "cdiv (unat k) (unat w) * unat w * unat (precision cfg)"
    from assms(1) consider "w = core_width cfg" "needed = Add_sram_size_needed cfg k"
      | "w = vector_core_width cfg" "needed = Gelu_sram_size_needed cfg k"
      | "w = core_width cfg" "needed = LayerNorm_sram_size_needed cfg k"
      | "w = vector_core_width cfg" "needed = Softmax_sram_size_needed cfg k" by auto
    then show thesis
    proof cases
      case 1 then show ?thesis using that [of "3 * ?kp" 0] aff(1) by simp
    next
      case 2 then show ?thesis using that [of "2 * ?kp" 0] aff(2) by simp
    next
      case 3 then show ?thesis using that [of "3 * ?kp" "2 * ?kp"] aff(3) by simp
    next
      case 4 then show ?thesis using that [of "2 * ?kp + unat (precision cfg)" 0] aff(4) by simp
    qed
  qed
  show ?thesis
  proof (cases "needed 1 \<le> spad_limit cfg")
    case True
    have "a + b \<le> unat (spad_limit cfg)" using True ab [of 1] N by (simp add: word_le_nat_alt)
    from vec_loops_halves [of ?N needed a b rows 0 1, OF ab N N31 _ _ this] obtain i p q where
      r: "vec_loops needed (spad_limit cfg) 1 rows = Some (p, q)" "unat p = 2 ^ i" "unat q = cdiv ?N (2 ^ i)"
        "needed q \<le> spad_limit cfg" "\<forall>m<i. unat (spad_limit cfg) < a * cdiv ?N (2 ^ m) + b"
      using cdiv_1 [of ?N] by (auto simp del: cdiv_1)
    moreover have "unat (needed (of_nat (cdiv ?N (2 ^ m)))) = a * cdiv ?N (2 ^ m) + b" for m
    proof -
      have c: "cdiv ?N (2 ^ m) \<le> ?N" by (rule cdiv_le) simp
      then have "cdiv ?N (2 ^ m) < 2 ^ 32" using N31 by simp
      then have "unat (of_nat (cdiv ?N (2 ^ m)) :: u32) = cdiv ?N (2 ^ m)" by (simp add: unat_of_nat)
      then show ?thesis using ab [of "of_nat (cdiv ?N (2 ^ m))"] c by simp
    qed
    moreover have "?N \<le> 2 ^ i * cdiv ?N (2 ^ i)" using cdiv_mult_ge [of "2 ^ i" ?N] by (simp add: mult.commute)
    moreover have "calc_vec_loops cfg w needed skip dims = Some (Inr (p, q))"
      using r(1) assms(2,3) by (simp add: calc_vec_loops_def)
    ultimately show ?thesis using True
      by (simp only: if_True) (intro exI [of _ i] exI [of _ p] exI [of _ q], simp add: word_less_nat_alt)
  next
    case False
    have "vec_loops needed (spad_limit cfg) 1 rows = None"
    proof (rule ccontr)
      assume "vec_loops needed (spad_limit cfg) 1 rows \<noteq> None"
      then obtain r where "vec_loops needed (spad_limit cfg) 1 rows = Some r" by auto
      from vec_loops_returns_fits [OF this] obtain n where n: "n \<noteq> 0" "n \<le> rows" "needed n \<le> spad_limit cfg"
        using assms(4) by auto
      have "a * 1 \<le> a * unat n" using n(1) by (simp add: Suc_leI unat_gt_0)
      then have "unat (needed 1) \<le> unat (needed n)" using ab [of 1] ab [of n] n N by (simp add: word_le_nat_alt)
      then show False using False n(3) by (simp add: word_le_nat_alt)
    qed
    then show ?thesis using False assms(2,3) by (simp add: calc_vec_loops_def)
  qed
qed

theorem vec_tiling_witness:
  "\<exists>outer inner. calc_vec_loops demo_cfg 128 (LayerNorm_sram_size_needed demo_cfg 768) 1 [512, 768] = Some (Inr (outer, inner)) \<and>
     512 \<le> unat outer * unat inner"
proof -
  have "LayerNorm_sram_size_needed demo_cfg 768 1 \<le> spad_limit demo_cfg"
    by (simp add: LayerNorm_sram_size_needed_def round_to_def spad_limit_def demo_cfg_def)
  then show ?thesis
    using vec_tiling [of 128 "LayerNorm_sram_size_needed demo_cfg 768" demo_cfg 768 512 "[512, 768]" 1]
    by (auto simp: demo_cfg_def dims_prod_def)
qed

subsection \<open>The compute instructions cost nothing\<close>

lemma rows_insts_in:
  "\<lbrakk>rows_insts row n = Inr insts; inst \<in> set insts\<rbrakk> \<Longrightarrow> \<exists>i xs. i < unat n \<and> row (of_nat i) = Inr xs \<and> inst \<in> set xs"
proof -
  have "foldE (\<lambda>insts i. bindE (row (of_nat i)) (\<lambda>xs. Inr (insts @ xs))) acc is = Inr insts \<Longrightarrow> inst \<in> set insts \<Longrightarrow>
      inst \<in> set acc \<or> (\<exists>i \<in> set is. \<exists>xs. row (of_nat i) = Inr xs \<and> inst \<in> set xs)" for acc "is"
    by (induction "is" arbitrary: acc) fastforce+
  from this [of "[]" "[0..<unat n]"] show "\<lbrakk>rows_insts row n = Inr insts; inst \<in> set insts\<rbrakk> \<Longrightarrow> ?thesis"
    unfolding rows_insts_def by fastforce
qed

lemma empty_vector_cycles:
  assumes "0 < vector_core_width cfg" "inst_size inst = 0"
  shows "calculate_vector_op_iterations cfg (inst_size inst) = Inr 0" "calculate_add_tree_iterations cfg (inst_size inst) = Inr 1"
proof -
  have "0 mod u = 0" "0 div u = 0" for u :: u32 by (simp_all add: word_unat_eq_iff unat_mod unat_div)
  then show "calculate_vector_op_iterations cfg (inst_size inst) = Inr 0"
    using assms by (simp add: calculate_vector_op_iterations_def word_gt_0)
  show "calculate_add_tree_iterations cfg (inst_size inst) = Inr 1"
    using assms by (simp add: calculate_add_tree_iterations_def add_tree_iterations.simps)
qed

text \<open>
  The compute instructions of the vector operations take a time that does not depend on the
  length of the vector: the size they carry is that of an address list that has been moved away,
  which is 0.  \<open>ADD\<close> and \<open>GELU\<close> take no cycle at all, whatever the latencies of the configuration.
\<close>

theorem vector_op_time_ignores_length:
  assumes "Add_initialize_instructions cfg oper g dims n N = Inr tile \<or>
      (\<exists>opc k. opc \<in> {GELU, SOFTMAX} \<and> unary_initialize_instructions opc k cfg oper g dims n N = Inr tile) \<or>
      LayerNorm_initialize_instructions cfg oper g dims n N = Inr tile"
    and "inst \<in> set (tl_instructions tile)" "opcode inst \<notin> {MOVIN, MOVOUT}" "0 < vector_core_width cfg"
  shows "inst_size inst = 0 \<and> get_vector_compute_cycles cfg inst = Inr (case opcode inst of
      LAYERNORM \<Rightarrow> 2 * add_tree_latency cfg + (2 * scalar_mul_latency cfg + scalar_sqrt_latency cfg)
    | SOFTMAX \<Rightarrow> 2 * add_tree_latency cfg
    | _ \<Rightarrow> 0)"
proof -
  have "inst_size inst = 0 \<and> opcode inst \<in> {ADD, GELU, SOFTMAX, LAYERNORM}"
    using assms(1)
  proof (elim disjE exE conjE)
    assume "Add_initialize_instructions cfg oper g dims n N = Inr tile"
    then show ?thesis using assms(2,3)
      by (auto simp: Add_initialize_instructions_def vec_tile_def Tile0_def Add_row_def vcomp_def movin_def movout_def
          Let_def Instruction0_def dest!: rows_insts_in)
  next
    fix opc k assume "opc \<in> {GELU, SOFTMAX}" "unary_initialize_instructions opc k cfg oper g dims n N = Inr tile"
    then show ?thesis using assms(2,3)
      by (auto simp: unary_initialize_instructions_def vec_tile_def Tile0_def unary_row_def vcomp_def movin_def movout_def
          Let_def Instruction0_def dest!: rows_insts_in)
  next
    assume "LayerNorm_initialize_instructions cfg oper g dims n N = Inr tile"
    then show ?thesis using assms(2,3)
      by (auto simp: LayerNorm_initialize_instructions_def vec_tile_def Tile0_def LayerNorm_row_def vcomp_def movin_def movout_def
          Let_def Instruction0_def dest!: rows_insts_in split: if_splits)
  qed
  then show ?thesis using empty_vector_cycles [OF assms(4), of inst]
    by (auto simp: get_vector_compute_cycles_def Let_def)
qed

text \<open>A small graph: an operation with one input and one output tensor of three rows.\<close>

definition demo_act :: "string \<Rightarrow> u64 \<Rightarrow> npu_tensor" where
  "demo_act name base = \<lparr>bt_produced = True, bt_id = 0, bt_name = name, bt_dims = [3, 2], bt_child_nodes = [], bt_precision = 2,
     nt_inners = [Inner2D \<lparr>ti_base_addr = base, ti_dims = [3, 2], ti_size = 12, ti_buf_type = ACT, ti_precision = 2\<rparr>],
     nt_is_transposed = False\<rparr>"

definition demo_oper :: operation where
  "demo_oper = \<lparr>op_id = 2, op_name = ''gelu'', op_optype = ''gelu'', op_inputs = [Some 0], op_outputs = [1], op_tiles = [],
     op_stat = OperationStat_new ''gelu'', op_finish = False, op_spad_addr = SPAD_BASE, op_acc_spad_addr = ACCUM_SPAD_BASE\<rparr>"

definition demo_graph :: graph where
  "demo_graph = \<lparr>g_tensors = [NT (demo_act ''in'' 4096), NT (demo_act ''out'' 6144)], g_ops = [demo_oper], g_mem = demo_mem\<rparr>"

lemmas demo_graph_simps = demo_graph_def demo_oper_def demo_act_def get_tensor_def op_input_def as_npu_def
  NPUTensor_get_row_addrs_def inner_get_row_addrs_def get_row_addrs_2D_def

theorem vector_op_time_ignores_length_witness:
  "\<exists>tile. unary_initialize_instructions GELU 0 demo_cfg demo_oper demo_graph [3, 2] 1 0 = Inr tile \<and>
     length (tl_instructions tile) = 3 \<and> get_vector_compute_cycles demo_cfg (tl_instructions tile ! 1) = Inr 0"
proof -
  obtain tile where t: "unary_initialize_instructions GELU 0 demo_cfg demo_oper demo_graph [3, 2] 1 0 = Inr tile"
      "length (tl_instructions tile) = 3" "opcode (tl_instructions tile ! 1) = GELU"
    by (simp add: unary_initialize_instructions_def vec_back_def rows_insts_def unary_row_def in_row_def out_row_def
        demo_graph_simps upt_rec vec_tile_def Tile0_def vcomp_def Instruction0_def)
  then show ?thesis
    using vector_op_time_ignores_length [of demo_cfg demo_oper demo_graph "[3, 2]" 1 0 tile "tl_instructions tile ! 1"]
    by (auto simp: demo_cfg_def)
qed

subsection \<open>Rows that do not divide\<close>

lemma rows_insts_all:
  assumes "rows_insts row n = Inr insts" "i < unat n"
  shows "\<exists>xs. row (of_nat i) = Inr xs \<and> set xs \<subseteq> set insts"
proof -
  have "foldE (\<lambda>insts i. bindE (row (of_nat i)) (\<lambda>xs. Inr (insts @ xs))) acc ns = Inr insts \<Longrightarrow>
      set acc \<subseteq> set insts \<and> (\<forall>i \<in> set ns. \<exists>xs. row (of_nat i) = Inr xs \<and> set xs \<subseteq> set insts)" for acc ns
    by (induction ns arbitrary: acc) fastforce+
  from this [of "[]" "[0..<unat n]"] show ?thesis using assms unfolding rows_insts_def by auto
qed

text \<open>
  C39: When the tiles do not divide the rows equally, the last tile works on rows that the tensor
  does not have.  Nothing stops it: \<open>get_row_addrs\<close> does not check the row, so the tile stores to
  addresses at and beyond the end of the output tensor.
\<close>

theorem uneven_tile_stores_past_end:
  assumes "unary_initialize_instructions opc k cfg oper g [rows, d] inner N = Inr tile"
    and "at (op_outputs oper) k = Inr ti" "get_tensor ti g = Inr (NT n)" "bt_dims n = [rows, d]"
    and "nt_inners n = [Inner2D t]" "ti_dims t = [rows, d]"
    and "i < unat inner" "unat rows \<le> unat inner * unat N + i"
    and "(unat inner * unat N + i + 1) * unat d * unat (ti_precision t) < 2 ^ 32" "unat (ti_base_addr t) + 2 ^ 32 < 2 ^ 64"
  shows "\<exists>inst \<in> set (tl_instructions tile). opcode inst = MOVOUT \<and> src_addrs inst \<noteq> [] \<and>
    (\<forall>a \<in> set (src_addrs inst). unat (ti_base_addr t) + unat rows * unat d * unat (ti_precision t) \<le> unat a)"
proof -
  let ?r = "inner * N + of_nat i" and ?p = "unat (ti_precision t)" and ?b = "unat (ti_base_addr t)"
  let ?row = "map (\<lambda>j. ti_base_addr t + ucast ((?r * d + of_nat j) * ti_precision t)) [0..<unat d]"
  obtain insts where insts: "rows_insts (unary_row opc k cfg oper g d (inner * N)) inner = Inr insts"
      "tile = vec_tile oper N insts"
    using assms(1) by (auto simp: unary_initialize_instructions_def vec_back_def)
  from rows_insts_all [OF insts(1) assms(7)] obtain xs where
    xs: "unary_row opc k cfg oper g d (inner * N) (of_nat i) = Inr xs" "set xs \<subseteq> set insts" by blast
  have "out_row oper k ?r g = Inr ?row"
    using assms(2-6) by (simp add: out_row_def as_npu_def NPUTensor_get_row_addrs_def inner_get_row_addrs_def get_row_addrs_2D_def)
  then have m: "movout cfg (ACCUM_SPAD_BASE + ucast (of_nat i * d * precision cfg)) ?row \<in> set xs" "0 < unat d"
    using xs(1) by (auto simp: unary_row_def Let_def)
  have "?b + unat rows * unat d * ?p \<le> unat a" if a: "a \<in> set ?row" for a
  proof -
    from a obtain j where j: "j < unat d" "a = ti_base_addr t + ucast ((?r * d + of_nat j) * ti_precision t)" by auto
    let ?m = "((unat inner * unat N + i) * unat d + j) * ?p"
    have "?m \<le> (unat inner * unat N + i + 1) * unat d * ?p" using j(1) by (intro mult_le_mono1) simp
    then have m: "?m < 2 ^ 32" using assms(9) by linarith
    have "unat ((?r * d + of_nat j) * ti_precision t) = ?m" by (rule unat_eq_of_natI [OF _ m]) simp
    then have "unat a = ?b + ?m" using m assms(10) unfolding j(2) by (subst unat_plus_u64) simp_all
    moreover have "unat rows * unat d * ?p \<le> ?m" using assms(8) by (intro mult_le_mono1) (simp add: trans_le_add1)
    ultimately show ?thesis by simp
  qed
  moreover have "?row \<noteq> []" using m(2) by simp
  ultimately show ?thesis using m(1) xs(2) insts(2)
    by (intro bexI [of _ "movout cfg (ACCUM_SPAD_BASE + ucast (of_nat i * d * precision cfg)) ?row"])
      (auto simp: movout_def Instruction0_def vec_tile_def Tile0_def)
qed

theorem uneven_tile_stores_past_end_witness:
  "\<exists>tile inst. unary_initialize_instructions GELU 0 demo_cfg demo_oper demo_graph [3, 2] 2 1 = Inr tile \<and>
     inst \<in> set (tl_instructions tile) \<and> opcode inst = MOVOUT \<and> (\<forall>a \<in> set (src_addrs inst). 6144 + 12 \<le> unat a)"
proof -
  obtain tile where t: "unary_initialize_instructions GELU 0 demo_cfg demo_oper demo_graph [3, 2] 2 1 = Inr tile"
    by (simp add: unary_initialize_instructions_def vec_back_def rows_insts_def unary_row_def in_row_def out_row_def
        demo_graph_simps upt_rec Let_def)
  from uneven_tile_stores_past_end [OF t, of 1 "demo_act ''out'' 6144" _ 1] t show ?thesis
    by (auto simp: demo_graph_simps)
qed

end
