(* ===== verification/MatMul.thy ===== *)
theory MatMul
  imports VecOps
begin

text \<open>
  Matrix multiplication (operations/MatMul.cc): the split of the three loops into tiles that fit half
  of the scratchpad, and the instructions of a tile, made from blocks of the size of the
  systolic array.
\<close>

subsection \<open>Loops\<close>

text \<open>\<open>for (x = x0; x < lim; x += step) body\<close> on 32-bit integers; the body can stop the program.\<close>

partial_function (option) step_loop :: "(u32 \<Rightarrow> 's \<Rightarrow> 's run) \<Rightarrow> u32 \<Rightarrow> u32 \<Rightarrow> u32 \<Rightarrow> 's \<Rightarrow> 's run" where
  "step_loop body x lim step s =
     (if x < lim then Option.bind (body x s) (\<lambda>r. case r of Inl e \<Rightarrow> Some (Inl e) | Inr s \<Rightarrow> step_loop body (x + step) lim step s)
      else Some (Inr s))"

declare step_loop.simps [code]

record mm_loops =
  ml_M :: u32
  ml_K :: u32
  ml_N :: u32

definition MatMul_sram_size_needed :: "sim_config \<Rightarrow> mm_loops \<Rightarrow> u32" where
  "MatMul_sram_size_needed cfg inner =
     (let n = round_to (core_width cfg) (ml_M inner);
          k = round_to (core_width cfg) (ml_K inner);
          m = round_to (core_width cfg) (ml_N inner)
      in (n * k + k * m + m * n) * precision cfg)"

text \<open>Double the outer loop of the largest inner loop (the first of the largest ones) and halve the latter.\<close>

definition half_up :: "u32 \<Rightarrow> u32" where
  "half_up n = (n AND 1) + drop_bit 1 n"

definition split_largest :: "mm_loops \<Rightarrow> mm_loops \<Rightarrow> mm_loops \<times> mm_loops" where
  "split_largest outer inner =
     (if ml_K inner \<le> ml_M inner \<and> ml_N inner \<le> ml_M inner
      then (outer\<lparr>ml_M := ml_M outer * 2\<rparr>, inner\<lparr>ml_M := half_up (ml_M inner)\<rparr>)
      else if ml_N inner \<le> ml_K inner
      then (outer\<lparr>ml_K := ml_K outer * 2\<rparr>, inner\<lparr>ml_K := half_up (ml_K inner)\<rparr>)
      else (outer\<lparr>ml_N := ml_N outer * 2\<rparr>, inner\<lparr>ml_N := half_up (ml_N inner)\<rparr>))"

partial_function (option) mm_split :: "sim_config \<Rightarrow> mm_loops \<Rightarrow> mm_loops \<Rightarrow> (mm_loops \<times> mm_loops) option" where
  "mm_split cfg outer inner =
     (if spad_limit cfg < MatMul_sram_size_needed cfg inner
      then mm_split cfg (fst (split_largest outer inner)) (snd (split_largest outer inner))
      else Some (outer, inner))"

declare mm_split.simps [code]

definition MatMul_calculate_loops :: "sim_config \<Rightarrow> u32 list \<Rightarrow> u32 list \<Rightarrow> (u32 \<times> mm_loops \<times> mm_loops) run" where
  "MatMul_calculate_loops cfg d0 d1 =
     (if length d0 < 2 \<or> d1 = [] \<or> core_width cfg = 0 then Some (Inl Undefined)
      else let inner = \<lparr>ml_M = d0 ! (length d0 - 2), ml_K = last d0, ml_N = last d1\<rparr>;
               outer = \<lparr>ml_M = 1, ml_K = 1, ml_N = 1\<rparr>;
               larger = (if length d0 > length d1 then d0 else d1);
               batches = dims_prod (take (length larger - 2) larger)
           in Option.bind (mm_split cfg outer inner) (\<lambda>(outer, inner). Some (Inr (batches, outer, inner))))"

subsection \<open>The instructions of a tile\<close>

record mm_state =
  mm_insts :: "Instruction list"
  mm_tile_m :: u32
  mm_tile_k :: u32
  mm_tile_n :: u32

definition mm_emit :: "Instruction \<Rightarrow> mm_state \<Rightarrow> mm_state" where
  "mm_emit i s = s\<lparr>mm_insts := mm_insts s @ [i]\<rparr>"

text \<open>What every step of a tile uses: the tensors, the loop bounds and the offsets of the tile.\<close>

record mm_ctx =
  mc_cfg :: sim_config
  mc_act :: npu_tensor
  mc_wgt :: npu_tensor
  mc_out :: npu_tensor
  mc_elems :: u32
  mc_batch_index :: "u32 list"
  mc_inner :: mm_loops
  mc_m_outer :: u32
  mc_k_outer :: u32
  mc_n_outer :: u32

abbreviation mc_loop_size :: "mm_ctx \<Rightarrow> u32" where
  "mc_loop_size c \<equiv> core_width (mc_cfg c)"

definition act_offset :: "mm_ctx \<Rightarrow> u32 \<Rightarrow> u32 \<Rightarrow> addr_type" where
  "act_offset c m k = SPAD_BASE + ucast ((m * ml_K (mc_inner c) + k) * precision (mc_cfg c))"

definition wgt_offset :: "mm_ctx \<Rightarrow> u32 \<Rightarrow> u32 \<Rightarrow> addr_type" where
  "wgt_offset c k n = ucast ((ucast SPAD_BASE :: u32) + ml_M (mc_inner c) * ml_K (mc_inner c) * precision (mc_cfg c)) +
     ucast ((k * ml_N (mc_inner c) + n) * precision (mc_cfg c))"

definition acc_offset :: "mm_ctx \<Rightarrow> u32 \<Rightarrow> u32 \<Rightarrow> addr_type" where
  "acc_offset c m n = ACCUM_SPAD_BASE + ucast ((m * ml_N (mc_inner c) + n) * precision (mc_cfg c))"

definition bias_addrs :: "mm_ctx \<Rightarrow> npu_tensor \<Rightarrow> u32 \<Rightarrow> addr_type list run" where
  "bias_addrs c bias n = step_loop (\<lambda>n_loop addrs.
       Some (bindE (NPUTensor_get_addr [mc_n_outer c + n + n_loop] bias) (\<lambda>a.
         Inr (if a \<noteq> GARBAGE_ADDR then addrs @ [a] else addrs)))) 0 (mc_loop_size c) (mc_elems c) []"

definition load_bias :: "mm_ctx \<Rightarrow> npu_tensor \<Rightarrow> mm_state \<Rightarrow> mm_state run" where
  "load_bias c bias s = step_loop (\<lambda>n s.
       bindR (bias_addrs c bias n) (\<lambda>addrs. Some (ast (addrs \<noteq> []) (Inr (mm_emit
         ((movin (mc_cfg c) (ACCUM_SPAD_BASE + ucast (n * precision (mc_cfg c))) addrs (INPUT_OPERAND + 2))
            \<lparr>inst_size := mc_loop_size c * precision (mc_cfg c)\<rparr>) s)))))
     0 (ml_N (mc_inner c)) (mc_loop_size c) s"

definition load_act :: "mm_ctx \<Rightarrow> u32 \<Rightarrow> u32 \<Rightarrow> mm_state \<Rightarrow> mm_state run" where
  "load_act c m k s =
     bindR (step_loop (\<lambda>m_loop. step_loop (\<lambda>k_loop (addrs, tm, tk).
         Some (bindE (NPUTensor_get_addr (mc_batch_index c @ [mc_m_outer c + m + m_loop, mc_k_outer c + k + k_loop]) (mc_act c))
           (\<lambda>a. Inr (if a \<noteq> GARBAGE_ADDR then (addrs @ [a], m_loop + 1, k_loop + 1) else (addrs, tm, tk)))))
           0 (mc_loop_size c) (mc_elems c)) 0 (mc_loop_size c) 1 ([], 0, 0))
       (\<lambda>(addrs, tm, tk). Some (ast (addrs \<noteq> []) (Inr
         (mm_emit (movin (mc_cfg c) (act_offset c m k) addrs INPUT_OPERAND) (s\<lparr>mm_tile_m := tm, mm_tile_k := tk\<rparr>)))))"

definition load_wgt :: "mm_ctx \<Rightarrow> u32 \<Rightarrow> u32 \<Rightarrow> mm_state \<Rightarrow> mm_state run" where
  "load_wgt c k n s =
     bindR (step_loop (\<lambda>k_loop. step_loop (\<lambda>n_loop (addrs, tn).
         Some (bindE (NPUTensor_get_addr (mc_batch_index c @ [mc_k_outer c + k + k_loop, mc_n_outer c + n + n_loop]) (mc_wgt c))
           (\<lambda>a. if a \<noteq> GARBAGE_ADDR then Inr (addrs @ [a], n_loop + 1) else Inl Thrown)))
           0 (mc_loop_size c) (mc_elems c)) 0 (mc_loop_size c) 1 ([], 0))
       (\<lambda>(addrs, tn). Some (ast (addrs \<noteq> []) (Inr
         (mm_emit (movin (mc_cfg c) (wgt_offset c k n) addrs (INPUT_OPERAND + 1)) (s\<lparr>mm_tile_n := tn\<rparr>)))))"

definition mm_compute :: "mm_ctx \<Rightarrow> u32 \<Rightarrow> u32 \<Rightarrow> u32 \<Rightarrow> mm_state \<Rightarrow> mm_state" where
  "mm_compute c n k m s =
     mm_emit (Instruction0\<lparr>opcode := (if m = 0 then GEMM_PRELOAD else GEMM), dest_addr := acc_offset c m n,
       inst_size := mc_loop_size c div 8, src_addrs := [act_offset c m k, wgt_offset c k n],
       tile_m := mm_tile_m s, tile_k := mm_tile_k s, tile_n := mm_tile_n s\<rparr>) s"

definition store_out :: "mm_ctx \<Rightarrow> u32 \<Rightarrow> u32 \<Rightarrow> mm_state \<Rightarrow> mm_state run" where
  "store_out c n m s =
     bindR (step_loop (\<lambda>n_loop. step_loop (\<lambda>m_loop addrs.
         Some (bindE (NPUTensor_get_addr (mc_batch_index c @ [mc_m_outer c + m + m_loop, mc_n_outer c + n + n_loop]) (mc_out c))
           (\<lambda>a. if a \<noteq> GARBAGE_ADDR then Inr (addrs @ [a]) else Inl Thrown)))
           0 (mc_loop_size c) (mc_elems c)) 0 (mc_loop_size c) 1 [])
       (\<lambda>addrs. Some (ast (addrs \<noteq> []) (Inr (mm_emit (movout (mc_cfg c) (acc_offset c m n) addrs) s))))"

definition mm_block :: "mm_ctx \<Rightarrow> bool \<Rightarrow> u32 \<Rightarrow> u32 \<Rightarrow> u32 \<Rightarrow> mm_state \<Rightarrow> mm_state run" where
  "mm_block c should_store n k m s =
     bindR (if n = 0 then load_act c m k s else Some (Inr s)) (\<lambda>s.
     bindR (if m = 0 then load_wgt c k n s else Some (Inr s)) (\<lambda>s.
     let s = mm_compute c n k m s
     in if should_store \<and> k + mc_loop_size c \<ge> ml_K (mc_inner c) then store_out c n m s else Some (Inr s)))"

definition mm_blocks :: "mm_ctx \<Rightarrow> bool \<Rightarrow> mm_state \<Rightarrow> mm_state run" where
  "mm_blocks c should_store s =
     step_loop (\<lambda>n. step_loop (\<lambda>k. step_loop (\<lambda>m. mm_block c should_store n k m)
        0 (ml_M (mc_inner c)) (mc_loop_size c)) 0 (ml_K (mc_inner c)) (mc_loop_size c)) 0 (ml_N (mc_inner c)) (mc_loop_size c) s"

definition MatMul_context :: "sim_config \<Rightarrow> operation \<Rightarrow> graph \<Rightarrow> mm_loops \<Rightarrow> u32 \<Rightarrow> u32 \<Rightarrow> u32 \<Rightarrow> u32 \<Rightarrow> fault + mm_ctx" where
  "MatMul_context cfg oper g inner B M K N =
     (if precision cfg = 0 then Inl Undefined
      else bindE (op_input oper 0 g) (\<lambda>t0. bindE (op_input oper 1 g) (\<lambda>t1.
           bindE (at (op_outputs oper) 0) (\<lambda>to. bindE (get_tensor to g) (\<lambda>tout.
           bindE (as_npu t0) (\<lambda>act. bindE (as_npu t1) (\<lambda>wgt. bindE (as_npu tout) (\<lambda>out.
             Inr \<lparr>mc_cfg = cfg, mc_act = act, mc_wgt = wgt, mc_out = out,
                  mc_elems = dram_req_size cfg * dram_channels cfg div precision cfg,
                  mc_batch_index = (if length (tensor_dims t0) = 3 then [B] else []), mc_inner = inner,
                  mc_m_outer = ml_M inner * M, mc_k_outer = ml_K inner * K, mc_n_outer = ml_N inner * N\<rparr>))))))))"

definition MatMul_initialize_instructions :: "sim_config \<Rightarrow> operation \<Rightarrow> graph \<Rightarrow> mm_loops \<Rightarrow> u32 \<Rightarrow> u32 \<Rightarrow> u32 \<Rightarrow> u32 \<Rightarrow> bool \<Rightarrow>
    Tile run" where
  "MatMul_initialize_instructions cfg oper g inner B M K N should_store =
     bindR (Some (MatMul_context cfg oper g inner B M K N)) (\<lambda>c.
     let s = \<lparr>mm_insts = [], mm_tile_m = 0, mm_tile_k = 0, mm_tile_n = 0\<rparr> in
     bindR (if length (op_inputs oper) = 3 \<and> K = 0
            then bindR (Some (bindE (op_input oper 2 g) as_npu)) (\<lambda>bias. load_bias c bias s) else Some (Inr s)) (\<lambda>s.
     bindR (mm_blocks c should_store s) (\<lambda>s.
       Some (Inr (Tile0\<lparr>tl_status := INITIALIZED, tl_optype := op_name oper, tl_operation_id := op_id oper, tl_batch := B,
         tl_N := N, tl_K := K, tl_M := M, tl_accum := (K \<noteq> 0), tl_instructions := mm_insts s\<rparr>)))))"

subsection \<open>The operation\<close>

definition MatMul_initialize_tiles :: "sim_config \<Rightarrow> operation \<Rightarrow> graph \<Rightarrow> u32 \<Rightarrow> mm_loops \<Rightarrow> mm_loops \<Rightarrow> Tile list run" where
  "MatMul_initialize_tiles cfg oper g batches outer inner =
     step_loop (\<lambda>B. step_loop (\<lambda>M. step_loop (\<lambda>N. step_loop (\<lambda>K tiles.
         bindR (MatMul_initialize_instructions cfg oper g inner B M K N (K + 1 = ml_K outer)) (\<lambda>t. Some (Inr (tiles @ [t]))))
       0 (ml_K outer) 1) 0 (ml_N outer) 1) 0 (ml_M outer) 1) 0 batches 1 []"

text \<open>With one weight the inputs are the activation and the weight, with two also the bias.\<close>

definition MatMul_new :: "string \<Rightarrow> nat option list \<Rightarrow> graph \<Rightarrow> fault + (nat \<times> graph)" where
  "MatMul_new name weights g =
     (if weights = [] then Inr (Operation_new name [None, None] g)
      else ast (length weights = 2 \<or> length weights = 1) (Inr (Operation_new name (None # weights) g)))"

definition MatMul_output_dims :: "u32 list \<Rightarrow> u32 list \<Rightarrow> fault + u32 list" where
  "MatMul_output_dims d0 d1 =
     (if d0 = [] \<or> length d1 < 2 then Inl Undefined
      else ast (last d0 = d1 ! (length d1 - 2))
        (if length d0 < 2 then Inl Undefined
         else let larger = (if length d0 > length d1 then d0 else d1); r = length larger
              in Inr (larger[r - 2 := d0 ! (length d0 - 2), r - 1 := last d1])))"

definition MatMul_get_outputs :: "env \<Rightarrow> nat \<Rightarrow> nat list \<Rightarrow> graph \<Rightarrow> (nat list \<times> graph) run" where
  "MatMul_get_outputs e oi inputs g =
     bindR (Some (bindE (set_as_parent_tensor oi inputs g) (\<lambda>g. bindE (get_op oi g) (\<lambda>oper.
        ast (length inputs = 2 \<and> length (op_inputs oper) = 2 \<or> length inputs = 1 \<and> length (op_inputs oper) = 3)
         (bindE (set_inputs oi (map Some inputs @ drop (length inputs) (op_inputs oper)) g) (\<lambda>g. bindE (get_op oi g) (\<lambda>oper.
          bindE (op_input oper 0 g) (\<lambda>t0. bindE (op_input oper 1 g) (\<lambda>t1.
          bindE (MatMul_output_dims (tensor_dims t0) (tensor_dims t1)) (\<lambda>dims.
          bindE (new_act_tensor e (op_name oper @ ''_output'') dims False g) (\<lambda>(ti, g).
          bindE (set_outputs oi [ti] g) (\<lambda>g. Inr (tensor_dims t0, tensor_dims t1, ti, g)))))))))))))
       (\<lambda>(d0, d1, ti, g). bindR (MatMul_calculate_loops (e_cfg e) d0 d1) (\<lambda>(batches, outer, inner).
        bindR (Some (get_op oi g)) (\<lambda>oper. bindR (MatMul_initialize_tiles (e_cfg e) oper g batches outer inner) (\<lambda>ts.
          Some (bindE (add_tiles oi ts g) (\<lambda>g. Inr ([ti], g)))))))"

subsection \<open>The split of the loops\<close>

definition pad :: "nat \<Rightarrow> nat \<Rightarrow> nat" where
  "pad w n = cdiv n w * w"

definition mm_bytes :: "sim_config \<Rightarrow> nat \<Rightarrow> nat \<Rightarrow> nat \<Rightarrow> nat" where
  "mm_bytes cfg M K N = (let w = unat (core_width cfg)
     in (pad w M * pad w K + pad w K * pad w N + pad w N * pad w M) * unat (precision cfg))"

lemma pad_mono: "0 < w \<Longrightarrow> m \<le> n \<Longrightarrow> pad w m \<le> pad w n"
  by (simp add: pad_def cdiv_def div_le_mono)

lemma pad_ge: "0 < w \<Longrightarrow> n \<le> pad w n"
  by (simp add: pad_def cdiv_mult_ge)

lemma pad_less: "0 < w \<Longrightarrow> pad w n < n + w"
  by (simp add: pad_def cdiv_mult_less)

lemma pad_1: "0 < w \<Longrightarrow> pad w 1 = w"
  by (simp add: pad_def cdiv_def)

lemma mm_bytes_mono:
  assumes "0 < unat (core_width cfg)" "m \<le> M" "k \<le> K" "n \<le> N"
  shows "mm_bytes cfg m k n \<le> mm_bytes cfg M K N"
  unfolding mm_bytes_def Let_def by (intro mult_le_mono add_mono pad_mono assms order_refl)

text \<open>The largest extents for which the computation of the size does not wrap around.\<close>

definition mm_ok :: "sim_config \<Rightarrow> nat \<Rightarrow> nat \<Rightarrow> nat \<Rightarrow> bool" where
  "mm_ok cfg M K N \<longleftrightarrow> 0 < core_width cfg \<and> 0 < precision cfg \<and> 0 < M \<and> 0 < K \<and> 0 < N \<and>
     M + unat (core_width cfg) < 2 ^ 31 \<and> K + unat (core_width cfg) < 2 ^ 31 \<and> N + unat (core_width cfg) < 2 ^ 31 \<and>
     mm_bytes cfg M K N < 2 ^ 32"

definition mm_within :: "nat \<Rightarrow> nat \<Rightarrow> nat \<Rightarrow> mm_loops \<Rightarrow> bool" where
  "mm_within M K N l \<longleftrightarrow> 0 < unat (ml_M l) \<and> unat (ml_M l) \<le> M \<and> 0 < unat (ml_K l) \<and> unat (ml_K l) \<le> K \<and>
     0 < unat (ml_N l) \<and> unat (ml_N l) \<le> N"

lemma unat_needed:
  assumes "mm_ok cfg M K N" "mm_within M K N l"
  shows "unat (MatMul_sram_size_needed cfg l) = mm_bytes cfg (unat (ml_M l)) (unat (ml_K l)) (unat (ml_N l))"
proof (rule unat_eq_of_natI)
  let ?w = "unat (core_width cfg)"
  have w: "0 < ?w" using assms(1) by (simp add: mm_ok_def word_less_nat_alt)
  have r: "round_to (core_width cfg) x = of_nat (pad ?w (unat x))" if "unat x + ?w < 2 ^ 32" for x
    using unat_round_to [OF w that] unfolding pad_def by (metis of_nat_unat ucast_id)
  have "unat (ml_M l) + ?w < 2 ^ 32" "unat (ml_K l) + ?w < 2 ^ 32" "unat (ml_N l) + ?w < 2 ^ 32"
  proof -
    have le: "a + b < 2 ^ 32" if "a \<le> c" "c + b < 2 ^ 31" for a b c :: nat using that by simp
    show "unat (ml_M l) + ?w < 2 ^ 32" "unat (ml_K l) + ?w < 2 ^ 32" "unat (ml_N l) + ?w < 2 ^ 32"
      using assms by (auto simp: mm_ok_def mm_within_def intro: le)
  qed
  then show "MatMul_sram_size_needed cfg l = of_nat (mm_bytes cfg (unat (ml_M l)) (unat (ml_K l)) (unat (ml_N l)))"
    by (simp add: MatMul_sram_size_needed_def mm_bytes_def r Let_def)
  have "mm_bytes cfg (unat (ml_M l)) (unat (ml_K l)) (unat (ml_N l)) \<le> mm_bytes cfg M K N"
    using assms(2) by (intro mm_bytes_mono w) (simp_all add: mm_within_def)
  then show "mm_bytes cfg (unat (ml_M l)) (unat (ml_K l)) (unat (ml_N l)) < 2 ^ 32"
    using assms(1) by (simp add: mm_ok_def)
qed

lemma unat_half_up': "unat (half_up n) = cdiv (unat n) 2"
  unfolding half_up_def by (rule unat_half_up)

lemma half_up_within: "0 < unat n \<Longrightarrow> 0 < unat (half_up n) \<and> unat (half_up n) \<le> unat n"
  by (simp add: unat_half_up' cdiv_pos cdiv_le)

lemma split_within: "mm_within M K N inner \<Longrightarrow> mm_within M K N (snd (split_largest outer inner))"
  using half_up_within [of "ml_M inner"] half_up_within [of "ml_K inner"] half_up_within [of "ml_N inner"]
  by (auto simp: split_largest_def mm_within_def)

lemma mm_split_returns_fits:
  assumes "mm_split cfg outer inner = Some r" "mm_within M K N inner"
  shows "\<exists>l. mm_within M K N l \<and> MatMul_sram_size_needed cfg l \<le> spad_limit cfg"
proof -
  have "mm_within M K N inner \<longrightarrow> (\<exists>l. mm_within M K N l \<and> MatMul_sram_size_needed cfg l \<le> spad_limit cfg)"
    by (rule mm_split.raw_induct [where P = "\<lambda>cfg outer inner r. mm_within M K N inner \<longrightarrow>
          (\<exists>l. mm_within M K N l \<and> MatMul_sram_size_needed cfg l \<le> spad_limit cfg)", OF _ assms(1)])
      (use split_within in \<open>auto simp: linorder_not_less split: if_splits\<close>)
  then show ?thesis using assms(2) by simp
qed

text \<open>An extent after \<open>i\<close> halvings, and the number of tiles along it.\<close>

definition halved :: "nat \<Rightarrow> u32 \<Rightarrow> u32 \<Rightarrow> bool" where
  "halved d outer inner \<longleftrightarrow> (\<exists>i. unat outer = 2 ^ i \<and> unat inner = cdiv d (2 ^ i))"

lemma halved_step:
  assumes "halved d outer inner" "d < 2 ^ 31" "1 < unat inner"
  shows "halved d (outer * 2) (half_up inner)" "unat (half_up inner) < unat inner"
proof -
  from assms(1) obtain i where i: "unat outer = 2 ^ i" "unat inner = cdiv d (2 ^ i)" by (auto simp: halved_def)
  have "\<not> d \<le> 1 * 2 ^ i" using assms(3) i(2) cdiv_le_iff [of "2 ^ i" d 1] by simp
  then have "2 * 2 ^ i < (2::nat) ^ 32" using assms(2) by simp
  then have "unat (outer * 2) = 2 ^ Suc i" using i(1) by (simp add: unat_word_ariths)
  then show "halved d (outer * 2) (half_up inner)"
    using i(2) unfolding halved_def by (metis cdiv_cdiv_2 unat_half_up')
  show "unat (half_up inner) < unat inner" using assms(3) by (simp add: unat_half_up' cdiv_def)
qed

lemma halved_1: "halved (unat x) 1 x"
  unfolding halved_def by (rule exI [of _ 0]) (simp add: cdiv_def)

lemma halved_covers: "halved d outer inner \<Longrightarrow> d \<le> unat outer * unat inner"
  using cdiv_mult_ge by (auto simp: halved_def mult.commute)

definition mm_halved :: "nat \<Rightarrow> nat \<Rightarrow> nat \<Rightarrow> mm_loops \<Rightarrow> mm_loops \<Rightarrow> bool" where
  "mm_halved M K N outer inner \<longleftrightarrow> halved M (ml_M outer) (ml_M inner) \<and> halved K (ml_K outer) (ml_K inner) \<and>
     halved N (ml_N outer) (ml_N inner)"

lemma mm_split_returns:
  assumes "mm_ok cfg M K N" "3 * (unat (core_width cfg))\<^sup>2 * unat (precision cfg) \<le> unat (spad_limit cfg)"
    and "mm_within M K N inner" "mm_halved M K N outer inner"
  shows "\<exists>outer' inner'. mm_split cfg outer inner = Some (outer', inner') \<and> mm_within M K N inner' \<and>
    mm_halved M K N outer' inner' \<and> MatMul_sram_size_needed cfg inner' \<le> spad_limit cfg"
  using assms(3,4)
proof (induction "unat (ml_M inner) + unat (ml_K inner) + unat (ml_N inner)" arbitrary: outer inner rule: less_induct)
  case less
  let ?w = "unat (core_width cfg)"
  have w: "0 < ?w" using assms(1) by (simp add: mm_ok_def word_less_nat_alt)
  show ?case
  proof (cases "spad_limit cfg < MatMul_sram_size_needed cfg inner")
    case False then show ?thesis using less by (subst mm_split.simps) simp
  next
    case True
    let ?o = "fst (split_largest outer inner)" and ?i = "snd (split_largest outer inner)"
    have "\<not> (unat (ml_M inner) = 1 \<and> unat (ml_K inner) = 1 \<and> unat (ml_N inner) = 1)"
    proof
      assume "unat (ml_M inner) = 1 \<and> unat (ml_K inner) = 1 \<and> unat (ml_N inner) = 1"
      then have "unat (MatMul_sram_size_needed cfg inner) = mm_bytes cfg 1 1 1"
        using unat_needed [OF assms(1) less(2)] by simp
      then have "unat (MatMul_sram_size_needed cfg inner) = 3 * ?w\<^sup>2 * unat (precision cfg)"
        using w by (simp add: mm_bytes_def Let_def pad_1 [OF w, simplified] power2_eq_square algebra_simps)
      then show False using True assms(2) by (simp add: word_less_nat_alt)
    qed
    then have one: "1 < unat (ml_M inner) \<or> 1 < unat (ml_K inner) \<or> 1 < unat (ml_N inner)"
      using less(2) by (auto simp: mm_within_def)
    have d: "M < 2 ^ 31" "K < 2 ^ 31" "N < 2 ^ 31" using assms(1) by (simp_all add: mm_ok_def)
    have h: "halved M (ml_M outer) (ml_M inner)" "halved K (ml_K outer) (ml_K inner)" "halved N (ml_N outer) (ml_N inner)"
      using less(3) by (simp_all add: mm_halved_def)
    have "mm_halved M K N ?o ?i \<and> unat (ml_M ?i) + unat (ml_K ?i) + unat (ml_N ?i) < unat (ml_M inner) + unat (ml_K inner) + unat (ml_N inner)"
      using one halved_step [OF h(1) d(1)] halved_step [OF h(2) d(2)] halved_step [OF h(3) d(3)] h
      by (auto simp: split_largest_def mm_halved_def word_le_nat_alt)
    with less(1) [OF _ split_within [OF less(2)]] obtain o' i' where
      "mm_split cfg ?o ?i = Some (o', i')" "mm_within M K N i'" "mm_halved M K N o' i'"
        "MatMul_sram_size_needed cfg i' \<le> spad_limit cfg" by blast
    then show ?thesis using True by (subst mm_split.simps) simp
  qed
qed

lemma mm_split_diverges:
  assumes "mm_ok cfg M K N" "mm_within M K N inner"
    and "\<not> 3 * (unat (core_width cfg))\<^sup>2 * unat (precision cfg) \<le> unat (spad_limit cfg)"
  shows "mm_split cfg outer inner = None"
proof (rule ccontr)
  have w: "0 < unat (core_width cfg)" using assms(1) by (simp add: mm_ok_def word_less_nat_alt)
  assume "mm_split cfg outer inner \<noteq> None"
  then obtain r where "mm_split cfg outer inner = Some r" by auto
  from mm_split_returns_fits [OF this assms(2)] obtain l where
    l: "mm_within M K N l" "MatMul_sram_size_needed cfg l \<le> spad_limit cfg" by blast
  have "mm_bytes cfg 1 1 1 \<le> unat (MatMul_sram_size_needed cfg l)"
    unfolding unat_needed [OF assms(1) l(1)] using l(1) by (intro mm_bytes_mono w) (simp_all add: mm_within_def)
  moreover have "mm_bytes cfg 1 1 1 = 3 * (unat (core_width cfg))\<^sup>2 * unat (precision cfg)"
    by (simp add: mm_bytes_def Let_def pad_1 [OF w, simplified] power2_eq_square algebra_simps)
  ultimately show False using l(2) assms(3) by (simp add: word_le_nat_alt)
qed

lemma mm_split_result:
  assumes "mm_ok cfg M K N" "mm_within M K N inner" "mm_halved M K N outer inner" "mm_split cfg outer inner = Some (outer', inner')"
  shows "mm_within M K N inner' \<and> mm_halved M K N outer' inner' \<and> MatMul_sram_size_needed cfg inner' \<le> spad_limit cfg"
  using mm_split_returns [OF assms(1) _ assms(2,3)] mm_split_diverges [OF assms(1,2), of outer] assms(4) by fastforce

lemma mm_start:
  assumes "mm_ok cfg (unat m) (unat k) (unat n)"
  shows "mm_within (unat m) (unat k) (unat n) \<lparr>ml_M = m, ml_K = k, ml_N = n\<rparr>"
    and "mm_halved (unat m) (unat k) (unat n) \<lparr>ml_M = 1, ml_K = 1, ml_N = 1\<rparr> \<lparr>ml_M = m, ml_K = k, ml_N = n\<rparr>"
  using assms by (simp_all add: mm_within_def mm_ok_def mm_halved_def halved_1)

text \<open>
  C30: The tile loop of \<open>MatMul\<close>.  For non-empty extents whose size does not overflow, the loop
  returns exactly when three blocks of the systolic array fit half of the scratchpad; each extent
  has then been halved a number of times, the tiles cover all three extents, and a tile fits.
\<close>

theorem matmul_loops:
  assumes "2 \<le> length d0" "d1 \<noteq> []"
    and "mm_ok cfg (unat (d0 ! (length d0 - 2))) (unat (last d0)) (unat (last d1))"
  shows "if 3 * (unat (core_width cfg))\<^sup>2 * unat (precision cfg) \<le> unat (spad_limit cfg)
    then \<exists>batches outer inner. MatMul_calculate_loops cfg d0 d1 = Some (Inr (batches, outer, inner)) \<and>
      mm_halved (unat (d0 ! (length d0 - 2))) (unat (last d0)) (unat (last d1)) outer inner \<and>
      unat (d0 ! (length d0 - 2)) \<le> unat (ml_M outer) * unat (ml_M inner) \<and>
      unat (last d0) \<le> unat (ml_K outer) * unat (ml_K inner) \<and> unat (last d1) \<le> unat (ml_N outer) * unat (ml_N inner) \<and>
      MatMul_sram_size_needed cfg inner \<le> spad_limit cfg
    else MatMul_calculate_loops cfg d0 d1 = None"
proof -
  let ?M = "unat (d0 ! (length d0 - 2))" and ?K = "unat (last d0)" and ?N = "unat (last d1)"
  let ?inner = "\<lparr>ml_M = d0 ! (length d0 - 2), ml_K = last d0, ml_N = last d1\<rparr>" and ?outer = "\<lparr>ml_M = 1, ml_K = 1, ml_N = 1\<rparr>"
  have cw: "core_width cfg \<noteq> 0" using assms(3) by (auto simp: mm_ok_def)
  note start = mm_start [OF assms(3)]
  show ?thesis
  proof (cases "3 * (unat (core_width cfg))\<^sup>2 * unat (precision cfg) \<le> unat (spad_limit cfg)")
    case True
    from mm_split_returns [OF assms(3) True start] obtain outer inner where
      "mm_split cfg ?outer ?inner = Some (outer, inner)" "mm_halved ?M ?K ?N outer inner"
        "MatMul_sram_size_needed cfg inner \<le> spad_limit cfg" by blast
    then show ?thesis using True assms(1,2) cw
      by (auto simp: MatMul_calculate_loops_def Let_def mm_halved_def intro: halved_covers)
  next
    case False
    then show ?thesis using mm_split_diverges [OF assms(3) start(1) False] assms(1,2) cw
      by (simp add: MatMul_calculate_loops_def Let_def)
  qed
qed

theorem matmul_loops_witness:
  "\<exists>batches outer inner. MatMul_calculate_loops demo_cfg [256, 1024] [1024, 3072] = Some (Inr (batches, outer, inner)) \<and>
     1024 \<le> unat (ml_K outer) * unat (ml_K inner)"
  using matmul_loops [of "[256, 1024]" "[1024, 3072]" demo_cfg]
  by (auto simp: mm_ok_def mm_bytes_def pad_def cdiv_def demo_cfg_def spad_limit_def)

subsection \<open>Loops as folds\<close>

definition offs :: "u32 \<Rightarrow> u32 \<Rightarrow> u32 list" where
  "offs lim step = map (\<lambda>i. of_nat i * step) [0..<cdiv (unat lim) (unat step)]"

lemma less_cdiv_iff: "0 < b \<Longrightarrow> i < cdiv a b \<longleftrightarrow> i * b < a"
  by (metis cdiv_le_iff not_less)

lemma unat_off:
  assumes "0 < unat step" "i * unat step < 2 ^ 32"
  shows "unat (of_nat i * step :: u32) = i * unat step"
  by (rule unat_eq_of_natI) (use assms in simp_all)

lemma step_loop_foldR_aux:
  assumes "0 < unat step" "unat lim + unat step \<le> 2 ^ 32" "j \<le> cdiv (unat lim) (unat step)"
  shows "step_loop body (of_nat j * step) lim step s =
    foldR (\<lambda>s x. body x s) s (map (\<lambda>i. of_nat i * step) [j..<cdiv (unat lim) (unat step)])"
  using assms(3)
proof (induction "cdiv (unat lim) (unat step) - j" arbitrary: j s)
  case 0
  then have j: "j = cdiv (unat lim) (unat step)" by simp
  have "cdiv (unat lim) (unat step) * unat step < unat lim + unat step" by (rule cdiv_mult_less [OF assms(1)])
  then have l: "j * unat step < 2 ^ 32" using assms(2) j by simp
  have "unat lim \<le> j * unat step" using j cdiv_mult_ge [OF assms(1)] by simp
  then have "\<not> of_nat j * step < lim" using unat_off [OF assms(1) l] by (simp add: word_less_nat_alt)
  then show ?case using j by (subst step_loop.simps) simp
next
  case (Suc d)
  then have jc: "j < cdiv (unat lim) (unat step)" by simp
  then have jl: "j * unat step < unat lim" using less_cdiv_iff [OF assms(1)] by simp
  then have l: "j * unat step < 2 ^ 32" using assms(2) by simp
  have x: "of_nat j * step < lim" using unat_off [OF assms(1) l] jl by (simp add: word_less_nat_alt)
  have s: "of_nat j * step + step = of_nat (Suc j) * step" by (simp add: algebra_simps)
  have ih: "step_loop body (of_nat j * step + step) lim step s' =
      foldR (\<lambda>s x. body x s) s' (map (\<lambda>i. of_nat i * step) [Suc j..<cdiv (unat lim) (unat step)])" for s'
    unfolding s using Suc(2) jc by (intro Suc(1)) simp_all
  have u: "[j..<cdiv (unat lim) (unat step)] = j # [Suc j..<cdiv (unat lim) (unat step)]"
    using jc by (rule upt_conv_Cons)
  show ?case using x ih unfolding u
    by (subst step_loop.simps) (auto simp: bindR_def split: option.splits sum.splits)
qed

lemma step_loop_foldR:
  assumes "0 < unat step" "unat lim + unat step \<le> 2 ^ 32"
  shows "step_loop body 0 lim step s = foldR (\<lambda>s x. body x s) s (offs lim step)"
  using step_loop_foldR_aux [OF assms, of 0 body s] by (simp add: offs_def)

lemma foldR_all:
  "\<lbrakk>foldR f s xs = Some (Inr s'); x \<in> set xs\<rbrakk> \<Longrightarrow> \<exists>s1 s2. f s1 x = Some (Inr s2)"
  by (induction xs arbitrary: s) auto

lemma foldR_invariant:
  assumes "foldR f s xs = Some (Inr s')" "P [] s"
    and "\<And>ys y zs s s'. xs = ys @ y # zs \<Longrightarrow> P ys s \<Longrightarrow> f s y = Some (Inr s') \<Longrightarrow> P (ys @ [y]) s'"
  shows "P xs s'"
proof -
  have "\<lbrakk>foldR f s zs = Some (Inr s'); P ys s; xs = ys @ zs\<rbrakk> \<Longrightarrow> P xs s'" for ys zs s
  proof (induction zs arbitrary: ys s)
    case (Cons z zs)
    then obtain s1 where s1: "f s z = Some (Inr s1)" "foldR f s1 zs = Some (Inr s')" by auto
    show ?case using Cons(1) [OF s1(2) assms(3) [OF Cons(4,3) s1(1)]] Cons(4) by simp
  qed simp
  from this [OF assms(1,2)] show ?thesis by simp
qed

lemma step_loop_all:
  assumes "step_loop body 0 lim step s = Some (Inr s')" "0 < unat step" "unat lim + unat step \<le> 2 ^ 32" "x \<in> set (offs lim step)"
  shows "\<exists>s1 s2. body x s1 = Some (Inr s2)"
  using assms foldR_all [of "\<lambda>s x. body x s" s "offs lim step" s' x] by (simp add: step_loop_foldR)

lemma in_offs_1: "x < lim \<Longrightarrow> x \<in> set (offs lim 1)"
  by (auto simp: offs_def cdiv_def word_less_nat_alt intro!: image_eqI [of _ _ "unat x"])

lemma zero_in_offs: "0 < lim \<Longrightarrow> 0 < step \<Longrightarrow> 0 \<in> set (offs lim step)"
  by (auto simp: offs_def word_less_nat_alt cdiv_pos intro!: image_eqI [of _ _ 0])

subsection \<open>A tile has to be full\<close>

lemma NPUTensor_get_addr_bound:
  assumes "NPUTensor_get_addr ix t = Inr a" "\<not> nt_is_transposed t" "i < length ix"
  shows "length (bt_dims t) = length ix \<and> ix ! i < bt_dims t ! i"
  using assms by (auto simp: NPUTensor_get_addr_def list_ex_length Let_def not_le split: if_splits)

text \<open>The extents and the step of the loops of a tile do not wrap around.\<close>

definition mc_ok :: "mm_ctx \<Rightarrow> bool" where
  "mc_ok c \<longleftrightarrow> 0 < mc_loop_size c \<and> 0 < mc_elems c \<and> unat (mc_loop_size c) + unat (mc_elems c) \<le> 2 ^ 32 \<and>
     0 < ml_M (mc_inner c) \<and> 0 < ml_K (mc_inner c) \<and> 0 < ml_N (mc_inner c) \<and>
     unat (ml_M (mc_inner c)) + unat (mc_loop_size c) \<le> 2 ^ 32 \<and>
     unat (ml_K (mc_inner c)) + unat (mc_loop_size c) \<le> 2 ^ 32 \<and>
     unat (ml_N (mc_inner c)) + unat (mc_loop_size c) \<le> 2 ^ 32"

lemma mm_blocks_in:
  assumes "mm_blocks c st s = Some (Inr s')" "mc_ok c" "m \<in> set (offs (ml_M (mc_inner c)) (mc_loop_size c))"
  shows "\<exists>s1 s2. mm_block c st 0 0 m s1 = Some (Inr s2)"
proof -
  have p: "0 < unat (mc_loop_size c)" using assms(2) by (simp add: mc_ok_def word_less_nat_alt)
  have z: "0 \<in> set (offs (ml_N (mc_inner c)) (mc_loop_size c))" "0 \<in> set (offs (ml_K (mc_inner c)) (mc_loop_size c))"
    using assms(2) by (auto intro!: zero_in_offs simp: mc_ok_def)
  note step_loop_all [OF _ p]
  from step_loop_all [OF assms(1) [unfolded mm_blocks_def] p _ z(1)] assms(2) obtain t1 t2 where
    "step_loop (\<lambda>k. step_loop (mm_block c st 0 k) 0 (ml_M (mc_inner c)) (mc_loop_size c)) 0 (ml_K (mc_inner c)) (mc_loop_size c) t1 =
      Some (Inr t2)" by (auto simp: mc_ok_def)
  from step_loop_all [OF this p _ z(2)] assms(2) obtain t3 t4 where
    "step_loop (mm_block c st 0 0) 0 (ml_M (mc_inner c)) (mc_loop_size c) t3 = Some (Inr t4)" by (auto simp: mc_ok_def)
  from step_loop_all [OF this p _ assms(3)] assms(2) show ?thesis by (auto simp: mc_ok_def)
qed

lemma mm_blocks_act_in_bounds:
  assumes "mm_blocks c st s = Some (Inr s')" "mc_ok c" "m \<in> set (offs (ml_M (mc_inner c)) (mc_loop_size c))"
    and "j < mc_loop_size c" "mc_batch_index c = []" "\<not> nt_is_transposed (mc_act c)"
  shows "mc_m_outer c + m + j < bt_dims (mc_act c) ! 0"
proof -
  have p: "0 < unat (mc_loop_size c)" "0 < unat (mc_elems c)" using assms(2) by (simp_all add: mc_ok_def word_less_nat_alt)
  let ?body = "\<lambda>m_loop k_loop (addrs, tm, tk).
         Some (bindE (NPUTensor_get_addr (mc_batch_index c @ [mc_m_outer c + m + m_loop, mc_k_outer c + 0 + k_loop]) (mc_act c))
           (\<lambda>a. Inr (if a \<noteq> GARBAGE_ADDR then (addrs @ [a], m_loop + 1, k_loop + 1) else (addrs, tm, tk))))"
  from mm_blocks_in [OF assms(1-3)] obtain s1 s2 where "load_act c m 0 s1 = Some (Inr s2)"
    by (auto simp: mm_block_def)
  then obtain r where
    "step_loop (\<lambda>m_loop. step_loop (?body m_loop) 0 (mc_loop_size c) (mc_elems c)) 0 (mc_loop_size c) 1 ([], 0, 0) = Some (Inr r)"
    by (auto simp: load_act_def)
  from step_loop_all [OF this _ _ in_offs_1 [OF assms(4)]] unat_u32_less [of "mc_loop_size c"] obtain t1 t2 where
    "step_loop (?body j) 0 (mc_loop_size c) (mc_elems c) t1 = Some (Inr t2)" by auto
  from step_loop_all [OF this p(2) _ zero_in_offs] assms(2) obtain t3 t4 where
    "?body j 0 t3 = Some (Inr t4)" by (auto simp: mc_ok_def)
  then obtain a where "NPUTensor_get_addr [mc_m_outer c + m + j, mc_k_outer c] (mc_act c) = Inr a"
    using assms(5) by (cases t3) auto
  from NPUTensor_get_addr_bound [OF this assms(6), of 0] show ?thesis by simp
qed

lemma MatMul_context_Inr:
  assumes "MatMul_context cfg oper g inner B M K N = Inr c" "op_input oper 0 g = Inr (NT act)"
  shows "mc_act c = act" "mc_batch_index c = (if length (bt_dims act) = 3 then [B] else [])" "mc_inner c = inner"
    "mc_cfg c = cfg" "mc_m_outer c = ml_M inner * M" "mc_elems c = dram_req_size cfg * dram_channels cfg div precision cfg"
  using assms by (auto simp: MatMul_context_def as_npu_def tensor_dims_def split: if_splits)

lemma step_loop_invariant:
  assumes "step_loop body x lim step s = Some (Inr s')" "P s" "\<And>x s s'. P s \<Longrightarrow> body x s = Some (Inr s') \<Longrightarrow> P s'"
  shows "P s'"
proof -
  define Q where "Q = (\<lambda>(body :: u32 \<Rightarrow> 'a \<Rightarrow> 'a run) (x::u32) (lim::u32) (step::u32) s (r :: fault + 'a).
      (\<forall>x s s'. P s \<longrightarrow> body x s = Some (Inr s' :: fault + 'a) \<longrightarrow> P s') \<longrightarrow> P s \<longrightarrow> (\<forall>s'. r = Inr s' \<longrightarrow> P s'))"
  have "Q body x lim step s (Inr s')"
  proof (rule step_loop.raw_induct [where P = Q and xa = "((((body, x), lim), step), s)", unfolded split_conv, OF _ assms(1)])
    fix sl and body :: "u32 \<Rightarrow> 'a \<Rightarrow> 'a run" and x lim step s r
    assume ih: "\<And>body x lim step s r. sl body x lim step s = Some r \<Longrightarrow> Q body x lim step s r"
      and eq: "(if x < lim then Option.bind (body x s) (\<lambda>r. case r of Inl e \<Rightarrow> Some (Inl e) | Inr s \<Rightarrow> sl body (x + step) lim step s)
        else Some (Inr s)) = Some r"
    show "Q body x lim step s r"
      unfolding Q_def
    proof (intro impI allI)
      fix s' assume inv: "\<forall>x s s'. P s \<longrightarrow> body x s = Some (Inr s') \<longrightarrow> P s'" and s: "P s" and r: "r = Inr s'"
      show "P s'"
      proof (cases "x < lim")
        case True
        then obtain s1 where s1: "body x s = Some (Inr s1)" "sl body (x + step) lim step s1 = Some r"
        proof -
          from eq True obtain q where q: "body x s = Some q" "(case q of Inl e \<Rightarrow> Some (Inl e) | Inr s \<Rightarrow> sl body (x + step) lim step s) = Some r"
            by (auto simp: bind_eq_Some_conv)
          then show thesis using that r by (cases q) auto
        qed
        have "P s1" using inv s s1(1) by blast
        then show ?thesis using ih [OF s1(2)] inv r unfolding Q_def by blast
      next
        case False then show ?thesis using eq r s by simp
      qed
    qed
  qed
  then show ?thesis using assms(2,3) unfolding Q_def by blast
qed

lemma load_bias_movin:
  assumes "load_bias c bias s = Some (Inr s')" "\<forall>i \<in> set (mm_insts s). opcode i = MOVIN"
  shows "\<forall>i \<in> set (mm_insts s'). opcode i = MOVIN"
  by (rule step_loop_invariant [OF assms(1) [unfolded load_bias_def], where P = "\<lambda>s. \<forall>i \<in> set (mm_insts s). opcode i = MOVIN"])
    (use assms(2) in \<open>auto simp: mm_emit_def movin_def Instruction0_def\<close>)

lemma MatMul_instructions_blocks:
  assumes "MatMul_initialize_instructions cfg oper g inner B M K N st = Some (Inr tile)"
  shows "\<exists>c s s'. MatMul_context cfg oper g inner B M K N = Inr c \<and> mm_blocks c st s = Some (Inr s') \<and>
    tl_instructions tile = mm_insts s' \<and> (\<forall>i \<in> set (mm_insts s). opcode i = MOVIN)"
  using assms load_bias_movin unfolding MatMul_initialize_instructions_def Let_def by (fastforce split: if_splits)

text \<open>
  C31: \<open>MatMul\<close> works on full blocks only.  If all tiles of a product with a two-dimensional
  activation are generated, its number of rows is a multiple of the width of the systolic array:
  the load of a partial block asks for a row past the end, for which \<open>get_addr\<close> throws, although
  the code after the call is prepared for \<open>GARBAGE_ADDR\<close>.
\<close>

theorem matmul_needs_full_tiles:
  assumes "MatMul_calculate_loops cfg [rows, cols] d1 = Some (Inr (batches, outer, inner))"
    and "MatMul_initialize_tiles cfg oper g batches outer inner = Some (Inr tiles)"
    and "op_input oper 0 g = Inr (NT act)" "bt_dims act = [rows, cols]" "\<not> nt_is_transposed act"
    and "d1 \<noteq> []" "mm_ok cfg (unat rows) (unat cols) (unat (last d1))" "0 < batches"
    and "0 < dram_req_size cfg * dram_channels cfg div precision cfg"
      "unat (dram_req_size cfg * dram_channels cfg div precision cfg) + unat (core_width cfg) \<le> 2 ^ 32"
  shows "unat (core_width cfg) dvd unat rows"
proof -
  let ?w = "unat (core_width cfg)" and ?R = "unat rows" and ?i = "unat (ml_M inner)"
  have w: "0 < ?w" using assms(7) by (simp add: mm_ok_def word_less_nat_alt)
  have "mm_split cfg \<lparr>ml_M = 1, ml_K = 1, ml_N = 1\<rparr> \<lparr>ml_M = rows, ml_K = cols, ml_N = last d1\<rparr> = Some (outer, inner)"
    using assms(1,6) w by (auto simp: MatMul_calculate_loops_def Let_def bind_eq_Some_conv split: if_splits)
  from mm_split_result [OF assms(7) mm_start [OF assms(7)] this] have
    win: "mm_within ?R (unat cols) (unat (last d1)) inner" and cov: "?R \<le> unat (ml_M outer) * ?i"
      and out0: "0 < unat (ml_K outer)" "0 < unat (ml_N outer)"
    by (auto simp: mm_halved_def halved_covers halved_def)
  have i: "0 < ?i" "?i \<le> ?R" using win by (simp_all add: mm_within_def)
  have R: "?R + ?w < 2 ^ 31" using assms(7) by (simp add: mm_ok_def)
  let ?M = "(?R - 1) div ?i"
  have "?R - 1 < unat (ml_M outer) * ?i" using cov i by linarith
  then have M: "?M < unat (ml_M outer)" using i by (simp add: div_less_iff_less_mult)
  let ?m = "of_nat ?M :: u32"
  have uM: "unat ?m = ?M" by (rule unat_eq_of_natI) (use M unat_u32_less [of "ml_M outer"] in \<open>simp_all del: unat_u32_less\<close>)
  obtain s1 s2 where "step_loop (\<lambda>M. step_loop (\<lambda>N. step_loop (\<lambda>K tiles.
         bindR (MatMul_initialize_instructions cfg oper g inner 0 M K N (K + 1 = ml_K outer)) (\<lambda>t. Some (Inr (tiles @ [t]))))
       0 (ml_K outer) 1) 0 (ml_N outer) 1) 0 (ml_M outer) 1 s1 = Some (Inr s2)"
    using step_loop_all [OF assms(2) [unfolded MatMul_initialize_tiles_def] _ _ in_offs_1 [OF assms(8)]]
      unat_u32_less [of batches] by auto
  from step_loop_all [OF this _ _ in_offs_1 [of ?m]] obtain s1 s2 where "step_loop (\<lambda>N. step_loop (\<lambda>K tiles.
         bindR (MatMul_initialize_instructions cfg oper g inner 0 ?m K N (K + 1 = ml_K outer)) (\<lambda>t. Some (Inr (tiles @ [t]))))
       0 (ml_K outer) 1) 0 (ml_N outer) 1 s1 = Some (Inr s2)"
    using M uM unat_u32_less [of "ml_M outer"] by (auto simp: word_less_nat_alt)
  from step_loop_all [OF this _ _ in_offs_1 [of 0]] obtain s1 s2 where "step_loop (\<lambda>K tiles.
         bindR (MatMul_initialize_instructions cfg oper g inner 0 ?m K 0 (K + 1 = ml_K outer)) (\<lambda>t. Some (Inr (tiles @ [t]))))
       0 (ml_K outer) 1 s1 = Some (Inr s2)"
    using out0 unat_u32_less [of "ml_N outer"] by (auto simp: word_less_nat_alt)
  from step_loop_all [OF this _ _ in_offs_1 [of 0]] obtain tile where
    "MatMul_initialize_instructions cfg oper g inner 0 ?m 0 0 (1 = ml_K outer) = Some (Inr tile)"
    using out0 unat_u32_less [of "ml_K outer"] by (auto simp: word_less_nat_alt)
  from MatMul_instructions_blocks [OF this] obtain c s s' where
    c: "MatMul_context cfg oper g inner 0 ?m 0 0 = Inr c" "mm_blocks c (1 = ml_K outer) s = Some (Inr s')" by blast
  note ctx = MatMul_context_Inr [OF c(1) assms(3)]
  have ok: "mc_ok c"
    using win assms(7,9,10) ctx by (auto simp: mc_ok_def mm_within_def mm_ok_def word_less_nat_alt)
  have iM: "?i * ?M \<le> ?R" using times_div_less_eq_dividend [of ?i "?R - 1"] by linarith
  obtain q where qc: "cdiv ?i ?w = Suc q" using cdiv_pos [OF w i(1)] by (metis gr0_implies_Suc)
  have q: "q * ?w < ?i" using less_cdiv_iff [OF w, of q ?i] qc by simp
  have pq: "pad ?w ?i = q * ?w + ?w" using qc by (simp add: pad_def)
  have qo: "of_nat q * core_width cfg \<in> set (offs (ml_M (mc_inner c)) (mc_loop_size c))"
    using qc ctx by (auto simp: offs_def intro!: image_eqI [of _ _ q])
  have w1: "unat (core_width cfg - 1) = ?w - 1" using w by (subst unat_sub) (simp_all add: word_le_nat_alt)
  have "mc_m_outer c + of_nat q * core_width cfg + (core_width cfg - 1) < bt_dims (mc_act c) ! 0"
    by (rule mm_blocks_act_in_bounds [OF c(2) ok qo]) (use assms(4,5) ctx w w1 in \<open>auto simp: word_less_nat_alt\<close>)
  then have "unat (ml_M inner * ?m + of_nat q * core_width cfg + (core_width cfg - 1)) < ?R"
    using ctx assms(4) by (simp add: word_less_nat_alt)
  moreover have "unat (ml_M inner * ?m + of_nat q * core_width cfg + (core_width cfg - 1)) = ?i * ?M + q * ?w + (?w - 1)"
  proof (rule unat_eq_of_natI)
    have "core_width cfg - 1 = of_nat (?w - 1)" using w1 by (metis of_nat_unat ucast_id)
    then show "ml_M inner * ?m + of_nat q * core_width cfg + (core_width cfg - 1) = of_nat (?i * ?M + q * ?w + (?w - 1))" by simp
    have "?i * ?M + q * ?w + (?w - 1) < ?R + ?R + ?w" using iM q i(2) w by linarith
    then show "?i * ?M + q * ?w + (?w - 1) < 2 ^ 32" using R by simp
  qed
  ultimately have "?i * ?M + pad ?w ?i \<le> ?R" using pq w by linarith
  moreover have "?R \<le> ?i * ?M + ?i"
  proof -
    have "?R - 1 < ?i * ?M + ?i" using mult_div_mod_eq [of ?i "?R - 1"] mod_less_divisor [OF i(1), of "?R - 1"] by linarith
    then show ?thesis by simp
  qed
  moreover have "?i \<le> pad ?w ?i" by (rule pad_ge [OF w])
  ultimately have "pad ?w ?i = ?i" "?R = ?i * ?M + ?i" by simp_all
  then show ?thesis by (metis dvd_add dvd_mult2 dvd_triv_right pad_def)
qed

text \<open>A product of two matrices of one block each, on a systolic array of width two.\<close>

definition demo_mm_cfg :: sim_config where
  "demo_mm_cfg = demo_cfg\<lparr>core_width := 2\<rparr>"

definition demo_mat :: "string \<Rightarrow> u64 \<Rightarrow> npu_tensor" where
  "demo_mat name base = \<lparr>bt_produced = True, bt_id = 0, bt_name = name, bt_dims = [2, 2], bt_child_nodes = [], bt_precision = 2,
     nt_inners = [Inner2D \<lparr>ti_base_addr = base, ti_dims = [2, 2], ti_size = 8, ti_buf_type = ACT, ti_precision = 2\<rparr>],
     nt_is_transposed = False\<rparr>"

definition demo_mm_oper :: operation where
  "demo_mm_oper = \<lparr>op_id = 3, op_name = ''fc1'', op_optype = ''fc1'', op_inputs = [Some 0, Some 1], op_outputs = [2], op_tiles = [],
     op_stat = OperationStat_new ''fc1'', op_finish = False, op_spad_addr = SPAD_BASE, op_acc_spad_addr = ACCUM_SPAD_BASE\<rparr>"

definition demo_mm_graph :: graph where
  "demo_mm_graph = \<lparr>g_tensors = [NT (demo_mat ''in'' 4096), NT (demo_mat ''w'' 8192), NT (demo_mat ''out'' 12288)],
     g_ops = [demo_mm_oper], g_mem = demo_mem\<rparr>"

lemma step_loop_more: "x < lim \<Longrightarrow> step_loop body x lim step s = bindR (body x s) (step_loop body (x + step) lim step)"
  by (subst step_loop.simps) (auto simp: bindR_def split: option.splits sum.splits)

lemma step_loop_done [simp]: "\<not> x < lim \<Longrightarrow> step_loop body x lim step s = Some (Inr s)"
  by (subst step_loop.simps) simp

definition demo_mm_ctx :: mm_ctx where
  "demo_mm_ctx = \<lparr>mc_cfg = demo_mm_cfg, mc_act = demo_mat ''in'' 4096, mc_wgt = demo_mat ''w'' 8192, mc_out = demo_mat ''out'' 12288,
     mc_elems = 1024, mc_batch_index = [], mc_inner = \<lparr>ml_M = 2, ml_K = 2, ml_N = 2\<rparr>, mc_m_outer = 0, mc_k_outer = 0, mc_n_outer = 0\<rparr>"

lemma demo_mm_context:
  "MatMul_context demo_mm_cfg demo_mm_oper demo_mm_graph \<lparr>ml_M = 2, ml_K = 2, ml_N = 2\<rparr> 0 0 0 0 = Inr demo_mm_ctx"
  by (simp add: MatMul_context_def demo_mm_ctx_def demo_mm_oper_def demo_mm_graph_def op_input_def get_tensor_def as_npu_def
      demo_mm_cfg_def demo_cfg_def tensor_dims_def demo_mat_def)

lemma demo_mat_addr: "i < 2 \<Longrightarrow> j < 2 \<Longrightarrow> NPUTensor_get_addr [i, j] (demo_mat name base) =
    Inr (switch_co_ch (base + ucast ((i * 2 + j) * 2)))"
  by (simp add: NPUTensor_get_addr_def demo_mat_def inner_get_addr_def get_addr_2D_def not_le)

lemma demo_mm_ctx_simps [simp]:
  "mc_cfg demo_mm_ctx = demo_mm_cfg" "mc_elems demo_mm_ctx = 1024" "mc_inner demo_mm_ctx = \<lparr>ml_M = 2, ml_K = 2, ml_N = 2\<rparr>"
  "core_width demo_mm_cfg = 2" "mc_batch_index demo_mm_ctx = []" "mc_m_outer demo_mm_ctx = 0" "mc_k_outer demo_mm_ctx = 0"
  "mc_n_outer demo_mm_ctx = 0" "mc_act demo_mm_ctx = demo_mat ''in'' 4096" "mc_wgt demo_mm_ctx = demo_mat ''w'' 8192"
  "mc_out demo_mm_ctx = demo_mat ''out'' 12288"
  by (simp_all add: demo_mm_ctx_def demo_mm_cfg_def)

lemma demo_mm_blocks: "\<exists>s'. mm_blocks demo_mm_ctx True s = Some (Inr s')"
  by (simp add: mm_blocks_def step_loop_more mm_block_def load_act_def load_wgt_def store_out_def demo_mat_addr bindR_def switch_co_ch_def)

lemma demo_mm_tile: "\<exists>tile. MatMul_initialize_instructions demo_mm_cfg demo_mm_oper demo_mm_graph \<lparr>ml_M = 2, ml_K = 2, ml_N = 2\<rparr> 0 0 0 0 True =
    Some (Inr tile)"
proof -
  obtain s' where "mm_blocks demo_mm_ctx True \<lparr>mm_insts = [], mm_tile_m = 0, mm_tile_k = 0, mm_tile_n = 0\<rparr> = Some (Inr s')"
    using demo_mm_blocks by blast
  then show ?thesis by (simp add: MatMul_initialize_instructions_def demo_mm_context Let_def) (simp add: demo_mm_oper_def)
qed

theorem matmul_needs_full_tiles_witness:
  "\<exists>batches outer inner tiles. MatMul_calculate_loops demo_mm_cfg [2, 2] [2, 2] = Some (Inr (batches, outer, inner)) \<and>
     MatMul_initialize_tiles demo_mm_cfg demo_mm_oper demo_mm_graph batches outer inner = Some (Inr tiles) \<and>
     unat (core_width demo_mm_cfg) dvd 2"
proof -
  let ?one = "\<lparr>ml_M = 1, ml_K = 1, ml_N = 1\<rparr>" and ?in = "\<lparr>ml_M = 2, ml_K = 2, ml_N = 2\<rparr>"
  have "mm_split demo_mm_cfg ?one ?in = Some (?one, ?in)"
    by (subst mm_split.simps) (simp add: MatMul_sram_size_needed_def round_to_def spad_limit_def demo_mm_cfg_def demo_cfg_def)
  then have l: "MatMul_calculate_loops demo_mm_cfg [2, 2] [2, 2] = Some (Inr (1, ?one, ?in))"
    by (simp add: MatMul_calculate_loops_def dims_prod_def)
  obtain tile where "MatMul_initialize_instructions demo_mm_cfg demo_mm_oper demo_mm_graph ?in 0 0 0 0 True = Some (Inr tile)"
    using demo_mm_tile by blast
  then have t: "MatMul_initialize_tiles demo_mm_cfg demo_mm_oper demo_mm_graph 1 ?one ?in = Some (Inr [tile])"
    by (simp add: MatMul_initialize_tiles_def step_loop_more)
  have "unat (core_width demo_mm_cfg) dvd unat (2 :: u32)"
    by (rule matmul_needs_full_tiles [OF l t, of "demo_mat ''in'' 4096"])
      (simp_all add: demo_mm_oper_def demo_mm_graph_def op_input_def get_tensor_def demo_mat_def mm_ok_def mm_bytes_def pad_def
        cdiv_def demo_mm_cfg_def demo_cfg_def)
  then show ?thesis using l t by auto
qed

subsection \<open>Every operand is loaded first\<close>

definition loaded :: "Instruction list \<Rightarrow> addr_type list" where
  "loaded insts = map dest_addr (filter (\<lambda>i. opcode i = MOVIN) insts)"

fun operands_loaded :: "addr_type list \<Rightarrow> Instruction list \<Rightarrow> bool" where
  "operands_loaded ls [] = True"
| "operands_loaded ls (i # is) =
     ((opcode i = GEMM \<or> opcode i = GEMM_PRELOAD \<longrightarrow> set (src_addrs i) \<subseteq> set ls) \<and>
      operands_loaded (if opcode i = MOVIN then ls @ [dest_addr i] else ls) is)"

lemma operands_loaded_snoc:
  "operands_loaded ls (is @ [i]) \<longleftrightarrow> operands_loaded ls is \<and>
     (opcode i = GEMM \<or> opcode i = GEMM_PRELOAD \<longrightarrow> set (src_addrs i) \<subseteq> set ls \<union> set (loaded is))"
  by (induction "is" arbitrary: ls) (auto simp: loaded_def)

definition mm_inv :: "addr_type set \<Rightarrow> mm_state \<Rightarrow> bool" where
  "mm_inv L s \<longleftrightarrow> operands_loaded [] (mm_insts s) \<and> L \<subseteq> set (loaded (mm_insts s))"

lemma mm_inv_mono: "mm_inv L s \<Longrightarrow> L' \<subseteq> L \<Longrightarrow> mm_inv L' s"
  by (auto simp: mm_inv_def)

lemma mm_inv_emit:
  assumes "mm_inv L s" "opcode i = GEMM \<or> opcode i = GEMM_PRELOAD \<Longrightarrow> set (src_addrs i) \<subseteq> L"
  shows "mm_inv (if opcode i = MOVIN then insert (dest_addr i) L else L) (mm_emit i s)"
  using assms by (auto simp: mm_inv_def mm_emit_def operands_loaded_snoc loaded_def)

lemma mm_inv_tile_fields [simp]:
  "mm_inv L (s\<lparr>mm_tile_m := x, mm_tile_k := y\<rparr>) = mm_inv L s" "mm_inv L (s\<lparr>mm_tile_n := z\<rparr>) = mm_inv L s"
  by (simp_all add: mm_inv_def)

lemma movin_simps [simp]: "opcode (movin cfg d a oper) = MOVIN" "dest_addr (movin cfg d a oper) = d"
  and movout_simps [simp]: "opcode (movout cfg d a) = MOVOUT"
  by (simp_all add: movin_def movout_def Instruction0_def)

lemma mm_inv_load: "mm_inv L s \<Longrightarrow> mm_inv (insert d L) (mm_emit (movin cfg d a oper) s)"
  using mm_inv_emit [of L s "movin cfg d a oper"] by simp

lemma load_act_inv: "load_act c m k s = Some (Inr s') \<Longrightarrow> mm_inv L s \<Longrightarrow> mm_inv (insert (act_offset c m k) L) s'"
  by (auto simp: load_act_def intro: mm_inv_load)

lemma load_wgt_inv: "load_wgt c k n s = Some (Inr s') \<Longrightarrow> mm_inv L s \<Longrightarrow> mm_inv (insert (wgt_offset c k n) L) s'"
  by (auto simp: load_wgt_def intro: mm_inv_load)

lemma mm_compute_inv: "mm_inv L s \<Longrightarrow> act_offset c m k \<in> L \<Longrightarrow> wgt_offset c k n \<in> L \<Longrightarrow> mm_inv L (mm_compute c n k m s)"
  unfolding mm_compute_def by (rule mm_inv_emit [THEN mm_inv_mono]) (auto simp: Instruction0_def)

lemma store_out_inv: "store_out c n m s = Some (Inr s') \<Longrightarrow> mm_inv L s \<Longrightarrow> mm_inv L s'"
  using mm_inv_emit [of L s "movout (mc_cfg c) (acc_offset c m n) a" for a] by (auto simp: store_out_def)

lemma mm_block_inv:
  assumes "mm_block c st n k m s = Some (Inr s')" "mm_inv L s" "n \<noteq> 0 \<Longrightarrow> act_offset c m k \<in> L" "m \<noteq> 0 \<Longrightarrow> wgt_offset c k n \<in> L"
  shows "mm_inv (insert (act_offset c m k) (insert (wgt_offset c k n) L)) s'"
proof -
  from assms(1) obtain s1 s2 where s1: "(if n = 0 then load_act c m k s else Some (Inr s)) = Some (Inr s1)"
    and s2: "(if m = 0 then load_wgt c k n s1 else Some (Inr s1)) = Some (Inr s2)"
    and s': "(if st \<and> k + mc_loop_size c \<ge> ml_K (mc_inner c) then store_out c n m (mm_compute c n k m s2)
        else Some (Inr (mm_compute c n k m s2))) = Some (Inr s')"
    by (auto simp: mm_block_def Let_def)
  have "mm_inv (insert (act_offset c m k) L) s1" using s1 assms(2,3) load_act_inv by (auto simp: insert_absorb split: if_splits)
  then have "mm_inv (insert (wgt_offset c k n) (insert (act_offset c m k) L)) s2"
    using s2 assms(4) load_wgt_inv by (auto simp: insert_absorb split: if_splits)
  from mm_compute_inv [OF this, of c m k n] have "mm_inv (insert (act_offset c m k) (insert (wgt_offset c k n) L)) (mm_compute c n k m s2)"
    by (simp add: insert_commute)
  then show ?thesis using s' store_out_inv by (auto split: if_splits)
qed

lemma offs_first:
  assumes "offs lim step = ys @ y # zs" "y \<noteq> 0"
  shows "ys \<noteq> []"
proof
  assume "ys = []"
  then have h: "offs lim step ! 0 = y" "0 < length (offs lim step)" using assms(1) by simp_all
  then have "offs lim step ! 0 = 0" unfolding offs_def by (simp only: nth_map length_map length_upt nth_upt) simp
  then show False using h assms(2) by simp
qed

lemma mm_blocks_operands_loaded:
  assumes "mm_blocks c st s = Some (Inr s')" "mc_ok c" "mm_inv {} s"
  shows "operands_loaded [] (mm_insts s')"
proof -
  let ?Ns = "offs (ml_N (mc_inner c)) (mc_loop_size c)" and ?Ks = "offs (ml_K (mc_inner c)) (mc_loop_size c)"
    and ?Ms = "offs (ml_M (mc_inner c)) (mc_loop_size c)"
  let ?A = "\<lambda>ms ks. {act_offset c m k | m k. m \<in> set ms \<and> k \<in> set ks}"
  have ok: "0 < unat (mc_loop_size c)" "unat (ml_N (mc_inner c)) + unat (mc_loop_size c) \<le> 2 ^ 32"
    "unat (ml_K (mc_inner c)) + unat (mc_loop_size c) \<le> 2 ^ 32" "unat (ml_M (mc_inner c)) + unat (mc_loop_size c) \<le> 2 ^ 32"
    using assms(2) by (simp_all add: mc_ok_def word_less_nat_alt)
  note fold = step_loop_foldR [OF ok(1) ok(2)] step_loop_foldR [OF ok(1) ok(3)] step_loop_foldR [OF ok(1) ok(4)]
  have m_loop: "mm_inv (L \<union> ?A ?Ms [k]) s'"
    if "foldR (\<lambda>s m. mm_block c st n k m s) s ?Ms = Some (Inr s')" "mm_inv L s" "n \<noteq> 0 \<Longrightarrow> ?A ?Ms [k] \<subseteq> L" for L n k s s'
  proof -
    have "mm_inv (L \<union> ?A ?Ms [k] \<union> (if ?Ms = [] then {} else {wgt_offset c k n})) s'"
    proof (rule foldR_invariant [OF that(1), where P = "\<lambda>ms s. mm_inv (L \<union> ?A ms [k] \<union> (if ms = [] then {} else {wgt_offset c k n})) s"])
      show "mm_inv (L \<union> ?A [] [k] \<union> (if [] = [] then {} else {wgt_offset c k n})) s" using that(2) by simp
    next
      fix ys m zs s s'
      assume o: "?Ms = ys @ m # zs" and inv: "mm_inv (L \<union> ?A ys [k] \<union> (if ys = [] then {} else {wgt_offset c k n})) s"
        and step: "mm_block c st n k m s = Some (Inr s')"
      have "n \<noteq> 0 \<Longrightarrow> act_offset c m k \<in> L" using that(3) o by auto
      moreover have "m \<noteq> 0 \<Longrightarrow> ys \<noteq> []" by (rule offs_first [OF o])
      ultimately show "mm_inv (L \<union> ?A (ys @ [m]) [k] \<union> (if ys @ [m] = [] then {} else {wgt_offset c k n})) s'"
        by (intro mm_inv_mono [OF mm_block_inv [OF step inv]]) auto
    qed
    then show ?thesis by (rule mm_inv_mono) auto
  qed
  have k_loop: "mm_inv (L \<union> ?A ?Ms ?Ks) s'"
    if "foldR (\<lambda>s k. foldR (\<lambda>s m. mm_block c st n k m s) s ?Ms) s ?Ks = Some (Inr s')" "mm_inv L s" "n \<noteq> 0 \<Longrightarrow> ?A ?Ms ?Ks \<subseteq> L" for L n s s'
  proof (rule foldR_invariant [OF that(1), where P = "\<lambda>ks s. mm_inv (L \<union> ?A ?Ms ks) s"])
    show "mm_inv (L \<union> ?A ?Ms []) s" using that(2) by simp
  next
    fix ys k zs s s'
    assume o: "?Ks = ys @ k # zs" and inv: "mm_inv (L \<union> ?A ?Ms ys) s"
      and step: "foldR (\<lambda>s m. mm_block c st n k m s) s ?Ms = Some (Inr s')"
    have "k \<in> set ?Ks" using o by simp
    then have "?A ?Ms [k] \<subseteq> ?A ?Ms ?Ks" by auto
    then have "n \<noteq> 0 \<Longrightarrow> ?A ?Ms [k] \<subseteq> L \<union> ?A ?Ms ys" using that(3) by blast
    from m_loop [OF step inv this] show "mm_inv (L \<union> ?A ?Ms (ys @ [k])) s'" by (rule mm_inv_mono) auto
  qed
  have "foldR (\<lambda>s n. foldR (\<lambda>s k. foldR (\<lambda>s m. mm_block c st n k m s) s ?Ms) s ?Ks) s ?Ns = Some (Inr s')"
    using assms(1) unfolding mm_blocks_def fold .
  then have "mm_inv (if ?Ns = [] then {} else ?A ?Ms ?Ks) s'"
  proof (rule foldR_invariant [where P = "\<lambda>ns s. mm_inv (if ns = [] then {} else ?A ?Ms ?Ks) s"])
    show "mm_inv (if [] = [] then {} else ?A ?Ms ?Ks) s" using assms(3) by simp
  next
    fix ys n zs s s'
    assume o: "?Ns = ys @ n # zs" and inv: "mm_inv (if ys = [] then {} else ?A ?Ms ?Ks) s"
      and step: "foldR (\<lambda>s k. foldR (\<lambda>s m. mm_block c st n k m s) s ?Ms) s ?Ks = Some (Inr s')"
    have "n \<noteq> 0 \<Longrightarrow> ?A ?Ms ?Ks \<subseteq> (if ys = [] then {} else ?A ?Ms ?Ks)" using offs_first [OF o] by auto
    from k_loop [OF step inv this] show "mm_inv (if ys @ [n] = [] then {} else ?A ?Ms ?Ks) s'"
      by (rule mm_inv_mono) auto
  qed
  then show ?thesis by (simp add: mm_inv_def)
qed

text \<open>
  C14: In every tile of a matrix product, each \<open>GEMM\<close> instruction comes after the load instructions
  that fill its two operands, although a block of the activation is loaded in the first pass over
  the columns only and a block of the weight in the first pass over the rows only.
\<close>

theorem matmul_operands_loaded:
  assumes "MatMul_initialize_instructions cfg oper g inner B M K N should_store = Some (Inr tile)"
    and "MatMul_context cfg oper g inner B M K N = Inr c" "mc_ok c"
  shows "operands_loaded [] (tl_instructions tile)"
proof -
  from MatMul_instructions_blocks [OF assms(1)] assms(2) obtain s s' where
    s: "mm_blocks c should_store s = Some (Inr s')" "tl_instructions tile = mm_insts s'" "\<forall>i \<in> set (mm_insts s). opcode i = MOVIN"
    by auto
  have "operands_loaded ls is" if "\<forall>i \<in> set is. opcode i = MOVIN" for ls "is"
    using that by (induction "is" arbitrary: ls) auto
  then have "mm_inv {} s" using s(3) by (simp add: mm_inv_def)
  from mm_blocks_operands_loaded [OF s(1) assms(3) this] show ?thesis using s(2) by simp
qed

theorem matmul_operands_loaded_witness:
  "\<exists>tile. MatMul_initialize_instructions demo_mm_cfg demo_mm_oper demo_mm_graph \<lparr>ml_M = 2, ml_K = 2, ml_N = 2\<rparr> 0 0 0 0 True = Some (Inr tile) \<and>
     operands_loaded [] (tl_instructions tile)"
proof -
  obtain tile where t: "MatMul_initialize_instructions demo_mm_cfg demo_mm_oper demo_mm_graph \<lparr>ml_M = 2, ml_K = 2, ml_N = 2\<rparr> 0 0 0 0 True =
      Some (Inr tile)" using demo_mm_tile by blast
  have "mc_ok demo_mm_ctx" by (simp add: mc_ok_def)
  from matmul_operands_loaded [OF t demo_mm_context this] t show ?thesis by blast
qed

end
