(* ===== verification/PimOps.thy ===== *)
theory PimOps
  imports MatMul
begin

text \<open>
  The attention operations that run in memory (operations/NeuPIMSLogitSoftmax.cc, NeuPIMSAttend.cc):
  their tiles hold the commands that make the banks of a channel multiply a query (the logits) with
  the rows of the key (value) cache.  The emission of instructions carries the operation, whose
  scratchpad pointers \<open>allocate_sram_addr\<close> advances, and the instructions of the tile.
\<close>

subsection \<open>Emission of instructions\<close>

record emit_state =
  em_oper :: operation
  em_insts :: "Instruction list"

definition emit :: "Instruction \<Rightarrow> emit_state \<Rightarrow> emit_state" where
  "emit i s = s\<lparr>em_insts := em_insts s @ [i]\<rparr>"

definition em_alloc :: "sim_config \<Rightarrow> u32 \<Rightarrow> bool \<Rightarrow> emit_state \<Rightarrow> (addr_type \<times> u32) \<times> emit_state" where
  "em_alloc cfg sz accum s =
     (let (entry, oper) = allocate_sram_addr cfg sz accum (em_oper s) in (entry, s\<lparr>em_oper := oper\<rparr>))"

definition pim_inst :: "Opcode \<Rightarrow> addr_type \<Rightarrow> u32 \<Rightarrow> addr_type list \<Rightarrow> Instruction" where
  "pim_inst opc dest sz srcs = Instruction0\<lparr>opcode := opc, dest_addr := dest, inst_size := sz, src_addrs := srcs,
     operand_id := INPUT_OPERAND\<rparr>"

definition store_inst :: "addr_type \<Rightarrow> u32 \<Rightarrow> addr_type list \<Rightarrow> Instruction" where
  "store_inst dest sz addrs = Instruction0\<lparr>opcode := MOVOUT, dest_addr := dest, inst_size := sz, src_addrs := addrs,
     operand_id := OUTPUT_OPERAND\<rparr>"

definition pim_tile :: "emit_state \<Rightarrow> Tile" where
  "pim_tile s = Tile0\<lparr>tl_status := INITIALIZED, tl_optype := op_name (em_oper s), tl_operation_id := op_id (em_oper s),
     tl_batch := 0, tl_K := 0, tl_accum := False, tl_instructions := em_insts s\<rparr>"

text \<open>The addresses of the output of one head, of which there has to be at least one.\<close>

definition head_addrs :: "npu_tensor \<Rightarrow> nat \<Rightarrow> fault + addr_type list" where
  "head_addrs t hi = bindE (at (nt_inners t) hi) (\<lambda>i. bindE (inner_get_all_addrs i) (\<lambda>addrs. ast (length addrs > 0) (Inr addrs)))"

text \<open>
  The requests are handled in the ranges \<open>[prev_idx, req_idx]\<close>, where the next range begins at the
  last index of the one before it.
\<close>

fun tile_ranges :: "nat \<Rightarrow> nat list \<Rightarrow> (nat \<times> nat) list" where
  "tile_ranges prev_idx [] = []"
| "tile_ranges prev_idx (req_idx # rest) = (prev_idx, req_idx) # tile_ranges req_idx rest"

text \<open>
  The split of the requests: \<open>sram_needs\<close> is a signed 32-bit sum (its overflow is undefined), and a
  request that makes it exceed the limit starts the next tile.  The comparison is a parameter,
  because one operation compares signed and the other unsigned numbers.
\<close>

fun split_requests :: "(int \<Rightarrow> bool) \<Rightarrow> nat \<Rightarrow> int \<Rightarrow> (fault + int) list \<Rightarrow> fault + nat list" where
  "split_requests exceeds i sram_needs [] = Inr []"
| "split_requests exceeds i sram_needs (need # rest) =
     bindE need (\<lambda>need. let sram_needs = sram_needs + need in
       if sram_needs \<ge> 2 ^ 31 \<or> sram_needs < - (2 ^ 31) then Inl Undefined
       else if exceeds sram_needs
       then ast (i > 0) (bindE (split_requests exceeds (i + 1) need rest) (\<lambda>idxs. Inr ((i - 1) # idxs)))
       else split_requests exceeds (i + 1) sram_needs rest)"

subsection \<open>Logits and softmax\<close>

record ls_op =
  ls_qs :: "npu_tensor list"
  ls_ks :: "pim_tensor list"
  ls_outs :: "npu_tensor list"
  ls_nh :: u32
  ls_dk :: u32
  ls_chunks :: u32
  ls_heads_per_tile :: u32
  ls_heads_in_last_chunk :: u32
  ls_comps_per_head :: u32

definition ls_need :: "sim_config \<Rightarrow> u32 \<Rightarrow> u32 \<Rightarrow> npu_tensor \<Rightarrow> pim_tensor \<Rightarrow> fault + int" where
  "ls_need cfg nh dk q k =
     bindE (at (bt_dims k) 2) (\<lambda>seq_len. bindE (at (get_dims q) 1) (\<lambda>q_len.
       ast (q_len = 1) (Inr (sint ((2 * seq_len + dk) * nh * precision cfg)))))"

definition ls_sram_size_needed :: "sim_config \<Rightarrow> ls_op \<Rightarrow> fault + nat list" where
  "ls_sram_size_needed cfg l =
     (if precision cfg = 0 then Inl Undefined
      else bindE (split_requests (\<lambda>n. n > sint (spad_size cfg * 1024 div precision cfg)) 0 0
             (map (\<lambda>(q, k). ls_need cfg (ls_nh l) (ls_dk l) q k) (zip (ls_qs l) (ls_ks l)))) (\<lambda>idxs.
           Inr (idxs @ [length (ls_qs l) - 1])))"

definition ls_calculate_loops :: "sim_config \<Rightarrow> ls_op \<Rightarrow> fault + (ls_op \<times> nat list)" where
  "ls_calculate_loops cfg l =
     bindE (ls_sram_size_needed cfg l) (\<lambda>idxs. ast (0 < spad_limit cfg)
       (if n_tp cfg = 0 then Inl Undefined
        else let E = model_n_embd cfg div n_tp cfg; page_size = dram_page_size cfg div precision cfg
             in bindE (ceil_div E page_size) (\<lambda>chunks. bindE (ceil_div page_size (ls_dk l)) (\<lambda>heads_per_tile.
                bindE (if E mod page_size = 0 then Inr heads_per_tile else ceil_div (E mod page_size) (ls_dk l)) (\<lambda>last_heads.
                bindE (ceil_div (ls_dk l) (pim_comp_coverage cfg)) (\<lambda>comps.
                  Inr (l\<lparr>ls_chunks := chunks, ls_heads_per_tile := heads_per_tile, ls_heads_in_last_chunk := last_heads,
                         ls_comps_per_head := comps\<rparr>, idxs)))))))"

text \<open>
  The commands of one head: with Newton one \<open>PIM_COMP\<close> per command and a \<open>PIM_READRES\<close>, otherwise one
  \<open>PIM_COMPS_READRES\<close>.
\<close>

definition gemv_insts :: "sim_config \<Rightarrow> addr_type \<Rightarrow> u32 \<Rightarrow> addr_type \<Rightarrow> u32 \<Rightarrow> Instruction list" where
  "gemv_insts cfg sram_addr sz dram_addr comps =
     (if dram_type cfg = NEWTON
      then replicate (unat comps) (pim_inst PIM_COMP sram_addr 0 [dram_addr]) @ [pim_inst PIM_READRES sram_addr sz [dram_addr]]
      else [pim_inst PIM_COMPS_READRES sram_addr sz [dram_addr]])"

type_synonym readres = "u32 \<Rightarrow> addr_type list"

definition ls_head :: "sim_config \<Rightarrow> ls_op \<Rightarrow> u32 \<Rightarrow> u32 \<Rightarrow> u32 \<Rightarrow> u32 \<Rightarrow> emit_state \<times> readres \<Rightarrow> nat \<Rightarrow> fault + (emit_state \<times> readres)" where
  "ls_head cfg l ch row chunk heads = (\<lambda>(s, rr) head.
     let hi = ls_heads_per_tile l * chunk + of_nat head in
     bindE (encode_pim_comps_readres (dram_channels cfg) ch row (ls_comps_per_head l) (of_nat head = heads - 1)) (\<lambda>dram_addr.
     let ((sram_addr, sz), s) = em_alloc cfg (dram_banks_per_ch cfg) False s;
         s = s\<lparr>em_insts := em_insts s @ gemv_insts cfg sram_addr sz dram_addr (ls_comps_per_head l)\<rparr>
     in Inr (s, rr(hi := rr hi @ [sram_addr]))))"

text \<open>
  One row of the key cache: the header goes through a 32-bit variable, which cuts off the upper bits
  of its address.
\<close>

definition ls_row :: "sim_config \<Rightarrow> ls_op \<Rightarrow> pim_tensor \<Rightarrow> u32 \<Rightarrow> emit_state \<times> readres \<Rightarrow> nat \<Rightarrow> fault + (emit_state \<times> readres)" where
  "ls_row cfg l key chunk = (\<lambda>(s, rr) ti.
     let ((sram_addr_phdr, _), s) = em_alloc cfg 0 False s;
         heads = (if chunk = ls_chunks l - 1 then ls_heads_in_last_chunk l else ls_heads_per_tile l)
     in bindE (at (pt_rows key) (unat (of_nat ti * ls_chunks l + chunk))) (\<lambda>r.
        let row = ucast r; num_comps = ls_comps_per_head l * heads
        in if heads = 0 then Inl Exited
           else let p_header_addr = (ucast (encode_pim_header (dram_channels cfg) (pt_ch key) row False num_comps heads) :: u32);
                    s = emit (pim_inst PIM_HEADER sram_addr_phdr 0 [ucast p_header_addr]) s
                in foldE (ls_head cfg l (pt_ch key) row chunk heads) (s, rr) [0..<unat heads]))"

definition ls_chunk :: "sim_config \<Rightarrow> ls_op \<Rightarrow> pim_tensor \<Rightarrow> u32 \<Rightarrow> emit_state \<times> readres \<Rightarrow> nat \<Rightarrow> fault + (emit_state \<times> readres)" where
  "ls_chunk cfg l key tiles_per_chunk = (\<lambda>(s, rr) chunk.
     let ((sram_gw, _), s) = em_alloc cfg 0 False s;
         gwrite_addr = make_address (dram_channels cfg) (pt_ch key) 0 0 0 0 0;
         s = emit (pim_inst PIM_GWRITE sram_gw 0 [gwrite_addr]) s
     in foldE (ls_row cfg l key (of_nat chunk)) (s, rr) [0..<unat tiles_per_chunk])"

definition ls_softmax :: "sim_config \<Rightarrow> pim_tensor \<Rightarrow> npu_tensor \<Rightarrow> u32 \<Rightarrow> readres \<Rightarrow> emit_state \<Rightarrow> nat \<Rightarrow> fault + emit_state" where
  "ls_softmax cfg key out tiles_per_chunk rr s hi =
     ast (length (rr (of_nat hi)) = unat tiles_per_chunk)
       (let ((acc, sz), s) = em_alloc cfg (pt_seq_len key) True s;
            s = emit (vcomp SOFTMAX acc sz (rr (of_nat hi))) s
        in bindE (head_addrs out hi) (\<lambda>addrs. Inr (emit (store_inst acc sz addrs) s)))"

definition ls_incremental :: "sim_config \<Rightarrow> ls_op \<Rightarrow> nat \<Rightarrow> emit_state \<Rightarrow> fault + emit_state" where
  "ls_incremental cfg l i s =
     bindE (at (ls_ks l) i) (\<lambda>key. bindE (at (ls_outs l) i) (\<lambda>out. bindE (get_allocated_seq_len_PIM key) (\<lambda>seq_len.
       if dram_banks_per_ch cfg = 0 then Inl Undefined
       else let tiles_per_chunk = seq_len div dram_banks_per_ch cfg
            in bindE (foldE (ls_chunk cfg l key tiles_per_chunk) (s, \<lambda>_. []) [0..<unat (ls_chunks l)]) (\<lambda>(s, rr).
               foldE (ls_softmax cfg key out tiles_per_chunk rr) s [0..<unat (ls_nh l)]))))"

text \<open>
  The branch for a query of more than one token, which \<open>get_outputs\<close> never reaches: the assertion in
  \<open>sram_size_needed\<close> stops it.  The key addresses are those of \<open>PIMTensor::get_addr\<close>.
\<close>

definition pairs :: "u32 \<Rightarrow> u32 \<Rightarrow> (u32 \<times> u32) list" where
  "pairs a b = concat (map (\<lambda>i. map (\<lambda>j. (of_nat i, of_nat j)) [0..<unat b]) [0..<unat a])"

definition addrs_of :: "npu_tensor \<Rightarrow> u32 list list \<Rightarrow> fault + addr_type list" where
  "addrs_of t ixs = foldE (\<lambda>addrs ix. bindE (NPUTensor_get_addr ix t) (\<lambda>a. Inr (addrs @ [a]))) [] ixs"

definition ls_initiation_head :: "sim_config \<Rightarrow> ls_op \<Rightarrow> npu_tensor \<Rightarrow> pim_tensor \<Rightarrow> npu_tensor \<Rightarrow> u32 \<Rightarrow> emit_state \<Rightarrow> nat \<Rightarrow>
    fault + emit_state" where
  "ls_initiation_head cfg l query key out seq_len s h =
     bindE (addrs_of query (map (\<lambda>(d, i). [of_nat h, i, d]) (pairs (ls_dk l) seq_len))) (\<lambda>q_addrs.
     let k_addrs = map (\<lambda>(d, i). PIMTensor_get_addr [of_nat h, d, i] key) (pairs (ls_dk l) seq_len);
         ((q_dest, q_sz), s) = em_alloc cfg (seq_len * ls_dk l) False s;
         ((k_dest, k_sz), s) = em_alloc cfg (seq_len * ls_dk l) False s;
         ((l_dest, l_sz), s) = em_alloc cfg (seq_len * seq_len) True s;
         ((ls_dest, ls_sz), s) = em_alloc cfg (seq_len * seq_len) True s;
         s = emit (pim_inst MOVIN q_dest q_sz q_addrs) s;
         s = emit ((pim_inst MOVIN k_dest k_sz k_addrs)\<lparr>operand_id := INPUT_OPERAND + 1\<rparr>) s;
         s = emit ((vcomp GEMM l_dest l_sz [q_dest, k_dest])\<lparr>tile_m := seq_len, tile_k := ls_dk l, tile_n := seq_len\<rparr>) s;
         s = emit ((vcomp SOFTMAX ls_dest ls_sz [l_dest])\<lparr>src_from_accum := True\<rparr>) s
     in bindE (head_addrs out h) (\<lambda>addrs. Inr (emit (store_inst ls_dest ls_sz addrs) s)))"

definition ls_request :: "sim_config \<Rightarrow> ls_op \<Rightarrow> emit_state \<Rightarrow> nat \<Rightarrow> fault + emit_state" where
  "ls_request cfg l s i =
     bindE (at (ls_qs l) i) (\<lambda>query. bindE (at (ls_ks l) i) (\<lambda>key. bindE (at (get_dims query) 1) (\<lambda>q_len.
       if q_len \<noteq> 1
       then bindE (at (bt_dims key) 2) (\<lambda>d. ast (q_len = d) (bindE (at (ls_outs l) i) (\<lambda>out.
              foldE (ls_initiation_head cfg l query key out q_len) s [0..<unat (ls_nh l)])))
       else ls_incremental cfg l i s)))"

definition ls_initialize_instructions :: "sim_config \<Rightarrow> ls_op \<Rightarrow> operation \<Rightarrow> nat \<times> nat \<Rightarrow> fault + (Tile \<times> operation)" where
  "ls_initialize_instructions cfg l oper = (\<lambda>(start, end').
     bindE (foldE (ls_request cfg l) \<lparr>em_oper = oper, em_insts = []\<rparr> [start..<end' + 1]) (\<lambda>s. Inr (pim_tile s, em_oper s)))"

definition ls_initialize_tiles :: "sim_config \<Rightarrow> ls_op \<Rightarrow> nat list \<Rightarrow> operation \<Rightarrow> fault + (Tile list \<times> operation)" where
  "ls_initialize_tiles cfg l req_idxs oper =
     foldE (\<lambda>(tiles, oper) r. bindE (ls_initialize_instructions cfg l oper r) (\<lambda>(t, oper). Inr (tiles @ [t], oper)))
       ([], oper) (tile_ranges 0 req_idxs)"

definition NeuPIMSLogitSoftmax_new :: "string \<Rightarrow> graph \<Rightarrow> nat \<times> graph" where
  "NeuPIMSLogitSoftmax_new name g = Operation_new name [] g"

text \<open>The casts and the outputs; the loop stops at the first pair of tensors that do not match.\<close>

definition cast_all :: "(tensor \<Rightarrow> fault + 'a) \<Rightarrow> nat list \<Rightarrow> graph \<Rightarrow> fault + 'a list" where
  "cast_all c tis g = foldE (\<lambda>ts ti. bindE (get_tensor ti g) (\<lambda>t. bindE (c t) (\<lambda>x. Inr (ts @ [x])))) [] tis"

definition ls_output :: "env \<Rightarrow> string \<Rightarrow> u32 \<Rightarrow> (nat list \<times> npu_tensor list) \<times> graph \<Rightarrow> npu_tensor \<times> pim_tensor \<Rightarrow>
    fault + ((nat list \<times> npu_tensor list) \<times> graph)" where
  "ls_output e name nh = (\<lambda>((tis, outs), g) (Q, K).
     bindE (at (bt_dims K) 2) (\<lambda>seq_len. bindE (at (get_dims Q) 0) (\<lambda>q0. bindE (at (bt_dims K) 0) (\<lambda>k0. ast (q0 = k0)
      (bindE (at (get_dims Q) 2) (\<lambda>q2. bindE (at (bt_dims K) 1) (\<lambda>k1. ast (q2 = k1)
       (bindE (at (get_dims Q) 1) (\<lambda>len. ast (len = 1 \<or> len = seq_len)
        (bindE (NPUTensor_new (e_cfg e) (e_alignment e) (name @ ''_output'') [nh, len, seq_len] ACT False (g_mem g)) (\<lambda>(t, ms).
          let (ti, g) = new_tensor (NT t) (g\<lparr>g_mem := ms\<rparr>) in Inr ((tis @ [ti], outs @ [t]), g))))))))))))"

definition NeuPIMSLogitSoftmax_get_outputs :: "env \<Rightarrow> nat \<Rightarrow> nat list \<Rightarrow> graph \<Rightarrow> fault + (nat list \<times> graph)" where
  "NeuPIMSLogitSoftmax_get_outputs e oi inputs g =
     bindE (set_as_parent_tensor oi inputs g) (\<lambda>g. bindE (set_inputs oi (map Some inputs) g) (\<lambda>g.
     let batch_size = length inputs div 2 in
     bindE (cast_all as_npu (take batch_size inputs) g) (\<lambda>qs. bindE (cast_all as_pim (drop batch_size inputs) g) (\<lambda>ks.
     bindE (at qs 0) (\<lambda>q0. bindE (at (get_dims q0) 0) (\<lambda>nh. bindE (at (get_dims q0) 2) (\<lambda>dk.
     bindE (get_op oi g) (\<lambda>oper. bindE (foldE (ls_output e (op_name oper) nh) (([], []), g) (zip qs ks)) (\<lambda>((tis, outs), g).
     bindE (set_outputs oi tis g) (\<lambda>g. bindE (get_op oi g) (\<lambda>oper.
     bindE (ls_calculate_loops (e_cfg e) \<lparr>ls_qs = qs, ls_ks = ks, ls_outs = outs, ls_nh = nh, ls_dk = dk, ls_chunks = 0,
        ls_heads_per_tile = 0, ls_heads_in_last_chunk = 0, ls_comps_per_head = 0\<rparr>) (\<lambda>(l, idxs).
     bindE (ls_initialize_tiles (e_cfg e) l idxs oper) (\<lambda>(tiles, oper).
     bindE (upd_op oi (\<lambda>_. oper\<lparr>op_tiles := op_tiles oper @ tiles\<rparr>) g) (\<lambda>g. Inr (tis, g)))))))))))))))"

subsection \<open>Attend\<close>

record at_op =
  at_logits :: "npu_tensor list"
  at_vs :: "pim_tensor list"
  at_outs :: "npu_tensor list"
  at_nh :: u32
  at_dk :: u32
  at_page_size :: u32
  at_banks_per_channel :: u32
  at_tiles_per_chunk :: u32
  at_datas_per_comp_cmd :: u32

definition at_need :: "sim_config \<Rightarrow> u32 \<Rightarrow> at_op \<Rightarrow> npu_tensor \<Rightarrow> pim_tensor \<Rightarrow> fault + int" where
  "at_need cfg chunks a L V =
     bindE (at (get_dims L) 1) (\<lambda>q_len. bindE (at (bt_dims V) 2) (\<lambda>seq_len.
       ast (q_len = 1) (Inr (sint ((seq_len + chunks * at_dk a) * at_nh a * precision cfg)))))"

definition at_calculate_loops :: "sim_config \<Rightarrow> at_op \<Rightarrow> fault + (at_op \<times> nat list)" where
  "at_calculate_loops cfg a =
     (if n_tp cfg = 0 \<or> precision cfg = 0 then Inl Undefined
      else let E = model_n_embd cfg div n_tp cfg; page_size = dram_page_size cfg div precision cfg; banks = dram_banks_per_ch cfg
           in bindE (ceil_div (at_dk a) banks) (\<lambda>tiles_per_chunk.
              let a = a\<lparr>at_page_size := page_size, at_banks_per_channel := banks, at_tiles_per_chunk := tiles_per_chunk,
                        at_datas_per_comp_cmd := pim_comp_coverage cfg\<rparr>
              in if at_dk a = 0 then Inl Undefined
                 else bindE (ceil_div E (page_size div at_dk a * at_dk a)) (\<lambda>chunks.
                      bindE (split_requests (\<lambda>n. (of_int n :: u32) > spad_size cfg * 1024 div precision cfg) 0 0
                               (map (\<lambda>(L, V). at_need cfg chunks a L V) (zip (at_logits a) (at_vs a)))) (\<lambda>idxs.
                        Inr (a, idxs @ [length (at_logits a) - 1])))))"

definition at_num_comps :: "at_op \<Rightarrow> u32 \<Rightarrow> u32 \<Rightarrow> u32 \<Rightarrow> fault + u32" where
  "at_num_comps a seq_len chunks ci =
     (if at_datas_per_comp_cmd a = 0 \<or> at_page_size a = 0 then Inl Undefined
      else if ci = chunks - 1 \<and> seq_len mod at_page_size a > 0
      then ceil_div (seq_len mod at_page_size a) (at_datas_per_comp_cmd a)
      else Inr (at_page_size a div at_datas_per_comp_cmd a))"

definition at_decoded_comps :: "u32 \<Rightarrow> u32" where
  "at_decoded_comps num_comps =
     (let decoded = push_bit (LogBase2 (sint num_comps)) 1 in if num_comps > decoded then decoded * 2 else decoded)"

definition at_row :: "sim_config \<Rightarrow> at_op \<Rightarrow> pim_tensor \<Rightarrow> u32 \<Rightarrow> u32 \<Rightarrow> u32 \<Rightarrow> u32 \<Rightarrow> emit_state \<times> readres \<Rightarrow> nat \<Rightarrow>
    fault + (emit_state \<times> readres)" where
  "at_row cfg a val chunks num_comps decoded ci = (\<lambda>(s, rr) ti.
     let ((sram_addr, sz), s) = em_alloc cfg (at_banks_per_channel a) False s
     in bindE (at (pt_rows val) (unat (of_nat ti * chunks + ci))) (\<lambda>r.
        let row = ucast r;
            s = emit (pim_inst PIM_HEADER sram_addr 0 [encode_pim_header (dram_channels cfg) (pt_ch val) row False decoded 1]) s
        in bindE (encode_pim_comps_readres (dram_channels cfg) (pt_ch val) row num_comps True) (\<lambda>dram_addr.
           let s = s\<lparr>em_insts := em_insts s @ gemv_insts cfg sram_addr sz dram_addr num_comps\<rparr>
           in Inr (s, rr(of_nat ti := rr (of_nat ti) @ [sram_addr])))))"

definition at_chunk :: "sim_config \<Rightarrow> at_op \<Rightarrow> pim_tensor \<Rightarrow> u32 \<Rightarrow> u32 \<Rightarrow> emit_state \<times> readres \<Rightarrow> nat \<Rightarrow>
    fault + (emit_state \<times> readres)" where
  "at_chunk cfg a val seq_len chunks = (\<lambda>(s, rr) ci.
     let ((sram_gw, _), s) = em_alloc cfg 0 False s;
         s = emit (pim_inst PIM_GWRITE sram_gw 0 [encode_pim_header (dram_channels cfg) (pt_ch val) 0 True 0 0]) s
     in bindE (at_num_comps a seq_len chunks (of_nat ci)) (\<lambda>num_comps.
        let decoded = at_decoded_comps num_comps
        in ast (num_comps \<le> decoded \<and> num_comps > 0)
             (foldE (at_row cfg a val chunks num_comps decoded (of_nat ci)) (s, rr) [0..<unat (at_tiles_per_chunk a)])))"

definition at_add :: "sim_config \<Rightarrow> at_op \<Rightarrow> npu_tensor \<Rightarrow> u32 \<Rightarrow> readres \<Rightarrow> nat \<Rightarrow> emit_state \<Rightarrow> nat \<Rightarrow> fault + emit_state" where
  "at_add cfg a out chunks rr hi s ti =
     ast (length (rr (of_nat ti)) = unat chunks)
       (let ((acc, sz), s) = em_alloc cfg (at_tiles_per_chunk a * at_banks_per_channel a) True s;
            s = emit (vcomp ADD acc sz (rr (of_nat ti))) s
        in bindE (head_addrs out hi) (\<lambda>addrs. Inr (emit (store_inst acc sz addrs) s)))"

definition at_head :: "sim_config \<Rightarrow> at_op \<Rightarrow> pim_tensor \<Rightarrow> npu_tensor \<Rightarrow> u32 \<Rightarrow> u32 \<Rightarrow> emit_state \<Rightarrow> nat \<Rightarrow> fault + emit_state" where
  "at_head cfg a val out seq_len chunks s hi =
     bindE (foldE (at_chunk cfg a val seq_len chunks) (s, \<lambda>_. []) [0..<unat chunks]) (\<lambda>(s, rr).
       if chunks > 1 then foldE (at_add cfg a out chunks rr hi) s [0..<unat (at_tiles_per_chunk a)] else Inr s)"

text \<open>The branch for more than one token, which \<open>calculate_loops\<close> rules out.\<close>

definition at_initiation_head :: "sim_config \<Rightarrow> at_op \<Rightarrow> npu_tensor \<Rightarrow> pim_tensor \<Rightarrow> npu_tensor \<Rightarrow> u32 \<Rightarrow> emit_state \<Rightarrow> nat \<Rightarrow>
    fault + emit_state" where
  "at_initiation_head cfg a logit val out seq_len s h =
     bindE (addrs_of logit (concat (map (\<lambda>(d, i). map (\<lambda>j. [of_nat h, i, of_nat j]) [0..<unat seq_len]) (pairs (at_dk a) seq_len))))
       (\<lambda>l_addrs.
     let v_addrs = map (\<lambda>(d, i). PIMTensor_get_addr [of_nat h, i, d] val) (pairs (at_dk a) seq_len);
         ((l_dest, l_sz), s) = em_alloc cfg (seq_len * seq_len) False s;
         ((v_dest, v_sz), s) = em_alloc cfg (seq_len * at_dk a) False s;
         ((a_dest, a_sz), s) = em_alloc cfg (seq_len * at_dk a) True s;
         s = emit (pim_inst MOVIN l_dest l_sz l_addrs) s;
         s = emit (pim_inst MOVIN v_dest v_sz v_addrs) s;
         s = emit ((vcomp GEMM a_dest a_sz [l_dest, v_dest])\<lparr>tile_m := at_dk a, tile_k := seq_len, tile_n := seq_len\<rparr>) s
     in bindE (head_addrs out h) (\<lambda>addrs. Inr (emit (store_inst a_dest a_sz addrs) s)))"

definition at_request :: "sim_config \<Rightarrow> at_op \<Rightarrow> emit_state \<Rightarrow> nat \<Rightarrow> fault + emit_state" where
  "at_request cfg a s i =
     bindE (at (at_logits a) i) (\<lambda>logit. bindE (at (at_vs a) i) (\<lambda>val. bindE (at (bt_dims val) 1) (\<lambda>seq_len.
     bindE (ceil_div seq_len (at_page_size a)) (\<lambda>chunks. bindE (at (get_dims logit) 1) (\<lambda>q_len.
     bindE (at (at_outs a) i) (\<lambda>out.
       if q_len \<noteq> 1
       then ast (q_len = seq_len) (foldE (at_initiation_head cfg a logit val out seq_len) s [0..<unat (at_nh a)])
       else foldE (at_head cfg a val out seq_len chunks) s [0..<unat (at_nh a)]))))))"

definition at_initialize_instructions :: "sim_config \<Rightarrow> at_op \<Rightarrow> operation \<Rightarrow> nat \<times> nat \<Rightarrow> fault + (Tile \<times> operation)" where
  "at_initialize_instructions cfg a oper = (\<lambda>(start, end').
     bindE (foldE (at_request cfg a) \<lparr>em_oper = oper, em_insts = []\<rparr> [start..<end' + 1]) (\<lambda>s. Inr (pim_tile s, em_oper s)))"

definition at_initialize_tiles :: "sim_config \<Rightarrow> at_op \<Rightarrow> nat list \<Rightarrow> operation \<Rightarrow> fault + (Tile list \<times> operation)" where
  "at_initialize_tiles cfg a req_idxs oper =
     foldE (\<lambda>(tiles, oper) r. bindE (at_initialize_instructions cfg a oper r) (\<lambda>(t, oper). Inr (tiles @ [t], oper)))
       ([], oper) (tile_ranges 0 req_idxs)"

definition NeuPIMSAttend_new :: "string \<Rightarrow> graph \<Rightarrow> nat \<times> graph" where
  "NeuPIMSAttend_new name g = Operation_new name [] g"

definition at_output :: "env \<Rightarrow> string \<Rightarrow> u32 \<Rightarrow> u32 \<Rightarrow> (nat list \<times> npu_tensor list) \<times> graph \<Rightarrow> npu_tensor \<times> pim_tensor \<Rightarrow>
    fault + ((nat list \<times> npu_tensor list) \<times> graph)" where
  "at_output e name nh dk = (\<lambda>((tis, outs), g) (L, V).
     bindE (at (get_dims L) 2) (\<lambda>l2. bindE (at (bt_dims V) 1) (\<lambda>v1. ast (l2 = v1)
      (bindE (at (get_dims L) 0) (\<lambda>l0. bindE (at (bt_dims V) 0) (\<lambda>v0. ast (l0 = v0)
       (bindE (at (get_dims L) 1) (\<lambda>len.
        bindE (NPUTensor_new (e_cfg e) (e_alignment e) (name @ ''_output'') [nh, len, dk] ACT False (g_mem g)) (\<lambda>(t, ms).
          let (ti, g) = new_tensor (NT t) (g\<lparr>g_mem := ms\<rparr>) in Inr ((tis @ [ti], outs @ [t]), g))))))))))"

definition NeuPIMSAttend_get_outputs :: "env \<Rightarrow> nat \<Rightarrow> nat list \<Rightarrow> graph \<Rightarrow> fault + (nat list \<times> graph)" where
  "NeuPIMSAttend_get_outputs e oi inputs g =
     bindE (set_as_parent_tensor oi inputs g) (\<lambda>g. bindE (set_inputs oi (map Some inputs) g) (\<lambda>g.
     let batch_size = length inputs div 2 in
     bindE (cast_all as_npu (take batch_size inputs) g) (\<lambda>ls. bindE (cast_all as_pim (drop batch_size inputs) g) (\<lambda>vs.
     bindE (at vs 0) (\<lambda>v0. bindE (at (bt_dims v0) 0) (\<lambda>nh. bindE (at (bt_dims v0) 2) (\<lambda>dk.
     bindE (get_op oi g) (\<lambda>oper. bindE (foldE (at_output e (op_name oper) nh dk) (([], []), g) (zip ls vs)) (\<lambda>((tis, outs), g).
     bindE (set_outputs oi tis g) (\<lambda>g. bindE (get_op oi g) (\<lambda>oper.
     bindE (at_calculate_loops (e_cfg e) \<lparr>at_logits = ls, at_vs = vs, at_outs = outs, at_nh = nh, at_dk = dk, at_page_size = 0,
        at_banks_per_channel = 0, at_tiles_per_chunk = 0, at_datas_per_comp_cmd = 0\<rparr>) (\<lambda>(a, idxs).
     bindE (at_initialize_tiles (e_cfg e) a idxs oper) (\<lambda>(tiles, oper).
     bindE (upd_op oi (\<lambda>_. oper\<lparr>op_tiles := op_tiles oper @ tiles\<rparr>) g) (\<lambda>g. Inr (tis, g)))))))))))))))"

subsection \<open>The commands of a key cache cover every head\<close>

lemma foldE_prefix:
  assumes "P [] s" "\<And>ys y zs s. xs = ys @ y # zs \<Longrightarrow> P ys s \<Longrightarrow> \<exists>s'. f s y = Inr s' \<and> P (ys @ [y]) s'"
  shows "\<exists>s'. foldE f s xs = Inr s' \<and> P xs s'"
proof -
  have "\<lbrakk>P ys s; xs = ys @ zs\<rbrakk> \<Longrightarrow> \<exists>s'. foldE f s zs = Inr s' \<and> P xs s'" for ys zs s
  proof (induction zs arbitrary: ys s)
    case (Cons z zs)
    then obtain t where t: "f s z = Inr t" "P (ys @ [z]) t" using assms(2) [of ys z zs s] by auto
    then show ?case using Cons.IH [of "ys @ [z]" t] Cons.prems by simp
  qed simp
  from this [of "[]"] show ?thesis using assms(1) by simp
qed

lemma foldE_upt:
  assumes "P 0 s" "\<And>j s. j < n \<Longrightarrow> P j s \<Longrightarrow> \<exists>s'. f s j = Inr s' \<and> P (Suc j) s'"
  shows "\<exists>s'. foldE f s [0..<n] = Inr s' \<and> P n s'"
proof -
  have "\<exists>s'. foldE f s [0..<n] = Inr s' \<and> P (length [0..<n]) s'"
  proof (rule foldE_prefix [where P = "\<lambda>ys s. P (length ys) s"])
    fix ys y zs s assume u: "[0..<n] = ys @ y # zs" and p: "P (length ys) s"
    have "length ys < n" using arg_cong [OF u, of length] by simp
    moreover have "y = length ys" using arg_cong [OF u, of "\<lambda>l. l ! length ys"] calculation by simp
    ultimately show "\<exists>s'. f s y = Inr s' \<and> P (length (ys @ [y])) s'" using assms(2) p by simp
  qed (use assms(1) in simp)
  then show ?thesis by simp
qed

text \<open>The commands of a chunk go to the heads from \<open>ls_first l c\<close> on.\<close>

definition ls_first :: "ls_op \<Rightarrow> nat \<Rightarrow> nat" where
  "ls_first l c = (if c < unat (ls_chunks l) then unat (ls_heads_per_tile l) * c else unat (ls_nh l))"

definition ls_heads :: "ls_op \<Rightarrow> nat \<Rightarrow> u32" where
  "ls_heads l c = (if c = unat (ls_chunks l) - 1 then ls_heads_in_last_chunk l else ls_heads_per_tile l)"

definition ls_ok :: "sim_config \<Rightarrow> ls_op \<Rightarrow> pim_tensor \<Rightarrow> u32 \<Rightarrow> bool" where
  "ls_ok cfg l key tiles \<longleftrightarrow> 0 < ls_chunks l \<and> 0 < ls_heads_per_tile l \<and> 0 < ls_heads_in_last_chunk l \<and>
     unat (ls_heads_per_tile l) * (unat (ls_chunks l) - 1) + unat (ls_heads_in_last_chunk l) = unat (ls_nh l) \<and>
     0 < unat (ls_comps_per_head l) \<and> unat (ls_comps_per_head l) \<le> 32 \<and>
     unat tiles * unat (ls_chunks l) \<le> length (pt_rows key) \<and> unat tiles * unat (ls_chunks l) < 2 ^ 32"

lemma ls_first_Suc:
  assumes "ls_ok cfg l key tiles" "c < unat (ls_chunks l)"
  shows "ls_first l (Suc c) = ls_first l c + unat (ls_heads l c)"
proof (cases "Suc c < unat (ls_chunks l)")
  case True
  then have "c \<noteq> unat (ls_chunks l) - 1" by (metis One_nat_def Suc_lessD Suc_pred less_irrefl zero_less_Suc less_trans)
  then show ?thesis using True by (simp add: ls_first_def ls_heads_def)
next
  case False
  then have "c = unat (ls_chunks l) - 1" using assms(2) by simp
  then show ?thesis using assms by (simp add: ls_first_def ls_heads_def ls_ok_def)
qed

lemma ls_first_le:
  assumes "ls_ok cfg l key tiles" "c \<le> unat (ls_chunks l)"
  shows "ls_first l c \<le> unat (ls_nh l)"
proof (cases "c < unat (ls_chunks l)")
  case True
  then have "unat (ls_heads_per_tile l) * c \<le> unat (ls_heads_per_tile l) * (unat (ls_chunks l) - 1)" by (intro mult_le_mono2) simp
  also have "\<dots> \<le> unat (ls_nh l)" using assms(1) unfolding ls_ok_def by (metis le_add1)
  finally show ?thesis using True by (simp add: ls_first_def)
next
  case False then show ?thesis by (simp add: ls_first_def)
qed

lemma encode_comps_returns:
  assumes "0 < unat comps" "unat comps \<le> 32"
  shows "\<exists>a. encode_pim_comps_readres chs ch row comps last_cmd = Inr a"
proof -
  obtain n where n: "unat comps = Suc n" "n < 32" using assms by (metis Suc_le_lessD gr0_conv_Suc)
  have "unat (comps - 1) = n" using n(1) by (subst unat_sub) (simp_all add: word_le_nat_alt)
  then have "sint (comps - 1) = int n" using n(2) by (subst sint_eq_unat_i32) simp_all
  then have "sint (comps - 1) < 32" using n(2) by simp
  then show ?thesis by (simp add: encode_pim_comps_readres_def Let_def)
qed

lemma ls_head_step:
  assumes "ls_ok cfg l key tiles" "c < unat (ls_chunks l)" "j < unat (ls_heads l c)"
    and "\<forall>h. length (rr h) = f (unat h)"
  shows "\<exists>s' rr'. ls_head cfg l ch row (of_nat c) (ls_heads l c) (s, rr) j = Inr (s', rr') \<and>
    (\<forall>h. length (rr' h) = (if unat h = ls_first l c + j then f (unat h) + 1 else f (unat h)))"
proof -
  let ?hi = "ls_heads_per_tile l * of_nat c + of_nat j :: u32"
  have "ls_first l c + j < ls_first l (Suc c)" using ls_first_Suc [OF assms(1,2)] assms(3) by simp
  moreover have "ls_first l (Suc c) \<le> unat (ls_nh l)" using assms(2) by (intro ls_first_le [OF assms(1)]) simp
  moreover have "unat (ls_nh l) < 2 ^ 32" by simp
  ultimately have lt: "ls_first l c + j < 2 ^ 32" by (meson less_le_trans less_trans)
  have hi: "unat ?hi = ls_first l c + j"
    by (rule unat_eq_of_natI [OF _ lt]) (use assms(2) in \<open>simp add: ls_first_def\<close>)
  obtain a where "encode_pim_comps_readres (dram_channels cfg) ch row (ls_comps_per_head l) (of_nat j = ls_heads l c - 1) = Inr a"
    using encode_comps_returns assms(1) unfolding ls_ok_def by blast
  moreover have "(h = ?hi) = (unat h = ls_first l c + j)" for h using hi by (metis word_unat_eq_iff)
  ultimately show ?thesis using assms(4) hi by (auto simp: ls_head_def Let_def em_alloc_def split: prod.splits)
qed

lemma ls_row_step:
  assumes "ls_ok cfg l key tiles" "c < unat (ls_chunks l)" "t < unat tiles"
    and "\<forall>h. length (rr h) = (if unat h < ls_first l c then T else if unat h < ls_first l (Suc c) then t else 0)"
  shows "\<exists>s' rr'. ls_row cfg l key (of_nat c) (s, rr) t = Inr (s', rr') \<and>
    (\<forall>h. length (rr' h) = (if unat h < ls_first l c then T else if unat h < ls_first l (Suc c) then t + 1 else 0))"
proof -
  have C: "(of_nat c = ls_chunks l - 1) = (c = unat (ls_chunks l) - 1)"
  proof -
    have "unat (of_nat c :: u32) = c" by (rule unat_eq_of_natI) (use assms(2) unat_u32_less [of "ls_chunks l"] in \<open>simp_all del: unat_u32_less\<close>)
    moreover have "unat (ls_chunks l - 1) = unat (ls_chunks l) - 1"
      using assms(2) by (subst unat_sub) (simp_all add: word_le_nat_alt)
    ultimately show ?thesis by (metis word_unat_eq_iff)
  qed
  have "t * unat (ls_chunks l) + c < unat tiles * unat (ls_chunks l)" using pair_index_less [OF assms(3,2)] .
  then have r: "t * unat (ls_chunks l) + c < length (pt_rows key)" "t * unat (ls_chunks l) + c < 2 ^ 32"
    using assms(1) unfolding ls_ok_def by linarith+
  have i: "unat (of_nat t * ls_chunks l + of_nat c :: u32) = t * unat (ls_chunks l) + c"
    by (rule unat_eq_of_natI [OF _ r(2)]) simp
  have h0: "ls_heads l c \<noteq> 0" using assms(1) by (auto simp: ls_heads_def ls_ok_def)
  let ?f = "\<lambda>j h. if h < ls_first l c then T else if h < ls_first l c + j then t + 1 else if h < ls_first l (Suc c) then t else 0"
  have "\<exists>s'. foldE (ls_head cfg l ch row (of_nat c) (ls_heads l c)) (s, rr) [0..<unat (ls_heads l c)] = Inr s' \<and>
      (\<forall>h. length (snd s' h) = ?f (unat (ls_heads l c)) (unat h))" for ch row s
  proof (rule foldE_upt [where P = "\<lambda>j sr. \<forall>h. length (snd sr h) = ?f j (unat h)"])
    show "\<forall>h. length (snd (s, rr) h) = ?f 0 (unat h)" using assms(4) by simp
  next
    fix j and sr :: "emit_state \<times> readres"
    assume j: "j < unat (ls_heads l c)" and "\<forall>h. length (snd sr h) = ?f j (unat h)"
    then have f: "\<forall>h. length (snd sr h) = ?f j (unat h)" by blast
    have e: "(if h = ls_first l c + j then ?f j h + 1 else ?f j h) = ?f (Suc j) h" for h
      using ls_first_Suc [OF assms(1,2)] j by auto
    obtain s1 rr1 where "ls_head cfg l ch row (of_nat c) (ls_heads l c) (fst sr, snd sr) j = Inr (s1, rr1)"
        "\<forall>h. length (rr1 h) = (if unat h = ls_first l c + j then ?f j (unat h) + 1 else ?f j (unat h))"
      using ls_head_step [OF assms(1,2) j f] by blast
    then show "\<exists>s'. ls_head cfg l ch row (of_nat c) (ls_heads l c) sr j = Inr s' \<and> (\<forall>h. length (snd s' h) = ?f (Suc j) (unat h))"
      unfolding e by auto
  qed
  then have loop: "\<exists>s' rr'. foldE (ls_head cfg l ch row (of_nat c) (ls_heads l c)) (s, rr) [0..<unat (ls_heads l c)] = Inr (s', rr') \<and>
      (\<forall>h. length (rr' h) = (if unat h < ls_first l c then T else if unat h < ls_first l (Suc c) then t + 1 else 0))" for ch row s
    using ls_first_Suc [OF assms(1,2)] by fastforce
  have "\<exists>S row. ls_row cfg l key (of_nat c) (s, rr) t =
      foldE (ls_head cfg l (pt_ch key) row (of_nat c) (ls_heads l c)) (S, rr) [0..<unat (ls_heads l c)]"
    using r(1) h0 i C by (auto simp: ls_row_def ls_heads_def em_alloc_def Let_def split: prod.splits)
  then show ?thesis using loop by metis
qed

lemma ls_chunk_step:
  assumes "ls_ok cfg l key tiles" "c < unat (ls_chunks l)"
    and "\<forall>h. length (rr h) = (if unat h < ls_first l c then unat tiles else 0)"
  shows "\<exists>s' rr'. ls_chunk cfg l key tiles (s, rr) c = Inr (s', rr') \<and>
    (\<forall>h. length (rr' h) = (if unat h < ls_first l (Suc c) then unat tiles else 0))"
proof -
  let ?f = "\<lambda>t h. if h < ls_first l c then unat tiles else if h < ls_first l (Suc c) then t else 0"
  have "\<exists>s'. foldE (ls_row cfg l key (of_nat c)) (s, rr) [0..<unat tiles] = Inr s' \<and>
      (\<forall>h. length (snd s' h) = ?f (unat tiles) (unat h))" for s
  proof (rule foldE_upt [where P = "\<lambda>t sr. \<forall>h. length (snd sr h) = ?f t (unat h)"])
    show "\<forall>h. length (snd (s, rr) h) = ?f 0 (unat h)" using assms(3) by simp
  next
    fix t and sr :: "emit_state \<times> readres"
    assume t: "t < unat tiles" and f: "\<forall>h. length (snd sr h) = ?f t (unat h)"
    from ls_row_step [OF assms(1,2) t f, of "fst sr"] obtain s1 rr1 where
      "ls_row cfg l key (of_nat c) (fst sr, snd sr) t = Inr (s1, rr1)" "\<forall>h. length (rr1 h) = ?f (t + 1) (unat h)" by blast
    then show "\<exists>s'. ls_row cfg l key (of_nat c) sr t = Inr s' \<and> (\<forall>h. length (snd s' h) = ?f (Suc t) (unat h))" by simp
  qed
  moreover have "?f (unat tiles) h = (if h < ls_first l (Suc c) then unat tiles else 0)" for h
    using ls_first_Suc [OF assms(1,2)] by simp
  ultimately have loop: "\<exists>s' rr'. foldE (ls_row cfg l key (of_nat c)) (s, rr) [0..<unat tiles] = Inr (s', rr') \<and>
      (\<forall>h. length (rr' h) = (if unat h < ls_first l (Suc c) then unat tiles else 0))" for s
    by (metis prod.collapse)
  have "\<exists>S. ls_chunk cfg l key tiles (s, rr) c = foldE (ls_row cfg l key (of_nat c)) (S, rr) [0..<unat tiles]"
    by (auto simp: ls_chunk_def em_alloc_def Let_def split: prod.splits)
  then show ?thesis using loop by metis
qed

lemma ls_incremental_runs:
  assumes "ls_ks l ! i = key" "ls_outs l ! i = out" "i < length (ls_ks l)" "i < length (ls_outs l)"
    and "get_allocated_seq_len_PIM key = Inr seq_len" "dram_banks_per_ch cfg \<noteq> 0"
    and "ls_ok cfg l key (seq_len div dram_banks_per_ch cfg)"
    and "\<forall>hi < unat (ls_nh l). returns (head_addrs out hi)"
  shows "\<exists>s'. ls_incremental cfg l i s = Inr s'"
proof -
  let ?T = "seq_len div dram_banks_per_ch cfg"
  have chunks: "\<exists>s'. foldE (ls_chunk cfg l key ?T) (s, \<lambda>_. []) [0..<unat (ls_chunks l)] = Inr s' \<and>
      (\<forall>h. length (snd s' h) = (if unat h < ls_first l (unat (ls_chunks l)) then unat ?T else 0))"
  proof (rule foldE_upt [where P = "\<lambda>c sr. \<forall>h. length (snd sr h) = (if unat h < ls_first l c then unat ?T else 0)"])
    have "ls_first l 0 = 0" using assms(7) by (simp add: ls_first_def ls_ok_def word_less_nat_alt)
    then show "\<forall>h. length (snd (s, \<lambda>_. []) h) = (if unat h < ls_first l 0 then unat ?T else 0)" by simp
  next
    fix c and sr :: "emit_state \<times> readres"
    assume c: "c < unat (ls_chunks l)" and f: "\<forall>h. length (snd sr h) = (if unat h < ls_first l c then unat ?T else 0)"
    from ls_chunk_step [OF assms(7) c f, of "fst sr"] obtain s1 rr1 where "ls_chunk cfg l key ?T (fst sr, snd sr) c = Inr (s1, rr1)"
      "\<forall>h. length (rr1 h) = (if unat h < ls_first l (Suc c) then unat ?T else 0)" by blast
    then show "\<exists>s'. ls_chunk cfg l key ?T sr c = Inr s' \<and> (\<forall>h. length (snd s' h) = (if unat h < ls_first l (Suc c) then unat ?T else 0))"
      by simp
  qed
  then obtain s1 rr where c: "foldE (ls_chunk cfg l key ?T) (s, \<lambda>_. []) [0..<unat (ls_chunks l)] = Inr (s1, rr)"
    and rr: "\<forall>h. unat h < unat (ls_nh l) \<longrightarrow> length (rr h) = unat ?T"
    by (auto simp: ls_first_def)
  have "\<exists>s'. foldE (ls_softmax cfg key out ?T rr) s1 [0..<unat (ls_nh l)] = Inr s' \<and> True"
  proof (rule foldE_returns)
    fix s hi assume hi: "hi \<in> set [0..<unat (ls_nh l)]"
    then have "unat (of_nat hi :: u32) = hi"
      by (intro unat_eq_of_natI) (use unat_u32_less [of "ls_nh l"] in \<open>simp_all del: unat_u32_less\<close>)
    moreover obtain addrs where "head_addrs out hi = Inr addrs" using assms(8) hi by (auto simp: returns_iff)
    ultimately show "\<exists>s'. ls_softmax cfg key out ?T rr s hi = Inr s' \<and> True" using rr hi
      by (auto simp: ls_softmax_def em_alloc_def Let_def split: prod.splits)
  qed simp
  then show ?thesis using assms(1-6) c by (auto simp: ls_incremental_def)
qed

lemma kv_allocate_ch_n_length: "kv_allocate_ch_n ch n kv = Inr (rows, kv') \<Longrightarrow> length rows = n"
  by (induction n arbitrary: kv rows kv') (auto split: prod.splits)

lemma PIMTensor_new_KEY:
  assumes "PIMTensor_new cfg name ch dims KEY produced ms = Inr (key, ms')" "kv_bank_per_ch (ms_kv ms) = banks" "kv_num_ele_per_row (ms_kv ms) = page"
  shows "pt_kv_type key = KEY \<and> pt_bank_per_ch key = banks \<and> 2 < length dims \<and> pt_seq_len key = dims ! 2 \<and> banks \<noteq> 0 \<and> page \<noteq> 0 \<and>
    length (pt_rows key) = unat ((of_nat (cdiv (unat (dims ! 2)) (unat banks)) * of_nat (cdiv (unat (model_n_embd cfg)) (unat page))) :: u32)"
  using assms by (auto simp: PIMTensor_new_def Let_def ceil_div_def dest!: kv_allocate_ch_n_length split: if_splits)

lemma heads_arith:
  assumes "0 < q" "0 < n"
  shows "q * (cdiv n q - 1) + (if n mod q = 0 then q else n mod q) = n"
proof (cases "n mod q = 0")
  case True
  then obtain m where m: "n = m * q" "0 < m" using assms by (auto simp: mult.commute)
  then have "cdiv n q = m" using cdiv_mult [OF assms(1), of m] by simp
  then show ?thesis using True m by (cases m) (simp_all add: algebra_simps)
next
  case False
  have "n div q * q < n" using False assms by (metis div_times_less_eq_dividend le_neq_implies_less mod_mult_self2_is_0 mult.commute)
  then have "n div q < cdiv n q" using assms(1) by (simp add: less_cdiv_iff)
  moreover have "cdiv n q \<le> n div q + 1"
    using assms(1) by (simp add: cdiv_le_iff dividend_less_times_div less_imp_le mult.commute)
  ultimately have "cdiv n q = n div q + 1" by simp
  then show ?thesis using False by simp
qed

lemma cdiv_mult_mult: "0 < d \<Longrightarrow> 0 < q \<Longrightarrow> cdiv (n * d) (q * d) = cdiv n q"
proof -
  assume d: "0 < d" and q: "0 < q"
  have "cdiv (n * d) (q * d) \<le> m \<longleftrightarrow> cdiv n q \<le> m" for m
    using d q by (simp add: cdiv_le_iff mult.assoc [symmetric])
  then show ?thesis by (meson le_antisym order_refl)
qed

lemma unat_of_cdiv: "0 < b \<Longrightarrow> unat (of_nat (cdiv (unat a) b) :: u32) = cdiv (unat a) b" for a :: u32
proof (rule unat_eq_of_natI)
  assume "0 < b"
  then have "cdiv (unat a) b \<le> unat a" by (rule cdiv_le)
  also have "\<dots> < 2 ^ 32" by simp
  finally show "cdiv (unat a) b < 2 ^ 32" .
qed simp

lemma ls_calculate_loops_heads:
  assumes "ls_calculate_loops cfg l0 = Inr (l, idxs)" "ls_dk l0 = dk" "ls_nh l0 = nh" "page = dram_page_size cfg div precision cfg"
    and "unat dk dvd unat page" "unat nh * unat dk = unat (model_n_embd cfg div n_tp cfg)" "0 < nh" "0 < dk" "0 < page"
  shows "ls_nh l = nh \<and> unat (ls_chunks l) = cdiv (unat (model_n_embd cfg div n_tp cfg)) (unat page) \<and> 0 < ls_chunks l \<and> 0 < ls_heads_per_tile l \<and>
    0 < ls_heads_in_last_chunk l \<and>
    unat (ls_heads_per_tile l) * (unat (ls_chunks l) - 1) + unat (ls_heads_in_last_chunk l) = unat nh \<and>
    unat (ls_comps_per_head l) = cdiv (unat dk) (unat (pim_comp_coverage cfg)) \<and> n_tp cfg \<noteq> 0 \<and> 0 < pim_comp_coverage cfg"
proof -
  let ?E = "model_n_embd cfg div n_tp cfg"
  obtain q where q: "unat page = q * unat dk" using assms(5) by (metis dvd_def mult.commute)
  have pos: "0 < unat dk" "0 < unat nh" "0 < unat page" using assms(7-9) by (simp_all add: word_less_nat_alt)
  have q0: "0 < q" using q pos(3) by (cases q) simp_all
  have E: "unat ?E = unat nh * unat dk" using assms(6) by simp
  have chunks: "cdiv (unat ?E) (unat page) = cdiv (unat nh) q" unfolding E q using pos(1) q0 by (rule cdiv_mult_mult)
  have hpt: "cdiv (unat page) (unat dk) = q" unfolding q using pos(1) by (rule cdiv_mult)
  have md: "unat (?E mod page) = unat nh mod q * unat dk" by (simp add: unat_mod E q mult_mod_left)
  have last: "cdiv (unat (?E mod page)) (unat dk) = unat nh mod q" unfolding md using pos(1) by (rule cdiv_mult)
  have z: "(?E mod page = 0) = (unat nh mod q = 0)"
  proof -
    have "(?E mod page = 0) = (unat (?E mod page) = 0)" by (simp add: unat_eq_0)
    then show ?thesis unfolding md using pos(1) by simp
  qed
  have u: "unat (of_nat (cdiv (unat ?E) (unat page)) :: u32) = cdiv (unat nh) q"
      "unat (of_nat (cdiv (unat page) (unat dk)) :: u32) = q"
      "unat (of_nat (cdiv (unat (?E mod page)) (unat dk)) :: u32) = unat nh mod q"
    using unat_of_cdiv [of "unat page" ?E] unat_of_cdiv [of "unat dk" page] unat_of_cdiv [of "unat dk" "?E mod page"] pos
    by (simp_all add: chunks hpt last)
  have cp: "0 < cdiv (unat nh) q" using q0 pos(2) by (rule cdiv_pos)
  note ha = heads_arith [OF q0 pos(2)]
  from assms(1-4) have ok: "n_tp cfg \<noteq> 0" "pim_comp_coverage cfg \<noteq> 0" and
    l: "ls_chunks l = of_nat (cdiv (unat ?E) (unat page))" "ls_heads_per_tile l = of_nat (cdiv (unat page) (unat dk))"
      "ls_heads_in_last_chunk l = (if ?E mod page = 0 then of_nat (cdiv (unat page) (unat dk)) else of_nat (cdiv (unat (?E mod page)) (unat dk)))"
      "ls_comps_per_head l = of_nat (cdiv (unat dk) (unat (pim_comp_coverage cfg)))" "ls_nh l = nh"
    by (auto simp: ls_calculate_loops_def Let_def ceil_div_def split: if_splits)
  have "unat (ls_comps_per_head l) = cdiv (unat dk) (unat (pim_comp_coverage cfg))"
    unfolding l(4) using ok(2) by (intro unat_of_cdiv) (simp add: unat_gt_0)
  moreover have "unat (ls_chunks l) = cdiv (unat nh) q" unfolding l(1) u ..
  moreover have "unat (ls_heads_per_tile l) = q" unfolding l(2) u ..
  moreover have "unat (ls_heads_in_last_chunk l) = (if unat nh mod q = 0 then q else unat nh mod q)"
    unfolding l(3) z using u by simp
  ultimately show ?thesis using ha cp q0 ok l(5) chunks by (auto simp: word_less_nat_alt unat_gt_0)
qed

text \<open>
  C20: The commands for the logits of a request never run into an assertion, an exit or a missing row:
  for a key cache that \<open>PIMTensor\<close> allocated and a head size that divides a DRAM page, the rows that
  are addressed exist, and every head collects as many partial results as its check demands.
\<close>

theorem logit_softmax_runs:
  assumes "PIMTensor_new cfg name ch dims KEY produced ms = Inr (key, ms')"
    and "kv_bank_per_ch (ms_kv ms) = dram_banks_per_ch cfg" "kv_num_ele_per_row (ms_kv ms) = dram_page_size cfg div precision cfg"
    and "ls_calculate_loops cfg l0 = Inr (l, idxs)"
    and "unat (ls_dk l0) dvd unat (dram_page_size cfg div precision cfg)"
    and "unat (ls_nh l0) * unat (ls_dk l0) = unat (model_n_embd cfg div n_tp cfg)" "0 < ls_nh l0" "0 < ls_dk l0"
    and "unat (ls_dk l0) \<le> 32 * unat (pim_comp_coverage cfg)"
    and "unat (dims ! 2) + unat (dram_banks_per_ch cfg) < 2 ^ 32" "unat (dims ! 2) * unat (model_n_embd cfg) < 2 ^ 32"
    and "i < length (ls_ks l)" "ls_ks l ! i = key" "i < length (ls_outs l)" "ls_outs l ! i = out"
    and "\<forall>hi < unat (ls_nh l0). returns (head_addrs out hi)"
  shows "\<exists>s'. ls_incremental cfg l i s = Inr s'"
proof -
  let ?seq = "unat (dims ! 2)" and ?b = "unat (dram_banks_per_ch cfg)" and ?page = "dram_page_size cfg div precision cfg"
    and ?E = "unat (model_n_embd cfg)"
  note key = PIMTensor_new_KEY [OF assms(1-3)]
  have b0: "0 < ?b" and p0: "0 < unat ?page" using key by (simp_all add: unat_gt_0)
  have p0': "0 < ?page" using p0 by (simp add: word_less_nat_alt)
  note l = ls_calculate_loops_heads [OF assms(4) refl refl refl assms(5-8) p0']
  have "cdiv ?seq ?b * ?b < ?seq + ?b" by (rule cdiv_mult_less [OF b0])
  then have r: "cdiv ?seq ?b * ?b < 2 ^ 32" using assms(10) by simp
  then have sl: "get_allocated_seq_len_PIM key = Inr (of_nat (cdiv ?seq ?b * ?b))"
    using key b0 by (simp add: get_allocated_seq_len_PIM_def Let_def unat_eq_0)
  have "unat (of_nat (cdiv ?seq ?b * ?b) :: u32) = cdiv ?seq ?b * ?b" by (rule unat_eq_of_natI [OF refl r])
  then have T: "unat ((of_nat (cdiv ?seq ?b * ?b) :: u32) div dram_banks_per_ch cfg) = cdiv ?seq ?b"
    using b0 by (simp add: unat_div)
  have "cdiv ?seq ?b * cdiv ?E (unat ?page) \<le> ?seq * ?E" using b0 p0 by (intro mult_le_mono cdiv_le)
  then have re: "cdiv ?seq ?b * cdiv ?E (unat ?page) < 2 ^ 32" using assms(11) by (rule le_less_trans)
  have rows: "length (pt_rows key) = cdiv ?seq ?b * cdiv ?E (unat ?page)"
    using key unat_eq_of_natI [OF refl re] by simp
  have "unat (ls_chunks l) \<le> cdiv ?E (unat ?page)"
    using l p0 by (simp add: cdiv_def unat_div) (meson add_le_mono1 diff_le_mono div_le_dividend div_le_mono)
  then have le: "cdiv ?seq ?b * unat (ls_chunks l) \<le> cdiv ?seq ?b * cdiv ?E (unat ?page)" by (rule mult_le_mono2)
  have len: "cdiv ?seq ?b * unat (ls_chunks l) \<le> length (pt_rows key)" unfolding rows by (rule le)
  have len2: "cdiv ?seq ?b * unat (ls_chunks l) < 2 ^ 32" by (rule le_less_trans [OF le re])
  have pc: "0 < unat (pim_comp_coverage cfg)" "0 < unat (ls_dk l0)" using l assms(8) by (simp_all add: word_less_nat_alt)
  have c1: "cdiv (unat (ls_dk l0)) (unat (pim_comp_coverage cfg)) \<le> 32" using pc assms(9) by (simp add: cdiv_le_iff)
  have c2: "0 < cdiv (unat (ls_dk l0)) (unat (pim_comp_coverage cfg))" using pc by (intro cdiv_pos)
  have ok: "ls_ok cfg l key ((of_nat (cdiv ?seq ?b * ?b) :: u32) div dram_banks_per_ch cfg)"
  proof -
    have nh: "ls_nh l = ls_nh l0" using l by blast
    have comps: "unat (ls_comps_per_head l) = cdiv (unat (ls_dk l0)) (unat (pim_comp_coverage cfg))" using l by blast
    have "0 < unat (ls_comps_per_head l) \<and> unat (ls_comps_per_head l) \<le> 32" unfolding comps using c1 c2 by blast
    then show ?thesis using l len len2 unfolding ls_ok_def T nh by blast
  qed
  show ?thesis
    by (rule ls_incremental_runs [OF assms(13,15,12,14) sl _ ok]) (use key l assms(16) in simp_all)
qed

definition demo_pim_cfg :: sim_config where
  "demo_pim_cfg = demo_cfg\<lparr>model_n_embd := 4, model_n_head := 2, n_tp := 1, dram_page_size := 8, dram_banks_per_ch := 2,
     pim_comp_coverage := 2\<rparr>"

definition demo_pim_mem :: mem_state where
  "demo_pim_mem = demo_mem\<lparr>ms_kv := KVCacheAlloc_new\<lparr>kv_bank_per_ch := 2, kv_num_ele_per_row := 4, kv_rows := [[7, 8]]\<rparr>\<rparr>"

definition demo_key :: pim_tensor where
  "demo_key = \<lparr>bt_produced = True, bt_id = 0, bt_name = ''K'', bt_dims = [2, 2, 2], bt_child_nodes = [],
     bt_precision = 2, pt_kv_type = KEY, pt_bank_per_ch = 2, pt_E = 4, pt_num_ele_per_row = 4,
     pt_num_rows_per_alloc = 1, pt_ch = 0, pt_rows = [7], pt_seq_len = 2\<rparr>"

definition demo_heads :: "string \<Rightarrow> u32 list \<Rightarrow> u64 \<Rightarrow> npu_tensor" where
  "demo_heads name ds base = \<lparr>bt_produced = True, bt_id = 0, bt_name = name, bt_dims = ds, bt_child_nodes = [], bt_precision = 2,
     nt_inners = [Inner2D \<lparr>ti_base_addr = base, ti_dims = tl ds, ti_size = 4, ti_buf_type = ACT, ti_precision = 2\<rparr>,
       Inner2D \<lparr>ti_base_addr = base + 2048, ti_dims = tl ds, ti_size = 4, ti_buf_type = ACT, ti_precision = 2\<rparr>],
     nt_is_transposed = False\<rparr>"

definition demo_ls :: "ls_op" where
  "demo_ls = \<lparr>ls_qs = replicate 2 (demo_heads ''query'' [2, 1, 2] 4096), ls_ks = replicate 2 demo_key,
     ls_outs = replicate 2 (demo_heads ''out'' [2, 1, 2] 8192), ls_nh = 2, ls_dk = 2, ls_chunks = 0, ls_heads_per_tile = 0,
     ls_heads_in_last_chunk = 0, ls_comps_per_head = 0\<rparr>"

lemma demo_head_addrs: "\<forall>hi < 2. returns (head_addrs (demo_heads name [2, 1, 2] base) hi)"
  by (auto simp: less_2_cases_iff head_addrs_def demo_heads_def inner_get_all_addrs_def get_all_addrs_2D_def)

lemma demo_key_new: "\<exists>ms'. PIMTensor_new demo_pim_cfg ''K'' 0 [2, 2, 2] KEY True demo_pim_mem = Inr (demo_key, ms')"
  by (simp add: PIMTensor_new_def demo_pim_mem_def KVCacheAlloc_new_def ceil_div_def cdiv_def demo_pim_cfg_def demo_key_def
      kv_allocate_ch_def demo_cfg_def)

lemma demo_ls_loops:
  "\<exists>l idxs. ls_calculate_loops demo_pim_cfg demo_ls = Inr (l, idxs) \<and> ls_ks l = ls_ks demo_ls \<and> ls_outs l = ls_outs demo_ls \<and>
     ls_qs l = ls_qs demo_ls \<and> ls_nh l = 2"
proof -
  have r: "replicate 2 x = [x, x]" for x :: 'a by (simp add: numeral_2_eq_2)
  show ?thesis
    by (simp add: ls_calculate_loops_def ls_sram_size_needed_def ls_need_def demo_ls_def r demo_pim_cfg_def demo_cfg_def
        demo_heads_def demo_key_def get_dims_def spad_limit_def ceil_div_def Let_def)
qed

theorem logit_softmax_runs_witness:
  "\<exists>l idxs. ls_calculate_loops demo_pim_cfg demo_ls = Inr (l, idxs) \<and>
     (\<forall>i s. i < 2 \<longrightarrow> (\<exists>s'. ls_incremental demo_pim_cfg l i s = Inr s'))"
proof -
  obtain l idxs where l: "ls_calculate_loops demo_pim_cfg demo_ls = Inr (l, idxs)" "ls_ks l = ls_ks demo_ls" "ls_outs l = ls_outs demo_ls"
    using demo_ls_loops by blast
  from demo_key_new obtain ms' where k: "PIMTensor_new demo_pim_cfg ''K'' 0 [2, 2, 2] KEY True demo_pim_mem = Inr (demo_key, ms')" ..
  have "\<exists>s'. ls_incremental demo_pim_cfg l i s = Inr s'" if "i < 2" for i s
    by (rule logit_softmax_runs [OF k _ _ l(1)])
      (use l(2,3) that demo_head_addrs [of "''out''" 8192] in
        \<open>simp_all add: demo_pim_mem_def demo_pim_cfg_def demo_cfg_def demo_ls_def KVCacheAlloc_new_def\<close>)
  then show ?thesis using l(1) by blast
qed

subsection \<open>The requests between two tiles\<close>

lemma foldE_insts_mono:
  assumes "foldE f s xs = Inr s'" "\<And>s x s'. f s x = Inr s' \<Longrightarrow> set (em_insts (g s)) \<subseteq> set (em_insts (g s'))"
  shows "set (em_insts (g s)) \<subseteq> set (em_insts (g s'))"
  by (rule foldE_invariant [OF assms(1), where I = "\<lambda>t. set (em_insts (g s)) \<subseteq> set (em_insts (g t))"]) (use assms(2) in blast)+

lemma emit_insts [simp]: "em_insts (emit i s) = em_insts s @ [i]"
  by (simp add: emit_def)

lemmas alloc_simps = em_alloc_def allocate_sram_addr_def Let_def

lemma ls_head_mono: "ls_head cfg l ch row chunk heads sr j = Inr sr' \<Longrightarrow> set (em_insts (fst sr)) \<subseteq> set (em_insts (fst sr'))"
  by (cases sr) (auto simp: ls_head_def alloc_simps)

lemma ls_row_mono: "ls_row cfg l key chunk sr t = Inr sr' \<Longrightarrow> set (em_insts (fst sr)) \<subseteq> set (em_insts (fst sr'))"
proof -
  obtain s rr where sr: "sr = (s, rr)" by (cases sr)
  assume "ls_row cfg l key chunk sr t = Inr sr'"
  then obtain S row heads where f: "foldE (ls_head cfg l (pt_ch key) row chunk heads) (S, rr) [0..<unat heads] = Inr sr'"
    and S: "set (em_insts s) \<subseteq> set (em_insts S)"
    by (simp add: sr ls_row_def alloc_simps split: if_splits) force+
  from foldE_insts_mono [OF f, where g = fst] ls_head_mono have "set (em_insts S) \<subseteq> set (em_insts (fst sr'))" by fastforce
  then show ?thesis using S sr by simp
qed

lemma ls_chunk_mono: "ls_chunk cfg l key tiles sr c = Inr sr' \<Longrightarrow> set (em_insts (fst sr)) \<subseteq> set (em_insts (fst sr'))"
proof -
  obtain s rr where sr: "sr = (s, rr)" by (cases sr)
  assume "ls_chunk cfg l key tiles sr c = Inr sr'"
  then obtain S where f: "foldE (ls_row cfg l key (of_nat c)) (S, rr) [0..<unat tiles] = Inr sr'"
    and S: "set (em_insts s) \<subseteq> set (em_insts S)"
    by (simp add: sr ls_chunk_def alloc_simps) force
  from foldE_insts_mono [OF f, where g = fst] ls_row_mono have "set (em_insts S) \<subseteq> set (em_insts (fst sr'))" by fastforce
  then show ?thesis using S sr by simp
qed

lemma ls_softmax_mono: "ls_softmax cfg key out tiles rr s hi = Inr s' \<Longrightarrow> set (em_insts s) \<subseteq> set (em_insts s')"
  by (auto simp: ls_softmax_def alloc_simps)

lemma ls_initiation_mono: "ls_initiation_head cfg l q k out n s h = Inr s' \<Longrightarrow> set (em_insts s) \<subseteq> set (em_insts s')"
  by (auto simp: ls_initiation_head_def alloc_simps)

lemma ls_incremental_mono: "ls_incremental cfg l i s = Inr s' \<Longrightarrow> set (em_insts s) \<subseteq> set (em_insts s')"
proof -
  assume "ls_incremental cfg l i s = Inr s'"
  then obtain key out seq_len s1 rr where
    c: "foldE (ls_chunk cfg l key (seq_len div dram_banks_per_ch cfg)) (s, \<lambda>_. []) [0..<unat (ls_chunks l)] = Inr (s1, rr)"
    and sm: "foldE (ls_softmax cfg key out (seq_len div dram_banks_per_ch cfg) rr) s1 [0..<unat (ls_nh l)] = Inr s'"
    by (auto simp: ls_incremental_def Let_def split: if_splits)
  from foldE_insts_mono [OF c, where g = fst] have "set (em_insts s) \<subseteq> set (em_insts s1)" using ls_chunk_mono by fastforce
  also have "\<dots> \<subseteq> set (em_insts s')" using foldE_insts_mono [OF sm, where g = "\<lambda>s. s"] ls_softmax_mono by blast
  finally show ?thesis .
qed

lemma ls_request_mono: "ls_request cfg l s i = Inr s' \<Longrightarrow> set (em_insts s) \<subseteq> set (em_insts s')"
  using foldE_insts_mono [where g = "\<lambda>s. s"] ls_initiation_mono ls_incremental_mono
  unfolding ls_request_def by (fastforce split: if_splits)

definition stores :: "addr_type list \<Rightarrow> Instruction list \<Rightarrow> bool" where
  "stores addrs insts \<longleftrightarrow> (\<exists>i \<in> set insts. opcode i = MOVOUT \<and> src_addrs i = addrs)"

lemma stores_mono: "stores addrs is \<Longrightarrow> set is \<subseteq> set is' \<Longrightarrow> stores addrs is'"
  by (auto simp: stores_def)

lemma ls_request_stores:
  assumes "ls_request cfg l s i = Inr s'" "get_dims (ls_qs l ! i) ! 1 = 1" "0 < ls_nh l" "head_addrs (ls_outs l ! i) 0 = Inr addrs"
  shows "stores addrs (em_insts s')"
proof -
  have "ls_incremental cfg l i s = Inr s'" using assms(1,2) by (auto simp: ls_request_def)
  then obtain key seq_len s1 rr where
    sm: "foldE (ls_softmax cfg key (ls_outs l ! i) (seq_len div dram_banks_per_ch cfg) rr) s1 [0..<unat (ls_nh l)] = Inr s'"
    by (auto simp: ls_incremental_def Let_def split: if_splits)
  have u: "[0..<unat (ls_nh l)] = 0 # [1..<unat (ls_nh l)]" using assms(3) by (simp add: upt_conv_Cons word_less_nat_alt)
  from sm obtain s2 where s2: "ls_softmax cfg key (ls_outs l ! i) (seq_len div dram_banks_per_ch cfg) rr s1 0 = Inr s2"
    and rest: "foldE (ls_softmax cfg key (ls_outs l ! i) (seq_len div dram_banks_per_ch cfg) rr) s2 [1..<unat (ls_nh l)] = Inr s'"
    unfolding u by auto
  have "stores addrs (em_insts s2)" using s2 assms(4)
    by (auto simp: ls_softmax_def alloc_simps stores_def store_inst_def Instruction0_def)
  moreover have "set (em_insts s2) \<subseteq> set (em_insts s')"
    using foldE_insts_mono [OF rest, where g = "\<lambda>s. s"] ls_softmax_mono by blast
  ultimately show ?thesis by (rule stores_mono)
qed

lemma ls_tile_stores:
  assumes "ls_initialize_instructions cfg l oper (a, b) = Inr (t, oper')" "a \<le> r" "r \<le> b"
    and "get_dims (ls_qs l ! r) ! 1 = 1" "0 < ls_nh l" "head_addrs (ls_outs l ! r) 0 = Inr addrs"
  shows "stores addrs (tl_instructions t)"
proof -
  from assms(1) obtain s where s: "foldE (ls_request cfg l) \<lparr>em_oper = oper, em_insts = []\<rparr> [a..<b + 1] = Inr s"
    and t: "tl_instructions t = em_insts s"
    by (auto simp: ls_initialize_instructions_def pim_tile_def)
  have u: "[a..<b + 1] = [a..<r] @ r # [r + 1..<b + 1]" using assms(2,3) upt_add_eq_append [of a r "b + 1 - r"] by (simp add: upt_conv_Cons)
  from s obtain s1 s2 where s2: "ls_request cfg l s1 r = Inr s2" "foldE (ls_request cfg l) s2 [r + 1..<b + 1] = Inr s"
    unfolding u foldE_append by auto
  have "set (em_insts s2) \<subseteq> set (em_insts s)" using foldE_insts_mono [OF s2(2), where g = "\<lambda>s. s"] ls_request_mono by blast
  with ls_request_stores [OF s2(1) assms(4-6)] show ?thesis unfolding t by (rule stores_mono)
qed

text \<open>
  C28: When the requests do not fit one tile, the last request of a tile is processed again by the
  next one: both tiles hold the store of its result (and all commands that lead to it).
\<close>

theorem boundary_request_processed_twice:
  assumes "ls_initialize_tiles cfg l (r0 # r1 # rest) oper = Inr (tiles, oper')" "r0 \<le> r1"
    and "get_dims (ls_qs l ! r0) ! 1 = 1" "0 < ls_nh l" "head_addrs (ls_outs l ! r0) 0 = Inr addrs"
  shows "\<exists>t0 t1 ts. tiles = t0 # t1 # ts \<and> stores addrs (tl_instructions t0) \<and> stores addrs (tl_instructions t1)"
proof -
  from assms(1) obtain t0 o0 t1 o1 where
    t: "ls_initialize_instructions cfg l oper (0, r0) = Inr (t0, o0)" "ls_initialize_instructions cfg l o0 (r0, r1) = Inr (t1, o1)"
    and r: "foldE (\<lambda>(tiles, oper) r. bindE (ls_initialize_instructions cfg l oper r) (\<lambda>(t, oper). Inr (tiles @ [t], oper)))
       ([t0, t1], o1) (tile_ranges r1 rest) = Inr (tiles, oper')"
    by (auto simp: ls_initialize_tiles_def split: prod.splits)
  have "\<exists>ts. fst (tiles, oper') = [t0, t1] @ ts"
    by (rule foldE_invariant [OF r, where I = "\<lambda>p. \<exists>ts. fst p = [t0, t1] @ ts"]) (auto split: prod.splits)
  then obtain ts where "tiles = [t0, t1] @ ts" by auto
  then show ?thesis using ls_tile_stores [OF t(1) _ _ assms(3-5)] ls_tile_stores [OF t(2) _ assms(2) assms(3-5)] by simp
qed

theorem boundary_request_processed_twice_witness:
  "\<exists>l tiles oper' addrs. ls_initialize_tiles demo_pim_cfg l [0, 1] demo_oper = Inr (tiles, oper') \<and>
     stores addrs (tl_instructions (tiles ! 0)) \<and> stores addrs (tl_instructions (tiles ! 1))"
proof -
  obtain l idxs where l: "ls_calculate_loops demo_pim_cfg demo_ls = Inr (l, idxs)" "ls_ks l = ls_ks demo_ls" "ls_outs l = ls_outs demo_ls"
      "ls_qs l = ls_qs demo_ls" "ls_nh l = 2"
    using demo_ls_loops by blast
  from demo_key_new obtain ms' where k: "PIMTensor_new demo_pim_cfg ''K'' 0 [2, 2, 2] KEY True demo_pim_mem = Inr (demo_key, ms')" ..
  have l0: "ls_nh demo_ls = 2" "ls_dk demo_ls = 2" by (simp_all add: demo_ls_def)
  note heads = ls_calculate_loops_heads [OF l(1) refl refl refl]
  have "ls_ok demo_pim_cfg l demo_key 1"
    using heads l0 by (auto simp: ls_ok_def demo_pim_cfg_def demo_cfg_def demo_key_def cdiv_def)
  then have run: "\<exists>s'. ls_incremental demo_pim_cfg l i s = Inr s'" if "i < 2" for i s
    using that l demo_head_addrs [of "''out''" 8192]
    by (intro ls_incremental_runs [OF _ _ _ _ _ _ _, where key = demo_key and out = "demo_heads ''out'' [2, 1, 2] 8192" and seq_len = 2])
      (simp_all add: demo_ls_def demo_key_def get_allocated_seq_len_PIM_def cdiv_def demo_pim_cfg_def)
  have req: "\<exists>s'. ls_request demo_pim_cfg l s i = Inr s'" if "i < 2" for i s
    using that run l by (auto simp: ls_request_def demo_ls_def demo_heads_def get_dims_def demo_key_def)
  have inst: "\<exists>t o'. ls_initialize_instructions demo_pim_cfg l oper (a, b) = Inr (t, o')" if "b < 2" for oper a b
    using foldE_returns [where I = "\<lambda>_. True" and f = "ls_request demo_pim_cfg l" and xs = "[a..<b + 1]"] req that
    by (fastforce simp: ls_initialize_instructions_def)
  obtain t0 o0 where t0: "ls_initialize_instructions demo_pim_cfg l demo_oper (0, 0) = Inr (t0, o0)" using inst [where b = 0 and oper = demo_oper and a = 0] by auto
  obtain t1 o1 where t1: "ls_initialize_instructions demo_pim_cfg l o0 (0, 1) = Inr (t1, o1)" using inst [where b = 1 and oper = o0 and a = 0] by auto
  have t: "ls_initialize_tiles demo_pim_cfg l [0, 1] demo_oper = Inr ([t0, t1], o1)"
    using t0 t1 by (simp add: ls_initialize_tiles_def)
  have "returns (head_addrs (ls_outs l ! 0) 0)" using demo_head_addrs [of "''out''" 8192] l(3) by (simp add: demo_ls_def)
  then obtain addrs where "head_addrs (ls_outs l ! 0) 0 = Inr addrs" by (auto simp: returns_iff)
  moreover have "get_dims (ls_qs l ! 0) ! 1 = 1" using l(4) by (simp add: demo_ls_def demo_heads_def get_dims_def)
  ultimately have "stores addrs (tl_instructions t0) \<and> stores addrs (tl_instructions t1)"
    using boundary_request_processed_twice [OF t] l(5) by auto
  with t show ?thesis by (intro exI [of _ l] exI [of _ "[t0, t1]"] exI [of _ o1] exI [of _ addrs]) simp
qed

subsection \<open>Attend\<close>

definition no_store :: "Instruction list \<Rightarrow> bool" where
  "no_store insts \<longleftrightarrow> (\<forall>i \<in> set insts. opcode i \<noteq> MOVOUT)"

lemma no_store_append [simp]: "no_store (xs @ ys) \<longleftrightarrow> no_store xs \<and> no_store ys"
  by (auto simp: no_store_def)

lemma no_store_Cons [simp]: "no_store [] \<longleftrightarrow> True" "no_store (i # is) \<longleftrightarrow> opcode i \<noteq> MOVOUT \<and> no_store is"
  by (auto simp: no_store_def)

lemma opcode_pim_inst [simp]: "opcode (pim_inst opc d sz srcs) = opc"
  by (simp add: pim_inst_def Instruction0_def)

lemma no_store_gemv [simp]: "no_store (gemv_insts cfg d sz a n)"
  by (auto simp: gemv_insts_def no_store_def pim_inst_def Instruction0_def)

lemma at_row_no_store:
  "at_row cfg a v chunks nc dc ci sr t = Inr sr' \<Longrightarrow> no_store (em_insts (fst sr)) \<Longrightarrow> no_store (em_insts (fst sr'))"
  by (cases sr) (auto simp: at_row_def alloc_simps)

lemma at_chunk_no_store:
  assumes "at_chunk cfg a v n chunks sr ci = Inr sr'" "no_store (em_insts (fst sr))"
  shows "no_store (em_insts (fst sr'))"
proof -
  obtain s rr where sr: "sr = (s, rr)" by (cases sr)
  from assms obtain S nc dc where f: "foldE (at_row cfg a v chunks nc dc (of_nat ci)) (S, rr) [0..<unat (at_tiles_per_chunk a)] = Inr sr'"
    and S: "no_store (em_insts S)"
    by (simp add: sr at_chunk_def alloc_simps) (metis emit_insts no_store_append no_store_Cons opcode_pim_inst Opcode.distinct)
  show ?thesis
    by (rule foldE_invariant [OF f, where I = "\<lambda>sr. no_store (em_insts (fst sr))"]) (use S at_row_no_store in auto)
qed

lemma at_head_no_store:
  assumes "at_head cfg a v out n chunks s hi = Inr s'" "\<not> chunks > 1" "no_store (em_insts s)"
  shows "no_store (em_insts s')"
proof -
  from assms(1,2) obtain rr where f: "foldE (at_chunk cfg a v n chunks) (s, \<lambda>_. []) [0..<unat chunks] = Inr (s', rr)"
    by (auto simp: at_head_def)
  have "no_store (em_insts (fst (s', rr)))"
    by (rule foldE_invariant [OF f, where I = "\<lambda>sr. no_store (em_insts (fst sr))"]) (use assms(3) at_chunk_no_store in auto)
  then show ?thesis by simp
qed

lemma at_request_no_store:
  assumes "at_request cfg a s i = Inr s'" "get_dims (at_logits a ! i) ! 1 = 1"
    and "bt_dims (at_vs a ! i) ! 1 \<le> at_page_size a" "no_store (em_insts s)"
  shows "no_store (em_insts s')"
proof -
  let ?v = "at_vs a ! i" and ?page = "at_page_size a"
  from assms(1,2) have f: "foldE (at_head cfg a ?v (at_outs a ! i) (bt_dims ?v ! 1)
        (of_nat (cdiv (unat (bt_dims ?v ! 1)) (unat ?page)))) s [0..<unat (at_nh a)] = Inr s'" and p: "?page \<noteq> 0"
    by (auto simp: at_request_def ceil_div_def split: if_splits)
  have "cdiv (unat (bt_dims ?v ! 1)) (unat ?page) \<le> 1"
    using assms(3) p by (simp add: cdiv_le_iff word_le_nat_alt unat_gt_0)
  moreover have "unat (of_nat (cdiv (unat (bt_dims ?v ! 1)) (unat ?page)) :: u32) = cdiv (unat (bt_dims ?v ! 1)) (unat ?page)"
    using p by (intro unat_of_cdiv) (simp add: unat_gt_0)
  ultimately have one: "\<not> (of_nat (cdiv (unat (bt_dims ?v ! 1)) (unat ?page)) :: u32) > 1" by (simp add: word_less_nat_alt)
  show ?thesis
    by (rule foldE_invariant [OF f, where I = "\<lambda>s. no_store (em_insts s)"]) (use assms(4) at_head_no_store one in blast)+
qed

text \<open>
  C29: The result of \<open>NeuPIMSAttend\<close> is not written back for short sequences: when the values of every
  request of a tile fit one DRAM page, the tile holds no store, because the code that adds the
  partial results and stores the sums is only run for two or more chunks.
\<close>

theorem attend_stores_nothing:
  assumes "at_initialize_instructions cfg a oper (start, end') = Inr (tile, oper')"
    and "\<forall>i. start \<le> i \<and> i \<le> end' \<longrightarrow> get_dims (at_logits a ! i) ! 1 = 1 \<and> bt_dims (at_vs a ! i) ! 1 \<le> at_page_size a"
  shows "no_store (tl_instructions tile)"
proof -
  from assms(1) obtain s where f: "foldE (at_request cfg a) \<lparr>em_oper = oper, em_insts = []\<rparr> [start..<end' + 1] = Inr s"
    and t: "tl_instructions tile = em_insts s"
    by (auto simp: at_initialize_instructions_def pim_tile_def)
  have "no_store (em_insts s)"
  proof (rule foldE_invariant [OF f, where I = "\<lambda>s. no_store (em_insts s)"])
    fix s i s' assume "no_store (em_insts s)" "i \<in> set [start..<end' + 1]" "at_request cfg a s i = Inr s'"
    then show "no_store (em_insts s')" using at_request_no_store [of cfg a s i s'] assms(2) by auto
  qed (simp add: no_store_def)
  then show ?thesis using t by simp
qed

definition demo_value :: pim_tensor where
  "demo_value = demo_key\<lparr>pt_kv_type := VALUE\<rparr>"

definition demo_at :: at_op where
  "demo_at = \<lparr>at_logits = [demo_heads ''logit'' [2, 1, 2] 4096], at_vs = [demo_value], at_outs = [demo_heads ''out'' [2, 1, 2] 8192],
     at_nh = 2, at_dk = 2, at_page_size = 4, at_banks_per_channel = 2, at_tiles_per_chunk = 1, at_datas_per_comp_cmd = 2\<rparr>"

theorem attend_stores_nothing_witness:
  "\<exists>tile oper'. at_initialize_instructions demo_pim_cfg demo_at demo_oper (0, 0) = Inr (tile, oper') \<and>
     tl_instructions tile \<noteq> [] \<and> no_store (tl_instructions tile)"
proof -
  have log: "LogBase2 1 = 0" by (simp add: LogBase2_rec)
  have dec: "at_decoded_comps 1 = 1" by (simp add: at_decoded_comps_def log)
  have "\<exists>S rr. at_row demo_pim_cfg demo_at demo_value 1 1 1 0 (s, \<lambda>_. []) 0 = Inr (S, rr) \<and> em_insts S \<noteq> []" for s
    using encode_comps_returns [of 1 "dram_channels demo_pim_cfg" "pt_ch demo_value" "ucast (pt_rows demo_value ! 0)" True]
    by (auto simp: at_row_def alloc_simps demo_value_def demo_key_def)
  then have head: "\<exists>S. at_head demo_pim_cfg demo_at demo_value out 2 1 s hi = Inr S \<and> em_insts S \<noteq> []" for s out hi
    by (simp add: at_head_def at_chunk_def alloc_simps at_num_comps_def ceil_div_def cdiv_def demo_at_def dec)
  obtain s1 where s1: "at_head demo_pim_cfg demo_at demo_value (demo_heads ''out'' [2, 1, 2] 8192) 2 1
      \<lparr>em_oper = demo_oper, em_insts = []\<rparr> 0 = Inr s1" using head by blast
  obtain s2 where s2: "at_head demo_pim_cfg demo_at demo_value (demo_heads ''out'' [2, 1, 2] 8192) 2 1 s1 1 = Inr s2" "em_insts s2 \<noteq> []"
    using head by blast
  have "[0..<2] = [0, 1 :: nat]" by (simp add: upt_rec)
  then have "at_request demo_pim_cfg demo_at \<lparr>em_oper = demo_oper, em_insts = []\<rparr> 0 = Inr s2"
    using s1 s2 by (simp add: at_request_def demo_at_def demo_value_def demo_key_def demo_heads_def get_dims_def ceil_div_def cdiv_def)
  then have t: "at_initialize_instructions demo_pim_cfg demo_at demo_oper (0, 0) = Inr (pim_tile s2, em_oper s2)"
    by (simp add: at_initialize_instructions_def)
  from attend_stores_nothing [OF t] t s2(2) show ?thesis
    by (simp add: pim_tile_def demo_at_def demo_value_def demo_key_def demo_heads_def get_dims_def)
qed

end
