(* ===== verification/MemConfig.thy ===== *)
theory MemConfig
  imports Addr "HOL-Library.Signed_Division"
begin

text \<open>
  The configuration of the memory simulator (NewtonSim/src/configuration.h, configuration.cc): its
  structure, its timing parameters, and the mapping between addresses and banks.

  The file is read by \<open>INIReader\<close>, a library; the model takes the three lookups the code uses, each
  with the section, the option and the default value.  The integers of a configuration are \<open>int\<close>s far
  from their limits, and the model computes them as integers.
\<close>

subsection \<open>The parameters\<close>

record ini_reader =
  ini_get :: "string \<Rightarrow> string \<Rightarrow> string \<Rightarrow> string"
  ini_int :: "string \<Rightarrow> string \<Rightarrow> int \<Rightarrow> int"
  ini_bool :: "string \<Rightarrow> string \<Rightarrow> bool \<Rightarrow> bool"

datatype DRAMProtocol = DDR3 | DDR4 | GDDR5 | GDDR5X | GDDR6 | LPDDR | LPDDR3 | LPDDR4 | HBM | HBM2
datatype MemoryType = MT_DRAM | MT_NEWTON | MT_NEUPIMS
datatype RefreshPolicy = RANK_LEVEL_SIMULTANEOUS | RANK_LEVEL_STAGGERED | BANK_LEVEL_STAGGERED

record mem_structure =
  protocol :: DRAMProtocol
  memory_type :: MemoryType
  mc_channel_size :: int
  mc_channels :: int
  mc_ranks :: int
  mc_banks :: int
  mc_bankgroups :: int
  mc_banks_per_group :: int
  mc_rows :: int
  mc_columns :: int
  device_width :: int
  bus_width :: int
  devices_per_rank :: int
  BL :: int
  num_dies :: int
  enable_hbm_dual_cmd :: bool
  enable_dual_buffer :: bool
  burst_cycle :: int

record mem_system =
  address_mapping :: string
  queue_structure :: string
  row_buf_policy :: string
  cmd_queue_size :: int
  trans_queue_size :: int
  unified_queue :: bool
  write_buf_size :: int
  refresh_policy :: RefreshPolicy
  enable_self_refresh :: bool
  sref_threshold :: int
  aggressive_precharging_enabled :: bool

record mem_timing =
  AL :: int
  CL :: int
  CWL :: int
  tCCD_L :: int
  tCCD_S :: int
  tRTRS :: int
  tRTP :: int
  tWTR_L :: int
  tWTR_S :: int
  tWR :: int
  tRP :: int
  tRRD_L :: int
  tRRD_S :: int
  tRAS :: int
  tRCD :: int
  tRFC :: int
  tRC :: int
  tCKE :: int
  tCKESR :: int
  tXS :: int
  tXP :: int
  tRFCb :: int
  tREFI :: int
  tREFIb :: int
  tFAW :: int
  tRPRE :: int
  tWPRE :: int
  tPPD :: int
  t32AW :: int
  tRCDRD :: int
  tRCDWR :: int
  ideal_memory_latency :: int
  RL :: int
  WL :: int
  read_delay :: int
  write_delay :: int
  gwrite_delay :: int

record addr_fields =
  shift_bits :: nat
  ch_pos :: nat
  ra_pos :: nat
  bg_pos :: nat
  ba_pos :: nat
  ro_pos :: nat
  co_pos :: nat
  ch_mask :: u64
  ra_mask :: u64
  bg_mask :: u64
  ba_mask :: u64
  ro_mask :: u64
  co_mask :: u64

record mem_config =
  mc_structure :: mem_structure
  mc_system :: mem_system
  mc_timing :: mem_timing
  mc_fields :: addr_fields
  request_size_bytes :: int

definition int_div :: "int \<Rightarrow> int \<Rightarrow> fault + int" where
  "int_div a b = (if b = 0 then Inl Undefined else Inr (a sdiv b))"

definition GetDRAMProtocol :: "string \<Rightarrow> fault + DRAMProtocol" where
  "GetDRAMProtocol s = (case map_of [(''DDR3'', DDR3), (''DDR4'', DDR4), (''GDDR5'', GDDR5), (''GDDR5X'', GDDR5X),
     (''GDDR6'', GDDR6), (''LPDDR'', LPDDR), (''LPDDR3'', LPDDR3), (''LPDDR4'', LPDDR4), (''HBM'', HBM), (''HBM2'', HBM2)] s of
       None \<Rightarrow> Inl Exited | Some p \<Rightarrow> Inr p)"

definition GetMemoryType :: "string \<Rightarrow> fault + MemoryType" where
  "GetMemoryType s = (case map_of [(''DRAM'', MT_DRAM), (''SINGLE'', MT_NEWTON), (''DUAL'', MT_NEUPIMS)] s of
     None \<Rightarrow> Inl Exited | Some t \<Rightarrow> Inr t)"

definition IsGDDR :: "DRAMProtocol \<Rightarrow> bool" where
  "IsGDDR p \<longleftrightarrow> p = GDDR5 \<or> p = GDDR5X \<or> p = GDDR6"

definition IsHBM :: "DRAMProtocol \<Rightarrow> bool" where
  "IsHBM p \<longleftrightarrow> p = HBM \<or> p = HBM2"

definition InitSystemParams :: "ini_reader \<Rightarrow> fault + (int \<times> int \<times> int \<times> mem_system)" where
  "InitSystemParams r = (let geti = ini_int r ''system''; gets = ini_get r ''system''; getb = ini_bool r ''system'' in
     bindE (case map_of [(''RANK_LEVEL_SIMULTANEOUS'', RANK_LEVEL_SIMULTANEOUS), (''RANK_LEVEL_STAGGERED'', RANK_LEVEL_STAGGERED),
         (''BANK_LEVEL_STAGGERED'', BANK_LEVEL_STAGGERED)] (gets ''refresh_policy'' ''RANK_LEVEL_STAGGERED'') of
       None \<Rightarrow> Inl Exited | Some p \<Rightarrow> Inr p) (\<lambda>policy.
     Inr (geti ''channel_size'' 1024, geti ''channels'' 1, geti ''bus_width'' 64,
       \<lparr>address_mapping = gets ''address_mapping'' ''chrobabgraco'', queue_structure = gets ''queue_structure'' ''PER_BANK'',
        row_buf_policy = gets ''row_buf_policy'' ''OPEN_PAGE'', cmd_queue_size = geti ''cmd_queue_size'' 16,
        trans_queue_size = geti ''trans_queue_size'' 32, unified_queue = getb ''unified_queue'' False,
        write_buf_size = geti ''write_buf_size'' 16, refresh_policy = policy,
        enable_self_refresh = getb ''enable_self_refresh'' False, sref_threshold = geti ''sref_threshold'' 1000,
        aggressive_precharging_enabled = getb ''aggressive_precharging_enabled'' False\<rparr>)))"

text \<open>The burst and the columns in the units of the protocol; a burst length of 0 stands for perfect bandwidth.\<close>

definition burst_params :: "DRAMProtocol \<Rightarrow> int \<Rightarrow> int \<times> int" where
  "burst_params p bl =
     (let per = (if p = GDDR5 then 4 else if p = GDDR5X then 8 else if p = GDDR6 then 16 else 2)
      in (if bl = 0 then 0 else bl sdiv per, if bl = 0 then (if IsHBM p then 4 else 8) else bl))"

definition InitDRAMParams :: "ini_reader \<Rightarrow> int \<Rightarrow> int \<Rightarrow> int \<Rightarrow> fault + mem_structure" where
  "InitDRAMParams r channel_size channels bus = (let geti = ini_int r ''dram_structure''; gets = ini_get r ''dram_structure'' in
     bindE (GetDRAMProtocol (gets ''protocol'' ''DDR3'')) (\<lambda>p.
     bindE (GetMemoryType (gets ''pim_type'' ''SINGLE'')) (\<lambda>mt.
     let groups = geti ''bankgroups'' 2; per_group = geti ''banks_per_group'' 2;
         (groups, per_group) = (if ini_bool r ''dram_structure'' ''bankgroup_enable'' True then (groups, per_group)
                                else (1, per_group * groups));
         (burst, bl) = burst_params p (geti ''BL'' 8);
         cols = geti ''columns'' (2 ^ 10)
     in Inr \<lparr>protocol = p, memory_type = mt, mc_channel_size = channel_size, mc_channels = channels, mc_ranks = 0,
         mc_banks = groups * per_group, mc_bankgroups = groups, mc_banks_per_group = per_group, mc_rows = geti ''rows'' (2 ^ 16),
         mc_columns = (if IsGDDR p then cols * bl else cols), device_width = geti ''device_width'' 8, bus_width = bus,
         devices_per_rank = 0, BL = bl, num_dies = geti ''num_dies'' 1,
         enable_hbm_dual_cmd = (ini_bool r ''dram_structure'' ''hbm_dual_cmd'' True \<and> IsHBM p),
         enable_dual_buffer = (mt = MT_NEUPIMS), burst_cycle = burst\<rparr>)))"

definition CalculateSize :: "mem_structure \<Rightarrow> fault + mem_structure" where
  "CalculateSize c = bindE (int_div (bus_width c) (device_width c)) (\<lambda>devices.
     let page_size = (mc_columns c * device_width c) sdiv 8;
         megs_per_bank = (page_size * (mc_rows c sdiv 1024)) sdiv 1024;
         megs_per_rank = megs_per_bank * mc_banks c * devices;
         c = c\<lparr>devices_per_rank := devices\<rparr>
     in if megs_per_rank > mc_channel_size c then Inr (c\<lparr>mc_ranks := 1, mc_channel_size := megs_per_rank\<rparr>)
        else bindE (int_div (mc_channel_size c) megs_per_rank) (\<lambda>ranks.
          Inr (c\<lparr>mc_ranks := ranks, mc_channel_size := ranks * megs_per_rank\<rparr>)))"

definition InitTimingParams :: "ini_reader \<Rightarrow> int \<Rightarrow> mem_timing" where
  "InitTimingParams r burst = (let geti = ini_int r ''timing'';
     al = geti ''AL'' 0; cl = geti ''CL'' 12; cwl = geti ''CWL'' 12; ccd_l = geti ''tCCD_L'' 6; ccd_s = geti ''tCCD_S'' 4;
     ras = geti ''tRAS'' 24; rp = geti ''tRP'' 10
   in \<lparr>AL = al, CL = cl, CWL = cwl, tCCD_L = ccd_l, tCCD_S = ccd_s, tRTRS = geti ''tRTRS'' 2, tRTP = geti ''tRTP'' 5,
       tWTR_L = geti ''tWTR_L'' 5, tWTR_S = geti ''tWTR_S'' 5, tWR = geti ''tWR'' 10, tRP = rp, tRRD_L = geti ''tRRD_L'' 4,
       tRRD_S = geti ''tRRD_S'' 4, tRAS = ras, tRCD = geti ''tRCD'' 10, tRFC = geti ''tRFC'' 74, tRC = ras + rp,
       tCKE = geti ''tCKE'' 6, tCKESR = geti ''tCKESR'' 12, tXS = geti ''tXS'' 432, tXP = geti ''tXP'' 8,
       tRFCb = geti ''tRFCb'' 20, tREFI = geti ''tREFI'' 7800, tREFIb = geti ''tREFIb'' 1950, tFAW = geti ''tFAW'' 50,
       tRPRE = geti ''tRPRE'' 1, tWPRE = geti ''tWPRE'' 1, tPPD = geti ''tPPD'' 0, t32AW = geti ''t32AW'' 330,
       tRCDRD = geti ''tRCDRD'' 24, tRCDWR = geti ''tRCDWR'' 20, ideal_memory_latency = geti ''ideal_memory_latency'' 10,
       RL = al + cl, WL = al + cwl, read_delay = al + cl + burst, write_delay = al + cwl + burst,
       gwrite_delay = (ccd_s + ccd_l) * 32\<rparr>)"

subsection \<open>The address mapping\<close>

text \<open>
  The fields of an address, from the last one of \<open>address_mapping\<close>, which gets the lowest bits.
\<close>

fun mapping_fields :: "string \<Rightarrow> string list" where
  "mapping_fields (a # b # s) = mapping_fields s @ [[a, b]]"
| "mapping_fields _ = []"

fun field_positions :: "(string \<times> nat) list \<Rightarrow> string list \<Rightarrow> nat \<Rightarrow> (string \<times> nat) list \<Rightarrow> fault + (string \<times> nat) list" where
  "field_positions widths [] pos acc = Inr acc"
| "field_positions widths (token # toks) pos acc = (case map_of widths token of
     None \<Rightarrow> Inl Exited
   | Some w \<Rightarrow> field_positions widths toks (pos + w) ((token, pos) # acc))"

definition map_at :: "(string \<times> nat) list \<Rightarrow> string \<Rightarrow> fault + nat" where
  "map_at m k = (case map_of m k of None \<Rightarrow> Inl Thrown | Some v \<Rightarrow> Inr v)"

text \<open>\<open>(1 << width) - 1\<close> is an \<open>int\<close>.\<close>

definition field_mask :: "nat \<Rightarrow> fault + u64" where
  "field_mask w = (if w < 31 then Inr (mask w) else Inl Undefined)"

definition field_widths :: "mem_structure \<Rightarrow> fault + (string \<times> nat) list" where
  "field_widths c = (let low = LogBase2 (BL c); col = LogBase2 (mc_columns c) in
     if col < low then Inl Undefined
     else Inr [(''ch'', LogBase2 (mc_channels c)), (''ra'', LogBase2 (mc_ranks c)), (''bg'', LogBase2 (mc_bankgroups c)),
       (''ba'', LogBase2 (mc_banks_per_group c)), (''ro'', LogBase2 (mc_rows c)), (''co'', col - low)])"

definition SetAddressMapping :: "mem_structure \<Rightarrow> string \<Rightarrow> fault + (int \<times> addr_fields)" where
  "SetAddressMapping c mapping =
     (let request_size = bus_width c sdiv 8 * BL c in
      bindE (field_widths c) (\<lambda>widths.
      if length mapping \<noteq> 12 then Inl Exited
      else bindE (field_positions widths (mapping_fields mapping) 0 []) (\<lambda>pos.
       bindE (map_at pos ''ch'') (\<lambda>ch. bindE (map_at pos ''ra'') (\<lambda>ra. bindE (map_at pos ''bg'') (\<lambda>bg.
       bindE (map_at pos ''ba'') (\<lambda>ba. bindE (map_at pos ''ro'') (\<lambda>ro. bindE (map_at pos ''co'') (\<lambda>co.
       bindE (bindE (map_at widths ''ch'') field_mask) (\<lambda>chm. bindE (bindE (map_at widths ''ra'') field_mask) (\<lambda>ram.
       bindE (bindE (map_at widths ''bg'') field_mask) (\<lambda>bgm. bindE (bindE (map_at widths ''ba'') field_mask) (\<lambda>bam.
       bindE (bindE (map_at widths ''ro'') field_mask) (\<lambda>rom. bindE (bindE (map_at widths ''co'') field_mask) (\<lambda>com.
         Inr (request_size, \<lparr>shift_bits = LogBase2 request_size, ch_pos = ch, ra_pos = ra, bg_pos = bg, ba_pos = ba,
           ro_pos = ro, co_pos = co, ch_mask = chm, ra_mask = ram, bg_mask = bgm, ba_mask = bam, ro_mask = rom,
           co_mask = com\<rparr>))))))))))))))))"

definition Config_new :: "ini_reader \<Rightarrow> fault + mem_config" where
  "Config_new r = bindE (InitSystemParams r) (\<lambda>(channel_size, channels, bus, sys).
     bindE (InitDRAMParams r channel_size channels bus) (\<lambda>c. bindE (CalculateSize c) (\<lambda>c.
     bindE (SetAddressMapping c (address_mapping sys)) (\<lambda>(request_size, f).
       Inr \<lparr>mc_structure = c, mc_system = sys, mc_timing = InitTimingParams r (burst_cycle c), mc_fields = f,
         request_size_bytes = request_size\<rparr>))))"

text \<open>A bank address: -1 in a field stands for all.\<close>

record Address =
  ad_channel :: int
  ad_rank :: int
  ad_bankgroup :: int
  ad_bank :: int
  ad_row :: int
  ad_column :: int

definition MakeAddress :: "addr_fields \<Rightarrow> i32 \<Rightarrow> i32 \<Rightarrow> i32 \<Rightarrow> i32 \<Rightarrow> i32 \<Rightarrow> i32 \<Rightarrow> u64" where
  "MakeAddress f channel rank bankgroup bank row col =
     push_bit (shift_bits f)
      (push_bit (ch_pos f) (scast channel AND ch_mask f) OR push_bit (ra_pos f) (scast rank AND ra_mask f)
       OR push_bit (bg_pos f) (scast bankgroup AND bg_mask f) OR push_bit (ba_pos f) (scast bank AND ba_mask f)
       OR push_bit (ro_pos f) (scast row AND ro_mask f) OR push_bit (co_pos f) (scast col AND co_mask f))"

definition addr_field :: "u64 \<Rightarrow> nat \<Rightarrow> u64 \<Rightarrow> int" where
  "addr_field a pos m = sint (ucast (drop_bit pos a AND m) :: i32)"

definition AddressMapping :: "addr_fields \<Rightarrow> u64 \<Rightarrow> Address" where
  "AddressMapping f hex_addr = (let a = drop_bit (shift_bits f) hex_addr in
     \<lparr>ad_channel = addr_field a (ch_pos f) (ch_mask f), ad_rank = addr_field a (ra_pos f) (ra_mask f),
      ad_bankgroup = addr_field a (bg_pos f) (bg_mask f), ad_bank = addr_field a (ba_pos f) (ba_mask f),
      ad_row = addr_field a (ro_pos f) (ro_mask f), ad_column = addr_field a (co_pos f) (co_mask f)\<rparr>)"

text \<open>\<open>EncodePIMHeader\<close>; the one of the NPU side is \<open>AddressConfig::encode_pim_header\<close>.\<close>

definition EncodePIMHeader :: "mem_config \<Rightarrow> i32 \<Rightarrow> i32 \<Rightarrow> bool \<Rightarrow> i32 \<Rightarrow> i32 \<Rightarrow> fault + u64" where
  "EncodePIMHeader c channel row for_gwrite num_comps num_readres =
     (let low = LogBase2 (BL (mc_structure c)); col = LogBase2 (mc_columns (mc_structure c)) in
      if col < low \<or> col - low > 30 then Inl Undefined
      else let gwrite_bit = (if for_gwrite then 1 else 0 :: i32);
               log_comps = push_bit (col - low) gwrite_bit + of_nat (LogBase2 (sint num_comps));
               log_readres = LogBase2 (sint num_readres)
           in Inr (MakeAddress (mc_fields c) channel (of_nat (log_readres div 16)) (of_nat (log_readres div 4) AND 3)
                (of_nat (log_readres mod 4)) row log_comps))"

definition GetChannel :: "addr_fields \<Rightarrow> u64 \<Rightarrow> int" where
  "GetChannel f hex_addr = addr_field (drop_bit (shift_bits f) hex_addr) (ch_pos f) (ch_mask f)"

subsection \<open>Both sides agree on the addresses\<close>

text \<open>
  The layout that the NPU side (\<open>AddressConfig\<close>) takes for granted: 64-byte requests, rows of 16
  requests, two ranks of four groups of four banks, \<open>2^c\<close> channels, \<open>2^15\<close> rows.
\<close>

definition npu_layout :: "nat \<Rightarrow> mem_structure \<Rightarrow> bool" where
  "npu_layout c s \<longleftrightarrow> mc_channels s = 2 ^ c \<and> mc_ranks s = 2 \<and> mc_bankgroups s = 4 \<and> mc_banks_per_group s = 4 \<and>
     mc_rows s = 2 ^ 15 \<and> bus_width s sdiv 8 * BL s = 64 \<and> LogBase2 (mc_columns s) = LogBase2 (BL s) + 4"

definition npu_fields :: "nat \<Rightarrow> addr_fields" where
  "npu_fields c = \<lparr>shift_bits = 6, ch_pos = 4, ra_pos = c + 8, bg_pos = c + 6, ba_pos = c + 4, ro_pos = c + 9, co_pos = 0,
     ch_mask = mask c, ra_mask = mask 1, bg_mask = mask 2, ba_mask = mask 2, ro_mask = mask 15, co_mask = mask 4\<rparr>"

lemma LogBase2_num [simp]: "LogBase2 2 = 1" "LogBase2 4 = 2" "LogBase2 64 = 6"
  using LogBase2_exp [of 1] LogBase2_exp [of 2] LogBase2_exp [of 6] by simp_all

lemma LogBase2_rows [simp]: "LogBase2 32768 = 15"
  using LogBase2_exp [of 15] by simp

lemma SetAddressMapping_npu:
  assumes "npu_layout c s" "c \<le> 30"
  shows "SetAddressMapping s ''rorabgbachco'' = Inr (64, npu_fields c)"
proof -
  have w: "field_widths s = Inr [(''ch'', c), (''ra'', 1), (''bg'', 2), (''ba'', 2), (''ro'', 15), (''co'', 4)]"
    using assms by (simp add: npu_layout_def field_widths_def)
  have m: "field_mask k = Inr (mask k)" if "k < 31" for k using that by (simp add: field_mask_def)
  have c: "c < 31" using assms by simp
  let ?w = "[(''ch'', c), (''ra'', 1), (''bg'', 2), (''ba'', 2), (''ro'', 15), (''co'', 4)]"
  let ?p = "[(''ro'', c + 9), (''ra'', c + 8), (''bg'', c + 6), (''ba'', c + 4), (''ch'', 4), (''co'', 0)]"
  have f: "mapping_fields ''rorabgbachco'' = [''co'', ''ch'', ''ba'', ''bg'', ''ra'', ''ro'']" by simp
  have p: "field_positions ?w [''co'', ''ch'', ''ba'', ''bg'', ''ra'', ''ro''] 0 [] = Inr ?p" by simp
  have wa: "map_at ?w ''ch'' = Inr c" "map_at ?w ''ra'' = Inr 1" "map_at ?w ''bg'' = Inr 2" "map_at ?w ''ba'' = Inr 2"
    "map_at ?w ''ro'' = Inr 15" "map_at ?w ''co'' = Inr 4" by (simp_all add: map_at_def)
  have pa: "map_at ?p ''ch'' = Inr 4" "map_at ?p ''ra'' = Inr (c + 8)" "map_at ?p ''bg'' = Inr (c + 6)"
    "map_at ?p ''ba'' = Inr (c + 4)" "map_at ?p ''ro'' = Inr (c + 9)" "map_at ?p ''co'' = Inr 0" by (simp_all add: map_at_def)
  have l: "length ''rorabgbachco'' = 12" by simp
  have ms: "field_mask c = Inr (mask c)" "field_mask 1 = Inr (mask 1)" "field_mask 2 = Inr (mask 2)" "field_mask 15 = Inr (mask 15)"
    "field_mask 4 = Inr (mask 4)" using c by (simp_all only: m)
  have sz: "bus_width s sdiv 8 * BL s = 64" using assms(1) by (simp add: npu_layout_def)
  show ?thesis
    by (simp only: SetAddressMapping_def Let_def w bindE_simps l f p wa pa ms sz LogBase2_num npu_fields_def not_True_eq_False if_False simp_thms)
qed

lemma addr_field_div: "w \<le> 30 \<Longrightarrow> addr_field a p (mask w) = int (unat a div 2 ^ p mod 2 ^ w)"
proof -
  assume w: "w \<le> 30"
  let ?x = "drop_bit p a AND mask w"
  have u: "unat ?x = unat a div 2 ^ p mod 2 ^ w"
    by (simp only: take_bit_eq_mask [symmetric] unsigned_take_bit_eq unat_drop_bit_eq) (simp add: drop_bit_eq_div take_bit_eq_mod)
  have le: "(2::nat) ^ w \<le> 2 ^ 30" using w by (rule power_increasing) simp
  have "unat ?x < 2 ^ w" by (simp add: u)
  then have b: "unat ?x < 2 ^ 30" using le by linarith
  then have "unat (ucast ?x :: i32) = unat ?x" by (simp add: unsigned_ucast_eq take_bit_nat_eq_self)
  with b sint_eq_unat_i32 [of "ucast ?x"] show ?thesis by (simp add: addr_field_def u)
qed

lemma addr_field_shift: "w \<le> 30 \<Longrightarrow> addr_field (drop_bit 6 a) p (mask w) = int (unat a div 64 div 2 ^ p mod 2 ^ w)"
  by (simp only: addr_field_div unat_drop_bit_eq) (simp add: drop_bit_eq_div)

lemma scast_and_mask: "unat (x :: i32) < 2 ^ w \<Longrightarrow> w \<le> 30 \<Longrightarrow> scast x AND mask w = (scast x :: u64)"
proof -
  assume x: "unat x < 2 ^ w" and w: "w \<le> 30"
  have le: "(2::nat) ^ w \<le> 2 ^ 30" using w by (rule power_increasing) simp
  then have "unat (scast x :: u64) < 2 ^ w" using x unat_scast_i32 [of x] by simp
  then show ?thesis using take_bit_word_id [of "scast x :: u64" w] by (simp add: take_bit_eq_mask)
qed

lemma MakeAddress_npu:
  assumes "sint n_ch = 2 ^ c" "c \<le> 30" "unat row < 2 ^ 15" "unat rank < 2" "unat bg < 4" "unat bank < 4"
    "unat ch < 2 ^ c" "unat col < 16"
  shows "MakeAddress (npu_fields c) ch rank bg bank row col = make_address n_ch ch rank bg bank row col"
proof -
  have col: "col AND 15 = col"
    using take_bit_word_id [of col 4] assms(8) by (simp add: take_bit_eq_mask mask_eq_exp_minus_1)
  have m: "scast ch AND mask c = (scast ch :: u64)" "scast rank AND mask 1 = (scast rank :: u64)" "scast bg AND mask 2 = (scast bg :: u64)"
    "scast bank AND mask 2 = (scast bank :: u64)" "scast row AND mask 15 = (scast row :: u64)" "scast col AND mask 4 = (scast col :: u64)"
    using assms scast_and_mask [of rank 1] by (simp_all add: scast_and_mask)
  show ?thesis
    unfolding MakeAddress_def make_address_def npu_fields_def Let_def assms(1) LogBase2_exp col addr_fields.simps m
    by (simp only: push_bit_or push_bit_push_bit or.left_neutral)
       (simp only: ac_simps add.commute numeral_plus_numeral arith_simps push_bit_0_id, simp add: add.commute)
qed

subsection \<open>Commands\<close>

text \<open>
  A command of the memory (NewtonSim/src/common.h).  The constructors leave some members
  uninitialised (the address of the empty command is -1 throughout); the model has 0 there.
\<close>

datatype CommandType = CT_READ | CT_READ_PRECHARGE | CT_WRITE | CT_WRITE_PRECHARGE | CT_ACTIVATE | CT_PRECHARGE
  | CT_REFRESH_BANK | CT_REFRESH | CT_SREF_ENTER | CT_SREF_EXIT | CT_GWRITE | CT_G_ACT | CT_COMP | CT_READRES
  | CT_PIM_PRECHARGE | CT_PWRITE | CT_P_HEADER | CT_COMPS_READRES | CT_SIZE

datatype TransactionType = TT_READ | TT_WRITE | TT_GWRITE | TT_COMP | TT_READRES | TT_P_HEADER | TT_COMPS_READRES
  | TT_PWRITE | TT_SIZE

record Transaction =
  tr_addr :: u64
  added_cycle :: u64
  complete_cycle :: u64
  tr_type :: TransactionType

record Command =
  cmd_type :: CommandType
  cmd_addr :: Address
  hex_addr :: u64
  for_gwrite :: bool
  is_last_comps :: bool
  num_comps :: int
  num_readres :: int

definition Address0 :: Address where
  "Address0 = \<lparr>ad_channel = - 1, ad_rank = - 1, ad_bankgroup = - 1, ad_bank = - 1, ad_row = - 1, ad_column = - 1\<rparr>"

definition Command0 :: Command where
  "Command0 = \<lparr>cmd_type = CT_SIZE, cmd_addr = Address0, hex_addr = 0, for_gwrite = False, is_last_comps = False, num_comps = 0,
     num_readres = 0\<rparr>"

definition Command_new :: "CommandType \<Rightarrow> Address \<Rightarrow> u64 \<Rightarrow> Command" where
  "Command_new ct a h = Command0\<lparr>cmd_type := ct, cmd_addr := a, hex_addr := h\<rparr>"

definition Command_comps :: "CommandType \<Rightarrow> Address \<Rightarrow> u64 \<Rightarrow> bool \<Rightarrow> int \<Rightarrow> Command" where
  "Command_comps ct a h is_last n = (Command_new ct a h)\<lparr>is_last_comps := is_last, num_comps := n\<rparr>"

definition Command_header :: "CommandType \<Rightarrow> Address \<Rightarrow> u64 \<Rightarrow> bool \<Rightarrow> int \<Rightarrow> int \<Rightarrow> Command" where
  "Command_header ct a h gw n r = (Command_new ct a h)\<lparr>for_gwrite := gw, num_comps := n, num_readres := r\<rparr>"

abbreviation cmd_row :: "Command \<Rightarrow> int" where "cmd_row c \<equiv> ad_row (cmd_addr c)"

definition IsValid :: "Command \<Rightarrow> bool" where "IsValid c \<longleftrightarrow> cmd_type c \<noteq> CT_SIZE"
definition IsRefresh :: "Command \<Rightarrow> bool" where "IsRefresh c \<longleftrightarrow> cmd_type c \<in> {CT_REFRESH, CT_REFRESH_BANK}"
definition IsRead :: "Command \<Rightarrow> bool" where "IsRead c \<longleftrightarrow> cmd_type c \<in> {CT_READ, CT_READ_PRECHARGE}"
definition IsWrite :: "Command \<Rightarrow> bool" where "IsWrite c \<longleftrightarrow> cmd_type c \<in> {CT_WRITE, CT_WRITE_PRECHARGE}"
definition IsReadWrite :: "Command \<Rightarrow> bool" where "IsReadWrite c \<longleftrightarrow> IsRead c \<or> IsWrite c"
definition IsRankCMD :: "Command \<Rightarrow> bool" where "IsRankCMD c \<longleftrightarrow> cmd_type c \<in> {CT_REFRESH, CT_SREF_ENTER, CT_SREF_EXIT}"
definition IsChannelCMD :: "Command \<Rightarrow> bool" where "IsChannelCMD c \<longleftrightarrow> cmd_type c \<in> {CT_COMP, CT_READRES, CT_COMPS_READRES}"
definition IsPIMHeader :: "Command \<Rightarrow> bool" where "IsPIMHeader c \<longleftrightarrow> cmd_type c = CT_P_HEADER"
definition IsGwrite :: "Command \<Rightarrow> bool" where "IsGwrite c \<longleftrightarrow> cmd_type c = CT_GWRITE"
definition IsCompsReadres :: "Command \<Rightarrow> bool" where "IsCompsReadres c \<longleftrightarrow> cmd_type c = CT_COMPS_READRES"

definition IsPIMCommand :: "Command \<Rightarrow> bool" where
  "IsPIMCommand c \<longleftrightarrow> cmd_type c \<in> {CT_GWRITE, CT_COMP, CT_READRES, CT_COMPS_READRES}"

definition PIMQCommand :: "Command \<Rightarrow> bool" where
  "PIMQCommand c \<longleftrightarrow> cmd_type c \<in> {CT_GWRITE, CT_COMP, CT_READRES, CT_P_HEADER, CT_COMPS_READRES}"

definition IsNormalBufferCommand :: "Command \<Rightarrow> bool" where
  "IsNormalBufferCommand c \<longleftrightarrow> cmd_type c \<in> {CT_READ, CT_READ_PRECHARGE, CT_WRITE, CT_WRITE_PRECHARGE, CT_ACTIVATE, CT_PRECHARGE,
     CT_REFRESH_BANK, CT_REFRESH, CT_SREF_ENTER, CT_SREF_EXIT, CT_GWRITE} \<or> (for_gwrite c \<and> cmd_type c = CT_P_HEADER)"

definition IsPIMBufferCommand :: "Command \<Rightarrow> bool" where
  "IsPIMBufferCommand c \<longleftrightarrow> cmd_type c \<in> {CT_G_ACT, CT_COMP, CT_READRES, CT_PIM_PRECHARGE, CT_PWRITE, CT_COMPS_READRES} \<or>
     (\<not> for_gwrite c \<and> cmd_type c = CT_P_HEADER)"

definition IsLastPIMCmd :: "Command \<Rightarrow> bool" where
  "IsLastPIMCmd c \<longleftrightarrow> is_last_comps c \<and> cmd_type c \<in> {CT_READRES, CT_COMPS_READRES}"

subsection \<open>Decoding\<close>

text \<open>
  The controller's side of the commands (NewtonSim/src/neupims_controller.cc): how the transaction of a
  header or of a computation is unpacked.  \<open>PrintError\<close> exits.
\<close>

definition bank_index :: "mem_structure \<Rightarrow> Address \<Rightarrow> int" where
  "bank_index s a = ad_rank a * mc_bankgroups s * mc_banks_per_group s + ad_bankgroup a * mc_banks_per_group s + ad_bank a"

definition DecodePIMHeader :: "mem_config \<Rightarrow> Transaction \<Rightarrow> fault + Command" where
  "DecodePIMHeader c tr = ast (tr_type tr = TT_P_HEADER)
     (let s = mc_structure c; addr = AddressMapping (mc_fields c) (tr_addr tr);
          low = LogBase2 (BL s); col = LogBase2 (mc_columns s)
      in if col \<le> low \<or> col - low - 1 > 30 then Inl Undefined
         else let bits = col - low - 1; bk_idx = bank_index s addr
         in if ad_column addr div 2 ^ bits = 1 then Inl Exited
            else if ad_column addr mod 2 ^ bits > 30 \<or> bk_idx < 0 \<or> bk_idx > 30 then Inl Undefined
            else Inr (Command_header CT_P_HEADER (addr\<lparr>ad_rank := - 1\<rparr>) (tr_addr tr) False
                   (2 ^ nat (ad_column addr mod 2 ^ bits)) (2 ^ nat bk_idx)))"

definition DecodePIMTransaction :: "mem_config \<Rightarrow> Transaction \<Rightarrow> fault + Command" where
  "DecodePIMTransaction c tr = ast (tr_type tr = TT_COMPS_READRES)
     (let addr = AddressMapping (mc_fields c) (tr_addr tr) in
      Inr (Command_comps CT_COMPS_READRES (addr\<lparr>ad_rank := - 1, ad_bankgroup := - 1, ad_bank := - 1\<rparr>) (tr_addr tr)
        (ad_column addr = 1) (bank_index (mc_structure c) addr + 1)))"

definition TransToCommand :: "mem_config \<Rightarrow> Transaction \<Rightarrow> fault + Command" where
  "TransToCommand c tr = ast (row_buf_policy (mc_system c) \<noteq> ''CLOSE_PAGE'')
     (let cmd = (\<lambda>ct. Inr (Command_new ct (AddressMapping (mc_fields c) (tr_addr tr)) (tr_addr tr))) in
      case tr_type tr of
        TT_READ \<Rightarrow> cmd CT_READ
      | TT_WRITE \<Rightarrow> cmd CT_WRITE
      | TT_GWRITE \<Rightarrow> cmd CT_GWRITE
      | TT_PWRITE \<Rightarrow> cmd CT_PWRITE
      | TT_COMP \<Rightarrow> Inl Exited
      | TT_READRES \<Rightarrow> Inl Exited
      | TT_P_HEADER \<Rightarrow> DecodePIMHeader c tr
      | TT_COMPS_READRES \<Rightarrow> DecodePIMTransaction c tr
      | TT_SIZE \<Rightarrow> Inl Undefined)"

subsection \<open>What one side packs the other side unpacks\<close>

lemma AddressMapping_npu:
  assumes a: "unat a = ((x * 2 ^ c + ch) * 16 + l) * 64" and b: "ch < 2 ^ c" "l < 16" "x < 2 ^ 20" and c: "c \<le> 30"
  shows "AddressMapping (npu_fields c) a = \<lparr>ad_channel = int ch, ad_rank = int (x div 16 mod 2), ad_bankgroup = int (x div 4 mod 4),
    ad_bank = int (x mod 4), ad_row = int (x div 32), ad_column = int l\<rparr>"
proof -
  let ?y = "(x * 2 ^ c + ch) * 16 + l"
  have y: "unat a div 64 = ?y" by (simp add: a)
  have d4: "?y div 2 ^ 4 = x * 2 ^ c + ch" using b by simp
  have dx: "?y div 2 ^ (c + 4) = x"
  proof -
    have "?y div 2 ^ (c + 4) = ?y div (2 ^ 4 * 2 ^ c)" by (simp only: power_add mult.commute)
    also have "\<dots> = (x * 2 ^ c + ch) div 2 ^ c" by (simp only: div_mult2_eq d4)
    finally show ?thesis using b(1) by simp
  qed
  have dp: "?y div 2 ^ (c + 4 + k) = x div 2 ^ k" for k
    by (simp only: power_add [of _ "c + 4"] div_mult2_eq dx)
  have f: "addr_field (drop_bit 6 a) p (mask w) = int (?y div 2 ^ p mod 2 ^ w)" if "w \<le> 30" for p w
    using addr_field_shift [OF that, of a p] by (simp only: y)
  have m: "ad_channel (AddressMapping (npu_fields c) a) = int (?y div 2 ^ 4 mod 2 ^ c)"
    "ad_rank (AddressMapping (npu_fields c) a) = int (?y div 2 ^ (c + 4 + 4) mod 2 ^ 1)"
    "ad_bankgroup (AddressMapping (npu_fields c) a) = int (?y div 2 ^ (c + 4 + 2) mod 2 ^ 2)"
    "ad_bank (AddressMapping (npu_fields c) a) = int (?y div 2 ^ (c + 4 + 0) mod 2 ^ 2)"
    "ad_row (AddressMapping (npu_fields c) a) = int (?y div 2 ^ (c + 4 + 5) mod 2 ^ 15)"
    "ad_column (AddressMapping (npu_fields c) a) = int (?y div 2 ^ 0 mod 2 ^ 4)"
    using c by (simp_all only: AddressMapping_def Let_def npu_fields_def addr_fields.simps Address.simps f [symmetric]) (simp_all add: add.commute)
  have "x div 32 < 2 ^ 15" using b(3) by (simp add: less_mult_imp_div_less)
  moreover have "?y div 2 ^ 0 mod 2 ^ 4 = l" using b(2) mod_mult_self3 [of "x * 2 ^ c + ch" 16 l] by simp
  ultimately show ?thesis using b(1) m unfolding dp d4 by (intro Address.equality) simp_all
qed

lemma make_address_AddressMapping:
  assumes "sint n_ch = 2 ^ c" "c \<le> 30" "unat row < 2 ^ 15" "unat rank < 2" "unat bg < 4" "unat bank < 4"
    "unat ch < 2 ^ c" "unat col < 16"
  shows "AddressMapping (npu_fields c) (make_address n_ch ch rank bg bank row col) =
    \<lparr>ad_channel = sint ch, ad_rank = sint rank, ad_bankgroup = sint bg, ad_bank = sint bank, ad_row = sint row, ad_column = sint col\<rparr>"
proof -
  let ?x = "((unat row * 2 + unat rank) * 4 + unat bg) * 4 + unat bank"
  have s: "int (unat x) = sint x" if "unat x < 2 ^ 30" for x :: i32 using that sint_eq_unat_i32 [of x] by simp
  have "(2::nat) ^ c \<le> 2 ^ 30" using assms(2) by (rule power_increasing) simp
  then have ch: "unat ch < 2 ^ 30" using assms(7) by linarith
  have d: "(y * 4 + b) div 4 = y" "(y * 4 + b) mod 4 = b" if "b < 4" for y b :: nat using that by simp_all
  have d2: "(y * 2 + b) div 2 = y" "(y * 2 + b) mod 2 = b" if "b < 2" for y b :: nat using that by simp_all
  have x4: "?x div 4 = (unat row * 2 + unat rank) * 4 + unat bg" "?x mod 4 = unat bank" by (rule d [OF assms(6)])+
  have x16: "?x div 16 = unat row * 2 + unat rank" using div_mult2_eq [of ?x 4 4] x4 d assms(5) by simp
  have x32: "?x div 32 = unat row" using div_mult2_eq [of ?x 16 2] x16 d2 assms(4) by simp
  have "?x < 2 ^ 20" using assms by simp
  from AddressMapping_npu [OF unat_make_address [OF assms] assms(7,8) this assms(2)] show ?thesis
    unfolding x4 x16 x32 d(2) [OF assms(5)] d2(2) [OF assms(4)] using assms s ch by simp
qed

text \<open>
  C21: The two sides of the memory interface agree on every address, not only on the one the constructor
  of \<open>PIM\<close> compares.  For the layout of the repository's memory, \<open>AddressConfig::make_address\<close>
  and \<open>Config::MakeAddress\<close> pack fields in range into the same address, \<open>AddressMapping\<close> takes it
  apart again, and the channel that a core queues a request for is the channel of the memory, so that
  the assertion in \<open>PIM::push\<close> cannot fail.
\<close>

theorem address_maps_agree:
  assumes "npu_layout c s" "sint n_ch = 2 ^ c" "c \<le> 30"
  shows "\<exists>f. SetAddressMapping s ''rorabgbachco'' = Inr (64, f) \<and>
    (\<forall>ch rank bg bank row col. unat row < 2 ^ 15 \<and> unat rank < 2 \<and> unat bg < 4 \<and> unat bank < 4 \<and> unat ch < 2 ^ c \<and> unat col < 16 \<longrightarrow>
       MakeAddress f ch rank bg bank row col = make_address n_ch ch rank bg bank row col \<and>
       AddressMapping f (make_address n_ch ch rank bg bank row col) = \<lparr>ad_channel = sint ch, ad_rank = sint rank, ad_bankgroup = sint bg,
         ad_bank = sint bank, ad_row = sint row, ad_column = sint col\<rparr>) \<and>
    (\<forall>a. GetChannel f a = int (unat (mask_channel (mask c) a)))"
proof -
  have g: "GetChannel (npu_fields c) a = int (unat (mask_channel (mask c) a))" for a
  proof -
    let ?x = "drop_bit 10 a AND mask c :: addr_type"
    have u: "unat ?x = unat a div 2 ^ 10 mod 2 ^ c"
      by (simp only: take_bit_eq_mask [symmetric] unsigned_take_bit_eq unat_drop_bit_eq) (simp add: drop_bit_eq_div take_bit_eq_mod)
    have le: "(2::nat) ^ c \<le> 2 ^ 30" using assms(3) by (rule power_increasing) simp
    have "unat ?x < 2 ^ c" by (simp add: u)
    then have "unat ?x < 2 ^ 30" using le by linarith
    then have "unat (mask_channel (mask c) a) = unat ?x"
      by (simp add: mask_channel_def unsigned_ucast_eq take_bit_nat_eq_self)
    moreover have "GetChannel (npu_fields c) a = int (unat a div 64 div 2 ^ 4 mod 2 ^ c)"
      using addr_field_shift [OF assms(3), of a 4] by (simp add: GetChannel_def npu_fields_def)
    moreover have "unat a div 64 div 2 ^ 4 = unat a div 2 ^ 10" by (simp flip: div_mult2_eq)
    ultimately show ?thesis by (simp only: u)
  qed
  show ?thesis
    by (rule exI [of _ "npu_fields c"])
      (use SetAddressMapping_npu [OF assms(1,3)] MakeAddress_npu [OF assms(2,3)] make_address_AddressMapping [OF assms(2,3)] g in blast)
qed

lemma bank_index_npu:
  "npu_layout c s \<Longrightarrow> bank_index s \<lparr>ad_channel = ch, ad_rank = int (x div 16 mod 2), ad_bankgroup = int (x div 4 mod 4),
     ad_bank = int (x mod 4), ad_row = r, ad_column = l\<rparr> = int (x mod 32)"
proof -
  assume n: "npu_layout c s"
  have "x mod 32 = x div 16 mod 2 * 16 + (x div 4 mod 4) * 4 + x mod 4"
  proof -
    have "x mod 32 = 16 * (x div 16 mod 2) + x mod 16" using mod_mult2_eq [of x 16 2] by simp
    moreover have "x mod 16 = 4 * (x div 4 mod 4) + x mod 4" using mod_mult2_eq [of x 4 4] by simp
    ultimately show ?thesis by simp
  qed
  then show ?thesis using n by (simp add: bank_index_def npu_layout_def)
qed

text \<open>
  C17: The computation commands survive the way to the memory: the controller decodes the address that
  \<open>encode_pim_comps_readres\<close> made into a command with the same channel, row, number of computations
  and last-command flag.
\<close>

theorem pim_comps_roundtrip:
  assumes "npu_layout c (mc_structure m)" "mc_fields m = npu_fields c" "row_buf_policy (mc_system m) = ''OPEN_PAGE''"
    and "sint n_ch = 2 ^ c" "c \<le> 30" "unat row < 2 ^ 15" "unat ch < 2 ^ c" "1 \<le> unat n" "unat n \<le> 32"
    and "encode_pim_comps_readres n_ch ch row n lst = Inr a"
  shows "\<exists>cmd. TransToCommand m \<lparr>tr_addr = a, added_cycle = t0, complete_cycle = t1, tr_type = TT_COMPS_READRES\<rparr> = Inr cmd \<and>
    cmd_type cmd = CT_COMPS_READRES \<and> hex_addr cmd = a \<and> num_comps cmd = sint n \<and> is_last_comps cmd = lst \<and>
    cmd_addr cmd = Address0\<lparr>ad_channel := sint ch, ad_row := sint row, ad_column := (if lst then 1 else 0)\<rparr>"
proof -
  have a: "unat a = (((unat row * 32 + (unat n - 1)) * 2 ^ c + unat ch) * 16 + (if lst then 1 else 0)) * 64"
    using unat_encode_comps [OF assms(4-9), of lst] assms(10) by (metis Inr_inject)
  define x where "x = unat row * 32 + (unat n - 1)"
  have n: "unat n - 1 < 32" using assms(8,9) by simp
  have x: "x < 2 ^ 20" "x div 32 = unat row" "x mod 32 = unat n - 1"
    unfolding x_def using assms(6) n radix_div_mod [OF n] by simp_all
  note map = AddressMapping_npu [OF a [folded x_def] assms(7) _ x(1) assms(5)]
  have le: "(2::nat) ^ c \<le> 2 ^ 30" using assms(5) by (rule power_increasing) simp
  have s: "int (unat row) = sint row" "int (unat ch) = sint ch" "int (unat n) = sint n"
    using sint_eq_unat_i32 [of row] sint_eq_unat_i32 [of ch] sint_eq_unat_i32 [of n] assms(6-9) le by simp_all
  have "int (unat n - 1) + 1 = sint n" using s(3) assms(8) by simp
  then show ?thesis using map s
    by (simp add: TransToCommand_def assms(2,3) DecodePIMTransaction_def Let_def bank_index_npu [OF assms(1)] x Command_comps_def
        Command_new_def Command0_def Address0_def)
qed

lemma LogBase2_less: "1 \<le> p \<Longrightarrow> p < 2 ^ k \<Longrightarrow> LogBase2 p < k"
proof -
  assume p: "1 \<le> p" "p < 2 ^ k"
  have "(2::int) ^ LogBase2 p < 2 ^ k" using LogBase2_bounds [OF p(1)] p(2) by linarith
  then show ?thesis by simp
qed

lemma LogBase2_ge: "2 ^ k \<le> p \<Longrightarrow> k \<le> LogBase2 p"
proof -
  assume p: "2 ^ k \<le> p"
  have "1 \<le> (2::int) ^ k" by simp
  then have "1 \<le> p" using p by linarith
  from LogBase2_bounds [OF this] have "(2::int) ^ k < 2 ^ (LogBase2 p + 1)" using p by linarith
  then show ?thesis by (simp del: power_Suc)
qed

lemma unat_of_nat_i32: "n < 2 ^ 31 \<Longrightarrow> unat (of_nat n :: i32) = n"
  by (simp add: unat_of_nat take_bit_nat_eq_self)

lemma header_fields:
  assumes "L < 31"
  shows "unat (of_nat (L div 16) :: i32) = L div 16" "unat (of_nat (L div 4) AND 3 :: i32) = L div 4 mod 4"
    "unat (of_nat (L mod 4) :: i32) = L mod 4"
proof -
  show "unat (of_nat (L div 16) :: i32) = L div 16" "unat (of_nat (L mod 4) :: i32) = L mod 4"
    using assms by (simp_all add: unat_of_nat_i32)
  have "(3 :: i32) = 4 - 1" by simp
  then have "unat (of_nat (L div 4) AND 3 :: i32) = unat (of_nat (L div 4) :: i32) mod 4"
    using and_mask_mod [of "4 :: i32" 2 "of_nat (L div 4)"] by simp
  also have "unat (of_nat (L div 4) :: i32) = L div 4" using assms by (simp add: unat_of_nat_i32)
  finally show "unat (of_nat (L div 4) AND 3 :: i32) = L div 4 mod 4" .
qed

text \<open>
  C24: A GEMV header reaches the memory rounded: the controller decodes the channel and the row that
  \<open>encode_pim_header\<close> packed, but the numbers of computations and of results only up to the power of
  two below them.  From 256 computations on, the exponent runs into the bit of the deprecated
  \<open>GWRITE\<close> header, and the controller exits.
\<close>

theorem pim_header_roundtrip:
  assumes "npu_layout c (mc_structure m)" "mc_fields m = npu_fields c" "row_buf_policy (mc_system m) = ''OPEN_PAGE''"
    and "sint n_ch = 2 ^ c" "c \<le> 30" "unat row < 2 ^ 15" "unat ch < 2 ^ c" "1 \<le> sint n" "sint n < 2 ^ 16" "1 \<le> sint r"
  shows "let tr = \<lparr>tr_addr = encode_pim_header n_ch ch row False n r, added_cycle = t0, complete_cycle = t1, tr_type = TT_P_HEADER\<rparr>
    in if sint n < 256
       then \<exists>cmd. TransToCommand m tr = Inr cmd \<and> cmd_type cmd = CT_P_HEADER \<and> \<not> for_gwrite cmd \<and>
         ad_channel (cmd_addr cmd) = sint ch \<and> cmd_row cmd = sint row \<and>
         num_comps cmd = 2 ^ LogBase2 (sint n) \<and> num_readres cmd = 2 ^ LogBase2 (sint r)
       else TransToCommand m tr = Inl Exited"
proof -
  define L where "L = LogBase2 (sint r)"
  define N where "N = LogBase2 (sint n)"
  let ?a = "encode_pim_header n_ch ch row False n r"
  have "sint r < 2 ^ 31" using sint_lt [of r] by simp
  then have L: "L < 31" unfolding L_def by (rule LogBase2_less [OF assms(10)])
  have N: "N < 16" unfolding N_def by (rule LogBase2_less [OF assms(8,9)])
  have N8: "N < 8 \<longleftrightarrow> sint n < 256" using LogBase2_less [OF assms(8), of 8] LogBase2_ge [of 8 "sint n"]
    by (cases "sint n < 256") (simp_all add: N_def)
  have uN: "unat (of_nat N :: i32) = N" using N by (simp add: unat_of_nat_i32)
  have sN: "sint (of_nat N :: i32) = int N" using sint_eq_unat_i32 [of "of_nat N"] uN N by simp
  note hf = header_fields [OF L]
  have a: "?a = make_address n_ch ch (of_nat (L div 16)) (of_nat (L div 4) AND 3) (of_nat (L mod 4)) row (of_nat N)"
    by (simp add: encode_pim_header_def L_def N_def Let_def)
  have s: "sint (of_nat (L div 16) :: i32) = int (L div 16)" "sint (of_nat (L div 4) AND 3 :: i32) = int (L div 4 mod 4)"
    "sint (of_nat (L mod 4) :: i32) = int (L mod 4)"
    using hf sint_eq_unat_i32 [of "of_nat (L div 16)"] sint_eq_unat_i32 [of "of_nat (L div 4) AND 3"]
      sint_eq_unat_i32 [of "of_nat (L mod 4)"] L by simp_all
  have L16: "L div 16 = L div 16 mod 2" using L by simp
  have map: "AddressMapping (npu_fields c) ?a = \<lparr>ad_channel = sint ch, ad_rank = int (L div 16 mod 2), ad_bankgroup = int (L div 4 mod 4),
      ad_bank = int (L mod 4), ad_row = sint row, ad_column = int N\<rparr>"
    unfolding a using make_address_AddressMapping [OF assms(4,5,6), of "of_nat (L div 16)" "of_nat (L div 4) AND 3" "of_nat (L mod 4)" ch "of_nat N"]
      hf L N uN assms(7) by (simp only: s sN L16 [symmetric])
  have bits: "LogBase2 (mc_columns (mc_structure m)) = LogBase2 (BL (mc_structure m)) + 4" using assms(1) by (simp add: npu_layout_def)
  have d8: "int N div 2 ^ 3 = (if N < 8 then 0 else 1)"
  proof (cases "N < 8")
    case False
    then have "N = 8 + (N - 8)" "N - 8 < 8" using N by simp_all
    then have "int N div 8 = 1" by linarith
    then show ?thesis using False by simp
  qed simp
  have m8: "int N mod 2 ^ 3 = int N" if "N < 8" using that by simp
  have bk: "bank_index (mc_structure m) (AddressMapping (npu_fields c) ?a) = int L"
    using L by (simp only: map bank_index_npu [OF assms(1)]) simp
  have dec: "DecodePIMHeader m \<lparr>tr_addr = ?a, added_cycle = t0, complete_cycle = t1, tr_type = TT_P_HEADER\<rparr> =
      (if N < 8 then Inr (Command_header CT_P_HEADER ((AddressMapping (npu_fields c) ?a)\<lparr>ad_rank := - 1\<rparr>) ?a False (2 ^ N) (2 ^ L)) else Inl Exited)"
  proof (cases "N < 8")
    case True
    have "ad_column (AddressMapping (npu_fields c) ?a) = int N" by (simp add: map)
    with True show ?thesis using L bk d8 m8 [OF True] by (simp add: DecodePIMHeader_def Let_def assms(2) bits)
  next
    case False
    have "ad_column (AddressMapping (npu_fields c) ?a) = int N" by (simp add: map)
    with False show ?thesis using d8 by (simp add: DecodePIMHeader_def Let_def assms(2) bits)
  qed
  show ?thesis
    by (simp add: TransToCommand_def assms(3) dec N8 [symmetric] Let_def map Command_header_def Command_new_def L_def [symmetric] N_def [symmetric])
qed

text \<open>
  The memory of the repository's configuration (configs/HBM2\<open>_\<close>8Gb\<open>_\<close>x128\<open>_\<close>dualpim.ini).
\<close>

definition ini_table :: "(string \<times> int) list \<Rightarrow> (string \<times> string) list \<Rightarrow> ini_reader" where
  "ini_table is ss = \<lparr>ini_get = (\<lambda>_ k d. case map_of ss k of None \<Rightarrow> d | Some v \<Rightarrow> v),
     ini_int = (\<lambda>_ k d. case map_of is k of None \<Rightarrow> d | Some v \<Rightarrow> v), ini_bool = (\<lambda>_ k d. if k = ''hbm_dual_cmd'' then False else d)\<rparr>"

definition hbm2_ini :: ini_reader where
  "hbm2_ini = ini_table
     [(''bankgroups'', 4), (''banks_per_group'', 4), (''rows'', 32768), (''columns'', 64), (''device_width'', 128), (''BL'', 4),
      (''num_dies'', 4), (''CL'', 14), (''CWL'', 4), (''tRCDRD'', 14), (''tRCDWR'', 14), (''tRP'', 14), (''tRAS'', 34), (''tRFC'', 260),
      (''tREFI'', 3900), (''tREFIb'', 128), (''tRPRE'', 1), (''tWPRE'', 1), (''tRRD_S'', 4), (''tRRD_L'', 6), (''tWTR_S'', 6),
      (''tWTR_L'', 8), (''tFAW'', 30), (''tWR'', 16), (''tCCD_S'', 1), (''tCCD_L'', 2), (''tXS'', 268), (''tCKE'', 8), (''tXP'', 8),
      (''channel_size'', 1024), (''channels'', 32), (''bus_width'', 128), (''cmd_queue_size'', 128), (''trans_queue_size'', 32)]
     [(''protocol'', ''HBM''), (''pim_type'', ''DUAL''), (''address_mapping'', ''rorabgbachco''), (''queue_structure'', ''PER_BANK''),
      (''row_buf_policy'', ''OPEN_PAGE'')]"

definition hbm2_config :: mem_config where
  "hbm2_config = (case Config_new hbm2_ini of Inl _ \<Rightarrow> undefined | Inr m \<Rightarrow> m)"

definition hbm2_ok :: bool where
  "hbm2_ok = (case Config_new hbm2_ini of Inl _ \<Rightarrow> False | Inr m \<Rightarrow> npu_layout 5 (mc_structure m) \<and> mc_fields m = npu_fields 5 \<and>
     row_buf_policy (mc_system m) = ''OPEN_PAGE'' \<and> address_mapping (mc_system m) = ''rorabgbachco'')"

lemma hbm2_ok: hbm2_ok
  by code_simp

lemma hbm2_config: "npu_layout 5 (mc_structure hbm2_config)" "mc_fields hbm2_config = npu_fields 5"
  "row_buf_policy (mc_system hbm2_config) = ''OPEN_PAGE''"
  using hbm2_ok by (auto simp: hbm2_ok_def hbm2_config_def split: sum.splits)

theorem address_maps_agree_witness:
  "\<exists>f. SetAddressMapping (mc_structure hbm2_config) ''rorabgbachco'' = Inr (64, f) \<and>
     MakeAddress f 3 1 2 3 300 10 = make_address 32 3 1 2 3 300 10 \<and> GetChannel f 4096 = 4"
proof -
  have n: "sint (32 :: u32) = 2 ^ 5" by simp
  obtain f where f: "SetAddressMapping (mc_structure hbm2_config) ''rorabgbachco'' = Inr (64, f)"
    "MakeAddress f 3 1 2 3 300 10 = make_address 32 3 1 2 3 300 10" "GetChannel f 4096 = int (unat (mask_channel (mask 5) 4096))"
    using address_maps_agree [OF hbm2_config(1) n] by auto
  have "unat (mask_channel (mask 5) 4096) = 4" by code_simp
  then show ?thesis using f by simp
qed

theorem pim_comps_roundtrip_witness:
  "\<exists>a cmd. encode_pim_comps_readres 32 3 300 17 True = Inr a \<and>
     TransToCommand hbm2_config \<lparr>tr_addr = a, added_cycle = 0, complete_cycle = 0, tr_type = TT_COMPS_READRES\<rparr> = Inr cmd \<and>
     num_comps cmd = 17 \<and> is_last_comps cmd"
proof -
  have n: "sint (32 :: u32) = 2 ^ 5" by simp
  obtain a where a: "encode_pim_comps_readres 32 3 300 17 True = Inr a"
    using unat_encode_comps [OF n, of 300 3 17 True] by auto
  have "\<exists>cmd. TransToCommand hbm2_config \<lparr>tr_addr = a, added_cycle = 0, complete_cycle = 0, tr_type = TT_COMPS_READRES\<rparr> = Inr cmd \<and>
     cmd_type cmd = CT_COMPS_READRES \<and> hex_addr cmd = a \<and> num_comps cmd = sint (17 :: i32) \<and> is_last_comps cmd = True \<and>
     cmd_addr cmd = Address0\<lparr>ad_channel := sint (3 :: i32), ad_row := sint (300 :: i32), ad_column := (if True then 1 else 0)\<rparr>"
    by (rule pim_comps_roundtrip [OF hbm2_config n _ _ _ _ _ a]) simp_all
  then show ?thesis using a by auto
qed

theorem pim_header_roundtrip_witness:
  "\<exists>cmd. TransToCommand hbm2_config \<lparr>tr_addr = encode_pim_header 32 3 300 False 20 5, added_cycle = 0, complete_cycle = 0,
       tr_type = TT_P_HEADER\<rparr> = Inr cmd \<and> num_comps cmd = 16 \<and> num_readres cmd = 4"
proof -
  have n: "sint (32 :: u32) = 2 ^ 5" by simp
  have l: "LogBase2 20 = 4" "LogBase2 5 = 2" by (simp_all add: LogBase2_rec)
  have "sint (20 :: i32) = 20" "sint (5 :: i32) = 5" by simp_all
  then show ?thesis
    using pim_header_roundtrip [OF hbm2_config n, of 300 3 20 5 0 0] l by (auto simp: Let_def)
qed

end
