(* ===== verification/MemBank.thy ===== *)
theory MemBank
  imports MemConfig
begin

text \<open>
  A bank of the memory (NewtonSim/src/bankstate.h, bankstate.cc): the state machine of its row buffer
  and, with dual buffers, of the second row buffer for the computations in memory.
\<close>

subsection \<open>State\<close>

datatype row_state = RS_OPEN | RS_CLOSED | RS_SREF | RS_PD | RS_SIZE

record BankState =
  bs_dual_buffer :: bool
  bs_state :: row_state
  pim_state :: row_state
  pim_lock :: bool
  cmd_timing :: "CommandType \<Rightarrow> u64"
  open_row :: int
  pim_open_row :: int
  row_hit_count :: int
  pim_enter_count :: int

definition BankState_new :: "bool \<Rightarrow> BankState" where
  "BankState_new dual = \<lparr>bs_dual_buffer = dual, bs_state = RS_CLOSED, pim_state = RS_CLOSED, pim_lock = False,
     cmd_timing = (\<lambda>_. 0), open_row = - 1, pim_open_row = - 1, row_hit_count = 0, pim_enter_count = 0\<rparr>"

definition IsRowOpen :: "BankState \<Rightarrow> bool" where "IsRowOpen b \<longleftrightarrow> bs_state b = RS_OPEN"
definition IsPIMUsed :: "BankState \<Rightarrow> bool" where "IsPIMUsed b \<longleftrightarrow> pim_state b = RS_OPEN"

definition PIMOpenRow :: "BankState \<Rightarrow> int" where
  "PIMOpenRow b = (if bs_dual_buffer b then pim_open_row b else open_row b)"

subsection \<open>The command that must come first\<close>

text \<open>
  The three functions find the command required before \<open>cmd\<close>: \<open>None\<close> where the code returns the
  empty command, \<open>Some None\<close> where it returns \<open>cmd\<close> itself without a check of the timing.
  \<open>PrintError\<close> and \<open>AbruptExit\<close> leave the program.
\<close>

definition required_pim :: "Command \<Rightarrow> BankState \<Rightarrow> fault + CommandType option option" where
  "required_pim cmd b = (let ct = cmd_type cmd in case pim_state b of
       RS_CLOSED \<Rightarrow>
         (if ct = CT_PWRITE then Inr None
          else if ct = CT_P_HEADER then
            Inr (Some (if bs_state b = RS_OPEN \<and> cmd_row cmd = open_row b then Some CT_PRECHARGE else None))
          else if ct = CT_G_ACT then
            (if bs_state b = RS_OPEN \<and> cmd_row cmd = open_row b then Inl Exited else Inr (Some (Some CT_G_ACT)))
          else if ct = CT_COMP \<or> ct = CT_COMPS_READRES then Inr (Some (Some CT_G_ACT))
          else Inl Exited)
     | RS_OPEN \<Rightarrow>
         (if ct = CT_PWRITE then Inr (if cmd_row cmd = pim_open_row b then Some (Some CT_PWRITE) else None)
          else if ct \<in> {CT_REFRESH, CT_REFRESH_BANK, CT_SREF_ENTER} then Inr (Some (Some CT_PIM_PRECHARGE))
          else if ct = CT_P_HEADER then
            Inr (Some (if cmd_row cmd = pim_open_row b then None else Some CT_PIM_PRECHARGE))
          else if ct = CT_G_ACT then Inl Exited
          else if ct \<in> {CT_PIM_PRECHARGE, CT_COMP, CT_READRES, CT_COMPS_READRES} then Inr (Some (Some ct))
          else Inl Exited)
     | RS_SREF \<Rightarrow> (if ct \<in> {CT_P_HEADER, CT_GWRITE, CT_G_ACT} then Inr (Some (Some CT_SREF_EXIT)) else Inl Exited)
     | RS_PD \<Rightarrow> Inl Exited
     | RS_SIZE \<Rightarrow> Inl Exited)"

definition required_normal :: "Command \<Rightarrow> BankState \<Rightarrow> fault + CommandType option option" where
  "required_normal cmd b = (let ct = cmd_type cmd in case bs_state b of
       RS_CLOSED \<Rightarrow>
         (if ct = CT_P_HEADER then
            Inr (Some (if pim_state b = RS_OPEN \<and> pim_open_row b = cmd_row cmd then Some CT_PIM_PRECHARGE else None))
          else if ct \<in> {CT_READ, CT_WRITE, CT_GWRITE} then
            Inr (Some (Some (if pim_state b = RS_OPEN \<and> cmd_row cmd = pim_open_row b then CT_PIM_PRECHARGE else CT_ACTIVATE)))
          else if ct = CT_REFRESH then
            Inr (Some (Some (if pim_state b = RS_CLOSED then CT_REFRESH else CT_PIM_PRECHARGE)))
          else Inl Exited)
     | RS_OPEN \<Rightarrow>
         (if ct = CT_P_HEADER then Inr (Some (if open_row b = cmd_row cmd then None else Some CT_PRECHARGE))
          else if ct \<in> {CT_READ, CT_WRITE, CT_GWRITE} then
            Inr (Some (Some (if cmd_row cmd = open_row b then ct else CT_PRECHARGE)))
          else if ct = CT_REFRESH then Inr (Some (Some CT_PRECHARGE))
          else Inl Exited)
     | _ \<Rightarrow> Inl Exited)"

definition required_single :: "Command \<Rightarrow> BankState \<Rightarrow> fault + CommandType option option" where
  "required_single cmd b = (let ct = cmd_type cmd in case bs_state b of
       RS_CLOSED \<Rightarrow>
         (if ct \<in> {CT_READ, CT_WRITE, CT_GWRITE} then Inr (Some (Some CT_ACTIVATE))
          else if ct = CT_P_HEADER then Inr (Some None)
          else if ct \<in> {CT_G_ACT, CT_REFRESH} then Inr (Some (Some ct))
          else if ct = CT_COMP then Inr (Some (Some CT_G_ACT))
          else Inl Exited)
     | RS_OPEN \<Rightarrow>
         (if ct \<in> {CT_READ, CT_WRITE} then
            (if pim_lock b then Inl Exited else Inr (Some (Some (if cmd_row cmd = open_row b then ct else CT_PRECHARGE))))
          else if ct = CT_P_HEADER then Inr (Some (if cmd_row cmd = open_row b then None else Some CT_PRECHARGE))
          else if ct = CT_GWRITE then Inr (Some (Some (if cmd_row cmd = open_row b then ct else CT_PRECHARGE)))
          else if ct = CT_REFRESH then Inr (Some (Some CT_PRECHARGE))
          else if ct \<in> {CT_COMP, CT_READRES} then Inr (Some (Some ct))
          else Inl Exited)
     | RS_SREF \<Rightarrow> Inl Thrown
     | _ \<Rightarrow> Inl Exited)"

text \<open>The required command, if its time has come; \<open>keep\<close>: the flags of \<open>COMPS_READRES\<close> are copied.\<close>

definition when_ready :: "bool \<Rightarrow> Command \<Rightarrow> u64 \<Rightarrow> BankState \<Rightarrow> CommandType option option \<Rightarrow> Command" where
  "when_ready keep cmd clk b r = (case r of
       None \<Rightarrow> Command0
     | Some None \<Rightarrow> cmd
     | Some (Some ct) \<Rightarrow>
         if ct \<noteq> CT_SIZE \<and> clk \<ge> cmd_timing b ct
         then (if keep then Command_comps ct (cmd_addr cmd) (hex_addr cmd) (is_last_comps cmd) (num_comps cmd)
               else Command_new ct (cmd_addr cmd) (hex_addr cmd))
         else Command0)"

definition Bank_GetReadyCommand :: "Command \<Rightarrow> u64 \<Rightarrow> BankState \<Rightarrow> fault + Command" where
  "Bank_GetReadyCommand cmd clk b =
     (if \<not> bs_dual_buffer b then bindE (required_single cmd b) (\<lambda>r. Inr (when_ready True cmd clk b r))
      else if IsPIMBufferCommand cmd then bindE (required_pim cmd b) (\<lambda>r. Inr (when_ready True cmd clk b r))
      else if IsNormalBufferCommand cmd then bindE (required_normal cmd b) (\<lambda>r. Inr (when_ready False cmd clk b r))
      else Inl Exited)"

subsection \<open>The effect of a command\<close>

definition UpdateNormalState :: "Command \<Rightarrow> BankState \<Rightarrow> fault + BankState" where
  "UpdateNormalState cmd b = (let ct = cmd_type cmd in case bs_state b of
       RS_OPEN \<Rightarrow>
         (if ct \<in> {CT_READ, CT_WRITE} then Inr (b\<lparr>row_hit_count := row_hit_count b + 1\<rparr>)
          else if ct = CT_GWRITE then Inr b
          else if ct = CT_PRECHARGE then Inr (b\<lparr>bs_state := RS_CLOSED, open_row := - 1, row_hit_count := 0\<rparr>)
          else Inl Exited)
     | RS_CLOSED \<Rightarrow>
         (if ct = CT_REFRESH then (if pim_state b = RS_CLOSED then Inr b else Inl Exited)
          else if ct = CT_REFRESH_BANK then Inr b
          else if ct = CT_ACTIVATE then Inr (b\<lparr>bs_state := RS_OPEN, open_row := cmd_row cmd\<rparr>)
          else if ct = CT_SREF_ENTER then Inr (b\<lparr>bs_state := RS_SREF\<rparr>)
          else Inl Exited)
     | _ \<Rightarrow> Inl Exited)"

definition UpdatePIMState :: "Command \<Rightarrow> BankState \<Rightarrow> fault + BankState" where
  "UpdatePIMState cmd b = (let ct = cmd_type cmd in case pim_state b of
       RS_OPEN \<Rightarrow>
         (if ct \<in> {CT_PWRITE, CT_COMP, CT_READRES, CT_COMPS_READRES} then Inr b
          else if ct = CT_PIM_PRECHARGE then Inr (b\<lparr>pim_state := RS_CLOSED, pim_open_row := - 1\<rparr>)
          else if ct = CT_G_ACT then Inr (b\<lparr>pim_open_row := cmd_row cmd\<rparr>)
          else Inl Exited)
     | RS_CLOSED \<Rightarrow>
         (if ct = CT_G_ACT then Inr (b\<lparr>pim_state := RS_OPEN, pim_open_row := cmd_row cmd\<rparr>) else Inl Exited)
     | _ \<Rightarrow> Inl Exited)"

definition UpdateStateSingle :: "Command \<Rightarrow> BankState \<Rightarrow> fault + BankState" where
  "UpdateStateSingle cmd b = (let ct = cmd_type cmd in case bs_state b of
       RS_OPEN \<Rightarrow>
         (if ct \<in> {CT_READ, CT_WRITE} then Inr (b\<lparr>row_hit_count := row_hit_count b + 1\<rparr>)
          else if ct = CT_READRES then Inr (b\<lparr>pim_lock := False\<rparr>)
          else if ct \<in> {CT_GWRITE, CT_COMP, CT_G_ACT} then Inr b
          else if ct = CT_PRECHARGE then Inr (b\<lparr>bs_state := RS_CLOSED, open_row := - 1, row_hit_count := 0\<rparr>)
          else Inl Exited)
     | RS_CLOSED \<Rightarrow>
         (if ct = CT_REFRESH then Inr b
          else if ct = CT_ACTIVATE then Inr (b\<lparr>bs_state := RS_OPEN, open_row := cmd_row cmd\<rparr>)
          else if ct = CT_SREF_ENTER then Inr (b\<lparr>bs_state := RS_SREF\<rparr>)
          else if ct = CT_G_ACT then Inr (b\<lparr>bs_state := RS_OPEN, open_row := cmd_row cmd, pim_lock := True,
              pim_enter_count := pim_enter_count b + 1\<rparr>)
          else Inl Exited)
     | _ \<Rightarrow> Inl Exited)"

definition Bank_UpdateState :: "Command \<Rightarrow> BankState \<Rightarrow> fault + BankState" where
  "Bank_UpdateState cmd b =
     (if IsPIMHeader cmd then Inl Exited
      else if \<not> bs_dual_buffer b then UpdateStateSingle cmd b
      else if IsPIMBufferCommand cmd then UpdatePIMState cmd b
      else if IsNormalBufferCommand cmd then UpdateNormalState cmd b
      else Inl Exited)"

definition Bank_UpdateTiming :: "CommandType \<Rightarrow> u64 \<Rightarrow> BankState \<Rightarrow> BankState" where
  "Bank_UpdateTiming ct time b = b\<lparr>cmd_timing := (cmd_timing b)(ct := max (cmd_timing b ct) time)\<rparr>"

subsection \<open>A bank accepts what it asked for\<close>

text \<open>
  What holds of a bank that has never been sent to self-refresh: a buffer is open on a row or closed,
  and the two buffers are never open on the same row.
\<close>

definition bank_inv :: "BankState \<Rightarrow> bool" where
  "bank_inv b \<longleftrightarrow> (bs_state b = RS_OPEN \<and> 0 \<le> open_row b \<or> bs_state b = RS_CLOSED \<and> open_row b = - 1)
     \<and> (pim_state b = RS_OPEN \<and> 0 \<le> pim_open_row b \<or> pim_state b = RS_CLOSED \<and> pim_open_row b = - 1)
     \<and> (bs_state b = RS_OPEN \<and> pim_state b = RS_OPEN \<longrightarrow> open_row b \<noteq> pim_open_row b)
     \<and> (bs_dual_buffer b \<or> pim_state b = RS_CLOSED)"

text \<open>What the header of a computation has made sure of before its computations are asked for.\<close>

definition row_free :: "Command \<Rightarrow> BankState \<Rightarrow> bool" where
  "row_free cmd b \<longleftrightarrow> \<not> (bs_dual_buffer b \<and> bs_state b = RS_OPEN \<and> open_row b = cmd_row cmd)"

lemma BankState_new_inv: "bank_inv (BankState_new dual)"
  by (simp add: bank_inv_def BankState_new_def)

lemma when_ready_valid:
  assumes "IsValid (when_ready keep cmd clk b r)"
  obtains "r = Some None" "when_ready keep cmd clk b r = cmd"
  | ct where "r = Some (Some ct)" "ct \<noteq> CT_SIZE" "cmd_timing b ct \<le> clk" "cmd_type (when_ready keep cmd clk b r) = ct"
    "cmd_addr (when_ready keep cmd clk b r) = cmd_addr cmd" "hex_addr (when_ready keep cmd clk b r) = hex_addr cmd"
    "\<not> for_gwrite (when_ready keep cmd clk b r)"
  using assms by (auto simp: when_ready_def IsValid_def Command0_def Command_comps_def Command_new_def split: option.splits if_splits)

lemmas command_classes = IsPIMHeader_def IsPIMBufferCommand_def IsNormalBufferCommand_def IsChannelCMD_def IsRankCMD_def

text \<open>The command a bank requires, in either mode.\<close>

definition required_cmd :: "Command \<Rightarrow> BankState \<Rightarrow> fault + CommandType option option" where
  "required_cmd cmd b =
     (if \<not> bs_dual_buffer b then required_single cmd b
      else if IsPIMBufferCommand cmd then required_pim cmd b
      else if IsNormalBufferCommand cmd then required_normal cmd b
      else Inl Exited)"

lemma GetReady_eq:
  "Bank_GetReadyCommand cmd clk b = bindE (required_cmd cmd b) (\<lambda>r.
     Inr (when_ready (\<not> bs_dual_buffer b \<or> IsPIMBufferCommand cmd) cmd clk b r))"
  by (simp add: Bank_GetReadyCommand_def required_cmd_def)

lemma GetReady_required:
  "Bank_GetReadyCommand cmd clk b = Inr c \<Longrightarrow>
     \<exists>keep r. required_cmd cmd b = Inr r \<and> c = when_ready keep cmd clk b r"
  by (auto simp: GetReady_eq)

lemma required_itself:
  assumes "required_cmd cmd b = Inr (Some None)" "bank_inv b"
  shows "cmd_type cmd = CT_P_HEADER" "row_free cmd b \<or> for_gwrite cmd"
    "\<not> for_gwrite cmd \<Longrightarrow> bs_dual_buffer b \<Longrightarrow> pim_state b = RS_CLOSED \<or> pim_open_row b = cmd_row cmd"
  using assms
  by (auto simp: required_cmd_def required_single_def required_pim_def required_normal_def Let_def row_free_def bank_inv_def
      command_classes split: if_splits row_state.splits)

lemma required_pim_cases:
  assumes "required_pim cmd b = Inr (Some (Some ct))" "bank_inv b"
  shows "pim_state b = RS_CLOSED \<and> ct = CT_PRECHARGE \<and> bs_state b = RS_OPEN
    \<or> pim_state b = RS_CLOSED \<and> ct = CT_G_ACT \<and> cmd_type cmd \<in> {CT_COMP, CT_COMPS_READRES, CT_G_ACT} \<and>
        (cmd_type cmd = CT_G_ACT \<longrightarrow> row_free cmd b)
    \<or> pim_state b = RS_OPEN \<and> ct \<in> {CT_PWRITE, CT_PIM_PRECHARGE, CT_COMP, CT_READRES, CT_COMPS_READRES}"
proof (cases "pim_state b")
  case RS_OPEN
  then show ?thesis using assms(1) by (auto simp: required_pim_def Let_def split: if_splits)
next
  case RS_CLOSED
  then show ?thesis using assms(1) by (auto simp: required_pim_def Let_def row_free_def split: if_splits)
qed (use assms(2) in \<open>simp_all add: bank_inv_def\<close>)

lemma required_normal_cases:
  assumes "required_normal cmd b = Inr (Some (Some ct))" "bank_inv b"
  shows "bs_state b = RS_CLOSED \<and> pim_state b = RS_OPEN \<and> ct = CT_PIM_PRECHARGE
    \<or> bs_state b = RS_CLOSED \<and> ct = CT_ACTIVATE \<and> cmd_type cmd \<in> {CT_READ, CT_WRITE, CT_GWRITE} \<and>
        \<not> (pim_state b = RS_OPEN \<and> cmd_row cmd = pim_open_row b)
    \<or> bs_state b = RS_CLOSED \<and> pim_state b = RS_CLOSED \<and> ct = CT_REFRESH
    \<or> bs_state b = RS_OPEN \<and> ct \<in> {CT_PRECHARGE, CT_READ, CT_WRITE, CT_GWRITE}"
proof (cases "bs_state b")
  case RS_OPEN
  then show ?thesis using assms(1) by (auto simp: required_normal_def Let_def split: if_splits)
next
  case RS_CLOSED
  then show ?thesis
    using assms by (auto simp: required_normal_def Let_def bank_inv_def split: if_splits)
qed (use assms(2) in \<open>simp_all add: bank_inv_def\<close>)

lemma required_single_cases:
  assumes "required_single cmd b = Inr (Some (Some ct))" "bank_inv b"
  shows "bs_state b = RS_CLOSED \<and> ct \<in> {CT_ACTIVATE, CT_G_ACT} \<and> cmd_type cmd \<noteq> CT_REFRESH
    \<or> bs_state b = RS_CLOSED \<and> ct = CT_REFRESH
    \<or> bs_state b = RS_OPEN \<and> ct \<in> {CT_PRECHARGE, CT_READ, CT_WRITE, CT_GWRITE, CT_COMP, CT_READRES}"
proof (cases "bs_state b")
  case RS_OPEN
  then show ?thesis using assms(1) by (auto simp: required_single_def Let_def split: if_splits)
next
  case RS_CLOSED
  then show ?thesis using assms(1) by (auto simp: required_single_def Let_def split: if_splits)
qed (use assms(2) in \<open>simp_all add: bank_inv_def\<close>)

lemma Update_dual:
  assumes "bs_dual_buffer b" "\<not> for_gwrite c"
  shows "cmd_type c \<in> {CT_G_ACT, CT_PWRITE, CT_PIM_PRECHARGE, CT_COMP, CT_READRES, CT_COMPS_READRES} \<Longrightarrow>
      Bank_UpdateState c b = UpdatePIMState c b"
    and "cmd_type c \<in> {CT_PRECHARGE, CT_READ, CT_WRITE, CT_GWRITE, CT_ACTIVATE, CT_REFRESH} \<Longrightarrow>
      Bank_UpdateState c b = UpdateNormalState c b"
  using assms by (auto simp: Bank_UpdateState_def command_classes)

lemma required_accepted:
  assumes inv: "bank_inv b" and r: "required_cmd cmd b = Inr (Some (Some ct))" and row: "0 \<le> cmd_row cmd \<or> cmd_type cmd = CT_REFRESH"
    and free: "cmd_type cmd \<in> {CT_COMP, CT_COMPS_READRES} \<Longrightarrow> row_free cmd b"
    and c: "cmd_type c = ct" "\<not> for_gwrite c" and same: "ct \<in> {CT_ACTIVATE, CT_G_ACT} \<Longrightarrow> cmd_row c = cmd_row cmd"
  shows "\<exists>b'. Bank_UpdateState c b = Inr b' \<and> bank_inv b'"
proof (cases "bs_dual_buffer b")
  case False
  then have "required_single cmd b = Inr (Some (Some ct))" "pim_state b = RS_CLOSED" "Bank_UpdateState c b = UpdateStateSingle c b \<or> ct = CT_P_HEADER"
    using r inv c by (auto simp: required_cmd_def bank_inv_def Bank_UpdateState_def IsPIMHeader_def)
  with required_single_cases [OF this(1) inv] False show ?thesis
    using inv row c same by (elim disjE conjE) (auto simp: UpdateStateSingle_def Let_def bank_inv_def)
next
  case True
  note upd = Update_dual [OF True c(2)]
  show ?thesis
  proof (cases "IsPIMBufferCommand cmd")
    case pim: True
    then have "required_pim cmd b = Inr (Some (Some ct))" using r True by (simp add: required_cmd_def)
    note cs = required_pim_cases [OF this inv]
    have "row_free cmd b" if "ct = CT_G_ACT" using cs free that by auto
    moreover have "0 \<le> cmd_row cmd" if "ct = CT_G_ACT" using cs row that by auto
    ultimately show ?thesis
      using cs True inv c same upd
      by (elim disjE conjE) (auto simp: UpdatePIMState_def UpdateNormalState_def Let_def bank_inv_def row_free_def)
  next
    case False
    then have "required_normal cmd b = Inr (Some (Some ct))" using r True by (simp add: required_cmd_def split: if_splits)
    note cs = required_normal_cases [OF this inv]
    moreover have "0 \<le> cmd_row cmd" if "ct = CT_ACTIVATE" using cs row that by auto
    ultimately show ?thesis
      using True inv c same upd
      by (elim disjE conjE) (auto simp: UpdatePIMState_def UpdateNormalState_def Let_def bank_inv_def)
  qed
qed

text \<open>
  What a bank answers, it accepts.  Whatever command is asked for, when the bank's answer is a command
  (the one asked for, or the one that must come first), the time of that command has come in this bank,
  and executing it does not stop the program and keeps the bank's invariant: in particular the row of the
  second buffer is never the row of the first.  A computation needs what its header has made sure of, that
  the row is not open in the normal buffer.
\<close>

theorem bank_accepts_ready_command:
  assumes "bank_inv b" "Bank_GetReadyCommand cmd clk b = Inr c" "IsValid c" "cmd_type c \<noteq> CT_P_HEADER"
    and "0 \<le> cmd_row cmd \<or> cmd_type cmd = CT_REFRESH"
    and "cmd_type cmd \<in> {CT_COMP, CT_COMPS_READRES} \<Longrightarrow> row_free cmd b"
  shows "\<exists>b'. Bank_UpdateState c b = Inr b' \<and> bank_inv b' \<and> cmd_timing b (cmd_type c) \<le> clk"
proof -
  obtain keep r where r: "required_cmd cmd b = Inr r" and c: "c = when_ready keep cmd clk b r"
    using GetReady_required [OF assms(2)] by blast
  have v: "IsValid (when_ready keep cmd clk b r)" using assms(3) c by simp
  show ?thesis
    using v
  proof (cases rule: when_ready_valid)
    case 1
    then show ?thesis using required_itself(1) [of cmd b] r assms(1,4) c by simp
  next
    case (2 ct)
    then show ?thesis using required_accepted [of b cmd ct c] r assms c by auto
  qed
qed

text \<open>
  What happens to a bank later on: it executes commands and its timing is updated.  The commands never
  activate \<open>row\<close>.
\<close>

inductive bank_later :: "int \<Rightarrow> BankState \<Rightarrow> BankState \<Rightarrow> bool" for row where
  later_now: "bank_later row b b"
| later_command: "bank_later row b b1 \<Longrightarrow> Bank_UpdateState d b1 = Inr b2 \<Longrightarrow> cmd_type d \<noteq> CT_ACTIVATE \<or> cmd_row d \<noteq> row \<Longrightarrow>
    bank_later row b b2"
| later_timing: "bank_later row b b1 \<Longrightarrow> bank_later row b (Bank_UpdateTiming ct time b1)"

lemma update_row_free:
  assumes "Bank_UpdateState d b = Inr b'" "cmd_type d \<noteq> CT_ACTIVATE \<or> cmd_row d \<noteq> cmd_row h" "row_free h b" "bs_dual_buffer b"
  shows "row_free h b' \<and> bs_dual_buffer b'"
  using assms
  by (auto simp: Bank_UpdateState_def UpdatePIMState_def UpdateNormalState_def Let_def row_free_def command_classes
      split: if_splits row_state.splits)

lemma later_row_free:
  "bank_later (cmd_row h) b b' \<Longrightarrow> row_free h b \<Longrightarrow> bs_dual_buffer b \<Longrightarrow> row_free h b' \<and> bs_dual_buffer b'"
proof (induction rule: bank_later.induct)
  case (later_command b b1 d b2)
  then show ?case using update_row_free by blast
qed (simp_all add: Bank_UpdateTiming_def row_free_def)

text \<open>
  C26: The header of a computation is a gate: a bank with two buffers answers it with the header itself only
  when the row is not open in the normal buffer and the second buffer is closed or already open on this
  row; and from then on, whatever commands the bank executes, the row stays out of the normal buffer as
  long as none of them activates exactly this row.
\<close>

theorem header_gates_bank:
  assumes "bank_inv b" "bs_dual_buffer b" "cmd_type h = CT_P_HEADER" "\<not> for_gwrite h" "Bank_GetReadyCommand h clk b = Inr c"
    and "cmd_type c = CT_P_HEADER"
  shows "row_free h b \<and> (pim_state b = RS_CLOSED \<or> pim_open_row b = cmd_row h) \<and>
    (\<forall>b'. bank_later (cmd_row h) b b' \<longrightarrow> row_free h b' \<and>
      (\<forall>d b''. Bank_UpdateState d b' = Inr b'' \<and> \<not> row_free h b'' \<longrightarrow> cmd_type d = CT_ACTIVATE \<and> cmd_row d = cmd_row h))"
proof -
  obtain keep r where r: "required_cmd h b = Inr r" and c: "c = when_ready keep h clk b r"
    using GetReady_required [OF assms(5)] by blast
  have v: "IsValid (when_ready keep h clk b r)" using assms(6) c by (simp add: IsValid_def)
  have "r = Some None"
    using v
  proof (cases rule: when_ready_valid)
    case (2 ct)
    then show ?thesis
      using r assms c by (auto simp: required_cmd_def required_pim_def Let_def command_classes split: if_splits row_state.splits)
  qed simp
  then have g: "row_free h b" "pim_state b = RS_CLOSED \<or> pim_open_row b = cmd_row h"
    using required_itself(2,3) [of h b] r assms by auto
  then show ?thesis using later_row_free [of h b] update_row_free [of _ _ _ h] assms(2) by blast
qed

text \<open>One turn of a bank with a request: the required command is executed when its time has come.\<close>

definition bank_turn :: "Command \<Rightarrow> u64 \<Rightarrow> BankState \<Rightarrow> fault + BankState" where
  "bank_turn cmd clk b = bindE (Bank_GetReadyCommand cmd clk b) (\<lambda>c. if IsValid c then Bank_UpdateState c b else Inr b)"

definition steps_needed :: "Command \<Rightarrow> BankState \<Rightarrow> nat" where
  "steps_needed cmd b = (if bs_state b = RS_OPEN \<and> open_row b = cmd_row cmd then 0
     else 1 + (if bs_state b = RS_OPEN then 1 else 0) + (if pim_state b = RS_OPEN \<and> pim_open_row b = cmd_row cmd then 1 else 0))"

lemma required_access:
  assumes "bank_inv b" "cmd_type cmd \<in> {CT_READ, CT_WRITE, CT_GWRITE}" "bs_dual_buffer b \<or> \<not> pim_lock b"
  shows "required_cmd cmd b = Inr (Some (Some (
     if bs_state b = RS_OPEN then (if open_row b = cmd_row cmd then cmd_type cmd else CT_PRECHARGE)
     else if pim_state b = RS_OPEN \<and> pim_open_row b = cmd_row cmd then CT_PIM_PRECHARGE else CT_ACTIVATE)))"
proof -
  have k: "\<not> IsPIMBufferCommand cmd" "IsNormalBufferCommand cmd" "cmd_type cmd \<notin> {CT_P_HEADER, CT_REFRESH}"
    using assms(2) by (auto simp: command_classes)
  consider "bs_state b = RS_OPEN" | "bs_state b = RS_CLOSED" using assms(1) by (auto simp: bank_inv_def)
  then show ?thesis
  proof cases
    case 1
    then show ?thesis
      using assms(2,3) k by (simp add: required_cmd_def required_single_def required_normal_def Let_def) auto
  next
    case 2
    moreover have "bs_dual_buffer b \<or> pim_state b = RS_CLOSED" using assms(1) by (simp add: bank_inv_def)
    ultimately show ?thesis
      using assms(2) k by (auto simp: required_cmd_def required_single_def required_normal_def Let_def)
  qed
qed

lemma GetReady_access:
  assumes "required_cmd cmd b = Inr (Some (Some ct))" "cmd_timing b ct \<le> clk" "ct \<noteq> CT_SIZE"
  shows "\<exists>c. Bank_GetReadyCommand cmd clk b = Inr c \<and> cmd_type c = ct \<and> cmd_addr c = cmd_addr cmd"
  unfolding GetReady_eq assms(1) when_ready_def
  using assms(2,3) by (simp add: Command_new_def Command_comps_def)

lemma buffer_effects:
  "cmd_type c = CT_PRECHARGE \<Longrightarrow> bs_state b = RS_OPEN \<Longrightarrow>
     Bank_UpdateState c b = Inr (b\<lparr>bs_state := RS_CLOSED, open_row := - 1, row_hit_count := 0\<rparr>)"
  "cmd_type c = CT_ACTIVATE \<Longrightarrow> bs_state b = RS_CLOSED \<Longrightarrow> Bank_UpdateState c b = Inr (b\<lparr>bs_state := RS_OPEN, open_row := cmd_row c\<rparr>)"
  "cmd_type c = CT_PIM_PRECHARGE \<Longrightarrow> bs_dual_buffer b \<Longrightarrow> pim_state b = RS_OPEN \<Longrightarrow>
     Bank_UpdateState c b = Inr (b\<lparr>pim_state := RS_CLOSED, pim_open_row := - 1\<rparr>)"
  by (simp_all add: Bank_UpdateState_def UpdateStateSingle_def UpdatePIMState_def UpdateNormalState_def command_classes)

lemma bank_served:
  assumes "bank_inv b" "cmd_type cmd \<in> {CT_READ, CT_WRITE, CT_GWRITE}" "\<And>ct. cmd_timing b ct \<le> clk"
    and "bs_dual_buffer b \<or> \<not> pim_lock b" "steps_needed cmd b = 0"
  shows "\<exists>c. Bank_GetReadyCommand cmd clk b = Inr c \<and> cmd_type c = cmd_type cmd \<and> cmd_addr c = cmd_addr cmd"
proof -
  have "required_cmd cmd b = Inr (Some (Some (cmd_type cmd)))"
    using required_access [OF assms(1,2,4)] assms(5) by (simp add: steps_needed_def split: if_splits)
  then show ?thesis using GetReady_access [OF _ assms(3)] assms(2) by fastforce
qed

lemma bank_turn_step:
  assumes "bank_inv b" "cmd_type cmd \<in> {CT_READ, CT_WRITE, CT_GWRITE}" "0 \<le> cmd_row cmd" "\<And>ct. cmd_timing b ct \<le> clk"
    and "bs_dual_buffer b \<or> \<not> pim_lock b" "steps_needed cmd b = Suc n"
  shows "\<exists>b'. bank_turn cmd clk b = Inr b' \<and> bank_inv b' \<and> cmd_timing b' = cmd_timing b \<and>
      bs_dual_buffer b' = bs_dual_buffer b \<and> pim_lock b' = pim_lock b \<and> steps_needed cmd b' = n"
proof -
  define ct where "ct = (if bs_state b = RS_OPEN then CT_PRECHARGE
    else if pim_state b = RS_OPEN \<and> pim_open_row b = cmd_row cmd then CT_PIM_PRECHARGE else CT_ACTIVATE)"
  have "required_cmd cmd b = Inr (Some (Some ct))" and n: "ct \<noteq> CT_SIZE"
    using required_access [OF assms(1,2,5)] assms(6) by (auto simp: steps_needed_def ct_def)
  then obtain c where c: "Bank_GetReadyCommand cmd clk b = Inr c" "cmd_type c = ct" "cmd_addr c = cmd_addr cmd"
    using GetReady_access assms(4) by blast
  then have t: "bank_turn cmd clk b = Bank_UpdateState c b" using n by (simp add: bank_turn_def IsValid_def)
  consider "bs_state b = RS_OPEN" "ct = CT_PRECHARGE"
    | "bs_state b = RS_CLOSED" "bs_dual_buffer b" "pim_state b = RS_OPEN" "pim_open_row b = cmd_row cmd" "ct = CT_PIM_PRECHARGE"
    | "bs_state b = RS_CLOSED" "pim_state b = RS_OPEN \<longrightarrow> pim_open_row b \<noteq> cmd_row cmd" "ct = CT_ACTIVATE"
    using assms(1) unfolding ct_def bank_inv_def by (metis row_state.distinct)
  then show ?thesis
  proof cases
    case 1
    then show ?thesis using assms c t by (auto simp: buffer_effects bank_inv_def steps_needed_def split: if_splits)
  next
    case 2
    then show ?thesis using assms c t by (auto simp: buffer_effects bank_inv_def steps_needed_def split: if_splits)
  next
    case 3
    then show ?thesis using assms c t by (auto simp: buffer_effects bank_inv_def steps_needed_def split: if_splits)
  qed
qed

text \<open>
  C27: A bank serves every access.  With the timing behind it, a read, a write or a buffer write of any row
  becomes ready after at most three commands (closing the open row, closing the second buffer when it holds
  the wanted row, opening the row), each of which the bank accepts.
\<close>

theorem bank_serves_access:
  assumes "bank_inv b" "cmd_type cmd \<in> {CT_READ, CT_WRITE, CT_GWRITE}" "0 \<le> cmd_row cmd" "\<And>ct. cmd_timing b ct \<le> clk"
    and "bs_dual_buffer b \<or> \<not> pim_lock b"
  shows "\<exists>n b' c. n \<le> 3 \<and> iterE n (bank_turn cmd clk) b = Inr b' \<and> Bank_GetReadyCommand cmd clk b' = Inr c \<and>
     cmd_type c = cmd_type cmd \<and> cmd_addr c = cmd_addr cmd \<and> bank_inv b'"
proof -
  have "\<exists>b' c. iterE k (bank_turn cmd clk) b = Inr b' \<and> Bank_GetReadyCommand cmd clk b' = Inr c \<and>
      cmd_type c = cmd_type cmd \<and> cmd_addr c = cmd_addr cmd \<and> bank_inv b'" if "steps_needed cmd b = k" for k
    using that assms
  proof (induction k arbitrary: b)
    case 0
    then show ?case using bank_served [of b cmd clk] by auto
  next
    case (Suc k)
    obtain b1 where b1: "bank_turn cmd clk b = Inr b1" "bank_inv b1" "cmd_timing b1 = cmd_timing b"
      "bs_dual_buffer b1 = bs_dual_buffer b" "pim_lock b1 = pim_lock b" "steps_needed cmd b1 = k"
      using bank_turn_step [of b cmd clk k] Suc.prems by auto
    then show ?case using Suc.IH [of b1] Suc.prems by simp
  qed
  moreover have "steps_needed cmd b \<le> 3" by (simp add: steps_needed_def)
  ultimately show ?thesis by blast
qed

subsection \<open>Witnesses\<close>

definition demo_bank :: BankState where
  "demo_bank = (BankState_new True)\<lparr>bs_state := RS_OPEN, open_row := 5\<rparr>"

definition demo_cmd :: "CommandType \<Rightarrow> int \<Rightarrow> Command" where
  "demo_cmd ct row = Command_new ct (Address0\<lparr>ad_row := row\<rparr>) 0"

lemmas demo_defs = demo_bank_def demo_cmd_def BankState_new_def Command_new_def Command_comps_def Command0_def Address0_def

lemma demo_bank_inv: "bank_inv demo_bank"
  by (simp add: bank_inv_def demo_defs)

theorem bank_accepts_ready_command_witness:
  "\<exists>c b'. Bank_GetReadyCommand (demo_cmd CT_COMPS_READRES 7) 100 demo_bank = Inr c \<and> cmd_type c = CT_G_ACT \<and>
     Bank_UpdateState c demo_bank = Inr b' \<and> bank_inv b' \<and> cmd_timing demo_bank CT_G_ACT \<le> 100"
proof -
  obtain c where c: "Bank_GetReadyCommand (demo_cmd CT_COMPS_READRES 7) 100 demo_bank = Inr c" "cmd_type c = CT_G_ACT"
    by (simp add: GetReady_eq required_cmd_def required_pim_def when_ready_def command_classes demo_defs)
  have "\<exists>b'. Bank_UpdateState c demo_bank = Inr b' \<and> bank_inv b' \<and> cmd_timing demo_bank (cmd_type c) \<le> 100"
    by (rule bank_accepts_ready_command [OF demo_bank_inv c(1)])
      (use c in \<open>simp_all add: IsValid_def demo_defs row_free_def\<close>)
  then show ?thesis using c by auto
qed

theorem header_gates_bank_witness:
  "\<exists>b1 b2. Bank_UpdateState (demo_cmd CT_G_ACT 7) demo_bank = Inr b1 \<and> Bank_UpdateState (demo_cmd CT_PRECHARGE 5) b1 = Inr b2 \<and>
     pim_open_row b2 = 7 \<and> row_free (demo_cmd CT_P_HEADER 7) b2"
proof -
  let ?h = "demo_cmd CT_P_HEADER 7"
  have g: "Bank_GetReadyCommand ?h 100 demo_bank = Inr ?h"
    by (simp add: GetReady_eq required_cmd_def required_pim_def when_ready_def command_classes demo_defs)
  have h: "bs_dual_buffer demo_bank" "cmd_type ?h = CT_P_HEADER" "\<not> for_gwrite ?h" "cmd_row ?h = 7"
    by (simp_all add: demo_defs)
  obtain b1 b2 where b: "Bank_UpdateState (demo_cmd CT_G_ACT 7) demo_bank = Inr b1" "Bank_UpdateState (demo_cmd CT_PRECHARGE 5) b1 = Inr b2"
    "pim_open_row b2 = 7"
    by (simp add: Bank_UpdateState_def UpdatePIMState_def UpdateNormalState_def command_classes demo_defs)
  have "bank_later 7 demo_bank b2"
    by (rule later_command [OF later_command [OF later_now b(1)] b(2)]) (simp_all add: demo_defs)
  then have "row_free ?h b2" using header_gates_bank [OF demo_bank_inv h(1-3) g h(2)] h(4) by metis
  then show ?thesis using b by blast
qed

theorem bank_serves_access_witness:
  "\<exists>n b' c. n \<le> 3 \<and> iterE n (bank_turn (demo_cmd CT_READ 7) 100) demo_bank = Inr b' \<and>
     Bank_GetReadyCommand (demo_cmd CT_READ 7) 100 b' = Inr c \<and> cmd_type c = CT_READ"
proof -
  have "\<And>ct. cmd_timing demo_bank ct \<le> 100" "bs_dual_buffer demo_bank \<or> \<not> pim_lock demo_bank"
    "cmd_type (demo_cmd CT_READ 7) = CT_READ" "cmd_row (demo_cmd CT_READ 7) = 7"
    by (simp_all add: demo_defs)
  then show ?thesis using bank_serves_access [OF demo_bank_inv, of "demo_cmd CT_READ 7" 100] by fastforce
qed

end
