(* ===== verification/MemTiming.thy ===== *)
theory MemTiming
  imports MemBank
begin

text \<open>
  The timing tables of the memory (NewtonSim/src/timing.cc): for each command, the delays it imposes on
  later commands, by the place of the bank they go to.
\<close>

subsection \<open>Timing tables\<close>

text \<open>The delays between commands that the constructor of \<open>Timing\<close> computes first.\<close>

record timing_params =
  read_to_read_l :: int
  read_to_read_s :: int
  read_to_read_o :: int
  read_to_write :: int
  read_to_write_o :: int
  read_to_precharge :: int
  readp_to_act :: int
  write_to_read_l :: int
  write_to_read_s :: int
  write_to_read_o :: int
  write_to_write_l :: int
  write_to_write_s :: int
  write_to_write_o :: int
  write_to_precharge :: int
  precharge_to_activate :: int
  precharge_to_precharge :: int
  read_to_activate :: int
  write_to_activate :: int
  activate_to_activate :: int
  activate_to_activate_l :: int
  activate_to_activate_s :: int
  activate_to_precharge :: int
  activate_to_read :: int
  activate_to_write :: int
  activate_to_refresh :: int
  refresh_to_refresh :: int
  refresh_to_activate :: int
  refresh_to_activate_bank :: int
  self_refresh_entry_to_exit :: int
  self_refresh_exit :: int
  gwrite_time :: int
  act_to_pim_act_same_bk :: int
  read_to_pim_read_same_bk :: int
  write_to_pim_read_same_bk :: int
  read_to_pim_read_same_bg :: int
  write_to_pim_read_same_bg :: int
  gact_to_act_same_bg :: int
  pim_to_precharge :: int

definition timing_params :: "mem_config \<Rightarrow> timing_params" where
  "timing_params cfg = (let s = mc_structure cfg; t = mc_timing cfg; burst = burst_cycle s; dual = enable_dual_buffer s;
     one = (mc_bankgroups s = 1); gh = (IsGDDR (protocol s) \<or> IsHBM (protocol s));
     r2r_s = max burst (tCCD_S t); r2r_l = (if one then r2r_s else max burst (tCCD_L t));
     w2r_s = write_delay t + tWTR_S t; w2r_l = (if one then w2r_s else write_delay t + tWTR_L t);
     a2a_l = (if one then tRRD_S t else tRRD_L t);
     r2p = AL t + tRTP t; w2p = WL t + burst + tWR t
   in \<lparr>read_to_read_l = r2r_l, read_to_read_s = r2r_s, read_to_read_o = burst + tRTRS t,
       read_to_write = RL t + burst - WL t + tRTRS t, read_to_write_o = read_delay t + burst + tRTRS t - write_delay t,
       read_to_precharge = r2p, readp_to_act = AL t + burst + tRTP t + tRP t,
       write_to_read_l = w2r_l, write_to_read_s = w2r_s, write_to_read_o = write_delay t + burst + tRTRS t - read_delay t,
       write_to_write_l = r2r_l, write_to_write_s = r2r_s, write_to_write_o = burst, write_to_precharge = w2p,
       precharge_to_activate = tRP t, precharge_to_precharge = tPPD t,
       read_to_activate = r2p + tRP t, write_to_activate = w2p + tRP t,
       activate_to_activate = tRC t, activate_to_activate_l = a2a_l, activate_to_activate_s = tRRD_S t,
       activate_to_precharge = tRAS t, activate_to_read = (if gh then tRCDRD t else tRCD t - AL t),
       activate_to_write = (if gh then tRCDWR t else tRCD t - AL t), activate_to_refresh = tRC t,
       refresh_to_refresh = tREFI t, refresh_to_activate = tRFC t, refresh_to_activate_bank = tRFCb t,
       self_refresh_entry_to_exit = tCKESR t, self_refresh_exit = tXS t, gwrite_time = gwrite_delay t,
       act_to_pim_act_same_bk = (if dual then a2a_l else tRC t),
       read_to_pim_read_same_bk = (if dual then 0 else r2r_l), write_to_pim_read_same_bk = (if dual then 0 else w2r_l),
       read_to_pim_read_same_bg = (if dual then 0 else r2r_l), write_to_pim_read_same_bg = (if dual then 0 else w2r_l),
       gact_to_act_same_bg = (if dual then a2a_l else tRC t), pim_to_precharge = (if dual then 0 else r2p)\<rparr>)"

text \<open>
  For one command, the delays it imposes on later commands, by where these go.  The member of a table
  that the code leaves empty is the empty list.
\<close>

type_synonym timing_list = "(CommandType \<times> int) list"

record cmd_timings =
  same_bank :: timing_list
  other_banks_same_bankgroup :: timing_list
  other_bankgroups_same_rank :: timing_list
  other_ranks :: timing_list
  same_rank :: timing_list

definition no_timings :: cmd_timings where
  "no_timings = \<lparr>same_bank = [], other_banks_same_bankgroup = [], other_bankgroups_same_rank = [], other_ranks = [], same_rank = []\<rparr>"

definition read_timings :: "timing_params \<Rightarrow> cmd_timings" where
  "read_timings p = no_timings\<lparr>
     same_bank := [(CT_READ, read_to_read_l p), (CT_WRITE, read_to_write p), (CT_READ_PRECHARGE, read_to_read_l p),
       (CT_WRITE_PRECHARGE, read_to_write p), (CT_PRECHARGE, read_to_precharge p), (CT_GWRITE, read_to_read_l p),
       (CT_COMP, read_to_pim_read_same_bk p), (CT_COMPS_READRES, read_to_pim_read_same_bk p),
       (CT_READRES, read_to_pim_read_same_bk p), (CT_PWRITE, read_to_write p)],
     other_banks_same_bankgroup := [(CT_READ, read_to_read_l p), (CT_WRITE, read_to_write p),
       (CT_READ_PRECHARGE, read_to_read_l p), (CT_WRITE_PRECHARGE, read_to_write p), (CT_GWRITE, read_to_read_l p),
       (CT_COMP, read_to_pim_read_same_bg p), (CT_COMPS_READRES, read_to_pim_read_same_bg p),
       (CT_READRES, read_to_pim_read_same_bg p)],
     other_bankgroups_same_rank := [(CT_READ, read_to_read_s p), (CT_WRITE, read_to_write p),
       (CT_READ_PRECHARGE, read_to_read_s p), (CT_WRITE_PRECHARGE, read_to_write p), (CT_GWRITE, read_to_read_s p),
       (CT_COMP, read_to_read_s p), (CT_COMPS_READRES, read_to_read_s p), (CT_READRES, read_to_read_s p)],
     other_ranks := [(CT_READ, read_to_read_o p), (CT_WRITE, read_to_write_o p), (CT_READ_PRECHARGE, read_to_read_o p),
       (CT_WRITE_PRECHARGE, read_to_write_o p), (CT_READRES, read_to_read_o p)]\<rparr>"

definition write_timings :: "timing_params \<Rightarrow> cmd_timings" where
  "write_timings p = no_timings\<lparr>
     same_bank := [(CT_READ, write_to_read_l p), (CT_WRITE, write_to_write_l p), (CT_READ_PRECHARGE, write_to_read_l p),
       (CT_WRITE_PRECHARGE, write_to_write_l p), (CT_PRECHARGE, write_to_precharge p), (CT_GWRITE, write_to_read_l p),
       (CT_PWRITE, write_to_write_l p), (CT_COMP, write_to_pim_read_same_bk p),
       (CT_COMPS_READRES, write_to_pim_read_same_bk p), (CT_READRES, write_to_pim_read_same_bk p)],
     other_banks_same_bankgroup := [(CT_READ, write_to_read_l p), (CT_WRITE, write_to_write_l p),
       (CT_READ_PRECHARGE, write_to_read_l p), (CT_WRITE_PRECHARGE, write_to_write_l p), (CT_GWRITE, write_to_read_l p),
       (CT_PWRITE, write_to_write_l p), (CT_COMP, write_to_pim_read_same_bg p),
       (CT_COMPS_READRES, write_to_pim_read_same_bg p), (CT_READRES, write_to_pim_read_same_bg p)],
     other_bankgroups_same_rank := [(CT_READ, write_to_read_s p), (CT_WRITE, write_to_write_s p),
       (CT_READ_PRECHARGE, write_to_read_s p), (CT_WRITE_PRECHARGE, write_to_write_s p), (CT_GWRITE, write_to_read_s p),
       (CT_COMP, write_to_read_s p), (CT_COMPS_READRES, write_to_read_s p), (CT_READRES, write_to_read_s p),
       (CT_PWRITE, write_to_write_s p)],
     other_ranks := [(CT_READ, write_to_read_o p), (CT_WRITE, write_to_write_o p), (CT_READ_PRECHARGE, write_to_read_o p),
       (CT_WRITE_PRECHARGE, write_to_write_o p), (CT_READRES, write_to_read_o p), (CT_PWRITE, write_to_write_o p)]\<rparr>"

definition read_precharge_timings :: "timing_params \<Rightarrow> cmd_timings" where
  "read_precharge_timings p = no_timings\<lparr>
     same_bank := [(CT_ACTIVATE, readp_to_act p), (CT_REFRESH, read_to_activate p), (CT_REFRESH_BANK, read_to_activate p),
       (CT_SREF_ENTER, read_to_activate p)],
     other_banks_same_bankgroup := [(CT_READ, read_to_read_l p), (CT_WRITE, read_to_write p),
       (CT_READ_PRECHARGE, read_to_read_l p), (CT_WRITE_PRECHARGE, read_to_write p)],
     other_bankgroups_same_rank := [(CT_READ, read_to_read_s p), (CT_WRITE, read_to_write p),
       (CT_READ_PRECHARGE, read_to_read_s p), (CT_WRITE_PRECHARGE, read_to_write p)],
     other_ranks := [(CT_READ, read_to_read_o p), (CT_WRITE, read_to_write_o p), (CT_READ_PRECHARGE, read_to_read_o p),
       (CT_WRITE_PRECHARGE, read_to_write_o p)]\<rparr>"

definition write_precharge_timings :: "timing_params \<Rightarrow> cmd_timings" where
  "write_precharge_timings p = no_timings\<lparr>
     same_bank := [(CT_ACTIVATE, write_to_activate p), (CT_REFRESH, write_to_activate p), (CT_REFRESH_BANK, write_to_activate p),
       (CT_SREF_ENTER, write_to_activate p)],
     other_banks_same_bankgroup := [(CT_READ, write_to_read_l p), (CT_WRITE, write_to_write_l p),
       (CT_READ_PRECHARGE, write_to_read_l p), (CT_WRITE_PRECHARGE, write_to_write_l p)],
     other_bankgroups_same_rank := [(CT_READ, write_to_read_s p), (CT_WRITE, write_to_write_s p),
       (CT_READ_PRECHARGE, write_to_read_s p), (CT_WRITE_PRECHARGE, write_to_write_s p)],
     other_ranks := [(CT_READ, write_to_read_o p), (CT_WRITE, write_to_write_o p), (CT_READ_PRECHARGE, write_to_read_o p),
       (CT_WRITE_PRECHARGE, write_to_write_o p)]\<rparr>"

definition activate_timings :: "timing_params \<Rightarrow> cmd_timings" where
  "activate_timings p = no_timings\<lparr>
     same_bank := [(CT_ACTIVATE, activate_to_activate p), (CT_READ, activate_to_read p), (CT_WRITE, activate_to_write p),
       (CT_READ_PRECHARGE, activate_to_read p), (CT_WRITE_PRECHARGE, activate_to_write p),
       (CT_PRECHARGE, activate_to_precharge p), (CT_G_ACT, act_to_pim_act_same_bk p), (CT_GWRITE, activate_to_read p)],
     other_banks_same_bankgroup := [(CT_ACTIVATE, activate_to_activate_l p), (CT_REFRESH_BANK, activate_to_refresh p),
       (CT_G_ACT, activate_to_activate_l p)],
     other_bankgroups_same_rank := [(CT_ACTIVATE, activate_to_activate_s p), (CT_REFRESH_BANK, activate_to_refresh p),
       (CT_G_ACT, activate_to_activate_s p)]\<rparr>"

definition precharge_timings :: "bool \<Rightarrow> timing_params \<Rightarrow> cmd_timings" where
  "precharge_timings need_tppd p = (let c = no_timings\<lparr>
     same_bank := [(CT_ACTIVATE, precharge_to_activate p), (CT_REFRESH, precharge_to_activate p),
       (CT_REFRESH_BANK, precharge_to_activate p), (CT_SREF_ENTER, precharge_to_activate p)]\<rparr>
   in if need_tppd then c\<lparr>other_banks_same_bankgroup := [(CT_PRECHARGE, precharge_to_precharge p)],
        other_bankgroups_same_rank := [(CT_PRECHARGE, precharge_to_precharge p)]\<rparr> else c)"

definition refresh_bank_timings :: "timing_params \<Rightarrow> cmd_timings" where
  "refresh_bank_timings p = no_timings\<lparr>
     same_rank := [(CT_ACTIVATE, refresh_to_activate_bank p), (CT_REFRESH, refresh_to_activate_bank p),
       (CT_REFRESH_BANK, refresh_to_activate_bank p), (CT_SREF_ENTER, refresh_to_activate_bank p)],
     other_banks_same_bankgroup := [(CT_ACTIVATE, refresh_to_activate p), (CT_REFRESH_BANK, refresh_to_refresh p)],
     other_bankgroups_same_rank := [(CT_ACTIVATE, refresh_to_activate p), (CT_REFRESH_BANK, refresh_to_refresh p)]\<rparr>"

definition rank_timings :: "timing_params \<Rightarrow> CommandType \<Rightarrow> cmd_timings" where
  "rank_timings p ct = no_timings\<lparr>same_rank :=
     (if ct = CT_REFRESH then [(CT_ACTIVATE, refresh_to_activate p), (CT_REFRESH, refresh_to_activate p),
        (CT_SREF_ENTER, refresh_to_activate p), (CT_G_ACT, refresh_to_activate p)]
      else if ct = CT_SREF_ENTER then [(CT_SREF_EXIT, self_refresh_entry_to_exit p)]
      else [(CT_ACTIVATE, self_refresh_exit p), (CT_REFRESH, self_refresh_exit p), (CT_REFRESH_BANK, self_refresh_exit p),
        (CT_SREF_ENTER, self_refresh_exit p), (CT_G_ACT, self_refresh_exit p)])\<rparr>"

definition pwrite_timings :: "mem_timing \<Rightarrow> timing_params \<Rightarrow> cmd_timings" where
  "pwrite_timings t p = no_timings\<lparr>
     same_bank := [(CT_READ, write_to_read_l p), (CT_WRITE, write_to_write_l p), (CT_PRECHARGE, write_to_precharge p),
       (CT_PWRITE, write_to_write_l p), (CT_COMP, tWTR_L t), (CT_COMPS_READRES, tWTR_L t)],
     other_banks_same_bankgroup := [(CT_READ, write_to_read_l p), (CT_WRITE, write_to_write_l p), (CT_PWRITE, write_to_write_l p),
       (CT_COMP, write_to_pim_read_same_bg p), (CT_COMPS_READRES, write_to_pim_read_same_bg p)],
     other_bankgroups_same_rank := [(CT_READ, write_to_read_s p), (CT_WRITE, write_to_write_s p), (CT_PWRITE, write_to_write_s p),
       (CT_COMP, write_to_read_s p), (CT_COMPS_READRES, write_to_read_s p)],
     other_ranks := [(CT_READ, write_to_read_o p), (CT_WRITE, write_to_write_o p), (CT_READRES, write_to_read_o p),
       (CT_PWRITE, write_to_write_o p)]\<rparr>"

definition gwrite_timings :: "timing_params \<Rightarrow> cmd_timings" where
  "gwrite_timings p = no_timings\<lparr>
     same_bank := [(CT_READ, gwrite_time p), (CT_WRITE, gwrite_time p), (CT_PRECHARGE, gwrite_time p), (CT_COMP, gwrite_time p),
       (CT_COMPS_READRES, gwrite_time p)],
     other_banks_same_bankgroup := [(CT_READ, read_to_read_l p), (CT_WRITE, read_to_write p), (CT_GWRITE, gwrite_time p),
       (CT_COMP, gwrite_time p), (CT_COMPS_READRES, gwrite_time p), (CT_READRES, gwrite_time p)],
     other_bankgroups_same_rank := [(CT_READ, read_to_read_s p), (CT_WRITE, read_to_write p), (CT_GWRITE, gwrite_time p),
       (CT_COMP, gwrite_time p), (CT_COMPS_READRES, gwrite_time p), (CT_READRES, gwrite_time p)]\<rparr>"

definition gact_timings :: "mem_timing \<Rightarrow> timing_params \<Rightarrow> cmd_timings" where
  "gact_timings t p = no_timings\<lparr>
     other_banks_same_bankgroup := [(CT_ACTIVATE, gact_to_act_same_bg p), (CT_G_ACT, activate_to_activate p),
       (CT_COMP, activate_to_read p), (CT_COMPS_READRES, activate_to_read p), (CT_READRES, activate_to_read p),
       (CT_PIM_PRECHARGE, activate_to_precharge p), (CT_PWRITE, activate_to_write p)],
     same_rank := [(CT_ACTIVATE, tFAW t), (CT_G_ACT, tFAW t), (CT_COMP, tRCDRD t), (CT_COMPS_READRES, tRCDRD t)]\<rparr>"

definition comp_timings :: "timing_params \<Rightarrow> cmd_timings" where
  "comp_timings p = no_timings\<lparr>
     same_rank := [(CT_READ, read_to_read_s p), (CT_WRITE, read_to_write p), (CT_GWRITE, read_to_read_s p),
       (CT_COMP, read_to_read_s p), (CT_READRES, read_to_read_s p), (CT_PIM_PRECHARGE, read_to_precharge p),
       (CT_PRECHARGE, pim_to_precharge p)]\<rparr>"

definition readres_timings :: "timing_params \<Rightarrow> cmd_timings" where
  "readres_timings p = no_timings\<lparr>
     same_rank := [(CT_READ, read_to_read_s p), (CT_WRITE, read_to_write p), (CT_GWRITE, read_to_read_s p),
       (CT_COMP, read_to_read_s p), (CT_READRES, read_to_read_s p), (CT_G_ACT, read_to_activate p),
       (CT_PIM_PRECHARGE, read_to_precharge p), (CT_PRECHARGE, pim_to_precharge p)],
     other_ranks := [(CT_READ, read_to_read_o p), (CT_WRITE, read_to_write_o p)]\<rparr>"

definition comps_readres_timings :: "timing_params \<Rightarrow> cmd_timings" where
  "comps_readres_timings p = no_timings\<lparr>
     same_rank := [(CT_READ, read_to_read_o p), (CT_WRITE, read_to_write_o p), (CT_GWRITE, read_to_read_s p),
       (CT_G_ACT, read_to_activate p), (CT_PIM_PRECHARGE, read_to_precharge p), (CT_PRECHARGE, pim_to_precharge p),
       (CT_COMP, read_to_read_s p), (CT_READRES, read_to_read_s p)]\<rparr>"

definition Timing :: "mem_config \<Rightarrow> CommandType \<Rightarrow> cmd_timings" where
  "Timing cfg ct = (let p = timing_params cfg; t = mc_timing cfg; pr = protocol (mc_structure cfg) in case ct of
       CT_READ \<Rightarrow> read_timings p
     | CT_WRITE \<Rightarrow> write_timings p
     | CT_READ_PRECHARGE \<Rightarrow> read_precharge_timings p
     | CT_WRITE_PRECHARGE \<Rightarrow> write_precharge_timings p
     | CT_ACTIVATE \<Rightarrow> activate_timings p
     | CT_PRECHARGE \<Rightarrow> precharge_timings (IsGDDR pr \<or> pr = LPDDR4) p
     | CT_REFRESH_BANK \<Rightarrow> refresh_bank_timings p
     | CT_REFRESH \<Rightarrow> rank_timings p ct
     | CT_SREF_ENTER \<Rightarrow> rank_timings p ct
     | CT_SREF_EXIT \<Rightarrow> rank_timings p ct
     | CT_PIM_PRECHARGE \<Rightarrow> no_timings\<lparr>same_bank := [(CT_REFRESH, precharge_to_activate p), (CT_G_ACT, precharge_to_activate p)]\<rparr>
     | CT_PWRITE \<Rightarrow> pwrite_timings t p
     | CT_GWRITE \<Rightarrow> gwrite_timings p
     | CT_G_ACT \<Rightarrow> gact_timings t p
     | CT_COMP \<Rightarrow> comp_timings p
     | CT_READRES \<Rightarrow> readres_timings p
     | CT_COMPS_READRES \<Rightarrow> comps_readres_timings p
     | CT_P_HEADER \<Rightarrow> no_timings
     | CT_SIZE \<Rightarrow> no_timings)"

end
