(* ===== verification/MemChannel.thy ===== *)
theory MemChannel
  imports MemTiming
begin

text \<open>
  A channel of the memory (NewtonSim/src/channel_state.h, channel_state.cc): its banks, the refresh queue
  and the activation windows, and the generator of the refreshes (refresh.h, refresh.cc); and that a
  channel accepts every command it answers.
\<close>

subsection \<open>State of a channel\<close>

text \<open>
  A bank is named by its rank, bank group and number.  The vectors over ranks and banks are functions;
  a command that names a bank outside the structure is undefined behaviour.
\<close>

type_synonym bank_id = "int \<times> int \<times> int"

definition rank_ids :: "mem_structure \<Rightarrow> int \<Rightarrow> bank_id list" where
  "rank_ids s i = [(i, j, k). j \<leftarrow> [0..mc_bankgroups s - 1], k \<leftarrow> [0..mc_banks_per_group s - 1]]"

definition group_ids :: "mem_structure \<Rightarrow> int \<Rightarrow> int \<Rightarrow> bank_id list" where
  "group_ids s i j = [(i, j, k). k \<leftarrow> [0..mc_banks_per_group s - 1]]"

definition bank_ids :: "mem_structure \<Rightarrow> bank_id list" where
  "bank_ids s = concat (map (rank_ids s) [0..mc_ranks s - 1])"

definition bank_at :: "Address \<Rightarrow> bank_id" where
  "bank_at a = (ad_rank a, ad_bankgroup a, ad_bank a)"

definition in_range :: "mem_structure \<Rightarrow> bank_id \<Rightarrow> bool" where
  "in_range s bk = (case bk of (i, j, k) \<Rightarrow> 0 \<le> i \<and> i < mc_ranks s \<and> 0 \<le> j \<and> j < mc_bankgroups s \<and> 0 \<le> k \<and> k < mc_banks_per_group s)"

record ChannelState =
  rank_idle_cycles :: "int \<Rightarrow> int"
  ch_pim_open_row :: int
  channel_id :: int
  comp_overhead_flag :: bool
  rank_is_sref :: "int \<Rightarrow> bool"
  bank_states :: "bank_id \<Rightarrow> BankState"
  refresh_q :: "Command list"
  four_aw :: "int \<Rightarrow> u64 list"
  thirty_two_aw :: "int \<Rightarrow> u64 list"

definition ChannelState_new :: "int \<Rightarrow> mem_config \<Rightarrow> ChannelState" where
  "ChannelState_new ch cfg = \<lparr>rank_idle_cycles = (\<lambda>_. 0), ch_pim_open_row = - 1, channel_id = ch, comp_overhead_flag = True,
     rank_is_sref = (\<lambda>_. False), bank_states = (\<lambda>_. BankState_new (enable_dual_buffer (mc_structure cfg))), refresh_q = [],
     four_aw = (\<lambda>_. []), thirty_two_aw = (\<lambda>_. [])\<rparr>"

definition IsAllBankIdleInRank :: "mem_structure \<Rightarrow> int \<Rightarrow> ChannelState \<Rightarrow> bool" where
  "IsAllBankIdleInRank s rank ch = list_all (\<lambda>bk. \<not> IsRowOpen (bank_states ch bk)) (rank_ids s rank)"

definition IsPIMIdleInRank :: "mem_structure \<Rightarrow> int \<Rightarrow> ChannelState \<Rightarrow> bool" where
  "IsPIMIdleInRank s rank ch = list_all (\<lambda>bk. \<not> IsPIMUsed (bank_states ch bk)) (rank_ids s rank)"

fun erase_where :: "('a \<Rightarrow> bool) \<Rightarrow> 'a list \<Rightarrow> 'a list" where
  "erase_where p [] = []"
| "erase_where p (x # xs) = (if p x then xs else x # erase_where p xs)"

definition BankNeedRefresh :: "bank_id \<Rightarrow> bool \<Rightarrow> ChannelState \<Rightarrow> ChannelState" where
  "BankNeedRefresh bk need ch = (case bk of (i, j, k) \<Rightarrow> ch\<lparr>refresh_q :=
     (if need then refresh_q ch @ [Command_new CT_REFRESH_BANK (Address0\<lparr>ad_rank := i, ad_bankgroup := j, ad_bank := k\<rparr>) (- 1)]
      else erase_where (\<lambda>c. bank_at (cmd_addr c) = bk) (refresh_q ch))\<rparr>)"

definition RankNeedRefresh :: "int \<Rightarrow> bool \<Rightarrow> ChannelState \<Rightarrow> ChannelState" where
  "RankNeedRefresh rank need ch = ch\<lparr>refresh_q :=
     (if need then refresh_q ch @ [Command_new CT_REFRESH (Address0\<lparr>ad_rank := rank\<rparr>) (- 1)]
      else erase_where (\<lambda>c. ad_rank (cmd_addr c) = rank) (refresh_q ch))\<rparr>"

text \<open>The loop stops the program at the first bank that does not agree.\<close>

definition CheckAllBanksSamePIMOpenRow :: "mem_structure \<Rightarrow> int \<Rightarrow> ChannelState \<Rightarrow> fault + ChannelState" where
  "CheckAllBanksSamePIMOpenRow s reserved_row ch =
     bindE (foldE (\<lambda>row bk. let b = bank_states ch bk; row = (if bk = (0, 0, 0) then PIMOpenRow b else row) in
         if enable_dual_buffer s \<and> open_row b = reserved_row then Inl Exited
         else if row \<noteq> PIMOpenRow b then Inl Exited else Inr row) (- 1) (bank_ids s))
       (\<lambda>row. Inr (ch\<lparr>ch_pim_open_row := row\<rparr>))"

subsection \<open>The activation window\<close>

definition IsFAWReady :: "int \<Rightarrow> u64 \<Rightarrow> ChannelState \<Rightarrow> bool" where
  "IsFAWReady rank curr_time ch =
     (case four_aw ch rank of [] \<Rightarrow> True | t # ts \<Rightarrow> \<not> (curr_time < t \<and> length (t # ts) \<ge> 4))"

definition Is32AWReady :: "int \<Rightarrow> u64 \<Rightarrow> ChannelState \<Rightarrow> bool" where
  "Is32AWReady rank curr_time ch =
     (case thirty_two_aw ch rank of [] \<Rightarrow> True | t # ts \<Rightarrow> \<not> (curr_time < t \<and> length (t # ts) \<ge> 32))"

definition ActivationWindowOk :: "mem_config \<Rightarrow> int \<Rightarrow> u64 \<Rightarrow> ChannelState \<Rightarrow> bool" where
  "ActivationWindowOk cfg rank curr_time ch =
     (IsFAWReady rank curr_time ch \<and> (IsGDDR (protocol (mc_structure cfg)) \<longrightarrow> Is32AWReady rank curr_time ch))"

text \<open>At most one expired entry is dropped.\<close>

definition push_window :: "u64 \<Rightarrow> u64 \<Rightarrow> u64 list \<Rightarrow> u64 list" where
  "push_window curr_time until aw = (case aw of [] \<Rightarrow> [] | t # ts \<Rightarrow> if curr_time \<ge> t then ts else aw) @ [until]"

definition UpdateActivationTimes :: "mem_config \<Rightarrow> int \<Rightarrow> u64 \<Rightarrow> ChannelState \<Rightarrow> ChannelState" where
  "UpdateActivationTimes cfg rank t ch = (let m = mc_timing cfg;
     ch = ch\<lparr>four_aw := (four_aw ch)(rank := push_window t (t + of_int (tFAW m)) (four_aw ch rank))\<rparr>
   in if IsGDDR (protocol (mc_structure cfg))
      then ch\<lparr>thirty_two_aw := (thirty_two_aw ch)(rank := push_window t (t + of_int (t32AW m)) (thirty_two_aw ch rank))\<rparr>
      else ch)"

subsection \<open>The command that must come first\<close>

text \<open>
  The loops over banks return at the first bank whose answer the loop hands on (\<open>Inl\<close>); otherwise they
  count the banks that are ready for the command, and the last answer is the result if all are.
\<close>

fun scan_banks :: "Command \<Rightarrow> u64 \<Rightarrow> (bank_id \<Rightarrow> BankState) \<Rightarrow> (bank_id \<Rightarrow> Command \<Rightarrow> fault + Command option) \<Rightarrow> bank_id list \<Rightarrow>
    nat \<Rightarrow> Command \<Rightarrow> fault + (Command + nat \<times> Command)" where
  "scan_banks cmd clk bs hand_on [] n lst = Inr (Inr (n, lst))"
| "scan_banks cmd clk bs hand_on (bk # ids) n lst = bindE (Bank_GetReadyCommand cmd clk (bs bk)) (\<lambda>r.
     if \<not> IsValid r then scan_banks cmd clk bs hand_on ids n r
     else bindE (hand_on bk r) (\<lambda>h. case h of Some c \<Rightarrow> Inr (Inl c) | None \<Rightarrow> scan_banks cmd clk bs hand_on ids (n + 1) r))"

definition scan_result :: "int \<Rightarrow> Command + nat \<times> Command \<Rightarrow> Command" where
  "scan_result num r = (case r of Inl c \<Rightarrow> c | Inr (n, lst) \<Rightarrow> if int n = num then lst else Command0)"

definition hand_on_channel :: "Command \<Rightarrow> bank_id \<Rightarrow> Command \<Rightarrow> fault + Command option" where
  "hand_on_channel cmd bk r = (case bk of (i, j, k) \<Rightarrow>
     if cmd_type r = cmd_type cmd then Inr None
     else if IsChannelCMD cmd \<and> cmd_type r \<noteq> CT_G_ACT then Inl Exited
     else Inr (Some (r\<lparr>cmd_addr := Address0\<lparr>ad_rank := i, ad_bankgroup := j, ad_bank := k, ad_row := cmd_row r\<rparr>\<rparr>)))"

definition hand_on_rank :: "Command \<Rightarrow> bank_id \<Rightarrow> Command \<Rightarrow> fault + Command option" where
  "hand_on_rank cmd bk r = (case bk of (i, j, k) \<Rightarrow>
     if cmd_type r = cmd_type cmd then Inr None
     else Inr (Some (r\<lparr>cmd_addr := Address0\<lparr>ad_rank := i, ad_bankgroup := j, ad_bank := k\<rparr>\<rparr>)))"

definition hand_on_group :: "mem_config \<Rightarrow> u64 \<Rightarrow> ChannelState \<Rightarrow> Command \<Rightarrow> bank_id \<Rightarrow> Command \<Rightarrow> fault + Command option" where
  "hand_on_group cfg clk ch cmd bk r = (case bk of (i, j, k) \<Rightarrow>
     if cmd_type r = cmd_type cmd then
       (if ActivationWindowOk cfg (ad_rank (cmd_addr r)) clk ch then Inr None else Inr (Some Command0))
     else if cmd_type r = CT_PIM_PRECHARGE \<or> \<not> enable_dual_buffer (mc_structure cfg) \<and> cmd_type r = CT_PRECHARGE then
       Inr (Some (r\<lparr>cmd_addr := Address0\<lparr>ad_rank := i, ad_bankgroup := j, ad_bank := k\<rparr>\<rparr>))
     else Inl Exited)"

definition Channel_GetReadyCommand :: "mem_config \<Rightarrow> Command \<Rightarrow> u64 \<Rightarrow> ChannelState \<Rightarrow> fault + Command" where
  "Channel_GetReadyCommand cfg cmd clk ch = (let s = mc_structure cfg; bs = bank_states ch; a = cmd_addr cmd in
     if IsPIMHeader cmd \<and> for_gwrite cmd then Inl Exited
     else if IsChannelCMD cmd \<or> IsPIMHeader cmd then
       bindE (scan_banks cmd clk bs (hand_on_channel cmd) (bank_ids s) 0 Command0) (\<lambda>r.
       Inr (scan_result (mc_ranks s * mc_bankgroups s * mc_banks_per_group s) r))
     else if IsRankCMD cmd then
       (if \<not> (0 \<le> ad_rank a \<and> ad_rank a < mc_ranks s) then Inl Undefined
        else bindE (scan_banks cmd clk bs (hand_on_rank cmd) (rank_ids s (ad_rank a)) 0 Command0) (\<lambda>r.
        Inr (scan_result (mc_banks s) r)))
     else if cmd_type cmd = CT_G_ACT then
       (if \<not> in_range s (ad_rank a, ad_bankgroup a, 0) then Inl Undefined
        else bindE (scan_banks cmd clk bs (hand_on_group cfg clk ch cmd) (group_ids s (ad_rank a) (ad_bankgroup a)) 0 Command0) (\<lambda>r.
        Inr (scan_result (mc_banks_per_group s) r)))
     else if \<not> in_range s (bank_at a) then Inl Undefined
     else bindE (Bank_GetReadyCommand cmd clk (bs (bank_at a))) (\<lambda>r.
       Inr (if cmd_type r = CT_ACTIVATE \<and> \<not> ActivationWindowOk cfg (ad_rank (cmd_addr r)) clk ch then Command0 else r)))"

subsection \<open>The estimated latency of an operation in memory\<close>

definition EstimatePIMOperationLatency :: "mem_config \<Rightarrow> Command \<Rightarrow> ChannelState \<Rightarrow> fault + int" where
  "EstimatePIMOperationLatency cfg cmd ch = ast (IsGwrite cmd \<or> IsPIMHeader cmd \<and> \<not> for_gwrite cmd)
     (let s = mc_structure cfg; t = mc_timing cfg; row = cmd_row cmd; precharge = AL t + tRTP t; open = tRP t + tRCDRD t in
      if IsGwrite cmd then
        (if \<not> in_range s (bank_at (cmd_addr cmd)) then Inl Undefined
         else let b = bank_states ch (bank_at (cmd_addr cmd)) in
         Inr ((if IsRowOpen b then (if open_row b \<noteq> row then precharge + open else 0) else open) + gwrite_delay t))
      else
        (let groups = [group_ids s i j. i \<leftarrow> [0..mc_ranks s - 1], j \<leftarrow> [0..mc_bankgroups s - 1]];
             rows = (\<lambda>g. map (\<lambda>bk. PIMOpenRow (bank_states ch bk)) g);
             need = filter (\<lambda>g. int (length (filter (\<lambda>r. r \<noteq> - 1 \<and> r = row) (rows g))) \<noteq> mc_banks_per_group s) groups;
             num_gact = int (length need);
             num_precharge = int (sum_list (map (\<lambda>g. length (filter (\<lambda>r. r \<noteq> - 1 \<and> r \<noteq> row) (rows g))) need))
         in Inr (num_precharge * precharge + (tFAW t * (num_gact sdiv 2 - 1) + tRCDRD t)
              + max (burst_cycle s) (tCCD_S t) * max (num_comps cmd) 6
              + max (burst_cycle s) (tCCD_L t) * (num_readres cmd - 1))))"

subsection \<open>The effect of a command\<close>

definition update_banks :: "Command \<Rightarrow> bank_id list \<Rightarrow> ChannelState \<Rightarrow> fault + ChannelState" where
  "update_banks cmd ids ch =
     foldE (\<lambda>ch bk. bindE (Bank_UpdateState cmd (bank_states ch bk)) (\<lambda>b. Inr (ch\<lparr>bank_states := (bank_states ch)(bk := b)\<rparr>))) ch ids"

definition Channel_UpdateState :: "mem_config \<Rightarrow> Command \<Rightarrow> ChannelState \<Rightarrow> fault + ChannelState" where
  "Channel_UpdateState cfg cmd ch = (let s = mc_structure cfg; a = cmd_addr cmd; ct = cmd_type cmd;
     ch = (if ct = CT_READRES then ch\<lparr>comp_overhead_flag := True\<rparr> else ch) in
     if IsChannelCMD cmd then update_banks cmd (bank_ids s) ch
     else if IsRankCMD cmd then
       (if \<not> (0 \<le> ad_rank a \<and> ad_rank a < mc_ranks s) then Inl Undefined
        else bindE (update_banks cmd (rank_ids s (ad_rank a)) ch) (\<lambda>ch.
         Inr (if IsRefresh cmd then RankNeedRefresh (ad_rank a) False ch
              else ch\<lparr>rank_is_sref := (rank_is_sref ch)(ad_rank a := (ct = CT_SREF_ENTER))\<rparr>)))
     else if ct = CT_G_ACT then
       (if \<not> in_range s (ad_rank a, ad_bankgroup a, 0) then Inl Undefined
        else update_banks cmd (group_ids s (ad_rank a) (ad_bankgroup a)) ch)
     else if \<not> in_range s (bank_at a) then Inl Undefined
     else bindE (update_banks cmd [bank_at a] ch) (\<lambda>ch. Inr (if IsRefresh cmd then BankNeedRefresh (bank_at a) False ch else ch)))"

text \<open>The constraints of a list are put on every bank of \<open>ids\<close>; the delay is an \<open>int\<close> added to the clock.\<close>

definition constrain :: "timing_list \<Rightarrow> u64 \<Rightarrow> BankState \<Rightarrow> BankState" where
  "constrain l clk b = fold (\<lambda>(ct, d). Bank_UpdateTiming ct (clk + of_int d)) l b"

definition constrain_banks :: "bank_id list \<Rightarrow> timing_list \<Rightarrow> u64 \<Rightarrow> ChannelState \<Rightarrow> ChannelState" where
  "constrain_banks ids l clk ch =
     ch\<lparr>bank_states := (\<lambda>bk. if bk \<in> set ids then constrain l clk (bank_states ch bk) else bank_states ch bk)\<rparr>"

definition UpdateSameBankTiming :: "mem_structure \<Rightarrow> Address \<Rightarrow> timing_list \<Rightarrow> u64 \<Rightarrow> ChannelState \<Rightarrow> ChannelState" where
  "UpdateSameBankTiming s a = constrain_banks [bank_at a]"

definition UpdateSameBankgroupTiming :: "mem_structure \<Rightarrow> Address \<Rightarrow> timing_list \<Rightarrow> u64 \<Rightarrow> ChannelState \<Rightarrow> ChannelState" where
  "UpdateSameBankgroupTiming s a = constrain_banks (group_ids s (ad_rank a) (ad_bankgroup a))"

definition UpdateOtherBanksSameBankgroupTiming :: "mem_structure \<Rightarrow> Address \<Rightarrow> timing_list \<Rightarrow> u64 \<Rightarrow> ChannelState \<Rightarrow> ChannelState" where
  "UpdateOtherBanksSameBankgroupTiming s a =
     constrain_banks (filter (\<lambda>(i, j, k). k \<noteq> ad_bank a) (group_ids s (ad_rank a) (ad_bankgroup a)))"

definition UpdateOtherBankgroupsSameRankTiming :: "mem_structure \<Rightarrow> Address \<Rightarrow> timing_list \<Rightarrow> u64 \<Rightarrow> ChannelState \<Rightarrow> ChannelState" where
  "UpdateOtherBankgroupsSameRankTiming s a = constrain_banks (filter (\<lambda>(i, j, k). j \<noteq> ad_bankgroup a) (rank_ids s (ad_rank a)))"

definition UpdateOtherRanksTiming :: "mem_structure \<Rightarrow> Address \<Rightarrow> timing_list \<Rightarrow> u64 \<Rightarrow> ChannelState \<Rightarrow> ChannelState" where
  "UpdateOtherRanksTiming s a = constrain_banks (filter (\<lambda>(i, j, k). i \<noteq> ad_rank a) (bank_ids s))"

definition UpdateSameRankTiming :: "mem_structure \<Rightarrow> Address \<Rightarrow> timing_list \<Rightarrow> u64 \<Rightarrow> ChannelState \<Rightarrow> ChannelState" where
  "UpdateSameRankTiming s a = constrain_banks (rank_ids s (ad_rank a))"

text \<open>The filling of the adder pipeline is charged to the first bank only: the flag is cleared there.\<close>

definition UpdateTimingForPIM :: "mem_config \<Rightarrow> Command \<Rightarrow> timing_list \<Rightarrow> u64 \<Rightarrow> ChannelState \<Rightarrow> ChannelState" where
  "UpdateTimingForPIM cfg cmd l clk ch = (let ids = bank_ids (mc_structure cfg);
     ch = (if cmd_type cmd = CT_COMP \<and> comp_overhead_flag ch \<and> ids \<noteq> []
           then (constrain_banks [hd ids] [(CT_READRES, tCCD_S (mc_timing cfg) * 6)] clk ch)\<lparr>comp_overhead_flag := False\<rparr> else ch)
   in constrain_banks ids l clk ch)"

definition UpdateChannelTiming :: "mem_config \<Rightarrow> Command \<Rightarrow> timing_list \<Rightarrow> u64 \<Rightarrow> ChannelState \<Rightarrow> ChannelState" where
  "UpdateChannelTiming cfg cmd l clk = (let s = mc_structure cfg in
     constrain_banks (bank_ids s)
       (l @ [(CT_COMPS_READRES, max (burst_cycle s) (tCCD_S (mc_timing cfg)) * (max (num_comps cmd) 6 + 1))]) clk)"

definition UpdateTiming :: "mem_config \<Rightarrow> Command \<Rightarrow> u64 \<Rightarrow> ChannelState \<Rightarrow> fault + ChannelState" where
  "UpdateTiming cfg cmd clk ch = (let s = mc_structure cfg; ct = cmd_type cmd; t = Timing cfg ct; a = cmd_addr cmd in
     if ct \<in> {CT_ACTIVATE, CT_READ, CT_READ_PRECHARGE, CT_WRITE, CT_WRITE_PRECHARGE, CT_PRECHARGE, CT_REFRESH_BANK, CT_PWRITE} then
       (let ch = (if ct = CT_ACTIVATE then UpdateActivationTimes cfg (ad_rank a) clk ch else ch) in
        Inr (UpdateOtherRanksTiming s a (other_ranks t) clk
          (UpdateOtherBankgroupsSameRankTiming s a (other_bankgroups_same_rank t) clk
            (UpdateOtherBanksSameBankgroupTiming s a (other_banks_same_bankgroup t) clk
              (UpdateSameBankTiming s a (same_bank t) clk ch)))))
     else if ct \<in> {CT_REFRESH, CT_SREF_ENTER, CT_SREF_EXIT} then Inr (UpdateSameRankTiming s a (same_rank t) clk ch)
     else if ct = CT_GWRITE then
       Inr (UpdateSameBankTiming s a (same_bank t) clk
         (UpdateOtherBankgroupsSameRankTiming s a (other_bankgroups_same_rank t) clk
           (UpdateOtherBanksSameBankgroupTiming s a (other_banks_same_bankgroup t) clk ch)))
     else if ct = CT_PIM_PRECHARGE then Inr (UpdateSameBankTiming s a (same_bank t) clk ch)
     else if ct = CT_G_ACT then
       Inr (UpdateSameRankTiming s a (same_rank t) clk (UpdateSameBankgroupTiming s a (other_banks_same_bankgroup t) clk ch))
     else if ct = CT_COMP then
       Inr (fold (\<lambda>i. UpdateSameRankTiming s (Address0\<lparr>ad_rank := i\<rparr>) (same_rank t) clk) [0..mc_ranks s - 1]
         (UpdateTimingForPIM cfg cmd (same_rank t) clk ch))
     else if ct = CT_READRES then
       Inr (fold (\<lambda>i ch. UpdateOtherRanksTiming s (Address0\<lparr>ad_rank := i\<rparr>) (other_ranks t) clk
           (UpdateSameRankTiming s (Address0\<lparr>ad_rank := i\<rparr>) (same_rank t) clk ch)) [0..mc_ranks s - 1] ch)
     else if ct = CT_COMPS_READRES then Inr (UpdateChannelTiming cfg cmd (same_rank t) clk ch)
     else Inl Exited)"

definition UpdateTimingAndStates :: "mem_config \<Rightarrow> Command \<Rightarrow> u64 \<Rightarrow> ChannelState \<Rightarrow> fault + ChannelState" where
  "UpdateTimingAndStates cfg cmd clk ch = bindE (Channel_UpdateState cfg cmd ch) (UpdateTiming cfg cmd clk)"

subsection \<open>Refreshes\<close>

record Refresh =
  rf_clk :: u64
  refresh_interval :: int
  rf_policy :: RefreshPolicy
  next_rank :: int
  next_bg :: int
  next_bank :: int

definition Refresh_new :: "mem_config \<Rightarrow> fault + Refresh" where
  "Refresh_new cfg = (let p = refresh_policy (mc_system cfg); t = mc_timing cfg in
     bindE (if p = RANK_LEVEL_SIMULTANEOUS then Inr (tREFI t) else if p = BANK_LEVEL_STAGGERED then Inr (tREFIb t)
            else int_div (tREFI t) (mc_ranks (mc_structure cfg)))
       (\<lambda>i. Inr \<lparr>rf_clk = 0, refresh_interval = i, rf_policy = p, next_rank = 0, next_bg = 0, next_bank = 0\<rparr>))"

definition IterateNext :: "mem_structure \<Rightarrow> Refresh \<Rightarrow> fault + Refresh" where
  "IterateNext s r = (case rf_policy r of
       RANK_LEVEL_STAGGERED \<Rightarrow> Inr (r\<lparr>next_rank := (next_rank r + 1) mod mc_ranks s\<rparr>)
     | BANK_LEVEL_STAGGERED \<Rightarrow>
         (let bg = (next_bg r + 1) mod mc_bankgroups s; bank = (next_bank r + 1) mod mc_banks_per_group s
          in Inr (if bg \<noteq> 0 then r\<lparr>next_bg := bg\<rparr>
                  else if bank \<noteq> 0 then r\<lparr>next_bg := bg, next_bank := bank\<rparr>
                  else r\<lparr>next_bg := bg, next_bank := bank, next_rank := (next_rank r + 1) mod mc_ranks s\<rparr>))
     | RANK_LEVEL_SIMULTANEOUS \<Rightarrow> Inl Exited)"

text \<open>The loop over the ranks of the first policy ends after the first rank that is not in self-refresh.\<close>

definition InsertRefresh :: "mem_structure \<Rightarrow> Refresh \<Rightarrow> ChannelState \<Rightarrow> fault + Refresh \<times> ChannelState" where
  "InsertRefresh s r ch = (let i = next_rank r in case rf_policy r of
       RANK_LEVEL_SIMULTANEOUS \<Rightarrow> Inr (r, case filter (\<lambda>i. \<not> rank_is_sref ch i) [0..mc_ranks s - 1] of
           [] \<Rightarrow> ch | i # _ \<Rightarrow> RankNeedRefresh i True ch)
     | RANK_LEVEL_STAGGERED \<Rightarrow> bindE (IterateNext s r) (\<lambda>r.
         Inr (r, if rank_is_sref ch i then ch else RankNeedRefresh i True ch))
     | BANK_LEVEL_STAGGERED \<Rightarrow> bindE (IterateNext s r) (\<lambda>r'.
         Inr (r', if rank_is_sref ch i then ch else BankNeedRefresh (i, next_bg r, next_bank r) True ch)))"

definition Refresh_ClockTick :: "mem_structure \<Rightarrow> Refresh \<Rightarrow> ChannelState \<Rightarrow> fault + Refresh \<times> ChannelState" where
  "Refresh_ClockTick s r ch = (let i = of_int (refresh_interval r) :: u64 in
     if i = 0 then Inl Undefined
     else bindE (if rf_clk r mod i = 0 \<and> rf_clk r > 0 then InsertRefresh s r ch else Inr (r, ch)) (\<lambda>(r, ch).
       Inr (r\<lparr>rf_clk := rf_clk r + 1\<rparr>, ch)))"

definition GetRefreshSlack :: "Refresh \<Rightarrow> fault + int \<times> int" where
  "GetRefreshSlack r = (let i = of_int (refresh_interval r) :: u64 in
     if rf_policy r \<noteq> RANK_LEVEL_STAGGERED then Inl Exited
     else if i = 0 then Inl Undefined
     else Inr (next_rank r, sint (ucast (i - rf_clk r mod i) :: 32 word)))"

subsection \<open>Loops over banks\<close>

text \<open>A quantifier over banks stays one quantifier.\<close>

declare split_paired_All [simp del] split_paired_Ex [simp del]

lemma set_rank_ids: "bk \<in> set (rank_ids s i) \<longleftrightarrow> (case bk of (i', j, k) \<Rightarrow> i' = i \<and> 0 \<le> j \<and> j < mc_bankgroups s \<and> 0 \<le> k \<and> k < mc_banks_per_group s)"
  by (force simp: rank_ids_def)

lemma set_group_ids: "bk \<in> set (group_ids s i j) \<longleftrightarrow> (case bk of (i', j', k) \<Rightarrow> i' = i \<and> j' = j \<and> 0 \<le> k \<and> k < mc_banks_per_group s)"
  by (auto simp: group_ids_def)

lemma set_bank_ids: "bk \<in> set (bank_ids s) \<longleftrightarrow> in_range s bk"
  by (auto simp: bank_ids_def in_range_def set_rank_ids)

lemma distinct_rank_ids: "distinct (rank_ids s i)"
proof -
  have "distinct (concat (map (\<lambda>j. map (\<lambda>k. (i, j, k)) [0..b]) js))" if "distinct js" for b :: int and js :: "int list"
    using that by (induction js) (auto simp: distinct_map inj_on_def)
  then show ?thesis by (simp add: rank_ids_def)
qed

lemma distinct_group_ids: "distinct (group_ids s i j)"
  by (auto simp: group_ids_def distinct_map inj_on_def)

lemma length_rank_ids: "length (rank_ids s i) = nat (mc_bankgroups s) * nat (mc_banks_per_group s)"
proof -
  have "length (concat (map (\<lambda>j. map (\<lambda>k. (i, j, k)) [0..b]) js)) = length js * nat (b + 1)" for b :: int and js :: "int list"
    by (induction js) (simp_all add: algebra_simps)
  then show ?thesis by (simp add: rank_ids_def)
qed

lemma distinct_bank_ids: "distinct (bank_ids s)"
proof -
  have "distinct (concat (map (rank_ids s) is))" if "distinct is" for "is"
    using that by (induction "is") (auto simp: distinct_rank_ids set_rank_ids)
  then show ?thesis by (simp add: bank_ids_def)
qed

lemma length_bank_ids:
  "0 \<le> mc_ranks s \<Longrightarrow> 0 \<le> mc_bankgroups s \<Longrightarrow> 0 \<le> mc_banks_per_group s \<Longrightarrow>
     int (length (bank_ids s)) = mc_ranks s * mc_bankgroups s * mc_banks_per_group s"
proof -
  assume n: "0 \<le> mc_ranks s" "0 \<le> mc_bankgroups s" "0 \<le> mc_banks_per_group s"
  have "length (concat (map (rank_ids s) js)) = length js * (nat (mc_bankgroups s) * nat (mc_banks_per_group s))" for js
    by (induction js) (simp_all add: length_rank_ids)
  then show ?thesis using n by (simp add: bank_ids_def)
qed

lemma length_group_ids: "length (group_ids s i j) = nat (mc_banks_per_group s)"
  by (simp add: group_ids_def)

text \<open>What the result of a scan says of the banks.\<close>

lemma scan_banks_handed:
  assumes "scan_banks cmd clk bs h ids n lst = Inr (Inl c)"
  shows "\<exists>bk\<in>set ids. \<exists>r. Bank_GetReadyCommand cmd clk (bs bk) = Inr r \<and> IsValid r \<and> h bk r = Inr (Some c)"
  using assms
proof (induction ids arbitrary: n lst)
  case (Cons bk ids)
  then obtain r where r: "Bank_GetReadyCommand cmd clk (bs bk) = Inr r" by auto
  show ?case
  proof (cases "IsValid r")
    case True
    then obtain x where x: "h bk r = Inr x" using Cons.prems r by auto
    then show ?thesis
      using Cons.prems Cons.IH r True by (cases x) auto
  next
    case False
    then show ?thesis using Cons.prems Cons.IH r by auto
  qed
qed simp

lemma scan_banks_all:
  assumes "scan_banks cmd clk bs h ids n lst = Inr (Inr (m, l))"
  shows "m \<le> n + length ids \<and> (m = n + length ids \<longrightarrow>
     (\<forall>bk\<in>set ids. \<exists>r. Bank_GetReadyCommand cmd clk (bs bk) = Inr r \<and> IsValid r \<and> h bk r = Inr None) \<and>
     (if ids = [] then l = lst else Bank_GetReadyCommand cmd clk (bs (List.last ids)) = Inr l))"
  using assms
proof (induction ids arbitrary: n lst)
  case (Cons bk ids)
  then obtain r where r: "Bank_GetReadyCommand cmd clk (bs bk) = Inr r" by auto
  show ?case
  proof (cases "IsValid r")
    case True
    then obtain x where x: "h bk r = Inr x" using Cons.prems r by auto
    then have "scan_banks cmd clk bs h ids (n + 1) r = Inr (Inr (m, l))" "x = None"
      using Cons.prems r True by (auto split: option.splits)
    then show ?thesis using Cons.IH [of "n + 1" r] r True x by (auto split: if_splits)
  next
    case False
    then have "scan_banks cmd clk bs h ids n r = Inr (Inr (m, l))" using Cons.prems r by auto
    then show ?thesis using Cons.IH [of n r] r False by auto
  qed
qed auto

lemma scan_result_cases:
  assumes "scan_banks cmd clk bs h ids 0 Command0 = Inr res" "IsValid (scan_result num res)" "num = int (length ids)"
  obtains (handed) bk r where "bk \<in> set ids" "Bank_GetReadyCommand cmd clk (bs bk) = Inr r" "IsValid r"
      "h bk r = Inr (Some (scan_result num res))"
  | (all) bk where "bk \<in> set ids" "Bank_GetReadyCommand cmd clk (bs bk) = Inr (scan_result num res)"
      "\<forall>bk\<in>set ids. \<exists>r. Bank_GetReadyCommand cmd clk (bs bk) = Inr r \<and> IsValid r \<and> h bk r = Inr None"
proof (cases res)
  case (Inl c)
  then show thesis using scan_banks_handed [of cmd clk bs h ids 0 Command0 c] assms handed by (auto simp: scan_result_def)
next
  case (Inr ml)
  then obtain m l where ml: "res = Inr (m, l)" by (cases ml) auto
  then have "m = length ids" "scan_result num res = l"
    using assms(2,3) by (auto simp: scan_result_def IsValid_def Command0_def split: if_splits)
  then show thesis
    using scan_banks_all [of cmd clk bs h ids 0 Command0 m l] assms ml all [of "List.last ids"]
    by (auto simp: IsValid_def Command0_def split: if_splits)
qed

lemma update_banks_ok:
  assumes "distinct ids" "\<And>bk. bk \<in> set ids \<Longrightarrow> Bank_UpdateState cmd (bank_states ch bk) = Inr (f bk)"
  shows "update_banks cmd ids ch = Inr (ch\<lparr>bank_states := (\<lambda>bk. if bk \<in> set ids then f bk else bank_states ch bk)\<rparr>)"
  using assms
proof (induction ids arbitrary: ch)
  case (Cons bk ids)
  have "update_banks cmd (bk # ids) ch = update_banks cmd ids (ch\<lparr>bank_states := (bank_states ch)(bk := f bk)\<rparr>)"
    using Cons.prems by (simp add: update_banks_def)
  also have "\<dots> = Inr (ch\<lparr>bank_states := (\<lambda>bk'. if bk' \<in> set ids then f bk' else ((bank_states ch)(bk := f bk)) bk')\<rparr>)"
    using Cons.prems by (subst Cons.IH) (auto cong: if_cong)
  also have "\<dots> = Inr (ch\<lparr>bank_states := (\<lambda>bk'. if bk' \<in> set (bk # ids) then f bk' else bank_states ch bk')\<rparr>)"
    by (intro arg_cong [where f = Inr]) (auto intro!: ChannelState.equality)
  finally show ?case .
qed (simp add: update_banks_def)

subsection \<open>Timing only moves forward\<close>

lemma Bank_UpdateState_keeps:
  "Bank_UpdateState c b = Inr b' \<Longrightarrow> cmd_timing b' = cmd_timing b \<and> bs_dual_buffer b' = bs_dual_buffer b"
  by (auto simp: Bank_UpdateState_def UpdateStateSingle_def UpdatePIMState_def UpdateNormalState_def Let_def
      split: if_splits row_state.splits)

lemma constrain_simps [simp]:
  "constrain [] clk b = b"
  "constrain ((ct, d) # l) clk b = constrain l clk (Bank_UpdateTiming ct (clk + of_int d) b)"
  by (simp_all add: constrain_def)

lemma constrain_state:
  "bs_state (constrain l clk b) = bs_state b \<and> pim_state (constrain l clk b) = pim_state b \<and>
   open_row (constrain l clk b) = open_row b \<and> pim_open_row (constrain l clk b) = pim_open_row b \<and>
   bs_dual_buffer (constrain l clk b) = bs_dual_buffer b"
proof (induction l arbitrary: b)
  case (Cons x l)
  obtain c d where x: "x = (c, d)" by fastforce
  show ?case unfolding x constrain_simps using Cons [of "Bank_UpdateTiming c (clk + of_int d) b"]
    by (simp add: Bank_UpdateTiming_def)
qed simp

lemma constrain_mono: "cmd_timing b ct \<le> cmd_timing (constrain l clk b) ct"
proof (induction l arbitrary: b)
  case (Cons x l)
  obtain c d where x: "x = (c, d)" by fastforce
  have "cmd_timing b ct \<le> cmd_timing (Bank_UpdateTiming c (clk + of_int d) b) ct" by (simp add: Bank_UpdateTiming_def)
  also have "\<dots> \<le> cmd_timing (constrain (x # l) clk b) ct" using Cons x by simp
  finally show ?case .
qed simp

lemma constrain_set: "(ct, d) \<in> set l \<Longrightarrow> clk + of_int d \<le> cmd_timing (constrain l clk b) ct"
proof (induction l arbitrary: b)
  case (Cons x l)
  obtain c e where x: "x = (c, e)" by fastforce
  show ?case
  proof (cases "(ct, d) = (c, e)")
    case True
    then have "clk + of_int d \<le> cmd_timing (Bank_UpdateTiming c (clk + of_int e) b) ct" by (simp add: Bank_UpdateTiming_def)
    also have "\<dots> \<le> cmd_timing (constrain (x # l) clk b) ct" using constrain_mono x by simp
    finally show ?thesis .
  next
    case False
    then show ?thesis using Cons x by auto
  qed
qed simp

text \<open>What a step of timing keeps: the states of the banks, and every constraint already there.\<close>

definition later :: "ChannelState \<Rightarrow> ChannelState \<Rightarrow> bool" where
  "later ch ch' \<longleftrightarrow> (\<forall>bk. bs_state (bank_states ch' bk) = bs_state (bank_states ch bk) \<and>
     pim_state (bank_states ch' bk) = pim_state (bank_states ch bk) \<and> open_row (bank_states ch' bk) = open_row (bank_states ch bk) \<and>
     pim_open_row (bank_states ch' bk) = pim_open_row (bank_states ch bk) \<and>
     bs_dual_buffer (bank_states ch' bk) = bs_dual_buffer (bank_states ch bk) \<and>
     (\<forall>ct. cmd_timing (bank_states ch bk) ct \<le> cmd_timing (bank_states ch' bk) ct))"

lemma later_refl: "later ch ch" by (simp add: later_def)

lemma later_trans: "later a b \<Longrightarrow> later b c \<Longrightarrow> later a c"
  unfolding later_def by (metis order_trans)

lemma later_banks: "later ch ch1 \<Longrightarrow> bank_states ch' = bank_states ch1 \<Longrightarrow> later ch ch'"
  by (simp add: later_def)

lemma later_constrain: "later ch ch1 \<Longrightarrow> later ch (constrain_banks ids l clk ch1)"
  by (erule later_trans) (simp add: later_def constrain_banks_def constrain_state constrain_mono)

lemma later_fold: "later ch ch1 \<Longrightarrow> (\<And>x ch1. later ch ch1 \<Longrightarrow> later ch (f x ch1)) \<Longrightarrow> later ch (fold f xs ch1)"
  by (induction xs arbitrary: ch1) auto

lemma later_window: "later ch ch1 \<Longrightarrow> later ch (UpdateActivationTimes cfg i clk ch1)"
  by (erule later_banks) (simp add: UpdateActivationTimes_def Let_def)

lemma later_pim: "later ch ch1 \<Longrightarrow> later ch (UpdateTimingForPIM cfg c l clk ch1)"
  unfolding UpdateTimingForPIM_def Let_def
  by (rule later_constrain) (simp add: later_banks [OF later_constrain])

lemmas timing_updates = UpdateSameBankTiming_def UpdateSameBankgroupTiming_def UpdateOtherBanksSameBankgroupTiming_def
  UpdateOtherBankgroupsSameRankTiming_def UpdateOtherRanksTiming_def UpdateSameRankTiming_def

text \<open>The cases of \<open>UpdateTiming\<close>.\<close>

lemma UpdateTiming_cases:
  assumes "UpdateTiming cfg c clk ch = Inr ch'"
  defines "s \<equiv> mc_structure cfg" and "t \<equiv> Timing cfg (cmd_type c)" and "a \<equiv> cmd_addr c"
  obtains (bank) ch0 where "cmd_type c \<in> {CT_ACTIVATE, CT_READ, CT_READ_PRECHARGE, CT_WRITE, CT_WRITE_PRECHARGE, CT_PRECHARGE, CT_REFRESH_BANK, CT_PWRITE}"
      "ch0 = (if cmd_type c = CT_ACTIVATE then UpdateActivationTimes cfg (ad_rank a) clk ch else ch)"
      "ch' = UpdateOtherRanksTiming s a (other_ranks t) clk (UpdateOtherBankgroupsSameRankTiming s a (other_bankgroups_same_rank t) clk
              (UpdateOtherBanksSameBankgroupTiming s a (other_banks_same_bankgroup t) clk (UpdateSameBankTiming s a (same_bank t) clk ch0)))"
  | (rank) "cmd_type c \<in> {CT_REFRESH, CT_SREF_ENTER, CT_SREF_EXIT}" "ch' = UpdateSameRankTiming s a (same_rank t) clk ch"
  | (gwrite) "cmd_type c = CT_GWRITE" "ch' = UpdateSameBankTiming s a (same_bank t) clk
         (UpdateOtherBankgroupsSameRankTiming s a (other_bankgroups_same_rank t) clk
           (UpdateOtherBanksSameBankgroupTiming s a (other_banks_same_bankgroup t) clk ch))"
  | (pim_precharge) "cmd_type c = CT_PIM_PRECHARGE" "ch' = UpdateSameBankTiming s a (same_bank t) clk ch"
  | (g_act) "cmd_type c = CT_G_ACT"
      "ch' = UpdateSameRankTiming s a (same_rank t) clk (UpdateSameBankgroupTiming s a (other_banks_same_bankgroup t) clk ch)"
  | (comp) "cmd_type c \<in> {CT_COMP, CT_READRES}" "later ch ch'" "four_aw ch' = four_aw ch"
  | (comps_readres) "cmd_type c = CT_COMPS_READRES" "ch' = UpdateChannelTiming cfg c (same_rank t) clk ch"
proof -
  have aw: "four_aw (fold f xs ch1) = four_aw ch1" if "\<And>x ch. four_aw (f x ch) = four_aw ch" for f and xs :: "int list" and ch1
    using that by (induction xs arbitrary: ch1) simp_all
  have k: "four_aw (constrain_banks ids l clk ch) = four_aw ch" for ids l clk ch by (simp add: constrain_banks_def)
  consider "cmd_type c = CT_COMP" | "cmd_type c = CT_READRES" | "cmd_type c \<notin> {CT_COMP, CT_READRES}" by blast
  then show thesis
  proof cases
    case 1
    then have e: "ch' = fold (\<lambda>i. UpdateSameRankTiming s (Address0\<lparr>ad_rank := i\<rparr>) (same_rank t) clk) [0..mc_ranks s - 1]
         (UpdateTimingForPIM cfg c (same_rank t) clk ch)"
      using assms(1) by (simp add: UpdateTiming_def s_def t_def Let_def)
    have "later ch ch'" unfolding e by (intro later_fold later_pim later_refl) (simp add: timing_updates later_constrain)
    moreover have "four_aw ch' = four_aw ch"
      unfolding e by (subst aw) (simp_all add: timing_updates k UpdateTimingForPIM_def Let_def)
    ultimately show thesis using comp 1 by blast
  next
    case 2
    then have e: "ch' = fold (\<lambda>i ch. UpdateOtherRanksTiming s (Address0\<lparr>ad_rank := i\<rparr>) (other_ranks t) clk
           (UpdateSameRankTiming s (Address0\<lparr>ad_rank := i\<rparr>) (same_rank t) clk ch)) [0..mc_ranks s - 1] ch"
      using assms(1) by (simp add: UpdateTiming_def s_def t_def Let_def)
    have "later ch ch'" unfolding e by (intro later_fold later_refl) (simp add: timing_updates later_constrain)
    moreover have "four_aw ch' = four_aw ch" unfolding e by (subst aw) (simp_all add: timing_updates k)
    ultimately show thesis using comp 2 by blast
  next
    case 3
    then show thesis
      using assms(1) bank rank gwrite pim_precharge g_act comps_readres
      unfolding UpdateTiming_def s_def t_def a_def Let_def by (simp split: if_splits)
  qed
qed

lemma UpdateTiming_later:
  assumes "UpdateTiming cfg c clk ch = Inr ch'"
  shows "later ch ch'"
  using assms
proof (cases rule: UpdateTiming_cases)
  case (bank ch0)
  have "later ch ch0" using bank(2) by (simp add: later_refl later_window)
  then show ?thesis unfolding bank(3) timing_updates by (intro later_constrain)
qed (auto simp: timing_updates UpdateChannelTiming_def Let_def intro!: later_constrain later_refl)

subsection \<open>A channel accepts what it answers\<close>

definition wf_structure :: "mem_structure \<Rightarrow> bool" where
  "wf_structure s \<longleftrightarrow> 0 \<le> mc_ranks s \<and> 0 \<le> mc_bankgroups s \<and> 0 < mc_banks_per_group s \<and>
     mc_banks s = mc_bankgroups s * mc_banks_per_group s"

definition chan_inv :: "mem_structure \<Rightarrow> ChannelState \<Rightarrow> bool" where
  "chan_inv s ch \<longleftrightarrow> (\<forall>bk. in_range s bk \<longrightarrow> bank_inv (bank_states ch bk) \<and> bs_dual_buffer (bank_states ch bk) = enable_dual_buffer s)"

lemma chan_inv_new: "chan_inv (mc_structure cfg) (ChannelState_new n cfg)"
  by (simp add: chan_inv_def ChannelState_new_def BankState_new_inv) (simp add: BankState_new_def)

lemma chan_inv_later: "later ch ch' \<Longrightarrow> chan_inv s ch \<Longrightarrow> chan_inv s ch'"
proof -
  assume l: "later ch ch'" and i: "chan_inv s ch"
  have "bank_inv (bank_states ch' bk) \<longleftrightarrow> bank_inv (bank_states ch bk)" for bk
    unfolding bank_inv_def using l [unfolded later_def, rule_format, of bk] by presburger
  moreover have "bs_dual_buffer (bank_states ch' bk) = bs_dual_buffer (bank_states ch bk)" for bk
    using l [unfolded later_def, rule_format, of bk] by simp
  ultimately show ?thesis using i by (simp add: chan_inv_def)
qed

text \<open>The banks a command changes, those whose timing it was held to, and whether they exist.\<close>

definition touched :: "mem_structure \<Rightarrow> Command \<Rightarrow> bank_id list" where
  "touched s r = (let a = cmd_addr r in
     if IsChannelCMD r then bank_ids s else if IsRankCMD r then rank_ids s (ad_rank a)
     else if cmd_type r = CT_G_ACT then group_ids s (ad_rank a) (ad_bankgroup a) else [bank_at a])"

definition checked :: "mem_structure \<Rightarrow> Command \<Rightarrow> bank_id list" where
  "checked s r = (if cmd_type r = CT_G_ACT then [bank_at (cmd_addr r)] else touched s r)"

definition addressed :: "mem_structure \<Rightarrow> Command \<Rightarrow> bool" where
  "addressed s r = (let a = cmd_addr r in
     if IsChannelCMD r then True else if IsRankCMD r then 0 \<le> ad_rank a \<and> ad_rank a < mc_ranks s
     else if cmd_type r = CT_G_ACT then in_range s (ad_rank a, ad_bankgroup a, 0) else in_range s (bank_at a))"

lemma ready_answer:
  assumes "Bank_GetReadyCommand cmd clk b = Inr r" "IsValid r" "bank_inv b"
  shows "(r = cmd \<and> cmd_type cmd = CT_P_HEADER \<and> required_cmd cmd b = Inr (Some None)) \<or>
     required_cmd cmd b = Inr (Some (Some (cmd_type r))) \<and> cmd_timing b (cmd_type r) \<le> clk \<and> cmd_addr r = cmd_addr cmd \<and>
       hex_addr r = hex_addr cmd \<and> \<not> for_gwrite r"
proof -
  obtain keep x where x: "required_cmd cmd b = Inr x" "r = when_ready keep cmd clk b x"
    using GetReady_required [OF assms(1)] by blast
  have v: "IsValid (when_ready keep cmd clk b x)" using assms(2) x(2) by simp
  show ?thesis using v
  proof (cases rule: when_ready_valid)
    case 1
    then show ?thesis using required_itself(1) [of cmd b] x assms(3) by simp
  qed (use x in simp)
qed

lemma required_header:
  assumes "required_cmd cmd b = Inr (Some (Some ct))" "cmd_type cmd = CT_P_HEADER" "bank_inv b"
  shows "ct \<in> {CT_PRECHARGE, CT_PIM_PRECHARGE}"
  using assms by (auto simp: required_cmd_def required_single_def required_pim_def required_normal_def Let_def bank_inv_def
      split: if_splits row_state.splits)

lemma required_rank:
  assumes "required_cmd cmd b = Inr (Some (Some ct))" "IsRankCMD cmd"
  shows "cmd_type cmd = CT_REFRESH \<and> ct \<in> {CT_REFRESH, CT_PRECHARGE, CT_PIM_PRECHARGE}"
proof (cases "bs_dual_buffer b")
  case True
  moreover have "\<not> IsPIMBufferCommand cmd" "IsNormalBufferCommand cmd" using assms(2) by (auto simp: command_classes)
  ultimately have "required_normal cmd b = Inr (Some (Some ct))" using assms(1) by (simp add: required_cmd_def)
  then show ?thesis
    using assms(2) by (cases "bs_state b") (auto simp: required_normal_def IsRankCMD_def split: if_splits)
next
  case False
  then have "required_single cmd b = Inr (Some (Some ct))" using assms(1) by (simp add: required_cmd_def)
  then show ?thesis
    using assms(2) by (cases "bs_state b") (auto simp: required_single_def IsRankCMD_def split: if_splits)
qed

lemma required_gact:
  assumes "required_cmd cmd b = Inr (Some (Some ct))" "cmd_type cmd = CT_G_ACT" "bank_inv b"
  shows "ct = CT_G_ACT"
proof (cases "bs_dual_buffer b")
  case True
  then have "required_pim cmd b = Inr (Some (Some ct))" using assms(1,2) by (simp add: required_cmd_def command_classes)
  then show ?thesis using assms(2,3) by (auto simp: required_pim_def bank_inv_def split: if_splits)
next
  case False
  then have "required_single cmd b = Inr (Some (Some ct))" using assms(1) by (simp add: required_cmd_def)
  then show ?thesis using assms(2,3) by (auto simp: required_single_def bank_inv_def)
qed

lemma required_bank:
  assumes "required_cmd cmd b = Inr (Some (Some ct))" "\<not> IsChannelCMD cmd" "\<not> IsPIMHeader cmd" "\<not> IsRankCMD cmd" "cmd_type cmd \<noteq> CT_G_ACT"
    and "bank_inv b"
  shows "ct \<in> {CT_READ, CT_WRITE, CT_GWRITE, CT_PWRITE, CT_ACTIVATE, CT_PRECHARGE, CT_PIM_PRECHARGE}"
proof (cases "bs_dual_buffer b")
  case False
  then have "required_single cmd b = Inr (Some (Some ct))" using assms(1) by (simp add: required_cmd_def)
  then show ?thesis
    using assms(2-6) by (auto simp: required_single_def Let_def command_classes bank_inv_def split: if_splits)
next
  case True
  show ?thesis
  proof (cases "IsPIMBufferCommand cmd")
    case True
    then have "cmd_type cmd \<in> {CT_PIM_PRECHARGE, CT_PWRITE}" "required_pim cmd b = Inr (Some (Some ct))"
      using assms(1-5) \<open>bs_dual_buffer b\<close> by (auto simp: required_cmd_def command_classes)
    then show ?thesis
      using assms(6) by (auto simp: required_pim_def Let_def bank_inv_def split: if_splits)
  next
    case False
    then have "required_normal cmd b = Inr (Some (Some ct))" using assms(1) \<open>bs_dual_buffer b\<close> by (simp add: required_cmd_def split: if_splits)
    then have n: "required_normal cmd b = Inr (Some (Some ct))" .
    then have "ct = CT_REFRESH \<Longrightarrow> cmd_type cmd = CT_REFRESH"
      by (auto simp: required_normal_def Let_def split: if_splits row_state.splits)
    then show ?thesis using required_normal_cases [OF n assms(6)] assms(4) by (auto simp: IsRankCMD_def)
  qed
qed

text \<open>Any bank takes part in the activation of its group.\<close>

lemma gact_accepted:
  assumes "bank_inv b" "cmd_type r = CT_G_ACT" "\<not> for_gwrite r" "0 \<le> cmd_row r" "row_free r b"
  shows "\<exists>b'. Bank_UpdateState r b = Inr b' \<and> bank_inv b'"
  using assms
  by (cases "bs_state b"; cases "pim_state b"; cases "bs_dual_buffer b")
    (auto simp: Bank_UpdateState_def command_classes UpdateStateSingle_def UpdatePIMState_def Let_def bank_inv_def row_free_def)

lemma bank_answer_ok:
  assumes "bank_inv b" "Bank_GetReadyCommand cmd clk b = Inr r" "IsValid r" "cmd_type r \<noteq> CT_P_HEADER"
    and "0 \<le> cmd_row cmd \<or> cmd_type cmd = CT_REFRESH" "cmd_type cmd \<in> {CT_COMP, CT_COMPS_READRES} \<Longrightarrow> row_free cmd b"
  shows "required_cmd cmd b = Inr (Some (Some (cmd_type r)))" "cmd_timing b (cmd_type r) \<le> clk" "cmd_addr r = cmd_addr cmd" "\<not> for_gwrite r"
    "\<And>c. cmd_type c = cmd_type r \<Longrightarrow> \<not> for_gwrite c \<Longrightarrow> (cmd_type r \<in> {CT_ACTIVATE, CT_G_ACT} \<Longrightarrow> cmd_row c = cmd_row cmd) \<Longrightarrow>
       \<exists>b'. Bank_UpdateState c b = Inr b' \<and> bank_inv b'"
proof -
  have a: "required_cmd cmd b = Inr (Some (Some (cmd_type r))) \<and> cmd_timing b (cmd_type r) \<le> clk \<and> cmd_addr r = cmd_addr cmd \<and> \<not> for_gwrite r"
    using ready_answer [OF assms(2,3,1)] assms(4) by auto
  then show "required_cmd cmd b = Inr (Some (Some (cmd_type r)))" "cmd_timing b (cmd_type r) \<le> clk" "cmd_addr r = cmd_addr cmd" "\<not> for_gwrite r"
    by auto
  show "\<exists>b'. Bank_UpdateState c b = Inr b' \<and> bank_inv b'"
    if "cmd_type c = cmd_type r" "\<not> for_gwrite c" "cmd_type r \<in> {CT_ACTIVATE, CT_G_ACT} \<Longrightarrow> cmd_row c = cmd_row cmd" for c
    by (rule required_accepted [of b cmd "cmd_type r"]) (use assms a that in auto)
qed

definition answer_ok :: "mem_config \<Rightarrow> Command \<Rightarrow> u64 \<Rightarrow> ChannelState \<Rightarrow> bool" where
  "answer_ok cfg r clk ch \<longleftrightarrow> (let s = mc_structure cfg; bs = bank_states ch in
     addressed s r \<and> (\<forall>bk\<in>set (touched s r). in_range s bk \<and> (\<exists>b'. Bank_UpdateState r (bs bk) = Inr b' \<and> bank_inv b')) \<and>
     (\<forall>bk\<in>set (checked s r). in_range s bk \<longrightarrow> cmd_timing (bs bk) (cmd_type r) \<le> clk) \<and>
     (cmd_type r = CT_ACTIVATE \<longrightarrow> ActivationWindowOk cfg (ad_rank (cmd_addr r)) clk ch))"

text \<open>An answer that is for one bank.\<close>

lemma answer_ok_bank:
  assumes "in_range (mc_structure cfg) bk" "bank_at (cmd_addr r) = bk" "cmd_type r \<notin> {CT_G_ACT, CT_P_HEADER}" "\<not> IsChannelCMD r" "\<not> IsRankCMD r"
    and "\<exists>b'. Bank_UpdateState r (bank_states ch bk) = Inr b' \<and> bank_inv b'" "cmd_timing (bank_states ch bk) (cmd_type r) \<le> clk"
    and "cmd_type r = CT_ACTIVATE \<Longrightarrow> ActivationWindowOk cfg (ad_rank (cmd_addr r)) clk ch"
  shows "answer_ok cfg r clk ch"
  using assms by (simp add: answer_ok_def Let_def addressed_def touched_def checked_def)

lemma IsValid_handed: "hand_on_channel cmd bk r0 = Inr (Some r) \<Longrightarrow> cmd_type r = cmd_type r0 \<and> cmd_row r = cmd_row r0 \<and>
    for_gwrite r = for_gwrite r0 \<and> bank_at (cmd_addr r) = bk \<and> cmd_type r0 \<noteq> cmd_type cmd \<and> (IsChannelCMD cmd \<longrightarrow> cmd_type r0 = CT_G_ACT)"
  by (cases bk) (auto simp: hand_on_channel_def bank_at_def split: if_splits)

lemma channel_scan_ok:
  assumes s: "s = mc_structure cfg" and wf: "wf_structure s" and inv: "chan_inv s ch" and cmd: "IsChannelCMD cmd \<or> IsPIMHeader cmd"
    and scan: "scan_banks cmd clk (bank_states ch) (hand_on_channel cmd) (bank_ids s) 0 Command0 = Inr res"
    and r: "r = scan_result (mc_ranks s * mc_bankgroups s * mc_banks_per_group s) res" "IsValid r" "cmd_type r \<noteq> CT_P_HEADER"
    and row: "0 \<le> cmd_row cmd"
    and free: "cmd_type cmd \<in> {CT_COMP, CT_COMPS_READRES} \<Longrightarrow> \<forall>bk. in_range s bk \<longrightarrow> row_free cmd (bank_states ch bk)"
  shows "answer_ok cfg r clk ch"
proof -
  have n: "mc_ranks s * mc_bankgroups s * mc_banks_per_group s = int (length (bank_ids s))"
    using wf by (subst length_bank_ids) (simp_all add: wf_structure_def)
  have bi: "bank_inv (bank_states ch bk)" if "in_range s bk" for bk using inv that by (simp add: chan_inv_def)
  have fr: "cmd_type cmd \<in> {CT_COMP, CT_COMPS_READRES} \<Longrightarrow> row_free cmd (bank_states ch bk)" if "in_range s bk" for bk using free that by blast
  show ?thesis
    using scan r(2) [unfolded r(1)] n
  proof (cases rule: scan_result_cases)
    case (handed bk r0)
    then have rng: "in_range s bk" by (simp add: set_bank_ids)
    have h: "cmd_type r = cmd_type r0" "cmd_row r = cmd_row r0" "for_gwrite r = for_gwrite r0" "bank_at (cmd_addr r) = bk"
      "cmd_type r0 \<noteq> cmd_type cmd" "IsChannelCMD cmd \<longrightarrow> cmd_type r0 = CT_G_ACT"
      using IsValid_handed handed(4) r(1) by blast+
    note b = bank_answer_ok [OF bi [OF rng] handed(2,3) _ _ fr [OF rng]]
    have q: "required_cmd cmd (bank_states ch bk) = Inr (Some (Some (cmd_type r0)))" "cmd_timing (bank_states ch bk) (cmd_type r0) \<le> clk"
      "cmd_addr r0 = cmd_addr cmd" "\<not> for_gwrite r0"
      using b r(3) h(1) row by auto
    show ?thesis
    proof (cases "cmd_type r0 = CT_G_ACT")
      case True
      then have ch: "IsChannelCMD cmd" using required_header [OF q(1)] cmd bi [OF rng] by (auto simp: IsPIMHeader_def)
      have acc: "\<exists>b'. Bank_UpdateState r (bank_states ch bk') = Inr b' \<and> bank_inv b'" if rng': "in_range s bk'" for bk'
      proof (rule gact_accepted [OF bi [OF that]])
        show "row_free r (bank_states ch bk')"
        proof (cases "bs_dual_buffer (bank_states ch bk')")
          case True
          then have "bs_dual_buffer (bank_states ch bk)" using inv rng rng' by (simp add: chan_inv_def)
          then have "cmd_type cmd \<noteq> CT_READRES"
            using q(1) \<open>cmd_type r0 = CT_G_ACT\<close> by (auto simp: required_cmd_def required_pim_def command_classes split: if_splits row_state.splits)
          then show ?thesis using fr [OF rng'] ch h(2) q(3) by (auto simp: row_free_def IsChannelCMD_def)
        qed (simp add: row_free_def)
      qed (use h q row True in auto)
      obtain i j k where bk: "bk = (i, j, k)" by (cases bk) auto
      have a: "ad_rank (cmd_addr r) = i" "ad_bankgroup (cmd_addr r) = j" using h(4) bk by (auto simp: bank_at_def)
      have g: "in_range s bk'" if "bk' \<in> set (group_ids s i j)" for bk'
        using that rng bk by (auto simp: set_group_ids in_range_def)
      have "in_range s (i, j, 0)" using rng bk by (auto simp: in_range_def)
      then show ?thesis
        using True h(1,4) a acc g q(2) rng by (auto simp: answer_ok_def Let_def addressed_def touched_def checked_def IsChannelCMD_def IsRankCMD_def s [symmetric])
    next
      case False
      then have "IsPIMHeader cmd" using h(6) cmd by auto
      then have t: "cmd_type r0 \<in> {CT_PRECHARGE, CT_PIM_PRECHARGE}" using required_header [OF q(1)] bi [OF rng] by (simp add: IsPIMHeader_def)
      then have acc: "\<exists>b'. Bank_UpdateState r (bank_states ch bk) = Inr b' \<and> bank_inv b'" using b(5) [of r] h q row by auto
      show ?thesis
        by (rule answer_ok_bank [OF rng [unfolded s] h(4)]) (use t h acc q in \<open>auto simp: IsChannelCMD_def IsRankCMD_def\<close>)
    qed
  next
    case (all bk)
    have m: "\<exists>r'. Bank_GetReadyCommand cmd clk (bank_states ch bk') = Inr r' \<and> IsValid r' \<and> cmd_type r' = cmd_type cmd" if "in_range s bk'" for bk'
      using all(3) that by (cases bk') (fastforce simp: set_bank_ids hand_on_channel_def split: if_splits)
    have t: "cmd_type r = cmd_type cmd" using m [of bk] all(1,2) r(1) by (auto simp: set_bank_ids)
    then have ch: "IsChannelCMD cmd" using cmd r(3) by (auto simp: IsPIMHeader_def)
    then have tr: "IsChannelCMD r" "cmd_type r \<notin> {CT_ACTIVATE, CT_G_ACT}" using t by (auto simp: IsChannelCMD_def)
    have rng: "in_range s bk" using all(1) by (simp add: set_bank_ids)
    have gw: "\<not> for_gwrite r"
      using bank_answer_ok(4) [OF bi [OF rng] all(2) [folded r(1)] r(2,3) _ fr [OF rng]] row by blast
    have acc: "(\<exists>b'. Bank_UpdateState r (bank_states ch bk') = Inr b' \<and> bank_inv b') \<and> cmd_timing (bank_states ch bk') (cmd_type r) \<le> clk"
      if rng': "in_range s bk'" for bk'
    proof -
      obtain r' where r': "Bank_GetReadyCommand cmd clk (bank_states ch bk') = Inr r'" "IsValid r'" "cmd_type r' = cmd_type cmd" using m rng' by blast
      note b = bank_answer_ok [OF bi [OF rng'] r'(1,2) _ _ fr [OF rng']]
      show ?thesis using b(2) b(5) [of r] r' t r(3) tr(2) gw row by auto
    qed
    show ?thesis
      using tr acc by (auto simp: answer_ok_def Let_def addressed_def touched_def checked_def set_bank_ids s [symmetric])
  qed
qed

lemma rank_scan_ok:
  assumes s: "s = mc_structure cfg" and wf: "wf_structure s" and inv: "chan_inv s ch" and cmd: "IsRankCMD cmd"
    and rk: "0 \<le> ad_rank (cmd_addr cmd)" "ad_rank (cmd_addr cmd) < mc_ranks s"
    and scan: "scan_banks cmd clk (bank_states ch) (hand_on_rank cmd) (rank_ids s (ad_rank (cmd_addr cmd))) 0 Command0 = Inr res"
    and r: "r = scan_result (mc_banks s) res" "IsValid r" "cmd_type r \<noteq> CT_P_HEADER" and row: "0 \<le> cmd_row cmd \<or> cmd_type cmd = CT_REFRESH"
  shows "answer_ok cfg r clk ch"
proof -
  let ?i = "ad_rank (cmd_addr cmd)"
  have n: "mc_banks s = int (length (rank_ids s ?i))"
    using wf by (simp add: length_rank_ids wf_structure_def)
  have rng: "in_range s bk" if "bk \<in> set (rank_ids s ?i)" for bk using that rk by (auto simp: set_rank_ids in_range_def)
  have bi: "bank_inv (bank_states ch bk)" if "bk \<in> set (rank_ids s ?i)" for bk using inv rng [OF that] by (simp add: chan_inv_def)
  have nf: "cmd_type cmd \<notin> {CT_COMP, CT_COMPS_READRES}" using cmd by (auto simp: IsRankCMD_def)
  show ?thesis
    using scan r(2) [unfolded r(1)] n
  proof (cases rule: scan_result_cases)
    case (handed bk r0)
    obtain i j k where bk: "bk = (i, j, k)" by (cases bk) auto
    have h: "cmd_type r = cmd_type r0" "for_gwrite r = for_gwrite r0" "bank_at (cmd_addr r) = bk" "cmd_type r0 \<noteq> cmd_type cmd"
      using handed(4) [folded r(1)] bk by (auto simp: hand_on_rank_def bank_at_def split: if_splits)
    note b = bank_answer_ok [OF bi [OF handed(1)] handed(2,3) _ row]
    have q: "required_cmd cmd (bank_states ch bk) = Inr (Some (Some (cmd_type r0)))" "cmd_timing (bank_states ch bk) (cmd_type r0) \<le> clk"
      "\<not> for_gwrite r0" using b r(3) h(1) nf by auto
    have t: "cmd_type r0 \<in> {CT_PRECHARGE, CT_PIM_PRECHARGE}" using required_rank [OF q(1) cmd] h(4) by auto
    then have acc: "\<exists>b'. Bank_UpdateState r (bank_states ch bk) = Inr b' \<and> bank_inv b'" using b(5) [of r] h q nf by auto
    show ?thesis
      by (rule answer_ok_bank [OF rng [OF handed(1), unfolded s] h(3)]) (use t h acc q in \<open>auto simp: IsChannelCMD_def IsRankCMD_def\<close>)
  next
    case (all bk)
    have m: "\<exists>r'. Bank_GetReadyCommand cmd clk (bank_states ch bk') = Inr r' \<and> IsValid r' \<and> cmd_type r' = cmd_type cmd"
      if "bk' \<in> set (rank_ids s ?i)" for bk'
      using all(3) that by (cases bk') (fastforce simp: hand_on_rank_def split: if_splits)
    have t: "cmd_type r = cmd_type cmd" using m [of bk] all(1,2) r(1) by auto
    then have tr: "IsRankCMD r" "\<not> IsChannelCMD r" "cmd_type r \<notin> {CT_ACTIVATE, CT_G_ACT}" using cmd by (auto simp: IsChannelCMD_def IsRankCMD_def)
    have a: "cmd_addr r = cmd_addr cmd" "\<not> for_gwrite r"
      using bank_answer_ok(3,4) [OF bi [OF all(1)] all(2) [folded r(1)] r(2,3) row] nf by auto
    have acc: "(\<exists>b'. Bank_UpdateState r (bank_states ch bk') = Inr b' \<and> bank_inv b') \<and> cmd_timing (bank_states ch bk') (cmd_type r) \<le> clk"
      if k: "bk' \<in> set (rank_ids s ?i)" for bk'
    proof -
      obtain r' where r': "Bank_GetReadyCommand cmd clk (bank_states ch bk') = Inr r'" "IsValid r'" "cmd_type r' = cmd_type cmd" using m k by blast
      note b = bank_answer_ok [OF bi [OF k] r'(1,2) _ row]
      show ?thesis using b(2) b(5) [of r] r' t r(3) tr(3) a nf by auto
    qed
    show ?thesis
      using tr acc a rk rng by (auto simp: answer_ok_def Let_def addressed_def touched_def checked_def s [symmetric])
  qed
qed

lemma group_scan_ok:
  assumes s: "s = mc_structure cfg" and wf: "wf_structure s" and inv: "chan_inv s ch" and cmd: "cmd_type cmd = CT_G_ACT"
    and g: "in_range s (ad_rank (cmd_addr cmd), ad_bankgroup (cmd_addr cmd), 0)"
    and scan: "scan_banks cmd clk (bank_states ch) (hand_on_group cfg clk ch cmd) (group_ids s (ad_rank (cmd_addr cmd)) (ad_bankgroup (cmd_addr cmd))) 0 Command0 = Inr res"
    and r: "r = scan_result (mc_banks_per_group s) res" "IsValid r" "cmd_type r \<noteq> CT_P_HEADER" and row: "0 \<le> cmd_row cmd"
  shows "answer_ok cfg r clk ch"
proof -
  let ?i = "ad_rank (cmd_addr cmd)" and ?j = "ad_bankgroup (cmd_addr cmd)"
  have n: "mc_banks_per_group s = int (length (group_ids s ?i ?j))"
    using wf by (simp add: length_group_ids wf_structure_def)
  have rng: "in_range s bk" if "bk \<in> set (group_ids s ?i ?j)" for bk using that g by (auto simp: set_group_ids in_range_def)
  have bi: "bank_inv (bank_states ch bk)" if "bk \<in> set (group_ids s ?i ?j)" for bk using inv rng [OF that] by (simp add: chan_inv_def)
  have row': "0 \<le> cmd_row cmd \<or> cmd_type cmd = CT_REFRESH" using row by simp
  have nf: "cmd_type cmd \<notin> {CT_COMP, CT_COMPS_READRES}" using cmd by simp
  have only: "cmd_type r' = CT_G_ACT" if k: "bk \<in> set (group_ids s ?i ?j)" "Bank_GetReadyCommand cmd clk (bank_states ch bk) = Inr r'" "IsValid r'" for bk r'
    using ready_answer [OF k(2,3) bi [OF k(1)]] required_gact [OF _ cmd bi [OF k(1)]] cmd by auto
  show ?thesis
    using scan r(2) [unfolded r(1)] n
  proof (cases rule: scan_result_cases)
    case (handed bk r0)
    have "r = Command0"
      using only [OF handed(1,2,3)] cmd handed(4) [folded r(1)] by (cases bk) (simp add: hand_on_group_def split: if_splits)
    then show ?thesis using r(2) by (simp add: IsValid_def Command0_def)
  next
    case (all bk)
    have t: "cmd_type r = CT_G_ACT" using only [OF all(1,2)] r by simp
    have a: "cmd_addr r = cmd_addr cmd" "\<not> for_gwrite r"
      using bank_answer_ok(3,4) [OF bi [OF all(1)] all(2) [folded r(1)] r(2,3) row'] nf by auto
    have acc: "(\<exists>b'. Bank_UpdateState r (bank_states ch bk') = Inr b' \<and> bank_inv b') \<and> cmd_timing (bank_states ch bk') (cmd_type r) \<le> clk"
      if k: "bk' \<in> set (group_ids s ?i ?j)" for bk'
    proof -
      obtain r' where r': "Bank_GetReadyCommand cmd clk (bank_states ch bk') = Inr r'" "IsValid r'" using all(3) k by blast
      note b = bank_answer_ok [OF bi [OF k] r'(1,2) _ row']
      show ?thesis using b(2) b(5) [of r] only [OF k r'] t a nf by auto
    qed
    have "cmd_timing (bank_states ch (bank_at (cmd_addr r))) (cmd_type r) \<le> clk" if "in_range s (bank_at (cmd_addr r))"
      using that acc a by (auto simp: bank_at_def in_range_def set_group_ids)
    then show ?thesis
      using t acc a g rng by (auto simp: answer_ok_def Let_def addressed_def touched_def checked_def IsChannelCMD_def IsRankCMD_def s [symmetric])
  qed
qed

definition askable :: "mem_structure \<Rightarrow> Command \<Rightarrow> ChannelState \<Rightarrow> bool" where
  "askable s cmd ch \<longleftrightarrow> (0 \<le> cmd_row cmd \<or> cmd_type cmd = CT_REFRESH) \<and>
     (cmd_type cmd \<in> {CT_COMP, CT_COMPS_READRES} \<longrightarrow> (\<forall>bk. in_range s bk \<longrightarrow> row_free cmd (bank_states ch bk)))"

lemma channel_answer:
  assumes wf: "wf_structure (mc_structure cfg)" and inv: "chan_inv (mc_structure cfg) ch"
    and g: "Channel_GetReadyCommand cfg cmd clk ch = Inr r" "IsValid r" "cmd_type r \<noteq> CT_P_HEADER" and ask: "askable (mc_structure cfg) cmd ch"
  shows "answer_ok cfg r clk ch"
proof -
  let ?s = "mc_structure cfg" and ?a = "cmd_addr cmd"
  consider "IsChannelCMD cmd \<or> IsPIMHeader cmd" | "\<not> (IsChannelCMD cmd \<or> IsPIMHeader cmd)" "IsRankCMD cmd"
    | "\<not> (IsChannelCMD cmd \<or> IsPIMHeader cmd)" "\<not> IsRankCMD cmd" "cmd_type cmd = CT_G_ACT"
    | "\<not> IsChannelCMD cmd" "\<not> IsPIMHeader cmd" "\<not> IsRankCMD cmd" "cmd_type cmd \<noteq> CT_G_ACT" by blast
  then show ?thesis
  proof cases
    case 1
    then obtain res where "scan_banks cmd clk (bank_states ch) (hand_on_channel cmd) (bank_ids ?s) 0 Command0 = Inr res"
      "r = scan_result (mc_ranks ?s * mc_bankgroups ?s * mc_banks_per_group ?s) res"
      using g(1) by (auto simp: Channel_GetReadyCommand_def Let_def split: if_splits)
    moreover have "0 \<le> cmd_row cmd" using ask 1 by (auto simp: askable_def IsChannelCMD_def IsPIMHeader_def)
    ultimately show ?thesis
      using channel_scan_ok [OF refl wf inv 1 _ _ g(2,3)] ask unfolding askable_def by blast
  next
    case 2
    then obtain res where "0 \<le> ad_rank ?a" "ad_rank ?a < mc_ranks ?s"
      "scan_banks cmd clk (bank_states ch) (hand_on_rank cmd) (rank_ids ?s (ad_rank ?a)) 0 Command0 = Inr res" "r = scan_result (mc_banks ?s) res"
      using g(1) by (auto simp: Channel_GetReadyCommand_def Let_def split: if_splits)
    then show ?thesis using rank_scan_ok [OF refl wf inv 2(2) _ _ _ _ g(2,3)] ask unfolding askable_def by blast
  next
    case 3
    then obtain res where "in_range ?s (ad_rank ?a, ad_bankgroup ?a, 0)"
      "scan_banks cmd clk (bank_states ch) (hand_on_group cfg clk ch cmd) (group_ids ?s (ad_rank ?a) (ad_bankgroup ?a)) 0 Command0 = Inr res"
      "r = scan_result (mc_banks_per_group ?s) res"
      using g(1) by (auto simp: Channel_GetReadyCommand_def Let_def split: if_splits)
    moreover have row: "0 \<le> cmd_row cmd" using ask 3(3) by (simp add: askable_def)
    ultimately show ?thesis using group_scan_ok [OF refl wf inv 3(3) _ _ _ g(2,3)] row by blast
  next
    case 4
    then have rng: "in_range ?s (bank_at ?a)"
      using g(1) by (auto simp: Channel_GetReadyCommand_def Let_def split: if_splits)
    have b: "bank_inv (bank_states ch (bank_at ?a))" using inv rng by (simp add: chan_inv_def)
    obtain r0 where r0: "Bank_GetReadyCommand cmd clk (bank_states ch (bank_at ?a)) = Inr r0"
      "r = (if cmd_type r0 = CT_ACTIVATE \<and> \<not> ActivationWindowOk cfg (ad_rank (cmd_addr r0)) clk ch then Command0 else r0)"
      using g(1) 4 rng by (auto simp: Channel_GetReadyCommand_def Let_def)
    then have r: "r = r0" "cmd_type r = CT_ACTIVATE \<longrightarrow> ActivationWindowOk cfg (ad_rank (cmd_addr r)) clk ch"
      using g(2) by (auto simp: IsValid_def Command0_def split: if_splits)
    have row: "0 \<le> cmd_row cmd \<or> cmd_type cmd = CT_REFRESH" using ask by (simp add: askable_def)
    have nf: "cmd_type cmd \<notin> {CT_COMP, CT_COMPS_READRES}" using 4(1) by (auto simp: IsChannelCMD_def)
    note q = bank_answer_ok [OF b r0(1) [folded r(1)] g(2,3) row]
    have q': "required_cmd cmd (bank_states ch (bank_at ?a)) = Inr (Some (Some (cmd_type r)))" "cmd_timing (bank_states ch (bank_at ?a)) (cmd_type r) \<le> clk"
      "cmd_addr r = ?a" "\<not> for_gwrite r" using q nf by auto
    then have "\<exists>b'. Bank_UpdateState r (bank_states ch (bank_at ?a)) = Inr b' \<and> bank_inv b'" using q(5) [of r] nf by auto
    moreover have "cmd_type r \<in> {CT_READ, CT_WRITE, CT_GWRITE, CT_PWRITE, CT_ACTIVATE, CT_PRECHARGE, CT_PIM_PRECHARGE}"
      using required_bank [OF q'(1) 4 b] .
    ultimately show ?thesis
      by (intro answer_ok_bank [OF rng]) (use q' r(2) in \<open>auto simp: IsChannelCMD_def IsRankCMD_def\<close>)
  qed
qed

end
