(* ===== verification/MemQueue.thy ===== *)
theory MemQueue
  imports MemChannel
begin

text \<open>
  The command queues of a channel (NewtonSim/src/neupims_command_queue.h, neupims_command_queue.cc): one
  queue per bank or rank for reads and writes, and one for the operations in memory.  The channel's state
  is shared with the controller and only read here.  The counters of the statistics are left out.
\<close>

subsection \<open>State\<close>

datatype QueueStructure = PER_RANK | PER_BANK | QS_SIZE

record CommandQueue =
  rank_q_empty :: "bool list"
  total_pim_cycles :: u64
  cq_structure :: QueueStructure
  cmd_queues :: "Command list list"
  pim_cmds :: "Command list"
  ref_q_indices :: "int set"
  is_in_ref :: bool
  skip_pim :: bool
  num_queues :: nat
  queue_size :: nat
  pim_cmd_queue_size :: nat
  queue_idx :: nat
  cq_clk :: u64
  remain_slack :: int
  reserved_row_for_pim :: int
  is_gwriting :: bool
  gwrite_target :: Address

definition CommandQueue_new :: "mem_config \<Rightarrow> fault + CommandQueue" where
  "CommandQueue_new cfg = (let s = mc_structure cfg; y = mc_system cfg in
     bindE (if queue_structure y = ''PER_BANK'' then Inr (PER_BANK, mc_banks s * mc_ranks s)
            else if queue_structure y = ''PER_RANK'' then Inr (PER_RANK, mc_ranks s) else Inl Exited) (\<lambda>(st, n).
     Inr \<lparr>rank_q_empty = replicate (nat (mc_ranks s)) True, total_pim_cycles = 0, cq_structure = st,
       cmd_queues = replicate (nat n) [], pim_cmds = [], ref_q_indices = {}, is_in_ref = False, skip_pim = False,
       num_queues = nat n, queue_size = unat (of_int (cmd_queue_size y) :: u64), pim_cmd_queue_size = 128, queue_idx = 0,
       cq_clk = 0, remain_slack = 0, reserved_row_for_pim = - 1, is_gwriting = False, gwrite_target = Address0\<rparr>))"

definition Queue_ClockTick :: "CommandQueue \<Rightarrow> CommandQueue" where
  "Queue_ClockTick q = q\<lparr>cq_clk := cq_clk q + 1,
     total_pim_cycles := (if pim_cmds q \<noteq> [] then total_pim_cycles q + 1 else total_pim_cycles q)\<rparr>"

definition FinishGwrite :: "CommandQueue \<Rightarrow> CommandQueue" where
  "FinishGwrite q = q\<lparr>is_gwriting := False, remain_slack := 0\<rparr>"

definition QueueEmpty :: "CommandQueue \<Rightarrow> bool" where
  "QueueEmpty q = list_all (\<lambda>l. l = []) (cmd_queues q)"

definition QueueUsage :: "CommandQueue \<Rightarrow> nat" where
  "QueueUsage q = sum_list (map length (cmd_queues q))"

definition GetPIMQueueSize :: "CommandQueue \<Rightarrow> nat" where
  "GetPIMQueueSize q = length (pim_cmds q)"

definition ResetPIMCycle :: "CommandQueue \<Rightarrow> CommandQueue" where
  "ResetPIMCycle q = q\<lparr>total_pim_cycles := 0\<rparr>"

subsection \<open>Access to the queues\<close>

definition GetQueueIndex :: "mem_structure \<Rightarrow> CommandQueue \<Rightarrow> int \<Rightarrow> int \<Rightarrow> int \<Rightarrow> int" where
  "GetQueueIndex s q rank bankgroup bank =
     (if rank = - 1 then - 1 else if cq_structure q = PER_RANK then rank
      else rank * mc_banks s + bankgroup * mc_banks_per_group s + bank)"

definition queue_at :: "CommandQueue \<Rightarrow> int \<Rightarrow> fault + Command list" where
  "queue_at q i = (if 0 \<le> i then at (cmd_queues q) (nat i) else Inl Undefined)"

definition WillAcceptCommand :: "mem_structure \<Rightarrow> CommandQueue \<Rightarrow> int \<Rightarrow> int \<Rightarrow> int \<Rightarrow> fault + bool" where
  "WillAcceptCommand s q rank bankgroup bank =
     (if rank = - 1 then Inr (length (pim_cmds q) < pim_cmd_queue_size q)
      else bindE (queue_at q (GetQueueIndex s q rank bankgroup bank)) (\<lambda>l. Inr (length l < queue_size q)))"

text \<open>\<open>GetQueue\<close> yields a reference: the queue is replaced by \<open>f\<close> of it.\<close>

definition cmd_index :: "mem_structure \<Rightarrow> CommandQueue \<Rightarrow> Command \<Rightarrow> int" where
  "cmd_index s q c = (let a = cmd_addr c in GetQueueIndex s q (ad_rank a) (ad_bankgroup a) (ad_bank a))"

definition GetQueue :: "mem_structure \<Rightarrow> Command \<Rightarrow> CommandQueue \<Rightarrow> fault + Command list" where
  "GetQueue s c q = (if PIMQCommand c then Inr (pim_cmds q) else queue_at q (cmd_index s q c))"

definition set_queue :: "mem_structure \<Rightarrow> Command \<Rightarrow> Command list \<Rightarrow> CommandQueue \<Rightarrow> CommandQueue" where
  "set_queue s c l q = (if PIMQCommand c then q\<lparr>pim_cmds := l\<rparr>
     else q\<lparr>cmd_queues := (cmd_queues q)[nat (cmd_index s q c) := l]\<rparr>)"

definition AddCommand :: "mem_structure \<Rightarrow> Command \<Rightarrow> CommandQueue \<Rightarrow> fault + (bool \<times> CommandQueue)" where
  "AddCommand s c q = bindE (GetQueue s c q) (\<lambda>l. let rank = ad_rank (cmd_addr c) in
     if length l < queue_size q then
       (let q = set_queue s c (l @ [c]) q in
        if rank = - 1 then Inr (True, q\<lparr>rank_q_empty := map (\<lambda>_. False) (rank_q_empty q)\<rparr>)
        else if 0 \<le> rank \<and> nat rank < length (rank_q_empty q) then Inr (True, q\<lparr>rank_q_empty := (rank_q_empty q)[nat rank := False]\<rparr>)
        else Inl Undefined)
     else Inr (False, q))"

definition EraseRWCommand :: "mem_structure \<Rightarrow> Command \<Rightarrow> CommandQueue \<Rightarrow> fault + CommandQueue" where
  "EraseRWCommand s c q = bindE (GetQueue s c q) (\<lambda>l. let p = (\<lambda>d. hex_addr c = hex_addr d \<and> cmd_type c = cmd_type d) in
     if \<exists>d\<in>set l. p d then Inr (set_queue s c (erase_where p l) q) else Inl Exited)"

definition GetNextQueue :: "CommandQueue \<Rightarrow> CommandQueue" where
  "GetNextQueue q = q\<lparr>queue_idx := (if queue_idx q + 1 = num_queues q then 0 else queue_idx q + 1)\<rparr>"

subsection \<open>Refresh\<close>

definition GetRefQIndices :: "mem_structure \<Rightarrow> Command \<Rightarrow> CommandQueue \<Rightarrow> fault + CommandQueue" where
  "GetRefQIndices s ref q = (let rank = ad_rank (cmd_addr ref) in
     bindE (if cmd_type ref \<noteq> CT_REFRESH then Inr {cmd_index s q ref}
            else if cq_structure q = PER_BANK then
              (if mc_banks s = 0 \<and> num_queues q > 0 then Inl Undefined
               else Inr (set (filter (\<lambda>i. i sdiv mc_banks s = rank) (map int [0..<num_queues q]))))
            else Inr {rank})
       (\<lambda>new. Inr (q\<lparr>ref_q_indices := ref_q_indices q \<union> new\<rparr>)))"

definition FinishRefresh :: "mem_config \<Rightarrow> ChannelState \<Rightarrow> CommandQueue \<Rightarrow> fault + (Command \<times> CommandQueue)" where
  "FinishRefresh cfg ch q = bindE (front (refresh_q ch)) (\<lambda>ref.
     bindE (if is_in_ref q then Inr q else bindE (GetRefQIndices (mc_structure cfg) ref q) (\<lambda>q. Inr (q\<lparr>is_in_ref := True\<rparr>))) (\<lambda>q.
     bindE (Channel_GetReadyCommand cfg ref (cq_clk q) ch) (\<lambda>cmd.
     Inr (cmd, if IsRefresh cmd
       then q\<lparr>ref_q_indices := {}, is_in_ref := False, skip_pim := False, remain_slack := 0, reserved_row_for_pim := - 1\<rparr> else q))))"

subsection \<open>Operations in memory\<close>

definition CanMeetRefreshDeadline :: "mem_config \<Rightarrow> ChannelState \<Rightarrow> Command \<Rightarrow> int \<Rightarrow> CommandQueue \<Rightarrow> fault + (bool \<times> CommandQueue)" where
  "CanMeetRefreshDeadline cfg ch c remain_to_refresh q = bindE (EstimatePIMOperationLatency cfg c ch) (\<lambda>latency.
     let slack = remain_to_refresh - latency in Inr (slack > 0, q\<lparr>remain_slack := (if slack > 0 then slack else 0)\<rparr>))"

text \<open>The loop over the queue returns in its first turn: only the head of the queue is looked at.\<close>

definition GetReadyInPIMQueue :: "mem_config \<Rightarrow> ChannelState \<Rightarrow> int \<Rightarrow> CommandQueue \<Rightarrow> fault + (Command \<times> CommandQueue)" where
  "GetReadyInPIMQueue cfg ch slack q = (case pim_cmds q of
       [] \<Rightarrow> Inr (Command0, q)
     | c # _ \<Rightarrow>
        (let ready = (\<lambda>q. bindE (Channel_GetReadyCommand cfg c (cq_clk q) ch) (\<lambda>r. Inr (r, q))) in
         if is_gwriting q then (if IsGwrite c then ready q else Inr (Command0, q))
         else if IsGwrite c then
           bindE (CanMeetRefreshDeadline cfg ch c slack q) (\<lambda>(ok, q).
            if ok then ready (q\<lparr>is_gwriting := True, gwrite_target := cmd_addr c\<rparr>) else Inr (Command0, q\<lparr>skip_pim := True\<rparr>))
         else if IsPIMHeader c then
           bindE (CanMeetRefreshDeadline cfg ch c slack q) (\<lambda>(ok, q).
            if ok then ready (q\<lparr>reserved_row_for_pim := cmd_row c\<rparr>) else Inr (Command0, q\<lparr>skip_pim := True\<rparr>))
         else ready q))"

subsection \<open>Reads and writes\<close>

definition same_bank_as :: "Command \<Rightarrow> Command \<Rightarrow> bool" where
  "same_bank_as c d \<longleftrightarrow> bank_at (cmd_addr d) = bank_at (cmd_addr c)"

text \<open>\<open>before\<close> holds the commands of the queue in front of \<open>c\<close>, \<open>from\<close> those from \<open>c\<close> on.\<close>

definition ArbitratePrecharge :: "mem_structure \<Rightarrow> ChannelState \<Rightarrow> Command list \<Rightarrow> Command \<Rightarrow> Command list \<Rightarrow> fault + bool" where
  "ArbitratePrecharge s ch before c from_c =
     (if IsGwrite c then Inr True
      else if \<exists>d\<in>set before. same_bank_as c d then Inr False
      else if \<not> in_range s (bank_at (cmd_addr c)) then Inl Undefined
      else let b = bank_states ch (bank_at (cmd_addr c));
               pending_row_hits_exist = (\<exists>d\<in>set from_c. cmd_row d = open_row b \<and> same_bank_as c d);
               rowhit_limit_reached = (row_hit_count b \<ge> 4)
           in Inr (\<not> pending_row_hits_exist \<or> rowhit_limit_reached))"

definition HasRWDependency :: "Command list \<Rightarrow> Command \<Rightarrow> bool" where
  "HasRWDependency before c = (\<exists>d\<in>set before. (IsRead d \<or> IsPIMCommand d) \<and> cmd_row d = cmd_row c \<and>
     ad_column (cmd_addr d) = ad_column (cmd_addr c) \<and> ad_bank (cmd_addr d) = ad_bank (cmd_addr c) \<and>
     ad_bankgroup (cmd_addr d) = ad_bankgroup (cmd_addr c))"

text \<open>While an operation in memory waits, a command must fit into the slack that is left: \<open>None\<close> if not.\<close>

definition fit_slack :: "mem_config \<Rightarrow> Command \<Rightarrow> Command \<Rightarrow> CommandQueue \<Rightarrow> fault + CommandQueue option" where
  "fit_slack cfg c cmd q = (let t = mc_timing cfg in
     if remain_slack q > 0 \<and> pim_cmds q \<noteq> [] then
       (if cmd_type cmd = CT_PRECHARGE then
          Inr (if remain_slack q > tRP t + tRCDWR t then Some (q\<lparr>remain_slack := remain_slack q - tRP t\<rparr>) else None)
        else if cmd_type cmd = CT_ACTIVATE then
          Inr (if remain_slack q > tRCDWR t then Some (q\<lparr>remain_slack := remain_slack q - tRCDWR t\<rparr>) else None)
        else ast (cmd_type cmd = cmd_type c) (Inr (Some q)))
     else Inr (Some q))"

fun first_ready :: "mem_config \<Rightarrow> ChannelState \<Rightarrow> Command list \<Rightarrow> Command list \<Rightarrow> CommandQueue \<Rightarrow> fault + (Command \<times> CommandQueue)" where
  "first_ready cfg ch before [] q = Inr (Command0, q)"
| "first_ready cfg ch before (c # cs) q = (let next = first_ready cfg ch (before @ [c]) cs q in
     if reserved_row_for_pim q = cmd_row c then ast (reserved_row_for_pim q \<noteq> - 1) next
     else if is_gwriting q \<and> bank_at (gwrite_target q) = bank_at (cmd_addr c) then next
     else bindE (Channel_GetReadyCommand cfg c (cq_clk q) ch) (\<lambda>cmd.
      if \<not> IsValid cmd then next
      else bindE (if cmd_type cmd = CT_PRECHARGE then ArbitratePrecharge (mc_structure cfg) ch before c (c # cs)
                  else Inr (\<not> (IsWrite cmd \<and> HasRWDependency before c))) (\<lambda>go.
       if \<not> go then next
       else bindE (fit_slack cfg c cmd q) (\<lambda>fit. case fit of None \<Rightarrow> next | Some q \<Rightarrow> Inr (cmd, q)))))"

definition GetFirstReadyInQueue :: "mem_config \<Rightarrow> ChannelState \<Rightarrow> Command list \<Rightarrow> CommandQueue \<Rightarrow> fault + (Command \<times> CommandQueue)" where
  "GetFirstReadyInQueue cfg ch = first_ready cfg ch []"

fun issue_loop :: "nat \<Rightarrow> mem_config \<Rightarrow> ChannelState \<Rightarrow> CommandQueue \<Rightarrow> fault + (Command \<times> CommandQueue)" where
  "issue_loop 0 cfg ch q = Inr (Command0, q)"
| "issue_loop (Suc n) cfg ch q = (let q = GetNextQueue q in
     if is_in_ref q \<and> int (queue_idx q) \<in> ref_q_indices q then issue_loop n cfg ch q
     else bindE (at (cmd_queues q) (queue_idx q)) (\<lambda>l. bindE (GetFirstReadyInQueue cfg ch l q) (\<lambda>(cmd, q).
      if IsValid cmd then
        bindE (if IsReadWrite cmd then EraseRWCommand (mc_structure cfg) cmd q else Inr q) (\<lambda>q. Inr (cmd, q))
      else issue_loop n cfg ch q)))"

definition GetCommandToIssue :: "mem_config \<Rightarrow> ChannelState \<Rightarrow> int \<Rightarrow> CommandQueue \<Rightarrow> fault + (Command \<times> CommandQueue)" where
  "GetCommandToIssue cfg ch slack q =
     bindE (if \<not> skip_pim q \<and> pim_cmds q \<noteq> [] \<and> \<not> is_in_ref q then
        bindE (GetReadyInPIMQueue cfg ch slack q) (\<lambda>(cmd, q).
         if IsValid cmd then
           bindE (if IsPIMCommand cmd \<or> IsPIMHeader cmd then EraseRWCommand (mc_structure cfg) cmd q else Inr q) (\<lambda>q. Inr (Some cmd, q))
         else Inr (if remain_slack q < 10 then Some Command0 else None, q))
      else Inr (None, q)) (\<lambda>(decided, q).
     case decided of Some cmd \<Rightarrow> Inr (cmd, q) | None \<Rightarrow> issue_loop (num_queues q) cfg ch q)"

end
