(* ===== verification/MemController.thy ===== *)
theory MemController
  imports MemQueue
begin

text \<open>
  The controller of a channel (NewtonSim/src/neupims_controller.h, neupims_controller.cc): transactions
  wait in three buffers, become commands in the command queues, and return when their command has been
  executed.  The counters of the statistics are left out, except that some commands stop the program there.
\<close>

subsection \<open>State\<close>

text \<open>
  A \<open>multimap\<close> from addresses to transactions is the list of its transactions, those of the same address in
  the order of insertion; \<open>find\<close> takes the first.  The capacity reserved for the buffers is their bound.
\<close>

record Controller =
  ct_clk :: u64
  ct_channel :: ChannelState
  ct_queue :: CommandQueue
  ct_refresh :: Refresh
  read_queue :: "Transaction list"
  write_buffer :: "Transaction list"
  ct_pim_queue :: "Transaction list"
  pending_rd_q :: "Transaction list"
  pending_wr_q :: "Transaction list"
  pending_pim_q :: "Transaction list"
  return_queue :: "Transaction list"
  last_trans_clk :: u64
  rw_dependency_lock :: bool
  rw_dependency_addr :: u64
  write_draining :: int

definition Controller_new :: "int \<Rightarrow> mem_config \<Rightarrow> fault + Controller" where
  "Controller_new n cfg = bindE (CommandQueue_new cfg) (\<lambda>q. bindE (Refresh_new cfg) (\<lambda>r.
     Inr \<lparr>ct_clk = 0, ct_channel = ChannelState_new n cfg, ct_queue = q, ct_refresh = r, read_queue = [], write_buffer = [],
       ct_pim_queue = [], pending_rd_q = [], pending_wr_q = [], pending_pim_q = [], return_queue = [], last_trans_clk = 0,
       rw_dependency_lock = False, rw_dependency_addr = 0, write_draining = 0\<rparr>))"

definition capacity :: "mem_config \<Rightarrow> nat" where
  "capacity cfg = unat (of_int (trans_queue_size (mc_system cfg)) :: u64)"

definition at_addr :: "u64 \<Rightarrow> Transaction list \<Rightarrow> Transaction list" where
  "at_addr a = filter (\<lambda>t. tr_addr t = a)"

subsection \<open>Arrival and return of transactions\<close>

definition WillAcceptTransaction :: "mem_config \<Rightarrow> TransactionType \<Rightarrow> Controller \<Rightarrow> fault + bool" where
  "WillAcceptTransaction cfg ty c = ast (ty \<noteq> TT_COMP \<and> ty \<noteq> TT_READRES)
     (Inr (if ty = TT_WRITE then length (write_buffer c) < capacity cfg
           else if ty = TT_READ then length (read_queue c) < capacity cfg
           else length (ct_pim_queue c) < capacity cfg))"

definition AddTransaction :: "Transaction \<Rightarrow> Controller \<Rightarrow> Controller" where
  "AddTransaction tr c = (let t = tr\<lparr>added_cycle := ct_clk c\<rparr>; c = c\<lparr>last_trans_clk := ct_clk c\<rparr>; soon = t\<lparr>complete_cycle := ct_clk c + 1\<rparr> in
     if tr_type t = TT_WRITE then
       (let c = (if at_addr (tr_addr t) (pending_wr_q c) = []
                 then c\<lparr>pending_wr_q := pending_wr_q c @ [t], write_buffer := write_buffer c @ [t]\<rparr> else c)
        in c\<lparr>return_queue := return_queue c @ [soon]\<rparr>)
     else if tr_type t = TT_READ then
       (if at_addr (tr_addr t) (pending_wr_q c) \<noteq> [] then c\<lparr>return_queue := return_queue c @ [soon]\<rparr>
        else let c = c\<lparr>pending_rd_q := pending_rd_q c @ [t]\<rparr>
             in if length (at_addr (tr_addr t) (pending_rd_q c)) = 1 then c\<lparr>read_queue := read_queue c @ [t]\<rparr> else c)
     else if tr_type t = TT_P_HEADER then c\<lparr>ct_pim_queue := ct_pim_queue c @ [t]\<rparr>
     else c\<lparr>pending_pim_q := pending_pim_q c @ [t], ct_pim_queue := ct_pim_queue c @ [t]\<rparr>)"

text \<open>The first transaction in the return queue whose time has come.\<close>

definition ReturnDoneTrans :: "u64 \<Rightarrow> Controller \<Rightarrow> (u64 \<times> TransactionType) \<times> Controller" where
  "ReturnDoneTrans clk c = (let is_done = (\<lambda>t. clk \<ge> complete_cycle t) in case filter is_done (return_queue c) of
       [] \<Rightarrow> ((- 1, TT_SIZE), c)
     | t # _ \<Rightarrow> ((tr_addr t, tr_type t), (if tr_type t = TT_GWRITE then c\<lparr>ct_queue := FinishGwrite (ct_queue c)\<rparr> else c)
           \<lparr>return_queue := erase_where is_done (return_queue c)\<rparr>))"

subsection \<open>Issuing a command\<close>

definition UpdateCommandStats :: "mem_structure \<Rightarrow> Command \<Rightarrow> fault + unit" where
  "UpdateCommandStats s cmd = (if cmd_type cmd \<in> {CT_COMP, CT_READRES, CT_PWRITE, CT_SIZE} then Inl Exited
     else if IsReadWrite cmd \<and> \<not> in_range s (bank_at (cmd_addr cmd)) then Inl Undefined else Inr ())"

text \<open>The transactions of \<open>ts\<close> move from a pending map to the return queue.\<close>

definition complete_at :: "u64 \<Rightarrow> Transaction list \<Rightarrow> Controller \<Rightarrow> Controller" where
  "complete_at t ts c = c\<lparr>return_queue := return_queue c @ map (\<lambda>x. x\<lparr>complete_cycle := t\<rparr>) ts\<rparr>"

definition IssueCommand :: "mem_config \<Rightarrow> Command \<Rightarrow> Controller \<Rightarrow> fault + Controller" where
  "IssueCommand cfg cmd c = (let a = hex_addr cmd; t = mc_timing cfg; here = (\<lambda>x. tr_addr x = a);
     run = (\<lambda>c. bindE (UpdateCommandStats (mc_structure cfg) cmd) (\<lambda>_.
        bindE (UpdateTimingAndStates cfg cmd (ct_clk c) (ct_channel c)) (\<lambda>ch. Inr (c\<lparr>ct_channel := ch\<rparr>)))) in
     if IsRead cmd then
       (if at_addr a (pending_rd_q c) = [] then Inl Exited
        else run ((complete_at (ct_clk c + of_int (read_delay t)) (at_addr a (pending_rd_q c)) c)
          \<lparr>pending_rd_q := filter (\<lambda>x. \<not> here x) (pending_rd_q c)\<rparr>))
     else if IsWrite cmd then
       (if at_addr a (pending_wr_q c) = [] then Inl Exited
        else run (c\<lparr>pending_wr_q := erase_where here (pending_wr_q c)\<rparr>))
     else if IsCompsReadres cmd \<or> IsGwrite cmd then
       (case at_addr a (pending_pim_q c) of
          [] \<Rightarrow> Inl Exited
        | x # _ \<Rightarrow> run ((complete_at (ct_clk c + of_int (if IsGwrite cmd then gwrite_delay t else read_delay t)) [x] c)
            \<lparr>pending_pim_q := erase_where here (pending_pim_q c)\<rparr>))
     else if IsPIMHeader cmd then Inr c
     else run c)"

subsection \<open>From transactions to commands\<close>

datatype QueueToSchedule = READ_Q | WRITE_BUFFER | PIM_Q

definition start_draining :: "mem_config \<Rightarrow> Controller \<Rightarrow> Controller" where
  "start_draining cfg c = (let n = length (write_buffer c) in
     if \<not> rw_dependency_lock c \<and> write_draining c = 0 \<and> (n \<ge> capacity cfg \<or> n > 8 \<and> QueueEmpty (ct_queue c))
     then c\<lparr>write_draining := sint (of_nat n :: 32 word)\<rparr> else c)"

definition queue_to_schedule :: "Controller \<Rightarrow> QueueToSchedule" where
  "queue_to_schedule c = (let pim_q_size = GetPIMQueueSize (ct_queue c) in
     if ct_pim_queue c = [] then
       (if rw_dependency_lock c then READ_Q else if write_draining c > 0 then WRITE_BUFFER else READ_Q)
     else if rw_dependency_lock c then READ_Q
     else if write_draining c > 0 \<and> pim_q_size \<ge> 2 then WRITE_BUFFER
     else if pim_q_size < 2 \<or> read_queue c = [] then PIM_Q
     else READ_Q)"

definition trans_queue :: "QueueToSchedule \<Rightarrow> Controller \<Rightarrow> Transaction list" where
  "trans_queue w c = (case w of READ_Q \<Rightarrow> read_queue c | WRITE_BUFFER \<Rightarrow> write_buffer c | PIM_Q \<Rightarrow> ct_pim_queue c)"

definition set_trans_queue :: "QueueToSchedule \<Rightarrow> Transaction list \<Rightarrow> Controller \<Rightarrow> Controller" where
  "set_trans_queue w l c = (case w of READ_Q \<Rightarrow> c\<lparr>read_queue := l\<rparr> | WRITE_BUFFER \<Rightarrow> c\<lparr>write_buffer := l\<rparr> | PIM_Q \<Rightarrow> c\<lparr>ct_pim_queue := l\<rparr>)"

text \<open>A write that must wait for a read or an operation in memory of its address ends the draining.\<close>

definition write_waits :: "Transaction \<Rightarrow> Controller \<Rightarrow> Controller option" where
  "write_waits t c =
     (if at_addr (tr_addr t) (pending_rd_q c) \<noteq> [] then
        Some ((if at_addr (tr_addr t) (read_queue c) \<noteq> [] then c\<lparr>rw_dependency_lock := True, rw_dependency_addr := tr_addr t\<rparr> else c)
          \<lparr>write_draining := 0\<rparr>)
      else case at_addr (tr_addr t) (pending_pim_q c) of
        x # _ \<Rightarrow> if added_cycle x < added_cycle t then Some (c\<lparr>write_draining := 0\<rparr>) else None
      | [] \<Rightarrow> None)"

definition enqueue :: "mem_structure \<Rightarrow> QueueToSchedule \<Rightarrow> Transaction list \<Rightarrow> Command \<Rightarrow> Controller \<Rightarrow> fault + Controller" where
  "enqueue s w rest cmd c = (let
     c = (if IsWrite cmd then c\<lparr>write_draining := write_draining c - 1\<rparr> else c);
     c = (if IsRead cmd \<and> rw_dependency_lock c \<and> rw_dependency_addr c = hex_addr cmd
          then c\<lparr>rw_dependency_addr := 0, rw_dependency_lock := False\<rparr> else c)
   in bindE (AddCommand s cmd (ct_queue c)) (\<lambda>(ok, q). Inr (set_trans_queue w rest (c\<lparr>ct_queue := q\<rparr>))))"

fun schedule_loop :: "mem_config \<Rightarrow> QueueToSchedule \<Rightarrow> Transaction list \<Rightarrow> Transaction list \<Rightarrow> Controller \<Rightarrow> fault + Controller" where
  "schedule_loop cfg w before [] c = Inr c"
| "schedule_loop cfg w before (t # ts) c = bindE (TransToCommand cfg t) (\<lambda>cmd.
     let s = mc_structure cfg; a = cmd_addr cmd; rank = (if IsGwrite cmd then - 1 else ad_rank a) in
     bindE (WillAcceptCommand s (ct_queue c) rank (ad_bankgroup a) (ad_bank a)) (\<lambda>ok.
      if \<not> ok then schedule_loop cfg w (before @ [t]) ts c
      else case (if IsWrite cmd then write_waits t c else None) of
             Some c \<Rightarrow> Inr c
           | None \<Rightarrow> enqueue s w (before @ ts) cmd c))"

definition ScheduleTransaction :: "mem_config \<Rightarrow> Controller \<Rightarrow> fault + Controller" where
  "ScheduleTransaction cfg c = (let c = start_draining cfg c; w = queue_to_schedule c
     in schedule_loop cfg w [] (trans_queue w c) c)"

subsection \<open>A cycle\<close>

definition issue_one :: "mem_config \<Rightarrow> Controller \<Rightarrow> fault + (bool \<times> Controller)" where
  "issue_one cfg c =
     bindE (if refresh_q (ct_channel c) \<noteq> [] then FinishRefresh cfg (ct_channel c) (ct_queue c) else Inr (Command0, ct_queue c)) (\<lambda>(cmd, q).
     bindE (if IsValid cmd then Inr (cmd, q)
            else bindE (GetRefreshSlack (ct_refresh c)) (\<lambda>(_, slack). GetCommandToIssue cfg (ct_channel c) slack q)) (\<lambda>(cmd, q).
     let c = c\<lparr>ct_queue := q\<rparr> in
     if IsValid cmd then bindE (IssueCommand cfg cmd c) (\<lambda>c. Inr (True, c)) else Inr (False, c)))"

definition count_idle :: "mem_structure \<Rightarrow> ChannelState \<Rightarrow> ChannelState" where
  "count_idle s ch = fold (\<lambda>i ch. if rank_is_sref ch i then ch
     else ch\<lparr>rank_idle_cycles := (rank_idle_cycles ch)(i := if IsAllBankIdleInRank s i ch then rank_idle_cycles ch i + 1 else 0)\<rparr>)
     [0..mc_ranks s - 1] ch"

text \<open>Ranks enter and leave self-refresh when nothing was issued; the loop ends after the first command.\<close>

fun self_refresh :: "mem_config \<Rightarrow> int list \<Rightarrow> Controller \<Rightarrow> fault + Controller" where
  "self_refresh cfg [] c = Inr c"
| "self_refresh cfg (i # is) c = (let ch = ct_channel c; a = Address0\<lparr>ad_rank := i\<rparr>;
     ask = (\<lambda>ct. bindE (Channel_GetReadyCommand cfg (Command_new ct a (- 1)) (ct_clk c) ch) (\<lambda>cmd.
       if IsValid cmd then IssueCommand cfg cmd c else self_refresh cfg is c))
   in bindE (at (rank_q_empty (ct_queue c)) (nat i)) (\<lambda>empty.
     if rank_is_sref ch i then (if \<not> empty then ask CT_SREF_EXIT else self_refresh cfg is c)
     else if empty \<and> rank_idle_cycles ch i \<ge> sref_threshold (mc_system cfg) then ask CT_SREF_ENTER
     else self_refresh cfg is c))"

definition Controller_ClockTick :: "mem_config \<Rightarrow> Controller \<Rightarrow> fault + Controller" where
  "Controller_ClockTick cfg c = (let s = mc_structure cfg in
     bindE (Refresh_ClockTick s (ct_refresh c) (ct_channel c)) (\<lambda>(r, ch).
     bindE (issue_one cfg (c\<lparr>ct_refresh := r, ct_channel := ch\<rparr>)) (\<lambda>(issued, c).
     let c = c\<lparr>ct_channel := count_idle s (ct_channel c)\<rparr> in
     bindE (if enable_self_refresh (mc_system cfg) \<and> \<not> issued then self_refresh cfg [0..mc_ranks s - 1] c else Inr c) (\<lambda>c.
     bindE (ScheduleTransaction cfg c) (\<lambda>c.
     Inr (c\<lparr>ct_clk := ct_clk c + 1, ct_queue := Queue_ClockTick (ct_queue c)\<rparr>))))))"

subsection \<open>What an answer of the channel can be\<close>

abbreviation preparing :: "CommandType set" where
  "preparing \<equiv> {CT_PRECHARGE, CT_PIM_PRECHARGE, CT_ACTIVATE, CT_G_ACT, CT_SREF_EXIT}"

lemma required_kind:
  assumes "required_cmd cmd b = Inr (Some (Some ct))"
  shows "ct = cmd_type cmd \<or> ct \<in> preparing"
proof -
  have "required_single cmd b = Inr (Some (Some ct)) \<Longrightarrow> ?thesis"
    by (cases "bs_state b") (auto simp: required_single_def Let_def split: if_splits)
  moreover have "required_pim cmd b = Inr (Some (Some ct)) \<Longrightarrow> ?thesis"
    by (cases "pim_state b") (auto simp: required_pim_def Let_def split: if_splits)
  moreover have "required_normal cmd b = Inr (Some (Some ct)) \<Longrightarrow> ?thesis"
    by (cases "bs_state b") (auto simp: required_normal_def Let_def split: if_splits)
  ultimately show ?thesis using assms by (auto simp: required_cmd_def split: if_splits)
qed

lemma bank_ready_kind:
  assumes "Bank_GetReadyCommand cmd clk b = Inr r" "IsValid r"
  shows "hex_addr r = hex_addr cmd \<and> cmd_addr r = cmd_addr cmd \<and> (cmd_type r = cmd_type cmd \<or> cmd_type r \<in> preparing)"
proof -
  obtain keep x where x: "required_cmd cmd b = Inr x" "r = when_ready keep cmd clk b x"
    using GetReady_required [OF assms(1)] by blast
  have v: "IsValid (when_ready keep cmd clk b x)" using assms(2) x(2) by simp
  show ?thesis using v
  proof (cases rule: when_ready_valid)
    case (2 ct)
    then show ?thesis using required_kind x by simp
  qed (use x in simp)
qed

lemma scan_result_kind:
  assumes "scan_banks cmd clk bs h ids n lst = Inr res" "IsValid (scan_result num res)"
    and "\<not> IsValid lst \<or> P lst"
    and bank: "\<And>bk r. Bank_GetReadyCommand cmd clk (bs bk) = Inr r \<Longrightarrow> IsValid r \<Longrightarrow> P r"
    and handed: "\<And>bk r c. Bank_GetReadyCommand cmd clk (bs bk) = Inr r \<Longrightarrow> IsValid r \<Longrightarrow> h bk r = Inr (Some c) \<Longrightarrow> IsValid c \<Longrightarrow> P c"
  shows "P (scan_result num res)"
  using assms(1,3)
proof (induction ids arbitrary: n lst)
  case Nil
  then show ?case using assms(2) by (auto simp: scan_result_def IsValid_def Command0_def split: if_splits)
next
  case (Cons bk ids)
  obtain r where r: "Bank_GetReadyCommand cmd clk (bs bk) = Inr r" using Cons.prems(1) by auto
  show ?case
  proof (cases "IsValid r")
    case True
    then obtain x where x: "h bk r = Inr x" using Cons.prems(1) r by auto
    show ?thesis
    proof (cases x)
      case None
      then show ?thesis using Cons.IH [of "n + 1" r] Cons.prems(1) r True x bank [OF r True] by simp
    next
      case (Some c)
      then have res: "res = Inl c" using Cons.prems(1) r True x by simp
      then show ?thesis using handed [OF r True] x Some assms(2) by (simp add: scan_result_def)
    qed
  next
    case False
    then show ?thesis using Cons.IH [of n r] Cons.prems(1) r by simp
  qed
qed

text \<open>The same request, or a command that prepares it.\<close>

definition serves :: "Command \<Rightarrow> Command \<Rightarrow> bool" where
  "serves cmd r \<longleftrightarrow> hex_addr r = hex_addr cmd \<and> (cmd_type r = cmd_type cmd \<or> cmd_type r \<in> preparing)"

lemma channel_ready_serves:
  assumes "Channel_GetReadyCommand cfg cmd clk ch = Inr r" "IsValid r"
  shows "serves cmd r"
proof -
  have b: "serves cmd r" if "Bank_GetReadyCommand cmd clk (bank_states ch bk) = Inr r" "IsValid r" for bk r
    using bank_ready_kind [OF that] unfolding serves_def by blast
  have 1: "serves cmd c" if "Bank_GetReadyCommand cmd clk (bank_states ch bk) = Inr r" "IsValid r" "hand_on_channel cmd bk r = Inr (Some c)" for bk r c
    using b [OF that(1,2)] that(3) by (cases bk) (auto simp: hand_on_channel_def serves_def split: if_splits)
  have 2: "serves cmd c" if "Bank_GetReadyCommand cmd clk (bank_states ch bk) = Inr r" "IsValid r" "hand_on_rank cmd bk r = Inr (Some c)" for bk r c
    using b [OF that(1,2)] that(3) by (cases bk) (auto simp: hand_on_rank_def serves_def split: if_splits)
  have 3: "serves cmd c" if "Bank_GetReadyCommand cmd clk (bank_states ch bk) = Inr r" "IsValid r" "hand_on_group cfg clk ch cmd bk r = Inr (Some c)" "IsValid c" for bk r c
    using b [OF that(1,2)] that(3,4) by (cases bk) (auto simp: hand_on_group_def serves_def IsValid_def Command0_def split: if_splits)
  have e: "\<not> IsValid Command0" by (simp add: IsValid_def Command0_def)
  note scan = scan_result_kind [where P = "serves cmd" and lst = Command0]
  show ?thesis
    using assms unfolding Channel_GetReadyCommand_def Let_def
    by (auto split: if_splits intro: scan b 1 2 3 simp: e)
qed

text \<open>A read or write is answered with its own address.\<close>

lemma channel_ready_same:
  assumes "Channel_GetReadyCommand cfg cmd clk ch = Inr r" "IsReadWrite cmd" "cmd_type r = cmd_type cmd"
  shows "cmd_addr r = cmd_addr cmd"
proof -
  have n: "\<not> IsChannelCMD cmd" "\<not> IsPIMHeader cmd" "\<not> IsRankCMD cmd" "cmd_type cmd \<noteq> CT_G_ACT" "cmd_type cmd \<noteq> CT_SIZE"
    using assms(2) by (auto simp: IsReadWrite_def IsRead_def IsWrite_def command_classes)
  then obtain r0 where r0: "Bank_GetReadyCommand cmd clk (bank_states ch (bank_at (cmd_addr cmd))) = Inr r0"
    "r = (if cmd_type r0 = CT_ACTIVATE \<and> \<not> ActivationWindowOk cfg (ad_rank (cmd_addr r0)) clk ch then Command0 else r0)"
    using assms(1) unfolding Channel_GetReadyCommand_def Let_def
    by (simp split: if_split_asm) metis+
  then have "r = r0" using assms(3) n(5) by (auto simp: Command0_def split: if_splits)
  then show ?thesis using bank_ready_kind [OF r0(1)] assms(3) n(5) by (auto simp: IsValid_def)
qed

end
