(* ===== verification/MemControllerInv.thy ===== *)
theory MemControllerInv
  imports MemController
begin

text \<open>
  The controller of a memory channel: what the queues hand out, a clock tick as a sequence of steps, and the
  invariant that relates what is pending to what is on its way to the memory.
\<close>

subsection \<open>What leaves the queues with a command\<close>

text \<open>The commands that the transactions of the NPU become, and the part of a queue's state that only \<open>AddCommand\<close> changes.\<close>

definition queue_types :: "CommandQueue \<Rightarrow> bool" where
  "queue_types q \<longleftrightarrow> (\<forall>l\<in>set (cmd_queues q). \<forall>c\<in>set l. cmd_type c \<in> {CT_READ, CT_WRITE}) \<and>
     (\<forall>c\<in>set (pim_cmds q). cmd_type c \<in> {CT_GWRITE, CT_P_HEADER, CT_COMPS_READRES})"

definition shape :: "CommandQueue \<Rightarrow> QueueStructure \<times> nat \<times> nat \<times> nat \<times> bool list \<times> u64" where
  "shape q = (cq_structure q, num_queues q, queue_size q, pim_cmd_queue_size q, rank_q_empty q, cq_clk q)"

lemma shape_simps:
  "shape (q\<lparr>queue_idx := a\<rparr>) = shape q" "shape (q\<lparr>is_in_ref := b\<rparr>) = shape q" "shape (q\<lparr>ref_q_indices := c\<rparr>) = shape q"
  "shape (q\<lparr>skip_pim := b\<rparr>) = shape q" "shape (q\<lparr>remain_slack := i\<rparr>) = shape q" "shape (q\<lparr>reserved_row_for_pim := i\<rparr>) = shape q"
  "shape (q\<lparr>is_gwriting := b\<rparr>) = shape q" "shape (q\<lparr>gwrite_target := t\<rparr>) = shape q" "shape (q\<lparr>cmd_queues := l\<rparr>) = shape q"
  "shape (q\<lparr>pim_cmds := p\<rparr>) = shape q"
  by (simp_all add: shape_def)

definition matches :: "Command \<Rightarrow> Command \<Rightarrow> bool" where
  "matches c d \<longleftrightarrow> hex_addr c = hex_addr d \<and> cmd_type c = cmd_type d"

inductive taken :: "CommandQueue \<Rightarrow> Command \<Rightarrow> CommandQueue \<Rightarrow> bool" for q cmd q' where
  taken_none: "cmd_queues q' = cmd_queues q \<Longrightarrow> pim_cmds q' = pim_cmds q \<Longrightarrow> shape q' = shape q \<Longrightarrow>
    \<not> IsReadWrite cmd \<Longrightarrow> \<not> PIMQCommand cmd \<Longrightarrow> taken q cmd q'"
| taken_rw: "i < length (cmd_queues q) \<Longrightarrow> cmd_queues q' = (cmd_queues q)[i := erase_where (matches cmd) (cmd_queues q ! i)] \<Longrightarrow>
    \<exists>d\<in>set (cmd_queues q ! i). matches cmd d \<Longrightarrow> pim_cmds q' = pim_cmds q \<Longrightarrow> shape q' = shape q \<Longrightarrow> IsReadWrite cmd \<Longrightarrow> taken q cmd q'"
| taken_pim: "pim_cmds q = d # pim_cmds q' \<Longrightarrow> matches cmd d \<Longrightarrow> cmd_queues q' = cmd_queues q \<Longrightarrow> shape q' = shape q \<Longrightarrow>
    PIMQCommand cmd \<Longrightarrow> taken q cmd q'"

lemmas kinds = IsReadWrite_def IsRead_def IsWrite_def PIMQCommand_def IsPIMCommand_def IsPIMHeader_def IsValid_def IsRefresh_def IsGwrite_def
  IsCompsReadres_def

lemma Command0_kinds [simp]: "\<not> IsValid Command0" "\<not> IsReadWrite Command0" "\<not> PIMQCommand Command0"
  by (simp_all add: kinds Command0_def)

lemma PIMQCommand_iff: "PIMQCommand c \<longleftrightarrow> IsPIMCommand c \<or> IsPIMHeader c"
  by (auto simp: kinds)

text \<open>Questions leave the queues alone.\<close>

definition unmoved :: "CommandQueue \<Rightarrow> CommandQueue \<Rightarrow> bool" where
  "unmoved q q' \<longleftrightarrow> cmd_queues q' = cmd_queues q \<and> pim_cmds q' = pim_cmds q \<and> shape q' = shape q"

lemma unmoved_refl [simp]: "unmoved q q"
  by (simp add: unmoved_def)

lemma unmoved_trans: "unmoved q q1 \<Longrightarrow> unmoved q1 q2 \<Longrightarrow> unmoved q q2"
  by (simp add: unmoved_def)

lemma unmoved_taken: "unmoved q q1 \<Longrightarrow> taken q1 cmd q2 \<Longrightarrow> taken q cmd q2"
  by (simp add: taken.simps unmoved_def)

lemma unmoved_types: "unmoved q q' \<Longrightarrow> queue_types q \<Longrightarrow> queue_types q'"
  by (simp add: unmoved_def queue_types_def)

lemma CanMeetRefreshDeadline_unmoved: "CanMeetRefreshDeadline cfg ch c slack q = Inr (ok, q') \<Longrightarrow> unmoved q q'"
  by (auto simp: CanMeetRefreshDeadline_def Let_def unmoved_def shape_simps)

lemma GetReadyInPIMQueue_serves:
  assumes "GetReadyInPIMQueue cfg ch slack q = Inr (cmd, q')"
  shows "unmoved q q' \<and> (IsValid cmd \<longrightarrow> (\<exists>c rest. pim_cmds q = c # rest \<and> serves c cmd))"
proof (cases "pim_cmds q")
  case Nil
  then show ?thesis using assms by (auto simp: GetReadyInPIMQueue_def)
next
  case (Cons c rest)
  have u: "unmoved q (q1\<lparr>is_gwriting := b, gwrite_target := a\<rparr>)" "unmoved q (q1\<lparr>skip_pim := b\<rparr>)" "unmoved q (q1\<lparr>reserved_row_for_pim := i\<rparr>)"
    if "unmoved q q1" for q1 b a i
    using that by (simp_all add: unmoved_def shape_simps)
  show ?thesis
    using assms Cons
    by (auto simp: GetReadyInPIMQueue_def Let_def split: if_splits
        dest!: CanMeetRefreshDeadline_unmoved intro: u channel_ready_serves)
qed

lemma fit_slack_unmoved: "fit_slack cfg c cmd q = Inr (Some q') \<Longrightarrow> unmoved q q'"
  by (auto simp: fit_slack_def Let_def unmoved_def shape_simps split: if_splits)

lemma first_ready_serves:
  assumes "first_ready cfg ch before cs q = Inr (cmd, q')"
  shows "unmoved q q' \<and> (IsValid cmd \<longrightarrow> (\<exists>c\<in>set cs. Channel_GetReadyCommand cfg c (cq_clk q) ch = Inr cmd))"
  using assms
proof (induction cs arbitrary: before)
  case (Cons c cs)
  let ?next = "first_ready cfg ch (before @ [c]) cs q"
  have "?next = Inr (cmd, q') \<or> (Channel_GetReadyCommand cfg c (cq_clk q) ch = Inr cmd \<and> fit_slack cfg c cmd q = Inr (Some q'))"
    using Cons.prems by (auto simp: Let_def split: if_splits option.splits)
  then show ?case using Cons.IH fit_slack_unmoved by auto
qed simp

lemma issue_loop_taken:
  assumes "issue_loop n cfg ch q = Inr (cmd, q')" "queue_types q"
  shows "taken q cmd q'"
  using assms
proof (induction n arbitrary: q)
  case 0
  then show ?case by (auto intro!: taken_none)
next
  case (Suc n)
  let ?q = "GetNextQueue q"
  have m: "unmoved q ?q" by (simp add: GetNextQueue_def unmoved_def shape_simps)
  show ?case
  proof (cases "is_in_ref ?q \<and> int (queue_idx ?q) \<in> ref_q_indices ?q")
    case True
    then have "issue_loop n cfg ch ?q = Inr (cmd, q')" using Suc.prems(1) by (simp add: Let_def)
    then show ?thesis using Suc.IH unmoved_taken [OF m] unmoved_types [OF m Suc.prems(2)] by blast
  next
    case False
    then obtain cmd1 q1 where idx: "queue_idx ?q < length (cmd_queues ?q)"
      and f: "GetFirstReadyInQueue cfg ch (cmd_queues ?q ! queue_idx ?q) ?q = Inr (cmd1, q1)"
      and k: "(if IsValid cmd1 then bindE (if IsReadWrite cmd1 then EraseRWCommand (mc_structure cfg) cmd1 q1 else Inr q1) (\<lambda>q. Inr (cmd1, q))
        else issue_loop n cfg ch q1) = Inr (cmd, q')"
      using Suc.prems(1) by (auto simp: Let_def)
    have s: "unmoved ?q q1" "IsValid cmd1 \<longrightarrow> (\<exists>c\<in>set (cmd_queues ?q ! queue_idx ?q). serves c cmd1)"
      using first_ready_serves [OF f [unfolded GetFirstReadyInQueue_def]] channel_ready_serves by blast+
    have m1: "unmoved q q1" using m s(1) by (rule unmoved_trans)
    show ?thesis
    proof (cases "IsValid cmd1")
      case True
      then obtain c where c: "c \<in> set (cmd_queues ?q ! queue_idx ?q)" "serves c cmd1" using s(2) by blast
      have "cmd_type c \<in> {CT_READ, CT_WRITE}"
        using c(1) idx Suc.prems(2) m by (auto simp: queue_types_def unmoved_def)
      then have t: "\<not> PIMQCommand cmd1" using c(2) by (auto simp: serves_def kinds)
      show ?thesis
      proof (cases "IsReadWrite cmd1")
        case True
        then have e: "EraseRWCommand (mc_structure cfg) cmd1 q1 = Inr q'" "cmd = cmd1" using k \<open>IsValid cmd1\<close> by auto
        then obtain i where i: "i < length (cmd_queues q1)" "q' = q1\<lparr>cmd_queues := (cmd_queues q1)[i := erase_where (matches cmd) (cmd_queues q1 ! i)]\<rparr>"
          "\<exists>d\<in>set (cmd_queues q1 ! i). matches cmd d"
          using t by (auto simp: EraseRWCommand_def GetQueue_def set_queue_def queue_at_def Let_def matches_def [abs_def] split: if_splits)
        then have "taken q1 cmd q'" by (intro taken_rw [of i]) (use True e(2) in \<open>simp_all add: shape_simps\<close>)
        then show ?thesis by (rule unmoved_taken [OF m1])
      next
        case False
        then have "cmd = cmd1" "q' = q1" using k True by auto
        then show ?thesis using False t m1 by (intro taken_none) (simp_all add: unmoved_def)
      qed
    next
      case False
      then show ?thesis using k Suc.IH unmoved_taken [OF m1] unmoved_types [OF m1 Suc.prems(2)] by auto
    qed
  qed
qed

lemma GetCommandToIssue_taken:
  assumes "GetCommandToIssue cfg ch slack q = Inr (cmd, q')" "queue_types q"
  shows "taken q cmd q'"
proof (cases "\<not> skip_pim q \<and> pim_cmds q \<noteq> [] \<and> \<not> is_in_ref q")
  case True
  then obtain cmd1 q1 where g: "GetReadyInPIMQueue cfg ch slack q = Inr (cmd1, q1)"
    using assms(1) by (auto simp: GetCommandToIssue_def)
  have s: "unmoved q q1" "IsValid cmd1 \<longrightarrow> (\<exists>c rest. pim_cmds q = c # rest \<and> serves c cmd1)"
    using GetReadyInPIMQueue_serves [OF g] by blast+
  show ?thesis
  proof (cases "IsValid cmd1")
    case True
    then obtain c rest where c: "pim_cmds q = c # rest" "serves c cmd1" using s(2) by blast
    have "cmd_type c \<in> {CT_GWRITE, CT_P_HEADER, CT_COMPS_READRES}" using assms(2) c(1) by (simp add: queue_types_def)
    then have t: "\<not> IsReadWrite cmd1" "PIMQCommand cmd1 \<longrightarrow> matches cmd1 c" using c(2) by (auto simp: serves_def kinds matches_def)
    show ?thesis
    proof (cases "PIMQCommand cmd1")
      case True
      then have "EraseRWCommand (mc_structure cfg) cmd1 q1 = Inr q'" "cmd = cmd1"
        using assms(1) \<open>\<not> skip_pim q \<and> pim_cmds q \<noteq> [] \<and> \<not> is_in_ref q\<close> \<open>IsValid cmd1\<close> g
        by (auto simp: GetCommandToIssue_def PIMQCommand_iff)
      moreover have "erase_where (\<lambda>d. hex_addr cmd1 = hex_addr d \<and> cmd_type cmd1 = cmd_type d) (c # rest) = rest"
        using t(2) True by (simp add: matches_def)
      ultimately have "q' = q1\<lparr>pim_cmds := rest\<rparr>" "cmd = cmd1"
        using True s(1) c(1) by (auto simp: EraseRWCommand_def GetQueue_def set_queue_def Let_def unmoved_def split: if_splits)
      then show ?thesis using t(2) True s(1) c(1) by (intro taken_pim [of _ c]) (simp_all add: unmoved_def shape_simps)
    next
      case False
      then have "q' = q1" "cmd = cmd1"
        using assms(1) \<open>\<not> skip_pim q \<and> pim_cmds q \<noteq> [] \<and> \<not> is_in_ref q\<close> \<open>IsValid cmd1\<close> g
        by (auto simp: GetCommandToIssue_def PIMQCommand_iff)
      then show ?thesis using t(1) False s(1) by (intro taken_none) (simp_all add: unmoved_def)
    qed
  next
    case False
    then have "(cmd = Command0 \<and> q' = q1) \<or> issue_loop (num_queues q1) cfg ch q1 = Inr (cmd, q')"
      using assms(1) True g by (auto simp: GetCommandToIssue_def split: if_splits)
    then show ?thesis
    proof
      assume "cmd = Command0 \<and> q' = q1"
      then show ?thesis using s(1) by (intro taken_none) (simp_all add: unmoved_def)
    next
      assume "issue_loop (num_queues q1) cfg ch q1 = Inr (cmd, q')"
      then show ?thesis using issue_loop_taken unmoved_types [OF s(1) assms(2)] unmoved_taken [OF s(1)] by blast
    qed
  qed
next
  case False
  then have "issue_loop (num_queues q) cfg ch q = Inr (cmd, q')" using assms(1) by (auto simp: GetCommandToIssue_def)
  then show ?thesis using issue_loop_taken assms(2) by blast
qed

lemma FinishRefresh_unmoved:
  assumes "FinishRefresh cfg ch q = Inr (cmd, q')" "\<forall>c\<in>set (refresh_q ch). IsRefresh c"
  shows "unmoved q q' \<and> taken q cmd q'"
proof -
  obtain ref rest where ref: "refresh_q ch = ref # rest" using assms(1) by (cases "refresh_q ch") (auto simp: FinishRefresh_def)
  have u: "unmoved q q'" and g: "\<exists>clk. Channel_GetReadyCommand cfg ref clk ch = Inr cmd"
    using assms(1) ref by (auto simp: FinishRefresh_def GetRefQIndices_def Let_def unmoved_def shape_simps split: if_splits)
  have "\<not> IsReadWrite cmd \<and> \<not> PIMQCommand cmd"
  proof (cases "IsValid cmd")
    case True
    then have "serves ref cmd" using g channel_ready_serves by blast
    moreover have "IsRefresh ref" using assms(2) ref by simp
    ultimately show ?thesis by (auto simp: serves_def kinds)
  qed (simp add: kinds)
  then show ?thesis using u by (auto simp: unmoved_def intro: taken_none)
qed

subsection \<open>The refresh queue holds refreshes\<close>

definition refreshes_only :: "ChannelState \<Rightarrow> bool" where
  "refreshes_only ch \<longleftrightarrow> (\<forall>c\<in>set (refresh_q ch). IsRefresh c)"

lemma set_erase_where: "set (erase_where p xs) \<subseteq> set xs"
  by (induction xs) auto

lemma constrain_banks_refresh_q [simp]: "refresh_q (constrain_banks ids l clk ch) = refresh_q ch"
  by (simp add: constrain_banks_def)

lemma UpdateActivationTimes_refresh_q [simp]: "refresh_q (UpdateActivationTimes cfg rank t ch) = refresh_q ch"
  by (simp add: UpdateActivationTimes_def Let_def)

lemma fold_refresh_q: "(\<And>i ch. refresh_q (f i ch) = refresh_q ch) \<Longrightarrow> refresh_q (fold f js ch) = refresh_q ch"
  by (induction js arbitrary: ch) simp_all

lemma UpdateTimingForPIM_refresh_q [simp]: "refresh_q (UpdateTimingForPIM cfg cmd l clk ch) = refresh_q ch"
  by (simp add: UpdateTimingForPIM_def Let_def)

lemma UpdateTiming_refresh_q: "UpdateTiming cfg cmd clk ch = Inr ch' \<Longrightarrow> refresh_q ch' = refresh_q ch"
  by (auto simp: UpdateTiming_def Let_def UpdateSameBankTiming_def UpdateSameBankgroupTiming_def
      UpdateOtherBanksSameBankgroupTiming_def UpdateOtherBankgroupsSameRankTiming_def UpdateOtherRanksTiming_def
      UpdateSameRankTiming_def UpdateChannelTiming_def fold_refresh_q split: if_splits)

lemma update_banks_refresh_q: "update_banks cmd ids ch = Inr ch' \<Longrightarrow> refresh_q ch' = refresh_q ch"
  by (induction ids arbitrary: ch) (fastforce simp: update_banks_def)+

lemma UpdateTimingAndStates_refresh_q: "UpdateTimingAndStates cfg cmd clk ch = Inr ch' \<Longrightarrow> set (refresh_q ch') \<subseteq> set (refresh_q ch)"
proof -
  assume "UpdateTimingAndStates cfg cmd clk ch = Inr ch'"
  then obtain ch1 where u: "Channel_UpdateState cfg cmd ch = Inr ch1" "UpdateTiming cfg cmd clk ch1 = Inr ch'"
    by (auto simp: UpdateTimingAndStates_def)
  have e: "refresh_q (if b then ch\<lparr>comp_overhead_flag := f\<rparr> else ch) = refresh_q ch" for b f by simp
  have "set (refresh_q ch1) \<subseteq> set (refresh_q ch)"
    using u(1) by (auto simp: Channel_UpdateState_def Let_def RankNeedRefresh_def BankNeedRefresh_def split: if_splits prod.splits
        dest!: update_banks_refresh_q set_erase_where [THEN subsetD])
  then show ?thesis using UpdateTiming_refresh_q [OF u(2)] by simp
qed

lemma refreshes_only_update: "UpdateTimingAndStates cfg cmd clk ch = Inr ch' \<Longrightarrow> refreshes_only ch \<Longrightarrow> refreshes_only ch'"
  using UpdateTimingAndStates_refresh_q unfolding refreshes_only_def by blast

lemma refreshes_only_need: "refreshes_only ch \<Longrightarrow> refreshes_only (RankNeedRefresh i True ch)" "refreshes_only ch \<Longrightarrow> refreshes_only (BankNeedRefresh b True ch)"
  by (auto simp: refreshes_only_def RankNeedRefresh_def BankNeedRefresh_def IsRefresh_def Command_new_def split: prod.splits)

lemma Refresh_ClockTick_channel:
  assumes "Refresh_ClockTick s r ch = Inr (r', ch')"
  shows "bank_states ch' = bank_states ch \<and> rank_is_sref ch' = rank_is_sref ch \<and> four_aw ch' = four_aw ch \<and> (refreshes_only ch \<longrightarrow> refreshes_only ch')"
proof -
  have "bank_states ch1 = bank_states ch \<and> rank_is_sref ch1 = rank_is_sref ch \<and> four_aw ch1 = four_aw ch \<and> (refreshes_only ch \<longrightarrow> refreshes_only ch1)"
    if "InsertRefresh s r ch = Inr (r1, ch1)" for r1 ch1
    using that by (auto simp: InsertRefresh_def Let_def refreshes_only_need split: RefreshPolicy.splits list.splits if_splits)
      (auto simp: RankNeedRefresh_def BankNeedRefresh_def split: prod.splits)
  then show ?thesis using assms by (auto simp: Refresh_ClockTick_def Let_def split: if_splits)
qed

lemma count_idle_channel: "bank_states (count_idle s ch) = bank_states ch \<and> refresh_q (count_idle s ch) = refresh_q ch \<and>
    four_aw (count_idle s ch) = four_aw ch \<and> rank_is_sref (count_idle s ch) = rank_is_sref ch"
proof -
  have "bank_states (fold f js ch) = bank_states ch \<and> refresh_q (fold f js ch) = refresh_q ch \<and> four_aw (fold f js ch) = four_aw ch \<and>
      rank_is_sref (fold f js ch) = rank_is_sref ch"
    if "\<And>i ch. bank_states (f i ch) = bank_states ch \<and> refresh_q (f i ch) = refresh_q ch \<and> four_aw (f i ch) = four_aw ch \<and> rank_is_sref (f i ch) = rank_is_sref ch"
    for f js
    using that by (induction js arbitrary: ch) simp_all
  from this [of "\<lambda>i ch. if rank_is_sref ch i then ch
     else ch\<lparr>rank_idle_cycles := (rank_idle_cycles ch)(i := if IsAllBankIdleInRank s i ch then rank_idle_cycles ch i + 1 else 0)\<rparr>"]
  show ?thesis unfolding count_idle_def by simp
qed

subsection \<open>From a transaction to its command\<close>

lemma TransToCommand_kind:
  assumes "TransToCommand cfg t = Inr cmd"
  shows "hex_addr cmd = tr_addr t \<and> (tr_type t, cmd_type cmd) \<in> {(TT_READ, CT_READ), (TT_WRITE, CT_WRITE), (TT_GWRITE, CT_GWRITE),
     (TT_PWRITE, CT_PWRITE), (TT_P_HEADER, CT_P_HEADER), (TT_COMPS_READRES, CT_COMPS_READRES)} \<and>
     (cmd_type cmd \<in> {CT_P_HEADER, CT_COMPS_READRES} \<longrightarrow> ad_rank (cmd_addr cmd) = - 1)"
  using assms
  by (cases "tr_type t") (auto simp: TransToCommand_def DecodePIMHeader_def DecodePIMTransaction_def Let_def Command_header_def
      Command_comps_def Command_new_def split: if_splits)

text \<open>What \<open>AddCommand\<close> does to the queues.\<close>

definition static :: "CommandQueue \<Rightarrow> QueueStructure \<times> nat \<times> nat \<times> nat \<times> nat" where
  "static q = (cq_structure q, num_queues q, queue_size q, pim_cmd_queue_size q, length (cmd_queues q))"

lemma taken_static: "taken q cmd q' \<Longrightarrow> static q' = static q"
  by (auto simp: taken.simps static_def shape_def)

lemma AddCommand_pim:
  assumes "AddCommand s cmd q = Inr (ok, q')" "PIMQCommand cmd"
  shows "cmd_queues q' = cmd_queues q \<and> static q' = static q \<and> pim_cmds q' = (if ok then pim_cmds q @ [cmd] else pim_cmds q) \<and>
     (ok \<longleftrightarrow> length (pim_cmds q) < queue_size q)"
  using assms by (auto simp: AddCommand_def GetQueue_def set_queue_def Let_def static_def split: if_splits)

lemma AddCommand_rw:
  assumes "AddCommand s cmd q = Inr (ok, q')" "\<not> PIMQCommand cmd"
  shows "pim_cmds q' = pim_cmds q \<and> static q' = static q \<and> (let i = nat (cmd_index s q cmd) in 0 \<le> cmd_index s q cmd \<and> i < length (cmd_queues q) \<and>
     cmd_queues q' = (if ok then (cmd_queues q)[i := cmd_queues q ! i @ [cmd]] else cmd_queues q) \<and>
     (ok \<longleftrightarrow> length (cmd_queues q ! i) < queue_size q))"
  using assms by (auto simp: AddCommand_def GetQueue_def set_queue_def queue_at_def Let_def static_def split: if_splits)

text \<open>A read or write that the queue accepts is entered.\<close>

lemma AddCommand_accepts:
  assumes "WillAcceptCommand s q (ad_rank (cmd_addr cmd)) (ad_bankgroup (cmd_addr cmd)) (ad_bank (cmd_addr cmd)) = Inr True"
    and "AddCommand s cmd q = Inr (ok, q')" "\<not> PIMQCommand cmd"
  shows ok
proof -
  note r = AddCommand_rw [OF assms(2,3)]
  have "ad_rank (cmd_addr cmd) \<noteq> - 1"
    using r by (auto simp: cmd_index_def GetQueueIndex_def Let_def)
  then show ?thesis using r assms(1) by (auto simp: WillAcceptCommand_def queue_at_def cmd_index_def Let_def split: if_splits)
qed

subsection \<open>One transaction is scheduled\<close>

text \<open>The part of a controller that the dependency lock and the draining do not touch.\<close>

definition same_work :: "Controller \<Rightarrow> Controller \<Rightarrow> bool" where
  "same_work c c' \<longleftrightarrow> c'\<lparr>rw_dependency_lock := False, rw_dependency_addr := 0, write_draining := 0\<rparr> =
     c\<lparr>rw_dependency_lock := False, rw_dependency_addr := 0, write_draining := 0\<rparr>"

lemma same_work_refl: "same_work c c"
  by (simp add: same_work_def)

lemma same_work_trans: "same_work c c1 \<Longrightarrow> same_work c1 c2 \<Longrightarrow> same_work c c2"
  by (simp add: same_work_def)

lemma same_work_upd: "same_work c (c\<lparr>write_draining := d\<rparr>)" "same_work c (c\<lparr>rw_dependency_lock := l\<rparr>)" "same_work c (c\<lparr>rw_dependency_addr := a\<rparr>)"
  by (simp_all add: same_work_def)

lemma same_work_fields:
  assumes "same_work c c'"
  shows "ct_clk c' = ct_clk c" "ct_channel c' = ct_channel c" "ct_queue c' = ct_queue c" "ct_refresh c' = ct_refresh c" "read_queue c' = read_queue c"
    "write_buffer c' = write_buffer c" "ct_pim_queue c' = ct_pim_queue c" "pending_rd_q c' = pending_rd_q c" "pending_wr_q c' = pending_wr_q c"
    "pending_pim_q c' = pending_pim_q c" "return_queue c' = return_queue c"
  using assms unfolding same_work_def by (cases c, cases c', simp)+

lemma write_waits_work: "write_waits t c = Some c' \<Longrightarrow> same_work c c'"
  by (auto simp: write_waits_def split: if_splits list.splits simp: same_work_def)

lemma start_draining_work: "same_work c (start_draining cfg c)"
  by (simp add: start_draining_def Let_def same_work_upd same_work_refl)

definition moved :: "mem_config \<Rightarrow> QueueToSchedule \<Rightarrow> Transaction list \<Rightarrow> Transaction \<Rightarrow> Transaction list \<Rightarrow> Controller \<Rightarrow> Controller \<Rightarrow> bool" where
  "moved cfg w pre t post c c' \<longleftrightarrow> (\<exists>cmd ok q c1. TransToCommand cfg t = Inr cmd \<and> same_work c c1 \<and>
     WillAcceptCommand (mc_structure cfg) (ct_queue c) (if IsGwrite cmd then - 1 else ad_rank (cmd_addr cmd)) (ad_bankgroup (cmd_addr cmd))
       (ad_bank (cmd_addr cmd)) = Inr True \<and>
     AddCommand (mc_structure cfg) cmd (ct_queue c) = Inr (ok, q) \<and> c' = set_trans_queue w (pre @ post) (c1\<lparr>ct_queue := q\<rparr>))"

lemma enqueue_moved:
  assumes "enqueue (mc_structure cfg) w (pre @ post) cmd c = Inr c'" "TransToCommand cfg t = Inr cmd"
    "WillAcceptCommand (mc_structure cfg) (ct_queue c) (if IsGwrite cmd then - 1 else ad_rank (cmd_addr cmd)) (ad_bankgroup (cmd_addr cmd))
       (ad_bank (cmd_addr cmd)) = Inr True"
  shows "moved cfg w pre t post c c'"
proof -
  define c1 where "c1 = (if IsWrite cmd then c\<lparr>write_draining := write_draining c - 1\<rparr> else c)"
  define c2 where "c2 = (if IsRead cmd \<and> rw_dependency_lock c1 \<and> rw_dependency_addr c1 = hex_addr cmd
      then c1\<lparr>rw_dependency_addr := 0, rw_dependency_lock := False\<rparr> else c1)"
  have "same_work c c1" "same_work c1 c2" by (simp_all add: c1_def c2_def same_work_def)
  then have w: "same_work c c2" by (rule same_work_trans)
  moreover have "ct_queue c2 = ct_queue c" using w by (rule same_work_fields)
  ultimately show ?thesis
    using assms unfolding enqueue_def Let_def c1_def [symmetric] c2_def [symmetric] moved_def by auto
qed

lemma schedule_loop_moves:
  assumes "schedule_loop cfg w before ts c = Inr c'"
  shows "same_work c c' \<or> (\<exists>pre t post. ts = pre @ t # post \<and> moved cfg w (before @ pre) t post c c')"
  using assms
proof (induction ts arbitrary: before)
  case Nil
  then show ?case by (simp add: same_work_refl)
next
  case (Cons t ts)
  obtain cmd where cmd: "TransToCommand cfg t = Inr cmd" using Cons.prems by auto
  let ?a = "cmd_addr cmd" and ?s = "mc_structure cfg"
  obtain ok where ok: "WillAcceptCommand ?s (ct_queue c) (if IsGwrite cmd then - 1 else ad_rank ?a) (ad_bankgroup ?a) (ad_bank ?a) = Inr ok"
    using Cons.prems cmd by (auto simp: Let_def)
  show ?case
  proof (cases ok)
    case False
    then have "schedule_loop cfg w (before @ [t]) ts c = Inr c'" using Cons.prems cmd ok by (simp add: Let_def)
    from Cons.IH [OF this] show ?thesis
    proof
      assume "\<exists>pre u post. ts = pre @ u # post \<and> moved cfg w ((before @ [t]) @ pre) u post c c'"
      then obtain pre u post where "ts = pre @ u # post" "moved cfg w ((before @ [t]) @ pre) u post c c'" by blast
      then have "t # ts = (t # pre) @ u # post \<and> moved cfg w (before @ (t # pre)) u post c c'" by simp
      then show ?thesis by blast
    qed simp
  next
    case True
    show ?thesis
    proof (cases "if IsWrite cmd then write_waits t c else None")
      case (Some c1)
      then have "c' = c1" using Cons.prems cmd ok True by (simp add: Let_def)
      then show ?thesis using Some write_waits_work by (auto split: if_splits)
    next
      case None
      then have e: "enqueue ?s w (before @ ts) cmd c = Inr c'" using Cons.prems cmd ok True by (simp add: Let_def)
      have "moved cfg w (before @ []) t ts c c'" by (rule enqueue_moved) (use e cmd ok True in simp_all)
      then show ?thesis by blast
    qed
  qed
qed

subsection \<open>Every pending transaction is on its way\<close>

text \<open>How many transactions and commands for address \<open>a\<close> are between their arrival and the memory.\<close>

definition cmds_at :: "u64 \<Rightarrow> CommandType set \<Rightarrow> Command multiset \<Rightarrow> nat" where
  "cmds_at a K cs = size (filter_mset (\<lambda>d. hex_addr d = a \<and> cmd_type d \<in> K) cs)"

definition rw_cmds :: "CommandQueue \<Rightarrow> Command multiset" where
  "rw_cmds q = mset (concat (cmd_queues q))"

definition reads_at :: "u64 \<Rightarrow> Controller \<Rightarrow> nat" where
  "reads_at a c = length (at_addr a (read_queue c)) + cmds_at a {CT_READ} (rw_cmds (ct_queue c))"

definition writes_at :: "u64 \<Rightarrow> Controller \<Rightarrow> nat" where
  "writes_at a c = length (at_addr a (write_buffer c)) + cmds_at a {CT_WRITE} (rw_cmds (ct_queue c))"

definition pims_at :: "u64 \<Rightarrow> Controller \<Rightarrow> nat" where
  "pims_at a c = length (at_addr a (filter (\<lambda>t. tr_type t \<noteq> TT_P_HEADER) (ct_pim_queue c))) +
     cmds_at a {CT_GWRITE, CT_COMPS_READRES} (mset (pim_cmds (ct_queue c)))"

definition npu_types :: "TransactionType set" where
  "npu_types = {TT_READ, TT_WRITE, TT_GWRITE, TT_P_HEADER, TT_COMPS_READRES}"

definition ctl_types :: "Controller \<Rightarrow> bool" where
  "ctl_types c \<longleftrightarrow> queue_types (ct_queue c) \<and> refreshes_only (ct_channel c) \<and> (\<forall>t\<in>set (read_queue c). tr_type t = TT_READ) \<and>
     (\<forall>t\<in>set (write_buffer c). tr_type t = TT_WRITE) \<and> (\<forall>t\<in>set (ct_pim_queue c). tr_type t \<in> {TT_GWRITE, TT_P_HEADER, TT_COMPS_READRES})"

definition on_its_way :: "Controller \<Rightarrow> bool" where
  "on_its_way c \<longleftrightarrow> (\<forall>a. reads_at a c = (if at_addr a (pending_rd_q c) = [] then 0 else 1) \<and>
     writes_at a c = length (at_addr a (pending_wr_q c)) \<and> pims_at a c \<le> length (at_addr a (pending_pim_q c)) \<and>
     (pim_cmd_queue_size (ct_queue c) \<le> queue_size (ct_queue c) \<longrightarrow> pims_at a c = length (at_addr a (pending_pim_q c))))"

definition ctl_inv :: "Controller \<Rightarrow> bool" where
  "ctl_inv c \<longleftrightarrow> ctl_types c \<and> on_its_way c"

lemma cmds_at_simps [simp]:
  "cmds_at a K {#} = 0"
  "cmds_at a K (add_mset d cs) = (if hex_addr d = a \<and> cmd_type d \<in> K then 1 else 0) + cmds_at a K cs"
  by (simp_all add: cmds_at_def)

lemma at_addr_simps [simp]:
  "at_addr a [] = []" "at_addr a (t # ts) = (if tr_addr t = a then t # at_addr a ts else at_addr a ts)"
  "at_addr a (xs @ ys) = at_addr a xs @ at_addr a ys"
  by (simp_all add: at_addr_def)

lemma at_addr_same: "(\<And>t. t \<in> set ts \<Longrightarrow> tr_addr t = a \<Longrightarrow> P t) \<Longrightarrow> at_addr a (filter P ts) = at_addr a ts"
  unfolding at_addr_def by (induction ts) auto

lemma at_addr_gone: "at_addr a (filter (\<lambda>x. tr_addr x \<noteq> a) ts) = []"
  by (simp add: at_addr_def filter_empty_conv)

lemma at_addr_erase: "at_addr a (erase_where (\<lambda>x. tr_addr x = b) ts) = (if a = b then tl (at_addr a ts) else at_addr a ts)"
  by (induction ts) auto

lemma mset_erase_where:
  "\<exists>d\<in>set xs. p d \<Longrightarrow> \<exists>d\<in>set xs. p d \<and> mset xs = add_mset d (mset (erase_where p xs))"
proof (induction xs)
  case (Cons x xs)
  show ?case
  proof (cases "p x")
    case False
    then obtain d where "d \<in> set xs" "p d" "mset xs = add_mset d (mset (erase_where p xs))" using Cons by auto
    then show ?thesis using False by (intro bexI [of _ d]) simp_all
  qed auto
qed simp

lemma rw_cmds_types: "queue_types q \<Longrightarrow> d \<in># rw_cmds q \<Longrightarrow> cmd_type d \<in> {CT_READ, CT_WRITE}"
  by (auto simp: queue_types_def rw_cmds_def)

text \<open>A command that is taken was in the queues.\<close>

lemma taken_rw_cmds:
  assumes "taken q cmd q'" "IsReadWrite cmd" "queue_types q"
  shows "\<exists>d. matches cmd d \<and> cmd_type d \<in> {CT_READ, CT_WRITE} \<and> rw_cmds q = add_mset d (rw_cmds q') \<and> pim_cmds q' = pim_cmds q"
  using assms(1)
proof cases
  case (taken_rw i)
  obtain d where d: "d \<in> set (cmd_queues q ! i)" "matches cmd d"
    "mset (cmd_queues q ! i) = add_mset d (mset (erase_where (matches cmd) (cmd_queues q ! i)))"
    using mset_erase_where [OF taken_rw(3)] by blast
  have "rw_cmds q' + mset (cmd_queues q ! i) = rw_cmds q + mset (erase_where (matches cmd) (cmd_queues q ! i))"
    unfolding rw_cmds_def taken_rw(2) by (rule mset_concat_update [OF taken_rw(1)])
  then have "rw_cmds q = add_mset d (rw_cmds q')" unfolding d(3) by simp
  then show ?thesis using d(2) taken_rw(4) rw_cmds_types [OF assms(3), of d] by auto
qed (use assms(2) in \<open>auto simp: kinds\<close>)

lemma taken_keeps:
  assumes "taken q cmd q'" "\<not> IsReadWrite cmd"
  shows "cmd_queues q' = cmd_queues q" "PIMQCommand cmd \<Longrightarrow> \<exists>d. matches cmd d \<and> pim_cmds q = d # pim_cmds q'"
    "\<not> PIMQCommand cmd \<Longrightarrow> pim_cmds q' = pim_cmds q"
  using assms by (auto simp: taken.simps)

lemma queue_types_rw: "queue_types q \<longleftrightarrow> (\<forall>d. d \<in># rw_cmds q \<longrightarrow> cmd_type d \<in> {CT_READ, CT_WRITE}) \<and>
    (\<forall>c\<in>set (pim_cmds q). cmd_type c \<in> {CT_GWRITE, CT_P_HEADER, CT_COMPS_READRES})"
  by (auto simp: queue_types_def rw_cmds_def)

lemma taken_types: "taken q cmd q' \<Longrightarrow> queue_types q \<Longrightarrow> queue_types q'"
proof -
  assume t: "taken q cmd q'" and q: "queue_types q"
  show ?thesis
  proof (cases "IsReadWrite cmd")
    case True
    then show ?thesis using taken_rw_cmds [OF t True q] q by (auto simp: queue_types_rw)
  next
    case False
    then show ?thesis using taken_keeps [OF t False] q by (cases "PIMQCommand cmd") (auto simp: queue_types_def)
  qed
qed

lemma taken_limits: "taken q cmd q' \<Longrightarrow> pim_cmd_queue_size q' = pim_cmd_queue_size q \<and> queue_size q' = queue_size q"
  using taken_static by (fastforce simp: static_def)

subsection \<open>Issuing keeps it\<close>

lemma IssueCommand_run:
  assumes "IssueCommand cfg cmd c = Inr c'"
  obtains (read) ch where "IsRead cmd" "at_addr (hex_addr cmd) (pending_rd_q c) \<noteq> []"
    "c' = (complete_at (ct_clk c + of_int (read_delay (mc_timing cfg))) (at_addr (hex_addr cmd) (pending_rd_q c)) c)
          \<lparr>pending_rd_q := filter (\<lambda>x. tr_addr x \<noteq> hex_addr cmd) (pending_rd_q c), ct_channel := ch\<rparr>"
    "UpdateTimingAndStates cfg cmd (ct_clk c) (ct_channel c) = Inr ch"
  | (written) ch where "IsWrite cmd" "at_addr (hex_addr cmd) (pending_wr_q c) \<noteq> []"
    "c' = c\<lparr>pending_wr_q := erase_where (\<lambda>x. tr_addr x = hex_addr cmd) (pending_wr_q c), ct_channel := ch\<rparr>"
    "UpdateTimingAndStates cfg cmd (ct_clk c) (ct_channel c) = Inr ch"
  | (pim) x xs ch where "IsCompsReadres cmd \<or> IsGwrite cmd" "at_addr (hex_addr cmd) (pending_pim_q c) = x # xs"
    "c' = (complete_at (ct_clk c + of_int (if IsGwrite cmd then gwrite_delay (mc_timing cfg) else read_delay (mc_timing cfg))) [x] c)
          \<lparr>pending_pim_q := erase_where (\<lambda>x. tr_addr x = hex_addr cmd) (pending_pim_q c), ct_channel := ch\<rparr>"
    "UpdateTimingAndStates cfg cmd (ct_clk c) (ct_channel c) = Inr ch"
  | (header) "IsPIMHeader cmd" "c' = c"
  | (other) ch where "\<not> IsReadWrite cmd" "\<not> IsPIMHeader cmd" "\<not> (IsCompsReadres cmd \<or> IsGwrite cmd)" "c' = c\<lparr>ct_channel := ch\<rparr>"
    "UpdateTimingAndStates cfg cmd (ct_clk c) (ct_channel c) = Inr ch"
proof -
  consider "IsRead cmd" | "\<not> IsRead cmd" "IsWrite cmd" | "\<not> IsRead cmd" "\<not> IsWrite cmd" "IsCompsReadres cmd \<or> IsGwrite cmd"
    | "\<not> IsRead cmd" "\<not> IsWrite cmd" "\<not> (IsCompsReadres cmd \<or> IsGwrite cmd)" "IsPIMHeader cmd"
    | "\<not> IsRead cmd" "\<not> IsWrite cmd" "\<not> (IsCompsReadres cmd \<or> IsGwrite cmd)" "\<not> IsPIMHeader cmd" by blast
  then show ?thesis
  proof cases
    case 1
    then show ?thesis using assms read by (auto simp: IssueCommand_def Let_def complete_at_def split: if_splits)
  next
    case 2
    then show ?thesis using assms written by (auto simp: IssueCommand_def Let_def split: if_splits)
  next
    case 3
    then obtain x xs where "at_addr (hex_addr cmd) (pending_pim_q c) = x # xs" using assms
      by (cases "at_addr (hex_addr cmd) (pending_pim_q c)") (auto simp: IssueCommand_def Let_def)
    then show ?thesis using 3 assms pim [of x xs] by (auto simp: IssueCommand_def Let_def complete_at_def)
  next
    case 4
    then show ?thesis using assms header by (auto simp: IssueCommand_def Let_def)
  next
    case 5
    then show ?thesis using assms other by (auto simp: IssueCommand_def Let_def IsReadWrite_def)
  qed
qed

lemma on_its_way_cong:
  assumes "read_queue c' = read_queue c" "write_buffer c' = write_buffer c" "ct_pim_queue c' = ct_pim_queue c" "ct_queue c' = ct_queue c"
    "pending_rd_q c' = pending_rd_q c" "pending_wr_q c' = pending_wr_q c" "pending_pim_q c' = pending_pim_q c"
  shows "on_its_way c' = on_its_way c"
  by (simp add: on_its_way_def reads_at_def writes_at_def pims_at_def assms)

lemma on_its_wayI:
  assumes "\<And>a. reads_at a c = (if at_addr a (pending_rd_q c) = [] then 0 else 1)" "\<And>a. writes_at a c = length (at_addr a (pending_wr_q c))"
    "\<And>a. pims_at a c \<le> length (at_addr a (pending_pim_q c))"
    "\<And>a. pim_cmd_queue_size (ct_queue c) \<le> queue_size (ct_queue c) \<Longrightarrow> pims_at a c = length (at_addr a (pending_pim_q c))"
  shows "on_its_way c"
  using assms by (simp add: on_its_way_def)

lemma on_its_wayD:
  assumes "on_its_way c"
  shows "reads_at a c = (if at_addr a (pending_rd_q c) = [] then 0 else 1)" "writes_at a c = length (at_addr a (pending_wr_q c))"
    "pims_at a c \<le> length (at_addr a (pending_pim_q c))"
    "pim_cmd_queue_size (ct_queue c) \<le> queue_size (ct_queue c) \<Longrightarrow> pims_at a c = length (at_addr a (pending_pim_q c))"
  using assms by (simp_all add: on_its_way_def)

lemma issue_types:
  assumes "ctl_types c" "taken (ct_queue c) cmd q" "IssueCommand cfg cmd (c\<lparr>ct_queue := q\<rparr>) = Inr c'"
  shows "ctl_types c'"
proof -
  have q: "queue_types q" using assms(1,2) taken_types by (auto simp: ctl_types_def)
  have u: "refreshes_only ch" if "UpdateTimingAndStates cfg cmd (ct_clk c) (ct_channel c) = Inr ch" for ch
    using refreshes_only_update [OF that] assms(1) by (simp add: ctl_types_def)
  show ?thesis
    using assms(3) by (cases rule: IssueCommand_run) (use assms(1) q u in \<open>auto simp: ctl_types_def complete_at_def\<close>)
qed

lemma issue_keeps:
  assumes inv: "ctl_inv c" and t: "taken (ct_queue c) cmd q" and i: "IssueCommand cfg cmd (c\<lparr>ct_queue := q\<rparr>) = Inr c'"
  shows "ctl_inv c'"
proof -
  have ty: "queue_types (ct_queue c)" and w: "on_its_way c" using inv by (auto simp: ctl_inv_def ctl_types_def)
  note D = on_its_wayD [OF w]
  have lim: "pim_cmd_queue_size q = pim_cmd_queue_size (ct_queue c)" "queue_size q = queue_size (ct_queue c)"
    using taken_limits [OF t] by simp_all
  from i have "on_its_way c'"
  proof (cases rule: IssueCommand_run)
    case (read ch)
    then obtain d where d: "matches cmd d" "cmd_type d \<in> {CT_READ, CT_WRITE}" "rw_cmds (ct_queue c) = add_mset d (rw_cmds q)" "pim_cmds q = pim_cmds (ct_queue c)"
      using taken_rw_cmds [OF t _ ty] by (auto simp: IsReadWrite_def)
    have k: "cmd_type d = CT_READ" "hex_addr d = hex_addr cmd" using d(1,2) read(1) by (auto simp: matches_def IsRead_def)
    show ?thesis
    proof (rule on_its_wayI)
      fix a
      show "reads_at a c' = (if at_addr a (pending_rd_q c') = [] then 0 else 1)"
        using D(1) [of a] d(3) k read(2) unfolding read(3)
        by (cases "a = hex_addr cmd") (auto simp: reads_at_def complete_at_def at_addr_gone at_addr_same)
      show "writes_at a c' = length (at_addr a (pending_wr_q c'))"
        using D(2) [of a] d(3) k unfolding read(3) by (simp add: writes_at_def complete_at_def)
      show "pims_at a c' \<le> length (at_addr a (pending_pim_q c'))"
        using D(3) [of a] d(4) unfolding read(3) by (simp add: pims_at_def complete_at_def)
    qed (use D(4) d(4) lim read(3) in \<open>simp add: pims_at_def complete_at_def\<close>)
  next
    case (written ch)
    then obtain d where d: "matches cmd d" "cmd_type d \<in> {CT_READ, CT_WRITE}" "rw_cmds (ct_queue c) = add_mset d (rw_cmds q)" "pim_cmds q = pim_cmds (ct_queue c)"
      using taken_rw_cmds [OF t _ ty] by (auto simp: IsReadWrite_def)
    have k: "cmd_type d = CT_WRITE" "hex_addr d = hex_addr cmd" using d(1,2) written(1) by (auto simp: matches_def IsWrite_def)
    show ?thesis
    proof (rule on_its_wayI)
      fix a
      show "reads_at a c' = (if at_addr a (pending_rd_q c') = [] then 0 else 1)"
        using D(1) [of a] d(3) k unfolding written(3) by (simp add: reads_at_def)
      show "writes_at a c' = length (at_addr a (pending_wr_q c'))"
        using D(2) [of a] d(3) k unfolding written(3) by (auto simp: writes_at_def at_addr_erase)
      show "pims_at a c' \<le> length (at_addr a (pending_pim_q c'))"
        using D(3) [of a] d(4) unfolding written(3) by (simp add: pims_at_def)
    qed (use D(4) d(4) lim written(3) in \<open>simp add: pims_at_def\<close>)
  next
    case (pim x xs ch)
    then have k: "\<not> IsReadWrite cmd" "PIMQCommand cmd" by (auto simp: kinds)
    then obtain d where d: "matches cmd d" "pim_cmds (ct_queue c) = d # pim_cmds q" using taken_keeps(2) [OF t] by blast
    have dk: "cmd_type d \<in> {CT_GWRITE, CT_COMPS_READRES}" "hex_addr d = hex_addr cmd" using d(1) pim(1) by (auto simp: matches_def kinds)
    have rw: "rw_cmds q = rw_cmds (ct_queue c)" using taken_keeps(1) [OF t k(1)] by (simp add: rw_cmds_def)
    have p: "pims_at a c = pims_at a c' + (if a = hex_addr cmd then 1 else 0)" for a
      using d(2) dk unfolding pim(3) by (auto simp: pims_at_def complete_at_def)
    have l: "length (at_addr a (pending_pim_q c)) = length (at_addr a (pending_pim_q c')) + (if a = hex_addr cmd then 1 else 0)" for a
      using pim(2) unfolding pim(3) by (auto simp: complete_at_def at_addr_erase)
    have lim': "pim_cmd_queue_size (ct_queue c') = pim_cmd_queue_size (ct_queue c)" "queue_size (ct_queue c') = queue_size (ct_queue c)"
      using lim unfolding pim(3) by (simp_all add: complete_at_def)
    show ?thesis
    proof (rule on_its_wayI)
      fix a
      show "reads_at a c' = (if at_addr a (pending_rd_q c') = [] then 0 else 1)"
        using D(1) [of a] rw unfolding pim(3) by (simp add: reads_at_def complete_at_def)
      show "writes_at a c' = length (at_addr a (pending_wr_q c'))"
        using D(2) [of a] rw unfolding pim(3) by (simp add: writes_at_def complete_at_def)
      show "pims_at a c' \<le> length (at_addr a (pending_pim_q c'))" using D(3) [of a] p [of a] l [of a] by linarith
      assume "pim_cmd_queue_size (ct_queue c') \<le> queue_size (ct_queue c')"
      then show "pims_at a c' = length (at_addr a (pending_pim_q c'))" using D(4) [of a] p [of a] l [of a] lim' by simp
    qed
  next
    case header
    then have k: "\<not> IsReadWrite cmd" "PIMQCommand cmd" by (auto simp: kinds)
    then obtain d where d: "matches cmd d" "pim_cmds (ct_queue c) = d # pim_cmds q" using taken_keeps(2) [OF t] by blast
    have "cmd_type d = CT_P_HEADER" using d(1) header(1) by (auto simp: matches_def kinds)
    moreover have "rw_cmds q = rw_cmds (ct_queue c)" using taken_keeps(1) [OF t k(1)] by (simp add: rw_cmds_def)
    ultimately show ?thesis using w d(2) lim unfolding header(2) by (simp add: on_its_way_def reads_at_def writes_at_def pims_at_def)
  next
    case (other ch)
    have "\<not> PIMQCommand cmd"
    proof
      assume "PIMQCommand cmd"
      then obtain d where "matches cmd d" "pim_cmds (ct_queue c) = d # pim_cmds q" using taken_keeps(2) [OF t other(1)] by blast
      then show False using ty other(2,3) by (auto simp: queue_types_def matches_def kinds)
    qed
    then show ?thesis using w taken_keeps [OF t other(1)] lim unfolding other(4)
      by (simp add: on_its_way_def reads_at_def writes_at_def pims_at_def rw_cmds_def)
  qed
  then show ?thesis using issue_types [OF _ t i] inv by (simp add: ctl_inv_def)
qed

subsection \<open>Arrivals and returns keep it\<close>

lemma add_keeps:
  assumes inv: "ctl_inv c" and ty: "tr_type t \<in> npu_types"
  shows "ctl_inv (AddTransaction t c)"
proof -
  have types: "ctl_types (AddTransaction t c)"
    using inv ty by (auto simp: ctl_inv_def ctl_types_def AddTransaction_def Let_def npu_types_def)
  note D = on_its_wayD [OF inv [unfolded ctl_inv_def, THEN conjunct2]]
  note defs = AddTransaction_def Let_def reads_at_def writes_at_def pims_at_def
  have "on_its_way (AddTransaction t c)"
  proof (rule on_its_wayI)
    fix a
    show "reads_at a (AddTransaction t c) = (if at_addr a (pending_rd_q (AddTransaction t c)) = [] then 0 else 1)"
      using D(1) [of a] by (auto simp: defs split: if_splits)
    show "writes_at a (AddTransaction t c) = length (at_addr a (pending_wr_q (AddTransaction t c)))"
      using D(2) [of a] by (auto simp: defs split: if_splits)
    show "pims_at a (AddTransaction t c) \<le> length (at_addr a (pending_pim_q (AddTransaction t c)))"
      using D(3) [of a] by (auto simp: defs)
    assume "pim_cmd_queue_size (ct_queue (AddTransaction t c)) \<le> queue_size (ct_queue (AddTransaction t c))"
    then have "pim_cmd_queue_size (ct_queue c) \<le> queue_size (ct_queue c)" by (simp add: AddTransaction_def Let_def split: if_splits)
    then show "pims_at a (AddTransaction t c) = length (at_addr a (pending_pim_q (AddTransaction t c)))"
      using D(4) [of a] by (auto simp: defs)
  qed
  then show ?thesis using types by (simp add: ctl_inv_def)
qed

lemma done_keeps:
  assumes "ctl_inv c" "ReturnDoneTrans clk c = (r, c')"
  shows "ctl_inv c'"
  using assms by (auto simp: ReturnDoneTrans_def Let_def ctl_inv_def ctl_types_def queue_types_def on_its_way_def reads_at_def writes_at_def pims_at_def
      rw_cmds_def FinishGwrite_def split: list.splits if_splits)

subsection \<open>Scheduling keeps it\<close>

lemma AddCommand_rw_cmds:
  assumes "AddCommand s cmd q = Inr (True, q')" "\<not> PIMQCommand cmd"
  shows "rw_cmds q' = add_mset cmd (rw_cmds q) \<and> pim_cmds q' = pim_cmds q"
proof -
  note r = AddCommand_rw [OF assms, unfolded Let_def]
  let ?i = "nat (cmd_index s q cmd)"
  have "rw_cmds q' + mset (cmd_queues q ! ?i) = rw_cmds q + mset (cmd_queues q ! ?i @ [cmd])"
    unfolding rw_cmds_def using r mset_concat_update [of ?i "cmd_queues q"] by simp
  then show ?thesis using r by simp
qed

lemma AddCommand_limits: "AddCommand s cmd q = Inr (ok, q') \<Longrightarrow> static q' = static q"
  using AddCommand_pim AddCommand_rw by (cases "PIMQCommand cmd") (auto simp: Let_def)

lemma AddCommand_pim_kept:
  assumes "WillAcceptCommand s q (- 1) bg ba = Inr True" "AddCommand s cmd q = Inr (ok, q')" "PIMQCommand cmd" "pim_cmd_queue_size q \<le> queue_size q"
  shows ok
  using AddCommand_pim [OF assms(2,3)] assms(1,4) by (simp add: WillAcceptCommand_def)

text \<open>What a scheduled transaction does to the buffers and the queues.\<close>

lemma moved_cases:
  assumes m: "moved cfg w pre t post c c'" and ty: "ctl_types c" and tq: "trans_queue w c = pre @ t # post"
  obtains (rw) cmd q where "w \<noteq> PIM_Q" "hex_addr cmd = tr_addr t" "cmd_type cmd = (if w = READ_Q then CT_READ else CT_WRITE)"
      "same_work (set_trans_queue w (pre @ post) (c\<lparr>ct_queue := q\<rparr>)) c'" "rw_cmds q = add_mset cmd (rw_cmds (ct_queue c))"
      "pim_cmds q = pim_cmds (ct_queue c)" "static q = static (ct_queue c)"
  | (pim) cmd ok q where "w = PIM_Q" "hex_addr cmd = tr_addr t" "TransToCommand cfg t = Inr cmd"
      "(tr_type t, cmd_type cmd) \<in> {(TT_GWRITE, CT_GWRITE), (TT_P_HEADER, CT_P_HEADER), (TT_COMPS_READRES, CT_COMPS_READRES)}"
      "same_work (c\<lparr>ct_queue := q, ct_pim_queue := pre @ post\<rparr>) c'" "rw_cmds q = rw_cmds (ct_queue c)"
      "pim_cmds q = (if ok then pim_cmds (ct_queue c) @ [cmd] else pim_cmds (ct_queue c))" "static q = static (ct_queue c)"
      "ok \<longleftrightarrow> length (pim_cmds (ct_queue c)) < queue_size (ct_queue c)" "length (pim_cmds (ct_queue c)) < pim_cmd_queue_size (ct_queue c)"
proof -
  let ?s = "mc_structure cfg"
  obtain cmd ok q c1 where d: "TransToCommand cfg t = Inr cmd" "same_work c c1"
    "WillAcceptCommand ?s (ct_queue c) (if IsGwrite cmd then - 1 else ad_rank (cmd_addr cmd)) (ad_bankgroup (cmd_addr cmd)) (ad_bank (cmd_addr cmd)) = Inr True"
    "AddCommand ?s cmd (ct_queue c) = Inr (ok, q)" "c' = set_trans_queue w (pre @ post) (c1\<lparr>ct_queue := q\<rparr>)"
    using m unfolding moved_def by blast
  note k = TransToCommand_kind [OF d(1)]
  have t: "t \<in> set (trans_queue w c)" using tq by simp
  have sw: "same_work (set_trans_queue w (pre @ post) (c\<lparr>ct_queue := q\<rparr>)) c'"
    using d(2) unfolding d(5) same_work_def set_trans_queue_def by (cases c, cases c1, cases w) simp_all
  show ?thesis
  proof (cases "w = PIM_Q")
    case False
    then have ct: "cmd_type cmd = (if w = READ_Q then CT_READ else CT_WRITE)"
      using t ty k by (cases w) (auto simp: trans_queue_def ctl_types_def)
    then have n: "\<not> PIMQCommand cmd" "\<not> IsGwrite cmd" using False by (auto simp: kinds)
    have "WillAcceptCommand ?s (ct_queue c) (ad_rank (cmd_addr cmd)) (ad_bankgroup (cmd_addr cmd)) (ad_bank (cmd_addr cmd)) = Inr True"
      using d(3) n(2) by simp
    then have ok by (rule AddCommand_accepts [OF _ d(4) n(1)])
    then have "rw_cmds q = add_mset cmd (rw_cmds (ct_queue c)) \<and> pim_cmds q = pim_cmds (ct_queue c)"
      using AddCommand_rw_cmds d(4) n(1) by simp
    then show ?thesis using rw [OF False _ ct sw] k AddCommand_limits [OF d(4)] by simp
  next
    case True
    then have ct: "(tr_type t, cmd_type cmd) \<in> {(TT_GWRITE, CT_GWRITE), (TT_P_HEADER, CT_P_HEADER), (TT_COMPS_READRES, CT_COMPS_READRES)}"
      using t ty k by (auto simp: trans_queue_def ctl_types_def)
    then have p: "PIMQCommand cmd" by (auto simp: kinds)
    have "(if IsGwrite cmd then - 1 else ad_rank (cmd_addr cmd)) = - 1" using ct k by (auto simp: IsGwrite_def)
    then have "length (pim_cmds (ct_queue c)) < pim_cmd_queue_size (ct_queue c)" using d(3) by (simp add: WillAcceptCommand_def)
    moreover have "set_trans_queue PIM_Q (pre @ post) (c\<lparr>ct_queue := q\<rparr>) = c\<lparr>ct_queue := q, ct_pim_queue := pre @ post\<rparr>"
      by (simp add: set_trans_queue_def)
    ultimately show ?thesis
      using pim [OF True _ d(1) ct, of q ok] sw k AddCommand_pim [OF d(4) p] True by (simp add: rw_cmds_def)
  qed
qed

lemma ctl_types_work: "same_work c c' \<Longrightarrow> ctl_types c' = ctl_types c"
  using same_work_fields by (simp add: ctl_types_def)

lemma on_its_way_work: "same_work c c' \<Longrightarrow> on_its_way c' = on_its_way c"
  using same_work_fields by (intro on_its_way_cong) simp_all

lemma static_limits: "static q = static q' \<Longrightarrow> pim_cmd_queue_size q = pim_cmd_queue_size q' \<and> queue_size q = queue_size q'"
  by (simp add: static_def)

lemma moved_keeps:
  assumes inv: "ctl_inv c" and tq: "trans_queue w c = pre @ t # post" and m: "moved cfg w pre t post c c'"
  shows "ctl_inv c'"
proof -
  have ty: "ctl_types c" and w: "on_its_way c" using inv by (auto simp: ctl_inv_def)
  note D = on_its_wayD [OF w]
  from m ty tq show ?thesis
  proof (cases rule: moved_cases)
    case (rw cmd q)
    let ?c = "set_trans_queue w (pre @ post) (c\<lparr>ct_queue := q\<rparr>)"
    have s: "ct_queue ?c = q" "ct_channel ?c = ct_channel c" "ct_pim_queue ?c = ct_pim_queue c" "pending_rd_q ?c = pending_rd_q c"
      "pending_wr_q ?c = pending_wr_q c" "pending_pim_q ?c = pending_pim_q c"
      "read_queue ?c = (if w = READ_Q then pre @ post else read_queue c)" "write_buffer ?c = (if w = WRITE_BUFFER then pre @ post else write_buffer c)"
      using rw(1) by (cases w; simp add: set_trans_queue_def)+
    have tq': "read_queue c = pre @ t # post" if "w = READ_Q" using tq that by (simp add: trans_queue_def)
    have tq'': "write_buffer c = pre @ t # post" if "w = WRITE_BUFFER" using tq that by (simp add: trans_queue_def)
    have "ctl_types ?c"
      using ty rw(1,3,5,6) tq' tq'' unfolding ctl_types_def s queue_types_rw by (cases w) auto
    moreover have "on_its_way ?c"
    proof (rule on_its_wayI)
      fix a
      show "reads_at a ?c = (if at_addr a (pending_rd_q ?c) = [] then 0 else 1)"
        using D(1) [of a] rw(1,2,3,5) tq' tq'' unfolding reads_at_def s by (cases w) (auto split: if_splits)
      show "writes_at a ?c = length (at_addr a (pending_wr_q ?c))"
        using D(2) [of a] rw(1,2,3,5) tq' tq'' unfolding writes_at_def s by (cases w) auto
      show "pims_at a ?c \<le> length (at_addr a (pending_pim_q ?c))" using D(3) [of a] rw(6) unfolding pims_at_def s by simp
      assume "pim_cmd_queue_size (ct_queue ?c) \<le> queue_size (ct_queue ?c)"
      then show "pims_at a ?c = length (at_addr a (pending_pim_q ?c))" using D(4) [of a] rw(6,7) static_limits unfolding pims_at_def s by metis
    qed
    ultimately show ?thesis using ctl_types_work [OF rw(4)] on_its_way_work [OF rw(4)] by (simp add: ctl_inv_def)
  next
    case (pim cmd ok q)
    let ?c = "c\<lparr>ct_queue := q, ct_pim_queue := pre @ post\<rparr>"
    have tq': "ct_pim_queue c = pre @ t # post" using tq pim(1) by (simp add: trans_queue_def)
    have "ctl_types ?c"
      using ty pim(4,6,7) tq' unfolding ctl_types_def queue_types_rw by auto
    moreover have p: "pims_at a c = pims_at a ?c + (if tr_addr t = a \<and> tr_type t \<noteq> TT_P_HEADER \<and> \<not> ok then 1 else 0)" for a
      using pim(2,4,7) tq' by (auto simp: pims_at_def)
    have "on_its_way ?c"
    proof (rule on_its_wayI)
      fix a
      show "reads_at a ?c = (if at_addr a (pending_rd_q ?c) = [] then 0 else 1)" using D(1) [of a] pim(6) by (simp add: reads_at_def)
      show "writes_at a ?c = length (at_addr a (pending_wr_q ?c))" using D(2) [of a] pim(6) by (simp add: writes_at_def)
      show "pims_at a ?c \<le> length (at_addr a (pending_pim_q ?c))" using D(3) [of a] p [of a] by simp
      assume "pim_cmd_queue_size (ct_queue ?c) \<le> queue_size (ct_queue ?c)"
      then have l: "pim_cmd_queue_size (ct_queue c) \<le> queue_size (ct_queue c)" using static_limits [OF pim(8)] by simp
      then have ok using pim(9,10) by simp
      then show "pims_at a ?c = length (at_addr a (pending_pim_q ?c))" using D(4) [OF l, of a] p [of a] by simp
    qed
    ultimately show ?thesis using ctl_types_work [OF pim(5)] on_its_way_work [OF pim(5)] by (simp add: ctl_inv_def)
  qed
qed

lemma schedule_cases:
  assumes "ScheduleTransaction cfg c = Inr c'"
  obtains (stalled) "same_work c c'"
  | (moves) w c0 pre t post where "same_work c c0" "w = queue_to_schedule c0" "trans_queue w c0 = pre @ t # post" "moved cfg w pre t post c0 c'"
proof -
  let ?c = "start_draining cfg c"
  have l: "schedule_loop cfg (queue_to_schedule ?c) [] (trans_queue (queue_to_schedule ?c) ?c) ?c = Inr c'"
    using assms by (simp add: ScheduleTransaction_def Let_def)
  show ?thesis
    using schedule_loop_moves [OF l] start_draining_work [of c cfg] stalled moves [of ?c] same_work_trans by fastforce
qed

lemma ctl_inv_work: "same_work c c' \<Longrightarrow> ctl_inv c' = ctl_inv c"
  by (simp add: ctl_inv_def ctl_types_work on_its_way_work)

lemma schedule_keeps: "ScheduleTransaction cfg c = Inr c' \<Longrightarrow> ctl_inv c \<Longrightarrow> ctl_inv c'"
proof (erule schedule_cases)
  fix w c0 pre t post
  assume "ctl_inv c" "same_work c c0" "trans_queue w c0 = pre @ t # post" "moved cfg w pre t post c0 c'"
  then show ?thesis using moved_keeps ctl_inv_work by blast
qed (simp add: ctl_inv_work)

subsection \<open>A cycle as a sequence of steps\<close>

inductive ctl_step :: "mem_config \<Rightarrow> Controller \<Rightarrow> Controller \<Rightarrow> bool" for cfg where
  step_refresh: "Refresh_ClockTick (mc_structure cfg) (ct_refresh c) (ct_channel c) = Inr (r, ch) \<Longrightarrow>
    ctl_step cfg c (c\<lparr>ct_refresh := r, ct_channel := ch\<rparr>)"
| step_idle: "ctl_step cfg c (c\<lparr>ct_channel := count_idle (mc_structure cfg) (ct_channel c)\<rparr>)"
| step_ask: "unmoved (ct_queue c) q \<Longrightarrow> ctl_step cfg c (c\<lparr>ct_queue := q\<rparr>)"
| step_issue: "taken (ct_queue c) cmd q \<Longrightarrow> IssueCommand cfg cmd (c\<lparr>ct_queue := q\<rparr>) = Inr c' \<Longrightarrow> ctl_step cfg c c'"
| step_schedule: "ScheduleTransaction cfg c = Inr c' \<Longrightarrow> ctl_step cfg c c'"
| step_clock: "ctl_step cfg c (c\<lparr>ct_clk := t, ct_queue := Queue_ClockTick (ct_queue c)\<rparr>)"

lemma ctl_step_keeps: "ctl_step cfg c c' \<Longrightarrow> ctl_inv c \<Longrightarrow> ctl_inv c'"
proof (induction rule: ctl_step.induct)
  case (step_refresh c r ch)
  then show ?case using Refresh_ClockTick_channel [OF step_refresh(1)] by (simp add: ctl_inv_def ctl_types_def on_its_way_def reads_at_def writes_at_def pims_at_def)
next
  case (step_idle c)
  then show ?case using count_idle_channel by (simp add: ctl_inv_def ctl_types_def refreshes_only_def on_its_way_def reads_at_def writes_at_def pims_at_def)
next
  case (step_ask c q)
  then show ?case
    by (simp add: ctl_inv_def ctl_types_def on_its_way_def reads_at_def writes_at_def pims_at_def unmoved_def rw_cmds_def queue_types_def shape_def)
next
  case (step_issue c cmd q c')
  then show ?case using issue_keeps by blast
next
  case (step_schedule c c')
  then show ?case using schedule_keeps by blast
next
  case (step_clock c t)
  then show ?case
    by (simp add: ctl_inv_def ctl_types_def on_its_way_def reads_at_def writes_at_def pims_at_def Queue_ClockTick_def rw_cmds_def queue_types_def)
qed

text \<open>The two halves of \<open>issue_one\<close>.\<close>

lemma issue_one_step:
  assumes i: "issue_one cfg c = Inr (issued, c')" and ty: "ctl_types c"
  shows "\<exists>cmd q. taken (ct_queue c) cmd q \<and> (if issued then IsValid cmd \<and> IssueCommand cfg cmd (c\<lparr>ct_queue := q\<rparr>) = Inr c'
     else \<not> IsValid cmd \<and> c' = c\<lparr>ct_queue := q\<rparr>)"
proof -
  obtain cmd0 q0 where f: "(if refresh_q (ct_channel c) \<noteq> [] then FinishRefresh cfg (ct_channel c) (ct_queue c) else Inr (Command0, ct_queue c)) = Inr (cmd0, q0)"
    using i by (auto simp: issue_one_def)
  have u: "unmoved (ct_queue c) q0" "taken (ct_queue c) cmd0 q0"
    using f FinishRefresh_unmoved ty by (auto simp: ctl_types_def refreshes_only_def intro: taken_none split: if_splits)
  obtain cmd q where g: "(if IsValid cmd0 then Inr (cmd0, q0)
      else bindE (GetRefreshSlack (ct_refresh c)) (\<lambda>(_, slack). GetCommandToIssue cfg (ct_channel c) slack q0)) = Inr (cmd, q)"
    using i f by (auto simp: issue_one_def)
  have t: "taken (ct_queue c) cmd q"
  proof (cases "IsValid cmd0")
    case False
    then obtain slack where "GetCommandToIssue cfg (ct_channel c) slack q0 = Inr (cmd, q)" using g by auto
    moreover have "queue_types q0" using unmoved_types [OF u(1)] ty by (simp add: ctl_types_def)
    ultimately show ?thesis using GetCommandToIssue_taken unmoved_taken [OF u(1)] by blast
  qed (use g u(2) in simp)
  show ?thesis
    using i f g t unfolding issue_one_def by (cases "IsValid cmd") (auto simp: Let_def)
qed

lemma taken_invalid: "taken q cmd q' \<Longrightarrow> \<not> IsValid cmd \<Longrightarrow> unmoved q q'"
  by (auto simp: taken.simps unmoved_def kinds)

lemma self_refresh_step:
  "self_refresh cfg ids c = Inr c' \<Longrightarrow> (ctl_step cfg)\<^sup>=\<^sup>= c c'"
proof (induction ids)
  case (Cons i ids)
  have ask: "(ctl_step cfg)\<^sup>=\<^sup>= c c'" if "ct \<in> {CT_SREF_EXIT, CT_SREF_ENTER}" and
    a: "bindE (Channel_GetReadyCommand cfg (Command_new ct a (- 1)) (ct_clk c) (ct_channel c)) (\<lambda>cmd.
       if IsValid cmd then IssueCommand cfg cmd c else self_refresh cfg ids c) = Inr c'" for ct a
  proof -
    obtain cmd where cmd: "Channel_GetReadyCommand cfg (Command_new ct a (- 1)) (ct_clk c) (ct_channel c) = Inr cmd" using a by auto
    show ?thesis
    proof (cases "IsValid cmd")
      case True
      then have "serves (Command_new ct a (- 1)) cmd" using cmd channel_ready_serves by blast
      then have "\<not> IsReadWrite cmd" "\<not> PIMQCommand cmd" using that(1) by (auto simp: serves_def Command_new_def kinds)
      then have "taken (ct_queue c) cmd (ct_queue c)" by (intro taken_none) simp_all
      moreover have "IssueCommand cfg cmd (c\<lparr>ct_queue := ct_queue c\<rparr>) = Inr c'" using a cmd True by simp
      ultimately show ?thesis using step_issue by blast
    qed (use a cmd Cons.IH in auto)
  qed
  obtain b where b: "at (rank_q_empty (ct_queue c)) (nat i) = Inr b" using Cons.prems by (auto simp: Let_def)
  show ?case
    using Cons.prems Cons.IH ask [of CT_SREF_EXIT "Address0\<lparr>ad_rank := i\<rparr>"] ask [of CT_SREF_ENTER "Address0\<lparr>ad_rank := i\<rparr>"] b
    unfolding self_refresh.simps Let_def by (simp del: bindE_Inr split: if_split_asm)
qed simp

text \<open>The first part of a tick, before a transaction is scheduled.\<close>

definition before_schedule :: "mem_config \<Rightarrow> Controller \<Rightarrow> fault + Controller" where
  "before_schedule cfg c = (let s = mc_structure cfg in
     bindE (Refresh_ClockTick s (ct_refresh c) (ct_channel c)) (\<lambda>(r, ch).
     bindE (issue_one cfg (c\<lparr>ct_refresh := r, ct_channel := ch\<rparr>)) (\<lambda>(issued, c).
     let c = c\<lparr>ct_channel := count_idle s (ct_channel c)\<rparr> in
     if enable_self_refresh (mc_system cfg) \<and> \<not> issued then self_refresh cfg [0..mc_ranks s - 1] c else Inr c)))"

lemma tick_split:
  "Controller_ClockTick cfg c = bindE (before_schedule cfg c) (\<lambda>c. bindE (ScheduleTransaction cfg c) (\<lambda>c.
     Inr (c\<lparr>ct_clk := ct_clk c + 1, ct_queue := Queue_ClockTick (ct_queue c)\<rparr>)))"
proof (cases "Refresh_ClockTick (mc_structure cfg) (ct_refresh c) (ct_channel c)")
  case (Inr p)
  obtain r ch where p: "p = (r, ch)" by (cases p)
  show ?thesis
    by (cases "issue_one cfg (c\<lparr>ct_refresh := r, ct_channel := ch\<rparr>)") (auto simp: Controller_ClockTick_def before_schedule_def Let_def Inr p)
qed (simp add: Controller_ClockTick_def before_schedule_def)

lemma before_schedule_steps:
  assumes "before_schedule cfg c = Inr c4" "ctl_inv c"
  shows "(ctl_step cfg)\<^sup>*\<^sup>* c c4"
proof -
  let ?s = "mc_structure cfg"
  obtain r ch where r: "Refresh_ClockTick ?s (ct_refresh c) (ct_channel c) = Inr (r, ch)"
    using assms(1) by (auto simp: before_schedule_def Let_def)
  let ?c1 = "c\<lparr>ct_refresh := r, ct_channel := ch\<rparr>"
  obtain issued c2 where i: "issue_one cfg ?c1 = Inr (issued, c2)" using assms(1) r by (auto simp: before_schedule_def Let_def)
  let ?c3 = "c2\<lparr>ct_channel := count_idle ?s (ct_channel c2)\<rparr>"
  have 4: "(if enable_self_refresh (mc_system cfg) \<and> \<not> issued then self_refresh cfg [0..mc_ranks ?s - 1] ?c3 else Inr ?c3) = Inr c4"
    using assms(1) r i by (simp add: before_schedule_def Let_def)
  have s1: "ctl_step cfg c ?c1" using r by (rule step_refresh)
  then have "ctl_types ?c1" using ctl_step_keeps assms(2) by (simp add: ctl_inv_def)
  then obtain cmd q where "taken (ct_queue ?c1) cmd q" "if issued then IsValid cmd \<and> IssueCommand cfg cmd (?c1\<lparr>ct_queue := q\<rparr>) = Inr c2
     else \<not> IsValid cmd \<and> c2 = ?c1\<lparr>ct_queue := q\<rparr>"
    using issue_one_step [OF i] by blast
  then have s2: "ctl_step cfg ?c1 c2"
    using step_issue step_ask taken_invalid by (cases issued) (auto split: if_splits)
  have s4: "(ctl_step cfg)\<^sup>*\<^sup>* ?c3 c4"
    using 4 self_refresh_step [of cfg "[0..mc_ranks ?s - 1]" ?c3 c4] by (auto split: if_splits)
  have "(ctl_step cfg)\<^sup>*\<^sup>* c ?c3"
    by (rule rtranclp.rtrancl_into_rtrancl [OF rtranclp.rtrancl_into_rtrancl [OF r_into_rtranclp [where r = "ctl_step cfg", OF s1] s2] step_idle])
  also note s4
  finally show ?thesis .
qed

lemma tick_steps:
  assumes "Controller_ClockTick cfg c = Inr c'" "ctl_inv c"
  shows "(ctl_step cfg)\<^sup>*\<^sup>* c c'"
proof -
  obtain c4 c5 where s: "before_schedule cfg c = Inr c4" "ScheduleTransaction cfg c4 = Inr c5"
    and e: "c' = c5\<lparr>ct_clk := ct_clk c5 + 1, ct_queue := Queue_ClockTick (ct_queue c5)\<rparr>"
    using assms(1) by (auto simp: tick_split)
  show ?thesis unfolding e
    by (rule rtranclp.rtrancl_into_rtrancl [OF rtranclp.rtrancl_into_rtrancl [OF before_schedule_steps [OF s(1) assms(2)] step_schedule [OF s(2)]] step_clock])
qed

end
