(* ===== verification/MemChannelRun.thy ===== *)
theory MemChannelRun
  imports MemChannel
begin

text \<open>
  Runs of a channel of the memory: every command the channel answers can be executed, the delays of the
  timing tables are kept in every bank a command is checked in, and the four-activation window holds.
\<close>

lemma distinct_touched: "distinct (touched s r)"
  by (simp add: touched_def Let_def distinct_bank_ids distinct_rank_ids distinct_group_ids)

lemma Channel_UpdateState_ok:
  assumes "addressed (mc_structure cfg) r" "\<And>bk. bk \<in> set (touched (mc_structure cfg) r) \<Longrightarrow> Bank_UpdateState r (bank_states ch bk) = Inr (f bk)"
  shows "\<exists>ch1. Channel_UpdateState cfg r ch = Inr ch1 \<and>
     bank_states ch1 = (\<lambda>bk. if bk \<in> set (touched (mc_structure cfg) r) then f bk else bank_states ch bk) \<and> four_aw ch1 = four_aw ch"
proof -
  define ch0 where "ch0 = (if cmd_type r = CT_READRES then ch\<lparr>comp_overhead_flag := True\<rparr> else ch)"
  have e: "bank_states ch0 = bank_states ch" "four_aw ch0 = four_aw ch" by (simp_all add: ch0_def)
  have u: "update_banks r (touched (mc_structure cfg) r) ch0 =
      Inr (ch0\<lparr>bank_states := (\<lambda>bk. if bk \<in> set (touched (mc_structure cfg) r) then f bk else bank_states ch bk)\<rparr>)"
    using update_banks_ok [OF distinct_touched, of "mc_structure cfg" r r ch0 f] assms(2) e(1) by (simp cong: if_cong)
  define post where "post ch = (if IsChannelCMD r then ch
    else if IsRankCMD r then (if IsRefresh r then RankNeedRefresh (ad_rank (cmd_addr r)) False ch
      else ch\<lparr>rank_is_sref := (rank_is_sref ch)(ad_rank (cmd_addr r) := (cmd_type r = CT_SREF_ENTER))\<rparr>)
    else if cmd_type r = CT_G_ACT then ch
    else if IsRefresh r then BankNeedRefresh (bank_at (cmd_addr r)) False ch else ch)" for ch
  have p: "bank_states (post ch) = bank_states ch" "four_aw (post ch) = four_aw ch" for ch
    by (simp_all add: post_def RankNeedRefresh_def BankNeedRefresh_def split: prod.split)
  have "Channel_UpdateState cfg r ch = bindE (update_banks r (touched (mc_structure cfg) r) ch0) (\<lambda>ch. Inr (post ch))"
    using assms(1) unfolding Channel_UpdateState_def Let_def ch0_def [symmetric]
    by (simp add: touched_def addressed_def post_def [abs_def] Let_def bindE_def split: sum.split)
  then show ?thesis using u p e(2) by simp
qed

lemma UpdateTiming_ok: "cmd_type r \<notin> {CT_P_HEADER, CT_SIZE} \<Longrightarrow> \<exists>ch'. UpdateTiming cfg r clk ch = Inr ch'"
  by (cases "cmd_type r") (simp_all add: UpdateTiming_def Let_def)

lemma chan_inv_update:
  assumes "chan_inv s ch" "\<And>bk. bk \<in> set ids \<Longrightarrow> Bank_UpdateState r (bank_states ch bk) = Inr (f bk) \<and> bank_inv (f bk)"
    and "bank_states ch1 = (\<lambda>bk. if bk \<in> set ids then f bk else bank_states ch bk)"
  shows "chan_inv s ch1"
  using assms Bank_UpdateState_keeps unfolding chan_inv_def by (metis (no_types, lifting))

lemma answer_ok_executes:
  assumes "answer_ok cfg r clk ch" "chan_inv (mc_structure cfg) ch" "IsValid r" "cmd_type r \<noteq> CT_P_HEADER"
  shows "\<exists>ch'. UpdateTimingAndStates cfg r clk ch = Inr ch' \<and> chan_inv (mc_structure cfg) ch'"
proof -
  let ?s = "mc_structure cfg"
  have a: "addressed ?s r" "\<forall>bk\<in>set (touched ?s r). \<exists>b'. Bank_UpdateState r (bank_states ch bk) = Inr b' \<and> bank_inv b'"
    using assms(1) by (auto simp: answer_ok_def Let_def)
  then obtain f where f: "\<forall>bk\<in>set (touched ?s r). Bank_UpdateState r (bank_states ch bk) = Inr (f bk) \<and> bank_inv (f bk)"
    by (auto dest!: bchoice)
  obtain ch1 where ch1: "Channel_UpdateState cfg r ch = Inr ch1"
    "bank_states ch1 = (\<lambda>bk. if bk \<in> set (touched ?s r) then f bk else bank_states ch bk)"
    using Channel_UpdateState_ok [OF a(1), of ch f] f by auto
  have inv1: "chan_inv ?s ch1" by (rule chan_inv_update [OF assms(2) _ ch1(2)]) (use f in blast)
  obtain ch' where ch': "UpdateTiming cfg r clk ch1 = Inr ch'"
    using UpdateTiming_ok [of r cfg clk ch1] assms(3,4) by (auto simp: IsValid_def)
  have "chan_inv ?s ch'" by (rule chan_inv_later [OF UpdateTiming_later [OF ch'] inv1])
  then show ?thesis using ch1(1) ch' by (simp add: UpdateTimingAndStates_def)
qed

text \<open>
  C5: What a channel answers, it accepts.  Whatever command is asked for, when the channel's answer is a
  command, executing it does not stop the program and keeps the invariant of all banks; the timing
  constraints of every bank the answer was checked against are met; and an activation keeps to the
  activation window.  A computation needs its row to be out of all normal buffers, which its header has
  made sure of.
\<close>

theorem channel_accepts_ready_command:
  assumes "wf_structure (mc_structure cfg)" "chan_inv (mc_structure cfg) ch" "askable (mc_structure cfg) cmd ch"
    and "Channel_GetReadyCommand cfg cmd clk ch = Inr r" "IsValid r" "cmd_type r \<noteq> CT_P_HEADER"
  shows "(\<exists>ch'. UpdateTimingAndStates cfg r clk ch = Inr ch' \<and> chan_inv (mc_structure cfg) ch') \<and>
    (\<forall>bk\<in>set (checked (mc_structure cfg) r). in_range (mc_structure cfg) bk \<longrightarrow> cmd_timing (bank_states ch bk) (cmd_type r) \<le> clk) \<and>
    (cmd_type r = CT_ACTIVATE \<longrightarrow> ActivationWindowOk cfg (ad_rank (cmd_addr r)) clk ch)"
proof -
  have a: "answer_ok cfg r clk ch" by (rule channel_answer [OF assms(1,2,4,5,6,3)])
  show ?thesis using answer_ok_executes [OF a assms(2,5,6)] a by (simp add: answer_ok_def Let_def)
qed

subsection \<open>The delays of the tables are kept\<close>

text \<open>
  The delays that a command puts on a bank, by where the bank is: the rows of the tables that
  \<open>UpdateTiming\<close> enters for the command.  Only the filling of the adder pipeline, which depends on the
  flag of the channel and is entered for the first bank after a \<open>COMP\<close>, is not in the list.
\<close>

definition imposed :: "mem_config \<Rightarrow> Command \<Rightarrow> bank_id \<Rightarrow> timing_list" where
  "imposed cfg c bk = (let t = Timing cfg (cmd_type c); a = cmd_addr c; ct = cmd_type c; s = mc_structure cfg in case bk of (i, j, k) \<Rightarrow>
     if ct \<in> {CT_ACTIVATE, CT_READ, CT_READ_PRECHARGE, CT_WRITE, CT_WRITE_PRECHARGE, CT_PRECHARGE, CT_REFRESH_BANK, CT_PWRITE} then
       (if i \<noteq> ad_rank a then other_ranks t else if j \<noteq> ad_bankgroup a then other_bankgroups_same_rank t
        else if k \<noteq> ad_bank a then other_banks_same_bankgroup t else same_bank t)
     else if ct = CT_GWRITE then
       (if i \<noteq> ad_rank a then [] else if j \<noteq> ad_bankgroup a then other_bankgroups_same_rank t
        else if k \<noteq> ad_bank a then other_banks_same_bankgroup t else same_bank t)
     else if ct \<in> {CT_REFRESH, CT_SREF_ENTER, CT_SREF_EXIT} then (if i = ad_rank a then same_rank t else [])
     else if ct = CT_PIM_PRECHARGE then (if bk = bank_at a then same_bank t else [])
     else if ct = CT_G_ACT then
       (if i \<noteq> ad_rank a then [] else if j = ad_bankgroup a then same_rank t @ other_banks_same_bankgroup t else same_rank t)
     else if ct = CT_COMPS_READRES then
       same_rank t @ [(CT_COMPS_READRES, max (burst_cycle s) (tCCD_S (mc_timing cfg)) * (max (num_comps c) 6 + 1))]
     else if ct = CT_COMP then same_rank t
     else if ct = CT_READRES then same_rank t @ (if 1 < mc_ranks s then other_ranks t else [])
     else [])"

lemma constrain_banks_imposes:
  "(ct, d) \<in> set l \<Longrightarrow> bk \<in> set ids \<Longrightarrow> clk + of_int d \<le> cmd_timing (bank_states (constrain_banks ids l clk ch) bk) ct"
  by (simp add: constrain_banks_def constrain_set)

lemma constrain_banks_keeps:
  "x \<le> cmd_timing (bank_states ch bk) ct \<Longrightarrow> x \<le> cmd_timing (bank_states (constrain_banks ids l clk ch) bk) ct"
  using constrain_mono order_trans by (fastforce simp: constrain_banks_def)

lemma fold_keeps: "(\<And>i ch. (x :: u64) \<le> T ch \<Longrightarrow> x \<le> T (f i ch)) \<Longrightarrow> x \<le> T ch \<Longrightarrow> x \<le> T (fold f xs ch)"
  by (induction xs arbitrary: ch) simp_all

lemma fold_imposes:
  assumes "i \<in> set xs" "\<And>ch. (x :: u64) \<le> T (f i ch)" "\<And>i ch. x \<le> T ch \<Longrightarrow> x \<le> T (f i ch)"
  shows "x \<le> T (fold f xs ch)"
  using assms(1) by (induction xs arbitrary: ch) (auto intro: fold_keeps assms(2,3))

text \<open>The commands that address all ranks.\<close>

lemma comp_imposes:
  assumes "UpdateTiming cfg c clk ch = Inr ch'" "in_range (mc_structure cfg) (i, j, k)" "cmd_type c = CT_COMP"
    and "(ct, d) \<in> set (same_rank (Timing cfg (cmd_type c)))"
  shows "clk + of_int d \<le> cmd_timing (bank_states ch' (i, j, k)) ct"
proof -
  let ?s = "mc_structure cfg" and ?l = "same_rank (Timing cfg (cmd_type c))"
  have "ch' = fold (\<lambda>i. UpdateSameRankTiming ?s (Address0\<lparr>ad_rank := i\<rparr>) ?l clk) [0..mc_ranks ?s - 1] (UpdateTimingForPIM cfg c ?l clk ch)"
    using assms(1,3) by (simp add: UpdateTiming_def Let_def)
  then show ?thesis unfolding timing_updates
    by (simp only:) (rule fold_imposes [of i], use assms(2,4) in
      \<open>auto simp: in_range_def set_rank_ids intro: constrain_banks_imposes constrain_banks_keeps\<close>)
qed

lemma readres_imposes:
  assumes "UpdateTiming cfg c clk ch = Inr ch'" "in_range (mc_structure cfg) (i, j, k)" "cmd_type c = CT_READRES"
    and "(ct, d) \<in> set (same_rank (Timing cfg (cmd_type c))) \<or> 1 < mc_ranks (mc_structure cfg) \<and> (ct, d) \<in> set (other_ranks (Timing cfg (cmd_type c)))"
  shows "clk + of_int d \<le> cmd_timing (bank_states ch' (i, j, k)) ct"
proof -
  let ?s = "mc_structure cfg" and ?t = "Timing cfg (cmd_type c)"
  have e: "ch' = fold (\<lambda>i ch. UpdateOtherRanksTiming ?s (Address0\<lparr>ad_rank := i\<rparr>) (other_ranks ?t) clk
           (UpdateSameRankTiming ?s (Address0\<lparr>ad_rank := i\<rparr>) (same_rank ?t) clk ch)) [0..mc_ranks ?s - 1] ch"
    using assms(1,3) by (simp add: UpdateTiming_def Let_def)
  from assms(4) show ?thesis
  proof
    assume m: "(ct, d) \<in> set (same_rank ?t)"
    have i: "i \<in> set [0..mc_ranks ?s - 1]" "(i, j, k) \<in> set (rank_ids ?s i)" using assms(2) by (auto simp: in_range_def set_rank_ids)
    show ?thesis unfolding e timing_updates
    proof (rule fold_imposes [of i, where T = "\<lambda>ch. cmd_timing (bank_states ch (i, j, k)) ct"])
      show "i \<in> set [0..mc_ranks ?s - 1]" by (rule i)
    qed (use i(2) in \<open>auto intro: constrain_banks_keeps constrain_banks_imposes [OF m]\<close>)
  next
    assume o: "1 < mc_ranks ?s \<and> (ct, d) \<in> set (other_ranks ?t)"
    define r where "r = (if i = 0 then 1 else 0 :: int)"
    have r: "r \<in> set [0..mc_ranks ?s - 1]" "i \<noteq> r" using o by (auto simp: r_def)
    show ?thesis unfolding e timing_updates
      by (rule fold_imposes [of r], rule r, rule constrain_banks_imposes [OF conjunct2 [OF o]])
        (use r assms(2) in \<open>auto simp: set_bank_ids intro: constrain_banks_keeps\<close>)
  qed
qed

lemma UpdateTiming_imposes:
  assumes "UpdateTiming cfg c clk ch = Inr ch'" "in_range (mc_structure cfg) bk" "(ct, d) \<in> set (imposed cfg c bk)"
  shows "clk + of_int d \<le> cmd_timing (bank_states ch' bk) ct"
proof -
  obtain i j k where bk: "bk = (i, j, k)" by (cases bk) auto
  have r: "0 \<le> i" "i < mc_ranks (mc_structure cfg)" "0 \<le> j" "j < mc_bankgroups (mc_structure cfg)" "0 \<le> k" "k < mc_banks_per_group (mc_structure cfg)"
    using assms(2) bk by (auto simp: in_range_def)
  note ids = set_bank_ids set_rank_ids set_group_ids bank_at_def
  from assms(1) show ?thesis
  proof (cases rule: UpdateTiming_cases)
    case (bank ch0)
    consider "i \<noteq> ad_rank (cmd_addr c)" | "i = ad_rank (cmd_addr c)" "j \<noteq> ad_bankgroup (cmd_addr c)"
      | "i = ad_rank (cmd_addr c)" "j = ad_bankgroup (cmd_addr c)" "k \<noteq> ad_bank (cmd_addr c)"
      | "bk = bank_at (cmd_addr c)" using bk by (auto simp: bank_at_def)
    then show ?thesis
    proof cases
      case 1
      then have "(ct, d) \<in> set (other_ranks (Timing cfg (cmd_type c)))" using assms(3) bank(1) bk by (auto simp: imposed_def Let_def)
      then show ?thesis unfolding bank(3) timing_updates
        by (rule constrain_banks_imposes) (use 1 assms(2) bk in \<open>auto simp: ids\<close>)
    next
      case 2
      then have "(ct, d) \<in> set (other_bankgroups_same_rank (Timing cfg (cmd_type c)))" using assms(3) bank(1) bk by (auto simp: imposed_def Let_def)
      then show ?thesis unfolding bank(3) timing_updates
        by (rule constrain_banks_keeps [OF constrain_banks_imposes]) (use 2 r bk in \<open>auto simp: ids\<close>)
    next
      case 3
      then have "(ct, d) \<in> set (other_banks_same_bankgroup (Timing cfg (cmd_type c)))" using assms(3) bank(1) bk by (auto simp: imposed_def Let_def)
      then show ?thesis unfolding bank(3) timing_updates
        by (rule constrain_banks_keeps [OF constrain_banks_keeps [OF constrain_banks_imposes]]) (use 3 r bk in \<open>auto simp: ids\<close>)
    next
      case 4
      then have "(ct, d) \<in> set (same_bank (Timing cfg (cmd_type c)))" using assms(3) bank(1) bk by (auto simp: imposed_def Let_def bank_at_def)
      then show ?thesis unfolding bank(3) timing_updates
        by (rule constrain_banks_keeps [OF constrain_banks_keeps [OF constrain_banks_keeps [OF constrain_banks_imposes]]]) (use 4 in simp)
    qed
  next
    case rank
    then have "i = ad_rank (cmd_addr c)" "(ct, d) \<in> set (same_rank (Timing cfg (cmd_type c)))"
      using assms(3) bk by (auto simp: imposed_def Let_def split: if_splits)
    then show ?thesis unfolding rank(2) timing_updates by (intro constrain_banks_imposes) (use r bk in \<open>auto simp: ids\<close>)
  next
    case gwrite
    consider "j \<noteq> ad_bankgroup (cmd_addr c)" | "j = ad_bankgroup (cmd_addr c)" "k \<noteq> ad_bank (cmd_addr c)"
      | "j = ad_bankgroup (cmd_addr c)" "k = ad_bank (cmd_addr c)" by blast
    moreover have i: "i = ad_rank (cmd_addr c)" using assms(3) gwrite bk by (auto simp: imposed_def Let_def split: if_splits)
    ultimately show ?thesis
    proof cases
      case 1
      then have "(ct, d) \<in> set (other_bankgroups_same_rank (Timing cfg (cmd_type c)))" using assms(3) gwrite(1) bk i by (auto simp: imposed_def Let_def)
      then show ?thesis unfolding gwrite(2) timing_updates
        by (rule constrain_banks_keeps [OF constrain_banks_imposes]) (use 1 i r bk in \<open>auto simp: ids\<close>)
    next
      case 2
      then have "(ct, d) \<in> set (other_banks_same_bankgroup (Timing cfg (cmd_type c)))" using assms(3) gwrite(1) bk i by (auto simp: imposed_def Let_def)
      then show ?thesis unfolding gwrite(2) timing_updates
        by (rule constrain_banks_keeps [OF constrain_banks_keeps [OF constrain_banks_imposes]]) (use 2 i r bk in \<open>auto simp: ids\<close>)
    next
      case 3
      then have "(ct, d) \<in> set (same_bank (Timing cfg (cmd_type c)))" using assms(3) gwrite(1) bk i by (auto simp: imposed_def Let_def)
      then show ?thesis unfolding gwrite(2) timing_updates by (rule constrain_banks_imposes) (use 3 i bk in \<open>auto simp: ids\<close>)
    qed
  next
    case pim_precharge
    then have "bk = bank_at (cmd_addr c)" "(ct, d) \<in> set (same_bank (Timing cfg (cmd_type c)))"
      using assms(3) bk by (auto simp: imposed_def Let_def split: if_splits)
    then show ?thesis unfolding pim_precharge(2) timing_updates by (intro constrain_banks_imposes) auto
  next
    case g_act
    have i: "i = ad_rank (cmd_addr c)" using assms(3) g_act bk by (auto simp: imposed_def Let_def split: if_splits)
    have "(ct, d) \<in> set (same_rank (Timing cfg (cmd_type c))) \<or>
        j = ad_bankgroup (cmd_addr c) \<and> (ct, d) \<in> set (other_banks_same_bankgroup (Timing cfg (cmd_type c)))"
      using assms(3) g_act(1) bk i by (auto simp: imposed_def Let_def split: if_splits)
    then show ?thesis
    proof
      assume "(ct, d) \<in> set (same_rank (Timing cfg (cmd_type c)))"
      then show ?thesis unfolding g_act(2) timing_updates by (rule constrain_banks_imposes) (use i r bk in \<open>auto simp: ids\<close>)
    next
      assume "j = ad_bankgroup (cmd_addr c) \<and> (ct, d) \<in> set (other_banks_same_bankgroup (Timing cfg (cmd_type c)))"
      then show ?thesis unfolding g_act(2) timing_updates
        by (elim conjE) (rule constrain_banks_keeps [OF constrain_banks_imposes], use i r bk in \<open>auto simp: ids\<close>)
    qed
  next
    case comp
    then show ?thesis
    proof (cases "cmd_type c = CT_COMP")
      case True
      then show ?thesis using comp_imposes [OF assms(1)] assms(2,3) bk by (simp add: imposed_def Let_def)
    next
      case False
      then have rr: "cmd_type c = CT_READRES" using comp(1) by simp
      have "(ct, d) \<in> set (same_rank (Timing cfg (cmd_type c))) \<or>
          1 < mc_ranks (mc_structure cfg) \<and> (ct, d) \<in> set (other_ranks (Timing cfg (cmd_type c)))"
        using assms(3) rr bk by (auto simp: imposed_def Let_def split: if_splits)
      then show ?thesis using readres_imposes [OF assms(1) _ rr] assms(2) bk by simp
    qed
  next
    case comps_readres
    then have "(ct, d) \<in> set (same_rank (Timing cfg (cmd_type c)) @ [(CT_COMPS_READRES,
        max (burst_cycle (mc_structure cfg)) (tCCD_S (mc_timing cfg)) * (max (num_comps c) 6 + 1))])"
      using assms(3) bk by (simp add: imposed_def Let_def)
    then show ?thesis unfolding comps_readres(2) UpdateChannelTiming_def Let_def
      by (rule constrain_banks_imposes) (use assms(2) in \<open>auto simp: ids\<close>)
  qed
qed

subsection \<open>Runs of a channel\<close>

text \<open>
  A run executes, in the order of time, commands that the channel has answered; in between, the refresh
  queue and the idle counters may change.  The trace lists the commands with their times.
\<close>

inductive chan_run :: "mem_config \<Rightarrow> (Command \<times> u64) list \<Rightarrow> ChannelState \<Rightarrow> bool" for cfg where
  chan_start: "chan_run cfg [] (ChannelState_new n cfg)"
| chan_issue: "chan_run cfg tr ch \<Longrightarrow> \<forall>x\<in>set tr. snd x \<le> clk \<Longrightarrow> askable (mc_structure cfg) cmd ch \<Longrightarrow>
    Channel_GetReadyCommand cfg cmd clk ch = Inr r \<Longrightarrow> IsValid r \<Longrightarrow> cmd_type r \<noteq> CT_P_HEADER \<Longrightarrow>
    UpdateTimingAndStates cfg r clk ch = Inr ch' \<Longrightarrow> chan_run cfg (tr @ [(r, clk)]) ch'"
| chan_other: "chan_run cfg tr ch \<Longrightarrow> bank_states ch' = bank_states ch \<Longrightarrow> four_aw ch' = four_aw ch \<Longrightarrow>
    thirty_two_aw ch' = thirty_two_aw ch \<Longrightarrow> chan_run cfg tr ch'"

lemma executed_banks:
  assumes "UpdateTimingAndStates cfg r clk ch = Inr ch'" "answer_ok cfg r clk ch"
  shows "\<exists>ch1. UpdateTiming cfg r clk ch1 = Inr ch' \<and> four_aw ch1 = four_aw ch \<and>
     (\<forall>bk. cmd_timing (bank_states ch1 bk) = cmd_timing (bank_states ch bk))"
proof -
  let ?s = "mc_structure cfg"
  have a: "addressed ?s r" "\<forall>bk\<in>set (touched ?s r). \<exists>b'. Bank_UpdateState r (bank_states ch bk) = Inr b'"
    using assms(2) by (auto simp: answer_ok_def Let_def)
  then obtain f where f: "\<forall>bk\<in>set (touched ?s r). Bank_UpdateState r (bank_states ch bk) = Inr (f bk)"
    by (auto dest!: bchoice)
  obtain ch1 where ch1: "Channel_UpdateState cfg r ch = Inr ch1" "four_aw ch1 = four_aw ch"
    "bank_states ch1 = (\<lambda>bk. if bk \<in> set (touched ?s r) then f bk else bank_states ch bk)"
    using Channel_UpdateState_ok [OF a(1), of ch f] f by auto
  have "cmd_timing (bank_states ch1 bk) = cmd_timing (bank_states ch bk)" for bk
    using f Bank_UpdateState_keeps by (cases "bk \<in> set (touched ?s r)") (auto simp: ch1(3))
  then show ?thesis using ch1 assms(1) by (auto simp: UpdateTimingAndStates_def)
qed

lemma chan_run_inv:
  assumes "chan_run cfg tr ch" "wf_structure (mc_structure cfg)"
  shows "chan_inv (mc_structure cfg) ch"
  using assms
proof (induction rule: chan_run.induct)
  case (chan_issue tr ch clk cmd r ch')
  then show ?case
    using channel_answer [of cfg ch cmd clk r] answer_ok_executes [of cfg r clk ch] by auto
next
  case (chan_other tr ch ch')
  then show ?case by (simp add: chan_inv_def)
qed (simp add: chan_inv_new)

text \<open>The delays that the commands so far have put on the banks.\<close>

definition delays_recorded :: "mem_config \<Rightarrow> (Command \<times> u64) list \<Rightarrow> ChannelState \<Rightarrow> bool" where
  "delays_recorded cfg tr ch \<longleftrightarrow> (\<forall>x\<in>set tr. \<forall>bk ct d. in_range (mc_structure cfg) bk \<and> (ct, d) \<in> set (imposed cfg (fst x) bk) \<longrightarrow>
     snd x + of_int d \<le> cmd_timing (bank_states ch bk) ct)"

lemma chan_run_delays:
  assumes "chan_run cfg tr ch" "wf_structure (mc_structure cfg)"
  shows "delays_recorded cfg tr ch \<and> (\<forall>i j. i < j \<and> j < length tr \<longrightarrow> (\<forall>bk d. bk \<in> set (checked (mc_structure cfg) (fst (tr ! j))) \<and>
     in_range (mc_structure cfg) bk \<and> (cmd_type (fst (tr ! j)), d) \<in> set (imposed cfg (fst (tr ! i)) bk) \<longrightarrow>
     snd (tr ! i) + of_int d \<le> snd (tr ! j)))"
  using assms
proof (induction rule: chan_run.induct)
  case (chan_issue tr ch clk cmd r ch')
  let ?s = "mc_structure cfg"
  have ok: "answer_ok cfg r clk ch"
    using channel_answer [OF chan_issue.prems chan_run_inv [OF chan_issue.hyps(1) chan_issue.prems]] chan_issue.hyps by blast
  obtain ch1 where ch1: "UpdateTiming cfg r clk ch1 = Inr ch'" "\<forall>bk. cmd_timing (bank_states ch1 bk) = cmd_timing (bank_states ch bk)"
    using executed_banks [OF chan_issue.hyps(7) ok] by blast
  have rec: "delays_recorded cfg tr ch" using chan_issue.IH chan_issue.prems by blast
  have "delays_recorded cfg (tr @ [(r, clk)]) ch'"
    unfolding delays_recorded_def
  proof (intro ballI allI impI)
    fix x bk ct d assume x: "x \<in> set (tr @ [(r, clk)])" and d: "in_range ?s bk \<and> (ct, d) \<in> set (imposed cfg (fst x) bk)"
    show "snd x + of_int d \<le> cmd_timing (bank_states ch' bk) ct"
    proof (cases "x = (r, clk)")
      case True
      then show ?thesis using UpdateTiming_imposes [OF ch1(1)] d by auto
    next
      case False
      then have "snd x + of_int d \<le> cmd_timing (bank_states ch bk) ct" using rec x d by (auto simp: delays_recorded_def)
      also have "\<dots> \<le> cmd_timing (bank_states ch' bk) ct"
        using UpdateTiming_later [OF ch1(1)] ch1(2) by (simp add: later_def)
      finally show ?thesis .
    qed
  qed
  moreover have "snd ((tr @ [(r, clk)]) ! i) + of_int d \<le> snd ((tr @ [(r, clk)]) ! j)"
    if ij: "i < j" "j < length (tr @ [(r, clk)])" and bk: "bk \<in> set (checked ?s (fst ((tr @ [(r, clk)]) ! j)))" "in_range ?s bk"
      and d: "(cmd_type (fst ((tr @ [(r, clk)]) ! j)), d) \<in> set (imposed cfg (fst ((tr @ [(r, clk)]) ! i)) bk)" for i j bk d
  proof (cases "j < length tr")
    case True
    then show ?thesis using chan_issue.IH chan_issue.prems ij bk d by (simp add: nth_append)
  next
    case False
    then have j: "j = length tr" using ij by simp
    then have "snd (tr ! i) + of_int d \<le> cmd_timing (bank_states ch bk) (cmd_type r)"
      using rec ij bk d by (auto simp: delays_recorded_def nth_append)
    also have "\<dots> \<le> clk" using ok bk j by (auto simp: answer_ok_def Let_def)
    finally show ?thesis using j ij by (simp add: nth_append)
  qed
  ultimately show ?case by blast
qed (auto simp: delays_recorded_def)

lemma unat_add_int: "0 \<le> d \<Longrightarrow> unat (t :: u64) + nat d < 2 ^ 64 \<Longrightarrow> unat (t + of_int d) = unat t + nat d"
proof -
  assume d: "0 \<le> d" "unat t + nat d < 2 ^ 64"
  have "(of_int d :: u64) = of_nat (nat d)" using d(1) by (metis int_nat_eq of_int_of_nat_eq)
  moreover have "unat (of_nat (nat d) :: u64) = nat d" using d(2) by (simp add: unat_of_nat take_bit_nat_eq_self)
  ultimately show ?thesis using d(2) by (simp add: unat_plus_if_size word_size)
qed

text \<open>
  C9: The timing tables are enforced.  In every run of a channel, when a command follows another one, then
  for every bank it was checked in it comes no earlier than the delay that the tables demand between the
  two commands for that bank (same bank, same group, same rank or other rank, or all ranks).  A command
  is checked in every bank it changes, with one exception: a group activation opens all banks of its
  group, and the code checks only the bank that answered.  Its delays in the other banks of the group
  are not part of the theorem, because the code does not keep them; nor is the filling of the adder
  pipeline after a \<open>COMP\<close>, which is not in the tables.
\<close>

theorem timing_tables_enforced:
  assumes "chan_run cfg tr ch" "wf_structure (mc_structure cfg)" "i < j" "j < length tr"
    and "bk \<in> set (checked (mc_structure cfg) (fst (tr ! j)))" "in_range (mc_structure cfg) bk"
    and "(cmd_type (fst (tr ! j)), d) \<in> set (imposed cfg (fst (tr ! i)) bk)" "0 \<le> d" "unat (snd (tr ! i)) + nat d < 2 ^ 64"
  shows "unat (snd (tr ! i)) + nat d \<le> unat (snd (tr ! j))"
proof -
  have "snd (tr ! i) + of_int d \<le> snd (tr ! j)" using chan_run_delays [OF assms(1,2)] assms(3-7) by blast
  then show ?thesis using unat_add_int [OF assms(8,9)] by (simp add: word_le_nat_alt)
qed

subsection \<open>The activation window\<close>

definition act_times :: "int \<Rightarrow> (Command \<times> u64) list \<Rightarrow> u64 list" where
  "act_times rank tr = map snd (filter (\<lambda>(c, t). cmd_type c = CT_ACTIVATE \<and> ad_rank (cmd_addr c) = rank) tr)"

lemma UpdateTiming_window:
  assumes "UpdateTiming cfg c clk ch = Inr ch'"
  shows "four_aw ch' rank = (if cmd_type c = CT_ACTIVATE \<and> ad_rank (cmd_addr c) = rank
     then push_window clk (clk + of_int (tFAW (mc_timing cfg))) (four_aw ch rank) else four_aw ch rank)"
proof -
  have k: "four_aw (constrain_banks ids l clk ch) = four_aw ch" for ids l clk ch by (simp add: constrain_banks_def)
  from assms show ?thesis
    by (cases rule: UpdateTiming_cases)
      (auto simp: timing_updates UpdateChannelTiming_def UpdateActivationTimes_def Let_def k)
qed

text \<open>
  The window holds the activations that have not been dropped, the latest ones; the dropped ones were at
  least \<open>tFAW\<close> before the last one.
\<close>

definition window_inv :: "nat \<Rightarrow> u64 list \<Rightarrow> u64 list \<Rightarrow> bool" where
  "window_inv faw A aw \<longleftrightarrow> (\<exists>k\<le>length A. aw = map (\<lambda>t. t + of_nat faw) (drop k A) \<and> length A - k \<le> 4 \<and>
     (\<forall>i<k. unat (A ! i) + faw \<le> unat (last A))) \<and> (\<forall>i. i + 4 < length A \<longrightarrow> unat (A ! i) + faw \<le> unat (A ! (i + 4)))"

lemma window_push:
  assumes inv: "window_inv faw A aw" and t: "\<forall>x\<in>set A. x \<le> t" and small: "\<forall>x\<in>set A. unat x + faw < 2 ^ 64"
    and ready: "case aw of [] \<Rightarrow> True | x # xs \<Rightarrow> \<not> (t < x \<and> 4 \<le> length (x # xs))"
  shows "window_inv faw (A @ [t]) (push_window t (t + of_nat faw) aw)"
proof -
  obtain k where k: "k \<le> length A" "aw = map (\<lambda>t. t + of_nat faw) (drop k A)" "length A - k \<le> 4" "\<forall>i<k. unat (A ! i) + faw \<le> unat (last A)"
    and w: "\<forall>i. i + 4 < length A \<longrightarrow> unat (A ! i) + faw \<le> unat (A ! (i + 4))" using inv by (auto simp: window_inv_def)
  have u: "unat (x + of_nat faw) = unat x + faw" if "x \<in> set A" for x
  proof -
    have "unat x + faw < 2 ^ 64" using small that by blast
    then show ?thesis by (simp add: unat_plus_if_size word_size unat_of_nat take_bit_nat_eq_self)
  qed
  have old: "unat (A ! i) + faw \<le> unat t" if "i < k" for i
  proof -
    have "A \<noteq> []" using that k(1) by auto
    then have "unat (last A) \<le> unat t" using t by (simp add: word_le_nat_alt)
    then show ?thesis using k(4) that by fastforce
  qed
  define k' where "k' = (if k < length A \<and> A ! k + of_nat faw \<le> t then k + 1 else k)"
  have p: "push_window t (t + of_nat faw) aw = map (\<lambda>t. t + of_nat faw) (drop k' (A @ [t]))"
    using k(1) by (cases "k < length A") (auto simp: k(2) push_window_def k'_def Cons_nth_drop_Suc [symmetric] split: list.split)
  have head: "unat (A ! k) + faw \<le> unat t" if "k < length A" "A ! k + of_nat faw \<le> t"
    using that u [of "A ! k"] by (simp add: word_le_nat_alt)
  have gone: "unat (A ! i) + faw \<le> unat t" if "i < k'" for i
    using that old head by (cases "i = k") (auto simp: k'_def split: if_splits)
  have full: "k' = k + 1" if "length A - k = 4"
  proof -
    have kl: "k < length A" using that by simp
    then have "aw = (A ! k + of_nat faw) # map (\<lambda>t. t + of_nat faw) (drop (k + 1) A)" by (simp add: k(2) Cons_nth_drop_Suc [symmetric])
    then have "A ! k + of_nat faw \<le> t" using ready that by (auto simp: not_less)
    then show ?thesis using kl by (simp add: k'_def)
  qed
  have k': "k \<le> k'" "k' \<le> length (A @ [t])" using k(1) by (simp_all add: k'_def)
  have len: "length (A @ [t]) - k' \<le> 4"
  proof (cases "length A - k = 4")
    case True
    then show ?thesis using full by simp
  next
    case False
    then show ?thesis using k(3) k'(1) by simp
  qed
  have "unat ((A @ [t]) ! i) + faw \<le> unat ((A @ [t]) ! (i + 4))" if "i + 4 < length (A @ [t])" for i
  proof (cases "i + 4 < length A")
    case True
    then show ?thesis using w by (simp add: nth_append)
  next
    case False
    then have i: "i + 4 = length A" using that by simp
    have "i < k'"
    proof (cases "length A - k = 4")
      case True
      then show ?thesis using full i by simp
    next
      case False
      then show ?thesis using k(3) k'(1) i by simp
    qed
    then show ?thesis using gone i by (simp add: nth_append)
  qed
  moreover have "\<forall>i<k'. unat ((A @ [t]) ! i) + faw \<le> unat (last (A @ [t]))"
    using gone k(1) by (auto simp: nth_append k'_def split: if_splits)
  ultimately show ?thesis unfolding window_inv_def using p len k'(2) by blast
qed

text \<open>
  C18: The four-activation window.  In every run of a channel, of any five consecutive activations of a rank
  by \<open>ACTIVATE\<close>, the last comes at least \<open>tFAW\<close> after the first.
\<close>

theorem four_activation_window:
  assumes "chan_run cfg tr ch" "wf_structure (mc_structure cfg)" "0 \<le> tFAW (mc_timing cfg)"
    and "\<forall>x\<in>set tr. unat (snd x) + nat (tFAW (mc_timing cfg)) < 2 ^ 64" "i + 4 < length (act_times rank tr)"
  shows "unat (act_times rank tr ! i) + nat (tFAW (mc_timing cfg)) \<le> unat (act_times rank tr ! (i + 4))"
proof -
  have f: "of_int (tFAW (mc_timing cfg)) = (of_nat (nat (tFAW (mc_timing cfg))) :: u64)"
    using assms(3) by (metis int_nat_eq of_int_of_nat_eq)
  have "window_inv (nat (tFAW (mc_timing cfg))) (act_times rank tr) (four_aw ch rank)"
    using assms(1,4)
  proof (induction rule: chan_run.induct)
    case (chan_issue tr ch clk cmd r ch')
    have ok: "answer_ok cfg r clk ch"
      using channel_answer [OF assms(2) chan_run_inv [OF chan_issue.hyps(1) assms(2)]] chan_issue.hyps by blast
    obtain ch1 where ch1: "UpdateTiming cfg r clk ch1 = Inr ch'" "four_aw ch1 = four_aw ch"
      using executed_banks [OF chan_issue.hyps(7) ok] by blast
    note w = UpdateTiming_window [OF ch1(1), of rank]
    have IH: "window_inv (nat (tFAW (mc_timing cfg))) (act_times rank tr) (four_aw ch rank)" using chan_issue by simp
    show ?case
    proof (cases "cmd_type r = CT_ACTIVATE \<and> ad_rank (cmd_addr r) = rank")
      case True
      then have "IsFAWReady rank clk ch" using ok by (auto simp: answer_ok_def Let_def ActivationWindowOk_def)
      then have "window_inv (nat (tFAW (mc_timing cfg))) (act_times rank tr @ [clk])
          (push_window clk (clk + of_nat (nat (tFAW (mc_timing cfg)))) (four_aw ch rank))"
        by (intro window_push [OF IH])
          (use chan_issue.hyps(2) chan_issue.prems in \<open>auto simp: act_times_def IsFAWReady_def split: list.splits\<close>)
      then show ?thesis using w True ch1(2) f by (simp add: act_times_def)
    next
      case False
      then show ?thesis using w IH ch1(2) by (auto simp: act_times_def)
    qed
  qed (auto simp: window_inv_def act_times_def ChannelState_new_def)
  then show ?thesis using assms(5) by (simp add: window_inv_def)
qed

subsection \<open>Witnesses\<close>

text \<open>
  A run on the repository's memory: five reads of closed banks, one hundred cycles apart, open the banks;
  a sixth one reads from the first.  All delays of an activation are below one hundred cycles.
\<close>

definition read_of :: "bank_id \<Rightarrow> Command" where
  "read_of bk = (case bk of (i, j, k) \<Rightarrow>
     Command_new CT_READ (Address0\<lparr>ad_rank := i, ad_bankgroup := j, ad_bank := k, ad_row := 5\<rparr>) 0)"

lemma read_of: "cmd_type (read_of bk) = CT_READ" "bank_at (cmd_addr (read_of bk)) = bk" "cmd_row (read_of bk) = 5"
  by (auto simp: read_of_def Command_new_def Command0_def Address0_def bank_at_def split: prod.splits)

definition quiet :: "ChannelState \<Rightarrow> u64 \<Rightarrow> bool" where
  "quiet ch T \<longleftrightarrow> (\<forall>bk ct. cmd_timing (bank_states ch bk) ct \<le> T)"

lemma constrain_upper:
  "\<forall>x\<in>set l. clk + of_int (snd x) \<le> T \<Longrightarrow> cmd_timing b ct \<le> T \<Longrightarrow> cmd_timing (constrain l clk b) ct \<le> T"
proof (induction l arbitrary: b)
  case (Cons x l)
  have "cmd_timing (Bank_UpdateTiming (fst x) (clk + of_int (snd x)) b) ct \<le> T"
    using Cons.prems by (auto simp: Bank_UpdateTiming_def)
  then show ?case using Cons by (cases x) simp
qed simp

lemma constrain_banks_quiet:
  "\<forall>x\<in>set l. clk + of_int (snd x) \<le> T \<Longrightarrow> quiet ch T \<Longrightarrow> quiet (constrain_banks ids l clk ch) T"
  by (simp add: quiet_def constrain_banks_def constrain_upper)

definition hbm2_facts :: bool where
  "hbm2_facts \<longleftrightarrow> (let s = mc_structure hbm2_config; t = Timing hbm2_config CT_ACTIVATE in
     wf_structure s \<and> in_range s (0, 3, 1) \<and> mc_ranks s > 0 \<and> mc_bankgroups s = 4 \<and> mc_banks_per_group s = 4 \<and> \<not> IsGDDR (protocol s) \<and>
     enable_dual_buffer s \<and> tFAW (mc_timing hbm2_config) = 30 \<and> (CT_READ, 14) \<in> set (same_bank t) \<and>
     list_all (\<lambda>x. 0 \<le> snd x \<and> snd x < 100) (same_bank t @ other_banks_same_bankgroup t @ other_bankgroups_same_rank t @ other_ranks t))"

lemma hbm2_facts: hbm2_facts
  by code_simp

lemma in_range_hbm2: "0 \<le> j \<Longrightarrow> j < 4 \<Longrightarrow> 0 \<le> k \<Longrightarrow> k < 4 \<Longrightarrow> in_range (mc_structure hbm2_config) (0, j, k)"
  using hbm2_facts by (simp add: hbm2_facts_def Let_def in_range_def)

lemma activate_step:
  assumes "chan_run hbm2_config tr ch" "in_range (mc_structure hbm2_config) bk" "\<forall>x\<in>set tr. snd x \<le> clk" "unat clk < 2 ^ 32"
    and b: "bs_state (bank_states ch bk) = RS_CLOSED" "pim_state (bank_states ch bk) = RS_CLOSED" "quiet ch clk"
    and faw: "IsFAWReady (fst bk) clk ch"
  shows "\<exists>c ch'. chan_run hbm2_config (tr @ [(c, clk)]) ch' \<and> cmd_type c = CT_ACTIVATE \<and> bank_at (cmd_addr c) = bk \<and> quiet ch' (clk + 100) \<and>
     four_aw ch' (fst bk) = push_window clk (clk + 30) (four_aw ch (fst bk)) \<and>
     (\<forall>bk'. pim_state (bank_states ch' bk') = pim_state (bank_states ch bk') \<and>
       bs_state (bank_states ch' bk') = (if bk' = bk then RS_OPEN else bs_state (bank_states ch bk'))
       \<and> open_row (bank_states ch' bk') = (if bk' = bk then 5 else open_row (bank_states ch bk')))"
proof -
  let ?s = "mc_structure hbm2_config" and ?cmd = "read_of bk" and ?b = "bank_states ch bk"
  have wf: "wf_structure ?s" using hbm2_facts by (simp add: hbm2_facts_def Let_def)
  have inv: "chan_inv ?s ch" by (rule chan_run_inv [OF assms(1) wf])
  then have bi: "bank_inv ?b" and dual: "bs_dual_buffer ?b = enable_dual_buffer ?s" using assms(2) by (auto simp: chan_inv_def)
  have "required_cmd ?cmd ?b = Inr (Some (Some CT_ACTIVATE))"
    using b(1,2) by (simp add: required_cmd_def required_single_def required_normal_def read_of command_classes Let_def)
  then obtain c where c: "Bank_GetReadyCommand ?cmd clk ?b = Inr c" "cmd_type c = CT_ACTIVATE" "cmd_addr c = cmd_addr ?cmd"
    using GetReady_access [of ?cmd ?b CT_ACTIVATE clk] b(3) by (auto simp: quiet_def)
  have rk: "ad_rank (cmd_addr c) = fst bk" using read_of(2) [of bk] c(3) by (metis bank_at_def fst_conv)
  have "ActivationWindowOk hbm2_config (fst bk) clk ch"
    using faw hbm2_facts by (simp add: ActivationWindowOk_def hbm2_facts_def Let_def)
  then have g: "Channel_GetReadyCommand hbm2_config ?cmd clk ch = Inr c"
    using c rk assms(2) by (simp add: Channel_GetReadyCommand_def read_of command_classes Let_def IsPIMHeader_def)
  have ask: "askable ?s ?cmd ch" by (simp add: askable_def read_of)
  have v: "IsValid c" "cmd_type c \<noteq> CT_P_HEADER" using c(2) by (simp_all add: IsValid_def)
  have ok: "answer_ok hbm2_config c clk ch" by (rule channel_answer [OF wf inv g v ask])
  obtain ch' where ch': "UpdateTimingAndStates hbm2_config c clk ch = Inr ch'" using answer_ok_executes [OF ok inv v] by blast
  have run: "chan_run hbm2_config (tr @ [(c, clk)]) ch'" by (rule chan_issue [OF assms(1,3) ask g v ch'])
  have t: "touched ?s c = [bk]" "addressed ?s c"
    using c(2,3) assms(2) read_of(2) [of bk] by (simp_all add: touched_def addressed_def IsChannelCMD_def IsRankCMD_def Let_def)
  obtain ch1 where ch1: "Channel_UpdateState hbm2_config c ch = Inr ch1" "four_aw ch1 = four_aw ch"
    "bank_states ch1 = (\<lambda>bk'. if bk' = bk then ?b\<lparr>bs_state := RS_OPEN, open_row := cmd_row c\<rparr> else bank_states ch bk')"
    using Channel_UpdateState_ok [OF t(2), of ch "\<lambda>_. ?b\<lparr>bs_state := RS_OPEN, open_row := cmd_row c\<rparr>"]
      buffer_effects(2) [OF c(2) b(1)] t(1) by auto
  have u: "UpdateTiming hbm2_config c clk ch1 = Inr ch'" using ch' ch1(1) by (simp add: UpdateTimingAndStates_def)
  have d: "clk + of_int (snd x) \<le> clk + 100"
    if "x \<in> set (same_bank t @ other_banks_same_bankgroup t @ other_bankgroups_same_rank t @ other_ranks t)" "t = Timing hbm2_config CT_ACTIVATE" for x t
  proof -
    have "0 \<le> snd x \<and> snd x < 100" using hbm2_facts that by (auto simp: hbm2_facts_def Let_def list_all_iff)
    moreover have "unat (clk + 100) = unat clk + 100" using assms(4) unat_add_int [of 100 clk] by simp
    moreover from calculation(1) have "nat (snd x) < 100" by linarith
    moreover from this have "unat (clk + of_int (snd x)) = unat clk + nat (snd x)"
      by (intro unat_add_int) (use assms(4) calculation(1) in simp_all)
    ultimately show ?thesis by (simp add: word_le_nat_alt)
  qed
  have q1: "quiet ch1 (clk + 100)"
  proof -
    have "clk \<le> clk + 100" using assms(4) unat_add_int [of 100 clk] by (simp add: word_le_nat_alt)
    then show ?thesis using b(3) ch1(3) by (auto simp: quiet_def intro: order_trans)
  qed
  from u have q: "quiet ch' (clk + 100)"
  proof (cases rule: UpdateTiming_cases)
    case (bank ch0)
    have "quiet ch0 (clk + 100)" using bank(2) q1 c(2) by (simp add: quiet_def UpdateActivationTimes_def Let_def)
    then show ?thesis unfolding bank(3) timing_updates c(2) by (intro constrain_banks_quiet) (use d in auto)
  qed (use c(2) in auto)
  have st: "pim_state (bank_states ch' bk') = pim_state (bank_states ch1 bk')" "bs_state (bank_states ch' bk') = bs_state (bank_states ch1 bk')"
    "open_row (bank_states ch' bk') = open_row (bank_states ch1 bk')" for bk'
    using UpdateTiming_later [OF u] by (simp_all add: later_def)
  have "four_aw ch' (fst bk) = push_window clk (clk + 30) (four_aw ch (fst bk))"
    using UpdateTiming_window [OF u, of "fst bk"] c(2) rk ch1(2) hbm2_facts by (simp add: hbm2_facts_def Let_def)
  moreover have "bank_at (cmd_addr c) = bk" using c(3) read_of(2) by simp
  moreover have "cmd_row c = 5" using c(3) read_of(3) by simp
  ultimately show ?thesis using run c(2) q st ch1(3) by (intro exI [of _ c] exI [of _ ch']) (auto split: if_splits)
qed

definition demo_banks :: "bank_id list" where
  "demo_banks = [(0, 0, 0), (0, 1, 0), (0, 2, 0), (0, 3, 0), (0, 0, 1)]"

definition demo_times :: "u64 list" where
  "demo_times = [0, 100, 200, 300, 400]"

definition demo_state :: "nat \<Rightarrow> (Command \<times> u64) list \<Rightarrow> ChannelState \<Rightarrow> bool" where
  "demo_state n tr ch \<longleftrightarrow> chan_run hbm2_config tr ch \<and> map snd tr = take n demo_times \<and> list_all (\<lambda>x. cmd_type (fst x) = CT_ACTIVATE) tr \<and>
     map (\<lambda>x. bank_at (cmd_addr (fst x))) tr = take n demo_banks \<and> quiet ch (if n = 0 then 0 else demo_times ! (n - 1) + 100) \<and>
     four_aw ch 0 = (if n = 0 then [] else [demo_times ! (n - 1) + 30]) \<and>
     (\<forall>bk. pim_state (bank_states ch bk) = RS_CLOSED \<and> bs_state (bank_states ch bk) = (if bk \<in> set (take n demo_banks) then RS_OPEN else RS_CLOSED) \<and>
        (bk \<in> set (take n demo_banks) \<longrightarrow> open_row (bank_states ch bk) = 5))"

lemma demo_step:
  assumes "demo_state n tr ch" "n < 5"
  shows "\<exists>tr' ch'. demo_state (Suc n) tr' ch'"
proof -
  let ?bk = "demo_banks ! n" and ?t = "demo_times ! n"
  have n: "n \<in> {0, 1, 2, 3, 4}" using assms(2) by auto
  have r: "in_range (mc_structure hbm2_config) ?bk" "fst ?bk = 0"
    using n by (auto simp: demo_banks_def intro!: in_range_hbm2)
  have st: "chan_run hbm2_config tr ch" "map snd tr = take n demo_times" "quiet ch (if n = 0 then 0 else demo_times ! (n - 1) + 100)"
    "four_aw ch 0 = (if n = 0 then [] else [demo_times ! (n - 1) + 30])"
    "bs_state (bank_states ch bk) = (if bk \<in> set (take n demo_banks) then RS_OPEN else RS_CLOSED)" "pim_state (bank_states ch bk) = RS_CLOSED" for bk
    using assms(1) by (simp_all add: demo_state_def)
  have d: "(if n = 0 then 0 else demo_times ! (n - 1) + 100) = ?t" "unat ?t < 2 ^ 32" "\<forall>x\<in>set (take n demo_times). x \<le> ?t"
    "?bk \<notin> set (take n demo_banks)" "take (Suc n) demo_times = take n demo_times @ [?t]" "take (Suc n) demo_banks = take n demo_banks @ [?bk]"
    using n by (auto simp: demo_times_def demo_banks_def)
  have "\<forall>x\<in>set tr. snd x \<le> ?t" using d(3) st(2) by (metis image_eqI set_map)
  moreover have "IsFAWReady (fst ?bk) ?t ch" using st(4) r(2) by (simp add: IsFAWReady_def)
  ultimately obtain c ch' where c: "chan_run hbm2_config (tr @ [(c, ?t)]) ch'" "cmd_type c = CT_ACTIVATE" "bank_at (cmd_addr c) = ?bk"
    "quiet ch' (?t + 100)" "four_aw ch' 0 = push_window ?t (?t + 30) (four_aw ch 0)"
    "\<forall>bk'. pim_state (bank_states ch' bk') = pim_state (bank_states ch bk') \<and>
       bs_state (bank_states ch' bk') = (if bk' = ?bk then RS_OPEN else bs_state (bank_states ch bk'))
       \<and> open_row (bank_states ch' bk') = (if bk' = ?bk then 5 else open_row (bank_states ch bk'))"
    using activate_step [OF st(1) r(1), of ?t] st(3,5,6) d r(2) by auto
  have "push_window ?t (?t + 30) (four_aw ch 0) = [?t + 30]" using n st(4) by (auto simp: push_window_def demo_times_def)
  then have "demo_state (Suc n) (tr @ [(c, ?t)]) ch'"
    using assms(1) c d unfolding demo_state_def by auto
  then show ?thesis by blast
qed

lemma demo_run: "\<exists>tr ch. demo_state 5 tr ch"
proof -
  have "demo_state 0 [] (ChannelState_new 0 hbm2_config)"
    using chan_start by (simp add: demo_state_def quiet_def ChannelState_new_def BankState_new_def)
  then have "\<exists>tr ch. demo_state n tr ch" if "n \<le> 5" for n
    using that by (induction n) (auto dest: demo_step)
  then show ?thesis by simp
qed

text \<open>The sixth access reads from the first bank.\<close>

lemma demo_read:
  assumes "demo_state 5 tr ch"
  shows "\<exists>c. Channel_GetReadyCommand hbm2_config (read_of (0, 0, 0)) 500 ch = Inr c \<and> cmd_type c = CT_READ \<and> bank_at (cmd_addr c) = (0, 0, 0)"
proof -
  let ?b = "bank_states ch (0, 0, 0)"
  have b: "bs_state ?b = RS_OPEN" "open_row ?b = 5" "quiet ch 500" "pim_state ?b = RS_CLOSED" "chan_run hbm2_config tr ch"
    using assms by (auto simp: demo_state_def demo_banks_def demo_times_def)
  have wf: "wf_structure (mc_structure hbm2_config)" using hbm2_facts by (simp add: hbm2_facts_def Let_def)
  have rng: "in_range (mc_structure hbm2_config) (0, 0, 0)" by (rule in_range_hbm2) simp_all
  have "enable_dual_buffer (mc_structure hbm2_config)" using hbm2_facts by (simp add: hbm2_facts_def Let_def)
  then have "bs_dual_buffer ?b" "bank_inv ?b" using chan_run_inv [OF b(5) wf] rng by (auto simp: chan_inv_def)
  then have "required_cmd (read_of (0, 0, 0)) ?b = Inr (Some (Some CT_READ))"
    using required_access [of ?b "read_of (0, 0, 0)"] b by (simp add: read_of)
  then obtain c where "Bank_GetReadyCommand (read_of (0, 0, 0)) 500 ?b = Inr c" "cmd_type c = CT_READ" "cmd_addr c = cmd_addr (read_of (0, 0, 0))"
    using GetReady_access [of "read_of (0, 0, 0)" ?b CT_READ 500] b(3) by (auto simp: quiet_def)
  then show ?thesis
    using rng read_of(2) [of "(0, 0, 0)"] by (auto simp: Channel_GetReadyCommand_def read_of command_classes Let_def IsPIMHeader_def)
qed

theorem channel_accepts_ready_command_witness:
  "\<exists>ch c ch'. Channel_GetReadyCommand hbm2_config (read_of (0, 0, 0)) 500 ch = Inr c \<and> cmd_type c = CT_READ \<and>
     UpdateTimingAndStates hbm2_config c 500 ch = Inr ch'"
proof -
  obtain tr ch where d: "demo_state 5 tr ch" using demo_run by blast
  obtain c where c: "Channel_GetReadyCommand hbm2_config (read_of (0, 0, 0)) 500 ch = Inr c" "cmd_type c = CT_READ"
    using demo_read [OF d] by blast
  have wf: "wf_structure (mc_structure hbm2_config)" using hbm2_facts by (simp add: hbm2_facts_def Let_def)
  have "chan_inv (mc_structure hbm2_config) ch" using d chan_run_inv [OF _ wf] by (auto simp: demo_state_def)
  moreover have "askable (mc_structure hbm2_config) (read_of (0, 0, 0)) ch" by (simp add: askable_def read_of)
  ultimately have "\<exists>ch'. UpdateTimingAndStates hbm2_config c 500 ch = Inr ch'"
    using channel_accepts_ready_command [OF wf _ _ c(1)] c(2) by (auto simp: IsValid_def)
  then show ?thesis using c by blast
qed

theorem four_activation_window_witness:
  "\<exists>tr ch. chan_run hbm2_config tr ch \<and> act_times 0 tr = [0, 100, 200, 300, 400] \<and> unat (act_times 0 tr ! 0) + 30 \<le> unat (act_times 0 tr ! 4)"
proof -
  obtain tr ch where d: "demo_state 5 tr ch" using demo_run by blast
  have f: "wf_structure (mc_structure hbm2_config)" "tFAW (mc_timing hbm2_config) = 30"
    using hbm2_facts by (auto simp: hbm2_facts_def Let_def)
  have tr: "list_all (\<lambda>x. cmd_type (fst x) = CT_ACTIVATE) tr" "map snd tr = demo_times" "map (\<lambda>x. bank_at (cmd_addr (fst x))) tr = demo_banks"
    "chan_run hbm2_config tr ch"
    using d by (auto simp: demo_state_def demo_times_def demo_banks_def)
  have "filter (\<lambda>(c, t). cmd_type c = CT_ACTIVATE \<and> ad_rank (cmd_addr c) = 0) tr = tr"
  proof (rule filter_True, rule ballI)
    fix x assume "x \<in> set tr"
    then have "bank_at (cmd_addr (fst x)) \<in> set demo_banks" using tr(3) by (metis image_eqI set_map)
    then show "case x of (c, t) \<Rightarrow> cmd_type c = CT_ACTIVATE \<and> ad_rank (cmd_addr c) = 0"
      using tr(1) \<open>x \<in> set tr\<close> by (auto simp: demo_banks_def bank_at_def list_all_iff split: prod.splits)
  qed
  then have a: "act_times 0 tr = [0, 100, 200, 300, 400]" using tr(2) by (simp add: act_times_def demo_times_def)
  have s: "\<forall>x\<in>set tr. unat (snd x) + nat (tFAW (mc_timing hbm2_config)) < 2 ^ 64"
  proof
    fix x assume "x \<in> set tr"
    then have "snd x \<in> set demo_times" using tr(2) by (metis image_eqI set_map)
    then show "unat (snd x) + nat (tFAW (mc_timing hbm2_config)) < 2 ^ 64" using f(2) by (auto simp: demo_times_def)
  qed
  have "unat (act_times 0 tr ! 0) + 30 \<le> unat (act_times 0 tr ! 4)"
    using four_activation_window [OF tr(4) f(1) _ s, of 0 0] f(2) a by simp
  then show ?thesis using tr(4) a by blast
qed

theorem timing_tables_enforced_witness:
  "\<exists>tr ch. chan_run hbm2_config tr ch \<and> cmd_type (fst (tr ! 5)) = CT_READ \<and> snd (tr ! 0) = 0 \<and> unat (snd (tr ! 0)) + 14 \<le> unat (snd (tr ! 5))"
proof -
  obtain tr ch where d: "demo_state 5 tr ch" using demo_run by blast
  obtain c where c: "Channel_GetReadyCommand hbm2_config (read_of (0, 0, 0)) 500 ch = Inr c" "cmd_type c = CT_READ" "bank_at (cmd_addr c) = (0, 0, 0)"
    using demo_read [OF d] by blast
  have wf: "wf_structure (mc_structure hbm2_config)" "(CT_READ, 14) \<in> set (same_bank (Timing hbm2_config CT_ACTIVATE))"
    using hbm2_facts by (simp_all add: hbm2_facts_def Let_def)
  have tr: "list_all (\<lambda>x. cmd_type (fst x) = CT_ACTIVATE) tr" "map snd tr = demo_times" "map (\<lambda>x. bank_at (cmd_addr (fst x))) tr = demo_banks"
    "chan_run hbm2_config tr ch"
    using d by (auto simp: demo_state_def demo_times_def demo_banks_def)
  have len: "length tr = 5" using arg_cong [OF tr(2), of length] by (simp add: demo_times_def)
  have inv: "chan_inv (mc_structure hbm2_config) ch" by (rule chan_run_inv [OF tr(4) wf(1)])
  have ask: "askable (mc_structure hbm2_config) (read_of (0, 0, 0)) ch" by (simp add: askable_def read_of)
  have v: "IsValid c" "cmd_type c \<noteq> CT_P_HEADER" using c(2) by (simp_all add: IsValid_def)
  have "answer_ok hbm2_config c 500 ch" by (rule channel_answer [OF wf(1) inv c(1) v ask])
  then obtain ch' where ch': "UpdateTimingAndStates hbm2_config c 500 ch = Inr ch'" using answer_ok_executes [OF _ inv v] by blast
  have le: "\<forall>x\<in>set tr. snd x \<le> 500"
  proof
    fix x assume "x \<in> set tr"
    then have "snd x \<in> set demo_times" using tr(2) by (metis image_eqI set_map)
    then show "snd x \<le> 500" by (auto simp: demo_times_def)
  qed
  let ?tr = "tr @ [(c, 500)]"
  have run: "chan_run hbm2_config ?tr ch'" by (rule chan_issue [OF tr(4) le ask c(1) v ch'])
  have n0: "tr ! 0 \<in> set tr" using len by simp
  have t0: "cmd_type (fst (?tr ! 0)) = CT_ACTIVATE" "snd (?tr ! 0) = 0" "bank_at (cmd_addr (fst (?tr ! 0))) = (0, 0, 0)"
    using tr(1) n0 len arg_cong [OF tr(2), of "\<lambda>l. l ! 0"] arg_cong [OF tr(3), of "\<lambda>l. l ! 0"]
    by (simp_all add: nth_append list_all_iff demo_times_def demo_banks_def)
  have t5: "?tr ! 5 = (c, 500)" using len by (simp add: nth_append)
  have "unat (snd (?tr ! 0)) + nat 14 \<le> unat (snd (?tr ! 5))"
    by (rule timing_tables_enforced [OF run wf(1), of 0 5 "(0, 0, 0)"])
      (use len t0 t5 c wf(2) in_range_hbm2 in \<open>auto simp: checked_def touched_def IsChannelCMD_def IsRankCMD_def Let_def imposed_def bank_at_def\<close>)
  then show ?thesis using run t0(2) t5 c(2) by (intro exI [of _ ?tr] exI [of _ ch']) simp
qed

end
