(* ===== verification/MemControllerRun.thy ===== *)
theory MemControllerRun
  imports MemControllerInv MemChannelRun
begin

text \<open>
  Runs of the controller of a memory channel: its transactions are conserved, reads and writes never stop
  it, its look-ups never fail, and operations in memory stay in order and are all answered when the command
  queue is long enough; when it is shorter, some can be lost.
\<close>

subsection \<open>Runs of a controller\<close>

text \<open>
  The memory system adds transactions that the controller accepts, lets it tick, and takes back what is
  done.  A run lists the transactions added and the pairs returned, in order.
\<close>

inductive ctl_run :: "mem_config \<Rightarrow> Transaction list \<Rightarrow> (u64 \<times> TransactionType) list \<Rightarrow> Controller \<Rightarrow> bool" for cfg where
  run_start: "Controller_new n cfg = Inr c \<Longrightarrow> ctl_run cfg [] [] c"
| run_add: "ctl_run cfg added returned c \<Longrightarrow> tr_type t \<in> npu_types \<Longrightarrow> WillAcceptTransaction cfg (tr_type t) c = Inr True \<Longrightarrow>
    ctl_run cfg (added @ [t]) returned (AddTransaction t c)"
| run_tick: "ctl_run cfg added returned c \<Longrightarrow> Controller_ClockTick cfg c = Inr c' \<Longrightarrow> ctl_run cfg added returned c'"
| run_done: "ctl_run cfg added returned c \<Longrightarrow> ReturnDoneTrans clk c = (r, c') \<Longrightarrow>
    ctl_run cfg added (if snd r = TT_SIZE then returned else returned @ [r]) c'"

lemma ctl_inv_new: "Controller_new n cfg = Inr c \<Longrightarrow> ctl_inv c"
  by (auto simp: Controller_new_def CommandQueue_new_def Let_def ctl_inv_def ctl_types_def queue_types_def refreshes_only_def ChannelState_new_def
      on_its_way_def reads_at_def writes_at_def pims_at_def rw_cmds_def split: if_splits)

lemma steps_keep: "(ctl_step cfg)\<^sup>*\<^sup>* c c' \<Longrightarrow> ctl_inv c \<Longrightarrow> ctl_inv c'"
  by (induction rule: rtranclp_induct) (auto intro: ctl_step_keeps)

lemma run_keeps: "ctl_run cfg added returned c \<Longrightarrow> ctl_inv c"
  by (induction rule: ctl_run.induct) (auto intro: ctl_inv_new add_keeps steps_keep tick_steps done_keeps)

text \<open>A property of the queues that every step keeps holds along a tick.\<close>

lemma tick_induct:
  assumes "Controller_ClockTick cfg c = Inr c'" "ctl_inv c" "P c"
    and "\<And>c1 c2. ctl_step cfg c1 c2 \<Longrightarrow> ctl_inv c1 \<Longrightarrow> P c1 \<Longrightarrow> P c2"
  shows "P c'"
proof -
  from tick_steps [OF assms(1,2)] have "ctl_inv c' \<and> P c'"
    by (induction rule: rtranclp_induct) (use assms ctl_step_keeps in blast)+
  then show ?thesis ..
qed

subsection \<open>The books of the controller\<close>

abbreviation trans_key :: "Transaction \<Rightarrow> u64 \<times> TransactionType" where
  "trans_key t \<equiv> (tr_addr t, tr_type t)"

definition outstanding :: "Controller \<Rightarrow> (u64 \<times> TransactionType) multiset" where
  "outstanding c = mset (map trans_key (pending_rd_q c @ pending_pim_q c @ return_queue c))"

lemma mset_at_addr: "mset (map trans_key (at_addr a ts)) + mset (map trans_key (filter (\<lambda>x. tr_addr x \<noteq> a) ts)) = mset (map trans_key ts)"
  by (induction ts) auto

lemma mset_erase_at: "at_addr a ts = x # xs \<Longrightarrow> mset (map trans_key ts) = add_mset (trans_key x) (mset (map trans_key (erase_where (\<lambda>y. tr_addr y = a) ts)))"
  by (induction ts) (auto split: if_splits)

lemma outstanding_work: "same_work c c' \<Longrightarrow> outstanding c' = outstanding c"
  by (simp add: outstanding_def same_work_fields)

lemma step_outstanding: "ctl_step cfg c c' \<Longrightarrow> ctl_inv c \<Longrightarrow> outstanding c' = outstanding c"
proof (induction rule: ctl_step.induct)
  case (step_issue c cmd q c')
  from step_issue(2) show ?case
  proof (cases rule: IssueCommand_run)
    case (read ch)
    have "mset (map trans_key (map (\<lambda>x. x\<lparr>complete_cycle := t\<rparr>) (at_addr a ts))) = mset (map trans_key (at_addr a ts))" for t a ts
      by (simp add: comp_def)
    then show ?thesis
      using mset_at_addr [of "hex_addr cmd" "pending_rd_q c"] unfolding read(3) by (simp add: outstanding_def complete_at_def comp_def ac_simps)
  next
    case (pim x xs ch)
    then have "mset (map trans_key (pending_pim_q c)) = add_mset (trans_key x) (mset (map trans_key (erase_where (\<lambda>y. tr_addr y = hex_addr cmd) (pending_pim_q c))))"
      by (intro mset_erase_at) simp
    then show ?thesis unfolding pim(3) by (simp add: outstanding_def complete_at_def)
  qed (simp_all add: outstanding_def)
next
  case (step_schedule c c')
  from step_schedule(1) show ?case
  proof (cases rule: schedule_cases)
    case (moves w c0 pre t post)
    then have "ctl_types c0" using step_schedule(2) ctl_inv_work by (auto simp: ctl_inv_def)
    from moves(4) this moves(3) have "outstanding c' = outstanding c0"
    proof (cases rule: moved_cases)
      case (rw cmd q)
      have "outstanding (set_trans_queue w (pre @ post) (c0\<lparr>ct_queue := q\<rparr>)) = outstanding c0"
        by (cases w) (simp_all add: set_trans_queue_def outstanding_def)
      then show ?thesis using outstanding_work [OF rw(4)] by simp
    next
      case (pim cmd ok q)
      have "outstanding (c0\<lparr>ct_queue := q, ct_pim_queue := pre @ post\<rparr>) = outstanding c0" by (simp add: outstanding_def)
      then show ?thesis using outstanding_work [OF pim(5)] by simp
    qed
    then show ?thesis using outstanding_work [OF moves(1)] by simp
  qed (rule outstanding_work)
qed (simp_all add: outstanding_def)

lemma add_outstanding:
  "tr_type t \<in> npu_types \<Longrightarrow> outstanding (AddTransaction t c) = outstanding c + (if tr_type t = TT_P_HEADER then {#} else {#trans_key t#})"
  by (auto simp: outstanding_def AddTransaction_def Let_def npu_types_def)

lemma done_outstanding:
  assumes "ReturnDoneTrans clk c = (r, c')"
  shows "(r = (- 1, TT_SIZE) \<and> outstanding c' = outstanding c) \<or> outstanding c = add_mset r (outstanding c')"
proof (cases "filter (\<lambda>t. complete_cycle t \<le> clk) (return_queue c)")
  case Nil
  then show ?thesis using assms by (auto simp: ReturnDoneTrans_def)
next
  case (Cons t ts)
  have "mset (map trans_key xs) = add_mset (trans_key t) (mset (map trans_key (erase_where p xs)))" if "filter p xs = t # ts" for p and xs :: "Transaction list"
    using that by (induction xs) (auto split: if_splits)
  then have "mset (map trans_key (return_queue c)) = add_mset (trans_key t) (mset (map trans_key (erase_where (\<lambda>t. complete_cycle t \<le> clk) (return_queue c))))"
    using Cons by blast
  moreover have "r = trans_key t" "return_queue c' = erase_where (\<lambda>t. complete_cycle t \<le> clk) (return_queue c)" "pending_rd_q c' = pending_rd_q c"
    "pending_pim_q c' = pending_pim_q c"
    using assms Cons by (auto simp: ReturnDoneTrans_def)
  ultimately show ?thesis by (simp add: outstanding_def)
qed

text \<open>The transactions added are those returned and those in the books.\<close>

lemma run_outstanding:
  assumes "ctl_run cfg added returned c"
  shows "mset (map trans_key (filter (\<lambda>t. tr_type t \<noteq> TT_P_HEADER) added)) = mset returned + outstanding c"
proof -
  have "mset (map trans_key (filter (\<lambda>t. tr_type t \<noteq> TT_P_HEADER) added)) = mset returned + outstanding c \<and> (\<forall>t\<in>set added. tr_type t \<in> npu_types)"
    using assms
  proof (induction rule: ctl_run.induct)
    case (run_start n c)
    then show ?case by (auto simp: Controller_new_def outstanding_def)
  next
    case (run_add added returned c t)
    then show ?case using add_outstanding [of t c] by auto
  next
    case (run_tick added returned c c')
    have "outstanding c' = outstanding c"
      by (rule tick_induct [OF run_tick(2) run_keeps [OF run_tick(1)], where P = "\<lambda>x. outstanding x = outstanding c"]) (simp_all add: step_outstanding)
    then show ?case using run_tick by simp
  next
    case (run_done added returned c clk r c')
    show ?case
    proof (cases "r = (- 1, TT_SIZE) \<and> outstanding c' = outstanding c")
      case False
      then have o: "outstanding c = add_mset r (outstanding c')" using done_outstanding [OF run_done(2)] by blast
      then have "r \<in># mset (map trans_key (filter (\<lambda>t. tr_type t \<noteq> TT_P_HEADER) added))" using run_done.IH by simp
      then have "snd r \<in> npu_types" using run_done.IH by auto
      then have "snd r \<noteq> TT_SIZE" by (auto simp: npu_types_def)
      then show ?thesis using o run_done.IH by simp
    qed (use run_done.IH in auto)
  qed
  then show ?thesis ..
qed

subsection \<open>Reads and writes never stop the controller\<close>

text \<open>A memory with two row buffers, the layout of the repository, and refreshes that go from rank to rank.\<close>

definition rw_config :: "mem_config \<Rightarrow> bool" where
  "rw_config cfg \<longleftrightarrow> (let s = mc_structure cfg; y = mc_system cfg in wf_structure s \<and> enable_dual_buffer s \<and>
     (\<exists>c\<le>30. npu_layout c s \<and> mc_fields cfg = npu_fields c) \<and> row_buf_policy y \<noteq> ''CLOSE_PAGE'' \<and>
     refresh_policy y = RANK_LEVEL_STAGGERED \<and> \<not> enable_self_refresh y \<and> (of_int (tREFI (mc_timing cfg) sdiv 2) :: u64) \<noteq> 0)"

lemma rw_configD:
  assumes "rw_config cfg"
  shows "wf_structure (mc_structure cfg)" "enable_dual_buffer (mc_structure cfg)" "mc_ranks (mc_structure cfg) = 2" "mc_bankgroups (mc_structure cfg) = 4"
    "mc_banks_per_group (mc_structure cfg) = 4" "mc_banks (mc_structure cfg) = 16" "row_buf_policy (mc_system cfg) \<noteq> ''CLOSE_PAGE''"
    "refresh_policy (mc_system cfg) = RANK_LEVEL_STAGGERED" "\<not> enable_self_refresh (mc_system cfg)"
    "(of_int (tREFI (mc_timing cfg) sdiv 2) :: u64) \<noteq> 0"
  using assms by (auto simp: rw_config_def Let_def npu_layout_def wf_structure_def)

lemma rw_config_address:
  assumes "rw_config cfg"
  shows "in_range (mc_structure cfg) (bank_at (AddressMapping (mc_fields cfg) a))" "0 \<le> ad_row (AddressMapping (mc_fields cfg) a)"
proof -
  obtain c where c: "c \<le> 30" "mc_fields cfg = npu_fields c" using assms by (auto simp: rw_config_def Let_def)
  have f: "addr_field (drop_bit 6 a) p (mask w) = int (unat a div 64 div 2 ^ p mod 2 ^ w)" if "w \<le> 30" for p w
    using addr_field_shift [OF that, of a p] by simp
  have m: "ad_rank (AddressMapping (npu_fields c) a) = int (unat a div 64 div 2 ^ (c + 8) mod 2 ^ 1)"
    "ad_bankgroup (AddressMapping (npu_fields c) a) = int (unat a div 64 div 2 ^ (c + 6) mod 2 ^ 2)"
    "ad_bank (AddressMapping (npu_fields c) a) = int (unat a div 64 div 2 ^ (c + 4) mod 2 ^ 2)"
    "ad_row (AddressMapping (npu_fields c) a) = int (unat a div 64 div 2 ^ (c + 9) mod 2 ^ 15)"
    by (simp_all only: AddressMapping_def Let_def npu_fields_def addr_fields.simps Address.simps f [symmetric])
  show "in_range (mc_structure cfg) (bank_at (AddressMapping (mc_fields cfg) a))"
    using rw_configD [OF assms] unfolding in_range_def bank_at_def c(2) m by simp
  show "0 \<le> ad_row (AddressMapping (mc_fields cfg) a)" unfolding c(2) m by simp
qed

text \<open>A command that came from a transaction at its address.\<close>

definition from_trans :: "mem_config \<Rightarrow> Command \<Rightarrow> bool" where
  "from_trans cfg c \<longleftrightarrow> cmd_type c \<in> {CT_READ, CT_WRITE} \<and> cmd_addr c = AddressMapping (mc_fields cfg) (hex_addr c)"

definition rank_refresh :: "Command \<Rightarrow> bool" where
  "rank_refresh c \<longleftrightarrow> (\<exists>i\<in>{0, 1}. c = Command_new CT_REFRESH (Address0\<lparr>ad_rank := i\<rparr>) (- 1))"

lemma Bank_ready_returns:
  assumes "bank_inv b" "bs_dual_buffer b" "cmd_type c \<in> {CT_READ, CT_WRITE, CT_REFRESH}"
  shows "\<exists>r. Bank_GetReadyCommand c clk b = Inr r"
proof -
  have n: "\<not> IsPIMBufferCommand c" "IsNormalBufferCommand c" using assms(3) by (auto simp: command_classes)
  have "\<exists>x. required_normal c b = Inr x" using assms(1,3) by (auto simp: required_normal_def Let_def bank_inv_def)
  then show ?thesis using n assms(2) by (auto simp: GetReady_eq required_cmd_def)
qed

lemma scan_banks_returns:
  assumes "\<And>bk. bk \<in> set ids \<Longrightarrow> \<exists>r. Bank_GetReadyCommand cmd clk (bs bk) = Inr r" "\<And>bk r. \<exists>x. h bk r = Inr x"
  shows "\<exists>res. scan_banks cmd clk bs h ids n lst = Inr res"
  using assms(1)
proof (induction ids arbitrary: n lst)
  case (Cons bk ids)
  obtain r where r: "Bank_GetReadyCommand cmd clk (bs bk) = Inr r" using Cons.prems [of bk] by auto
  obtain x where x: "h bk r = Inr x" using assms(2) by blast
  have "\<exists>res. scan_banks cmd clk bs h ids n' lst' = Inr res" for n' lst' by (rule Cons.IH, rule Cons.prems) simp
  then show ?case using r x by (cases x) auto
qed simp

lemma channel_returns:
  assumes cfg: "rw_config cfg" and inv: "chan_inv (mc_structure cfg) ch" and c: "from_trans cfg c \<or> rank_refresh c"
  shows "\<exists>r. Channel_GetReadyCommand cfg c clk ch = Inr r"
proof -
  let ?s = "mc_structure cfg"
  note D = rw_configD [OF cfg]
  have b: "\<exists>r. Bank_GetReadyCommand c clk (bank_states ch bk) = Inr r" if "in_range ?s bk" for bk
    by (rule Bank_ready_returns) (use inv that c D(2) in \<open>auto simp: chan_inv_def from_trans_def rank_refresh_def Command_new_def\<close>)
  show ?thesis
  proof (cases "from_trans cfg c")
    case True
    then have "in_range ?s (bank_at (cmd_addr c))" "\<not> IsPIMHeader c" "\<not> IsChannelCMD c" "\<not> IsRankCMD c" "cmd_type c \<noteq> CT_G_ACT"
      using rw_config_address [OF cfg] by (auto simp: from_trans_def command_classes)
    then show ?thesis using b by (fastforce simp: Channel_GetReadyCommand_def Let_def)
  next
    case False
    then have r: "IsRankCMD c" "\<not> IsPIMHeader c" "\<not> IsChannelCMD c" "0 \<le> ad_rank (cmd_addr c)" "ad_rank (cmd_addr c) < mc_ranks ?s"
      using c D(3) by (auto simp: rank_refresh_def Command_new_def command_classes)
    have "\<exists>res. scan_banks c clk (bank_states ch) (hand_on_rank c) (rank_ids ?s (ad_rank (cmd_addr c))) 0 Command0 = Inr res"
      by (rule scan_banks_returns) (use b r in \<open>auto simp: set_rank_ids in_range_def hand_on_rank_def split: prod.splits\<close>)
    then show ?thesis using r by (auto simp: Channel_GetReadyCommand_def Let_def)
  qed
qed

lemma channel_askable:
  assumes "rw_config cfg" "from_trans cfg c \<or> rank_refresh c"
  shows "askable (mc_structure cfg) c ch"
  using assms rw_config_address [OF assms(1)] by (auto simp: askable_def from_trans_def rank_refresh_def Command_new_def)

text \<open>What the channel answers is executed.\<close>

lemma answer_executes:
  assumes cfg: "rw_config cfg" and inv: "chan_inv (mc_structure cfg) ch" and c: "from_trans cfg c \<or> rank_refresh c"
    and r: "Channel_GetReadyCommand cfg c clk ch = Inr r" "IsValid r"
  shows "\<exists>ch'. UpdateTimingAndStates cfg r clk ch = Inr ch' \<and> chan_inv (mc_structure cfg) ch'" "UpdateCommandStats (mc_structure cfg) r = Inr ()"
proof -
  have s: "serves c r" using r by (rule channel_ready_serves)
  then have h: "cmd_type r \<notin> {CT_P_HEADER, CT_COMP, CT_READRES, CT_PWRITE, CT_SIZE}"
    using c by (auto simp: serves_def from_trans_def rank_refresh_def Command_new_def)
  have "cmd_type r \<noteq> CT_P_HEADER" using h by simp
  note e = channel_answer [OF rw_configD(1) [OF cfg] inv r this channel_askable [OF cfg c]]
  show "\<exists>ch'. UpdateTimingAndStates cfg r clk ch = Inr ch' \<and> chan_inv (mc_structure cfg) ch'"
    using answer_ok_executes [OF e inv r(2)] h by simp
  have "in_range (mc_structure cfg) (bank_at (cmd_addr r))" if "IsReadWrite r"
    using e that by (auto simp: answer_ok_def Let_def addressed_def kinds command_classes)
  then show "UpdateCommandStats (mc_structure cfg) r = Inr ()" using h by (auto simp: UpdateCommandStats_def)
qed

definition rw_queue :: "mem_config \<Rightarrow> CommandQueue \<Rightarrow> bool" where
  "rw_queue cfg q \<longleftrightarrow> pim_cmds q = [] \<and> \<not> is_gwriting q \<and> reserved_row_for_pim q = - 1 \<and> length (cmd_queues q) = num_queues q \<and>
     queue_idx q < num_queues q \<and> num_queues q = (if cq_structure q = PER_RANK then 2 else 32) \<and> length (rank_q_empty q) = 2 \<and>
     (\<forall>i<length (cmd_queues q). \<forall>d\<in>set (cmd_queues q ! i). from_trans cfg d \<and> cmd_index (mc_structure cfg) q d = int i)"

lemma rw_queueD:
  assumes "rw_queue cfg q"
  shows "pim_cmds q = []" "\<not> is_gwriting q" "reserved_row_for_pim q = - 1" "length (cmd_queues q) = num_queues q" "queue_idx q < num_queues q"
    "num_queues q = (if cq_structure q = PER_RANK then 2 else 32)" "length (rank_q_empty q) = 2"
    "i < num_queues q \<Longrightarrow> d \<in> set (cmd_queues q ! i) \<Longrightarrow> from_trans cfg d \<and> cmd_index (mc_structure cfg) q d = int i"
  using assms by (auto simp: rw_queue_def)

lemma cmd_index_upd [simp]:
  "cmd_index s (q\<lparr>cmd_queues := l\<rparr>) c = cmd_index s q c" "cmd_index s (q\<lparr>rank_q_empty := e\<rparr>) c = cmd_index s q c"
  "cmd_index s (q\<lparr>queue_idx := i\<rparr>) c = cmd_index s q c" "cmd_index s (q\<lparr>is_in_ref := b\<rparr>) c = cmd_index s q c"
  "cmd_index s (q\<lparr>ref_q_indices := r\<rparr>) c = cmd_index s q c" "cmd_index s (q\<lparr>skip_pim := b\<rparr>) c = cmd_index s q c"
  "cmd_index s (q\<lparr>remain_slack := j\<rparr>) c = cmd_index s q c" "cmd_index s (q\<lparr>reserved_row_for_pim := j\<rparr>) c = cmd_index s q c"
  "cmd_index s (q\<lparr>cq_clk := t\<rparr>) c = cmd_index s q c" "cmd_index s (q\<lparr>total_pim_cycles := t\<rparr>) c = cmd_index s q c"
  "cmd_index s (q\<lparr>is_gwriting := b\<rparr>) c = cmd_index s q c"
  by (simp_all add: cmd_index_def GetQueueIndex_def Let_def)

lemma cmd_index_range:
  assumes "rw_config cfg" "from_trans cfg c" "rw_queue cfg q"
  shows "0 \<le> cmd_index (mc_structure cfg) q c" "nat (cmd_index (mc_structure cfg) q c) < num_queues q"
    "0 \<le> ad_rank (cmd_addr c)" "ad_rank (cmd_addr c) < 2"
proof -
  have "in_range (mc_structure cfg) (bank_at (cmd_addr c))" using rw_config_address [OF assms(1)] assms(2) by (simp add: from_trans_def)
  then have r: "0 \<le> ad_rank (cmd_addr c) \<and> ad_rank (cmd_addr c) < 2" "0 \<le> ad_bankgroup (cmd_addr c) \<and> ad_bankgroup (cmd_addr c) < 4"
    "0 \<le> ad_bank (cmd_addr c) \<and> ad_bank (cmd_addr c) < 4"
    using rw_configD [OF assms(1)] by (simp_all add: in_range_def bank_at_def)
  show "0 \<le> ad_rank (cmd_addr c)" "ad_rank (cmd_addr c) < 2" using r(1) by simp_all
  have i: "cmd_index (mc_structure cfg) q c = (if cq_structure q = PER_RANK then ad_rank (cmd_addr c)
      else ad_rank (cmd_addr c) * 16 + ad_bankgroup (cmd_addr c) * 4 + ad_bank (cmd_addr c))"
    using r rw_configD [OF assms(1)] by (auto simp: cmd_index_def GetQueueIndex_def Let_def)
  show "0 \<le> cmd_index (mc_structure cfg) q c" unfolding i using r by simp
  show "nat (cmd_index (mc_structure cfg) q c) < num_queues q" unfolding i rw_queueD(6) [OF assms(3)] using r by (auto simp: nat_less_iff)
qed

lemma first_ready_returns:
  assumes cfg: "rw_config cfg" and inv: "chan_inv (mc_structure cfg) ch" and q: "rw_queue cfg q" and cs: "\<forall>c\<in>set cs. from_trans cfg c"
  shows "\<exists>cmd. first_ready cfg ch before cs q = Inr (cmd, q)"
  using cs
proof (induction cs arbitrary: before)
  case (Cons c cs)
  then obtain cmd' where next': "first_ready cfg ch (before @ [c]) cs q = Inr (cmd', q)" by fastforce
  have c: "from_trans cfg c" "cmd_row c \<noteq> - 1" "\<not> IsGwrite c" "in_range (mc_structure cfg) (bank_at (cmd_addr c))"
    using Cons.prems rw_config_address [OF cfg, of "hex_addr c"] by (auto simp: from_trans_def IsGwrite_def)
  obtain r where r: "Channel_GetReadyCommand cfg c (cq_clk q) ch = Inr r" using channel_returns [OF cfg inv] c(1) by blast
  have p: "\<exists>b. ArbitratePrecharge (mc_structure cfg) ch before c (c # cs) = Inr b"
    using c(3,4) by (cases "\<exists>d\<in>set before. same_bank_as c d") (auto simp: ArbitratePrecharge_def Let_def intro: exI [of _ False])
  have f: "fit_slack cfg c r q = Inr (Some q)" using rw_queueD(1) [OF q] by (simp add: fit_slack_def Let_def)
  obtain go where go: "(if cmd_type r = CT_PRECHARGE then ArbitratePrecharge (mc_structure cfg) ch before c (c # cs)
      else Inr (\<not> (IsWrite r \<and> HasRWDependency before c))) = Inr go"
    using p by (cases "cmd_type r = CT_PRECHARGE") auto
  show ?case
    using next' r go f c(2) rw_queueD(2,3) [OF q] by (cases "IsValid r"; cases go) (simp_all add: Let_def)
qed simp

lemma rw_queue_upd:
  assumes "rw_queue cfg q"
  shows "rw_queue cfg (q\<lparr>ref_q_indices := r\<rparr>)" "rw_queue cfg (q\<lparr>is_in_ref := b\<rparr>)" "rw_queue cfg (q\<lparr>remain_slack := k\<rparr>)" "rw_queue cfg (q\<lparr>skip_pim := b\<rparr>)"
    "rw_queue cfg (q\<lparr>reserved_row_for_pim := - 1\<rparr>)" "rw_queue cfg (q\<lparr>cq_clk := t\<rparr>)" "rw_queue cfg (q\<lparr>total_pim_cycles := t\<rparr>)"
    "i < num_queues q \<Longrightarrow> rw_queue cfg (q\<lparr>queue_idx := i\<rparr>)" "length e = 2 \<Longrightarrow> rw_queue cfg (q\<lparr>rank_q_empty := e\<rparr>)"
  using assms by (simp_all add: rw_queue_def)

lemma rw_queue_set:
  assumes "rw_queue cfg q" "\<And>d. d \<in> set l \<Longrightarrow> from_trans cfg d \<and> cmd_index (mc_structure cfg) q d = int i"
  shows "rw_queue cfg (q\<lparr>cmd_queues := (cmd_queues q)[i := l]\<rparr>)"
  using assms by (cases "i < length (cmd_queues q)") (auto simp: rw_queue_def nth_list_update split: if_splits)

lemma erase_returns:
  assumes q: "rw_queue cfg q" and i: "i < num_queues q" and c: "c \<in> set (cmd_queues q ! i)"
    and cmd: "IsReadWrite cmd" "hex_addr cmd = hex_addr c" "cmd_type cmd = cmd_type c" "cmd_addr cmd = cmd_addr c"
  shows "\<exists>q'. EraseRWCommand (mc_structure cfg) cmd q = Inr q' \<and> rw_queue cfg q'"
proof -
  have n: "\<not> PIMQCommand cmd" using cmd(1) by (auto simp: kinds)
  have x: "cmd_index (mc_structure cfg) q cmd = int i" using rw_queueD(8) [OF q i c] cmd(4) by (simp add: cmd_index_def)
  have g: "GetQueue (mc_structure cfg) cmd q = Inr (cmd_queues q ! i)"
    using n x i rw_queueD(4) [OF q] by (simp add: GetQueue_def queue_at_def)
  have "EraseRWCommand (mc_structure cfg) cmd q = Inr (q\<lparr>cmd_queues := (cmd_queues q)[i := erase_where (\<lambda>d. hex_addr cmd = hex_addr d \<and> cmd_type cmd = cmd_type d) (cmd_queues q ! i)]\<rparr>)"
    using g c cmd n x by (auto simp: EraseRWCommand_def set_queue_def Let_def)
  moreover have "rw_queue cfg (q\<lparr>cmd_queues := (cmd_queues q)[i := erase_where p (cmd_queues q ! i)]\<rparr>)" for p
    by (rule rw_queue_set [OF q]) (use set_erase_where [of p "cmd_queues q ! i"] rw_queueD(8) [OF q i] in blast)
  ultimately show ?thesis by blast
qed

lemma issue_loop_returns:
  assumes cfg: "rw_config cfg" and inv: "chan_inv (mc_structure cfg) ch" and q: "rw_queue cfg q"
  shows "\<exists>cmd q'. issue_loop n cfg ch q = Inr (cmd, q') \<and> rw_queue cfg q' \<and> cq_clk q' = cq_clk q \<and>
     (IsValid cmd \<longrightarrow> (\<exists>c. from_trans cfg c \<and> Channel_GetReadyCommand cfg c (cq_clk q) ch = Inr cmd))"
  using q
proof (induction n arbitrary: q)
  case (Suc n)
  let ?q = "GetNextQueue q"
  have k: "rw_queue cfg ?q" "cq_clk ?q = cq_clk q"
    using rw_queue_upd(8) [OF Suc.prems] rw_queueD(5) [OF Suc.prems] by (auto simp: GetNextQueue_def)
  note IH = Suc.IH [OF k(1), unfolded k(2)]
  let ?l = "cmd_queues ?q ! queue_idx ?q"
  show ?case
  proof (cases "is_in_ref ?q \<and> int (queue_idx ?q) \<in> ref_q_indices ?q")
    case True
    then show ?thesis using IH by (simp add: Let_def)
  next
    case False
    have idx: "queue_idx ?q < num_queues ?q" "queue_idx ?q < length (cmd_queues ?q)" using rw_queueD(4,5) [OF k(1)] by simp_all
    then have l: "\<forall>c\<in>set ?l. from_trans cfg c" using rw_queueD(8) [OF k(1)] by blast
    obtain cmd where f: "first_ready cfg ch [] ?l ?q = Inr (cmd, ?q)" using first_ready_returns [OF cfg inv k(1) l] by blast
    then have f': "GetFirstReadyInQueue cfg ch ?l ?q = Inr (cmd, ?q)" by (simp add: GetFirstReadyInQueue_def)
    show ?thesis
    proof (cases "IsValid cmd")
      case True
      then obtain c where c: "c \<in> set ?l" "Channel_GetReadyCommand cfg c (cq_clk q) ch = Inr cmd"
        using first_ready_serves [OF f] k(2) by auto
      have ft: "from_trans cfg c" using l c(1) by blast
      then have rw: "IsReadWrite c" by (auto simp: from_trans_def kinds)
      have s: "serves c cmd" using c(2) True by (rule channel_ready_serves)
      show ?thesis
      proof (cases "IsReadWrite cmd")
        case rwc: True
        then have t: "cmd_type cmd = cmd_type c" "hex_addr cmd = hex_addr c" using s by (auto simp: serves_def kinds)
        obtain q' where q': "EraseRWCommand (mc_structure cfg) cmd ?q = Inr q'" "rw_queue cfg q'"
          using erase_returns [OF k(1) idx(1) c(1) rwc t(2,1) channel_ready_same [OF c(2) rw t(1)]] by blast
        have "cq_clk q' = cq_clk ?q"
          using q'(1) by (auto simp: EraseRWCommand_def set_queue_def Let_def split: if_splits)
        then show ?thesis using False idx f' True rwc q' c(2) ft k(2) by (auto simp: Let_def)
      qed (use False idx f' True k c(2) ft in \<open>auto simp: Let_def\<close>)
    next
      case inv: False
      then have "issue_loop (Suc n) cfg ch q = issue_loop n cfg ch ?q" using False idx f' by (auto simp: Let_def)
      then show ?thesis using IH by simp
    qed
  qed
qed (use q in auto)

lemma GetCommandToIssue_returns:
  assumes "rw_config cfg" "chan_inv (mc_structure cfg) ch" "rw_queue cfg q"
  shows "\<exists>cmd q'. GetCommandToIssue cfg ch slack q = Inr (cmd, q') \<and> rw_queue cfg q' \<and> cq_clk q' = cq_clk q \<and>
     (IsValid cmd \<longrightarrow> (\<exists>c. from_trans cfg c \<and> Channel_GetReadyCommand cfg c (cq_clk q) ch = Inr cmd))"
  using issue_loop_returns [OF assms, of "num_queues q"] rw_queueD(1) [OF assms(3)] by (simp add: GetCommandToIssue_def)

lemma FinishRefresh_returns:
  assumes cfg: "rw_config cfg" and inv: "chan_inv (mc_structure cfg) ch" and q: "rw_queue cfg q"
    and r: "refresh_q ch = ref # rest" "rank_refresh ref"
  shows "\<exists>cmd q'. FinishRefresh cfg ch q = Inr (cmd, q') \<and> rw_queue cfg q' \<and> cq_clk q' = cq_clk q \<and>
     Channel_GetReadyCommand cfg ref (cq_clk q) ch = Inr cmd"
proof -
  obtain cmd where cmd: "Channel_GetReadyCommand cfg ref (cq_clk q) ch = Inr cmd" using channel_returns [OF cfg inv] r(2) by blast
  have t: "cmd_type ref = CT_REFRESH" using r(2) by (auto simp: rank_refresh_def Command_new_def)
  have "mc_banks (mc_structure cfg) \<noteq> 0" using rw_configD(6) [OF cfg] by simp
  then obtain l where l: "GetRefQIndices (mc_structure cfg) ref q = Inr (q\<lparr>ref_q_indices := l\<rparr>)"
    using t by (cases "cq_structure q = PER_BANK") (auto simp: GetRefQIndices_def Let_def)
  show ?thesis
    using r(1) cmd l q by (cases "is_in_ref q") (auto simp: FinishRefresh_def intro!: rw_queue_upd)
qed

definition rw_refresh :: "mem_config \<Rightarrow> Refresh \<Rightarrow> bool" where
  "rw_refresh cfg r \<longleftrightarrow> rf_policy r = RANK_LEVEL_STAGGERED \<and> refresh_interval r = tREFI (mc_timing cfg) sdiv 2 \<and> next_rank r \<in> {0, 1}"

definition rw_inv :: "mem_config \<Rightarrow> Controller \<Rightarrow> bool" where
  "rw_inv cfg c \<longleftrightarrow> ctl_inv c \<and> rw_queue cfg (ct_queue c) \<and> chan_inv (mc_structure cfg) (ct_channel c) \<and> ct_pim_queue c = [] \<and>
     (\<forall>d\<in>set (refresh_q (ct_channel c)). rank_refresh d) \<and> rw_refresh cfg (ct_refresh c) \<and> cq_clk (ct_queue c) = ct_clk c"

lemma Refresh_returns:
  assumes cfg: "rw_config cfg" and r: "rw_refresh cfg r" and q: "\<forall>d\<in>set (refresh_q ch). rank_refresh d"
  shows "\<exists>r' ch'. Refresh_ClockTick (mc_structure cfg) r ch = Inr (r', ch') \<and> rw_refresh cfg r' \<and> (\<forall>d\<in>set (refresh_q ch'). rank_refresh d)"
proof -
  let ?s = "mc_structure cfg"
  note D = rw_configD [OF cfg]
  have "\<exists>r' ch'. InsertRefresh ?s r ch = Inr (r', ch') \<and> rw_refresh cfg r' \<and> (\<forall>d\<in>set (refresh_q ch'). rank_refresh d)"
    using r q D(3) by (auto simp: InsertRefresh_def IterateNext_def rw_refresh_def RankNeedRefresh_def rank_refresh_def)
  then show ?thesis
    using r q D(10) by (auto simp: Refresh_ClockTick_def Let_def rw_refresh_def)
qed

lemma IssueCommand_returns:
  assumes "UpdateTimingAndStates cfg cmd (ct_clk c) (ct_channel c) = Inr ch" "UpdateCommandStats (mc_structure cfg) cmd = Inr ()"
    "IsRead cmd \<Longrightarrow> at_addr (hex_addr cmd) (pending_rd_q c) \<noteq> []" "IsWrite cmd \<Longrightarrow> at_addr (hex_addr cmd) (pending_wr_q c) \<noteq> []"
    "\<not> IsPIMHeader cmd" "\<not> (IsCompsReadres cmd \<or> IsGwrite cmd)"
  shows "\<exists>c'. IssueCommand cfg cmd c = Inr c' \<and> ct_queue c' = ct_queue c \<and> ct_channel c' = ch \<and> ct_pim_queue c' = ct_pim_queue c \<and>
     ct_refresh c' = ct_refresh c \<and> ct_clk c' = ct_clk c"
proof -
  consider "IsRead cmd" | "\<not> IsRead cmd" "IsWrite cmd" | "\<not> IsRead cmd" "\<not> IsWrite cmd" by blast
  then show ?thesis by cases (use assms in \<open>simp_all add: IssueCommand_def Let_def complete_at_def\<close>)
qed

lemma issue_returns:
  assumes cfg: "rw_config cfg" and inv: "rw_inv cfg c"
  shows "\<exists>b c'. issue_one cfg c = Inr (b, c') \<and> rw_inv cfg c'"
proof -
  let ?ch = "ct_channel c" and ?s = "mc_structure cfg"
  have I: "ctl_inv c" "rw_queue cfg (ct_queue c)" "chan_inv ?s ?ch" "ct_pim_queue c = []" "\<forall>d\<in>set (refresh_q ?ch). rank_refresh d"
    "rw_refresh cfg (ct_refresh c)" "cq_clk (ct_queue c) = ct_clk c"
    using inv by (auto simp: rw_inv_def)
  define ask where "ask cmd \<longleftrightarrow> (IsValid cmd \<longrightarrow> (\<exists>d. (from_trans cfg d \<or> rank_refresh d) \<and> Channel_GetReadyCommand cfg d (ct_clk c) ?ch = Inr cmd))" for cmd
  have "\<exists>cmd q. (if refresh_q ?ch \<noteq> [] then FinishRefresh cfg ?ch (ct_queue c) else Inr (Command0, ct_queue c)) = Inr (cmd, q) \<and>
      rw_queue cfg q \<and> cq_clk q = ct_clk c \<and> ask cmd"
  proof (cases "refresh_q ?ch")
    case (Cons ref rest)
    then have ref: "rank_refresh ref" using I(5) by simp
    show ?thesis using FinishRefresh_returns [OF cfg I(3,2) Cons ref] Cons I(7) ref by (auto simp: ask_def)
  qed (use I(2,7) in \<open>simp add: ask_def\<close>)
  then obtain cmd0 q0 where 0: "(if refresh_q ?ch \<noteq> [] then FinishRefresh cfg ?ch (ct_queue c) else Inr (Command0, ct_queue c)) = Inr (cmd0, q0)"
    "rw_queue cfg q0" "cq_clk q0 = ct_clk c" "ask cmd0" by blast
  have slack: "\<exists>k. GetRefreshSlack (ct_refresh c) = Inr k"
    using I(6) rw_configD(10) [OF cfg] by (auto simp: GetRefreshSlack_def Let_def rw_refresh_def)
  then obtain k where k: "GetRefreshSlack (ct_refresh c) = Inr k" by blast
  have "\<exists>cmd q. (if IsValid cmd0 then Inr (cmd0, q0) else GetCommandToIssue cfg ?ch (snd k) q0) = Inr (cmd, q) \<and>
      rw_queue cfg q \<and> cq_clk q = ct_clk c \<and> ask cmd"
    using 0(2-4) GetCommandToIssue_returns [OF cfg I(3) 0(2), of "snd k"] by (auto simp: ask_def)
  then obtain cmd q where 1: "(if IsValid cmd0 then Inr (cmd0, q0) else GetCommandToIssue cfg ?ch (snd k) q0) = Inr (cmd, q)"
    "rw_queue cfg q" "cq_clk q = ct_clk c" "ask cmd" by blast
  have e: "issue_one cfg c = (let c = c\<lparr>ct_queue := q\<rparr> in
     if IsValid cmd then bindE (IssueCommand cfg cmd c) (\<lambda>c. Inr (True, c)) else Inr (False, c))"
    using 0(1) 1(1) k by (cases k) (simp add: issue_one_def split: if_splits)
  have ty: "ctl_types c" using I(1) by (simp add: ctl_inv_def)
  show ?thesis
  proof (cases "IsValid cmd")
    case False
    then have r: "issue_one cfg c = Inr (False, c\<lparr>ct_queue := q\<rparr>)" using e by simp
    then obtain cmd' q' where q': "taken (ct_queue c) cmd' q'" "\<not> IsValid cmd'" "c\<lparr>ct_queue := q\<rparr> = c\<lparr>ct_queue := q'\<rparr>"
      using issue_one_step [OF r ty] by auto
    have "q' = q" using arg_cong [OF q'(3), of ct_queue] by simp
    then have "unmoved (ct_queue c) q" using q'(1,2) taken_invalid by blast
    then have "ctl_inv (c\<lparr>ct_queue := q\<rparr>)" using ctl_step_keeps [OF step_ask I(1)] by blast
    then show ?thesis using r 1(2,3) I by (auto simp: rw_inv_def intro: exI [of _ False])
  next
    case True
    then obtain d where d: "from_trans cfg d \<or> rank_refresh d" "Channel_GetReadyCommand cfg d (ct_clk c) ?ch = Inr cmd" using 1(4) by (auto simp: ask_def)
    note x = answer_executes [OF cfg I(3) d True]
    then obtain ch where ch: "UpdateTimingAndStates cfg cmd (ct_clk c) ?ch = Inr ch" "chan_inv ?s ch" by blast
    have t: "taken (ct_queue c) cmd q"
    proof (cases "IsValid cmd0")
      case v: True
      then have "refresh_q ?ch \<noteq> []" "FinishRefresh cfg ?ch (ct_queue c) = Inr (cmd, q)" using 0(1) 1(1) by (auto split: if_splits)
      then show ?thesis using FinishRefresh_unmoved ty by (auto simp: ctl_types_def refreshes_only_def)
    next
      case False
      then have "GetCommandToIssue cfg ?ch (snd k) q0 = Inr (cmd, q)" using 1(1) by simp
      moreover have u: "unmoved (ct_queue c) q0"
        using 0(1) FinishRefresh_unmoved ty by (auto simp: ctl_types_def refreshes_only_def split: if_splits)
      moreover have "queue_types q0" using unmoved_types [OF u] ty by (simp add: ctl_types_def)
      ultimately show ?thesis using GetCommandToIssue_taken unmoved_taken by blast
    qed
    have s: "serves d cmd" using d(2) True by (rule channel_ready_serves)
    then have n: "\<not> IsPIMHeader cmd" "\<not> (IsCompsReadres cmd \<or> IsGwrite cmd)"
      using d(1) by (auto simp: serves_def from_trans_def rank_refresh_def Command_new_def kinds)
    have q: "queue_types (ct_queue c)" using ty by (simp add: ctl_types_def)
    note W = on_its_wayD [OF I(1) [unfolded ctl_inv_def, THEN conjunct2], of "hex_addr cmd"]
    have rd: "at_addr (hex_addr cmd) (pending_rd_q c) \<noteq> []" if k: "IsRead cmd"
    proof -
      obtain d where "matches cmd d" "cmd_type d \<in> {CT_READ, CT_WRITE}" "rw_cmds (ct_queue c) = add_mset d (rw_cmds q)"
        using taken_rw_cmds [OF t _ q] k by (auto simp: IsReadWrite_def)
      then show ?thesis using W(1) \<open>IsRead cmd\<close> by (auto simp: reads_at_def matches_def IsRead_def)
    qed
    have wr: "at_addr (hex_addr cmd) (pending_wr_q c) \<noteq> []" if k: "IsWrite cmd"
    proof -
      obtain d where "matches cmd d" "cmd_type d \<in> {CT_READ, CT_WRITE}" "rw_cmds (ct_queue c) = add_mset d (rw_cmds q)"
        using taken_rw_cmds [OF t _ q] k by (auto simp: IsReadWrite_def)
      then show ?thesis using W(2) \<open>IsWrite cmd\<close> by (auto simp: writes_at_def matches_def IsWrite_def)
    qed
    obtain c' where c': "IssueCommand cfg cmd (c\<lparr>ct_queue := q\<rparr>) = Inr c'" "ct_queue c' = q" "ct_channel c' = ch" "ct_pim_queue c' = ct_pim_queue c"
      "ct_refresh c' = ct_refresh c" "ct_clk c' = ct_clk c"
using IssueCommand_returns [of cfg cmd "c\<lparr>ct_queue := q\<rparr>" ch] n rd wr ch(1) x(2) by auto
    have "ctl_inv c'" by (rule issue_keeps [OF I(1) t c'(1)])
    moreover have "\<forall>d\<in>set (refresh_q ch). rank_refresh d" using UpdateTimingAndStates_refresh_q [OF ch(1)] I(5) by blast
    ultimately have "rw_inv cfg c'" using 1(2,3) ch(2) I(4,6) c' by (simp add: rw_inv_def)
    then show ?thesis using e True c'(1) by (auto intro: exI [of _ True])
  qed
qed

lemma AddCommand_returns:
  assumes cfg: "rw_config cfg" and q: "rw_queue cfg q" and c: "from_trans cfg cmd"
  shows "\<exists>ok q'. AddCommand (mc_structure cfg) cmd q = Inr (ok, q') \<and> rw_queue cfg q' \<and> cq_clk q' = cq_clk q"
proof -
  let ?i = "nat (cmd_index (mc_structure cfg) q cmd)"
  note R = cmd_index_range [OF cfg c q]
  have n: "\<not> PIMQCommand cmd" using c by (auto simp: from_trans_def kinds)
  have g: "GetQueue (mc_structure cfg) cmd q = Inr (cmd_queues q ! ?i)"
    using n R(1,2) rw_queueD(4) [OF q] by (simp add: GetQueue_def queue_at_def)
  have r: "ad_rank (cmd_addr cmd) \<noteq> - 1" "nat (ad_rank (cmd_addr cmd)) < length (rank_q_empty q)" using R(3,4) rw_queueD(7) [OF q] by auto
  have "rw_queue cfg (q\<lparr>cmd_queues := (cmd_queues q)[?i := cmd_queues q ! ?i @ [cmd]]\<rparr>)"
  proof (rule rw_queue_set [OF q])
    fix d assume "d \<in> set (cmd_queues q ! ?i @ [cmd])"
    then consider "d \<in> set (cmd_queues q ! ?i)" | "d = cmd" by auto
    then show "from_trans cfg d \<and> cmd_index (mc_structure cfg) q d = int ?i"
    proof cases
      case 1
      then show ?thesis by (rule rw_queueD(8) [OF q R(2)])
    qed (use c R(1) in simp)
  qed
  then have "rw_queue cfg (q\<lparr>cmd_queues := (cmd_queues q)[?i := cmd_queues q ! ?i @ [cmd]],
      rank_q_empty := (rank_q_empty q)[nat (ad_rank (cmd_addr cmd)) := False]\<rparr>)"
    by (rule rw_queue_upd(9)) (simp add: rw_queueD(7) [OF q])
  moreover have "AddCommand (mc_structure cfg) cmd q = (if length (cmd_queues q ! ?i) < queue_size q
      then Inr (True, q\<lparr>cmd_queues := (cmd_queues q)[?i := cmd_queues q ! ?i @ [cmd]],
        rank_q_empty := (rank_q_empty q)[nat (ad_rank (cmd_addr cmd)) := False]\<rparr>) else Inr (False, q))"
    unfolding AddCommand_def g bindE_simps Let_def using r n R(3) by (simp add: set_queue_def)
  ultimately show ?thesis using q by (cases "length (cmd_queues q ! ?i) < queue_size q") (simp_all, blast+)
qed

lemma schedule_returns:
  assumes cfg: "rw_config cfg" and inv: "rw_inv cfg c"
  shows "\<exists>c'. ScheduleTransaction cfg c = Inr c' \<and> rw_inv cfg c'"
proof -
  let ?s = "mc_structure cfg"
  have work: "rw_inv cfg c2" if "same_work c1 c2" "rw_inv cfg c1" for c1 c2
    using that same_work_fields [OF that(1)] ctl_inv_work [OF that(1)] by (simp add: rw_inv_def)
  define c0 where "c0 = start_draining cfg c"
  have i0: "rw_inv cfg c0" unfolding c0_def by (rule work [OF start_draining_work inv])
  define w where "w = queue_to_schedule c0"
  have w: "w \<noteq> PIM_Q" using i0 by (auto simp: w_def queue_to_schedule_def GetPIMQueueSize_def Let_def rw_inv_def split: if_splits)
  have ty: "tr_type t = (if w = READ_Q then TT_READ else TT_WRITE)" if "t \<in> set (trans_queue w c0)" for t
    using that i0 w by (cases w) (auto simp: rw_inv_def ctl_inv_def ctl_types_def trans_queue_def)
  have q: "rw_queue cfg (ct_queue c0)" using i0 by (simp add: rw_inv_def)
  have cmd: "\<exists>cmd. TransToCommand cfg t = Inr cmd \<and> from_trans cfg cmd \<and> \<not> IsGwrite cmd" if "t \<in> set (trans_queue w c0)" for t
    using ty [OF that] rw_configD(7) [OF cfg] by (simp add: TransToCommand_def Let_def from_trans_def Command_new_def IsGwrite_def Command0_def)
  have loop: "\<exists>c'. schedule_loop cfg w before ts c0 = Inr c' \<and> (ctl_inv c' \<longrightarrow> rw_inv cfg c')" if "set ts \<subseteq> set (trans_queue w c0)" for before ts
    using that
  proof (induction ts arbitrary: before)
    case Nil
    then show ?case using i0 by simp
  next
    case (Cons t ts)
    then obtain cm where cm: "TransToCommand cfg t = Inr cm" "from_trans cfg cm" "\<not> IsGwrite cm" using cmd [of t] by auto
    note R = cmd_index_range [OF cfg cm(2) q]
    have "GetQueueIndex ?s (ct_queue c0) (ad_rank (cmd_addr cm)) (ad_bankgroup (cmd_addr cm)) (ad_bank (cmd_addr cm)) = cmd_index ?s (ct_queue c0) cm"
      by (simp add: cmd_index_def Let_def)
    then obtain ok where ok: "WillAcceptCommand ?s (ct_queue c0) (ad_rank (cmd_addr cm)) (ad_bankgroup (cmd_addr cm)) (ad_bank (cmd_addr cm)) = Inr ok"
      using R rw_queueD(4) [OF q] by (auto simp: WillAcceptCommand_def queue_at_def)
    obtain b q' where a: "AddCommand ?s cm (ct_queue c0) = Inr (b, q')" "rw_queue cfg q'" "cq_clk q' = cq_clk (ct_queue c0)"
      using AddCommand_returns [OF cfg q cm(2)] by blast
    have e: "\<exists>c'. enqueue ?s w (before @ ts) cm c0 = Inr c' \<and> (ctl_inv c' \<longrightarrow> rw_inv cfg c')"
    proof -
      define c1 where "c1 = (if IsWrite cm then c0\<lparr>write_draining := write_draining c0 - 1\<rparr> else c0)"
      define c2 where "c2 = (if IsRead cm \<and> rw_dependency_lock c1 \<and> rw_dependency_addr c1 = hex_addr cm
          then c1\<lparr>rw_dependency_addr := 0, rw_dependency_lock := False\<rparr> else c1)"
      have "same_work c0 c2" by (simp add: c1_def c2_def same_work_def)
      note S = same_work_fields [OF this]
      have "enqueue ?s w (before @ ts) cm c0 = Inr (set_trans_queue w (before @ ts) (c2\<lparr>ct_queue := q'\<rparr>))"
        using a(1) S(3) unfolding enqueue_def Let_def c1_def [symmetric] c2_def [symmetric] by simp
      moreover have "rw_inv cfg (set_trans_queue w l (c2\<lparr>ct_queue := q'\<rparr>))" if "ctl_inv (set_trans_queue w l (c2\<lparr>ct_queue := q'\<rparr>))" for l
        using that i0 a(2,3) w unfolding rw_inv_def by (cases w) (simp_all add: set_trans_queue_def S)
      ultimately show ?thesis by blast
    qed
    show ?case
    proof (cases ok)
      case False
      then show ?thesis using Cons cm ok by (simp add: Let_def)
    next
      case True
      show ?thesis
      proof (cases "if IsWrite cm then write_waits t c0 else None")
        case (Some c1)
        then have "same_work c0 c1" using write_waits_work by (auto split: if_splits)
        then show ?thesis using Some True cm ok work [OF _ i0] by (simp add: Let_def)
      qed (use e True cm ok in \<open>simp add: Let_def\<close>)
    qed
  qed
  obtain c' where c': "schedule_loop cfg w [] (trans_queue w c0) c0 = Inr c'" "ctl_inv c' \<longrightarrow> rw_inv cfg c'" using loop by blast
  then have s: "ScheduleTransaction cfg c = Inr c'" by (simp add: ScheduleTransaction_def Let_def c0_def w_def)
  moreover have "ctl_inv c" using inv by (simp add: rw_inv_def)
  ultimately show ?thesis using c'(2) schedule_keeps by blast
qed

lemma tick_returns:
  assumes cfg: "rw_config cfg" and inv: "rw_inv cfg c"
  shows "\<exists>c'. Controller_ClockTick cfg c = Inr c' \<and> rw_inv cfg c'"
proof -
  let ?s = "mc_structure cfg"
  obtain r ch where r: "Refresh_ClockTick ?s (ct_refresh c) (ct_channel c) = Inr (r, ch)" "rw_refresh cfg r" "\<forall>d\<in>set (refresh_q ch). rank_refresh d"
    using Refresh_returns [OF cfg] inv unfolding rw_inv_def by blast
  let ?c1 = "c\<lparr>ct_refresh := r, ct_channel := ch\<rparr>"
  have "ctl_inv ?c1" using ctl_step_keeps [OF step_refresh [OF r(1)]] inv by (simp add: rw_inv_def)
  moreover have "chan_inv ?s ch" using Refresh_ClockTick_channel [OF r(1)] inv by (simp add: rw_inv_def chan_inv_def)
  ultimately have 1: "rw_inv cfg ?c1" using r inv by (simp add: rw_inv_def)
  then obtain b c2 where 2: "issue_one cfg ?c1 = Inr (b, c2)" "rw_inv cfg c2" using issue_returns [OF cfg] by blast
  let ?c3 = "c2\<lparr>ct_channel := count_idle ?s (ct_channel c2)\<rparr>"
  have "ctl_inv ?c3" using ctl_step_keeps [OF step_idle] 2(2) by (simp add: rw_inv_def)
  then have 3: "rw_inv cfg ?c3" using 2(2) count_idle_channel by (simp add: rw_inv_def chan_inv_def)
  then obtain c4 where 4: "ScheduleTransaction cfg ?c3 = Inr c4" "rw_inv cfg c4" using schedule_returns [OF cfg] by blast
  let ?c5 = "c4\<lparr>ct_clk := ct_clk c4 + 1, ct_queue := Queue_ClockTick (ct_queue c4)\<rparr>"
  have "ctl_inv ?c5" using ctl_step_keeps [OF step_clock] 4(2) by (simp add: rw_inv_def)
  moreover have "rw_queue cfg (Queue_ClockTick (ct_queue c4))" "cq_clk (Queue_ClockTick (ct_queue c4)) = cq_clk (ct_queue c4) + 1"
    using 4(2) by (auto simp: rw_inv_def Queue_ClockTick_def intro!: rw_queue_upd)
  ultimately have "rw_inv cfg ?c5" using 4(2) by (simp add: rw_inv_def)
  moreover have "Controller_ClockTick cfg c = Inr ?c5"
    using r(1) 2(1) 4(1) rw_configD(9) [OF cfg] by (simp add: Controller_ClockTick_def Let_def)
  ultimately show ?thesis by blast
qed

lemma rw_inv_new:
  assumes cfg: "rw_config cfg" and c: "Controller_new n cfg = Inr c"
  shows "rw_inv cfg c"
proof -
  note D = rw_configD [OF cfg]
  have "ctl_inv c" using c by (rule ctl_inv_new)
  moreover obtain q r where q: "CommandQueue_new cfg = Inr q" and r: "Refresh_new cfg = Inr r"
    and e: "c = \<lparr>ct_clk = 0, ct_channel = ChannelState_new n cfg, ct_queue = q, ct_refresh = r, read_queue = [], write_buffer = [],
       ct_pim_queue = [], pending_rd_q = [], pending_wr_q = [], pending_pim_q = [], return_queue = [], last_trans_clk = 0,
       rw_dependency_lock = False, rw_dependency_addr = 0, write_draining = 0\<rparr>"
    using c by (auto simp: Controller_new_def)
  have "rw_queue cfg q" "cq_clk q = 0"
    using q D by (auto simp: CommandQueue_new_def Let_def rw_queue_def split: if_splits)
  moreover have "rw_refresh cfg r" using r D by (auto simp: Refresh_new_def Let_def rw_refresh_def int_div_def)
  moreover have "refresh_q (ChannelState_new n cfg) = []" by (simp add: ChannelState_new_def)
  ultimately show ?thesis using chan_inv_new [of cfg n] by (simp add: rw_inv_def e)
qed

lemma rw_inv_add:
  assumes "rw_inv cfg c" "tr_type t \<in> {TT_READ, TT_WRITE}"
  shows "rw_inv cfg (AddTransaction t c)"
proof -
  have "ctl_inv (AddTransaction t c)" using add_keeps assms by (auto simp: rw_inv_def npu_types_def)
  then show ?thesis using assms by (auto simp: rw_inv_def AddTransaction_def Let_def)
qed

lemma rw_inv_done:
  assumes "rw_inv cfg c" "ReturnDoneTrans clk c = (r, c')"
  shows "rw_inv cfg c'"
proof -
  have "ctl_inv c'" using done_keeps [OF _ assms(2)] assms(1) by (simp add: rw_inv_def)
  moreover have "rw_queue cfg q \<Longrightarrow> rw_queue cfg (FinishGwrite q)" "cq_clk (FinishGwrite q) = cq_clk q" for q
    by (simp_all add: rw_queue_def FinishGwrite_def)
  ultimately show ?thesis using assms by (auto simp: rw_inv_def ReturnDoneTrans_def Let_def split: list.splits if_splits)
qed

lemma rw_run_inv:
  "ctl_run cfg added returned c \<Longrightarrow> rw_config cfg \<Longrightarrow> \<forall>t\<in>set added. tr_type t \<in> {TT_READ, TT_WRITE} \<Longrightarrow> rw_inv cfg c"
proof (induction rule: ctl_run.induct)
  case (run_add added returned c t)
  then show ?case by (intro rw_inv_add) auto
next
  case (run_tick added returned c c')
  then show ?case using tick_returns [OF run_tick(4)] by fastforce
next
  case (run_done added returned c clk r c')
  then show ?case using rw_inv_done by blast
qed (rule rw_inv_new)

text \<open>
  Ordinary traffic never stops the simulator.  With the memory layout of the repository, two row
  buffers and refreshes from rank to rank, a controller that was given nothing but reads and writes
  completes any number of clock ticks: no assertion fails, no \<open>exit\<close> is reached (no bank is asked for a
  command its state excludes, no command is missing from the queues or the pending maps), no queue or
  vector is accessed out of range, whatever the addresses and the order of arrivals, ticks and returns.
\<close>

theorem rw_controller_never_stops:
  assumes "rw_config cfg" "ctl_run cfg added returned c" "\<forall>t\<in>set added. tr_type t \<in> {TT_READ, TT_WRITE}"
  shows "\<exists>c'. iterE n (Controller_ClockTick cfg) c = Inr c' \<and> ctl_run cfg added returned c'"
proof -
  have "ctl_run cfg added returned c \<Longrightarrow> rw_inv cfg c \<Longrightarrow> \<exists>c'. iterE n (Controller_ClockTick cfg) c = Inr c' \<and> ctl_run cfg added returned c'"
  proof (induction n arbitrary: c)
    case (Suc n)
    obtain c1 where c1: "Controller_ClockTick cfg c = Inr c1" "rw_inv cfg c1" using tick_returns [OF assms(1) Suc.prems(2)] by blast
    show ?case using Suc.IH [OF run_tick [OF Suc.prems(1) c1(1)] c1(2)] c1(1) by simp
  qed simp
  then show ?thesis using assms(2) rw_run_inv [OF assms(2,1,3)] by blast
qed

lemma hbm2_rw: "rw_config hbm2_config"
proof -
  have "wf_structure (mc_structure hbm2_config) \<and> enable_dual_buffer (mc_structure hbm2_config)" using hbm2_facts by (simp add: hbm2_facts_def Let_def)
  moreover have "refresh_policy (mc_system hbm2_config) = RANK_LEVEL_STAGGERED \<and> \<not> enable_self_refresh (mc_system hbm2_config) \<and>
      (of_int (tREFI (mc_timing hbm2_config) sdiv 2) :: u64) \<noteq> 0" by code_simp
  ultimately show ?thesis using hbm2_config by (auto simp: rw_config_def Let_def intro!: exI [of _ 5])
qed

lemma hbm2_starts: "\<exists>c. Controller_new 0 hbm2_config = Inr c \<and> read_queue c = []"
proof -
  have "returns (CommandQueue_new hbm2_config) \<and> returns (Refresh_new hbm2_config)" by code_simp
  then show ?thesis by (auto simp: Controller_new_def returns_iff)
qed

definition demo_read_trans :: Transaction where
  "demo_read_trans = \<lparr>tr_addr = 4096, added_cycle = 0, complete_cycle = 0, tr_type = TT_READ\<rparr>"

lemma hbm2_run: "\<exists>c. ctl_run hbm2_config [demo_read_trans] [] c"
proof -
  obtain c where c: "Controller_new 0 hbm2_config = Inr c" "read_queue c = []" using hbm2_starts by blast
  have "0 < capacity hbm2_config" by code_simp
  then have "WillAcceptTransaction hbm2_config TT_READ c = Inr True" using c(2) by (simp add: WillAcceptTransaction_def)
  then have "ctl_run hbm2_config ([] @ [demo_read_trans]) [] (AddTransaction demo_read_trans c)"
    by (intro run_add run_start [OF c(1)]) (simp_all add: demo_read_trans_def npu_types_def)
  then show ?thesis by auto
qed

theorem rw_controller_never_stops_witness:
  "\<exists>c c'. ctl_run hbm2_config [demo_read_trans] [] c \<and> iterE 1000 (Controller_ClockTick hbm2_config) c = Inr c'"
proof -
  obtain c where c: "ctl_run hbm2_config [demo_read_trans] [] c" using hbm2_run by blast
  have "\<forall>t\<in>set [demo_read_trans]. tr_type t \<in> {TT_READ, TT_WRITE}" by (simp add: demo_read_trans_def)
  then show ?thesis using rw_controller_never_stops [OF hbm2_rw c] c by blast
qed

subsection \<open>No look-up fails\<close>

lemma step_static: "ctl_step cfg c c' \<Longrightarrow> ctl_inv c \<Longrightarrow> static (ct_queue c') = static (ct_queue c)"
proof (induction rule: ctl_step.induct)
  case (step_ask c q)
  then show ?case by (simp add: unmoved_def static_def shape_def)
next
  case (step_issue c cmd q c')
  from step_issue(2) show ?case by (cases rule: IssueCommand_run) (use taken_static [OF step_issue(1)] in \<open>simp_all add: complete_at_def\<close>)
next
  case (step_schedule c c')
  from step_schedule(1) show ?case
  proof (cases rule: schedule_cases)
    case (moves w c0 pre t post)
    then have "ctl_types c0" using step_schedule(2) ctl_inv_work by (auto simp: ctl_inv_def)
    from moves(4) this moves(3) have "static (ct_queue c') = static (ct_queue c0)"
    proof (cases rule: moved_cases)
      case (rw cmd q)
      then show ?thesis using same_work_fields(3) [OF rw(4)] by (cases w) (simp_all add: set_trans_queue_def)
    next
      case (pim cmd ok q)
      then show ?thesis using same_work_fields(3) [OF pim(5)] by simp
    qed
    then show ?thesis using same_work_fields(3) [OF moves(1)] by simp
  qed (simp add: same_work_fields)
qed (simp_all add: Queue_ClockTick_def static_def)

definition cmd_capacity :: "mem_config \<Rightarrow> nat" where
  "cmd_capacity cfg = unat (of_int (cmd_queue_size (mc_system cfg)) :: u64)"

lemma run_limits:
  "ctl_run cfg added returned c \<Longrightarrow> queue_size (ct_queue c) = cmd_capacity cfg \<and> pim_cmd_queue_size (ct_queue c) = 128"
proof (induction rule: ctl_run.induct)
  case (run_start n c)
  then show ?case by (auto simp: Controller_new_def CommandQueue_new_def cmd_capacity_def Let_def split: if_splits)
next
  case (run_tick added returned c c')
  have "static (ct_queue c') = static (ct_queue c)"
    by (rule tick_induct [OF run_tick(2) run_keeps [OF run_tick(1)], where P = "\<lambda>x. static (ct_queue x) = static (ct_queue c)"]) (simp_all add: step_static)
  then show ?case using run_tick.IH static_limits by metis
next
  case (run_done added returned c clk r c')
  then show ?case by (auto simp: ReturnDoneTrans_def Let_def FinishGwrite_def split: list.splits if_splits)
qed (auto simp: AddTransaction_def Let_def)

text \<open>
  C6: What is pending and what is on its way.  In every reachable state, an address with pending reads
  has exactly one read on its way to the memory, in the read queue or in a command queue, and other addresses have
  none; the writes on their way are the pending ones; and no more operations in memory are on their way
  than are pending, exactly as many when the command queue is at least as long as the one for operations
  in memory.  So the look-ups of \<open>IssueCommand\<close> succeed for every command that the queues hand out, and
  its three exits are never reached.
\<close>

theorem pending_on_its_way:
  assumes "ctl_run cfg added returned c"
  shows "(\<forall>a. reads_at a c = (if at_addr a (pending_rd_q c) = [] then 0 else 1) \<and> writes_at a c = length (at_addr a (pending_wr_q c)) \<and>
       (if 128 \<le> cmd_capacity cfg then pims_at a c = length (at_addr a (pending_pim_q c)) else pims_at a c \<le> length (at_addr a (pending_pim_q c)))) \<and>
    (\<forall>ch slack cmd q. GetCommandToIssue cfg ch slack (ct_queue c) = Inr (cmd, q) \<longrightarrow>
       (IsRead cmd \<longrightarrow> at_addr (hex_addr cmd) (pending_rd_q c) \<noteq> []) \<and> (IsWrite cmd \<longrightarrow> at_addr (hex_addr cmd) (pending_wr_q c) \<noteq> []) \<and>
       (IsCompsReadres cmd \<or> IsGwrite cmd \<longrightarrow> at_addr (hex_addr cmd) (pending_pim_q c) \<noteq> []))"
proof -
  have inv: "ctl_inv c" by (rule run_keeps [OF assms])
  then have ty: "queue_types (ct_queue c)" by (simp add: ctl_inv_def ctl_types_def)
  note D = on_its_wayD [OF inv [unfolded ctl_inv_def, THEN conjunct2]]
  have found: "(IsRead cmd \<longrightarrow> at_addr (hex_addr cmd) (pending_rd_q c) \<noteq> []) \<and> (IsWrite cmd \<longrightarrow> at_addr (hex_addr cmd) (pending_wr_q c) \<noteq> []) \<and>
       (IsCompsReadres cmd \<or> IsGwrite cmd \<longrightarrow> at_addr (hex_addr cmd) (pending_pim_q c) \<noteq> [])"
    if "GetCommandToIssue cfg ch slack (ct_queue c) = Inr (cmd, q)" for ch slack cmd q
  proof -
    have t: "taken (ct_queue c) cmd q" using that ty by (rule GetCommandToIssue_taken)
    have rw: "\<exists>d. hex_addr d = hex_addr cmd \<and> cmd_type d = cmd_type cmd \<and> cmd_type d \<in> {CT_READ, CT_WRITE} \<and> rw_cmds (ct_queue c) = add_mset d (rw_cmds q)"
      if "IsReadWrite cmd"
      using taken_rw_cmds [OF t that ty] by (auto simp: matches_def)
    have pim: "\<exists>d. hex_addr d = hex_addr cmd \<and> cmd_type d = cmd_type cmd \<and> pim_cmds (ct_queue c) = d # pim_cmds q" if "IsCompsReadres cmd \<or> IsGwrite cmd"
    proof -
      have "\<not> IsReadWrite cmd" "PIMQCommand cmd" using that by (auto simp: kinds)
      then show ?thesis using taken_keeps(2) [OF t] by (auto simp: matches_def)
    qed
    show ?thesis
      using rw pim D(1-3) [of "hex_addr cmd"]
      by (auto simp: IsReadWrite_def reads_at_def writes_at_def pims_at_def IsRead_def IsWrite_def IsCompsReadres_def IsGwrite_def)
  qed
  show ?thesis using D run_limits [OF assms] found by auto
qed

theorem pending_on_its_way_witness:
  "\<exists>c. ctl_run hbm2_config [demo_read_trans] [] c \<and> reads_at 4096 c = 1 \<and> reads_at 8192 c = 0"
proof -
  obtain c0 where c0: "Controller_new 0 hbm2_config = Inr c0" "read_queue c0 = []" using hbm2_starts by blast
  let ?c = "AddTransaction demo_read_trans c0"
  have "0 < capacity hbm2_config" by code_simp
  then have "WillAcceptTransaction hbm2_config TT_READ c0 = Inr True" using c0(2) by (simp add: WillAcceptTransaction_def)
  then have "ctl_run hbm2_config ([] @ [demo_read_trans]) [] ?c"
    by (intro run_add run_start [OF c0(1)]) (simp_all add: demo_read_trans_def npu_types_def)
  then have run: "ctl_run hbm2_config [demo_read_trans] [] ?c" by simp
  have "map tr_addr (pending_rd_q ?c) = [4096]" using c0(1) by (auto simp: Controller_new_def AddTransaction_def demo_read_trans_def Let_def)
  then have "at_addr 4096 (pending_rd_q ?c) \<noteq> []" "at_addr 8192 (pending_rd_q ?c) = []" by (auto simp: at_addr_def)
  then show ?thesis using pending_on_its_way [OF run] run by (intro exI [of _ ?c]) simp
qed

subsection \<open>Operations in memory run in order\<close>

definition pim_stream :: "mem_config \<Rightarrow> Controller \<Rightarrow> (fault + Command) list" where
  "pim_stream cfg c = map Inr (pim_cmds (ct_queue c)) @ map (TransToCommand cfg) (ct_pim_queue c)"

abbreviation is_pim :: "Transaction \<Rightarrow> bool" where
  "is_pim t \<equiv> tr_type t \<in> {TT_GWRITE, TT_P_HEADER, TT_COMPS_READRES}"

lemma pim_accepts:
  assumes "TransToCommand cfg t = Inr cmd" "is_pim t"
  shows "WillAcceptCommand s q (if IsGwrite cmd then - 1 else ad_rank (cmd_addr cmd)) bg ba = Inr (length (pim_cmds q) < pim_cmd_queue_size q)"
    "PIMQCommand cmd" "\<not> IsWrite cmd"
proof -
  note k = TransToCommand_kind [OF assms(1)]
  have "(if IsGwrite cmd then - 1 else ad_rank (cmd_addr cmd)) = - 1" using k assms(2) by (auto simp: IsGwrite_def)
  then show "WillAcceptCommand s q (if IsGwrite cmd then - 1 else ad_rank (cmd_addr cmd)) bg ba = Inr (length (pim_cmds q) < pim_cmd_queue_size q)"
    by (simp only: WillAcceptCommand_def) simp
  show "PIMQCommand cmd" "\<not> IsWrite cmd" using k assms(2) by (auto simp: kinds)
qed

lemma pim_full:
  assumes "schedule_loop cfg w before ts c = Inr c'" "\<forall>t\<in>set ts. is_pim t" "\<not> length (pim_cmds (ct_queue c)) < pim_cmd_queue_size (ct_queue c)"
  shows "c' = c"
  using assms(1,2)
proof (induction ts arbitrary: before)
  case (Cons t ts)
  then obtain cmd where cmd: "TransToCommand cfg t = Inr cmd" by auto
  have "is_pim t" using Cons.prems by simp
  then have "schedule_loop cfg w (before @ [t]) ts c = Inr c'"
    using Cons.prems(1) pim_accepts(1) [OF cmd] assms(3) by (simp add: Let_def cmd)
  then show ?case using Cons.IH Cons.prems(2) by simp
qed simp

lemma schedule_pim_head:
  assumes "schedule_loop cfg PIM_Q [] (t # post) c = Inr c'" "\<forall>t'\<in>set (t # post). is_pim t'"
  shows "c' = c \<or> moved cfg PIM_Q [] t post c c'"
proof (cases "length (pim_cmds (ct_queue c)) < pim_cmd_queue_size (ct_queue c)")
  case True
  obtain cmd where cmd: "TransToCommand cfg t = Inr cmd" using assms(1) by auto
  note a = pim_accepts [OF cmd]
  have "enqueue (mc_structure cfg) PIM_Q ([] @ post) cmd c = Inr c'" using assms a True by (auto simp: Let_def cmd)
  then show ?thesis using enqueue_moved [where pre = "[]" and t = t] cmd a(1) assms(2) True by simp
qed (use pim_full [OF assms] in simp)

text \<open>What scheduling does to the operations in memory.\<close>

lemma schedule_pim:
  assumes "ScheduleTransaction cfg c = Inr c'" "ctl_inv c"
  obtains (same) "ct_pim_queue c' = ct_pim_queue c" "pim_cmds (ct_queue c') = pim_cmds (ct_queue c)" "pending_pim_q c' = pending_pim_q c"
  | (head) t cmd where "ct_pim_queue c = t # ct_pim_queue c'" "TransToCommand cfg t = Inr cmd" "hex_addr cmd = tr_addr t"
      "(tr_type t, cmd_type cmd) \<in> {(TT_GWRITE, CT_GWRITE), (TT_P_HEADER, CT_P_HEADER), (TT_COMPS_READRES, CT_COMPS_READRES)}"
      "pim_cmds (ct_queue c') = (if length (pim_cmds (ct_queue c)) < queue_size (ct_queue c) then pim_cmds (ct_queue c) @ [cmd] else pim_cmds (ct_queue c))"
      "pending_pim_q c' = pending_pim_q c" "length (pim_cmds (ct_queue c)) < pim_cmd_queue_size (ct_queue c)"
proof -
  define c0 where "c0 = start_draining cfg c"
  define w where "w = queue_to_schedule c0"
  have sw: "same_work c c0" unfolding c0_def by (rule start_draining_work)
  note S = same_work_fields [OF sw]
  have ty: "ctl_types c0" using ctl_types_work [OF sw] assms(2) by (simp add: ctl_inv_def)
  have l: "schedule_loop cfg w [] (trans_queue w c0) c0 = Inr c'"
    using assms(1) by (simp add: ScheduleTransaction_def Let_def c0_def w_def)
  have "same_work c0 c' \<or> (\<exists>pre t post. trans_queue w c0 = pre @ t # post \<and> moved cfg w pre t post c0 c' \<and> (w = PIM_Q \<longrightarrow> pre = []))"
  proof (cases "w = PIM_Q \<and> trans_queue w c0 \<noteq> []")
    case True
    then obtain t post where tp: "trans_queue w c0 = t # post" by (meson neq_Nil_conv)
    then have "\<forall>t'\<in>set (t # post). is_pim t'" using ty True by (auto simp: ctl_types_def trans_queue_def)
    then show ?thesis using schedule_pim_head [of cfg t post c0 c'] l tp True same_work_refl by fastforce
  next
    case False
    then have "w = PIM_Q \<Longrightarrow> c' = c0" using l by simp
    then show ?thesis using schedule_loop_moves [OF l] same_work_refl by auto
  qed
  then show thesis
  proof (elim disjE exE conjE)
    assume "same_work c0 c'"
    then show thesis using same same_work_fields S by metis
  next
    fix pre t post assume m: "trans_queue w c0 = pre @ t # post" "moved cfg w pre t post c0 c'" "w = PIM_Q \<longrightarrow> pre = []"
    from m(2) ty m(1) show thesis
    proof (cases rule: moved_cases)
      case (rw cmd q)
      note R = same_work_fields [OF rw(4)]
      show thesis by (rule same) (use R rw(1,6) S in \<open>cases w; simp add: set_trans_queue_def\<close>)+
    next
      case (pim cmd ok q)
      note R = same_work_fields [OF pim(5)]
      have tq: "ct_pim_queue c0 = t # post" using m(1,3) pim(1) by (simp add: trans_queue_def)
      show thesis by (rule head [of t cmd]) (use R pim m(3) tq S in simp_all)
    qed
  qed
qed

lemma schedule_stream:
  assumes "ScheduleTransaction cfg c = Inr c'" "ctl_inv c" "pim_cmd_queue_size (ct_queue c) \<le> queue_size (ct_queue c)"
  shows "pim_stream cfg c' = pim_stream cfg c"
  using assms(1,2) by (cases rule: schedule_pim) (use assms(3) in \<open>simp_all add: pim_stream_def\<close>)

lemma step_stream:
  assumes "ctl_step cfg c c'" "ctl_inv c" "pim_cmd_queue_size (ct_queue c) \<le> queue_size (ct_queue c)"
  shows "\<exists>gone. pim_stream cfg c = gone @ pim_stream cfg c'"
  using assms
proof (induction rule: ctl_step.induct)
  case (step_ask c q)
  then show ?case by (simp add: pim_stream_def unmoved_def)
next
  case (step_issue c cmd q c')
  have "\<exists>gone. map Inr (pim_cmds (ct_queue c)) = gone @ (map Inr (pim_cmds q) :: (fault + Command) list)"
    using step_issue(1)
  proof cases
    case (taken_pim d)
    then show ?thesis by (intro exI [of _ "[Inr d]"]) simp
  qed auto
  moreover have "ct_queue c' = q \<and> ct_pim_queue c' = ct_pim_queue c"
    using step_issue(2) by (cases rule: IssueCommand_run) (simp_all add: complete_at_def)
  ultimately show ?case by (auto simp: pim_stream_def)
next
  case (step_schedule c c')
  then show ?case using schedule_stream by fastforce
qed (simp_all add: pim_stream_def Queue_ClockTick_def)

text \<open>
  C8: The operations in memory are neither lost nor reordered on the way to the banks, provided the command
  queue has the 128 entries that the queue for operations in memory has: the commands waiting to be
  issued, followed by the transactions waiting to be decoded, are at any time the tail of the sequence
  in which the headers, buffer writes and computations arrived.
\<close>

theorem pim_stream_in_order:
  assumes "ctl_run cfg added returned c" "128 \<le> cmd_capacity cfg"
  shows "\<exists>executed. map (TransToCommand cfg) (filter is_pim added) = executed @ pim_stream cfg c"
  using assms(1)
proof (induction rule: ctl_run.induct)
  case (run_start n c)
  then show ?case by (auto simp: Controller_new_def CommandQueue_new_def pim_stream_def Let_def split: if_splits)
next
  case (run_add added returned c t)
  have "TransToCommand cfg (t\<lparr>added_cycle := k\<rparr>) = TransToCommand cfg t" for k
    by (cases "tr_type t") (simp_all add: TransToCommand_def DecodePIMHeader_def DecodePIMTransaction_def cong: if_cong)
  then have "pim_stream cfg (AddTransaction t c) = pim_stream cfg c @ map (TransToCommand cfg) (filter is_pim [t])"
    using run_add(2) by (auto simp: pim_stream_def AddTransaction_def Let_def npu_types_def)
  then show ?case using run_add.IH by auto
next
  case (run_tick added returned c c')
  have lim: "pim_cmd_queue_size (ct_queue c) \<le> queue_size (ct_queue c)" using run_limits [OF run_tick(1)] assms(2) by simp
  have "(\<exists>gone. pim_stream cfg c = gone @ pim_stream cfg c') \<and> static (ct_queue c') = static (ct_queue c)"
  proof (rule tick_induct [OF run_tick(2) run_keeps [OF run_tick(1)], where P = "\<lambda>x. (\<exists>gone. pim_stream cfg c = gone @ pim_stream cfg x) \<and> static (ct_queue x) = static (ct_queue c)"])
    fix c1 c2
    assume s: "ctl_step cfg c1 c2" "ctl_inv c1" and h: "(\<exists>gone. pim_stream cfg c = gone @ pim_stream cfg c1) \<and> static (ct_queue c1) = static (ct_queue c)"
    obtain d1 where d1: "pim_stream cfg c = d1 @ pim_stream cfg c1" using h by blast
    obtain d2 where d2: "pim_stream cfg c1 = d2 @ pim_stream cfg c2"
      using step_stream [OF s] lim h static_limits by metis
    have "pim_stream cfg c = (d1 @ d2) @ pim_stream cfg c2" using d1 d2 by simp
    then show "(\<exists>gone. pim_stream cfg c = gone @ pim_stream cfg c2) \<and> static (ct_queue c2) = static (ct_queue c)"
      using step_static [OF s] h by metis
  qed simp
  then show ?case using run_tick.IH by (metis append_assoc)
next
  case (run_done added returned c clk r c')
  have "pim_stream cfg c' = pim_stream cfg c"
    using run_done(2) by (auto simp: ReturnDoneTrans_def Let_def pim_stream_def FinishGwrite_def split: list.splits if_splits)
  then show ?case using run_done.IH by simp
qed
subsection \<open>What can still be answered\<close>

text \<open>The operations in memory that wait as a transaction or as a command, in their order, and all that can still be answered.\<close>

definition cmd_key :: "Command \<Rightarrow> u64 \<times> TransactionType" where
  "cmd_key d = (hex_addr d, if cmd_type d = CT_GWRITE then TT_GWRITE else TT_COMPS_READRES)"

definition pim_keys :: "Controller \<Rightarrow> (u64 \<times> TransactionType) list" where
  "pim_keys c = map cmd_key (filter (\<lambda>d. cmd_type d \<noteq> CT_P_HEADER) (pim_cmds (ct_queue c))) @
     map trans_key (filter (\<lambda>t. tr_type t \<noteq> TT_P_HEADER) (ct_pim_queue c))"

definition answerable :: "Controller \<Rightarrow> (u64 \<times> TransactionType) multiset" where
  "answerable c = mset (map trans_key (filter (\<lambda>t. 0 < reads_at (tr_addr t) c) (pending_rd_q c)) @ pim_keys c @ map trans_key (return_queue c))"

lemma pims_at_keys:
  assumes "ctl_inv c"
  shows "pims_at a c = count (mset (map fst (pim_keys c))) a"
proof -
  have "length (at_addr a ts) = count (mset (map tr_addr ts)) a" for ts by (induction ts) auto
  moreover have "cmds_at a {CT_GWRITE, CT_COMPS_READRES} (mset ds) = count (mset (map hex_addr (filter (\<lambda>d. cmd_type d \<noteq> CT_P_HEADER) ds))) a"
    if "\<forall>d\<in>set ds. cmd_type d \<in> {CT_GWRITE, CT_P_HEADER, CT_COMPS_READRES}" for ds
    using that by (induction ds) auto
  moreover have "\<forall>d\<in>set (pim_cmds (ct_queue c)). cmd_type d \<in> {CT_GWRITE, CT_P_HEADER, CT_COMPS_READRES}"
    using assms by (auto simp: ctl_inv_def ctl_types_def queue_types_def)
  ultimately show ?thesis by (simp add: pims_at_def pim_keys_def cmd_key_def comp_def del: mset_map)
qed

lemma reads_all_coming:
  assumes "ctl_inv c"
  shows "filter (\<lambda>t. 0 < reads_at (tr_addr t) c) (pending_rd_q c) = pending_rd_q c"
proof (rule filter_True, rule)
  fix t assume "t \<in> set (pending_rd_q c)"
  then have "at_addr (tr_addr t) (pending_rd_q c) \<noteq> []" by (auto simp: at_addr_def filter_empty_conv)
  then show "0 < reads_at (tr_addr t) c" using on_its_wayD(1) assms by (simp add: ctl_inv_def)
qed

lemma answerable_outstanding:
  assumes "ctl_inv c"
  shows "image_mset fst (answerable c) \<subseteq># image_mset fst (outstanding c)"
proof -
  have "mset (map fst (pim_keys c)) \<subseteq># mset (map tr_addr (pending_pim_q c))"
  proof (rule mset_subset_eqI)
    fix a
    have "length (at_addr a ts) = count (mset (map tr_addr ts)) a" for ts by (induction ts) auto
    then show "count (mset (map fst (pim_keys c))) a \<le> count (mset (map tr_addr (pending_pim_q c))) a"
      using on_its_wayD(3) [of c a] assms pims_at_keys [OF assms, of a] by (simp add: ctl_inv_def)
  qed
  then show ?thesis by (simp add: answerable_def outstanding_def reads_all_coming [OF assms] multiset.map_comp comp_def ac_simps)
qed

text \<open>What a command that is issued does to the operations in memory.\<close>

lemma issue_pim:
  assumes "taken (ct_queue c) cmd q" "IssueCommand cfg cmd (c\<lparr>ct_queue := q\<rparr>) = Inr c'" "ctl_inv c"
  obtains (same) "pim_cmds (ct_queue c') = pim_cmds (ct_queue c)" "pending_pim_q c' = pending_pim_q c" "ct_pim_queue c' = ct_pim_queue c"
  | (starts) d where "pim_cmds (ct_queue c) = d # pim_cmds (ct_queue c')" "cmd_type d = CT_P_HEADER" "pending_pim_q c' = pending_pim_q c"
      "ct_pim_queue c' = ct_pim_queue c"
  | (answered) d where "pim_cmds (ct_queue c) = d # pim_cmds (ct_queue c')" "cmd_type d \<in> {CT_GWRITE, CT_COMPS_READRES}"
      "at_addr (hex_addr d) (pending_pim_q c) \<noteq> []" "pending_pim_q c' = erase_where (\<lambda>x. tr_addr x = hex_addr d) (pending_pim_q c)"
      "ct_pim_queue c' = ct_pim_queue c"
proof -
  have ty: "queue_types (ct_queue c)" using assms(3) by (simp add: ctl_inv_def ctl_types_def)
  have rw: "pim_cmds q = pim_cmds (ct_queue c)" if "IsReadWrite cmd" using taken_rw_cmds [OF assms(1) that ty] by blast
  from assms(2) show thesis
  proof (cases rule: IssueCommand_run)
    case (read ch)
    then show thesis using same rw by (simp add: complete_at_def IsReadWrite_def)
  next
    case (written ch)
    then show thesis using same rw by (simp add: IsReadWrite_def)
  next
    case (pim x xs ch)
    then have "\<not> IsReadWrite cmd" "PIMQCommand cmd" by (auto simp: kinds)
    then obtain d where d: "matches cmd d" "pim_cmds (ct_queue c) = d # pim_cmds q" using taken_keeps(2) [OF assms(1)] by blast
    then show thesis using pim by (intro answered [of d]) (auto simp: complete_at_def matches_def kinds)
  next
    case header
    then have "\<not> IsReadWrite cmd" "PIMQCommand cmd" by (auto simp: kinds)
    then obtain d where d: "matches cmd d" "pim_cmds (ct_queue c) = d # pim_cmds q" using taken_keeps(2) [OF assms(1)] by blast
    then show thesis using header by (intro starts [of d]) (auto simp: matches_def kinds)
  next
    case (other ch)
    have "\<not> PIMQCommand cmd"
    proof
      assume "PIMQCommand cmd"
      then obtain d where "matches cmd d" "pim_cmds (ct_queue c) = d # pim_cmds q" using taken_keeps(2) [OF assms(1) other(1)] by blast
      then show False using ty other(2,3) by (auto simp: queue_types_def matches_def kinds)
    qed
    then show thesis using same taken_keeps(3) [OF assms(1) other(1)] other(4) by simp
  qed
qed

text \<open>With a command queue that is long enough, the pending operations are those under way, in order.\<close>

lemma step_keys:
  assumes "ctl_step cfg c c'" "ctl_inv c" "pim_cmd_queue_size (ct_queue c) \<le> queue_size (ct_queue c)"
    and "map trans_key (pending_pim_q c) = pim_keys c"
  shows "map trans_key (pending_pim_q c') = pim_keys c'"
  using assms
proof (induction rule: ctl_step.induct)
  case (step_ask c q)
  then show ?case by (simp add: pim_keys_def unmoved_def)
next
  case (step_issue c cmd q c')
  from step_issue(1-3) show ?case
  proof (cases rule: issue_pim)
    case (answered d)
    then have "map trans_key (pending_pim_q c) = cmd_key d # pim_keys c'" using step_issue.prems(3) by (auto simp: pim_keys_def)
    then obtain y ys where "pending_pim_q c = y # ys" "tr_addr y = hex_addr d" "map trans_key ys = pim_keys c'" by (auto simp: cmd_key_def)
    then show ?thesis using answered(4) by simp
  qed (use step_issue.prems(3) in \<open>simp_all add: pim_keys_def\<close>)
next
  case (step_schedule c c')
  from step_schedule(1,2) show ?case
    by (cases rule: schedule_pim) (use step_schedule(3,4) in \<open>auto simp: pim_keys_def cmd_key_def\<close>)
qed (simp_all add: pim_keys_def Queue_ClockTick_def)

text \<open>Without this condition, a gap between the two never closes.\<close>

definition missing_at :: "u64 \<Rightarrow> Controller \<Rightarrow> int" where
  "missing_at a c = int (length (at_addr a (pending_pim_q c))) - int (pims_at a c)"

lemma step_missing:
  assumes "ctl_step cfg c c'" "ctl_inv c"
  shows "missing_at a c \<le> missing_at a c'"
  using assms
proof (induction rule: ctl_step.induct)
  case (step_ask c q)
  then show ?case by (simp add: missing_at_def pims_at_def unmoved_def)
next
  case (step_issue c cmd q c')
  from step_issue(1-3) show ?case
  proof (cases rule: issue_pim)
    case (answered d)
    then have "pims_at a c = pims_at a c' + (if a = hex_addr d then 1 else 0)" by (auto simp: pims_at_def)
    moreover have "length (at_addr a (pending_pim_q c)) = length (at_addr a (pending_pim_q c')) + (if a = hex_addr d then 1 else 0)"
      using answered(3,4) by (auto simp: at_addr_erase neq_Nil_conv)
    ultimately show ?thesis by (simp add: missing_at_def)
  qed (simp_all add: missing_at_def pims_at_def)
next
  case (step_schedule c c')
  from step_schedule(1,2) show ?case
    by (cases rule: schedule_pim) (auto simp: missing_at_def pims_at_def)
qed (simp_all add: missing_at_def pims_at_def Queue_ClockTick_def)

lemma run_keys:
  assumes "ctl_run cfg added returned c" "128 \<le> cmd_capacity cfg"
  shows "map trans_key (pending_pim_q c) = pim_keys c"
  using assms(1)
proof (induction rule: ctl_run.induct)
  case (run_start n c)
  then show ?case by (auto simp: Controller_new_def CommandQueue_new_def pim_keys_def Let_def split: if_splits)
next
  case (run_add added returned c t)
  then show ?case by (auto simp: pim_keys_def AddTransaction_def Let_def npu_types_def)
next
  case (run_tick added returned c c')
  have "static (ct_queue c') = static (ct_queue c) \<and> map trans_key (pending_pim_q c') = pim_keys c'"
  proof (rule tick_induct [OF run_tick(2) run_keeps [OF run_tick(1)],
        where P = "\<lambda>x. static (ct_queue x) = static (ct_queue c) \<and> map trans_key (pending_pim_q x) = pim_keys x"])
    fix c1 c2
    assume s: "ctl_step cfg c1 c2" "ctl_inv c1" and h: "static (ct_queue c1) = static (ct_queue c) \<and> map trans_key (pending_pim_q c1) = pim_keys c1"
    have "pim_cmd_queue_size (ct_queue c1) \<le> queue_size (ct_queue c1)"
      using run_limits [OF run_tick(1)] assms(2) static_limits h by metis
    then show "static (ct_queue c2) = static (ct_queue c) \<and> map trans_key (pending_pim_q c2) = pim_keys c2"
      using step_static [OF s] step_keys [OF s] h by simp
  qed (use run_tick.IH in simp)
  then show ?case ..
next
  case (run_done added returned c clk r c')
  then show ?case
    by (auto simp: ReturnDoneTrans_def Let_def pim_keys_def FinishGwrite_def split: list.splits if_splits)
qed

text \<open>
  C4: The controller conserves its transactions.  At every point of a run, the transactions added so far,
  the headers apart, which nobody waits for, are those returned so far and those in the controller's books
  (the pending maps and the return queue), each counted with its address and type: no answer is
  doubled or given for a transaction never made.  The books are covered: when the command queue
  is as long as the one for operations in memory (128 entries), the transactions in the books are
  exactly those that can still be answered, because a read of their address is on its way, because they or their
  command wait in a queue, or because they wait to be returned; none is lost.  With a shorter command queue those that can
  be answered are, address by address, at most the ones in the books; C7 shows how the others are lost.
\<close>

theorem controller_conserves:
  assumes "ctl_run cfg added returned c"
  shows "mset (map trans_key (filter (\<lambda>t. tr_type t \<noteq> TT_P_HEADER) added)) = mset returned + outstanding c \<and>
    (128 \<le> cmd_capacity cfg \<longrightarrow> outstanding c = answerable c) \<and>
    image_mset fst (answerable c) \<subseteq># image_mset fst (outstanding c)"
proof -
  have inv: "ctl_inv c" by (rule run_keeps [OF assms])
  have "outstanding c = answerable c" if "128 \<le> cmd_capacity cfg"
    using run_keys [OF assms that] reads_all_coming [OF inv] by (simp add: outstanding_def answerable_def)
  then show ?thesis using run_outstanding [OF assms] answerable_outstanding [OF inv] by blast
qed

subsection \<open>A short command queue loses operations\<close>

text \<open>The transaction leaves its buffer, but its command does not enter the queue.\<close>

lemma schedule_drops:
  assumes "ctl_inv c" "queue_to_schedule (start_draining cfg c) = PIM_Q" "ct_pim_queue c = t # ts" "tr_type t \<in> {TT_GWRITE, TT_COMPS_READRES}"
    and "row_buf_policy (mc_system cfg) \<noteq> ''CLOSE_PAGE''"
    and "queue_size (ct_queue c) \<le> length (pim_cmds (ct_queue c))" "length (pim_cmds (ct_queue c)) < pim_cmd_queue_size (ct_queue c)"
  shows "\<exists>c'. ScheduleTransaction cfg c = Inr c' \<and> ct_pim_queue c' = ts \<and> pim_cmds (ct_queue c') = pim_cmds (ct_queue c) \<and>
    pending_pim_q c' = pending_pim_q c \<and> pims_at (tr_addr t) c' < length (at_addr (tr_addr t) (pending_pim_q c'))"
proof -
  define c0 where "c0 = start_draining cfg c"
  have sw: "same_work c c0" unfolding c0_def by (rule start_draining_work)
  note S = same_work_fields [OF sw]
  obtain cmd where cmd: "TransToCommand cfg t = Inr cmd"
    using assms(4,5) by (auto simp: TransToCommand_def DecodePIMTransaction_def Let_def)
  have pim: "is_pim t" using assms(4) by auto
  note a = pim_accepts [OF cmd pim]
  have ro: "\<not> IsRead cmd" using a(2) by (auto simp: kinds)
  have "AddCommand (mc_structure cfg) cmd (ct_queue c0) = Inr (False, ct_queue c0)"
    using a(2) assms(6) S(3) by (simp add: AddCommand_def GetQueue_def Let_def)
  then have e: "enqueue (mc_structure cfg) PIM_Q ts cmd c0 = Inr (c0\<lparr>ct_pim_queue := ts, ct_queue := ct_queue c0\<rparr>)"
    using a(3) ro by (simp add: enqueue_def Let_def set_trans_queue_def)
  have "WillAcceptCommand (mc_structure cfg) (ct_queue c0) (if IsGwrite cmd then - 1 else ad_rank (cmd_addr cmd)) bg ba = Inr True" for bg ba
    using a(1) assms(7) S(3) by simp
  then have "schedule_loop cfg PIM_Q [] (t # ts) c0 = Inr (c0\<lparr>ct_pim_queue := ts\<rparr>)"
    using e a(3) by (simp add: Let_def cmd)
  then have s: "ScheduleTransaction cfg c = Inr (c0\<lparr>ct_pim_queue := ts\<rparr>)"
    using assms(2,3) S(7) by (simp add: ScheduleTransaction_def Let_def c0_def trans_queue_def)
  have "pims_at (tr_addr t) c \<le> length (at_addr (tr_addr t) (pending_pim_q c))" using assms(1) by (simp add: ctl_inv_def on_its_way_def)
  moreover have "pims_at (tr_addr t) c = pims_at (tr_addr t) (c0\<lparr>ct_pim_queue := ts\<rparr>) + 1" using assms(3,4) S(3) by (auto simp: pims_at_def)
  ultimately show ?thesis using s S by simp
qed

text \<open>How a run goes on.\<close>

inductive ctl_later :: "mem_config \<Rightarrow> Transaction list \<Rightarrow> (u64 \<times> TransactionType) list \<Rightarrow> Controller \<Rightarrow>
    Transaction list \<Rightarrow> (u64 \<times> TransactionType) list \<Rightarrow> Controller \<Rightarrow> bool" for cfg added returned c where
  ctl_now: "ctl_later cfg added returned c added returned c"
| ctl_add: "ctl_later cfg added returned c added' returned' d \<Longrightarrow> tr_type t \<in> npu_types \<Longrightarrow> WillAcceptTransaction cfg (tr_type t) d = Inr True \<Longrightarrow>
    ctl_later cfg added returned c (added' @ [t]) returned' (AddTransaction t d)"
| ctl_tick: "ctl_later cfg added returned c added' returned' d \<Longrightarrow> Controller_ClockTick cfg d = Inr d' \<Longrightarrow>
    ctl_later cfg added returned c added' returned' d'"
| ctl_done: "ctl_later cfg added returned c added' returned' d \<Longrightarrow> ReturnDoneTrans clk d = (r, d') \<Longrightarrow>
    ctl_later cfg added returned c added' (if snd r = TT_SIZE then returned' else returned' @ [r]) d'"

lemma later_run: "ctl_later cfg added returned c added' returned' d \<Longrightarrow> ctl_run cfg added returned c \<Longrightarrow> ctl_run cfg added' returned' d"
proof (induction rule: ctl_later.induct)
  case (ctl_done added' returned' d clk r d')
  show ?case by (rule run_done [OF _ ctl_done(2)]) (rule ctl_done.IH [OF ctl_done.prems])
qed (blast intro: run_add run_tick)+

lemma later_missing:
  "ctl_later cfg added returned c added' returned' d \<Longrightarrow> ctl_run cfg added returned c \<Longrightarrow> missing_at a c \<le> missing_at a d"
proof (induction rule: ctl_later.induct)
  case (ctl_add added' returned' d t)
  then show ?case by (auto simp: missing_at_def pims_at_def AddTransaction_def Let_def npu_types_def)
next
  case (ctl_tick added' returned' d d')
  have "ctl_inv d" using run_keeps later_run ctl_tick by blast
  from tick_induct [OF ctl_tick(2) this, of "\<lambda>x. missing_at a d \<le> missing_at a x"] show ?case
    using step_missing order_trans ctl_tick by (metis order_refl)
next
  case (ctl_done added' returned' d clk r d')
  have "missing_at a d' = missing_at a d"
    using ctl_done(2) by (auto simp: ReturnDoneTrans_def Let_def missing_at_def pims_at_def FinishGwrite_def split: list.splits if_splits)
  then show ?case using ctl_done by simp
qed simp

text \<open>What is missing is asked for, but neither returned nor to be answered.\<close>

lemma count_at_addr: "count (mset (map tr_addr ts)) a = length (at_addr a ts)"
  by (induction ts) auto

lemma run_missing:
  assumes "ctl_run cfg added returned c"
  shows "int (count (mset (map fst returned)) a) + int (count (image_mset fst (answerable c)) a) + missing_at a c =
    int (length (at_addr a (filter (\<lambda>t. tr_type t \<noteq> TT_P_HEADER) added)))"
proof -
  have inv: "ctl_inv c" by (rule run_keeps [OF assms])
  have "image_mset fst (mset (map trans_key (filter (\<lambda>t. tr_type t \<noteq> TT_P_HEADER) added))) = image_mset fst (mset returned + outstanding c)"
    using run_outstanding [OF assms] by (rule arg_cong)
  then have "mset (map tr_addr (filter (\<lambda>t. tr_type t \<noteq> TT_P_HEADER) added)) = mset (map fst returned) + image_mset fst (outstanding c)"
    by (simp add: multiset.map_comp comp_def)
  then have a: "length (at_addr a (filter (\<lambda>t. tr_type t \<noteq> TT_P_HEADER) added)) = count (mset (map fst returned)) a + count (image_mset fst (outstanding c)) a"
    unfolding count_at_addr [symmetric] by (metis count_union)
  have "image_mset fst (outstanding c) = mset (map tr_addr (pending_rd_q c)) + mset (map tr_addr (pending_pim_q c)) + mset (map tr_addr (return_queue c))"
    by (simp add: outstanding_def multiset.map_comp comp_def)
  moreover have "image_mset fst (answerable c) = mset (map tr_addr (pending_rd_q c)) + mset (map fst (pim_keys c)) + mset (map tr_addr (return_queue c))"
    by (simp add: answerable_def reads_all_coming [OF inv] multiset.map_comp comp_def)
  ultimately have "int (count (image_mset fst (outstanding c)) a) = int (count (image_mset fst (answerable c)) a) + missing_at a c"
    using pims_at_keys [OF inv, of a] count_at_addr [of "pending_pim_q c" a] by (simp add: missing_at_def)
  then show ?thesis using a by simp
qed

lemma steps_static: "(ctl_step cfg)\<^sup>*\<^sup>* c c' \<Longrightarrow> ctl_inv c \<Longrightarrow> static (ct_queue c') = static (ct_queue c)"
proof (induction rule: rtranclp_induct)
  case (step y z)
  then show ?case using step_static steps_keep by metis
qed simp


text \<open>
  C7: With a command queue shorter than the queue for operations in memory (8 entries in most of the
  configuration files, against 128), a tick loses an operation when the queue is full and the controller
  turns to the operations in memory: \<open>WillAcceptCommand\<close> looks at the one bound, \<open>AddCommand\<close> at the
  other, and its answer is ignored.  The transaction leaves its buffer without a command, and this is for good:
  after whatever later arrivals, ticks and returns, the operations returned for its address, together with
  everything that can still be answered there, are fewer than those that were added.
\<close>

theorem pim_transaction_lost:
  assumes "ctl_run cfg added returned c" "before_schedule cfg c = Inr c1" "queue_to_schedule (start_draining cfg c1) = PIM_Q"
    and "ct_pim_queue c1 = t # ts" "tr_type t \<in> {TT_GWRITE, TT_COMPS_READRES}" "row_buf_policy (mc_system cfg) \<noteq> ''CLOSE_PAGE''"
    and "cmd_capacity cfg \<le> length (pim_cmds (ct_queue c1))" "length (pim_cmds (ct_queue c1)) < 128"
  shows "\<exists>c'. Controller_ClockTick cfg c = Inr c' \<and> ct_pim_queue c' = ts \<and> pim_cmds (ct_queue c') = pim_cmds (ct_queue c1) \<and>
    (\<forall>added' returned' d. ctl_later cfg added returned c' added' returned' d \<longrightarrow>
       count (mset (map fst returned')) (tr_addr t) + count (image_mset fst (answerable d)) (tr_addr t) <
         length (at_addr (tr_addr t) (filter (\<lambda>t. tr_type t \<noteq> TT_P_HEADER) added')))"
proof -
  have "(ctl_step cfg)\<^sup>*\<^sup>* c c1" using assms(1,2) run_keeps before_schedule_steps by blast
  then have inv1: "ctl_inv c1" and st1: "static (ct_queue c1) = static (ct_queue c)"
    using assms(1) run_keeps steps_keep steps_static by blast+
  have lim: "queue_size (ct_queue c1) = cmd_capacity cfg" "pim_cmd_queue_size (ct_queue c1) = 128"
    using run_limits [OF assms(1)] static_limits [OF st1] by simp_all
  obtain c2 where c2: "ScheduleTransaction cfg c1 = Inr c2" "ct_pim_queue c2 = ts" "pim_cmds (ct_queue c2) = pim_cmds (ct_queue c1)"
    "pims_at (tr_addr t) c2 < length (at_addr (tr_addr t) (pending_pim_q c2))"
    using schedule_drops [OF inv1 assms(3-6)] assms(7,8) lim by auto
  define c' where "c' = c2\<lparr>ct_clk := ct_clk c2 + 1, ct_queue := Queue_ClockTick (ct_queue c2)\<rparr>"
  have tick: "Controller_ClockTick cfg c = Inr c'" using assms(2) c2(1) by (simp add: tick_split c'_def)
  then have run: "ctl_run cfg added returned c'" by (rule run_tick [OF assms(1)])
  have m: "0 < missing_at (tr_addr t) c'" using c2(4) by (simp add: missing_at_def pims_at_def c'_def Queue_ClockTick_def)
  have "count (mset (map fst returned')) (tr_addr t) + count (image_mset fst (answerable d)) (tr_addr t) <
      length (at_addr (tr_addr t) (filter (\<lambda>t. tr_type t \<noteq> TT_P_HEADER) added'))"
    if l: "ctl_later cfg added returned c' added' returned' d" for added' returned' d
    using run_missing [OF later_run [OF l run], of "tr_addr t"] later_missing [OF l run, of "tr_addr t"] m by linarith
  then show ?thesis using tick c2(2,3) by (auto simp: c'_def Queue_ClockTick_def)
qed

lemma run_adds:
  "ctl_run cfg added returned c \<Longrightarrow> list_all is_pim ts \<Longrightarrow> length (ct_pim_queue c) + length ts \<le> capacity cfg \<Longrightarrow>
     ctl_run cfg (added @ ts) returned (fold AddTransaction ts c)"
proof (induction ts arbitrary: added c)
  case (Cons t ts)
  have "WillAcceptTransaction cfg (tr_type t) c = Inr True" "tr_type t \<in> npu_types" "length (ct_pim_queue (AddTransaction t c)) = Suc (length (ct_pim_queue c))"
    using Cons.prems by (auto simp: WillAcceptTransaction_def npu_types_def AddTransaction_def Let_def ast_def)
  then show ?case using Cons.IH [OF run_add [OF Cons.prems(1)], of t] Cons.prems by simp
qed simp

lemma run_ticks: "iterE n (Controller_ClockTick cfg) c = Inr c' \<Longrightarrow> ctl_run cfg added returned c \<Longrightarrow> ctl_run cfg added returned c'"
  by (induction n arbitrary: c) (auto intro: run_tick)

subsection \<open>Witnesses\<close>

definition demo_comps :: Transaction where
  "demo_comps = \<lparr>tr_addr = 4096, added_cycle = 0, complete_cycle = 0, tr_type = TT_COMPS_READRES\<rparr>"

definition short_queues :: mem_config where
  "short_queues = hbm2_config\<lparr>mc_system := (mc_system hbm2_config)\<lparr>cmd_queue_size := 8\<rparr>\<rparr>"

text \<open>
  A header whose computations do not fit in front of the next refresh holds up the queue, while eight
  computations arrive behind it.
\<close>

definition long_header :: Transaction where
  "long_header = \<lparr>tr_addr = 491520, added_cycle = 0, complete_cycle = 0, tr_type = TT_P_HEADER\<rparr>"

definition demo_arrivals :: "Transaction list" where
  "demo_arrivals = long_header # replicate 8 demo_comps"

definition demo_eight :: "fault + Controller" where
  "demo_eight = (case Controller_new 0 short_queues of Inl e \<Rightarrow> Inl e
     | Inr c \<Rightarrow> iterE 8 (Controller_ClockTick short_queues) (fold AddTransaction demo_arrivals c))"

definition demo_before :: "(QueueToSchedule \<times> (u64 \<times> TransactionType) list \<times> nat) option" where
  "demo_before = (case demo_eight of Inl _ \<Rightarrow> None | Inr c \<Rightarrow> (case before_schedule short_queues c of Inl _ \<Rightarrow> None
     | Inr c \<Rightarrow> Some (queue_to_schedule (start_draining short_queues c), map (\<lambda>t. (tr_addr t, tr_type t)) (ct_pim_queue c), length (pim_cmds (ct_queue c)))))"

lemma demo_eight_full: "demo_before = Some (PIM_Q, [(4096, TT_COMPS_READRES)], 8)"
  by code_simp

lemma short_queues_facts: "cmd_capacity short_queues = 8 \<and> row_buf_policy (mc_system short_queues) \<noteq> ''CLOSE_PAGE'' \<and> 9 \<le> capacity short_queues"
  by code_simp

theorem pim_transaction_lost_witness:
  "\<exists>c c'. ctl_run short_queues demo_arrivals [] c \<and> Controller_ClockTick short_queues c = Inr c' \<and> ct_pim_queue c' = [] \<and>
     (\<forall>added' returned' d. ctl_later short_queues demo_arrivals [] c' added' returned' d \<longrightarrow>
        count (mset (map fst returned')) 4096 < length (at_addr 4096 (filter (\<lambda>t. tr_type t \<noteq> TT_P_HEADER) added')))"
proof -
  obtain c c1 where c: "demo_eight = Inr c" "before_schedule short_queues c = Inr c1" and c1: "queue_to_schedule (start_draining short_queues c1) = PIM_Q"
    "map (\<lambda>t. (tr_addr t, tr_type t)) (ct_pim_queue c1) = [(4096, TT_COMPS_READRES)]" "length (pim_cmds (ct_queue c1)) = 8"
    using demo_eight_full by (auto simp: demo_before_def split: sum.splits)
  from c(1) obtain c0 where c0: "Controller_new 0 short_queues = Inr c0"
    "iterE 8 (Controller_ClockTick short_queues) (fold AddTransaction demo_arrivals c0) = Inr c" by (auto simp: demo_eight_def split: sum.splits)
  have "ctl_run short_queues ([] @ demo_arrivals) [] (fold AddTransaction demo_arrivals c0)"
    using short_queues_facts c0(1) by (intro run_adds run_start [OF c0(1)])
      (auto simp: Controller_new_def demo_arrivals_def long_header_def demo_comps_def list_all_iff)
  then have run: "ctl_run short_queues demo_arrivals [] c" using run_ticks [OF c0(2)] by simp
  obtain t where t: "ct_pim_queue c1 = [t]" "tr_addr t = 4096" "tr_type t = TT_COMPS_READRES" using c1(2) by auto
  have "\<exists>c'. Controller_ClockTick short_queues c = Inr c' \<and> ct_pim_queue c' = [] \<and> pim_cmds (ct_queue c') = pim_cmds (ct_queue c1) \<and>
    (\<forall>added' returned' d. ctl_later short_queues demo_arrivals [] c' added' returned' d \<longrightarrow>
       count (mset (map fst returned')) (tr_addr t) + count (image_mset fst (answerable d)) (tr_addr t) <
         length (at_addr (tr_addr t) (filter (\<lambda>t. tr_type t \<noteq> TT_P_HEADER) added')))"
    by (rule pim_transaction_lost [OF run c(2) c1(1) t(1)]) (use short_queues_facts t c1(3) in simp_all)
  then obtain c' where c': "Controller_ClockTick short_queues c = Inr c'" "ct_pim_queue c' = []"
    "\<And>added' returned' d. ctl_later short_queues demo_arrivals [] c' added' returned' d \<Longrightarrow>
       count (mset (map fst returned')) 4096 + count (image_mset fst (answerable d)) 4096 <
         length (at_addr 4096 (filter (\<lambda>t. tr_type t \<noteq> TT_P_HEADER) added'))"
    using t(2) by auto
  show ?thesis using run c'(1,2) add_lessD1 [OF c'(3)] by blast
qed

lemma hbm2_comps: "\<exists>c. ctl_run hbm2_config [demo_comps] [] c \<and> 128 \<le> cmd_capacity hbm2_config"
proof -
  have "returns (CommandQueue_new hbm2_config) \<and> returns (Refresh_new hbm2_config) \<and> 0 < capacity hbm2_config \<and> 128 \<le> cmd_capacity hbm2_config"
    by code_simp
  then obtain c where c: "Controller_new 0 hbm2_config = Inr c" and k: "0 < capacity hbm2_config" "128 \<le> cmd_capacity hbm2_config"
    by (auto simp: Controller_new_def returns_iff)
  then have "WillAcceptTransaction hbm2_config TT_COMPS_READRES c = Inr True" by (auto simp: WillAcceptTransaction_def Controller_new_def)
  then have "ctl_run hbm2_config ([] @ [demo_comps]) [] (AddTransaction demo_comps c)"
    by (intro run_add run_start [OF c]) (simp_all add: demo_comps_def npu_types_def)
  then have run: "ctl_run hbm2_config [demo_comps] [] (AddTransaction demo_comps c)" by simp
  then show ?thesis using k(2) by blast
qed

theorem controller_conserves_witness:
  "\<exists>c. ctl_run hbm2_config [demo_comps] [] c \<and> answerable c = {#(4096, TT_COMPS_READRES)#}"
proof -
  obtain c where c: "ctl_run hbm2_config [demo_comps] [] c" "128 \<le> cmd_capacity hbm2_config" using hbm2_comps by blast
  then show ?thesis using controller_conserves [OF c(1)] by (auto simp: demo_comps_def)
qed

theorem pim_stream_in_order_witness:
  "\<exists>c. ctl_run hbm2_config [demo_comps] [] c \<and> (\<exists>executed. [TransToCommand hbm2_config demo_comps] = executed @ pim_stream hbm2_config c)"
proof -
  obtain c where c: "ctl_run hbm2_config [demo_comps] [] c" "128 \<le> cmd_capacity hbm2_config" using hbm2_comps by blast
  then show ?thesis using pim_stream_in_order [OF c] by (auto simp: demo_comps_def)
qed

end
