(* ===== verification/Icnt.thy ===== *)
theory Icnt
  imports Instr
begin

text \<open>
  \<open>SimpleInterconnect\<close> (Interconnect.h, Interconnect.cc): the network between the cores and the
  DRAM channels.  Nodes below \<open>dram_offset\<close> are the ports of the cores (one per channel), the
  others are the channels; each node has an input buffer and at most one packet enters a node per
  cycle.  \<open>BookSim2Interconnect\<close> is declared but has no implementation in the repository.
\<close>

record MemoryIOStat =
  ms_start_cycle :: u64
  ms_channel_id :: u64
  ms_num_cycles :: u64
  memory_reads :: u64
  memory_writes :: u64
  pim_reads :: u64

definition MemoryIOStat_new :: "u64 \<Rightarrow> u64 \<Rightarrow> u64 \<Rightarrow> MemoryIOStat" where
  "MemoryIOStat_new core_cycle ch num_cycles = \<lparr>ms_start_cycle = core_cycle, ms_channel_id = ch,
     ms_num_cycles = num_cycles, memory_reads = 0, memory_writes = 0, pim_reads = 0\<rparr>"

record Entity =
  en_finish_cycle :: cycle_type
  en_dest :: u32
  en_access :: MemoryAccess

record icnt =
  n_nodes :: u32
  dram_offset :: u32
  ic_cycles :: u64
  ic_stats :: "MemoryIOStat list list"
  mem_cycle_interval :: u64
  ic_latency :: u32
  rr_start :: u32
  out_buffers :: "MemoryAccess list list"
  in_buffers :: "Entity list list"
  busy_node :: "bool list"
  mem_req_queue1 :: "MemoryAccess list list"
  mem_req_queue2 :: "MemoryAccess list list"

text \<open>
  The constructor does not initialise \<open>_rr_start\<close>: its first value \<open>rr\<close> is whatever the memory
  held.  \<open>_busy_node\<close> and the loop counters are int; the model is exact below \<open>2^31\<close> nodes.
\<close>

definition SimpleInterconnect_new :: "sim_config \<Rightarrow> u32 \<Rightarrow> icnt" where
  "SimpleInterconnect_new cfg rr =
     (let n = num_cores cfg * dram_channels cfg + dram_channels cfg;
          offset = num_cores cfg * dram_channels cfg
      in \<lparr>n_nodes = n, dram_offset = offset, ic_cycles = 0,
          ic_stats = map (\<lambda>i. [MemoryIOStat_new 0 (of_nat i) 250]) [0..<unat (dram_channels cfg)],
          mem_cycle_interval = 250, ic_latency = icnt_latency cfg, rr_start = rr,
          out_buffers = replicate (unat offset) [], in_buffers = replicate (unat n) [],
          busy_node = replicate (unat n) False,
          mem_req_queue1 = replicate (unat (dram_channels cfg)) [],
          mem_req_queue2 = replicate (unat (dram_channels cfg)) []\<rparr>)"

text \<open>
  \<open>get_core_cycle\<close> multiplies and divides in double precision and truncates; as long as
  \<open>cycles * core_freq\<close> is below \<open>2^53\<close> this is the integer quotient.  A frequency of 0 gives an
  infinite or undefined double, whose conversion is undefined.
\<close>

definition get_core_cycle :: "sim_config \<Rightarrow> icnt \<Rightarrow> fault + cycle_type" where
  "get_core_cycle cfg s =
     (if icnt_freq cfg = 0 then Inl Undefined
      else Inr (of_nat (unat (ic_cycles s) * unat (core_freq cfg) div unat (icnt_freq cfg))))"

definition upd_last :: "('a \<Rightarrow> 'a) \<Rightarrow> 'a list \<Rightarrow> fault + 'a list" where
  "upd_last f xs = (if xs = [] then Inl Undefined else Inr (butlast xs @ [f (last xs)]))"

definition icnt_update_stat :: "MemoryAccess \<Rightarrow> nat \<Rightarrow> icnt \<Rightarrow> fault + icnt" where
  "icnt_update_stat m ch s =
     (let f = (if req_type m = READ then Some (\<lambda>st. st\<lparr>memory_reads := memory_reads st + ma_size m\<rparr>)
               else if req_type m = WRITE then Some (\<lambda>st. st\<lparr>memory_writes := memory_writes st + ma_size m\<rparr>)
               else if req_type m = READRES \<or> req_type m = COMPS_READRES
                    then Some (\<lambda>st. st\<lparr>pim_reads := pim_reads st + ma_size m\<rparr>)
               else None)
      in case f of None \<Rightarrow> Inr s
         | Some g \<Rightarrow> bindE (at (ic_stats s) ch) (\<lambda>l. bindE (upd_last g l) (\<lambda>l.
             Inr (s\<lparr>ic_stats := (ic_stats s)[ch := l]\<rparr>))))"

subsection \<open>One cycle\<close>

text \<open>The packet at the head of a ready input buffer enters its destination.\<close>

definition icnt_deliver :: "sim_config \<Rightarrow> u32 \<Rightarrow> MemoryAccess \<Rightarrow> icnt \<Rightarrow> fault + icnt" where
  "icnt_deliver cfg dest access s =
     (if dest < dram_offset s
      then bindE (push_queue (unat dest) access (out_buffers s)) (\<lambda>qs. Inr (s\<lparr>out_buffers := qs\<rparr>))
      else
        let mem_ch = unat (dest - dram_offset s);
            req = (if sub_batch_mode cfg then access else access\<lparr>ma_stage_platform := SA\<rparr>)
        in ast (ma_stage_platform req = SA \<or> ma_stage_platform req = PIM)
             (if ma_stage_platform req = SA
              then bindE (push_queue mem_ch req (mem_req_queue1 s)) (\<lambda>qs. Inr (s\<lparr>mem_req_queue1 := qs\<rparr>))
              else bindE (push_queue mem_ch req (mem_req_queue2 s)) (\<lambda>qs. Inr (s\<lparr>mem_req_queue2 := qs\<rparr>))))"

definition icnt_forward :: "sim_config \<Rightarrow> icnt \<Rightarrow> nat \<Rightarrow> fault + icnt" where
  "icnt_forward cfg s src_node =
     bindE (at (in_buffers s) src_node) (\<lambda>q. case q of
       [] \<Rightarrow> Inr s
     | f # rest \<Rightarrow>
         if en_finish_cycle f \<le> ic_cycles s then
           bindE (at (busy_node s) (unat (en_dest f))) (\<lambda>busy.
             if busy then Inr s
             else bindE (icnt_deliver cfg (en_dest f) (en_access f) s) (\<lambda>s.
                    Inr (s\<lparr>in_buffers := (in_buffers s)[src_node := rest],
                           busy_node := (busy_node s)[unat (en_dest f) := True]\<rparr>)))
         else Inr s)"

definition src_order :: "icnt \<Rightarrow> nat list" where
  "src_order s = map (\<lambda>node. unat ((rr_start s + of_nat node) mod n_nodes s)) [0..<unat (n_nodes s)]"

definition icnt_stat_step :: "sim_config \<Rightarrow> icnt \<Rightarrow> nat \<Rightarrow> fault + icnt" where
  "icnt_stat_step cfg s ch =
     bindE (at (ic_stats s) ch) (\<lambda>l. if l = [] then Inl Undefined else
       bindE (get_core_cycle cfg s) (\<lambda>now.
         if ms_start_cycle (last l) + mem_cycle_interval s < now
         then if mem_cycle_interval s = 0 then Inl Undefined else
              Inr (s\<lparr>ic_stats := (ic_stats s)[ch := l @ [MemoryIOStat_new
                (now div mem_cycle_interval s * mem_cycle_interval s) (of_nat ch) (mem_cycle_interval s)]]\<rparr>)
         else Inr s))"

definition icnt_cycle :: "sim_config \<Rightarrow> icnt \<Rightarrow> fault + icnt" where
  "icnt_cycle cfg s =
     bindE (foldE (icnt_forward cfg) s (src_order s)) (\<lambda>s.
     bindE (foldE (icnt_stat_step cfg) s [0..<unat (dram_channels cfg)]) (\<lambda>s.
     if n_nodes s = 0 then Inl Undefined else
     Inr (s\<lparr>busy_node := map (\<lambda>_. False) (busy_node s),
            rr_start := (rr_start s + 1) mod n_nodes s, ic_cycles := ic_cycles s + 1\<rparr>)))"

subsection \<open>The ports\<close>

definition icnt_push :: "nat \<Rightarrow> u32 \<Rightarrow> MemoryAccess \<Rightarrow> icnt \<Rightarrow> fault + icnt" where
  "icnt_push src dest request s =
     ast (dest < 100) (bindE (at (in_buffers s) src) (\<lambda>q.
       let fin = (if q = [] then ic_cycles s + ucast (ic_latency s) else en_finish_cycle (last q) + 1);
           entity = \<lparr>en_finish_cycle = fin, en_dest = dest, en_access = request\<rparr>
       in Inr (s\<lparr>in_buffers := (in_buffers s)[src := q @ [entity]]\<rparr>)))"

definition icnt_is_full :: "nat \<Rightarrow> MemoryAccess \<Rightarrow> icnt \<Rightarrow> bool" where
  "icnt_is_full nid request s \<longleftrightarrow> False"

definition icnt_is_empty :: "u32 \<Rightarrow> icnt \<Rightarrow> fault + bool" where
  "icnt_is_empty nid s = ast (nid < dram_offset s) (bindE (at (out_buffers s) (unat nid)) (\<lambda>q. Inr (q = [])))"

definition icnt_top :: "u32 \<Rightarrow> icnt \<Rightarrow> fault + MemoryAccess" where
  "icnt_top nid s = bindE (icnt_is_empty nid s) (\<lambda>emp. ast (\<not> emp) (ast (nid < dram_offset s)
     (bindE (at (out_buffers s) (unat nid)) front)))"

definition icnt_pop :: "sim_config \<Rightarrow> u32 \<Rightarrow> icnt \<Rightarrow> fault + icnt" where
  "icnt_pop cfg nid s = ast (nid < dram_offset s) (bindE (icnt_top nid s) (\<lambda>m.
     if dram_channels cfg = 0 then Inl Undefined else
     bindE (icnt_update_stat m (unat (nid mod dram_channels cfg)) s) (\<lambda>s.
     bindE (at (out_buffers s) (unat nid)) (\<lambda>q.
       Inr (s\<lparr>out_buffers := (out_buffers s)[unat nid := tl q]\<rparr>)))))"

definition has_memreq :: "nat \<Rightarrow> MemoryAccess list list \<Rightarrow> fault + bool" where
  "has_memreq cid qs = bindE (at qs cid) (\<lambda>q. Inr (q \<noteq> []))"

definition memreq_top :: "nat \<Rightarrow> MemoryAccess list list \<Rightarrow> fault + MemoryAccess" where
  "memreq_top cid qs = bindE (has_memreq cid qs) (\<lambda>h. ast h (bindE (at qs cid) front))"

definition memreq_pop1 :: "nat \<Rightarrow> icnt \<Rightarrow> fault + icnt" where
  "memreq_pop1 cid s = bindE (has_memreq cid (mem_req_queue1 s)) (\<lambda>h. ast h
     (bindE (at (mem_req_queue1 s) cid) (\<lambda>q. Inr (s\<lparr>mem_req_queue1 := (mem_req_queue1 s)[cid := tl q]\<rparr>))))"

definition memreq_pop2 :: "nat \<Rightarrow> icnt \<Rightarrow> fault + icnt" where
  "memreq_pop2 cid s = bindE (has_memreq cid (mem_req_queue2 s)) (\<lambda>h. ast h
     (bindE (at (mem_req_queue2 s) cid) (\<lambda>q. Inr (s\<lparr>mem_req_queue2 := (mem_req_queue2 s)[cid := tl q]\<rparr>))))"

text \<open>\<open>Interconnect::log\<close> writes the statistics to files and keeps the last interval.\<close>

definition icnt_log :: "icnt \<Rightarrow> fault + icnt" where
  "icnt_log s = (if [] \<in> set (ic_stats s) then Inl Undefined
                 else Inr (s\<lparr>ic_stats := map (\<lambda>l. [last l]) (ic_stats s)\<rparr>))"

subsection \<open>Operations as steps\<close>

datatype icnt_op = Op_push nat u32 MemoryAccess | Op_cycle | Op_pop u32 | Op_memreq_pop1 nat | Op_memreq_pop2 nat

text \<open>A step also returns the requests that leave the network.\<close>

fun icnt_step :: "sim_config \<Rightarrow> MemoryAccess list \<times> icnt \<Rightarrow> icnt_op \<Rightarrow> fault + (MemoryAccess list \<times> icnt)" where
  "icnt_step cfg (left, s) (Op_push src dest request) = bindE (icnt_push src dest request s) (\<lambda>s. Inr (left, s))"
| "icnt_step cfg (left, s) Op_cycle = bindE (icnt_cycle cfg s) (\<lambda>s. Inr (left, s))"
| "icnt_step cfg (left, s) (Op_pop nid) =
     bindE (icnt_top nid s) (\<lambda>m. bindE (icnt_pop cfg nid s) (\<lambda>s. Inr (left @ [m], s)))"
| "icnt_step cfg (left, s) (Op_memreq_pop1 cid) =
     bindE (memreq_top cid (mem_req_queue1 s)) (\<lambda>m. bindE (memreq_pop1 cid s) (\<lambda>s. Inr (left @ [m], s)))"
| "icnt_step cfg (left, s) (Op_memreq_pop2 cid) =
     bindE (memreq_top cid (mem_req_queue2 s)) (\<lambda>m. bindE (memreq_pop2 cid s) (\<lambda>s. Inr (left @ [m], s)))"

text \<open>What the callers of \<open>push\<close> guarantee: the destination is a node.\<close>

definition route_ok :: "sim_config \<Rightarrow> icnt \<Rightarrow> u32 \<Rightarrow> MemoryAccess \<Rightarrow> bool" where
  "route_ok cfg s dest m \<longleftrightarrow> dest < n_nodes s \<and>
     (dest \<ge> dram_offset s \<and> sub_batch_mode cfg \<longrightarrow> ma_stage_platform m \<in> {SA, PIM})"

definition op_ok :: "sim_config \<Rightarrow> icnt \<Rightarrow> icnt_op \<Rightarrow> bool" where
  "op_ok cfg s op = (case op of Op_push src dest m \<Rightarrow> route_ok cfg s dest m | _ \<Rightarrow> True)"

definition icnt_wf :: "sim_config \<Rightarrow> icnt \<Rightarrow> bool" where
  "icnt_wf cfg s \<longleftrightarrow>
     0 < unat (n_nodes s) \<and> unat (n_nodes s) = unat (dram_offset s) + unat (dram_channels cfg) \<and>
     unat (n_nodes s) < 2 ^ 31 \<and> unat (rr_start s) + unat (n_nodes s) \<le> 2 ^ 32 \<and>
     length (in_buffers s) = unat (n_nodes s) \<and> length (out_buffers s) = unat (dram_offset s) \<and>
     busy_node s = replicate (unat (n_nodes s)) False \<and>
     length (mem_req_queue1 s) = unat (dram_channels cfg) \<and>
     length (mem_req_queue2 s) = unat (dram_channels cfg) \<and>
     (\<forall>q \<in> set (in_buffers s). \<forall>f \<in> set q. route_ok cfg s (en_dest f) (en_access f)) \<and>
     length (ic_stats s) = unat (dram_channels cfg) \<and> [] \<notin> set (ic_stats s) \<and>
     mem_cycle_interval s \<noteq> 0 \<and> icnt_freq cfg \<noteq> 0"

subsection \<open>Round-robin arbitration\<close>

text \<open>
  The reference for one cycle: a destination is granted to the first node, in round-robin order,
  that has a ready packet for it.
\<close>

definition ready :: "icnt \<Rightarrow> nat \<Rightarrow> bool" where
  "ready s i \<longleftrightarrow> in_buffers s ! i \<noteq> [] \<and> en_finish_cycle (hd (in_buffers s ! i)) \<le> ic_cycles s"

definition head_dest :: "icnt \<Rightarrow> nat \<Rightarrow> nat" where
  "head_dest s i = unat (en_dest (hd (in_buffers s ! i)))"

definition grant :: "icnt \<Rightarrow> nat list \<Rightarrow> nat \<Rightarrow> nat option" where
  "grant s srcs d = List.find (\<lambda>i. ready s i \<and> head_dest s i = d) srcs"

definition granted :: "icnt \<Rightarrow> nat list \<Rightarrow> nat \<Rightarrow> bool" where
  "granted s srcs i \<longleftrightarrow> ready s i \<and> grant s srcs (head_dest s i) = Some i"

definition retag :: "sim_config \<Rightarrow> MemoryAccess \<Rightarrow> MemoryAccess" where
  "retag cfg m = (if sub_batch_mode cfg then m else m\<lparr>ma_stage_platform := SA\<rparr>)"

definition arrivals :: "icnt \<Rightarrow> nat list \<Rightarrow> nat \<Rightarrow> MemoryAccess list" where
  "arrivals s srcs d = (case grant s srcs d of None \<Rightarrow> [] | Some i \<Rightarrow> [en_access (hd (in_buffers s ! i))])"

definition mem_arrivals :: "sim_config \<Rightarrow> icnt \<Rightarrow> nat list \<Rightarrow> StagePlatform \<Rightarrow> nat \<Rightarrow> MemoryAccess list" where
  "mem_arrivals cfg s srcs sp ch =
     filter (\<lambda>m. ma_stage_platform m = sp) (map (retag cfg) (arrivals s srcs (unat (dram_offset s) + ch)))"

text \<open>The state after the nodes \<open>srcs\<close> have been served.\<close>

definition served :: "sim_config \<Rightarrow> icnt \<Rightarrow> nat list \<Rightarrow> icnt" where
  "served cfg s srcs = s\<lparr>
     in_buffers := map (\<lambda>i. if granted s srcs i then tl (in_buffers s ! i) else in_buffers s ! i) [0..<length (in_buffers s)],
     out_buffers := map (\<lambda>d. out_buffers s ! d @ arrivals s srcs d) [0..<length (out_buffers s)],
     busy_node := map (\<lambda>d. grant s srcs d \<noteq> None) [0..<length (busy_node s)],
     mem_req_queue1 := map (\<lambda>ch. mem_req_queue1 s ! ch @ mem_arrivals cfg s srcs SA ch) [0..<length (mem_req_queue1 s)],
     mem_req_queue2 := map (\<lambda>ch. mem_req_queue2 s ! ch @ mem_arrivals cfg s srcs PIM ch) [0..<length (mem_req_queue2 s)]\<rparr>"

lemma grant_Nil [simp]: "grant s [] d = None"
  by (simp add: grant_def)

lemma grant_snoc: "grant s (srcs @ [i]) d =
   (if grant s srcs d \<noteq> None then grant s srcs d else if ready s i \<and> head_dest s i = d then Some i else None)"
  by (induction srcs) (auto simp: grant_def)

lemma grant_mem: "grant s srcs d = Some i \<Longrightarrow> i \<in> set srcs \<and> ready s i \<and> head_dest s i = d"
  unfolding grant_def by (metis (mono_tags, lifting) find_Some_iff nth_mem)

lemma grant_snoc_idle: "\<not> ready s i \<or> grant s srcs (head_dest s i) \<noteq> None \<Longrightarrow> grant s (srcs @ [i]) = grant s srcs"
  by (rule ext) (auto simp: grant_snoc)

lemma served_idle: "grant s srcs' = grant s srcs \<Longrightarrow> served cfg s srcs' = served cfg s srcs"
  by (simp add: served_def granted_def arrivals_def mem_arrivals_def)

lemma served_Nil: 
  assumes "icnt_wf cfg s" shows "served cfg s [] = s"
  using assms by (simp add: served_def granted_def arrivals_def mem_arrivals_def icnt_wf_def map_nth map_replicate_trivial
   list_eq_iff_nth_eq)

lemma grant_snoc_new:
  assumes "ready s i" "grant s srcs (head_dest s i) = None"
  shows "grant s (srcs @ [i]) = (grant s srcs)(head_dest s i := Some i)"
  using assms by (intro ext) (auto simp: grant_snoc)

lemma arrivals_snoc_new:
  assumes "ready s i" "grant s srcs (head_dest s i) = None"
  shows "arrivals s (srcs @ [i]) = (arrivals s srcs)(head_dest s i := [en_access (hd (in_buffers s ! i))])"
  using grant_snoc_new [OF assms] by (intro ext) (simp add: arrivals_def)

lemma granted_snoc_new:
  assumes "ready s i" "grant s srcs (head_dest s i) = None" "i \<notin> set srcs"
  shows "granted s (srcs @ [i]) j \<longleftrightarrow> granted s srcs j \<or> j = i"
  using assms grant_snoc_new [OF assms(1,2)] by (auto simp: granted_def dest: grant_mem)

lemma nth_map_upt [simp]: "i < n \<Longrightarrow> map f [0..<n] ! i = f i"
  by simp

lemma map_upt_update: "i < n \<Longrightarrow> (map f [0..<n])[i := y] = map (f(i := y)) [0..<n]"
  by (rule nth_equalityI) (auto simp: nth_list_update)

lemma forward_served:
  assumes wf: "icnt_wf cfg s" and i: "i < unat (n_nodes s)" "i \<notin> set srcs"
  shows "icnt_forward cfg (served cfg s srcs) i = Inr (served cfg s (srcs @ [i]))"
proof -
  have len: "length (in_buffers s) = unat (n_nodes s)" "length (out_buffers s) = unat (dram_offset s)"
    "length (busy_node s) = unat (n_nodes s)" "length (mem_req_queue1 s) = unat (dram_channels cfg)"
    "length (mem_req_queue2 s) = unat (dram_channels cfg)"
    and n: "unat (n_nodes s) = unat (dram_offset s) + unat (dram_channels cfg)"
    using wf by (simp_all add: icnt_wf_def)
  have ngr: "\<not> granted s srcs i" using i(2) by (auto simp: granted_def dest: grant_mem)
  have q: "in_buffers (served cfg s srcs) ! i = in_buffers s ! i" using i ngr by (simp add: served_def len)
  have lq: "i < length (in_buffers (served cfg s srcs))" using i by (simp add: served_def len)
  have cyc: "ic_cycles (served cfg s srcs) = ic_cycles s" by (simp add: served_def)
  show ?thesis
  proof (cases "ready s i")
    case False
    then have "icnt_forward cfg (served cfg s srcs) i = Inr (served cfg s srcs)"
      using lq q cyc by (auto simp: icnt_forward_def ready_def split: list.splits)
    then show ?thesis using served_idle [OF grant_snoc_idle [of s i srcs]] False by simp
  next
    case True
    then obtain f rest where fr: "in_buffers s ! i = f # rest" and fin: "en_finish_cycle f \<le> ic_cycles s"
      by (cases "in_buffers s ! i") (auto simp: ready_def)
    have hd: "head_dest s i = unat (en_dest f)" by (simp add: head_dest_def fr)
    have ok: "route_ok cfg s (en_dest f) (en_access f)"
      using wf i fr nth_mem [of i "in_buffers s"] by (fastforce simp: icnt_wf_def)
    then have d: "unat (en_dest f) < unat (n_nodes s)" by (simp add: route_ok_def word_less_nat_alt)
    have bz: "at (busy_node (served cfg s srcs)) (unat (en_dest f)) = Inr (grant s srcs (head_dest s i) \<noteq> None)"
      using d by (simp add: served_def len hd)
    show ?thesis
    proof (cases "grant s srcs (head_dest s i)")
      case (Some j)
      then have "icnt_forward cfg (served cfg s srcs) i = Inr (served cfg s srcs)"
        using lq q cyc fr fin bz by (simp add: icnt_forward_def)
      then show ?thesis using served_idle [OF grant_snoc_idle [of s i srcs]] Some by simp
    next
      case None
      note g = granted_snoc_new [OF True None i(2)] and a = arrivals_snoc_new [OF True None]
        and gg = grant_snoc_new [OF True None]
      have inb: "(in_buffers (served cfg s srcs))[i := rest] = in_buffers (served cfg s (srcs @ [i]))"
        using i ngr by (auto simp: served_def len map_upt_update fr g)
      have busy: "(busy_node (served cfg s srcs))[unat (en_dest f) := True] = busy_node (served cfg s (srcs @ [i]))"
        using d by (auto simp: served_def len map_upt_update gg hd)
      have emp: "arrivals s srcs (unat (en_dest f)) = []" using None by (simp add: arrivals_def hd)
      have "icnt_deliver cfg (en_dest f) (en_access f) (served cfg s srcs) =
         Inr ((served cfg s srcs)\<lparr>out_buffers := out_buffers (served cfg s (srcs @ [i])),
            mem_req_queue1 := mem_req_queue1 (served cfg s (srcs @ [i])),
            mem_req_queue2 := mem_req_queue2 (served cfg s (srcs @ [i]))\<rparr>)"
      proof (cases "en_dest f < dram_offset s")
        case True
        then have "unat (en_dest f) < unat (dram_offset s)" by (simp add: word_less_nat_alt)
        then show ?thesis using True emp
          by (simp add: icnt_deliver_def push_queue_def served_def len map_upt_update a hd fr mem_arrivals_def)
      next
        case False
        have ch: "unat (en_dest f - dram_offset s) = unat (en_dest f) - unat (dram_offset s)"
          using False by (intro unat_sub) (simp add: not_less)
        obtain c0 where c0: "unat (en_dest f) = unat (dram_offset s) + c0"
          using False by (metis le_Suc_ex not_less word_le_nat_alt)
        have chl: "c0 < unat (dram_channels cfg)" using d n c0 by simp
        have sp: "ma_stage_platform (retag cfg (en_access f)) = SA \<or> ma_stage_platform (retag cfg (en_access f)) = PIM"
          using ok False by (auto simp: route_ok_def retag_def not_less)
        show ?thesis using False emp sp chl
          by (simp add: icnt_deliver_def push_queue_def served_def len ch c0 Let_def retag_def [symmetric] map_upt_update a hd fr mem_arrivals_def)
            (auto simp: fun_upd_def intro!: map_cong)
      qed
      then have "icnt_forward cfg (served cfg s srcs) i = Inr ((served cfg s srcs)\<lparr>out_buffers := out_buffers (served cfg s (srcs @ [i])),
            mem_req_queue1 := mem_req_queue1 (served cfg s (srcs @ [i])),
            mem_req_queue2 := mem_req_queue2 (served cfg s (srcs @ [i])),
            in_buffers := in_buffers (served cfg s (srcs @ [i])), busy_node := busy_node (served cfg s (srcs @ [i]))\<rparr>)"
        using lq q cyc fr fin bz None by (simp add: icnt_forward_def inb busy)
      then show ?thesis by (simp add: served_def)
    qed
  qed
qed

lemma foldE_forward:
  assumes "icnt_wf cfg s" "distinct srcs" "set srcs \<subseteq> {0..<unat (n_nodes s)}"
  shows "foldE (icnt_forward cfg) s srcs = Inr (served cfg s srcs)"
  using assms(2,3)
proof (induction srcs rule: rev_induct)
  case Nil then show ?case by (simp add: served_Nil [OF assms(1)])
next
  case (snoc i srcs)
  then show ?case using forward_served [OF assms(1)] by (simp add: foldE_append)
qed

lemma src_order_eq:
  assumes "icnt_wf cfg s"
  shows "src_order s = map (\<lambda>k. (unat (rr_start s) + k) mod unat (n_nodes s)) [0..<unat (n_nodes s)]"
  unfolding src_order_def
proof (rule map_cong)
  fix k assume "k \<in> set [0..<unat (n_nodes s)]"
  then have k: "k < unat (n_nodes s)" by simp
  then have "unat (of_nat k :: u32) = k"
    using less_trans [OF k unat_u32_less] by (simp add: unat_of_nat)
  moreover have "unat (rr_start s) + k < 2 ^ 32" using k assms by (simp add: icnt_wf_def)
  ultimately show "unat ((rr_start s + of_nat k) mod n_nodes s) = (unat (rr_start s) + k) mod unat (n_nodes s)"
    by (simp add: unat_mod_distrib unat_word_ariths)
qed simp

lemma rotation_inj: "inj_on (\<lambda>k. (r + k) mod n) {0..<n::nat}"
proof (rule inj_onI)
  have le: "j = k" if "j \<le> k" "k < n" "(r + j) mod n = (r + k) mod n" for j k
    using that mod_eq_dvd_iff_nat [of "r + j" "r + k" n] by (auto dest: dvd_imp_le)
  fix j k assume "j \<in> {0..<n}" "k \<in> {0..<n}" "(r + j) mod n = (r + k) mod n"
  then show "j = k" using le [of j k] le [of k j] by (cases "j \<le> k") auto
qed

lemma src_order_perm:
  assumes "icnt_wf cfg s"
  shows "distinct (src_order s) \<and> set (src_order s) = {0..<unat (n_nodes s)}"
proof -
  let ?N = "unat (n_nodes s)" and ?f = "\<lambda>k. (unat (rr_start s) + k) mod unat (n_nodes s)"
  have "?f ` {0..<?N} \<subseteq> {0..<?N}" using assms by (auto simp: icnt_wf_def)
  then have "?f ` {0..<?N} = {0..<?N}"
    using card_image [OF rotation_inj [of "unat (rr_start s)" ?N]] by (intro card_subset_eq) simp_all
  then show ?thesis unfolding src_order_eq [OF assms] by (simp add: distinct_map rotation_inj)
qed

lemma stat_loop:
  assumes "length (ic_stats s) = n" "[] \<notin> set (ic_stats s)" "mem_cycle_interval s \<noteq> 0" "icnt_freq cfg \<noteq> 0"
  shows "\<exists>s'. foldE (icnt_stat_step cfg) s [0..<n] = Inr s' \<and>
    (\<exists>st. s' = s\<lparr>ic_stats := st\<rparr> \<and> length st = n \<and> [] \<notin> set st)"
proof (rule foldE_returns)
  show "\<exists>st. s = s\<lparr>ic_stats := st\<rparr> \<and> length st = n \<and> [] \<notin> set st"
    using assms by (intro exI [of _ "ic_stats s"]) simp
next
  fix t ch
  assume "\<exists>st. t = s\<lparr>ic_stats := st\<rparr> \<and> length st = n \<and> [] \<notin> set st" and ch: "ch \<in> set [0..<n]"
  then obtain st where t: "t = s\<lparr>ic_stats := st\<rparr>" and l: "length st = n" "[] \<notin> set st" by blast
  have ne: "st ! ch \<noteq> []" using ch l by (metis atLeastLessThan_iff nth_mem set_upt)
  have upd: "[] \<notin> set (st[ch := x])" if "x \<noteq> []" for x
    using that l(2) set_update_subset_insert [of st ch x] by blast
  show "\<exists>t'. icnt_stat_step cfg t ch = Inr t' \<and> (\<exists>st. t' = s\<lparr>ic_stats := st\<rparr> \<and> length st = n \<and> [] \<notin> set st)"
  proof -
    have "\<exists>st'. icnt_stat_step cfg t ch = Inr (s\<lparr>ic_stats := st'\<rparr>) \<and> length st' = n \<and> [] \<notin> set st'"
      using ch l ne assms upd by (auto simp: icnt_stat_step_def get_core_cycle_def t Let_def)
    then show ?thesis by blast
  qed
qed

definition cycled :: "sim_config \<Rightarrow> icnt \<Rightarrow> MemoryIOStat list list \<Rightarrow> icnt" where
  "cycled cfg s st = (served cfg s (src_order s))\<lparr>ic_stats := st, busy_node := busy_node s,
     rr_start := (rr_start s + 1) mod n_nodes s, ic_cycles := ic_cycles s + 1\<rparr>"

lemma icnt_cycle_eq:
  assumes wf: "icnt_wf cfg s"
  shows "\<exists>st. icnt_cycle cfg s = Inr (cycled cfg s st) \<and> length st = unat (dram_channels cfg) \<and> [] \<notin> set st"
proof -
  let ?s = "served cfg s (src_order s)"
  have f: "foldE (icnt_forward cfg) s (src_order s) = Inr ?s"
    using src_order_perm [OF wf] by (intro foldE_forward [OF wf]) auto
  have "\<exists>s'. foldE (icnt_stat_step cfg) ?s [0..<unat (dram_channels cfg)] = Inr s' \<and>
    (\<exists>st. s' = ?s\<lparr>ic_stats := st\<rparr> \<and> length st = unat (dram_channels cfg) \<and> [] \<notin> set st)"
    using wf by (intro stat_loop) (simp_all add: served_def icnt_wf_def)
  then obtain st where st: "foldE (icnt_stat_step cfg) ?s [0..<unat (dram_channels cfg)] = Inr (?s\<lparr>ic_stats := st\<rparr>)"
    "length st = unat (dram_channels cfg)" "[] \<notin> set st" by blast
  have b: "map (\<lambda>_. False) (busy_node ?s) = busy_node s"
    using wf by (simp add: served_def icnt_wf_def map_replicate_const)
  have n: "n_nodes s \<noteq> 0" using wf by (auto simp: icnt_wf_def)
  have "icnt_cycle cfg s = Inr (cycled cfg s st)"
    using n b by (simp add: icnt_cycle_def f st(1) cycled_def) (simp add: served_def)
  then show ?thesis using st by blast
qed

lemma cycled_simps [simp]:
  "n_nodes (cycled cfg s st) = n_nodes s" "dram_offset (cycled cfg s st) = dram_offset s"
  "ic_cycles (cycled cfg s st) = ic_cycles s + 1" "rr_start (cycled cfg s st) = (rr_start s + 1) mod n_nodes s"
  "busy_node (cycled cfg s st) = busy_node s" "mem_cycle_interval (cycled cfg s st) = mem_cycle_interval s"
  "ic_stats (cycled cfg s st) = st" "ic_latency (cycled cfg s st) = ic_latency s"
  by (simp_all add: cycled_def served_def)

lemma route_ok_cong: "n_nodes s' = n_nodes s \<Longrightarrow> dram_offset s' = dram_offset s \<Longrightarrow> route_ok cfg s' = route_ok cfg s"
  by (intro ext) (simp add: route_ok_def)

lemma cycled_wf:
  assumes wf: "icnt_wf cfg s" and st: "length st = unat (dram_channels cfg)" "[] \<notin> set st"
  shows "icnt_wf cfg (cycled cfg s st) \<and> rr_start (cycled cfg s st) < n_nodes s"
proof -
  have n: "n_nodes s \<noteq> 0" using wf by (auto simp: icnt_wf_def)
  then have lt: "(rr_start s + 1) mod n_nodes s < n_nodes s"
    by (simp add: word_less_nat_alt unat_mod_distrib unat_gt_0)
  have "unat ((rr_start s + 1) mod n_nodes s) < unat (n_nodes s)" using lt by (simp add: word_less_nat_alt)
  then have sum: "unat ((rr_start s + 1) mod n_nodes s) + unat (n_nodes s) \<le> 2 ^ 32"
    using wf by (simp add: icnt_wf_def)
  have rts: "route_ok cfg (cycled cfg s st) = route_ok cfg s" by (rule route_ok_cong) simp_all
  have ins: "\<forall>q \<in> set (in_buffers (cycled cfg s st)). \<forall>f \<in> set q. route_ok cfg s (en_dest f) (en_access f)"
  proof (intro ballI)
    fix q f assume "q \<in> set (in_buffers (cycled cfg s st))" "f \<in> set q"
    then obtain i where i: "i < length (in_buffers s)" and f: "f \<in> set (in_buffers s ! i) \<or> f \<in> set (tl (in_buffers s ! i))"
      by (auto simp: cycled_def served_def split: if_splits)
    then have "f \<in> set (in_buffers s ! i)" by (cases "in_buffers s ! i") auto
    then show "route_ok cfg s (en_dest f) (en_access f)" using wf i by (auto simp: icnt_wf_def)
  qed
  have lens: "length (in_buffers (cycled cfg s st)) = length (in_buffers s)" "length (out_buffers (cycled cfg s st)) = length (out_buffers s)"
    "length (mem_req_queue1 (cycled cfg s st)) = length (mem_req_queue1 s)" "length (mem_req_queue2 (cycled cfg s st)) = length (mem_req_queue2 s)"
    by (simp_all add: cycled_def served_def)
  show ?thesis using wf lt ins st n sum by (auto simp: icnt_wf_def lens rts)
qed

lemma icnt_cycle_wf:
  assumes "icnt_wf cfg s" "icnt_cycle cfg s = Inr s'"
  shows "icnt_wf cfg s' \<and> rr_start s' < n_nodes s'"
proof -
  obtain st where "s' = cycled cfg s st" "length st = unat (dram_channels cfg)" "[] \<notin> set st"
    using icnt_cycle_eq [OF assms(1)] assms(2) by auto
  then show ?thesis using cycled_wf [OF assms(1)] by simp
qed

text \<open>The port operations keep the well-formedness and only append to input buffers.\<close>

definition port_frame :: "icnt \<Rightarrow> icnt \<Rightarrow> bool" where
  "port_frame s s' \<longleftrightarrow> n_nodes s' = n_nodes s \<and> dram_offset s' = dram_offset s \<and> ic_cycles s' = ic_cycles s \<and>
     rr_start s' = rr_start s \<and> length (in_buffers s') = length (in_buffers s) \<and>
     (\<forall>i < length (in_buffers s). \<exists>ys. in_buffers s' ! i = in_buffers s ! i @ ys)"

lemma icnt_push_wf:
  assumes wf: "icnt_wf cfg s" and p: "icnt_push src dest m s = Inr s'" and ok: "route_ok cfg s dest m"
  shows "icnt_wf cfg s' \<and> port_frame s s'"
proof -
  define f where "f = \<lparr>en_finish_cycle = (if in_buffers s ! src = [] then ic_cycles s + ucast (ic_latency s)
    else en_finish_cycle (last (in_buffers s ! src)) + 1), en_dest = dest, en_access = m\<rparr>"
  then have f: "en_dest f = dest" "en_access f = m" by simp_all
  from p have src: "src < length (in_buffers s)"
    and s': "s' = s\<lparr>in_buffers := (in_buffers s)[src := in_buffers s ! src @ [f]]\<rparr>"
    by (auto simp: icnt_push_def Let_def f_def)
  have rts: "route_ok cfg s' = route_ok cfg s" by (rule route_ok_cong) (simp_all add: s')
  have "\<forall>g \<in> set q. route_ok cfg s (en_dest g) (en_access g)" if q: "q \<in> set (in_buffers s')" for q
  proof -
    from q have "q \<in> set (in_buffers s) \<or> q = in_buffers s ! src @ [f]"
      using set_update_subset_insert [of "in_buffers s" src] by (auto simp: s')
    moreover have "\<forall>q \<in> set (in_buffers s). \<forall>g \<in> set q. route_ok cfg s (en_dest g) (en_access g)"
      using wf unfolding icnt_wf_def by blast
    ultimately show ?thesis using nth_mem [OF src] f ok by auto
  qed
  then have "icnt_wf cfg s'" using wf unfolding icnt_wf_def rts by (auto simp: s')
  moreover have "\<exists>ys. (in_buffers s)[src := in_buffers s ! src @ [f]] ! i = in_buffers s ! i @ ys"
    if "i < length (in_buffers s)" for i
    using that by (cases "i = src") simp_all
  then have "port_frame s s'" by (simp add: port_frame_def s')
  ultimately show ?thesis by simp
qed

lemma icnt_update_stat_Inr:
  "icnt_update_stat m ch s = Inr t \<Longrightarrow> \<exists>st. t = s\<lparr>ic_stats := st\<rparr> \<and> length st = length (ic_stats s) \<and>
     ([] \<notin> set (ic_stats s) \<longrightarrow> [] \<notin> set st)"
proof -
  assume u: "icnt_update_stat m ch s = Inr t"
  have "t = s\<lparr>ic_stats := ic_stats s\<rparr> \<or> (\<exists>l x. t = s\<lparr>ic_stats := (ic_stats s)[ch := l @ [x]]\<rparr>)"
    using u by (simp add: icnt_update_stat_def Let_def upd_last_def split: if_splits) blast+
  moreover have "[] \<notin> set ((ic_stats s)[ch := l @ [x]])" if "[] \<notin> set (ic_stats s)" for l x
    using that set_update_subset_insert [of "ic_stats s" ch "l @ [x]"] by auto
  ultimately show ?thesis by (metis length_list_update)
qed

lemma icnt_pop_wf:
  assumes wf: "icnt_wf cfg s" and p: "icnt_pop cfg nid s = Inr s'"
  shows "icnt_wf cfg s' \<and> port_frame s s'"
proof -
  from p obtain m t where m: "icnt_update_stat m (unat (nid mod dram_channels cfg)) s = Inr t"
    and t: "s' = t\<lparr>out_buffers := (out_buffers t)[unat nid := tl (out_buffers t ! unat nid)]\<rparr>"
    by (auto simp: icnt_pop_def split: if_splits)
  have ne: "[] \<notin> set (ic_stats s)" using wf by (simp add: icnt_wf_def)
  from icnt_update_stat_Inr [OF m] ne obtain st where
    st: "t = s\<lparr>ic_stats := st\<rparr>" "length st = length (ic_stats s)" "[] \<notin> set st" by blast
  have rts: "route_ok cfg s' = route_ok cfg s" by (rule route_ok_cong) (simp_all add: t st)
  have "icnt_wf cfg s'" using wf st(2,3) unfolding icnt_wf_def rts by (auto simp: t st(1))
  then show ?thesis by (simp add: port_frame_def t st(1))
qed

lemma memreq_pop_wf:
  assumes wf: "icnt_wf cfg s" and p: "memreq_pop1 cid s = Inr s' \<or> memreq_pop2 cid s = Inr s'"
  shows "icnt_wf cfg s' \<and> port_frame s s'"
proof -
  obtain q1 q2 where s': "s' = s\<lparr>mem_req_queue1 := q1, mem_req_queue2 := q2\<rparr>"
    "length q1 = length (mem_req_queue1 s)" "length q2 = length (mem_req_queue2 s)"
  proof -
    have "\<exists>q1 q2. s' = s\<lparr>mem_req_queue1 := q1, mem_req_queue2 := q2\<rparr> \<and> length q1 = length (mem_req_queue1 s) \<and>
       length q2 = length (mem_req_queue2 s)"
      using p
    proof
      assume "memreq_pop1 cid s = Inr s'"
      then have "s' = s\<lparr>mem_req_queue1 := (mem_req_queue1 s)[cid := tl (mem_req_queue1 s ! cid)], mem_req_queue2 := mem_req_queue2 s\<rparr>"
        by (auto simp: memreq_pop1_def has_memreq_def)
      then show ?thesis by (metis length_list_update)
    next
      assume "memreq_pop2 cid s = Inr s'"
      then have "s' = s\<lparr>mem_req_queue1 := mem_req_queue1 s, mem_req_queue2 := (mem_req_queue2 s)[cid := tl (mem_req_queue2 s ! cid)]\<rparr>"
        by (auto simp: memreq_pop2_def has_memreq_def)
      then show ?thesis by (metis length_list_update)
    qed
    then show ?thesis using that by blast
  qed
  have rts: "route_ok cfg s' = route_ok cfg s" by (rule route_ok_cong) (simp_all add: s')
  have "icnt_wf cfg s'" using wf unfolding icnt_wf_def rts by (auto simp: s')
  then show ?thesis by (simp add: port_frame_def s')
qed

lemma icnt_step_port:
  assumes "icnt_wf cfg s" "icnt_step cfg (l, s) op = Inr (l', s')" "op_ok cfg s op" "op \<noteq> Op_cycle"
  shows "icnt_wf cfg s' \<and> port_frame s s'"
proof (cases op)
  case (Op_push src dest m)
  then show ?thesis using assms by (intro icnt_push_wf) (auto simp: op_ok_def)
next
  case (Op_pop nid)
  then show ?thesis using assms by (intro icnt_pop_wf) auto
next
  case (Op_memreq_pop1 cid)
  then show ?thesis using assms by (intro memreq_pop_wf) auto
next
  case (Op_memreq_pop2 cid)
  then show ?thesis using assms by (intro memreq_pop_wf) auto
qed (use assms in simp)

lemma op_ok_cong: "n_nodes s' = n_nodes s \<Longrightarrow> dram_offset s' = dram_offset s \<Longrightarrow> op_ok cfg s' = op_ok cfg s"
  by (intro ext) (simp add: op_ok_def route_ok_cong [of s' s] split: icnt_op.splits)

text \<open>
  C25: One cycle of the interconnect implements round-robin arbitration.  In a well-formed state it
  does not fail; exactly the packets that the reference grants leave their input buffers, each
  destination receives the granted packet and nothing else (the DRAM channels in the queue of the
  request's platform), and the state stays well-formed.
\<close>

theorem icnt_cycle_round_robin:
  assumes "icnt_wf cfg s"
  shows "\<exists>s'. icnt_cycle cfg s = Inr s' \<and> icnt_wf cfg s' \<and>
    (\<forall>i < unat (n_nodes s). in_buffers s' ! i =
       (if granted s (src_order s) i then tl (in_buffers s ! i) else in_buffers s ! i)) \<and>
    (\<forall>d < unat (dram_offset s). out_buffers s' ! d = out_buffers s ! d @ arrivals s (src_order s) d) \<and>
    (\<forall>ch < unat (dram_channels cfg).
       mem_req_queue1 s' ! ch = mem_req_queue1 s ! ch @ mem_arrivals cfg s (src_order s) SA ch \<and>
       mem_req_queue2 s' ! ch = mem_req_queue2 s ! ch @ mem_arrivals cfg s (src_order s) PIM ch)"
proof -
  obtain st where c: "icnt_cycle cfg s = Inr (cycled cfg s st)"
    and st: "length st = unat (dram_channels cfg)" "[] \<notin> set st"
    using icnt_cycle_eq [OF assms] by blast
  have "length (in_buffers s) = unat (n_nodes s)" "length (out_buffers s) = unat (dram_offset s)"
    "length (mem_req_queue1 s) = unat (dram_channels cfg)" "length (mem_req_queue2 s) = unat (dram_channels cfg)"
    using assms by (simp_all add: icnt_wf_def)
  then show ?thesis using c cycled_wf [OF assms st] by (auto simp: cycled_def served_def)
qed

subsection \<open>No node starves\<close>

text \<open>The number of cycles until node \<open>i\<close> comes first in the round-robin order.\<close>

definition rr_distance :: "icnt \<Rightarrow> nat \<Rightarrow> nat" where
  "rr_distance s i = (i + unat (n_nodes s) - unat (rr_start s)) mod unat (n_nodes s)"

lemma rr_first_granted:
  assumes wf: "icnt_wf cfg s" and r: "ready s (unat (rr_start s))" and lt: "rr_start s < n_nodes s"
  shows "granted s (src_order s) (unat (rr_start s))"
proof -
  have "unat (rr_start s) < unat (n_nodes s)" using lt by (simp add: word_less_nat_alt)
  then obtain k where "unat (n_nodes s) = Suc k" by (cases "unat (n_nodes s)") auto
  then have "\<exists>xs. src_order s = unat (rr_start s) # xs"
    using \<open>unat (rr_start s) < unat (n_nodes s)\<close> by (simp add: src_order_eq [OF wf] upt_conv_Cons del: upt_Suc)
  then show ?thesis using r by (auto simp: granted_def grant_def)
qed

lemma rr_distance_step:
  fixes i r n :: nat
  assumes "i < n" "r < n" "i \<noteq> r"
  shows "Suc ((i + n - (r + 1) mod n) mod n) = (i + n - r) mod n"
proof (cases "r + 1 = n")
  case True
  then have "i + n - r = i + 1" "i + 1 < n" using assms by simp_all
  then show ?thesis using assms True by simp
next
  case False
  then show ?thesis using assms by (auto simp: mod_if)
qed

lemma cycle_advances:
  assumes wf: "icnt_wf cfg s" and c: "icnt_cycle cfg s = Inr s'" and i: "i < unat (n_nodes s)"
    and r: "ready s i" and lt: "rr_start s < n_nodes s" and g: "\<not> granted s (src_order s) i"
    and cy: "unat (ic_cycles s) + 1 < 2 ^ 64"
  shows "in_buffers s' ! i = in_buffers s ! i \<and> ready s' i \<and> Suc (rr_distance s' i) = rr_distance s i"
proof -
  obtain st where s': "s' = cycled cfg s st"
    using icnt_cycle_eq [OF wf] c by auto
  have q: "in_buffers s' ! i = in_buffers s ! i"
    using wf i g by (simp add: s' cycled_def served_def icnt_wf_def)
  have "ic_cycles s \<le> ic_cycles s + 1" using cy by (simp add: word_le_nat_alt unat_word_ariths)
  then have "ready s' i" using r q unfolding ready_def s' cycled_simps by (metis order_trans)
  moreover have ne: "i \<noteq> unat (rr_start s)" using g r rr_first_granted [OF wf _ lt] by auto
  moreover have rr: "unat (rr_start s) < unat (n_nodes s)" using lt by (simp add: word_less_nat_alt)
  have "unat (rr_start s + 1) = unat (rr_start s) + 1"
    using rr by (intro unat_Suc_u32) (use wf in \<open>simp add: icnt_wf_def\<close>)
  then have "rr_distance s' i = (i + unat (n_nodes s) - (unat (rr_start s) + 1) mod unat (n_nodes s)) mod unat (n_nodes s)"
    by (simp add: rr_distance_def s' unat_mod_distrib)
  then have "Suc (rr_distance s' i) = rr_distance s i"
    using rr_distance_step [OF i rr ne] by (simp add: rr_distance_def)
  ultimately show ?thesis using q by simp
qed

lemma port_ready:
  assumes "port_frame s s'" "ready s i" "i < length (in_buffers s)"
  shows "ready s' i \<and> hd (in_buffers s' ! i) = hd (in_buffers s ! i) \<and> rr_distance s' i = rr_distance s i"
  using assms by (auto simp: port_frame_def ready_def rr_distance_def)

abbreviation icnt_run :: "sim_config \<Rightarrow> icnt \<Rightarrow> icnt_op list \<Rightarrow> fault + (MemoryAccess list \<times> icnt)" where
  "icnt_run cfg s ops \<equiv> foldE (icnt_step cfg) ([], s) ops"

lemma icnt_served_eventually:
  assumes "icnt_wf cfg s" "rr_start s < n_nodes s" "i < unat (n_nodes s)" "ready s i"
    and "\<forall>op \<in> set ops. op_ok cfg s op"
    and "foldE (icnt_step cfg) (l, s) ops = Inr r"
    and "rr_distance s i < count_list ops Op_cycle"
    and "unat (ic_cycles s) + length ops < 2 ^ 64"
  shows "\<exists>ops1 ops2 l1 s1 s2. ops = ops1 @ Op_cycle # ops2 \<and> count_list ops1 Op_cycle \<le> rr_distance s i \<and>
     foldE (icnt_step cfg) (l, s) ops1 = Inr (l1, s1) \<and> icnt_wf cfg s1 \<and> icnt_cycle cfg s1 = Inr s2 \<and>
     in_buffers s1 ! i \<noteq> [] \<and> hd (in_buffers s1 ! i) = hd (in_buffers s ! i) \<and>
     in_buffers s2 ! i = tl (in_buffers s1 ! i)"
  using assms
proof (induction ops arbitrary: l s)
  case Nil then show ?case by simp
next
  case (Cons op ops)
  note wf = Cons.prems(1) and lt = Cons.prems(2) and i = Cons.prems(3) and rd = Cons.prems(4)
  from Cons.prems(6) obtain l' s' where step: "icnt_step cfg (l, s) op = Inr (l', s')"
    and rest: "foldE (icnt_step cfg) (l', s') ops = Inr r" by auto
  have len: "length (in_buffers s) = unat (n_nodes s)" using wf by (simp add: icnt_wf_def)
  have cont: ?case if w: "icnt_wf cfg s'" "rr_start s' < n_nodes s'" "n_nodes s' = n_nodes s" "dram_offset s' = dram_offset s"
      "ready s' i" "hd (in_buffers s' ! i) = hd (in_buffers s ! i)"
      "rr_distance s' i + (if op = Op_cycle then 1 else 0) = rr_distance s i" "unat (ic_cycles s') \<le> unat (ic_cycles s) + 1"
  proof -
    have "op_ok cfg s' = op_ok cfg s" using w by (intro op_ok_cong) simp_all
    then obtain ops1 ops2 l1 s1 s2 where *: "ops = ops1 @ Op_cycle # ops2" "count_list ops1 Op_cycle \<le> rr_distance s' i"
       "foldE (icnt_step cfg) (l', s') ops1 = Inr (l1, s1)" "icnt_wf cfg s1" "icnt_cycle cfg s1 = Inr s2"
       "in_buffers s1 ! i \<noteq> []" "hd (in_buffers s1 ! i) = hd (in_buffers s' ! i)"
       "in_buffers s2 ! i = tl (in_buffers s1 ! i)"
      using Cons.IH [OF w(1,2) _ w(5) _ rest] w Cons.prems i by (auto split: if_splits)
    show ?thesis
      by (rule exI [of _ "op # ops1"], rule exI [of _ ops2], rule exI [of _ l1], rule exI [of _ s1], rule exI [of _ s2])
        (use * w step in \<open>auto split: if_splits\<close>)
  qed
  show ?case
  proof (cases "op = Op_cycle")
    case False
    then have p: "icnt_wf cfg s'" "port_frame s s'" using icnt_step_port [OF wf step] Cons.prems(5) by auto
    show ?thesis
      by (rule cont) (use p port_ready [OF p(2) rd] len i lt False in \<open>auto simp: port_frame_def\<close>)
  next
    case True
    then have c: "icnt_cycle cfg s = Inr s'" using step by simp
    then obtain st where s': "s' = cycled cfg s st" using icnt_cycle_eq [OF wf] by auto
    show ?thesis
    proof (cases "granted s (src_order s) i")
      case True
      then have "in_buffers s' ! i = tl (in_buffers s ! i)" using i len by (simp add: s' cycled_def served_def)
      then show ?thesis using c wf rd \<open>op = Op_cycle\<close>
        by (intro exI [of _ "[]"] exI [of _ ops] exI [of _ l] exI [of _ s] exI [of _ s']) (auto simp: ready_def)
    next
      case False
      have cy: "unat (ic_cycles s) + 1 < 2 ^ 64" using Cons.prems(8) by simp
      note adv = cycle_advances [OF wf c i rd lt False cy]
      show ?thesis
        by (rule cont) (use adv icnt_cycle_wf [OF wf c] cy \<open>op = Op_cycle\<close> in \<open>auto simp: s' unat_word_ariths\<close>)
    qed
  qed
qed

text \<open>
  C23: No node starves.  A packet that is ready at the head of an input buffer leaves it in one of
  the next \<open>n_nodes\<close> cycles, whatever the other nodes send and whatever is pushed to or popped
  from the ports in between: the round-robin start passes every node.
\<close>

theorem icnt_no_starvation:
  assumes "icnt_wf cfg s" "rr_start s < n_nodes s" "i < unat (n_nodes s)" "ready s i"
    and "\<forall>op \<in> set ops. op_ok cfg s op" "icnt_run cfg s ops = Inr r"
    and "unat (n_nodes s) \<le> count_list ops Op_cycle" "unat (ic_cycles s) + length ops < 2 ^ 64"
  shows "\<exists>ops1 ops2 l1 s1 s2. ops = ops1 @ Op_cycle # ops2 \<and> count_list ops1 Op_cycle < unat (n_nodes s) \<and>
     icnt_run cfg s ops1 = Inr (l1, s1) \<and> icnt_cycle cfg s1 = Inr s2 \<and>
     in_buffers s1 ! i \<noteq> [] \<and> hd (in_buffers s1 ! i) = hd (in_buffers s ! i) \<and>
     in_buffers s2 ! i = tl (in_buffers s1 ! i)"
proof -
  have "rr_distance s i < unat (n_nodes s)" using assms(3) by (simp add: rr_distance_def)
  then show ?thesis
    using icnt_served_eventually [OF assms(1-6) _ assms(8)] assms(7) by fastforce
qed

subsection \<open>Conservation\<close>

text \<open>The requests in the network, up to the platform, which \<open>cycle\<close> may overwrite.\<close>

definition strip_sp :: "MemoryAccess \<Rightarrow> MemoryAccess" where
  "strip_sp m = m\<lparr>ma_stage_platform := SA\<rparr>"

definition inflight :: "icnt \<Rightarrow> MemoryAccess multiset" where
  "inflight s = image_mset strip_sp (image_mset en_access (mset (concat (in_buffers s))) +
     mset (concat (out_buffers s)) + mset (concat (mem_req_queue1 s)) + mset (concat (mem_req_queue2 s)))"

fun pushed :: "icnt_op list \<Rightarrow> MemoryAccess list" where
  "pushed [] = []"
| "pushed (Op_push src dest m # ops) = m # pushed ops"
| "pushed (op # ops) = pushed ops"

lemma inflight_forward:
  assumes "icnt_forward cfg s i = Inr s'"
  shows "inflight s' = inflight s"
proof (cases "s' = s")
  case False
  from assms False obtain f rest t where i: "i < length (in_buffers s)" and q: "in_buffers s ! i = f # rest"
    and d: "icnt_deliver cfg (en_dest f) (en_access f) s = Inr t"
    and s': "s' = t\<lparr>in_buffers := (in_buffers t)[i := rest], busy_node := (busy_node t)[unat (en_dest f) := True]\<rparr>"
    by (auto simp: icnt_forward_def split: list.splits if_splits)
  have ib: "in_buffers t = in_buffers s" using d by (auto simp: icnt_deliver_def Let_def split: if_splits)
  have m: "mset (concat (in_buffers s)) = mset (concat (in_buffers s')) + {#f#}"
    using mset_concat_update [OF i, of rest] q by (simp add: s' ib)
  have "inflight t = inflight s + {#strip_sp (en_access f)#}"
    using d by (auto simp: icnt_deliver_def Let_def inflight_def strip_sp_def split: if_splits dest!: push_queue_mset)
  then show ?thesis using m by (simp add: inflight_def s' ib)
qed simp

lemma inflight_frame:
  "in_buffers s' = in_buffers s \<Longrightarrow> out_buffers s' = out_buffers s \<Longrightarrow> mem_req_queue1 s' = mem_req_queue1 s \<Longrightarrow>
   mem_req_queue2 s' = mem_req_queue2 s \<Longrightarrow> inflight s' = inflight s"
  by (simp add: inflight_def)

lemma inflight_cycle:
  assumes "icnt_cycle cfg s = Inr s'"
  shows "inflight s' = inflight s"
proof -
  from assms obtain t u where t: "foldE (icnt_forward cfg) s (src_order s) = Inr t"
    and u: "foldE (icnt_stat_step cfg) t [0..<unat (dram_channels cfg)] = Inr u"
    and s': "s' = u\<lparr>busy_node := map (\<lambda>_. False) (busy_node u), rr_start := (rr_start u + 1) mod n_nodes u, ic_cycles := ic_cycles u + 1\<rparr>"
    by (auto simp: icnt_cycle_def split: if_splits)
  have "inflight t = inflight s"
    by (rule foldE_invariant [where I = "\<lambda>x. inflight x = inflight s", OF t]) (simp_all add: inflight_forward)
  moreover have "inflight u = inflight t"
    by (rule foldE_invariant [where I = "\<lambda>x. inflight x = inflight t", OF u])
      (auto simp: icnt_stat_step_def inflight_def split: if_splits)
  moreover have "inflight s' = inflight u" by (rule inflight_frame) (simp_all add: s')
  ultimately show ?thesis by simp
qed

lemma mset_concat_tl:
  "i < length qs \<Longrightarrow> qs ! i = x # xs \<Longrightarrow> mset (concat qs) = mset (concat (qs[i := xs])) + {#x#}"
  using mset_concat_update [of i qs xs] by simp

lemma inflight_step:
  assumes "icnt_step cfg (l, s) op = Inr (l', s')"
  shows "image_mset strip_sp (mset l') + inflight s' =
    image_mset strip_sp (mset l) + inflight s + image_mset strip_sp (mset (pushed [op]))"
proof (cases op)
  case (Op_push src dest m)
  define f where "f = \<lparr>en_finish_cycle = (if in_buffers s ! src = [] then ic_cycles s + ucast (ic_latency s)
    else en_finish_cycle (last (in_buffers s ! src)) + 1), en_dest = dest, en_access = m\<rparr>"
  from Op_push assms have p: "push_queue src f (in_buffers s) = Inr (in_buffers s')" "l' = l"
    and r: "out_buffers s' = out_buffers s" "mem_req_queue1 s' = mem_req_queue1 s" "mem_req_queue2 s' = mem_req_queue2 s"
    by (auto simp: icnt_push_def push_queue_def f_def Let_def)
  have "en_access f = m" by (simp add: f_def)
  then show ?thesis using push_queue_mset [OF p(1)] p(2) Op_push by (simp add: inflight_def r)
next
  case Op_cycle
  then show ?thesis using assms inflight_cycle by auto
next
  case (Op_pop nid)
  with assms obtain m t where m: "icnt_top nid s = Inr m" "l' = l @ [m]"
    and t: "\<exists>m ch. icnt_update_stat m ch s = Inr t"
    and s': "s' = t\<lparr>out_buffers := (out_buffers t)[unat nid := tl (out_buffers t ! unat nid)]\<rparr>"
    by (auto simp: icnt_pop_def split: if_splits)
  from t icnt_update_stat_Inr obtain st where t': "t = s\<lparr>ic_stats := st\<rparr>" by blast
  from m(1) obtain ms where "unat nid < length (out_buffers s)" "out_buffers s ! unat nid = m # ms"
    by (auto simp: icnt_top_def icnt_is_empty_def)
  then show ?thesis using mset_concat_tl [of "unat nid" "out_buffers s" m ms] m(2) Op_pop
    by (simp add: inflight_def s' t')
next
  case (Op_memreq_pop1 cid)
  with assms obtain m where m: "memreq_top cid (mem_req_queue1 s) = Inr m" "l' = l @ [m]"
    and s': "s' = s\<lparr>mem_req_queue1 := (mem_req_queue1 s)[cid := tl (mem_req_queue1 s ! cid)]\<rparr>"
    by (auto simp: memreq_pop1_def has_memreq_def)
  from m(1) obtain ms where "cid < length (mem_req_queue1 s)" "mem_req_queue1 s ! cid = m # ms"
    by (auto simp: memreq_top_def has_memreq_def)
  then show ?thesis using mset_concat_tl [of cid "mem_req_queue1 s" m ms] m(2) Op_memreq_pop1
    by (simp add: inflight_def s')
next
  case (Op_memreq_pop2 cid)
  with assms obtain m where m: "memreq_top cid (mem_req_queue2 s) = Inr m" "l' = l @ [m]"
    and s': "s' = s\<lparr>mem_req_queue2 := (mem_req_queue2 s)[cid := tl (mem_req_queue2 s ! cid)]\<rparr>"
    by (auto simp: memreq_pop2_def has_memreq_def)
  from m(1) obtain ms where "cid < length (mem_req_queue2 s)" "mem_req_queue2 s ! cid = m # ms"
    by (auto simp: memreq_top_def has_memreq_def)
  then show ?thesis using mset_concat_tl [of cid "mem_req_queue2 s" m ms] m(2) Op_memreq_pop2
    by (simp add: inflight_def s')
qed

lemma pushed_Cons: "pushed (op # ops) = pushed [op] @ pushed ops"
  by (cases op) simp_all

lemma inflight_run:
  "foldE (icnt_step cfg) (l, s) ops = Inr (l', s') \<Longrightarrow>
   image_mset strip_sp (mset l') + inflight s' =
     image_mset strip_sp (mset l) + inflight s + image_mset strip_sp (mset (pushed ops))"
proof (induction ops arbitrary: l s)
  case (Cons op ops)
  then obtain l1 s1 where s: "icnt_step cfg (l, s) op = Inr (l1, s1)"
    and r: "foldE (icnt_step cfg) (l1, s1) ops = Inr (l', s')" by auto
  show ?case using Cons.IH [OF r] inflight_step [OF s] by (simp add: pushed_Cons [of op ops])
qed simp

text \<open>
  C16: The interconnect neither loses nor duplicates a request: after any sequence of cycles,
  pushes and pops the requests that left it together with those still in it are those that were in
  it before and those pushed (up to the platform field, which the interconnect may overwrite).
\<close>

theorem icnt_conserves_requests:
  assumes "icnt_run cfg s ops = Inr (left, s')"
  shows "image_mset strip_sp (mset left) + inflight s' = inflight s + image_mset strip_sp (mset (pushed ops))"
  using inflight_run [OF assms] by simp

subsection \<open>Witnesses\<close>

lemma SimpleInterconnect_new_wf:
  assumes "0 < unat (dram_channels cfg)" "(unat (num_cores cfg) + 1) * unat (dram_channels cfg) < 2 ^ 31"
    and "unat rr < 2 ^ 31" "icnt_freq cfg \<noteq> 0"
  shows "icnt_wf cfg (SimpleInterconnect_new cfg rr)"
proof -
  have b: "unat (num_cores cfg) * unat (dram_channels cfg) + unat (dram_channels cfg) < 2 ^ 31" using assms(2) by simp
  then have o: "unat (num_cores cfg * dram_channels cfg) = unat (num_cores cfg) * unat (dram_channels cfg)"
    by (simp add: unat_word_ariths)
  then have n: "unat (num_cores cfg * dram_channels cfg + dram_channels cfg) =
     unat (num_cores cfg) * unat (dram_channels cfg) + unat (dram_channels cfg)"
    using b by (simp add: unat_word_ariths)
  show ?thesis using assms b by (auto simp: icnt_wf_def SimpleInterconnect_new_def Let_def n o)
qed

definition icnt_demo_cfg :: sim_config where
  "icnt_demo_cfg = demo_cfg\<lparr>dram_channels := 1\<rparr>"

definition icnt_demo_req :: MemoryAccess where
  "icnt_demo_req = \<lparr>ma_id = 7, dram_address = 0, spad_address = 0, ma_size = 64, req_type = READ, ma_request = True,
     ma_core_id = 0, ma_start_cycle = 0, dram_enter_cycle = 0, dram_finish_cycle = 0, ma_buffer_id = 0,
     ma_parent = None, ma_stage_platform = SA\<rparr>"

text \<open>Two nodes, the core's port and one channel; the packet of the core is ready.\<close>

definition icnt_demo_state :: icnt where
  "icnt_demo_state = \<lparr>n_nodes = 2, dram_offset = 1, ic_cycles = 1, ic_stats = [[MemoryIOStat_new 0 0 250]],
     mem_cycle_interval = 250, ic_latency = 1, rr_start = 1, out_buffers = [[]],
     in_buffers = [[\<lparr>en_finish_cycle = 1, en_dest = 1, en_access = icnt_demo_req\<rparr>], []],
     busy_node = [False, False], mem_req_queue1 = [[]], mem_req_queue2 = [[]]\<rparr>"

lemma icnt_demo_wf: "icnt_wf icnt_demo_cfg icnt_demo_state"
proof -
  have "replicate 2 False = [False, False]" by (simp add: numeral_2_eq_2)
  then show ?thesis
    by (simp add: icnt_wf_def icnt_demo_state_def icnt_demo_cfg_def demo_cfg_def route_ok_def icnt_demo_req_def
      MemoryIOStat_new_def)
qed

lemma icnt_demo_state_facts:
  "rr_start icnt_demo_state < n_nodes icnt_demo_state" "unat (n_nodes icnt_demo_state) = 2"
  "ready icnt_demo_state 0" "unat (ic_cycles icnt_demo_state) = 1"
  by (simp_all add: icnt_demo_state_def ready_def)

lemma icnt_demo_run: "\<exists>s. icnt_run icnt_demo_cfg icnt_demo_state [Op_cycle, Op_cycle] = Inr ([], s)"
  using icnt_cycle_eq [OF icnt_demo_wf] icnt_cycle_wf [OF icnt_demo_wf] icnt_cycle_eq by fastforce

lemma icnt_cycle_round_robin_witness:
  "\<exists>s'. icnt_cycle icnt_demo_cfg icnt_demo_state = Inr s' \<and> in_buffers s' ! 0 = []"
proof -
  have o: "src_order icnt_demo_state = [1, 0]"
    unfolding src_order_eq [OF icnt_demo_wf] icnt_demo_state_facts(2) by (simp add: icnt_demo_state_def upt_conv_Cons)
  then have g: "granted icnt_demo_state (src_order icnt_demo_state) 0" "tl (in_buffers icnt_demo_state ! 0) = []"
    by (simp_all add: granted_def grant_def ready_def head_dest_def icnt_demo_state_def)
  show ?thesis using icnt_cycle_round_robin [OF icnt_demo_wf] g icnt_demo_state_facts(2) by force
qed

lemma icnt_no_starvation_witness:
  "\<exists>ops1 l1 s1 s2. icnt_run icnt_demo_cfg icnt_demo_state ops1 = Inr (l1, s1) \<and> icnt_cycle icnt_demo_cfg s1 = Inr s2 \<and>
     in_buffers s2 ! 0 = tl (in_buffers s1 ! 0)"
proof -
  obtain s where r: "icnt_run icnt_demo_cfg icnt_demo_state [Op_cycle, Op_cycle] = Inr ([], s)"
    using icnt_demo_run by blast
  have *: "0 < unat (n_nodes icnt_demo_state)" "\<forall>op \<in> set [Op_cycle, Op_cycle]. op_ok icnt_demo_cfg icnt_demo_state op"
    "unat (n_nodes icnt_demo_state) \<le> count_list [Op_cycle, Op_cycle] Op_cycle"
    "unat (ic_cycles icnt_demo_state) + length [Op_cycle, Op_cycle] < 2 ^ 64"
    using icnt_demo_state_facts(2,4) by (simp_all add: op_ok_def)
  show ?thesis
    using icnt_no_starvation [OF icnt_demo_wf icnt_demo_state_facts(1) *(1) icnt_demo_state_facts(3) *(2) r *(3,4)] by blast
qed

lemma icnt_conserves_requests_witness:
  "\<exists>s. icnt_run icnt_demo_cfg icnt_demo_state [Op_cycle, Op_cycle] = Inr ([], s) \<and> inflight s = inflight icnt_demo_state"
proof -
  obtain s where r: "icnt_run icnt_demo_cfg icnt_demo_state [Op_cycle, Op_cycle] = Inr ([], s)"
    using icnt_demo_run by blast
  show ?thesis using icnt_conserves_requests [OF r] r by auto
qed

end
