(* ===== verification/MemSystem.thy ===== *)
theory MemSystem
  imports MemControllerRun Icnt
begin

text \<open>
  The memory as the NPU side sees it (NewtonSim/src/NewtonSim.cc, dram_system.cc, Dram.cc): the controllers of all
  channels, the requests that wait for their answers, the response queues, and the class \<open>PIM\<close> around them.
\<close>

subsection \<open>Response queues\<close>

text \<open>The answers of a channel that the NPU side has not taken yet, and the room reserved for those to come.\<close>

record 'a ResponseQueue =
  rq_Size :: u32
  NumReserved :: u32
  OutputQueue :: "'a list"

definition ResponseQueue_new :: "u32 \<Rightarrow> 'a ResponseQueue" where
  "ResponseQueue_new n = \<lparr>rq_Size = n, NumReserved = 0, OutputQueue = []\<rparr>"

definition isAvailable :: "u32 \<Rightarrow> 'a ResponseQueue \<Rightarrow> bool" where
  "isAvailable k q \<longleftrightarrow> ucast (NumReserved q) + of_nat (length (OutputQueue q)) + ucast k - 1 < (ucast (rq_Size q) :: u64)"

definition rq_reserve :: "'a ResponseQueue \<Rightarrow> fault + 'a ResponseQueue" where
  "rq_reserve q = ast (NumReserved q < rq_Size q) (Inr (q\<lparr>NumReserved := NumReserved q + 1\<rparr>))"

definition rq_push :: "'a \<Rightarrow> 'a ResponseQueue \<Rightarrow> fault + 'a ResponseQueue" where
  "rq_push x q = ast (NumReserved q > 0) (Inr (q\<lparr>OutputQueue := OutputQueue q @ [x], NumReserved := NumReserved q - 1\<rparr>))"

definition rq_isEmpty :: "'a ResponseQueue \<Rightarrow> bool" where
  "rq_isEmpty q \<longleftrightarrow> OutputQueue q = []"

definition rq_pop :: "'a ResponseQueue \<Rightarrow> fault + 'a ResponseQueue" where
  "rq_pop q = (case OutputQueue q of [] \<Rightarrow> Inl Undefined | _ # xs \<Rightarrow> Inr (q\<lparr>OutputQueue := xs\<rparr>))"

definition rq_top :: "'a ResponseQueue \<Rightarrow> fault + 'a" where
  "rq_top q = front (OutputQueue q)"

subsection \<open>The memory\<close>

text \<open>
  \<open>JedecDRAMSystem\<close> is its clock and its controllers, \<open>NewtonSim\<close> the requests that wait for an answer, by
  address, and the response queues.  A request is a \<open>void *\<close>, here a value of any type.  A multimap from
  addresses to requests is a list; \<open>find\<close> takes the first of an address.
\<close>

record 'a NewtonSim =
  ds_clk :: u64
  ds_last_req_clk :: u64
  ds_ctrls :: "Controller list"
  ds_epoch_period :: int
  pending_read_reqs :: "(u64 \<times> 'a) list"
  pending_write_reqs :: "(u64 \<times> 'a) list"
  response_queues :: "'a ResponseQueue list"

text \<open>
  The constructor for the memory type NEUPIMS; the controllers of the other two types are not modelled.
  \<open>epoch\<close> is the parameter \<open>epoch_period\<close> of the configuration file.
\<close>

fun new_ctrls :: "mem_config \<Rightarrow> int list \<Rightarrow> fault + Controller list" where
  "new_ctrls cfg [] = Inr []"
| "new_ctrls cfg (i # is) = bindE (Controller_new i cfg) (\<lambda>c. bindE (new_ctrls cfg is) (\<lambda>cs. Inr (c # cs)))"

definition NewtonSim_new :: "mem_config \<Rightarrow> int \<Rightarrow> fault + 'a NewtonSim" where
  "NewtonSim_new cfg epoch = (let n = mc_channels (mc_structure cfg) in
     bindE (new_ctrls cfg [0..n - 1]) (\<lambda>cs.
     Inr \<lparr>ds_clk = 0, ds_last_req_clk = 0, ds_ctrls = cs, ds_epoch_period = epoch, pending_read_reqs = [], pending_write_reqs = [],
       response_queues = replicate (nat n) (ResponseQueue_new 4352)\<rparr>))"

definition channel_of :: "mem_config \<Rightarrow> u64 \<Rightarrow> nat" where
  "channel_of cfg a = nat (GetChannel (mc_fields cfg) a)"

definition upd_queue :: "nat \<Rightarrow> ('a ResponseQueue \<Rightarrow> fault + 'a ResponseQueue) \<Rightarrow> 'a NewtonSim \<Rightarrow> fault + 'a NewtonSim" where
  "upd_queue ch f n = bindE (at (response_queues n) ch) (\<lambda>q. bindE (f q) (\<lambda>q.
     Inr (n\<lparr>response_queues := (response_queues n)[ch := q]\<rparr>)))"

text \<open>The two callbacks exit when no request of the address waits.\<close>

definition read_callback :: "mem_config \<Rightarrow> u64 \<Rightarrow> 'a NewtonSim \<Rightarrow> fault + 'a NewtonSim" where
  "read_callback cfg a n = (case filter (\<lambda>(k, _). k = a) (pending_read_reqs n) of [] \<Rightarrow> Inl Exited
     | (_, x) # _ \<Rightarrow> bindE (upd_queue (channel_of cfg a) (rq_push x) n) (\<lambda>n.
         Inr (n\<lparr>pending_read_reqs := erase_where (\<lambda>(k, _). k = a) (pending_read_reqs n)\<rparr>)))"

definition write_callback :: "mem_config \<Rightarrow> u64 \<Rightarrow> 'a NewtonSim \<Rightarrow> fault + 'a NewtonSim" where
  "write_callback cfg a n = (case filter (\<lambda>(k, _). k = a) (pending_write_reqs n) of [] \<Rightarrow> Inl Exited
     | (_, x) # _ \<Rightarrow> bindE (upd_queue (channel_of cfg a) (rq_push x) n) (\<lambda>n.
         Inr (n\<lparr>pending_write_reqs := erase_where (\<lambda>(k, _). k = a) (pending_write_reqs n)\<rparr>)))"

subsection \<open>Adding and taking requests\<close>

definition DRAM_WillAcceptTransaction :: "mem_config \<Rightarrow> u64 \<Rightarrow> TransactionType \<Rightarrow> 'a NewtonSim \<Rightarrow> fault + bool" where
  "DRAM_WillAcceptTransaction cfg a ty n = bindE (at (ds_ctrls n) (channel_of cfg a)) (WillAcceptTransaction cfg ty)"

definition DRAM_AddTransaction :: "mem_config \<Rightarrow> u64 \<Rightarrow> TransactionType \<Rightarrow> 'a NewtonSim \<Rightarrow> fault + 'a NewtonSim" where
  "DRAM_AddTransaction cfg a ty n = (let ch = channel_of cfg a in
     bindE (DRAM_WillAcceptTransaction cfg a ty n) (\<lambda>ok. ast ok (bindE (at (ds_ctrls n) ch) (\<lambda>c.
       Inr (n\<lparr>ds_ctrls := (ds_ctrls n)[ch := AddTransaction \<lparr>tr_addr = a, added_cycle = 0, complete_cycle = 0, tr_type = ty\<rparr> c],
              ds_last_req_clk := ds_clk n\<rparr>)))))"

definition Mem_WillAcceptTransaction :: "mem_config \<Rightarrow> u64 \<Rightarrow> TransactionType \<Rightarrow> 'a NewtonSim \<Rightarrow> fault + bool" where
  "Mem_WillAcceptTransaction cfg a ty n = bindE (at (response_queues n) (channel_of cfg a)) (\<lambda>q.
     if isAvailable 1 q \<or> ty = TT_P_HEADER then DRAM_WillAcceptTransaction cfg a ty n else Inr False)"

definition PushToPendingQueue :: "u64 \<Rightarrow> TransactionType \<Rightarrow> 'a \<Rightarrow> 'a NewtonSim \<Rightarrow> 'a NewtonSim" where
  "PushToPendingQueue a ty x n =
     (if ty \<in> {TT_GWRITE, TT_COMP, TT_READRES, TT_READ, TT_COMPS_READRES} then n\<lparr>pending_read_reqs := pending_read_reqs n @ [(a, x)]\<rparr>
      else if ty = TT_WRITE then n\<lparr>pending_write_reqs := pending_write_reqs n @ [(a, x)]\<rparr> else n)"

definition Mem_AddTransaction :: "mem_config \<Rightarrow> u64 \<Rightarrow> TransactionType \<Rightarrow> 'a \<Rightarrow> 'a NewtonSim \<Rightarrow> fault + 'a NewtonSim" where
  "Mem_AddTransaction cfg a ty x n =
     bindE (if ty \<noteq> TT_P_HEADER then bindE (upd_queue (channel_of cfg a) rq_reserve n) (\<lambda>n. Inr (PushToPendingQueue a ty x n)) else Inr n)
       (DRAM_AddTransaction cfg a ty)"

definition Mem_IsEmpty :: "nat \<Rightarrow> 'a NewtonSim \<Rightarrow> fault + bool" where
  "Mem_IsEmpty ch n = bindE (at (response_queues n) ch) (\<lambda>q. Inr (rq_isEmpty q))"

definition Mem_Top :: "nat \<Rightarrow> 'a NewtonSim \<Rightarrow> fault + 'a" where
  "Mem_Top ch n = bindE (at (response_queues n) ch) rq_top"

definition Mem_Pop :: "nat \<Rightarrow> 'a NewtonSim \<Rightarrow> fault + 'a NewtonSim" where
  "Mem_Pop ch = upd_queue ch rq_pop"

subsection \<open>A cycle\<close>

abbreviation read_types :: "TransactionType set" where
  "read_types \<equiv> {TT_READ, TT_GWRITE, TT_COMP, TT_READRES, TT_COMPS_READRES}"

text \<open>The loop over the answers of a controller; each answer shortens its return queue.\<close>

lemma ReturnDoneTrans_shrinks:
  "ReturnDoneTrans clk c = (r, c') \<Longrightarrow> snd r \<noteq> TT_SIZE \<Longrightarrow> length (return_queue c') < length (return_queue c)"
proof -
  assume r: "ReturnDoneTrans clk c = (r, c')" "snd r \<noteq> TT_SIZE"
  have "filter p xs = t # ts \<Longrightarrow> length (erase_where p xs) < length xs" for p t ts and xs :: "Transaction list"
    by (induction xs) (auto split: if_splits)
  then show ?thesis using r by (auto simp: ReturnDoneTrans_def Let_def split: list.splits if_splits)
qed

function return_answers :: "mem_config \<Rightarrow> u64 \<Rightarrow> Controller \<Rightarrow> 'a NewtonSim \<Rightarrow> fault + (Controller \<times> 'a NewtonSim)" where
  "return_answers cfg clk c n = (let (r, c') = ReturnDoneTrans clk c in
     if snd r = TT_WRITE then bindE (write_callback cfg (fst r) n) (return_answers cfg clk c')
     else if snd r \<in> read_types then bindE (read_callback cfg (fst r) n) (return_answers cfg clk c')
     else Inr (c', n))"
  by pat_completeness auto
termination
  by (relation "measure (\<lambda>(_, _, c, _). length (return_queue c))") (auto dest!: ReturnDoneTrans_shrinks [OF sym])

declare return_answers.simps [simp del]

definition answer_channel :: "mem_config \<Rightarrow> 'a NewtonSim \<Rightarrow> nat \<Rightarrow> fault + 'a NewtonSim" where
  "answer_channel cfg n i = bindE (at (ds_ctrls n) i) (\<lambda>c. bindE (return_answers cfg (ds_clk n) c n) (\<lambda>(c, n).
     Inr (n\<lparr>ds_ctrls := (ds_ctrls n)[i := c]\<rparr>)))"

definition tick_channel :: "mem_config \<Rightarrow> 'a NewtonSim \<Rightarrow> nat \<Rightarrow> fault + 'a NewtonSim" where
  "tick_channel cfg n i = bindE (at (ds_ctrls n) i) (\<lambda>c. bindE (Controller_ClockTick cfg c) (\<lambda>c.
     Inr (n\<lparr>ds_ctrls := (ds_ctrls n)[i := c]\<rparr>)))"

text \<open>At the end of an epoch, statistics are printed; the remainder by a period of 0 is undefined.\<close>

definition Mem_ClockTick :: "mem_config \<Rightarrow> 'a NewtonSim \<Rightarrow> fault + 'a NewtonSim" where
  "Mem_ClockTick cfg n = bindE (foldE (answer_channel cfg) n [0..<length (ds_ctrls n)]) (\<lambda>n.
     bindE (foldE (tick_channel cfg) n [0..<length (ds_ctrls n)]) (\<lambda>n.
     if (of_int (ds_epoch_period n) :: u64) = 0 then Inl Undefined else Inr (n\<lparr>ds_clk := ds_clk n + 1\<rparr>)))"

definition GetPIMCycles :: "'a NewtonSim \<Rightarrow> u64 list" where
  "GetPIMCycles n = map (\<lambda>c. total_pim_cycles (ct_queue c)) (ds_ctrls n)"

definition GetAvgPIMCycles :: "'a NewtonSim \<Rightarrow> fault + u64" where
  "GetAvgPIMCycles n = (if ds_ctrls n = [] then Inl Undefined else Inr (sum_list (GetPIMCycles n) div of_nat (length (ds_ctrls n))))"

definition Mem_ResetPIMCycle :: "'a NewtonSim \<Rightarrow> 'a NewtonSim" where
  "Mem_ResetPIMCycle n = n\<lparr>ds_ctrls := map (\<lambda>c. c\<lparr>ct_queue := ResetPIMCycle (ct_queue c)\<rparr>) (ds_ctrls n)\<rparr>"

subsection \<open>Runs of the memory\<close>

text \<open>
  The NPU side pushes a request that the memory accepts, lets it tick, and takes an answer.  A run lists the
  requests pushed, with their types, and those taken.
\<close>

inductive mem_run :: "mem_config \<Rightarrow> (TransactionType \<times> 'a) list \<Rightarrow> 'a list \<Rightarrow> 'a NewtonSim \<Rightarrow> bool" for cfg where
  mem_start: "NewtonSim_new cfg epoch = Inr n \<Longrightarrow> mem_run cfg [] [] n"
| mem_add: "mem_run cfg ps ts n \<Longrightarrow> ty \<in> npu_types \<Longrightarrow> Mem_WillAcceptTransaction cfg a ty n = Inr True \<Longrightarrow>
    Mem_AddTransaction cfg a ty x n = Inr n' \<Longrightarrow> mem_run cfg (ps @ [(ty, x)]) ts n'"
| mem_tick: "mem_run cfg ps ts n \<Longrightarrow> Mem_ClockTick cfg n = Inr n' \<Longrightarrow> mem_run cfg ps ts n'"
| mem_take: "mem_run cfg ps ts n \<Longrightarrow> Mem_Top ch n = Inr x \<Longrightarrow> Mem_Pop ch n = Inr n' \<Longrightarrow> mem_run cfg ps (ts @ [x]) n'"

text \<open>Every address belongs to a channel.\<close>

definition channel_map :: "mem_config \<Rightarrow> bool" where
  "channel_map cfg \<longleftrightarrow> (\<exists>c\<le>30. npu_layout c (mc_structure cfg) \<and> mc_fields cfg = npu_fields c)"

abbreviation n_channels :: "mem_config \<Rightarrow> nat" where
  "n_channels cfg \<equiv> nat (mc_channels (mc_structure cfg))"

lemma channel_of_less: "channel_map cfg \<Longrightarrow> channel_of cfg a < n_channels cfg"
proof -
  assume "channel_map cfg"
  then obtain c where c: "c \<le> 30" "npu_layout c (mc_structure cfg)" "mc_fields cfg = npu_fields c" by (auto simp: channel_map_def)
  have "GetChannel (npu_fields c) a = int (unat a div 64 div 2 ^ 4 mod 2 ^ c)"
    using addr_field_shift [OF c(1), of a 4] by (simp add: GetChannel_def npu_fields_def)
  then have "channel_of cfg a < 2 ^ c" by (simp add: channel_of_def c(3) del: mod_mod_trivial)
  moreover have "n_channels cfg = 2 ^ c" using c(2) by (simp add: npu_layout_def nat_power_eq)
  ultimately show ?thesis by (simp only:)
qed

text \<open>The requests that the memory holds, and the addresses of a channel that wait in a multimap.\<close>

definition held :: "'a NewtonSim \<Rightarrow> 'a multiset" where
  "held n = mset (map snd (pending_read_reqs n)) + mset (map snd (pending_write_reqs n)) + mset (concat (map OutputQueue (response_queues n)))"

definition keys_at :: "mem_config \<Rightarrow> nat \<Rightarrow> (u64 \<times> 'a) list \<Rightarrow> u64 multiset" where
  "keys_at cfg ch ps = filter_mset (\<lambda>a. channel_of cfg a = ch) (mset (map fst ps))"

definition channel_inv :: "mem_config \<Rightarrow> (u64 \<times> 'a) list \<Rightarrow> (u64 \<times> 'a) list \<Rightarrow> nat \<Rightarrow> Controller \<Rightarrow> 'a ResponseQueue \<Rightarrow> bool" where
  "channel_inv cfg rd wr ch c q \<longleftrightarrow> ctl_inv c \<and> (\<forall>r\<in>#outstanding c. channel_of cfg (fst r) = ch \<and> snd r \<in> insert TT_WRITE read_types) \<and>
     image_mset fst (filter_mset (\<lambda>r. snd r \<noteq> TT_WRITE) (outstanding c)) = keys_at cfg ch rd \<and>
     image_mset fst (filter_mset (\<lambda>r. snd r = TT_WRITE) (outstanding c)) = keys_at cfg ch wr \<and>
     unat (NumReserved q) = size (outstanding c) \<and> rq_Size q = 4352 \<and> unat (NumReserved q) + length (OutputQueue q) \<le> 4352"

definition mem_inv :: "mem_config \<Rightarrow> 'a NewtonSim \<Rightarrow> bool" where
  "mem_inv cfg n \<longleftrightarrow> length (ds_ctrls n) = n_channels cfg \<and> length (response_queues n) = n_channels cfg \<and>
     (\<forall>ch<n_channels cfg. channel_inv cfg (pending_read_reqs n) (pending_write_reqs n) ch (ds_ctrls n ! ch) (response_queues n ! ch))"

lemma mem_invD:
  assumes "mem_inv cfg n"
  shows "length (ds_ctrls n) = n_channels cfg" "length (response_queues n) = n_channels cfg"
    "ch < n_channels cfg \<Longrightarrow> channel_inv cfg (pending_read_reqs n) (pending_write_reqs n) ch (ds_ctrls n ! ch) (response_queues n ! ch)"
  using assms by (simp_all add: mem_inv_def)

lemma channel_invD:
  assumes "channel_inv cfg rd wr ch c q"
  shows "ctl_inv c" "r \<in># outstanding c \<Longrightarrow> channel_of cfg (fst r) = ch \<and> snd r \<in> insert TT_WRITE read_types"
    "image_mset fst (filter_mset (\<lambda>r. snd r \<noteq> TT_WRITE) (outstanding c)) = keys_at cfg ch rd"
    "image_mset fst (filter_mset (\<lambda>r. snd r = TT_WRITE) (outstanding c)) = keys_at cfg ch wr"
    "unat (NumReserved q) = size (outstanding c)" "rq_Size q = 4352" "unat (NumReserved q) + length (OutputQueue q) \<le> 4352"
  using assms by (auto simp: channel_inv_def)

subsection \<open>Looking up a request\<close>

lemma find_erase:
  assumes "filter (\<lambda>(k, _). k = a) ps = (k, x) # rest"
  shows "k = a" "mset ps = add_mset (a, x) (mset (erase_where (\<lambda>(k, _). k = a) ps))"
proof -
  show k: "k = a" using assms by (auto dest: filter_eq_ConsD)
  show "mset ps = add_mset (a, x) (mset (erase_where (\<lambda>(k, _). k = a) ps))"
    using assms unfolding k by (induction ps) (auto split: if_splits)
qed

lemma found_values:
  "filter (\<lambda>(k, _). k = a) ps = (k, x) # rest \<Longrightarrow> mset (map snd ps) = add_mset x (mset (map snd (erase_where (\<lambda>(k, _). k = a) ps)))"
  using arg_cong [OF find_erase(2), of a ps k x rest "image_mset snd"] by simp

lemma found: "a \<in># keys_at cfg ch ps \<Longrightarrow> \<exists>x rest. filter (\<lambda>(k, _). k = a) ps = (a, x) # rest"
  by (induction ps) (auto simp: keys_at_def split: if_splits)

lemma keys_at_mset: "keys_at cfg ch ps = filter_mset (\<lambda>a. channel_of cfg a = ch) (image_mset fst (mset ps))"
  by (simp add: keys_at_def)

lemma keys_at_erase:
  assumes "filter (\<lambda>(k, _). k = a) ps = (k, x) # rest"
  shows "keys_at cfg ch ps = keys_at cfg ch (erase_where (\<lambda>(k, _). k = a) ps) + (if channel_of cfg a = ch then {#a#} else {#})"
  unfolding keys_at_mset find_erase(2) [OF assms] by simp

lemma keys_at_snoc: "keys_at cfg ch (ps @ [(a, x)]) = keys_at cfg ch ps + (if channel_of cfg a = ch then {#a#} else {#})"
  by (simp add: keys_at_def)

lemma unat_pred: "x > 0 \<Longrightarrow> unat (x - 1 :: u32) = unat x - 1"
  by (metis unat_minus_one word_neq_0_conv)

text \<open>The outputs of one channel change.\<close>

lemma outputs_update:
  "i < length qs \<Longrightarrow> mset (concat (map OutputQueue (qs[i := q]))) + mset (OutputQueue (qs ! i)) = mset (concat (map OutputQueue qs)) + mset (OutputQueue q)"
  using mset_concat_update [of i "map OutputQueue qs" "OutputQueue q"] by (simp add: map_update)

subsection \<open>Answers\<close>

text \<open>
  A controller hands out an answer: its request is found, there is room for it, and it moves to the
  response queue.
\<close>

definition same_ctrls :: "'a NewtonSim \<Rightarrow> 'a NewtonSim \<Rightarrow> bool" where
  "same_ctrls n n' \<longleftrightarrow> ds_ctrls n' = ds_ctrls n \<and> ds_clk n' = ds_clk n \<and> ds_epoch_period n' = ds_epoch_period n \<and> held n' = held n"

lemma callback_ok:
  fixes n :: "'a NewtonSim"
  assumes cm: "channel_map cfg" and inv: "mem_inv cfg (n\<lparr>ds_ctrls := (ds_ctrls n)[i := c]\<rparr>)" and i: "i < n_channels cfg"
    and r: "ReturnDoneTrans clk c = (r, c')" "snd r = TT_WRITE \<or> snd r \<in> read_types"
  shows "\<exists>n'. (if snd r = TT_WRITE then write_callback cfg (fst r) n else read_callback cfg (fst r) n) = Inr n' \<and>
    mem_inv cfg (n'\<lparr>ds_ctrls := (ds_ctrls n')[i := c']\<rparr>) \<and> same_ctrls n n'"
proof -
  note D = mem_invD [OF inv, simplified]
  note ch = D(3) [OF i]
  have li: "(ds_ctrls n)[i := c] ! i = c" using D(1) i by simp
  note C = channel_invD [OF ch [unfolded li]]
  have o: "outstanding c = add_mset r (outstanding c')" using done_outstanding [OF r(1)] r(2) by auto
  have cl: "channel_of cfg (fst r) = i" using C(2) [of r] o by simp
  let ?q = "response_queues n ! i"
  let ?q' = "\<lambda>x. ?q\<lparr>OutputQueue := OutputQueue ?q @ [x], NumReserved := NumReserved ?q - 1\<rparr>"
  have pos: "NumReserved ?q > 0" using C(5) o by (simp add: word_gt_0 unat_gt_0 [symmetric])
  have push: "upd_queue i (rq_push x) n = Inr (n\<lparr>response_queues := (response_queues n)[i := ?q' x]\<rparr>)" for x
    using D(2) i pos by (simp add: upd_queue_def rq_push_def)
  have num: "unat (NumReserved ?q - 1) = size (outstanding c')" using unat_pred [OF pos] C(5) o by simp
  have room: "size (outstanding c') + length (OutputQueue (?q' x)) \<le> 4352" for x using C(5,7) o by simp
  have ctl: "ctl_inv c'" using done_keeps [OF C(1) r(1)] .
  have ty: "\<forall>s\<in>#outstanding c'. channel_of cfg (fst s) = i \<and> snd s \<in> insert TT_WRITE read_types" using C(2) o by auto
  define rd where "rd = pending_read_reqs n"
  define wr where "wr = pending_write_reqs n"
  have step: "mem_inv cfg (n'\<lparr>ds_ctrls := (ds_ctrls n')[i := c']\<rparr>) \<and> same_ctrls n n'"
    if n': "n' = n\<lparr>response_queues := (response_queues n)[i := ?q' x], pending_read_reqs := rd', pending_write_reqs := wr'\<rparr>"
      and keys: "\<And>j. keys_at cfg j rd = keys_at cfg j rd' + (if snd r \<noteq> TT_WRITE \<and> j = i then {#fst r#} else {#})"
        "\<And>j. keys_at cfg j wr = keys_at cfg j wr' + (if snd r = TT_WRITE \<and> j = i then {#fst r#} else {#})"
      and vals: "mset (map snd rd) + mset (map snd wr) = add_mset x (mset (map snd rd') + mset (map snd wr'))" for x rd' wr' n'
  proof
    have i': "channel_inv cfg rd' wr' i c' (?q' x)"
      using C(3,4) keys(1) [of i] keys(2) [of i] ty ctl num room [of x] C(6)
      unfolding channel_inv_def rd_def [symmetric] wr_def [symmetric] o by (auto split: if_splits)
    have j': "channel_inv cfg rd' wr' j (ds_ctrls n ! j) (response_queues n ! j)" if "j < n_channels cfg" "j \<noteq> i" for j
    proof -
      have "channel_inv cfg rd wr j (ds_ctrls n ! j) (response_queues n ! j)" using D(3) [OF that(1)] that(2) by (simp add: rd_def wr_def)
      then show ?thesis using keys(1) [of j] keys(2) [of j] that(2) unfolding channel_inv_def by simp
    qed
    show "mem_inv cfg (n'\<lparr>ds_ctrls := (ds_ctrls n')[i := c']\<rparr>)"
      unfolding mem_inv_def
    proof (intro conjI allI impI)
      fix j assume j: "j < n_channels cfg"
      show "channel_inv cfg (pending_read_reqs (n'\<lparr>ds_ctrls := (ds_ctrls n')[i := c']\<rparr>)) (pending_write_reqs (n'\<lparr>ds_ctrls := (ds_ctrls n')[i := c']\<rparr>)) j
          (ds_ctrls (n'\<lparr>ds_ctrls := (ds_ctrls n')[i := c']\<rparr>) ! j) (response_queues (n'\<lparr>ds_ctrls := (ds_ctrls n')[i := c']\<rparr>) ! j)"
        using i' j' [OF j] j D(1,2) by (cases "j = i") (simp_all add: n')
    qed (use D(1,2) in \<open>simp_all add: n'\<close>)
    have "mset (concat (map OutputQueue ((response_queues n)[i := ?q' x]))) = add_mset x (mset (concat (map OutputQueue (response_queues n))))"
      using outputs_update [of i "response_queues n" "?q' x"] D(2) i by simp
    then show "same_ctrls n n'" using vals by (simp add: same_ctrls_def held_def n' rd_def wr_def)
  qed
  show ?thesis
  proof (cases "snd r = TT_WRITE")
    case True
    then have "fst r \<in># keys_at cfg i wr" using C(4) [symmetric] o by (simp add: wr_def)
    then obtain x rest where f: "filter (\<lambda>(k, _). k = fst r) wr = (fst r, x) # rest" using found by blast
    let ?wr = "erase_where (\<lambda>(k, _). k = fst r) wr"
    let ?n = "n\<lparr>response_queues := (response_queues n)[i := ?q' x], pending_write_reqs := ?wr\<rparr>"
    have "write_callback cfg (fst r) n = Inr ?n"
      using f push by (simp add: write_callback_def cl wr_def)
    moreover have vals: "mset (map snd rd) + mset (map snd wr) = add_mset x (mset (map snd rd) + mset (map snd ?wr))"
      using found_values [OF f] by simp
    moreover have "mem_inv cfg (?n\<lparr>ds_ctrls := (ds_ctrls ?n)[i := c']\<rparr>) \<and> same_ctrls n ?n"
    proof (rule step [OF _ _ _ vals])
      show "?n = n\<lparr>response_queues := (response_queues n)[i := ?q' x], pending_read_reqs := rd, pending_write_reqs := ?wr\<rparr>"
        by (cases n) (simp add: rd_def)
      show "keys_at cfg j wr = keys_at cfg j ?wr + (if snd r = TT_WRITE \<and> j = i then {#fst r#} else {#})" for j
        using keys_at_erase [OF f, of cfg j] cl True by (cases "j = i") simp_all
    qed (simp add: True)
    ultimately show ?thesis using True by auto
  next
    case False
    then have "fst r \<in># keys_at cfg i rd" using C(3) [symmetric] o by (simp add: rd_def)
    then obtain x rest where f: "filter (\<lambda>(k, _). k = fst r) rd = (fst r, x) # rest" using found by blast
    let ?rd = "erase_where (\<lambda>(k, _). k = fst r) rd"
    let ?n = "n\<lparr>response_queues := (response_queues n)[i := ?q' x], pending_read_reqs := ?rd\<rparr>"
    have "read_callback cfg (fst r) n = Inr ?n"
      using f push by (simp add: read_callback_def cl rd_def)
    moreover have vals: "mset (map snd rd) + mset (map snd wr) = add_mset x (mset (map snd ?rd) + mset (map snd wr))"
      using found_values [OF f] by simp
    moreover have "mem_inv cfg (?n\<lparr>ds_ctrls := (ds_ctrls ?n)[i := c']\<rparr>) \<and> same_ctrls n ?n"
    proof (rule step [OF _ _ _ vals])
      show "?n = n\<lparr>response_queues := (response_queues n)[i := ?q' x], pending_read_reqs := ?rd, pending_write_reqs := wr\<rparr>"
        by (cases n) (simp add: wr_def)
      show "keys_at cfg j rd = keys_at cfg j ?rd + (if snd r \<noteq> TT_WRITE \<and> j = i then {#fst r#} else {#})" for j
        using keys_at_erase [OF f, of cfg j] cl False by (cases "j = i") simp_all
    qed (simp add: False)
    ultimately show ?thesis using False by auto
  qed
qed

lemma same_ctrls_refl: "same_ctrls n n"
  by (simp add: same_ctrls_def)

lemma same_ctrls_trans: "same_ctrls n n1 \<Longrightarrow> same_ctrls n1 n2 \<Longrightarrow> same_ctrls n n2"
  by (simp add: same_ctrls_def)

lemma return_answers_ok:
  fixes n :: "'a NewtonSim"
  assumes "channel_map cfg" "mem_inv cfg (n\<lparr>ds_ctrls := (ds_ctrls n)[i := c]\<rparr>)" "i < n_channels cfg"
  shows "\<exists>c' n'. return_answers cfg clk c n = Inr (c', n') \<and> mem_inv cfg (n'\<lparr>ds_ctrls := (ds_ctrls n')[i := c']\<rparr>) \<and> same_ctrls n n' \<and>
    (rw_inv cfg c \<longrightarrow> rw_inv cfg c')"
  using assms
proof (induction cfg clk c n rule: return_answers.induct [case_names step])
  case (step cfg clk c n)
  obtain r c' where r: "ReturnDoneTrans clk c = (r, c')" by fastforce
  note rw = rw_inv_done [OF _ r]
  show ?case
  proof (cases "snd r = TT_WRITE \<or> snd r \<in> read_types")
    case True
    from callback_ok [OF step.prems r True] obtain n1 where
      n1: "(if snd r = TT_WRITE then write_callback cfg (fst r) n else read_callback cfg (fst r) n) = Inr n1"
      and i1: "mem_inv cfg (n1\<lparr>ds_ctrls := (ds_ctrls n1)[i := c']\<rparr>)" and s1: "same_ctrls n n1" by blast
    have "return_answers cfg clk c n = return_answers cfg clk c' n1"
      using r n1 True by (subst return_answers.simps) (auto split: if_splits)
    moreover have "\<exists>c2 n2. return_answers cfg clk c' n1 = Inr (c2, n2) \<and> mem_inv cfg (n2\<lparr>ds_ctrls := (ds_ctrls n2)[i := c2]\<rparr>) \<and> same_ctrls n1 n2 \<and>
        (rw_inv cfg c' \<longrightarrow> rw_inv cfg c2)"
    proof (cases "snd r = TT_WRITE")
      case True
      show ?thesis by (rule step.IH(1) [OF r [symmetric] refl True step.prems(1) i1 step.prems(3)])
    next
      case False
      then have "snd r \<in> read_types" using True by simp
      show ?thesis by (rule step.IH(2) [OF r [symmetric] refl False \<open>snd r \<in> read_types\<close> step.prems(1) i1 step.prems(3)])
    qed
    ultimately show ?thesis using same_ctrls_trans [OF s1] rw by metis
  next
    case False
    then have "return_answers cfg clk c n = Inr (c', n)" using r by (subst return_answers.simps) auto
    moreover have "mem_inv cfg (n\<lparr>ds_ctrls := (ds_ctrls n)[i := c']\<rparr>)"
    proof -
      note D = mem_invD [OF step.prems(2), simplified]
      have li: "(ds_ctrls n)[i := c] ! i = c" using D(1) step.prems(3) by simp
      note C = channel_invD [OF D(3) [OF step.prems(3), unfolded li]]
      have o: "outstanding c' = outstanding c"
        using done_outstanding [OF r] False C(2) [of r] by auto
      have "channel_inv cfg (pending_read_reqs n) (pending_write_reqs n) i c' (response_queues n ! i)"
        using D(3) [OF step.prems(3)] done_keeps [OF C(1) r] unfolding li channel_inv_def o by blast
      moreover have "channel_inv cfg (pending_read_reqs n) (pending_write_reqs n) j (ds_ctrls n ! j) (response_queues n ! j)"
        if "j < n_channels cfg" "j \<noteq> i" for j
        using D(3) [OF that(1)] that(2) by simp
      ultimately show ?thesis using D(1,2) step.prems(3) unfolding mem_inv_def by (auto simp: nth_list_update)
    qed
    ultimately show ?thesis using rw same_ctrls_refl by auto
  qed
qed

text \<open>All controllers hand out their answers, and then tick.\<close>

definition all_rw :: "mem_config \<Rightarrow> 'a NewtonSim \<Rightarrow> bool" where
  "all_rw cfg n \<longleftrightarrow> (\<forall>c\<in>set (ds_ctrls n). rw_inv cfg c)"

lemma answers_returned:
  fixes n :: "'a NewtonSim"
  assumes cm: "channel_map cfg" and inv: "mem_inv cfg n"
  shows "\<exists>n'. foldE (answer_channel cfg) n [0..<length (ds_ctrls n)] = Inr n' \<and> mem_inv cfg n' \<and> held n' = held n \<and>
    length (ds_ctrls n') = length (ds_ctrls n) \<and> ds_clk n' = ds_clk n \<and> ds_epoch_period n' = ds_epoch_period n \<and> (all_rw cfg n \<longrightarrow> all_rw cfg n')"
proof -
  let ?I = "\<lambda>m. mem_inv cfg m \<and> held m = held n \<and> ds_clk m = ds_clk n \<and> ds_epoch_period m = ds_epoch_period n \<and> (all_rw cfg n \<longrightarrow> all_rw cfg m)"
  have "\<exists>n'. foldE (answer_channel cfg) n [0..<length (ds_ctrls n)] = Inr n' \<and> ?I n'"
  proof (rule foldE_returns)
    fix m i assume m: "?I m" and "i \<in> set [0..<length (ds_ctrls n)]"
    then have i: "i < n_channels cfg" using mem_invD(1) [OF inv] by simp
    have l: "length (ds_ctrls m) = n_channels cfg" using m mem_invD(1) by blast
    have "mem_inv cfg (m\<lparr>ds_ctrls := (ds_ctrls m)[i := ds_ctrls m ! i]\<rparr>)" using m by simp
    from return_answers_ok [OF cm this i, of "ds_clk m"] obtain c' m' where
      c': "return_answers cfg (ds_clk m) (ds_ctrls m ! i) m = Inr (c', m')" "mem_inv cfg (m'\<lparr>ds_ctrls := (ds_ctrls m')[i := c']\<rparr>)" "same_ctrls m m'"
      "rw_inv cfg (ds_ctrls m ! i) \<longrightarrow> rw_inv cfg c'" by blast
    have "answer_channel cfg m i = Inr (m'\<lparr>ds_ctrls := (ds_ctrls m')[i := c']\<rparr>)" using c' i l by (simp add: answer_channel_def)
    moreover have "all_rw cfg m \<longrightarrow> all_rw cfg (m'\<lparr>ds_ctrls := (ds_ctrls m')[i := c']\<rparr>)"
      using c'(3,4) i l by (auto simp: all_rw_def same_ctrls_def dest!: set_update_subset_insert [THEN subsetD])
    ultimately show "\<exists>m'. answer_channel cfg m i = Inr m' \<and> ?I m'" using c' m by (auto simp: same_ctrls_def held_def)
  qed (use inv in simp)
  then show ?thesis using mem_invD(1) [OF inv] mem_invD(1) by metis
qed

lemma tick_channel_inv:
  assumes inv: "mem_inv cfg n" and i: "i < n_channels cfg" and t: "Controller_ClockTick cfg (ds_ctrls n ! i) = Inr c'"
  shows "mem_inv cfg (n\<lparr>ds_ctrls := (ds_ctrls n)[i := c']\<rparr>)"
proof -
  note D = mem_invD [OF inv]
  note C = channel_invD [OF D(3) [OF i]]
  have o: "outstanding c' = outstanding (ds_ctrls n ! i)"
    by (rule tick_induct [OF t C(1), where P = "\<lambda>x. outstanding x = outstanding (ds_ctrls n ! i)"]) (simp_all add: step_outstanding)
  have "ctl_inv c'" by (rule tick_induct [OF t C(1), where P = ctl_inv]) (use C(1) ctl_step_keeps in blast)+
  then have "channel_inv cfg (pending_read_reqs n) (pending_write_reqs n) i c' (response_queues n ! i)"
    using D(3) [OF i] unfolding channel_inv_def o by blast
  then show ?thesis using D i unfolding mem_inv_def by (auto simp: nth_list_update)
qed

lemma ticks_keep:
  assumes inv: "mem_inv cfg n" and t: "foldE (tick_channel cfg) n [0..<length (ds_ctrls n)] = Inr n'"
  shows "mem_inv cfg n' \<and> held n' = held n \<and> ds_epoch_period n' = ds_epoch_period n"
proof (rule foldE_invariant [OF t, where I = "\<lambda>m. mem_inv cfg m \<and> held m = held n \<and> ds_epoch_period m = ds_epoch_period n"])
  fix m i m'
  assume m: "mem_inv cfg m \<and> held m = held n \<and> ds_epoch_period m = ds_epoch_period n" and "i \<in> set [0..<length (ds_ctrls n)]" "tick_channel cfg m i = Inr m'"
  then obtain c where "i < n_channels cfg" "Controller_ClockTick cfg (ds_ctrls m ! i) = Inr c" "m' = m\<lparr>ds_ctrls := (ds_ctrls m)[i := c]\<rparr>"
    using mem_invD(1) [OF inv] by (auto simp: tick_channel_def)
  then show "mem_inv cfg m' \<and> held m' = held n \<and> ds_epoch_period m' = ds_epoch_period n"
    using tick_channel_inv m by (auto simp: held_def)
qed (use inv in simp)

lemma ticks_return:
  fixes n :: "'a NewtonSim"
  assumes cfg: "rw_config cfg" and rw: "all_rw cfg n"
  shows "\<exists>n'. foldE (tick_channel cfg) n [0..<length (ds_ctrls n)] = Inr n' \<and> all_rw cfg n'"
proof -
  let ?I = "\<lambda>m. length (ds_ctrls m) = length (ds_ctrls n) \<and> all_rw cfg m"
  have "\<exists>n'. foldE (tick_channel cfg) n [0..<length (ds_ctrls n)] = Inr n' \<and> ?I n'"
  proof (rule foldE_returns)
    fix m i assume m: "?I m" and "i \<in> set [0..<length (ds_ctrls n)]"
    then have i: "i < length (ds_ctrls m)" by simp
    then have "rw_inv cfg (ds_ctrls m ! i)" using m by (simp add: all_rw_def)
    then obtain c where c: "Controller_ClockTick cfg (ds_ctrls m ! i) = Inr c" "rw_inv cfg c" using tick_returns [OF cfg] by blast
    have "all_rw cfg (m\<lparr>ds_ctrls := (ds_ctrls m)[i := c]\<rparr>)"
      using m c(2) by (auto simp: all_rw_def dest!: set_update_subset_insert [THEN subsetD])
    then show "\<exists>m'. tick_channel cfg m i = Inr m' \<and> ?I m'" using c i m by (simp add: tick_channel_def)
  qed (use rw in simp)
  then show ?thesis by blast
qed

subsection \<open>The invariant holds\<close>

lemma new_ctrls_outcome:
  "new_ctrls cfg is = Inr cs \<Longrightarrow> length cs = length is \<and> (\<forall>c\<in>set cs. ctl_inv c \<and> outstanding c = {#} \<and> (rw_config cfg \<longrightarrow> rw_inv cfg c))"
proof (induction "is" arbitrary: cs)
  case (Cons i "is")
  then obtain c cs' where c: "Controller_new i cfg = Inr c" "new_ctrls cfg is = Inr cs'" "cs = c # cs'" by auto
  have "outstanding c = {#}" using c(1) by (auto simp: Controller_new_def outstanding_def)
  then show ?case using Cons.IH [OF c(2)] c ctl_inv_new rw_inv_new by auto
qed simp

lemma mem_inv_new:
  assumes cm: "channel_map cfg" and n: "NewtonSim_new cfg epoch = Inr n"
  shows "mem_inv cfg n \<and> held n = {#} \<and> (rw_config cfg \<longrightarrow> all_rw cfg n) \<and> ds_epoch_period n = epoch"
proof -
  obtain cs where cs: "new_ctrls cfg [0..mc_channels (mc_structure cfg) - 1] = Inr cs"
    and e: "n = \<lparr>ds_clk = 0, ds_last_req_clk = 0, ds_ctrls = cs, ds_epoch_period = epoch, pending_read_reqs = [], pending_write_reqs = [],
       response_queues = replicate (n_channels cfg) (ResponseQueue_new 4352)\<rparr>"
    using n by (auto simp: NewtonSim_new_def Let_def)
  from new_ctrls_outcome [OF cs] have o: "length cs = n_channels cfg" "\<forall>c\<in>set cs. ctl_inv c \<and> outstanding c = {#} \<and> (rw_config cfg \<longrightarrow> rw_inv cfg c)"
    by simp_all
  then show ?thesis by (auto simp: e mem_inv_def channel_inv_def keys_at_def ResponseQueue_new_def held_def all_rw_def)
qed

lemma isAvailable_iff:
  assumes "rq_Size q = 4352" "unat (NumReserved q) + length (OutputQueue q) \<le> 4352"
  shows "isAvailable 1 q \<longleftrightarrow> unat (NumReserved q) + length (OutputQueue q) < 4352"
proof -
  let ?x = "ucast (NumReserved q) + of_nat (length (OutputQueue q)) :: u64"
  have l: "unat (of_nat (length (OutputQueue q)) :: u64) = length (OutputQueue q)" using assms(2) by (simp add: unat_of_nat take_bit_nat_eq_self)
  have "unat ?x = unat (NumReserved q) + length (OutputQueue q)"
    by (subst unat_plus_u64) (use assms(2) l in simp_all)
  moreover have "ucast (1 :: u32) = (1 :: u64)" by simp
  ultimately show ?thesis using assms(1) by (simp add: isAvailable_def word_less_nat_alt)
qed

text \<open>A request that is accepted can be pushed.\<close>

lemma push_ok:
  fixes n :: "'a NewtonSim"
  assumes cm: "channel_map cfg" and inv: "mem_inv cfg n" and ty: "ty \<in> npu_types" and ok: "Mem_WillAcceptTransaction cfg a ty n = Inr True"
  shows "\<exists>n'. Mem_AddTransaction cfg a ty x n = Inr n' \<and> mem_inv cfg n' \<and> held n' = held n + (if ty = TT_P_HEADER then {#} else {#x#}) \<and>
    ds_epoch_period n' = ds_epoch_period n \<and> (all_rw cfg n \<and> ty \<in> {TT_READ, TT_WRITE} \<longrightarrow> all_rw cfg n')"
proof -
  define i where "i = channel_of cfg a"
  let ?t = "\<lparr>tr_addr = a, added_cycle = 0, complete_cycle = 0, tr_type = ty\<rparr>"
  have i: "i < n_channels cfg" unfolding i_def by (rule channel_of_less [OF cm])
  note D = mem_invD [OF inv]
  note C = channel_invD [OF D(3) [OF i]]
  let ?q = "response_queues n ! i" and ?c = "ds_ctrls n ! i"
  have ctl: "ctl_inv (AddTransaction ?t ?c)" by (rule add_keeps [OF C(1)]) (simp add: ty)
  have rw: "all_rw cfg n \<and> ty \<in> {TT_READ, TT_WRITE} \<longrightarrow> all_rw cfg (n'\<lparr>ds_ctrls := (ds_ctrls n)[i := AddTransaction ?t ?c]\<rparr>)" for n' :: "'a NewtonSim"
    using rw_inv_add [of cfg ?c ?t] D(1) i by (auto simp: all_rw_def dest!: set_update_subset_insert [THEN subsetD])
  have o: "outstanding (AddTransaction ?t ?c) = outstanding ?c + (if ty = TT_P_HEADER then {#} else {#(a, ty)#})"
    using add_outstanding [of ?t ?c] ty by simp
  have will: "bindE (at (ds_ctrls m) i) (WillAcceptTransaction cfg ty) = Inr True" if "ds_ctrls m = ds_ctrls n" for m :: "'a NewtonSim"
    using ok that D(1,2) i by (auto simp: Mem_WillAcceptTransaction_def DRAM_WillAcceptTransaction_def i_def split: if_splits)
  have dram: "DRAM_AddTransaction cfg a ty m = Inr (m\<lparr>ds_ctrls := (ds_ctrls n)[i := AddTransaction ?t ?c], ds_last_req_clk := ds_clk m\<rparr>)"
    if "ds_ctrls m = ds_ctrls n" for m :: "'a NewtonSim"
    using will [OF that] that D(1) i by (simp add: DRAM_AddTransaction_def DRAM_WillAcceptTransaction_def i_def [symmetric] Let_def)
  show ?thesis
  proof (cases "ty = TT_P_HEADER")
    case True
    let ?n = "n\<lparr>ds_ctrls := (ds_ctrls n)[i := AddTransaction ?t ?c], ds_last_req_clk := ds_clk n\<rparr>"
    have "Mem_AddTransaction cfg a ty x n = Inr ?n" using dram [OF refl] True by (simp add: Mem_AddTransaction_def)
    moreover have "channel_inv cfg (pending_read_reqs n) (pending_write_reqs n) i (AddTransaction ?t ?c) ?q"
      using D(3) [OF i] ctl o True unfolding channel_inv_def by simp
    then have "mem_inv cfg ?n" using D i unfolding mem_inv_def by (auto simp: nth_list_update)
    ultimately show ?thesis using True by (auto simp: held_def)
  next
    case False
    let ?q' = "?q\<lparr>NumReserved := NumReserved ?q + 1\<rparr>"
    have "isAvailable 1 ?q" using ok False D(2) i by (auto simp: Mem_WillAcceptTransaction_def i_def split: if_splits)
    then have room: "unat (NumReserved ?q) + length (OutputQueue ?q) < 4352" using isAvailable_iff [OF C(6,7)] by simp
    then have lt: "NumReserved ?q < rq_Size ?q" using C(6) by (simp add: word_less_nat_alt)
    have num: "unat (NumReserved ?q + 1) = unat (NumReserved ?q) + 1" by (rule unat_Suc_u32) (use room in simp)
    let ?n1 = "n\<lparr>response_queues := (response_queues n)[i := ?q']\<rparr>"
    have up: "upd_queue i rq_reserve n = Inr ?n1" using D(2) i lt by (simp add: upd_queue_def rq_reserve_def)
    let ?n2 = "PushToPendingQueue a ty x ?n1"
    have c2: "ds_ctrls ?n2 = ds_ctrls n" "response_queues ?n2 = response_queues ?n1" "ds_epoch_period ?n2 = ds_epoch_period n"
      by (simp_all add: PushToPendingQueue_def)
    let ?n = "?n2\<lparr>ds_ctrls := (ds_ctrls n)[i := AddTransaction ?t ?c], ds_last_req_clk := ds_clk ?n2\<rparr>"
    have run: "Mem_AddTransaction cfg a ty x n = Inr ?n" using up dram [OF c2(1)] False by (simp add: Mem_AddTransaction_def i_def [symmetric])
    have rty: "ty \<in> insert TT_WRITE read_types" using ty False by (auto simp: npu_types_def)
    have keys: "keys_at cfg j (pending_read_reqs ?n) = keys_at cfg j (pending_read_reqs n) + (if ty \<noteq> TT_WRITE \<and> j = i then {#a#} else {#})"
      "keys_at cfg j (pending_write_reqs ?n) = keys_at cfg j (pending_write_reqs n) + (if ty = TT_WRITE \<and> j = i then {#a#} else {#})" for j
      using rty by (auto simp: PushToPendingQueue_def keys_at_snoc i_def)
    have "channel_inv cfg (pending_read_reqs ?n) (pending_write_reqs ?n) i (AddTransaction ?t ?c) ?q'"
      unfolding channel_inv_def keys o using C ctl False rty room num i_def by auto
    moreover have "channel_inv cfg (pending_read_reqs ?n) (pending_write_reqs ?n) j (ds_ctrls n ! j) (response_queues n ! j)" if "j < n_channels cfg" "j \<noteq> i" for j
      using D(3) [OF that(1)] that(2) unfolding channel_inv_def keys by simp
    ultimately have "channel_inv cfg (pending_read_reqs ?n) (pending_write_reqs ?n) j ((ds_ctrls n)[i := AddTransaction ?t ?c] ! j)
        ((response_queues n)[i := ?q'] ! j)" if "j < n_channels cfg" for j
      using that D(1,2) by (cases "j = i") simp_all
    then have "mem_inv cfg ?n" using D(1,2) unfolding mem_inv_def by (simp add: c2)
    moreover have "held ?n = held n + {#x#}"
    proof -
      have "mset (concat (map OutputQueue ((response_queues n)[i := ?q']))) = mset (concat (map OutputQueue (response_queues n)))"
        using outputs_update [of i "response_queues n" ?q'] D(2) i by simp
      then show ?thesis using rty by (auto simp: held_def PushToPendingQueue_def)
    qed
    moreover have "all_rw cfg n \<and> ty \<in> {TT_READ, TT_WRITE} \<longrightarrow> all_rw cfg ?n" using rw by (simp add: all_rw_def)
    ultimately show ?thesis using run False c2(3) by simp
  qed
qed

lemma take_ok:
  assumes inv: "mem_inv cfg n" and t: "Mem_Top ch n = Inr x" "Mem_Pop ch n = Inr n'"
  shows "mem_inv cfg n' \<and> held n = held n' + {#x#} \<and> ds_ctrls n' = ds_ctrls n \<and> ds_epoch_period n' = ds_epoch_period n"
proof -
  note D = mem_invD [OF inv]
  let ?q = "response_queues n ! ch"
  obtain xs where xs: "OutputQueue ?q = x # xs" and ch: "ch < length (response_queues n)" using t(1) by (auto simp: Mem_Top_def rq_top_def)
  then have n': "n' = n\<lparr>response_queues := (response_queues n)[ch := ?q\<lparr>OutputQueue := xs\<rparr>]\<rparr>"
    using t(2) by (auto simp: Mem_Pop_def upd_queue_def rq_pop_def)
  have "channel_inv cfg (pending_read_reqs n) (pending_write_reqs n) ch (ds_ctrls n ! ch) (?q\<lparr>OutputQueue := xs\<rparr>)"
    using D(3) [of ch] ch D(2) xs unfolding channel_inv_def by simp
  then have "mem_inv cfg n'" using D ch unfolding mem_inv_def n' by (auto simp: nth_list_update)
  moreover have "held n = held n' + {#x#}"
    using outputs_update [of ch "response_queues n" "?q\<lparr>OutputQueue := xs\<rparr>"] ch xs by (simp add: held_def n')
  ultimately show ?thesis by (simp add: n')
qed

lemma rw_config_channels: "rw_config cfg \<Longrightarrow> channel_map cfg"
  by (auto simp: rw_config_def channel_map_def Let_def)

text \<open>Headers have no answer.\<close>

definition awaited :: "(TransactionType \<times> 'a) list \<Rightarrow> 'a multiset" where
  "awaited ps = mset (map snd (filter (\<lambda>p. fst p \<noteq> TT_P_HEADER) ps))"

lemma mem_run_inv:
  "mem_run cfg ps ts n \<Longrightarrow> channel_map cfg \<Longrightarrow> mem_inv cfg n \<and> awaited ps = mset ts + held n"
proof (induction rule: mem_run.induct)
  case (mem_start epoch n)
  then show ?case using mem_inv_new [of cfg epoch n] by (simp add: awaited_def)
next
  case (mem_add ps ts n ty a x n')
  then obtain m where "Mem_AddTransaction cfg a ty x n = Inr m" "mem_inv cfg m" "held m = held n + (if ty = TT_P_HEADER then {#} else {#x#})"
    using push_ok [of cfg n ty a x] by blast
  then have "mem_inv cfg n'" "held n' = held n + (if ty = TT_P_HEADER then {#} else {#x#})" using mem_add(4) by simp_all
  moreover have "awaited ps = mset ts + held n" using mem_add(5,6) by blast
  ultimately show ?case by (simp add: awaited_def)
next
  case (mem_tick ps ts n n')
  then have inv: "mem_inv cfg n" "awaited ps = mset ts + held n" by simp_all
  obtain n1 where n1: "foldE (answer_channel cfg) n [0..<length (ds_ctrls n)] = Inr n1" "mem_inv cfg n1" "held n1 = held n"
    using answers_returned [OF mem_tick(4) inv(1)] by blast
  obtain n2 where n2: "foldE (tick_channel cfg) n1 [0..<length (ds_ctrls n1)] = Inr n2" "n' = n2\<lparr>ds_clk := ds_clk n2 + 1\<rparr>"
    using mem_tick(2) n1(1) by (auto simp: Mem_ClockTick_def split: if_splits)
  have "mem_inv cfg n'" "held n' = held n2" using ticks_keep [OF n1(2) n2(1)] by (simp_all add: n2(2) mem_inv_def held_def)
  then show ?case using ticks_keep [OF n1(2) n2(1)] n1(3) inv(2) by metis
next
  case (mem_take ps ts n ch x n')
  then have "mem_inv cfg n" "awaited ps = mset ts + held n" by blast+
  with take_ok [OF this(1) mem_take(2,3)] show ?case by simp
qed

lemma mem_run_rw:
  "mem_run cfg ps ts n \<Longrightarrow> rw_config cfg \<Longrightarrow> \<forall>p\<in>set ps. fst p \<in> {TT_READ, TT_WRITE} \<Longrightarrow> all_rw cfg n"
proof (induction rule: mem_run.induct)
  case (mem_start epoch n)
  then show ?case using mem_inv_new [of cfg epoch n] by (auto simp: rw_config_channels)
next
  case (mem_add ps ts n ty a x n')
  note cm = rw_config_channels [OF mem_add(6)]
  have "mem_inv cfg n" using mem_run_inv [OF mem_add(1) cm] ..
  from push_ok [OF cm this mem_add(2,3), of x] mem_add show ?case by auto
next
  case (mem_tick ps ts n n')
  note cm = rw_config_channels [OF mem_tick(4)]
  have inv: "mem_inv cfg n" "all_rw cfg n" using mem_run_inv [OF mem_tick(1) cm] mem_tick by simp_all
  obtain n1 where n1: "foldE (answer_channel cfg) n [0..<length (ds_ctrls n)] = Inr n1" "all_rw cfg n1"
    using answers_returned [OF cm inv(1)] inv(2) by blast
  obtain n2 where "foldE (tick_channel cfg) n1 [0..<length (ds_ctrls n1)] = Inr n2" "all_rw cfg n2" using ticks_return [OF mem_tick(4) n1(2)] by blast
  then show ?case using mem_tick(2) n1(1) by (auto simp: Mem_ClockTick_def all_rw_def split: if_splits)
next
  case (mem_take ps ts n ch x n')
  then have "mem_inv cfg n" using mem_run_inv [OF mem_take(1)] rw_config_channels by blast
  from take_ok [OF this mem_take(2,3)] mem_take show ?case by (simp add: all_rw_def)
qed

subsection \<open>Requests are conserved, and answers find room\<close>

text \<open>
  C2: The memory conserves the requests of the NPU side.  At every point of a run, whatever the types and addresses,
  the requests pushed, the headers apart, are those taken back and those the memory holds; the answers of the
  controllers always find their request, so the two callbacks never exit, and room in the response queue of
  their channel; a request that \<open>WillAcceptTransaction\<close> admits can be added; and the room reserved in a
  response queue is exactly that for the transactions its controller still owes, which with the answers not yet
  taken never exceed the 4352 entries.
\<close>

theorem memory_answers_every_request:
  fixes n :: "'a NewtonSim"
  assumes "channel_map cfg" "mem_run cfg ps ts n"
  shows "awaited ps = mset ts + held n \<and>
    (\<exists>n'. foldE (answer_channel cfg) n [0..<length (ds_ctrls n)] = Inr n') \<and>
    (\<forall>a ty x. ty \<in> npu_types \<and> Mem_WillAcceptTransaction cfg a ty n = Inr True \<longrightarrow> (\<exists>n'. Mem_AddTransaction cfg a ty x n = Inr n')) \<and>
    (\<forall>ch<n_channels cfg. unat (NumReserved (response_queues n ! ch)) = size (outstanding (ds_ctrls n ! ch)) \<and>
       unat (NumReserved (response_queues n ! ch)) + length (OutputQueue (response_queues n ! ch)) \<le> 4352)"
proof -
  from mem_run_inv [OF assms(2,1)] have inv: "mem_inv cfg n" and c: "awaited ps = mset ts + held n" by simp_all
  have "\<exists>n'. foldE (answer_channel cfg) n [0..<length (ds_ctrls n)] = Inr n'" using answers_returned [OF assms(1) inv] by blast
  moreover have "\<exists>n'. Mem_AddTransaction cfg a ty x n = Inr n'" if "ty \<in> npu_types" "Mem_WillAcceptTransaction cfg a ty n = Inr True" for a ty x
    using push_ok [OF assms(1) inv that] by blast
  moreover have "unat (NumReserved (response_queues n ! ch)) = size (outstanding (ds_ctrls n ! ch)) \<and>
      unat (NumReserved (response_queues n ! ch)) + length (OutputQueue (response_queues n ! ch)) \<le> 4352" if "ch < n_channels cfg" for ch
    using channel_invD(5,7) [OF mem_invD(3) [OF inv that]] by simp
  ultimately show ?thesis using c by blast
qed

text \<open>
  C3: Ordinary traffic never stops the memory.  With the memory layout of the repository, two row
  buffers and refreshes from rank to rank, a memory that was given nothing but reads and writes completes any
  number of clock ticks of all its channels: no assertion fails, no \<open>exit\<close> is reached (no bank is asked for a
  command its state excludes, no command, transaction or request is missing where it is looked up), no queue or
  vector is accessed out of range, whatever the addresses and the order of pushes, ticks and answers.
\<close>

theorem rw_memory_never_stops:
  assumes "rw_config cfg" "mem_run cfg ps ts n" "\<forall>p\<in>set ps. fst p \<in> {TT_READ, TT_WRITE}"
    and "(of_int (ds_epoch_period n) :: u64) \<noteq> 0"
  shows "\<exists>n'. iterE k (Mem_ClockTick cfg) n = Inr n' \<and> mem_run cfg ps ts n'"
proof -
  note cm = rw_config_channels [OF assms(1)]
  have step: "\<exists>n'. Mem_ClockTick cfg n = Inr n' \<and> ds_epoch_period n' = ds_epoch_period n"
    if "mem_run cfg ps ts n" "(of_int (ds_epoch_period n) :: u64) \<noteq> 0" for n
  proof -
    note rw = mem_run_rw [OF that(1) assms(1,3)]
    note inv = mem_run_inv [OF that(1) cm, THEN conjunct1]
    obtain n1 where n1: "foldE (answer_channel cfg) n [0..<length (ds_ctrls n)] = Inr n1" "mem_inv cfg n1" "ds_epoch_period n1 = ds_epoch_period n" "all_rw cfg n1"
      using answers_returned [OF cm inv] rw by blast
    obtain n2 where n2: "foldE (tick_channel cfg) n1 [0..<length (ds_ctrls n1)] = Inr n2" using ticks_return [OF assms(1) n1(4)] by blast
    then have "ds_epoch_period n2 = ds_epoch_period n" using ticks_keep [OF n1(2) n2] n1(3) by simp
    then show ?thesis using n1 n2 that(2) by (simp add: Mem_ClockTick_def)
  qed
  show ?thesis using assms(2,4)
  proof (induction k arbitrary: n)
    case (Suc k)
    obtain n1 where n1: "Mem_ClockTick cfg n = Inr n1" "ds_epoch_period n1 = ds_epoch_period n" using step [OF Suc.prems] by blast
    show ?case using Suc.IH [OF mem_tick [OF Suc.prems(1) n1(1)]] Suc.prems(2) n1 by simp
  qed simp
qed

lemma hbm2_memory:
  obtains n :: "'a NewtonSim" where "mem_run hbm2_config [] [] n" "ds_epoch_period n = 100000"
    "Mem_WillAcceptTransaction hbm2_config a TT_READ n = Inr True"
proof -
  have "returns (CommandQueue_new hbm2_config) \<and> returns (Refresh_new hbm2_config)" by code_simp
  then have c: "\<exists>c. Controller_new i hbm2_config = Inr c \<and> read_queue c = []" for i by (auto simp: Controller_new_def returns_iff)
  have "\<exists>cs. new_ctrls hbm2_config is = Inr cs \<and> (\<forall>c\<in>set cs. read_queue c = [])" for "is"
    by (induction "is") (use c in fastforce)+
  then obtain cs where cs: "new_ctrls hbm2_config [0..mc_channels (mc_structure hbm2_config) - 1] = Inr cs" "\<forall>c\<in>set cs. read_queue c = []" by blast
  define n :: "'a NewtonSim" where "n = \<lparr>ds_clk = 0, ds_last_req_clk = 0, ds_ctrls = cs, ds_epoch_period = 100000, pending_read_reqs = [],
    pending_write_reqs = [], response_queues = replicate (n_channels hbm2_config) (ResponseQueue_new 4352)\<rparr>"
  have new: "NewtonSim_new hbm2_config 100000 = Inr n" using cs(1) by (simp add: NewtonSim_new_def n_def)
  have "0 < capacity hbm2_config" by code_simp
  moreover have ch: "channel_of hbm2_config a < n_channels hbm2_config" by (rule channel_of_less [OF rw_config_channels [OF hbm2_rw]])
  moreover have "length cs = n_channels hbm2_config" using new_ctrls_outcome [OF cs(1)] by simp
  ultimately have "Mem_WillAcceptTransaction hbm2_config a TT_READ n = Inr True"
    using cs(2) by (simp add: Mem_WillAcceptTransaction_def DRAM_WillAcceptTransaction_def WillAcceptTransaction_def n_def isAvailable_def ResponseQueue_new_def)
  then show thesis using that mem_start [OF new] by (simp add: n_def)
qed

lemma hbm2_memory_run: "\<exists>n :: string NewtonSim. mem_run hbm2_config [(TT_READ, ''load'')] [] n \<and> ds_epoch_period n = 100000"
proof -
  obtain n :: "string NewtonSim" where n: "mem_run hbm2_config [] [] n" "ds_epoch_period n = 100000" "Mem_WillAcceptTransaction hbm2_config 4096 TT_READ n = Inr True"
    by (rule hbm2_memory)
  note cm = rw_config_channels [OF hbm2_rw]
  have ty: "TT_READ \<in> npu_types" by (simp add: npu_types_def)
  obtain n' where n': "Mem_AddTransaction hbm2_config 4096 TT_READ ''load'' n = Inr n'" "ds_epoch_period n' = ds_epoch_period n"
    using push_ok [OF cm mem_run_inv [OF n(1) cm, THEN conjunct1] ty n(3)] by blast
  show ?thesis using mem_add [OF n(1) ty n(3) n'(1)] n'(2) n(2) by auto
qed

theorem memory_answers_every_request_witness:
  "\<exists>n :: string NewtonSim. mem_run hbm2_config [(TT_READ, ''load'')] [] n \<and> held n = {#''load''#} \<and>
     (\<exists>n'. foldE (answer_channel hbm2_config) n [0..<length (ds_ctrls n)] = Inr n')"
proof -
  obtain n :: "string NewtonSim" where n: "mem_run hbm2_config [(TT_READ, ''load'')] [] n" using hbm2_memory_run by blast
  from memory_answers_every_request [OF rw_config_channels [OF hbm2_rw] n] show ?thesis using n by (auto simp: awaited_def)
qed

theorem rw_memory_never_stops_witness:
  "\<exists>n n' :: string NewtonSim. mem_run hbm2_config [(TT_READ, ''load'')] [] n \<and> iterE 1000 (Mem_ClockTick hbm2_config) n = Inr n'"
proof -
  obtain n :: "string NewtonSim" where n: "mem_run hbm2_config [(TT_READ, ''load'')] [] n" "ds_epoch_period n = 100000" using hbm2_memory_run by blast
  have "\<forall>p\<in>set [(TT_READ, ''load'')]. fst p \<in> {TT_READ, TT_WRITE}" "(of_int (ds_epoch_period n) :: u64) \<noteq> 0" by (simp_all add: n(2))
  from rw_memory_never_stops [OF hbm2_rw n(1) this] n(1) show ?thesis by blast
qed

subsection \<open>The memory of the NPU side (Dram.cc)\<close>

text \<open>
  The class \<open>PIM\<close> passes requests to \<open>NewtonSim\<close> and counts them.  A request is its \<open>MemoryAccess\<close>; as it has
  one owner at a time, it is passed by value.  \<open>fast_ret_queue\<close> is never filled.
\<close>

record pim_memory =
  pm_mem :: "MemoryAccess NewtonSim"
  pm_total_processed :: "u64 list"
  pm_processed :: "u64 list"
  pm_stats :: "MemoryIOStat list list"
  pm_stat_interval :: u64
  pm_fast_ret :: "MemoryAccess list list"
  pm_cycles :: cycle_type
  pm_burst_cycle :: int
  pm_total_done :: u64
  pm_stage_cycles :: u64
  pm_req_cnt :: u32

text \<open>The enumeration of the requests is cast to that of the transactions, which has one more member.\<close>

definition trans_type :: "MemoryAccessType \<Rightarrow> TransactionType" where
  "trans_type t = (case t of READ \<Rightarrow> TT_READ | WRITE \<Rightarrow> TT_WRITE | GWRITE \<Rightarrow> TT_GWRITE | COMP_ACCESS \<Rightarrow> TT_COMP
     | READRES \<Rightarrow> TT_READRES | P_HEADER \<Rightarrow> TT_P_HEADER | COMPS_READRES \<Rightarrow> TT_COMPS_READRES | ACCESS_SIZE \<Rightarrow> TT_PWRITE)"

text \<open>The constructor compares the address functions of the two sides at one address.\<close>

definition PIM_new :: "sim_config \<Rightarrow> mem_config \<Rightarrow> int \<Rightarrow> fault + pim_memory" where
  "PIM_new cfg m epoch = (let n = unat (dram_channels cfg) in
     bindE (NewtonSim_new m epoch) (\<lambda>mem.
     ast (make_address (dram_channels cfg) 1 0 2 1 231 10 = MakeAddress (mc_fields m) 1 0 2 1 231 10)
      (Inr \<lparr>pm_mem = mem, pm_total_processed = replicate n 0, pm_processed = replicate n 0,
         pm_stats = map (\<lambda>i. [MemoryIOStat_new 0 (of_nat i) 1000]) [0..<n], pm_stat_interval = 1000, pm_fast_ret = replicate n [],
         pm_cycles = 0, pm_burst_cycle = BL (mc_structure m) sdiv 2, pm_total_done = 0, pm_stage_cycles = 0, pm_req_cnt = 0\<rparr>)))"

definition PIM_running :: "pim_memory \<Rightarrow> bool" where
  "PIM_running d \<longleftrightarrow> False"

definition PIM_cycle :: "mem_config \<Rightarrow> pim_memory \<Rightarrow> fault + pim_memory" where
  "PIM_cycle m d = bindE (Mem_ClockTick m (pm_mem d)) (\<lambda>mem.
     let d = d\<lparr>pm_mem := mem, pm_cycles := pm_cycles d + 1, pm_stage_cycles := pm_stage_cycles d + 1\<rparr>;
         d = (if pm_cycles d mod 10000 = 0
              then d\<lparr>pm_total_processed := map2 (+) (pm_total_processed d) (pm_processed d), pm_processed := map (\<lambda>_. 0) (pm_processed d)\<rparr> else d);
         d = (if pm_cycles d mod pm_stat_interval d = 0
              then d\<lparr>pm_stats := map (\<lambda>(ch, l). l @ [MemoryIOStat_new (pm_cycles d) (of_nat ch) (pm_stat_interval d)])
                       (zip [0..<length (pm_stats d)] (pm_stats d))\<rparr> else d)
     in Inr d)"

definition PIM_is_full :: "mem_config \<Rightarrow> MemoryAccess \<Rightarrow> pim_memory \<Rightarrow> fault + bool" where
  "PIM_is_full m request d = bindE (Mem_WillAcceptTransaction m (dram_address request) (trans_type (req_type request)) (pm_mem d)) (\<lambda>ok. Inr (\<not> ok))"

definition PIM_get_channel_id :: "mem_config \<Rightarrow> MemoryAccess \<Rightarrow> u32" where
  "PIM_get_channel_id m access = of_int (GetChannel (mc_fields m) (dram_address access))"

text \<open>A pushed request is no longer marked as a request.\<close>

definition PIM_push :: "mem_config \<Rightarrow> nat \<Rightarrow> MemoryAccess \<Rightarrow> pim_memory \<Rightarrow> fault + pim_memory" where
  "PIM_push m cid request d = (let s = mc_structure m; atomic_bytes = of_int ((BL s * bus_width s) sdiv 8) :: u64; a = dram_address request in
     ast (unat (PIM_get_channel_id m request) = cid) (if atomic_bytes = 0 then Inl Undefined else
     ast (a - a mod atomic_bytes = a) (ast (ma_size request = atomic_bytes)
       (bindE (Mem_AddTransaction m a (trans_type (req_type request)) (request\<lparr>ma_request := False\<rparr>) (pm_mem d)) (\<lambda>mem.
          Inr (d\<lparr>pm_mem := mem, pm_req_cnt := pm_req_cnt d + 1\<rparr>))))))"

definition PIM_is_empty :: "nat \<Rightarrow> pim_memory \<Rightarrow> fault + bool" where
  "PIM_is_empty cid d = bindE (at (pm_fast_ret d) cid) (\<lambda>fast. if fast \<noteq> [] then Inr False else Mem_IsEmpty cid (pm_mem d))"

definition PIM_top :: "nat \<Rightarrow> pim_memory \<Rightarrow> fault + MemoryAccess" where
  "PIM_top cid d = bindE (PIM_is_empty cid d) (\<lambda>emp. ast (\<not> emp) (bindE (at (pm_fast_ret d) cid) (\<lambda>fast.
     case fast of [] \<Rightarrow> Mem_Top cid (pm_mem d) | r # _ \<Rightarrow> Inr r)))"

definition PIM_update_stat :: "nat \<Rightarrow> pim_memory \<Rightarrow> fault + pim_memory" where
  "PIM_update_stat cid d = bindE (PIM_top cid d) (\<lambda>r.
     let count = (\<lambda>f. bindE (at (pm_stats d) cid) (\<lambda>l. bindE (upd_last f l) (\<lambda>l. bindE (at (pm_processed d) cid) (\<lambda>p.
           Inr (d\<lparr>pm_stats := (pm_stats d)[cid := l], pm_processed := (pm_processed d)[cid := p + 1], pm_total_done := pm_total_done d + 1\<rparr>)))))
     in if req_type r = READ then count (\<lambda>st. st\<lparr>memory_reads := memory_reads st + ma_size r\<rparr>)
        else if req_type r = WRITE then count (\<lambda>st. st\<lparr>memory_writes := memory_writes st + ma_size r\<rparr>)
        else if req_type r = READRES \<or> req_type r = COMPS_READRES then count (\<lambda>st. st\<lparr>pim_reads := pim_reads st + ma_size r\<rparr>)
        else Inr d)"

definition PIM_pop :: "nat \<Rightarrow> pim_memory \<Rightarrow> fault + pim_memory" where
  "PIM_pop cid d = bindE (PIM_update_stat cid d) (\<lambda>d. bindE (PIM_is_empty cid d) (\<lambda>emp. ast (\<not> emp)
     (bindE (at (pm_fast_ret d) cid) (\<lambda>fast. case fast of
        [] \<Rightarrow> bindE (Mem_Pop cid (pm_mem d)) (\<lambda>mem. Inr (d\<lparr>pm_mem := mem\<rparr>))
      | _ # rest \<Rightarrow> Inr (d\<lparr>pm_fast_ret := (pm_fast_ret d)[cid := rest]\<rparr>)))))"

text \<open>The log of a stage keeps the last interval; the utilisation, a double that is only printed, is left out.\<close>

definition PIM_log :: "pim_memory \<Rightarrow> fault + pim_memory" where
  "PIM_log d = (if [] \<in> set (pm_stats d) then Inl Undefined else Inr (d\<lparr>pm_stats := map (\<lambda>l. [last l]) (pm_stats d)\<rparr>))"

definition PIM_get_avg_bw_util :: "pim_memory \<Rightarrow> pim_memory" where
  "PIM_get_avg_bw_util d = d\<lparr>pm_total_done := 0, pm_stage_cycles := 0\<rparr>"

definition PIM_get_avg_pim_cycle :: "pim_memory \<Rightarrow> fault + (u64 \<times> pim_memory)" where
  "PIM_get_avg_pim_cycle d = bindE (GetAvgPIMCycles (pm_mem d)) (\<lambda>n. Inr (n, d\<lparr>pm_mem := Mem_ResetPIMCycle (pm_mem d)\<rparr>))"

end
