(* ===== verification/Program.thy ===== *)
theory Program
  imports PimOps Requests "HOL-Library.AList"
begin

text \<open>
  The weights of the model (Model.cc) and the program of a stage (StageProgram.cc): the operations
  that the systolic array or the memory executes for a batch, which of them can run, and what the end
  of an operation makes runnable.
\<close>

subsection \<open>The model\<close>

record model =
  mo_name :: string
  mo_root_node_id :: u32
  mo_wgt_map :: "(string \<times> nat) list"
  mo_wgt_size :: u64

text \<open>\<open>name_gen\<close> of one or more strings.\<close>

definition dotted :: "string list \<Rightarrow> string" where
  "dotted strs = (case name_gen strs of Inr s \<Rightarrow> s | Inl _ \<Rightarrow> '''')"

definition LAYER :: "nat \<Rightarrow> string" where
  "LAYER i = ''layer'' @ show_nat i"

definition create_weight :: "env \<Rightarrow> model \<times> graph \<Rightarrow> string \<times> u32 list \<Rightarrow> fault + (model \<times> graph)" where
  "create_weight e = (\<lambda>(m, g) (name, dims).
     bindE (NPUTensor_new (e_cfg e) (e_alignment e) name dims WGT True (g_mem g)) (\<lambda>(t, ms).
       let (ti, g) = new_tensor (NT t) (g\<lparr>g_mem := ms\<rparr>) in Inr (m\<lparr>mo_wgt_map := AList.update name ti (mo_wgt_map m)\<rparr>, g)))"

definition layer_weights :: "sim_config \<Rightarrow> nat \<Rightarrow> (string \<times> u32 list) list" where
  "layer_weights cfg i =
     (let attn = dotted [LAYER i, ''attn'']; ffn = dotted [LAYER i, ''ffn'']; E = model_n_embd cfg; tp = n_tp cfg
      in [(dotted [attn, ''ln'', ''weight''], [E]), (dotted [attn, ''ln'', ''bias''], [E]),
          (dotted [attn, ''QKVgen'', ''weight''], [E, 3 * E div tp]), (dotted [attn, ''QKVgen'', ''bias''], [3 * E div tp]),
          (dotted [attn, ''proj'', ''weight''], [E div tp, E]), (dotted [attn, ''proj'', ''bias''], [E]),
          (dotted [ffn, ''ln'', ''weight''], [E]), (dotted [ffn, ''ln'', ''bias''], [E]),
          (dotted [ffn, ''fc1'', ''weight''], [E, 4 * E div tp]), (dotted [ffn, ''fc1'', ''bias''], [4 * E div tp]),
          (dotted [ffn, ''fc2'', ''weight''], [4 * E div tp, E]), (dotted [ffn, ''fc2'', ''bias''], [E])])"

text \<open>The size of a weight is that of its first inner tensor.\<close>

definition inner_size :: "npu_any \<Rightarrow> u64" where
  "inner_size i = (case i of Inner2D t \<Rightarrow> ti_size t | InnerKV t \<Rightarrow> ti_size t)"

definition weight_size :: "graph \<Rightarrow> u64 \<Rightarrow> string \<times> nat \<Rightarrow> fault + u64" where
  "weight_size g = (\<lambda>sz (name, ti). bindE (get_tensor ti g) (\<lambda>t. bindE (as_npu t) (\<lambda>n. bindE (at (nt_inners n) 0) (\<lambda>i.
     Inr (sz + inner_size i)))))"

definition init_params :: "env \<Rightarrow> model \<times> graph \<Rightarrow> fault + (model \<times> graph)" where
  "init_params e mg =
     (let cfg = e_cfg e in
      bindE (if n_tp cfg = 0 \<and> model_n_layer cfg \<noteq> 0 then Inl Undefined
             else foldE (\<lambda>mg i. foldE (create_weight e) mg (layer_weights cfg i)) mg [0..<unat (model_n_layer cfg)]) (\<lambda>mg.
      bindE (create_weight e mg (dotted [''lmhead'', ''weight''], [model_n_embd cfg, model_vocab_size cfg])) (\<lambda>(m, g).
      bindE (foldE (weight_size g) 0 (mo_wgt_map m)) (\<lambda>sz. Inr (m\<lparr>mo_wgt_size := sz\<rparr>, g)))))"

definition Model_new :: "env \<Rightarrow> string \<Rightarrow> graph \<Rightarrow> fault + (model \<times> graph)" where
  "Model_new e name g =
     (let (i, ms) = generate_id (g_mem g)
      in init_params e (\<lparr>mo_name = name, mo_root_node_id = i, mo_wgt_map = [], mo_wgt_size = 0\<rparr>, g\<lparr>g_mem := ms\<rparr>))"

text \<open>An unknown name is entered with a null pointer, which a later lookup returns again.\<close>

definition find_tensor :: "string \<Rightarrow> model \<Rightarrow> nat option" where
  "find_tensor name m = map_of (mo_wgt_map m) name"

definition get_params :: "model \<Rightarrow> nat \<Rightarrow> string \<Rightarrow> string \<Rightarrow> nat option list" where
  "get_params m layer_idx block_type operation_type =
     (let prefix = dotted [LAYER layer_idx, block_type, operation_type]
      in [find_tensor (dotted [prefix, ''weight'']) m, find_tensor (dotted [prefix, ''bias'']) m])"

definition get_weight_top_addr :: "env \<Rightarrow> model \<Rightarrow> addr_type" where
  "get_weight_top_addr e m = align (e_alignment e) (mo_wgt_size m) + e_alignment e"

subsection \<open>Stage programs\<close>

text \<open>
  The program holds its operations by identifier (\<open>_op_map\<close>, here in the order of creation) and the
  list of those that can run.
\<close>

record stage_program =
  sp_name :: string
  sp_breq :: batched_request
  sp_platform :: StagePlatform
  sp_stage :: Stage
  sp_op_map :: "nat list"
  sp_executable :: "nat list"

definition add_op :: "nat \<Rightarrow> stage_program \<Rightarrow> stage_program" where
  "add_op oi sp = sp\<lparr>sp_op_map := sp_op_map sp @ [oi]\<rparr>"

definition find_executable_node :: "nat \<Rightarrow> stage_program \<times> graph \<Rightarrow> fault + (stage_program \<times> graph)" where
  "find_executable_node ti = (\<lambda>(sp, g). bindE (get_tensor ti g) (\<lambda>t.
     bindE (foldE (\<lambda>sp oi. bindE (check_executable oi g) (\<lambda>ok.
              Inr (if ok then sp\<lparr>sp_executable := sp_executable sp @ [oi]\<rparr> else sp))) sp (tensor_children t))
       (\<lambda>sp. Inr (sp, g))))"

text \<open>The entry of \<open>_op_map\<close> for an identifier; a missing one is a null pointer.\<close>

definition op_of :: "u32 \<Rightarrow> stage_program \<times> graph \<Rightarrow> fault + nat" where
  "op_of i = (\<lambda>(sp, g). case find (\<lambda>oi. oi < length (g_ops g) \<and> op_id (g_ops g ! oi) = i) (sp_op_map sp) of
     None \<Rightarrow> Inl Undefined | Some oi \<Rightarrow> Inr oi)"

definition check_exist_in_executable :: "u32 \<Rightarrow> stage_program \<times> graph \<Rightarrow> fault + bool" where
  "check_exist_in_executable i = (\<lambda>(sp, g). foldE (\<lambda>b oi. if b then Inr True else
     bindE (get_op oi g) (\<lambda>oper. Inr (op_id oper = i))) False (sp_executable sp))"

fun erase_first :: "('a \<Rightarrow> bool) \<Rightarrow> 'a list \<Rightarrow> 'a list" where
  "erase_first P [] = []"
| "erase_first P (x # xs) = (if P x then xs else x # erase_first P xs)"

definition notify_child :: "stage_program \<times> graph \<Rightarrow> nat \<Rightarrow> fault + (stage_program \<times> graph)" where
  "notify_child = (\<lambda>(sp, g) oi. bindE (check_executable oi g) (\<lambda>ok.
     if \<not> ok then Inr (sp, g)
     else bindE (get_op oi g) (\<lambda>oper. bindE (check_exist_in_executable (op_id oper) (sp, g)) (\<lambda>there.
       Inr (if there then sp else sp\<lparr>sp_executable := sp_executable sp @ [oi]\<rparr>, g)))))"

definition finish_operation :: "u32 \<Rightarrow> stage_program \<times> graph \<Rightarrow> fault + (stage_program \<times> graph)" where
  "finish_operation i = (\<lambda>(sp, g). bindE (op_of i (sp, g)) (\<lambda>oi. bindE (set_finish oi g) (\<lambda>g.
     let sp = sp\<lparr>sp_executable := erase_first (\<lambda>oi. op_id (g_ops g ! oi) = i) (sp_executable sp)\<rparr>
     in bindE (op_child_nodes oi g) (\<lambda>children. foldE notify_child (sp, g) children))))"

definition sp_check_finish :: "stage_program \<times> graph \<Rightarrow> fault + bool" where
  "sp_check_finish = (\<lambda>(sp, g). foldE (\<lambda>b oi. bindE (get_op oi g) (\<lambda>oper. Inr (b \<and> op_finish oper))) True (sp_op_map sp))"

definition finish_operation_tile :: "Tile \<Rightarrow> stage_program \<times> graph \<Rightarrow> fault + (stage_program \<times> graph)" where
  "finish_operation_tile tile = (\<lambda>(sp, g). bindE (op_of (tl_operation_id tile) (sp, g)) (\<lambda>oi.
     bindE (reduce_tile oi tile g) (\<lambda>g. Inr (sp, g))))"

definition list_operation_stat :: "stage_program \<times> graph \<Rightarrow> fault + OperationStat list" where
  "list_operation_stat = (\<lambda>(sp, g). foldE (\<lambda>ss oi. bindE (get_op oi g) (\<lambda>oper. Inr (ss @ [op_stat oper]))) [] (sp_op_map sp))"

subsection \<open>The blocks of a layer\<close>

text \<open>
  An operation is made, entered in the program and asked for its outputs.  The output tensors are
  the inputs of the next operation.
\<close>

definition with_op :: "(graph \<Rightarrow> fault + (nat \<times> graph)) \<Rightarrow> (nat \<Rightarrow> nat list \<Rightarrow> graph \<Rightarrow> (nat list \<times> graph) run) \<Rightarrow>
    nat list \<Rightarrow> stage_program \<times> graph \<Rightarrow> (nat list \<times> stage_program \<times> graph) run" where
  "with_op new outs inputs = (\<lambda>(sp, g). bindR (Some (new g)) (\<lambda>(oi, g).
     bindR (outs oi inputs g) (\<lambda>(os, g). Some (Inr (os, add_op oi sp, g)))))"

definition mat_mul :: "env \<Rightarrow> string \<Rightarrow> nat option list \<Rightarrow> nat list \<Rightarrow> stage_program \<times> graph \<Rightarrow>
    (nat list \<times> stage_program \<times> graph) run" where
  "mat_mul e name weights = with_op (MatMul_new name weights) (MatMul_get_outputs e)"

definition add_residual :: "env \<Rightarrow> string \<Rightarrow> nat list \<Rightarrow> stage_program \<times> graph \<Rightarrow> (nat list \<times> stage_program \<times> graph) run" where
  "add_residual e name = with_op (\<lambda>g. Inr (Add_new name g)) (Add_get_outputs e)"

definition gelu_op :: "env \<Rightarrow> string \<Rightarrow> nat list \<Rightarrow> stage_program \<times> graph \<Rightarrow> (nat list \<times> stage_program \<times> graph) run" where
  "gelu_op e name = with_op (\<lambda>g. Inr (Gelu_new name g)) (Gelu_get_outputs e)"

definition layer_norm :: "env \<Rightarrow> string \<Rightarrow> nat option list \<Rightarrow> nat list \<Rightarrow> stage_program \<times> graph \<Rightarrow>
    (nat list \<times> stage_program \<times> graph) run" where
  "layer_norm e name weights inputs = (\<lambda>(sp, g). bindR (Some (LayerNorm_new name weights g)) (\<lambda>(oi, weight_dim, g).
     bindR (LayerNorm_get_outputs e oi weight_dim inputs g) (\<lambda>(os, g). Some (Inr (os, add_op oi sp, g)))))"

definition logit_softmax :: "env \<Rightarrow> string \<Rightarrow> nat list \<Rightarrow> stage_program \<times> graph \<Rightarrow> (nat list \<times> stage_program \<times> graph) run" where
  "logit_softmax e name = with_op (\<lambda>g. Inr (NeuPIMSLogitSoftmax_new name g))
     (\<lambda>oi inputs g. Some (NeuPIMSLogitSoftmax_get_outputs e oi inputs g))"

definition attend :: "env \<Rightarrow> string \<Rightarrow> nat list \<Rightarrow> stage_program \<times> graph \<Rightarrow> (nat list \<times> stage_program \<times> graph) run" where
  "attend e name = with_op (\<lambda>g. Inr (NeuPIMSAttend_new name g))
     (\<lambda>oi inputs g. Some (NeuPIMSAttend_get_outputs e oi inputs g))"

definition projection_block :: "env \<Rightarrow> model \<Rightarrow> u32 \<Rightarrow> nat list \<Rightarrow> stage_program \<times> graph \<Rightarrow>
    (nat list \<times> stage_program \<times> graph) run" where
  "projection_block e mo rows inputs = (\<lambda>(sp, g).
     (let prefix = dotted [LAYER 0, ''attn''] in
      bindR (Some (new_act_tensor e ''residual_buffer'' [rows, model_n_embd (e_cfg e)] True g)) (\<lambda>(res_buf, g).
      bindR (mat_mul e (dotted [prefix, ''proj'']) (get_params mo 0 ''attn'' ''proj'') inputs (sp, g)) (\<lambda>(inputs, s).
        add_residual e (dotted [prefix, ''res'']) (inputs @ [res_buf]) s))))"

definition ffn1_block :: "env \<Rightarrow> model \<Rightarrow> nat list \<Rightarrow> stage_program \<times> graph \<Rightarrow> (nat list \<times> stage_program \<times> graph) run" where
  "ffn1_block e mo inputs s =
     (let prefix = dotted [LAYER 0, ''ffn''] in
      bindR (Some (at inputs 0)) (\<lambda>res_buf.
      bindR (layer_norm e (dotted [prefix, ''ln'']) (get_params mo 0 ''ffn'' ''ln'') inputs s) (\<lambda>(inputs, s).
      bindR (mat_mul e (dotted [prefix, ''fc1'']) (get_params mo 0 ''ffn'' ''fc1'') inputs s) (\<lambda>(inputs, s).
      bindR (gelu_op e (dotted [prefix, ''gelu'']) inputs s) (\<lambda>(inputs, s).
      bindR (mat_mul e (dotted [prefix, ''fc2'']) (get_params mo 0 ''ffn'' ''fc2'') inputs s) (\<lambda>(inputs, s).
        add_residual e (dotted [prefix, ''res'']) (inputs @ [res_buf]) s))))))"

definition qkv_gen_block :: "env \<Rightarrow> model \<Rightarrow> nat list \<Rightarrow> stage_program \<times> graph \<Rightarrow> (nat list \<times> stage_program \<times> graph) run" where
  "qkv_gen_block e mo inputs s =
     (let prefix = dotted [LAYER 0, ''attn''] in
      bindR (layer_norm e (dotted [prefix, ''ln'']) (get_params mo 0 ''attn'' ''ln'') inputs s) (\<lambda>(inputs, s).
        mat_mul e (dotted [prefix, ''QKVgen'']) (get_params mo 0 ''attn'' ''QKVgen'') inputs s))"

subsection \<open>The program of a stage\<close>

definition enable_proj_ffns :: "Stage \<Rightarrow> bool" where
  "enable_proj_ffns s \<longleftrightarrow> s = Stage_C \<or> s = Stage_D \<or> s = Stage_E \<or> s = Stage_F"

definition enable_qkv_gen :: "Stage \<Rightarrow> bool" where
  "enable_qkv_gen s \<longleftrightarrow> s = Stage_A \<or> s = Stage_B \<or> s = Stage_C \<or> s = Stage_D"

definition skip_pim_stage :: "Stage \<Rightarrow> bool" where
  "skip_pim_stage s \<longleftrightarrow> s = Stage_A \<or> s = Stage_F"

definition init_SA_program :: "env \<Rightarrow> model \<Rightarrow> InferRequest list \<Rightarrow> stage_program \<times> graph \<Rightarrow> (stage_program \<times> graph) run" where
  "init_SA_program e mo reqs = (\<lambda>(sp, g).
     (let E = model_n_embd (e_cfg e); tp = n_tp (e_cfg e);
          proj = enable_proj_ffns (sp_stage sp); qkv = enable_qkv_gen (sp_stage sp) in
      bindR (Some (bindE (breq_num_rows reqs (sp_breq sp)) (\<lambda>N.
               if proj \<and> tp = 0 then Inl Undefined
               else bindE (new_act_tensor e ''input'' [N, if proj then E div tp else E] True g) (\<lambda>(input, g). Inr (N, input, g)))))
       (\<lambda>(N, input, g).
      bindR (if proj then bindR (projection_block e mo N [input] (sp, g)) (\<lambda>(inputs, s). ffn1_block e mo inputs s)
             else Some (Inr ([input], sp, g))) (\<lambda>(inputs, s).
      bindR (if qkv then qkv_gen_block e mo inputs s else Some (Inr (inputs, s))) (\<lambda>(_, s).
        Some (find_executable_node input s))))))"

text \<open>
  The caches of a request are shared with the operations of the stage, which read their dimensions
  and rows while the program is built, and only then; the graph holds a copy of them.
\<close>

definition pim_input :: "env \<Rightarrow> InferRequest list \<Rightarrow> u32 \<Rightarrow> u32 \<Rightarrow> (nat list \<times> nat list \<times> nat list) \<times> graph \<Rightarrow> nat \<Rightarrow>
    fault + ((nat list \<times> nat list \<times> nat list) \<times> graph)" where
  "pim_input e reqs num_heads dk = (\<lambda>((querys, keys, vals), g) r.
     bindE (at reqs r) (\<lambda>request. ast (rows_of request = 1)
      (bindE (new_act_tensor e ''query'' [num_heads, rows_of request, dk] True g) (\<lambda>(q, g).
       bindE (at (K_cache request) 0) (\<lambda>kt. bindE (at (V_cache request) 0) (\<lambda>vt.
         let (k, g) = new_tensor (PT kt) g; (v, g) = new_tensor (PT vt) g
         in Inr ((querys @ [q], keys @ [k], vals @ [v]), g)))))))"

definition init_PIM_program :: "env \<Rightarrow> InferRequest list \<Rightarrow> stage_program \<times> graph \<Rightarrow> (stage_program \<times> graph) run" where
  "init_PIM_program e reqs = (\<lambda>(sp, g).
     (let nh = model_n_head (e_cfg e); tp = n_tp (e_cfg e); prefix = [LAYER 0, ''attn''] in
      bindR (Some (if tp = 0 \<or> nh = 0 then Inl Undefined
         else foldE (pim_input e reqs (nh div tp) (model_n_embd (e_cfg e) div nh)) (([], [], []), g) (sp_breq sp)))
        (\<lambda>((querys, keys, vals), g).
       bindR (logit_softmax e (dotted (prefix @ [''NeuPIMSLogitSoftmax''])) (querys @ keys) (sp, g)) (\<lambda>(inputs, s).
       bindR (attend e (dotted (prefix @ [''NeuPIMSAttend''])) (inputs @ vals) s) (\<lambda>(_, s).
         Some (if querys = [] then Inl Undefined else find_executable_node (last querys) s))))))"

definition init_program :: "env \<Rightarrow> model \<Rightarrow> InferRequest list \<Rightarrow> stage_program \<times> graph \<Rightarrow> (stage_program \<times> graph) run" where
  "init_program e mo reqs = (\<lambda>(sp, g).
     if sp_stage sp = Stage_Finish then Some (Inl AssertFailed)
     else if sp_breq sp = [] then Some (Inr (sp, g))
     else case sp_platform sp of
         PIM \<Rightarrow> if skip_pim_stage (sp_stage sp) then Some (Inr (sp, g)) else init_PIM_program e reqs (sp, g)
       | SA \<Rightarrow> init_SA_program e mo reqs (sp, g)
       | PLATFORM_SIZE \<Rightarrow> Some (Inr (sp, g)))"

definition StageProgram_new :: "env \<Rightarrow> model \<Rightarrow> InferRequest list \<Rightarrow> batched_request \<Rightarrow> StagePlatform \<Rightarrow> Stage \<Rightarrow> graph \<Rightarrow>
    (stage_program \<times> graph) run" where
  "StageProgram_new e mo reqs b p s g = init_program e mo reqs
     (\<lparr>sp_name = stagePlatformToString p @ ''_stage_'' @ stageToString s, sp_breq = b, sp_platform = p, sp_stage = s,
       sp_op_map = [], sp_executable = []\<rparr>, g)"

end
