(* ===== verification/ProgramRun.thy ===== *)
theory ProgramRun
  imports Program
begin

text \<open>
  Stage programs run to their end: what an operation adds to the graph, the invariant of a program
  under construction and in execution, and the property that no program gets stuck.
\<close>

subsection \<open>What an operation adds to the graph\<close>

text \<open>
  The part of the graph that decides what can run: per tensor whether it is produced and which
  operations read it, per operation its inputs, its outputs and whether it is finished.
\<close>

definition fresh :: "tensor \<Rightarrow> bool" where
  "fresh t \<longleftrightarrow> \<not> tensor_produced t \<and> tensor_children t = []"

definition extends :: "graph \<Rightarrow> graph \<Rightarrow> bool" where
  "extends g g' \<longleftrightarrow> (\<exists>new. g_tensors g' = g_tensors g @ new \<and> (\<forall>t \<in> set new. fresh t))"

definition reads :: "nat \<Rightarrow> nat list \<Rightarrow> tensor list \<Rightarrow> tensor list \<Rightarrow> bool" where
  "reads oi inputs ts ts' \<longleftrightarrow> length ts' = length ts \<and> set inputs \<subseteq> {..<length ts} \<and>
     (\<forall>ti < length ts. tensor_produced (ts' ! ti) = tensor_produced (ts ! ti) \<and>
        tensor_children (ts' ! ti) = tensor_children (ts ! ti) @ replicate (count_list inputs ti) oi)"

lemma tensor_add_child_simps [simp]:
  "tensor_produced (tensor_add_child oi t) = tensor_produced t"
  "tensor_children (tensor_add_child oi t) = tensor_children t @ [oi]"
  by (simp_all add: tensor_add_child_def tensor_produced_def tensor_children_def add_child_node_def split: tensor.split)

lemma tensor_set_produced_simps [simp]:
  "tensor_produced (tensor_set_produced t)" "tensor_children (tensor_set_produced t) = tensor_children t"
  by (simp_all add: tensor_set_produced_def tensor_produced_def tensor_children_def set_produced_def split: tensor.split)

lemma extends_refl [simp]: "extends g g"
  by (simp add: extends_def)

lemma extends_trans: "\<lbrakk>extends g g'; extends g' g''\<rbrakk> \<Longrightarrow> extends g g''"
  by (fastforce simp: extends_def)

lemma replicate_snoc: "replicate n x @ [x] = x # replicate n x"
  by (simp add: replicate_append_same)

lemma set_as_parent_reads:
  assumes "set_as_parent_tensor oi inputs g = Inr g'"
  shows "\<exists>ts. g' = g\<lparr>g_tensors := ts\<rparr> \<and> reads oi inputs (g_tensors g) ts"
  using assms
proof (induction inputs arbitrary: g)
  case Nil
  then show ?case by (intro exI[of _ "g_tensors g"]) (simp add: set_as_parent_tensor_def reads_def)
next
  case (Cons ti tis)
  define g1 where "g1 = g\<lparr>g_tensors := (g_tensors g)[ti := tensor_add_child oi (g_tensors g ! ti)]\<rparr>"
  from Cons.prems have ti: "ti < length (g_tensors g)" and r: "set_as_parent_tensor oi tis g1 = Inr g'"
    by (auto simp: set_as_parent_tensor_def upd_tensor_def get_tensor_def g1_def)
  from Cons.IH [OF r] obtain ts where "g' = g1\<lparr>g_tensors := ts\<rparr>" "reads oi tis (g_tensors g1) ts" by blast
  then show ?case
    using ti by (intro exI[of _ ts]) (auto simp: g1_def reads_def nth_list_update replicate_snoc)
qed

text \<open>The steps of a \<open>get_outputs\<close> on one operation of the graph.\<close>

lemma upd_op_Inr: "upd_op oi f g = Inr g' \<longleftrightarrow> oi < length (g_ops g) \<and> g' = g\<lparr>g_ops := (g_ops g)[oi := f (g_ops g ! oi)]\<rparr>"
  by (auto simp: upd_op_def get_op_def)

lemma get_op_Inr: "get_op oi g = Inr oper \<longleftrightarrow> oi < length (g_ops g) \<and> oper = g_ops g ! oi"
  by (auto simp: get_op_def)

lemma get_tensor_Inr: "get_tensor ti g = Inr t \<longleftrightarrow> ti < length (g_tensors g) \<and> t = g_tensors g ! ti"
  by (auto simp: get_tensor_def)

lemmas op_simps = upd_op_Inr get_op_Inr get_tensor_Inr set_inputs_def set_outputs_def add_tiles_def

lemma NPUTensor_new_fresh:
  "NPUTensor_new cfg al name dims bt pr ms = Inr (t, ms') \<Longrightarrow>
     tensor_produced (NT t) = pr \<and> tensor_children (NT t) = []"
  by (auto simp: NPUTensor_new_def tensor_produced_def tensor_children_def split: prod.splits if_splits)

lemma new_act_tensor_extends:
  assumes "new_act_tensor e name dims pr g = Inr (ti, g')"
  shows "\<exists>t. tensor_produced t = pr \<and> tensor_children t = [] \<and> ti = length (g_tensors g) \<and>
     g_tensors g' = g_tensors g @ [t] \<and> g_ops g' = g_ops g"
  using assms NPUTensor_new_fresh by (auto simp: new_act_tensor_def new_tensor_def split: prod.splits)

text \<open>
  \<open>adds_op\<close>: the program and the graph have one more operation, which reads the tensors \<open>inputs\<close>
  and some of the weights \<open>ws\<close>, and writes the new tensors \<open>os\<close>.
\<close>

definition adds_op :: "nat list \<Rightarrow> nat option list \<Rightarrow> nat list \<Rightarrow> stage_program \<times> graph \<Rightarrow> stage_program \<times> graph \<Rightarrow> bool" where
  "adds_op inputs ws os = (\<lambda>(sp, g) (sp', g').
     sp' = add_op (length (g_ops g)) sp \<and>
     (\<exists>oper ts new wi. g_ops g' = g_ops g @ [oper] \<and> \<not> op_finish oper \<and> op_outputs oper = os \<and>
        op_inputs oper = map Some inputs @ wi \<and> set wi \<subseteq> set ws \<and>
        g_tensors g' = ts @ new \<and> reads (length (g_ops g)) inputs (g_tensors g) ts \<and> (\<forall>t \<in> set new. fresh t) \<and>
        set os \<subseteq> {length ts..<length ts + length new}))"

definition op_made :: "nat option list \<Rightarrow> nat \<Rightarrow> graph \<Rightarrow> graph \<Rightarrow> bool" where
  "op_made ins oi g g' \<longleftrightarrow> oi = length (g_ops g) \<and> g_tensors g' = g_tensors g \<and>
     (\<exists>oper. g_ops g' = g_ops g @ [oper] \<and> \<not> op_finish oper \<and> op_inputs oper = ins)"

definition outputs_made :: "nat \<Rightarrow> nat list \<Rightarrow> nat option list \<Rightarrow> nat list \<Rightarrow> graph \<Rightarrow> graph \<Rightarrow> bool" where
  "outputs_made oi inputs wi os g g' \<longleftrightarrow> oi < length (g_ops g) \<and>
     (\<exists>oper ts new. g_ops g' = (g_ops g)[oi := oper] \<and> op_finish oper = op_finish (g_ops g ! oi) \<and>
        op_name oper = op_name (g_ops g ! oi) \<and> op_outputs oper = os \<and> op_inputs oper = map Some inputs @ wi \<and>
        g_tensors g' = ts @ new \<and> reads oi inputs (g_tensors g) ts \<and> (\<forall>t \<in> set new. fresh t) \<and>
        set os \<subseteq> {length ts..<length ts + length new})"

lemma adds_opI:
  assumes "op_made ins oi g g1" "outputs_made oi inputs wi os g1 g'" "set wi \<subseteq> set ws"
  shows "adds_op inputs ws os (sp, g) (add_op oi sp, g')"
  using assms unfolding op_made_def outputs_made_def adds_op_def
  by (clarsimp simp: list_update_append) blast

lemma Operation_new_made: "Operation_new name ins g = (oi, g') \<Longrightarrow> op_made ins oi g g'"
  by (auto simp: Operation_new_def op_made_def split: prod.splits)

subsection \<open>Every operation keeps to it\<close>

definition one_output :: "nat \<Rightarrow> graph \<Rightarrow> nat list \<Rightarrow> nat option list \<Rightarrow> graph \<Rightarrow> bool" where
  "one_output oi g1 os ins g' \<longleftrightarrow> oi < length (g_ops g1) \<and> g_ops g' = (g_ops g1)[oi := g_ops g' ! oi] \<and>
     op_finish (g_ops g' ! oi) = op_finish (g_ops g1 ! oi) \<and> op_name (g_ops g' ! oi) = op_name (g_ops g1 ! oi) \<and>
     op_outputs (g_ops g' ! oi) = os \<and>
     op_inputs (g_ops g' ! oi) = ins \<and>
     (\<exists>t. fresh t \<and> os = [length (g_tensors g1)] \<and> g_tensors g' = g_tensors g1 @ [t])"

lemma one_output_made:
  assumes "set_as_parent_tensor oi inputs g = Inr g1" "one_output oi g1 os (map Some inputs @ wi) g'"
  shows "outputs_made oi inputs wi os g g'"
proof -
  obtain ts where "g1 = g\<lparr>g_tensors := ts\<rparr>" "reads oi inputs (g_tensors g) ts"
    using set_as_parent_reads [OF assms(1)] by blast
  with assms(2) show ?thesis unfolding outputs_made_def one_output_def by fastforce
qed

lemma Add_outputs_made:
  assumes "Add_get_outputs e oi inputs g = Some (Inr (os, g'))"
  shows "outputs_made oi inputs [] os g g'"
proof -
  from assms have "\<exists>g1. set_as_parent_tensor oi inputs g = Inr g1 \<and> one_output oi g1 os (map Some inputs @ []) g'"
    by (auto simp: Add_get_outputs_def Let_def op_simps fresh_def one_output_def dest!: new_act_tensor_extends)
  then show ?thesis using one_output_made by blast
qed

lemma Gelu_outputs_made:
  assumes "Gelu_get_outputs e oi inputs g = Some (Inr (os, g'))"
  shows "outputs_made oi inputs [] os g g'"
proof -
  from assms have "\<exists>g1. set_as_parent_tensor oi inputs g = Inr g1 \<and> one_output oi g1 os (map Some inputs @ []) g'"
    by (auto simp: Gelu_get_outputs_def Let_def op_simps fresh_def one_output_def dest!: new_act_tensor_extends)
  then show ?thesis using one_output_made by blast
qed

lemma first_input: "\<lbrakk>length inputs = 1; ins \<noteq> []\<rbrakk> \<Longrightarrow> ins[0 := Some (inputs ! 0)] = map Some inputs @ drop (length inputs) ins"
  by (cases ins; cases inputs) auto

lemma LayerNorm_outputs_made:
  assumes "LayerNorm_get_outputs e oi wd inputs g = Some (Inr (os, g'))"
  shows "outputs_made oi inputs (drop (length inputs) (op_inputs (g_ops g ! oi))) os g g'"
proof -
  from assms have "\<exists>g1. set_as_parent_tensor oi inputs g = Inr g1 \<and>
      one_output oi g1 os (map Some inputs @ drop (length inputs) (op_inputs (g_ops g1 ! oi))) g'"
    by (auto simp: LayerNorm_get_outputs_def Let_def op_simps fresh_def one_output_def first_input
        dest!: new_act_tensor_extends split: if_splits)
  then show ?thesis using one_output_made set_as_parent_reads by fastforce
qed

lemma MatMul_outputs_made:
  assumes "MatMul_get_outputs e oi inputs g = Some (Inr (os, g'))"
  shows "outputs_made oi inputs (drop (length inputs) (op_inputs (g_ops g ! oi))) os g g'"
proof -
  from assms have "\<exists>g1. set_as_parent_tensor oi inputs g = Inr g1 \<and>
      one_output oi g1 os (map Some inputs @ drop (length inputs) (op_inputs (g_ops g1 ! oi))) g'"
    by (auto simp: MatMul_get_outputs_def Let_def op_simps fresh_def one_output_def dest!: new_act_tensor_extends)
  then show ?thesis using one_output_made set_as_parent_reads by fastforce
qed

text \<open>Generating the tiles of the two memory operations moves only the scratchpad addresses of the operation.\<close>

definition oper_io :: "operation \<Rightarrow> nat option list \<times> nat list \<times> bool \<times> string" where
  "oper_io oper = (op_inputs oper, op_outputs oper, op_finish oper, op_name oper)"

definition em_io :: "emit_state \<Rightarrow> nat option list \<times> nat list \<times> bool \<times> string" where
  "em_io s = oper_io (em_oper s)"

lemma em_io_simps [simp]: "em_io (emit i s) = em_io s" "em_io (s\<lparr>em_insts := is'\<rparr>) = em_io s"
  by (simp_all add: em_io_def emit_def)

lemma em_io_alloc [simp]: "em_io (snd (em_alloc cfg sz b s)) = em_io s"
  by (simp add: em_alloc_def allocate_sram_addr_def em_io_def oper_io_def Let_def)

lemma foldE_io:
  assumes "foldE f s xs = Inr s'" "\<And>s x s'. f s x = Inr s' \<Longrightarrow> p s' = p s"
  shows "p s' = p s"
  by (rule foldE_invariant [OF assms(1), where I = "\<lambda>t. p t = p s"]) (auto dest: assms(2))

lemma ls_head_io: "ls_head cfg l ch row chunk heads sr h = Inr sr' \<Longrightarrow> em_io (fst sr') = em_io (fst sr)"
  by (cases sr) (auto simp: ls_head_def Let_def case_prod_unfold)

lemma ls_row_io: "ls_row cfg l key chunk sr h = Inr sr' \<Longrightarrow> em_io (fst sr') = em_io (fst sr)"
  by (cases sr) (auto simp: ls_row_def Let_def case_prod_unfold dest!: foldE_io [where p = "\<lambda>sr. em_io (fst sr)", OF _ ls_head_io]
      split: if_splits)

lemma ls_chunk_io: "ls_chunk cfg l key n sr h = Inr sr' \<Longrightarrow> em_io (fst sr') = em_io (fst sr)"
  by (cases sr) (auto simp: ls_chunk_def Let_def case_prod_unfold dest!: foldE_io [where p = "\<lambda>sr. em_io (fst sr)", OF _ ls_row_io])

lemma ls_softmax_io: "ls_softmax cfg key out n rr s h = Inr s' \<Longrightarrow> em_io s' = em_io s"
  by (auto simp: ls_softmax_def Let_def case_prod_unfold)

lemma ls_incremental_io: "ls_incremental cfg l i s = Inr s' \<Longrightarrow> em_io s' = em_io s"
  by (auto simp: ls_incremental_def Let_def split: if_splits
      dest!: foldE_io [where p = em_io, OF _ ls_softmax_io] foldE_io [where p = "\<lambda>sr. em_io (fst sr)", OF _ ls_chunk_io])

lemma ls_initiation_head_io: "ls_initiation_head cfg l q k out n s h = Inr s' \<Longrightarrow> em_io s' = em_io s"
  by (auto simp: ls_initiation_head_def Let_def case_prod_unfold)

lemma ls_request_io: "ls_request cfg l s i = Inr s' \<Longrightarrow> em_io s' = em_io s"
  by (auto simp: ls_request_def split: if_splits dest!: ls_incremental_io foldE_io [where p = em_io, OF _ ls_initiation_head_io])

lemma at_row_io: "at_row cfg a v chunks nc dc ci sr t = Inr sr' \<Longrightarrow> em_io (fst sr') = em_io (fst sr)"
  by (cases sr) (auto simp: at_row_def Let_def case_prod_unfold)

lemma at_chunk_io: "at_chunk cfg a v n chunks sr ci = Inr sr' \<Longrightarrow> em_io (fst sr') = em_io (fst sr)"
  by (cases sr) (auto simp: at_chunk_def Let_def case_prod_unfold dest!: foldE_io [where p = "\<lambda>sr. em_io (fst sr)", OF _ at_row_io])

lemma at_add_io: "at_add cfg a out n rr hi s ti = Inr s' \<Longrightarrow> em_io s' = em_io s"
  by (auto simp: at_add_def Let_def case_prod_unfold)

lemma at_head_io: "at_head cfg a v out n chunks s hi = Inr s' \<Longrightarrow> em_io s' = em_io s"
  by (auto simp: at_head_def split: if_splits
      dest!: foldE_io [where p = em_io, OF _ at_add_io] foldE_io [where p = "\<lambda>sr. em_io (fst sr)", OF _ at_chunk_io])

lemma at_initiation_head_io: "at_initiation_head cfg a l v out n s h = Inr s' \<Longrightarrow> em_io s' = em_io s"
  by (auto simp: at_initiation_head_def Let_def case_prod_unfold)

lemma at_request_io: "at_request cfg a s i = Inr s' \<Longrightarrow> em_io s' = em_io s"
  by (auto simp: at_request_def split: if_splits
      dest: foldE_io [where p = em_io, OF _ at_head_io] foldE_io [where p = em_io, OF _ at_initiation_head_io])

lemma ls_tiles_io: "ls_initialize_tiles cfg l idxs oper = Inr (ts, oper') \<Longrightarrow> oper_io oper' = oper_io oper"
  unfolding ls_initialize_tiles_def
  by (drule foldE_io [where p = "\<lambda>x. oper_io (snd x)"])
     (auto simp: ls_initialize_instructions_def em_io_def split: prod.splits
       dest!: foldE_io [where p = em_io, OF _ ls_request_io])

lemma at_tiles_io: "at_initialize_tiles cfg a idxs oper = Inr (ts, oper') \<Longrightarrow> oper_io oper' = oper_io oper"
  unfolding at_initialize_tiles_def
  by (drule foldE_io [where p = "\<lambda>x. oper_io (snd x)"])
     (auto simp: at_initialize_instructions_def em_io_def split: prod.splits
       dest!: foldE_io [where p = em_io, OF _ at_request_io])

text \<open>The outputs of the two operations are new tensors.\<close>

definition grown :: "graph \<Rightarrow> nat list \<Rightarrow> graph \<Rightarrow> bool" where
  "grown g tis g' \<longleftrightarrow> g_ops g' = g_ops g \<and> extends g g' \<and> set tis \<subseteq> {length (g_tensors g)..<length (g_tensors g')}"

lemma grown_step:
  assumes "grown g tis g1" "g_ops g2 = g_ops g1" "g_tensors g2 = g_tensors g1 @ [t]" "fresh t"
  shows "grown g (tis @ [length (g_tensors g1)]) g2"
proof -
  have "extends g1 g2" using assms(3,4) by (auto simp: extends_def)
  with assms show ?thesis by (auto simp: grown_def extends_def)
qed

lemma new_out_fresh: "NPUTensor_new cfg al name dims bt False ms = Inr (t, ms') \<Longrightarrow> fresh (NT t)"
  using NPUTensor_new_fresh unfolding fresh_def by blast

lemma ls_output_grown:
  assumes "ls_output e name nh x qk = Inr x'" "grown g (fst (fst x)) (snd x)"
  shows "grown g (fst (fst x')) (snd x')"
proof -
  obtain tis outs g1 Q K where x: "x = ((tis, outs), g1)" "qk = (Q, K)" by (cases x; cases "fst x"; cases qk) auto
  from assms(1) obtain t ms where "x' = ((tis @ [length (g_tensors g1)], outs @ [t]), g1\<lparr>g_mem := ms, g_tensors := g_tensors g1 @ [NT t]\<rparr>)"
    "fresh (NT t)"
    by (auto simp: x ls_output_def new_tensor_def dest: new_out_fresh)
  with assms(2) show ?thesis by (auto simp: x intro!: grown_step)
qed

lemma at_output_grown:
  assumes "at_output e name nh dk x qk = Inr x'" "grown g (fst (fst x)) (snd x)"
  shows "grown g (fst (fst x')) (snd x')"
proof -
  obtain tis outs g1 Q K where x: "x = ((tis, outs), g1)" "qk = (Q, K)" by (cases x; cases "fst x"; cases qk) auto
  from assms(1) obtain t ms where "x' = ((tis @ [length (g_tensors g1)], outs @ [t]), g1\<lparr>g_mem := ms, g_tensors := g_tensors g1 @ [NT t]\<rparr>)"
    "fresh (NT t)"
    by (auto simp: x at_output_def new_tensor_def dest: new_out_fresh)
  with assms(2) show ?thesis by (auto simp: x intro!: grown_step)
qed

definition many_outputs :: "nat \<Rightarrow> graph \<Rightarrow> nat list \<Rightarrow> nat option list \<Rightarrow> graph \<Rightarrow> bool" where
  "many_outputs oi g1 os ins g' \<longleftrightarrow> oi < length (g_ops g1) \<and> g_ops g' = (g_ops g1)[oi := g_ops g' ! oi] \<and>
     oper_io (g_ops g' ! oi) = (ins, os, op_finish (g_ops g1 ! oi), op_name (g_ops g1 ! oi)) \<and> extends g1 g' \<and>
     set os \<subseteq> {length (g_tensors g1)..<length (g_tensors g')}"

lemma many_outputs_made:
  assumes "set_as_parent_tensor oi inputs g = Inr g1" "many_outputs oi g1 os (map Some inputs) g'"
  shows "outputs_made oi inputs [] os g g'"
proof -
  obtain ts where "g1 = g\<lparr>g_tensors := ts\<rparr>" "reads oi inputs (g_tensors g) ts"
    using set_as_parent_reads [OF assms(1)] by blast
  with assms(2) show ?thesis unfolding outputs_made_def many_outputs_def extends_def oper_io_def by fastforce
qed

lemma extends_ops [simp]: "extends (g\<lparr>g_ops := os\<rparr>) g' = extends g g'" "extends g (g'\<lparr>g_ops := os\<rparr>) = extends g g'"
  by (simp_all add: extends_def)

lemma ls_outputs_grown:
  assumes "foldE (ls_output e name nh) (([], []), g) qks = Inr ((tis, outs), g')"
  shows "grown g tis g'"
  using foldE_invariant [OF assms, where I = "\<lambda>x. grown g (fst (fst x)) (snd x)"] ls_output_grown
  by (fastforce simp: grown_def)

lemma at_outputs_grown:
  assumes "foldE (at_output e name nh dk) (([], []), g) qks = Inr ((tis, outs), g')"
  shows "grown g tis g'"
  using foldE_invariant [OF assms, where I = "\<lambda>x. grown g (fst (fst x)) (snd x)"] at_output_grown
  by (fastforce simp: grown_def)

lemma LogitSoftmax_outputs_made:
  assumes "NeuPIMSLogitSoftmax_get_outputs e oi inputs g = Inr (os, g')"
  shows "outputs_made oi inputs [] os g g'"
proof -
  from assms have "\<exists>g1. set_as_parent_tensor oi inputs g = Inr g1 \<and> many_outputs oi g1 os (map Some inputs) g'"
    by (auto simp: NeuPIMSLogitSoftmax_get_outputs_def Let_def op_simps many_outputs_def grown_def oper_io_def
        dest!: ls_outputs_grown ls_tiles_io)
  then show ?thesis using many_outputs_made by blast
qed

lemma Attend_outputs_made:
  assumes "NeuPIMSAttend_get_outputs e oi inputs g = Inr (os, g')"
  shows "outputs_made oi inputs [] os g g'"
proof -
  from assms have "\<exists>g1. set_as_parent_tensor oi inputs g = Inr g1 \<and> many_outputs oi g1 os (map Some inputs) g'"
    by (auto simp: NeuPIMSAttend_get_outputs_def Let_def op_simps many_outputs_def grown_def oper_io_def
        dest!: at_outputs_grown at_tiles_io)
  then show ?thesis using many_outputs_made by blast
qed

subsection \<open>Programs under construction\<close>

definition produced_at :: "graph \<Rightarrow> nat \<Rightarrow> bool" where
  "produced_at g ti \<longleftrightarrow> ti < length (g_tensors g) \<and> tensor_produced (g_tensors g ! ti)"

definition outs :: "graph \<Rightarrow> nat \<Rightarrow> nat set" where
  "outs g oi = set (op_outputs (g_ops g ! oi))"

definition outs_of :: "graph \<Rightarrow> nat list \<Rightarrow> nat set" where
  "outs_of g ois = (\<Union>oi \<in> set ois. outs g oi)"

text \<open>
  The input \<open>ti\<close> of the operation \<open>k\<close> of the program is there, or comes from an earlier operation
  that is not finished and knows its reader.
\<close>

definition supplied :: "graph \<Rightarrow> nat list \<Rightarrow> nat \<Rightarrow> nat \<Rightarrow> bool" where
  "supplied g ops k ti \<longleftrightarrow> produced_at g ti \<or>
     (ti < length (g_tensors g) \<and> ops ! k \<in> set (tensor_children (g_tensors g ! ti)) \<and>
      (\<exists>j<k. \<not> op_finish (g_ops g ! (ops ! j)) \<and> ti \<in> outs g (ops ! j)))"

definition all_supplied :: "stage_program \<times> graph \<Rightarrow> bool" where
  "all_supplied = (\<lambda>(sp, g). \<forall>k < length (sp_op_map sp). \<forall>r \<in> set (op_inputs (g_ops g ! (sp_op_map sp ! k))).
     \<exists>ti. r = Some ti \<and> supplied g (sp_op_map sp) k ti)"

definition closed :: "stage_program \<times> graph \<Rightarrow> bool" where
  "closed = (\<lambda>(sp, g). \<forall>oi \<in> set (sp_op_map sp). oi < length (g_ops g) \<and>
     (\<forall>ti \<in> outs g oi. ti < length (g_tensors g) \<and> (\<forall>c \<in> set (tensor_children (g_tensors g ! ti)).
        c \<in> set (sp_op_map sp) \<and> Some ti \<in> set (op_inputs (g_ops g ! c)))))"

definition separate :: "graph \<Rightarrow> nat list \<Rightarrow> bool" where
  "separate g ois \<longleftrightarrow> (\<forall>a \<in> set ois. \<forall>b \<in> set ois. a \<noteq> b \<longrightarrow> outs g a \<inter> outs g b = {})"

definition built :: "nat \<Rightarrow> stage_program \<times> graph \<Rightarrow> bool" where
  "built start = (\<lambda>(sp, g). let ops = sp_op_map sp in
     sp_executable sp = [] \<and> distinct ops \<and> separate g ops \<and> closed (sp, g) \<and> all_supplied (sp, g) \<and>
     produced_at g start \<and> tensor_children (g_tensors g ! start) = take 1 ops \<and>
     (\<forall>oi \<in> set ops. \<not> op_finish (g_ops g ! oi) \<and> (\<forall>ti \<in> outs g oi. \<not> produced_at g ti)) \<and>
     (\<forall>k. 0 < k \<and> k < length ops \<longrightarrow> (\<exists>ti \<in> outs_of g ops. Some ti \<in> set (op_inputs (g_ops g ! (ops ! k))))))"

definition kept :: "graph \<Rightarrow> graph \<Rightarrow> bool" where
  "kept g g' \<longleftrightarrow> (\<forall>ti. produced_at g ti \<longrightarrow> produced_at g' ti)"

lemma kept_refl [simp]: "kept g g" and kept_trans: "kept g g' \<Longrightarrow> kept g' g'' \<Longrightarrow> kept g g''"
  by (auto simp: kept_def)

text \<open>A tensor that is there from the beginning, like the residual buffer, changes nothing.\<close>

lemma nth_append_left_eq: "i < length xs \<Longrightarrow> (xs @ ys) ! i = xs ! i"
  by (simp add: nth_append)

lemma built_new_tensor:
  assumes b: "built start (sp, g)" and g': "g_ops g' = g_ops g" "g_tensors g' = g_tensors g @ [t]"
  shows "built start (sp, g')"
proof -
  have o: "outs g' = outs g" and oo: "outs_of g' = outs_of g" by (auto simp: fun_eq_iff outs_def outs_of_def g')
  have p: "ti < length (g_tensors g) \<Longrightarrow> produced_at g' ti = produced_at g ti" for ti
    by (auto simp: produced_at_def g' nth_append)
  have n: "ti < length (g_tensors g) \<Longrightarrow> g_tensors g' ! ti = g_tensors g ! ti" for ti
    by (simp add: g' nth_append)
  have l: "ti < length (g_tensors g) \<Longrightarrow> ti < length (g_tensors g')" for ti by (simp add: g')
  have "\<forall>oi \<in> set (sp_op_map sp). oi < length (g_ops g) \<and> (\<forall>ti \<in> outs g oi. ti < length (g_tensors g) \<and>
      (\<forall>c \<in> set (tensor_children (g_tensors g ! ti)). c \<in> set (sp_op_map sp) \<and> Some ti \<in> set (op_inputs (g_ops g ! c))))"
    using b by (auto simp: built_def closed_def Let_def)
  then have "closed (sp, g')" unfolding closed_def split_conv o g'(1) using n l by metis
  moreover have "all_supplied (sp, g')"
    unfolding all_supplied_def split_conv
  proof (intro allI impI ballI)
    fix k r assume k: "k < length (sp_op_map sp)" "r \<in> set (op_inputs (g_ops g' ! (sp_op_map sp ! k)))"
    with b obtain ti where "r = Some ti" "supplied g (sp_op_map sp) k ti"
      unfolding built_def all_supplied_def Let_def split_conv g' by blast
    then show "\<exists>ti. r = Some ti \<and> supplied g' (sp_op_map sp) k ti"
      unfolding supplied_def o g'(1) using p n l by (metis produced_at_def)
  qed
  moreover have "produced_at g' start" "tensor_children (g_tensors g' ! start) = tensor_children (g_tensors g ! start)"
    using b by (auto simp: built_def Let_def produced_at_def n l)
  moreover have "separate g' (sp_op_map sp) = separate g (sp_op_map sp)" by (simp add: separate_def o)
  moreover have "\<forall>oi \<in> set (sp_op_map sp). \<forall>ti \<in> outs g oi. ti < length (g_tensors g)"
    using b by (simp add: built_def closed_def Let_def)
  ultimately show ?thesis
    using b by (simp add: built_def Let_def g'(1) o oo p)
qed

text \<open>An operation on inputs that are all there, or come from the program.\<close>

definition frontier :: "nat \<Rightarrow> stage_program \<times> graph \<Rightarrow> nat list \<Rightarrow> bool" where
  "frontier start = (\<lambda>(sp, g) inputs. let ops = sp_op_map sp in
     (\<forall>ti \<in> set inputs. produced_at g ti \<or> ti \<in> outs_of g ops) \<and>
     (if ops = [] then count_list inputs start = 1 else start \<notin> set inputs \<and> (\<exists>ti \<in> set inputs. ti \<in> outs_of g ops)))"

definition all_produced :: "graph \<Rightarrow> nat option list \<Rightarrow> bool" where
  "all_produced g ws \<longleftrightarrow> (\<forall>w \<in> set ws. \<exists>ti. w = Some ti \<and> produced_at g ti)"

text \<open>The facts about the new operation \<open>oi\<close> that the invariant needs.\<close>

definition grafted :: "nat \<Rightarrow> nat list \<Rightarrow> nat option list \<Rightarrow> nat set \<Rightarrow> graph \<Rightarrow> graph \<Rightarrow> bool" where
  "grafted oi inputs ins new g g' \<longleftrightarrow> oi = length (g_ops g) \<and> length (g_ops g') = Suc oi \<and>
     (\<forall>oj < oi. g_ops g' ! oj = g_ops g ! oj) \<and> \<not> op_finish (g_ops g' ! oi) \<and> op_inputs (g_ops g' ! oi) = ins \<and>
     outs g' oi = new \<and> length (g_tensors g) \<le> length (g_tensors g') \<and> set inputs \<subseteq> {..<length (g_tensors g)} \<and>
     (\<forall>ti < length (g_tensors g). produced_at g' ti = produced_at g ti \<and>
        tensor_children (g_tensors g' ! ti) = tensor_children (g_tensors g ! ti) @ replicate (count_list inputs ti) oi) \<and>
     (\<forall>ti \<in> new. length (g_tensors g) \<le> ti \<and> ti < length (g_tensors g') \<and> \<not> produced_at g' ti \<and>
        tensor_children (g_tensors g' ! ti) = [])"

lemma adds_op_grafted:
  assumes "adds_op inputs ws os (sp, g) (sp', g')"
  shows "sp' = add_op (length (g_ops g)) sp \<and>
    (\<exists>wi. set wi \<subseteq> set ws \<and> grafted (length (g_ops g)) inputs (map Some inputs @ wi) (set os) g g')"
proof -
  from assms obtain oper ts new wi where sp': "sp' = add_op (length (g_ops g)) sp" and go: "g_ops g' = g_ops g @ [oper]"
    and oper: "\<not> op_finish oper" "op_outputs oper = os" "op_inputs oper = map Some inputs @ wi" "set wi \<subseteq> set ws"
    and gt: "g_tensors g' = ts @ new" and r: "reads (length (g_ops g)) inputs (g_tensors g) ts"
    and new: "\<forall>t \<in> set new. fresh t" and os: "set os \<subseteq> {length ts..<length ts + length new}"
    unfolding adds_op_def by auto
  have lt: "length ts = length (g_tensors g)" "set inputs \<subseteq> {..<length (g_tensors g)}" using r by (auto simp: reads_def)
  have "fresh (g_tensors g' ! ti)" if "ti \<in> set os" for ti using that os new by (auto simp: gt nth_append)
  then have "grafted (length (g_ops g)) inputs (map Some inputs @ wi) (set os) g g'"
    using lt r os by (auto simp: grafted_def go oper gt outs_def produced_at_def nth_append reads_def fresh_def)
  with sp' oper(4) show ?thesis by blast
qed

lemma grafted_outs:
  assumes "grafted oi inputs ins new g g'" "\<forall>oj \<in> set ops. oj < length (g_ops g)"
  shows "outs_of g' (ops @ [oi]) = outs_of g ops \<union> new" "\<And>oj. oj \<in> set ops \<Longrightarrow> outs g' oj = outs g oj"
proof -
  show *: "outs g' oj = outs g oj" if "oj \<in> set ops" for oj using that assms by (simp add: grafted_def outs_def)
  show "outs_of g' (ops @ [oi]) = outs_of g ops \<union> new"
    using * assms(1) by (auto simp: outs_of_def grafted_def)
qed

lemma grafted_closed:
  assumes G: "grafted oi inputs ins new g g'" and c: "closed (sp, g)" and ins: "Some ` set inputs \<subseteq> set ins"
  shows "closed (add_op oi sp, g')"
proof -
  let ?ops = "sp_op_map sp"
  have l: "\<forall>oj \<in> set ?ops. oj < length (g_ops g)" using c by (auto simp: closed_def)
  have "oj < length (g_ops g') \<and> (\<forall>ti \<in> outs g' oj. ti < length (g_tensors g') \<and>
      (\<forall>c \<in> set (tensor_children (g_tensors g' ! ti)). c \<in> insert oi (set ?ops) \<and> Some ti \<in> set (op_inputs (g_ops g' ! c))))"
    if "oj \<in> set ?ops" for oj
  proof -
    have "Some ti \<in> set (op_inputs (g_ops g' ! c))" "c \<in> insert oi (set ?ops)" "ti < length (g_tensors g')"
      if ti: "ti \<in> outs g oj" and ch: "c \<in> set (tensor_children (g_tensors g' ! ti))" for ti c
    proof -
      have "ti < length (g_tensors g)" and old: "c \<in> set (tensor_children (g_tensors g ! ti)) \<Longrightarrow>
          c \<in> set ?ops \<and> Some ti \<in> set (op_inputs (g_ops g ! c))"
        using c \<open>oj \<in> set ?ops\<close> ti by (auto simp: closed_def)
      moreover from this G ch have "c \<in> set (tensor_children (g_tensors g ! ti)) \<or> ti \<in> set inputs \<and> c = oi"
        by (auto simp: grafted_def count_list_0_iff split: if_splits)
      ultimately show "Some ti \<in> set (op_inputs (g_ops g' ! c))" "c \<in> insert oi (set ?ops)" "ti < length (g_tensors g')"
        using G l ins by (auto simp: grafted_def)
    qed
    moreover have "ti < length (g_tensors g')" if "ti \<in> outs g oj" for ti
      using that c \<open>oj \<in> set ?ops\<close> G by (force simp: closed_def grafted_def)
    ultimately show ?thesis
      using that l G grafted_outs(2) [OF G l that] by (force simp: grafted_def)
  qed
  moreover have "oi < length (g_ops g') \<and> (\<forall>ti \<in> outs g' oi. ti < length (g_tensors g') \<and>
      (\<forall>c \<in> set (tensor_children (g_tensors g' ! ti)). c \<in> insert oi (set ?ops) \<and> Some ti \<in> set (op_inputs (g_ops g' ! c))))"
    using G by (auto simp: grafted_def)
  ultimately show ?thesis by (auto simp: closed_def add_op_def)
qed

lemma grafted_supplied:
  assumes G: "grafted oi inputs ins new g g'" and l: "\<forall>oj \<in> set ops. oj < length (g_ops g)"
    and s: "supplied g ops k ti" and k: "k < length ops"
  shows "supplied g' (ops @ [oi]) k ti"
proof (cases "produced_at g ti")
  case True
  then have "produced_at g' ti" using G by (auto simp: grafted_def produced_at_def)
  then show ?thesis by (simp add: supplied_def)
next
  case False
  with s obtain j where j: "ti < length (g_tensors g)" "ops ! k \<in> set (tensor_children (g_tensors g ! ti))" "j < k"
    "\<not> op_finish (g_ops g ! (ops ! j))" "ti \<in> outs g (ops ! j)" by (auto simp: supplied_def)
  then have "ops ! j \<in> set ops" using k by auto
  with j k G l grafted_outs(2) [OF G l this] show ?thesis
    by (auto simp: supplied_def grafted_def nth_append intro!: exI[of _ j])
qed

lemma grafted_input_supplied:
  assumes G: "grafted oi inputs ins new g g'" and l: "\<forall>oj \<in> set ops. oj < length (g_ops g) \<and> \<not> op_finish (g_ops g ! oj)"
    and ti: "ti \<in> set inputs" "produced_at g ti \<or> ti \<in> outs_of g ops"
  shows "supplied g' (ops @ [oi]) (length ops) ti"
proof (cases "produced_at g ti")
  case True
  then have "produced_at g' ti" using G by (auto simp: grafted_def produced_at_def)
  then show ?thesis by (simp add: supplied_def)
next
  case False
  with ti obtain j where j: "j < length ops" "ti \<in> outs g (ops ! j)" by (auto simp: outs_of_def in_set_conv_nth)
  have n: "count_list inputs ti \<noteq> 0" using ti(1) by (simp add: count_list_0_iff)
  have tl: "ti < length (g_tensors g)" "ti < length (g_tensors g')" using G ti(1) by (auto simp: grafted_def)
  have "ops ! j \<in> set ops" using j by simp
  with j n tl G l grafted_outs(2) [OF G _ this] show ?thesis
    by (auto simp: supplied_def grafted_def nth_append intro!: exI[of _ j])
qed

lemma grafted_all_supplied:
  assumes G: "grafted oi inputs (map Some inputs @ wi) new g g'" and a: "all_supplied (sp, g)"
    and l: "\<forall>oj \<in> set (sp_op_map sp). oj < length (g_ops g) \<and> \<not> op_finish (g_ops g ! oj)"
    and i: "\<forall>ti \<in> set inputs. produced_at g ti \<or> ti \<in> outs_of g (sp_op_map sp)" and w: "all_produced g wi"
  shows "all_supplied (add_op oi sp, g')"
proof -
  let ?ops = "sp_op_map sp"
  have "\<exists>ti. r = Some ti \<and> supplied g' (?ops @ [oi]) k ti"
    if k: "k < length ?ops" and r: "r \<in> set (op_inputs (g_ops g' ! (?ops ! k)))" for k r
  proof -
    have "g_ops g' ! (?ops ! k) = g_ops g ! (?ops ! k)" using G l k by (simp add: grafted_def)
    with r a k obtain ti where "r = Some ti" "supplied g ?ops k ti" unfolding all_supplied_def split_conv by metis
    with grafted_supplied [OF G] l k show ?thesis by blast
  qed
  moreover have "\<exists>ti. r = Some ti \<and> supplied g' (?ops @ [oi]) (length ?ops) ti" if r: "r \<in> set (op_inputs (g_ops g' ! oi))" for r
  proof -
    from r G have "r \<in> Some ` set inputs \<or> r \<in> set wi" by (auto simp: grafted_def)
    then show ?thesis
    proof
      assume "r \<in> Some ` set inputs"
      then show ?thesis using grafted_input_supplied [OF G l] i by blast
    next
      assume "r \<in> set wi"
      with w obtain ti where "r = Some ti" "produced_at g ti" by (auto simp: all_produced_def)
      with G show ?thesis by (auto simp: supplied_def grafted_def produced_at_def)
    qed
  qed
  ultimately show ?thesis by (auto simp: all_supplied_def add_op_def nth_append less_Suc_eq)
qed

lemma built_adds_op:
  assumes b: "built start (sp, g)" and a: "adds_op inputs ws os (sp, g) (sp', g')"
    and f: "frontier start (sp, g) inputs" and w: "all_produced g ws"
  shows "built start (sp', g') \<and> kept g g' \<and> set os \<subseteq> outs_of g' (sp_op_map sp') \<and>
    outs_of g (sp_op_map sp) \<subseteq> outs_of g' (sp_op_map sp') \<and> sp_op_map sp' \<noteq> []"
proof -
  define oi ops where oi: "oi = length (g_ops g)" and ops: "ops = sp_op_map sp"
  from adds_op_grafted [OF a] obtain wi where sp': "sp' = add_op oi sp" and wi: "all_produced g wi"
    and G: "grafted oi inputs (map Some inputs @ wi) (set os) g g'" using w by (auto simp: oi all_produced_def)
  have om: "sp_op_map sp' = ops @ [oi]" by (simp add: sp' add_op_def ops)
  have l: "\<forall>oj \<in> set ops. oj < length (g_ops g) \<and> \<not> op_finish (g_ops g ! oj)"
    using b by (auto simp: built_def closed_def Let_def ops)
  have il: "ti < length (g_tensors g)" if "ti \<in> outs_of g ops" for ti
    using that b by (auto simp: built_def closed_def Let_def ops outs_of_def)
  note O = grafted_outs [OF G, of ops]
  have start: "produced_at g start" "start < length (g_tensors g)" using b by (auto simp: built_def Let_def produced_at_def)
  have sc: "tensor_children (g_tensors g' ! start) = take 1 (ops @ [oi])"
  proof (cases "ops = []")
    case True
    then show ?thesis using b f start G by (simp add: built_def frontier_def Let_def ops[symmetric] grafted_def)
  next
    case False
    then have "count_list inputs start = 0" using f by (simp add: frontier_def Let_def ops count_list_0_iff)
    with False show ?thesis using b start G by (simp add: built_def Let_def ops[symmetric] grafted_def neq_Nil_conv) force
  qed
  have pend: "\<not> op_finish (g_ops g' ! oj) \<and> (\<forall>ti \<in> outs g' oj. \<not> produced_at g' ti)" if "oj \<in> set (ops @ [oi])" for oj
  proof (cases "oj = oi")
    case False
    with that have oj: "oj \<in> set ops" by simp
    with b have "\<forall>ti \<in> outs g oj. ti < length (g_tensors g) \<and> \<not> produced_at g ti"
      using il by (auto simp: built_def Let_def ops outs_of_def)
    with oj l G O(2) show ?thesis by (auto simp: grafted_def)
  qed (use G in \<open>auto simp: grafted_def\<close>)
  have wait: "\<exists>ti \<in> outs_of g' (ops @ [oi]). Some ti \<in> set (op_inputs (g_ops g' ! ((ops @ [oi]) ! k)))"
    if k: "0 < k" "k < length (ops @ [oi])" for k
  proof (cases "k < length ops")
    case True
    then have "g_ops g' ! ((ops @ [oi]) ! k) = g_ops g ! (ops ! k)" using G l by (simp add: grafted_def nth_append)
    with k True b O(1) l show ?thesis by (auto simp: built_def Let_def ops)
  next
    case False
    then have "k = length ops" "ops \<noteq> []" using k by auto
    with f obtain ti where "ti \<in> set inputs" "ti \<in> outs_of g ops" by (auto simp: frontier_def Let_def ops)
    with \<open>k = length ops\<close> G O(1) l show ?thesis by (intro bexI[of _ ti]) (auto simp: grafted_def)
  qed
  have "separate g' (ops @ [oi])"
  proof -
    have s: "separate g ops" using b by (simp add: built_def Let_def ops)
    have n: "outs g' oi = set os" "\<forall>ti \<in> set os. length (g_tensors g) \<le> ti"
      using G unfolding grafted_def by blast+
    have o: "outs g' oj = outs g oj" "outs g oj \<inter> set os = {}" if "oj \<in> set ops" for oj
    proof -
      show "outs g' oj = outs g oj" using O(2) l that by blast
      have "ti < length (g_tensors g)" if "ti \<in> outs g oj" for ti using il \<open>oj \<in> set ops\<close> that by (auto simp: outs_of_def)
      with n(2) show "outs g oj \<inter> set os = {}" by fastforce
    qed
    show ?thesis using s n(1) o by (auto simp: separate_def disjoint_iff)
  qed
  moreover have "closed (sp', g')"
    unfolding sp' by (rule grafted_closed [OF G]) (use b in \<open>auto simp: built_def Let_def\<close>)
  moreover have "all_supplied (sp', g')"
    unfolding sp' by (rule grafted_all_supplied [OF G _ _ _ wi]) (use b f l in \<open>auto simp: built_def Let_def frontier_def ops\<close>)
  moreover have "produced_at g' start" using start G by (simp add: grafted_def)
  moreover have "distinct (ops @ [oi])" using b l by (auto simp: built_def Let_def ops oi)
  ultimately have "built start (sp', g')"
    using b sc pend wait by (auto simp: built_def Let_def om) (simp add: sp' add_op_def)
  moreover have "kept g g'" using G by (auto simp: kept_def grafted_def produced_at_def)
  ultimately show ?thesis using O(1) l by (auto simp: om ops)
qed

subsection \<open>The operations of a program\<close>

text \<open>
  What the program builder needs of an operation: it adds itself, reads its inputs and makes new
  tensors.  The operations that feed another one also have an output.
\<close>

locale graph_op =
  fixes make :: "nat list \<Rightarrow> stage_program \<times> graph \<Rightarrow> (nat list \<times> stage_program \<times> graph) run"
    and ws :: "nat option list"
  assumes adds: "make inputs s = Some (Inr (os, s')) \<Longrightarrow> adds_op inputs ws os s s'"
begin

lemma extend:
  assumes "make inputs s = Some (Inr (os, s'))" "built start s" "frontier start s inputs" "all_produced (snd s) ws"
  shows "built start s' \<and> kept (snd s) (snd s') \<and> set os \<subseteq> outs_of (snd s') (sp_op_map (fst s')) \<and>
    outs_of (snd s) (sp_op_map (fst s)) \<subseteq> outs_of (snd s') (sp_op_map (fst s')) \<and> sp_op_map (fst s') \<noteq> []"
proof -
  obtain sp g sp' g' where s: "s = (sp, g)" "s' = (sp', g')" by (cases s; cases s')
  show ?thesis using built_adds_op [of start sp g inputs ws os sp' g'] adds [OF assms(1)] assms(2-) by (simp add: s)
qed

end

locale feeding_op = graph_op +
  assumes feeds: "make inputs s = Some (Inr (os, s')) \<Longrightarrow> os \<noteq> []"
begin

text \<open>
  The form in which the blocks use it: the inputs are outputs of the program, perhaps with tensors
  that are there anyway.
\<close>

lemma chain:
  assumes "make inputs s = Some (Inr (os, s'))" "built start s" "sp_op_map (fst s) \<noteq> []"
    and "\<forall>ti \<in> set inputs. ti \<in> outs_of (snd s) (sp_op_map (fst s)) \<or> produced_at (snd s) ti \<and> ti \<noteq> start"
    and "\<exists>ti \<in> set inputs. ti \<in> outs_of (snd s) (sp_op_map (fst s))" "all_produced (snd s) ws"
  shows "built start s' \<and> sp_op_map (fst s') \<noteq> [] \<and> kept (snd s) (snd s') \<and> os \<noteq> [] \<and>
    set os \<subseteq> outs_of (snd s') (sp_op_map (fst s')) \<and>
    outs_of (snd s) (sp_op_map (fst s)) \<subseteq> outs_of (snd s') (sp_op_map (fst s'))"
proof -
  obtain sp g where s: "s = (sp, g)" by (cases s)
  have "start \<notin> outs_of g (sp_op_map sp)"
    using assms(2) by (auto simp: s built_def Let_def outs_of_def)
  with assms(3-5) have "frontier start s inputs" by (auto simp: s frontier_def Let_def)
  with extend [OF assms(1,2) this assms(6)] feeds [OF assms(1)] show ?thesis by blast
qed

end

lemma with_op_Inr: "with_op new f inputs (sp, g) = Some (Inr (os, s')) \<longleftrightarrow>
    (\<exists>oi g1 g2. new g = Inr (oi, g1) \<and> f oi inputs g1 = Some (Inr (os, g2)) \<and> s' = (add_op oi sp, g2))"
  by (auto simp: with_op_def split: prod.splits)

lemma op_made_inputs: "op_made ins oi g g' \<Longrightarrow> op_inputs (g_ops g' ! oi) = ins"
  by (auto simp: op_made_def)

lemma MatMul_new_made: "MatMul_new name weights g = Inr (oi, g') \<Longrightarrow>
    \<exists>ins. op_made ins oi g g' \<and> (weights = [] \<and> ins = [None, None] \<or> weights \<noteq> [] \<and> ins = None # weights)"
  by (auto simp: MatMul_new_def dest: Operation_new_made split: if_splits)

lemma MatMul_inputs: "MatMul_get_outputs e oi inputs g = Some (Inr r) \<Longrightarrow>
   length inputs = 2 \<and> length (op_inputs (g_ops g ! oi)) = 2 \<or> length inputs = 1 \<and> length (op_inputs (g_ops g ! oi)) = 3"
  by (auto simp: MatMul_get_outputs_def op_simps dest!: set_as_parent_reads)

lemma outputs_len:
  "Add_get_outputs e oi inputs g = Some (Inr (os, g')) \<Longrightarrow> os \<noteq> []"
  "Gelu_get_outputs e oi inputs g = Some (Inr (os, g')) \<Longrightarrow> os \<noteq> []"
  "LayerNorm_get_outputs e oi wd inputs g = Some (Inr (os, g')) \<Longrightarrow> os \<noteq> []"
  "MatMul_get_outputs e oi inputs g = Some (Inr (os, g')) \<Longrightarrow> os \<noteq> []"
  by (auto simp: Add_get_outputs_def Gelu_get_outputs_def LayerNorm_get_outputs_def MatMul_get_outputs_def op_simps Let_def
      split: if_splits)

interpretation mm: feeding_op "mat_mul e name weights" weights
proof unfold_locales
  fix inputs s os s' assume m: "mat_mul e name weights inputs s = Some (Inr (os, s'))"
  obtain sp g where s: "s = (sp, g)" by (cases s)
  from m obtain oi g1 g2 where n: "MatMul_new name weights g = Inr (oi, g1)"
    and o: "MatMul_get_outputs e oi inputs g1 = Some (Inr (os, g2))" and s': "s' = (add_op oi sp, g2)"
    by (auto simp: s mat_mul_def with_op_Inr)
  from MatMul_new_made [OF n] obtain ins where made: "op_made ins oi g g1"
    and ins: "weights = [] \<and> ins = [None, None] \<or> weights \<noteq> [] \<and> ins = None # weights" by blast
  have "set (drop (length inputs) ins) \<subseteq> set weights"
    using MatMul_inputs [OF o] op_made_inputs [OF made] ins by (auto dest: in_set_dropD simp: length_Suc_conv)
  with adds_opI [OF made MatMul_outputs_made [OF o]] show "adds_op inputs weights os s s'"
    by (simp add: s s' op_made_inputs [OF made])
  show "os \<noteq> []" using o by (rule outputs_len)
qed

interpretation ad: feeding_op "add_residual e name" "[]"
proof unfold_locales
  fix inputs s os s' assume m: "add_residual e name inputs s = Some (Inr (os, s'))"
  obtain sp g where s: "s = (sp, g)" by (cases s)
  from m obtain oi g1 g2 where n: "Add_new name g = (oi, g1)"
    and o: "Add_get_outputs e oi inputs g1 = Some (Inr (os, g2))" and s': "s' = (add_op oi sp, g2)"
    by (auto simp: s add_residual_def with_op_Inr)
  show "adds_op inputs [] os s s'"
    using adds_opI [OF Operation_new_made [OF n [unfolded Add_new_def]] Add_outputs_made [OF o]] by (simp add: s s')
  show "os \<noteq> []" using o by (rule outputs_len)
qed

interpretation ge: feeding_op "gelu_op e name" "[]"
proof unfold_locales
  fix inputs s os s' assume m: "gelu_op e name inputs s = Some (Inr (os, s'))"
  obtain sp g where s: "s = (sp, g)" by (cases s)
  from m obtain oi g1 g2 where n: "Gelu_new name g = (oi, g1)"
    and o: "Gelu_get_outputs e oi inputs g1 = Some (Inr (os, g2))" and s': "s' = (add_op oi sp, g2)"
    by (auto simp: s gelu_op_def with_op_Inr)
  show "adds_op inputs [] os s s'"
    using adds_opI [OF Operation_new_made [OF n [unfolded Gelu_new_def]] Gelu_outputs_made [OF o]] by (simp add: s s')
  show "os \<noteq> []" using o by (rule outputs_len)
qed

lemma LayerNorm_new_made:
  assumes "LayerNorm_new name weights g = Inr (oi, wd, g')"
  shows "op_made (None # weights) oi g g'"
proof -
  obtain oi' g1 where n: "Operation_new name [] g = (oi', g1)" by (cases "Operation_new name [] g")
  from Operation_new_made [OF n] have m: "op_made [] oi' g g1" .
  have "oi = oi'" and "g' = g1\<lparr>g_ops := (g_ops g1)[oi := (g_ops g1 ! oi)\<lparr>op_inputs := None # weights\<rparr>]\<rparr>"
    using assms n by (auto simp: LayerNorm_new_def op_simps)
  with m show ?thesis by (auto simp: op_made_def)
qed

interpretation ln: feeding_op "layer_norm e name weights" weights
proof unfold_locales
  fix inputs s os s' assume m: "layer_norm e name weights inputs s = Some (Inr (os, s'))"
  obtain sp g where s: "s = (sp, g)" by (cases s)
  from m obtain oi wd g1 g2 where n: "LayerNorm_new name weights g = Inr (oi, wd, g1)"
    and o: "LayerNorm_get_outputs e oi wd inputs g1 = Some (Inr (os, g2))" and s': "s' = (add_op oi sp, g2)"
    by (auto simp: s layer_norm_def)
  note made = LayerNorm_new_made [OF n]
  have "length inputs = 1" using o by (auto simp: LayerNorm_get_outputs_def Let_def)
  then have "drop (length inputs) (op_inputs (g_ops g1 ! oi)) = weights" by (simp add: op_made_inputs [OF made])
  with adds_opI [OF made LayerNorm_outputs_made [OF o]] show "adds_op inputs weights os s s'" by (simp add: s s')
  show "os \<noteq> []" using o by (rule outputs_len)
qed

lemma foldE_count:
  assumes "foldE f s xs = Inr s'" "\<And>s x s'. f s x = Inr s' \<Longrightarrow> n s' = Suc (n s)"
  shows "n s' = n s + length xs"
  using assms(1)
proof (induction xs arbitrary: s)
  case (Cons x xs)
  then obtain t where "f s x = Inr t" "foldE f t xs = Inr s'" by auto
  with Cons.IH [of t] assms(2) show ?case by force
qed simp

lemma cast_all_len: "cast_all c tis g = Inr ts \<Longrightarrow> length ts = length tis"
  unfolding cast_all_def by (drule foldE_count [where n = length]) auto

lemma LogitSoftmax_len:
  assumes "NeuPIMSLogitSoftmax_get_outputs e oi inputs g = Inr (os, g')"
  shows "os \<noteq> []"
proof -
  from assms obtain g1 qs ks ots g2 name nh
    where q: "cast_all as_npu (take (length inputs div 2) inputs) g1 = Inr qs" "qs \<noteq> []"
      and k: "cast_all as_pim (drop (length inputs div 2) inputs) g1 = Inr ks"
      and f: "foldE (ls_output e name nh) (([], []), g1) (zip qs ks) = Inr ((os, ots), g2)"
    by (auto simp: NeuPIMSLogitSoftmax_get_outputs_def Let_def op_simps)
  have "n1 = length (zip qs ks)" if "n1 = length os" for n1
    using foldE_count [OF f, where n = "\<lambda>x. length (fst (fst x))"] that by (fastforce simp: ls_output_def new_tensor_def)
  moreover have "length inputs div 2 = length qs" "length ks \<ge> length qs"
    using cast_all_len [OF q(1)] cast_all_len [OF k] by simp_all
  ultimately show ?thesis using q(2) by (cases qs; cases ks) force+
qed

interpretation ls: feeding_op "logit_softmax e name" "[]"
proof unfold_locales
  fix inputs s os s' assume m: "logit_softmax e name inputs s = Some (Inr (os, s'))"
  obtain sp g where s: "s = (sp, g)" by (cases s)
  from m obtain oi g1 g2 where n: "NeuPIMSLogitSoftmax_new name g = (oi, g1)"
    and o: "NeuPIMSLogitSoftmax_get_outputs e oi inputs g1 = Inr (os, g2)" and s': "s' = (add_op oi sp, g2)"
    by (auto simp: s logit_softmax_def with_op_Inr)
  show "adds_op inputs [] os s s'"
    using adds_opI [OF Operation_new_made [OF n [unfolded NeuPIMSLogitSoftmax_new_def]] LogitSoftmax_outputs_made [OF o]]
    by (simp add: s s')
  show "os \<noteq> []" by (rule LogitSoftmax_len [OF o])
qed

interpretation att: graph_op "attend e name" "[]"
proof unfold_locales
  fix inputs s os s' assume m: "attend e name inputs s = Some (Inr (os, s'))"
  obtain sp g where s: "s = (sp, g)" by (cases s)
  from m obtain oi g1 g2 where n: "NeuPIMSAttend_new name g = (oi, g1)"
    and o: "NeuPIMSAttend_get_outputs e oi inputs g1 = Inr (os, g2)" and s': "s' = (add_op oi sp, g2)"
    by (auto simp: s attend_def with_op_Inr)
  show "adds_op inputs [] os s s'"
    using adds_opI [OF Operation_new_made [OF n [unfolded NeuPIMSAttend_new_def]] Attend_outputs_made [OF o]]
    by (simp add: s s')
qed

subsection \<open>Programs in execution\<close>

definition ready :: "graph \<Rightarrow> nat \<Rightarrow> bool" where
  "ready g oi \<longleftrightarrow> (\<forall>r \<in> set (op_inputs (g_ops g ! oi)). \<exists>ti. r = Some ti \<and> produced_at g ti)"

text \<open>
  The invariant: the program is closed, what an operation waits for comes from an earlier operation
  that is not finished, and the list of executable operations holds exactly those that are ready.
\<close>

definition prog_inv :: "stage_program \<times> graph \<Rightarrow> bool" where
  "prog_inv = (\<lambda>(sp, g). let ops = sp_op_map sp in
     distinct (map (\<lambda>oi. op_id (g_ops g ! oi)) ops) \<and> separate g ops \<and> closed (sp, g) \<and> all_supplied (sp, g) \<and>
     (\<forall>oi \<in> set ops. if op_finish (g_ops g ! oi) then ready g oi else \<forall>ti \<in> outs g oi. \<not> produced_at g ti) \<and>
     distinct (sp_executable sp) \<and> set (sp_executable sp) = {oi \<in> set ops. \<not> op_finish (g_ops g ! oi) \<and> ready g oi})"

lemma check_executable_ready:
  assumes "oi < length (g_ops g)"
    and "\<forall>r \<in> set (op_inputs (g_ops g ! oi)). \<exists>ti. r = Some ti \<and> ti < length (g_tensors g)"
  shows "check_executable oi g = Inr (ready g oi)"
proof -
  have "foldE (\<lambda>res r. case r of None \<Rightarrow> Inl Undefined
       | Some ti \<Rightarrow> bindE (get_tensor ti g) (\<lambda>t. Inr (res \<and> tensor_produced t))) b rs =
     Inr (b \<and> (\<forall>r \<in> set rs. \<exists>ti. r = Some ti \<and> produced_at g ti))"
    if "\<forall>r \<in> set rs. \<exists>ti. r = Some ti \<and> ti < length (g_tensors g)" for rs b
    using that by (induction rs arbitrary: b) (auto simp: get_tensor_def produced_at_def)
  with assms show ?thesis by (simp add: check_executable_def get_op_def ready_def)
qed

lemma supplied_bound: "supplied g ops k ti \<Longrightarrow> ti < length (g_tensors g)"
  by (auto simp: supplied_def produced_at_def)

lemma check_executable_member:
  assumes "closed (sp, g)" "all_supplied (sp, g)" "oi \<in> set (sp_op_map sp)"
  shows "check_executable oi g = Inr (ready g oi)"
proof (rule check_executable_ready)
  obtain k where "k < length (sp_op_map sp)" "oi = sp_op_map sp ! k" using assms(3) by (auto simp: in_set_conv_nth)
  with assms(2) show "\<forall>r \<in> set (op_inputs (g_ops g ! oi)). \<exists>ti. r = Some ti \<and> ti < length (g_tensors g)"
    unfolding all_supplied_def split_conv by (metis supplied_bound)
  show "oi < length (g_ops g)" using assms(1,3) by (auto simp: closed_def)
qed

text \<open>What \<open>find_executable_node\<close> makes of a built program.\<close>

lemma built_start:
  assumes b: "built start (sp, g)" and n: "sp_op_map sp \<noteq> []" and d: "distinct (map (\<lambda>oi. op_id (g_ops g ! oi)) (sp_op_map sp))"
    and f: "find_executable_node start (sp, g) = Inr s"
  shows "prog_inv s \<and> sp_op_map (fst s) = sp_op_map sp \<and> snd s = g \<and> (\<forall>oi \<in> set (sp_op_map sp). \<not> op_finish (g_ops g ! oi))"
proof -
  let ?ops = "sp_op_map sp"
  have i: "closed (sp, g)" "all_supplied (sp, g)" "separate g ?ops" "sp_executable sp = []" "distinct ?ops"
    "\<forall>oi \<in> set ?ops. \<not> op_finish (g_ops g ! oi) \<and> (\<forall>ti \<in> outs g oi. \<not> produced_at g ti)"
    "start < length (g_tensors g)"
    using b by (auto simp: built_def Let_def produced_at_def)
  obtain o0 rest where ops: "?ops = o0 # rest" using n by (cases "sp_op_map sp") auto
  have r0: "ready g o0"
    unfolding ready_def
  proof
    fix r assume "r \<in> set (op_inputs (g_ops g ! o0))"
    then obtain ti where "r = Some ti" "supplied g ?ops 0 ti"
      using i(2) ops unfolding all_supplied_def split_conv by (metis length_greater_0_conv list.distinct(1) nth_Cons_0)
    then show "\<exists>ti. r = Some ti \<and> produced_at g ti" by (auto simp: supplied_def)
  qed
  have nr: "\<not> ready g oi" if mem: "oi \<in> set rest" for oi
  proof -
    obtain k where k: "k < length rest" "oi = rest ! k" using mem unfolding in_set_conv_nth by blast
    have "\<forall>k. 0 < k \<and> k < length ?ops \<longrightarrow> (\<exists>ti \<in> outs_of g ?ops. Some ti \<in> set (op_inputs (g_ops g ! (?ops ! k))))"
      using b by (simp add: built_def Let_def)
    from this [rule_format, of "Suc k"] k obtain ti where ti: "ti \<in> outs_of g ?ops" "Some ti \<in> set (op_inputs (g_ops g ! oi))"
      by (auto simp: ops)
    then have "\<not> produced_at g ti" using i(6) by (auto simp: outs_of_def)
    with ti(2) show ?thesis by (auto simp: ready_def)
  qed
  have "tensor_children (g_tensors g ! start) = [o0]" using b ops by (simp add: built_def Let_def)
  moreover have "check_executable o0 g = Inr (ready g o0)" using check_executable_member [OF i(1,2)] ops by simp
  ultimately have s: "s = (sp\<lparr>sp_executable := [o0]\<rparr>, g)" using f i(4,7) r0
    by (auto simp: find_executable_node_def get_tensor_def)
  have "{oi \<in> set ?ops. \<not> op_finish (g_ops g ! oi) \<and> ready g oi} = {o0}" using ops r0 nr i(6) by auto
  moreover have "closed (sp\<lparr>sp_executable := [o0]\<rparr>, g)" "all_supplied (sp\<lparr>sp_executable := [o0]\<rparr>, g)"
    using i(1,2) by (simp_all add: closed_def all_supplied_def)
  ultimately show ?thesis using i d by (simp add: s prog_inv_def Let_def)
qed

text \<open>The end of an operation: its outputs are there, and it is finished.\<close>

lemma set_outputs_produced:
  assumes "set tis \<subseteq> {..<length (g_tensors g)}"
  shows "\<exists>ts. foldE (\<lambda>g ti. upd_tensor ti tensor_set_produced g) g tis = Inr (g\<lparr>g_tensors := ts\<rparr>) \<and>
    length ts = length (g_tensors g) \<and> (\<forall>ti < length ts. tensor_children (ts ! ti) = tensor_children (g_tensors g ! ti) \<and>
      tensor_produced (ts ! ti) = (tensor_produced (g_tensors g ! ti) \<or> ti \<in> set tis))"
  using assms
proof (induction tis arbitrary: g)
  case Nil
  then show ?case by (intro exI[of _ "g_tensors g"]) simp
next
  case (Cons ti tis)
  let ?g = "g\<lparr>g_tensors := (g_tensors g)[ti := tensor_set_produced (g_tensors g ! ti)]\<rparr>"
  from Cons.IH [of ?g] Cons.prems obtain ts where ts: "foldE (\<lambda>g ti. upd_tensor ti tensor_set_produced g) ?g tis = Inr (?g\<lparr>g_tensors := ts\<rparr>)"
    "length ts = length (g_tensors g)" "\<forall>tj < length ts. tensor_children (ts ! tj) = tensor_children (g_tensors ?g ! tj) \<and>
      tensor_produced (ts ! tj) = (tensor_produced (g_tensors ?g ! tj) \<or> tj \<in> set tis)" by auto
  have "upd_tensor ti tensor_set_produced g = Inr ?g" using Cons.prems by (simp add: upd_tensor_def get_tensor_def)
  with ts Cons.prems show ?case by (intro exI[of _ ts]) (auto simp: nth_list_update)
qed

definition finished :: "nat \<Rightarrow> graph \<Rightarrow> graph \<Rightarrow> bool" where
  "finished oi g g' \<longleftrightarrow> length (g_ops g') = length (g_ops g) \<and> length (g_tensors g') = length (g_tensors g) \<and>
     (\<forall>oj. op_inputs (g_ops g' ! oj) = op_inputs (g_ops g ! oj) \<and> outs g' oj = outs g oj \<and>
        op_id (g_ops g' ! oj) = op_id (g_ops g ! oj) \<and> op_finish (g_ops g' ! oj) = (op_finish (g_ops g ! oj) \<or> oj = oi)) \<and>
     op_outputs (g_ops g' ! oi) = op_outputs (g_ops g ! oi) \<and>
     (\<forall>ti < length (g_tensors g). tensor_children (g_tensors g' ! ti) = tensor_children (g_tensors g ! ti)) \<and>
     (\<forall>ti. produced_at g' ti = (produced_at g ti \<or> ti \<in> outs g oi))"

lemma set_finish_finished:
  assumes oi: "oi < length (g_ops g)" and o: "outs g oi \<subseteq> {..<length (g_tensors g)}"
  shows "\<exists>g'. set_finish oi g = Inr g' \<and> finished oi g g'"
proof -
  from set_outputs_produced [OF o [unfolded outs_def]] obtain ts where
    f: "foldE (\<lambda>g ti. upd_tensor ti tensor_set_produced g) g (op_outputs (g_ops g ! oi)) = Inr (g\<lparr>g_tensors := ts\<rparr>)"
    and ts: "length ts = length (g_tensors g)" "\<forall>ti < length ts. tensor_children (ts ! ti) = tensor_children (g_tensors g ! ti) \<and>
      tensor_produced (ts ! ti) = (tensor_produced (g_tensors g ! ti) \<or> ti \<in> outs g oi)" unfolding outs_def by blast
  let ?g = "g\<lparr>g_tensors := ts, g_ops := (g_ops g)[oi := (g_ops g ! oi)\<lparr>op_finish := True\<rparr>]\<rparr>"
  have n: "(g_ops g)[oi := (g_ops g ! oi)\<lparr>op_finish := True\<rparr>] ! oj = (if oj = oi then (g_ops g ! oi)\<lparr>op_finish := True\<rparr> else g_ops g ! oj)"
    for oj using oi by simp
  have "set_finish oi g = Inr ?g" using oi f by (simp add: set_finish_def get_op_def upd_op_def)
  moreover have "finished oi g ?g" unfolding finished_def using ts o by (auto simp: n outs_def produced_at_def subset_iff)
  ultimately show ?thesis by blast
qed

lemma op_children:
  assumes "oi < length (g_ops g)" "outs g oi \<subseteq> {..<length (g_tensors g)}"
  shows "\<exists>cs. op_child_nodes oi g = Inr cs \<and> set cs = (\<Union>ti \<in> outs g oi. set (tensor_children (g_tensors g ! ti)))"
proof -
  have "\<exists>cs. foldE (\<lambda>res ti. bindE (get_tensor ti g) (\<lambda>t. Inr (res @ tensor_children t))) acc tis = Inr cs \<and>
      set cs = set acc \<union> (\<Union>ti \<in> set tis. set (tensor_children (g_tensors g ! ti)))"
    if "set tis \<subseteq> {..<length (g_tensors g)}" for tis acc
    using that by (induction tis arbitrary: acc) (fastforce simp: get_tensor_def)+
  from this [of "op_outputs (g_ops g ! oi)" "[]"] assms show ?thesis
    by (simp add: op_child_nodes_def get_op_def outs_def)
qed

lemma finished_ready:
  assumes F: "finished oi g g'"
  shows "ready g oj \<Longrightarrow> ready g' oj"
    and "ready g' oj \<Longrightarrow> \<forall>ti. Some ti \<in> set (op_inputs (g_ops g ! oj)) \<longrightarrow> ti \<notin> outs g oi \<Longrightarrow> ready g oj"
  using F by (auto simp: ready_def finished_def)

lemma finished_all_supplied:
  assumes F: "finished oi g g'" and a: "all_supplied (sp, g)"
  shows "all_supplied (sp\<lparr>sp_executable := ex\<rparr>, g')"
proof -
  have s: "supplied g' ops k ti" if "supplied g ops k ti" for ops k ti
  proof (cases "produced_at g' ti")
    case True then show ?thesis by (simp add: supplied_def)
  next
    case False
    with F have "\<not> produced_at g ti" "ti \<notin> outs g oi" by (auto simp: finished_def)
    with that F show ?thesis by (auto simp: supplied_def finished_def)
  qed
  have i: "op_inputs (g_ops g' ! oj) = op_inputs (g_ops g ! oj)" for oj using F by (simp add: finished_def)
  show ?thesis using a s by (fastforce simp: all_supplied_def i)
qed

lemma finished_closed:
  assumes F: "finished oi g g'" and c: "closed (sp, g)"
  shows "closed (sp\<lparr>sp_executable := ex\<rparr>, g')"
  using assms by (simp add: closed_def finished_def)

lemma notify_all:
  assumes c: "closed (sp, g)" and a: "all_supplied (sp, g)" and d: "distinct (map (\<lambda>oi. op_id (g_ops g ! oi)) (sp_op_map sp))"
    and cs: "set cs \<subseteq> set (sp_op_map sp)" and e: "set ex \<subseteq> set (sp_op_map sp)" "distinct ex"
  shows "\<exists>ex'. foldE notify_child (sp\<lparr>sp_executable := ex\<rparr>, g) cs = Inr (sp\<lparr>sp_executable := ex'\<rparr>, g) \<and>
    distinct ex' \<and> set ex' = set ex \<union> {c \<in> set cs. ready g c}"
  using cs e
proof (induction cs arbitrary: ex)
  case (Cons oi cs)
  let ?sp = "sp\<lparr>sp_executable := ex\<rparr>"
  have l: "\<forall>oj \<in> set (sp_op_map sp). oj < length (g_ops g)" using c by (auto simp: closed_def)
  have inj: "op_id (g_ops g ! oj) = op_id (g_ops g ! oi) \<longleftrightarrow> oj = oi" if "oj \<in> set ex" for oj
    using d Cons.prems that by (auto simp: distinct_map dest: inj_onD)
  have e_ops: "set ex \<subseteq> set (sp_op_map sp)" using Cons.prems by simp
  have "foldE (\<lambda>b oj. if b then Inr True else bindE (get_op oj g) (\<lambda>oper. Inr (op_id oper = op_id (g_ops g ! oi)))) b xs =
      Inr (b \<or> oi \<in> set xs)" if "set xs \<subseteq> set ex" for b xs
    using that
  proof (induction xs arbitrary: b)
    case (Cons x xs)
    then have "x < length (g_ops g)" "op_id (g_ops g ! x) = op_id (g_ops g ! oi) \<longleftrightarrow> oi = x"
      using l inj e_ops by auto
    with Cons show ?case by (auto simp: get_op_def)
  qed simp
  then have there: "check_exist_in_executable (op_id (g_ops g ! oi)) (?sp, g) = Inr (oi \<in> set ex)"
    by (simp add: check_exist_in_executable_def)
  have r: "check_executable oi g = Inr (ready g oi)" using check_executable_member [OF c a] Cons.prems(1) by simp
  let ?ex = "if ready g oi \<and> oi \<notin> set ex then ex @ [oi] else ex"
  have "notify_child (?sp, g) oi = Inr (sp\<lparr>sp_executable := ?ex\<rparr>, g)"
    using r there l Cons.prems(1) by (auto simp: notify_child_def get_op_def)
  moreover obtain ex' where "foldE notify_child (sp\<lparr>sp_executable := ?ex\<rparr>, g) cs = Inr (sp\<lparr>sp_executable := ex'\<rparr>, g)"
    "distinct ex'" "set ex' = set ?ex \<union> {c \<in> set cs. ready g c}"
  proof -
    have "set cs \<subseteq> set (sp_op_map sp)" "set ?ex \<subseteq> set (sp_op_map sp)" "distinct ?ex" using Cons.prems by auto
    from Cons.IH [OF this] that show ?thesis by blast
  qed
  ultimately show ?case by (intro exI[of _ ex']) auto
next
  case Nil
  then show ?case by (intro exI[of _ ex]) simp
qed

lemma erase_first_distinct:
  "\<lbrakk>distinct xs; \<And>x. x \<in> set xs \<Longrightarrow> P x \<longleftrightarrow> x = y\<rbrakk> \<Longrightarrow> distinct (erase_first P xs) \<and> set (erase_first P xs) = set xs - {y}"
  by (induction xs) auto

lemma op_of_member:
  assumes "closed (sp, g)" "distinct (map (\<lambda>oi. op_id (g_ops g ! oi)) (sp_op_map sp))" "oi \<in> set (sp_op_map sp)"
  shows "op_of (op_id (g_ops g ! oi)) (sp, g) = Inr oi"
proof -
  have "find (\<lambda>oj. oj < length (g_ops g) \<and> op_id (g_ops g ! oj) = op_id (g_ops g ! oi)) xs = Some oi"
    if "set xs \<subseteq> set (sp_op_map sp)" "oi \<in> set xs" for xs
    using that assms by (induction xs) (auto simp: closed_def distinct_map dest: inj_onD)
  with assms(3) show ?thesis by (simp add: op_of_def)
qed

text \<open>The end of an executable operation keeps the invariant.\<close>

lemma finish_operation_inv:
  assumes I: "prog_inv (sp, g)" and oi: "oi \<in> set (sp_executable sp)"
  shows "\<exists>ex g'. finish_operation (op_id (g_ops g ! oi)) (sp, g) = Inr (sp\<lparr>sp_executable := ex\<rparr>, g') \<and>
    prog_inv (sp\<lparr>sp_executable := ex\<rparr>, g') \<and> finished oi g g'"
proof -
  let ?ops = "sp_op_map sp" and ?i = "op_id (g_ops g ! oi)"
  have d: "distinct (map (\<lambda>oi. op_id (g_ops g ! oi)) ?ops)" and sep: "separate g ?ops" and c: "closed (sp, g)"
    and a: "all_supplied (sp, g)"
    and st: "\<forall>oi \<in> set ?ops. if op_finish (g_ops g ! oi) then ready g oi else \<forall>ti \<in> outs g oi. \<not> produced_at g ti"
    and ex: "distinct (sp_executable sp)" "set (sp_executable sp) = {oi \<in> set ?ops. \<not> op_finish (g_ops g ! oi) \<and> ready g oi}"
    using I by (simp_all add: prog_inv_def Let_def)
  have m: "oi \<in> set ?ops" "\<not> op_finish (g_ops g ! oi)" "ready g oi" using oi ex(2) by auto
  have l: "oi < length (g_ops g)" "outs g oi \<subseteq> {..<length (g_tensors g)}" using c m(1) by (auto simp: closed_def)
  from set_finish_finished [OF l] obtain g' where sf: "set_finish oi g = Inr g'" and F: "finished oi g g'" by blast
  note c' = finished_closed [OF F c] and a' = finished_all_supplied [OF F a]
  have ids: "map (\<lambda>oi. op_id (g_ops g' ! oi)) ?ops = map (\<lambda>oi. op_id (g_ops g ! oi)) ?ops" using F by (simp add: finished_def)
  let ?ex = "erase_first (\<lambda>oj. op_id (g_ops g' ! oj) = ?i) (sp_executable sp)"
  have e: "distinct ?ex \<and> set ?ex = set (sp_executable sp) - {oi}"
    by (rule erase_first_distinct [OF ex(1)]) (use F d m(1) ex(2) in \<open>auto simp: finished_def distinct_map dest: inj_onD\<close>)
  have l': "oi < length (g_ops g')" "outs g' oi \<subseteq> {..<length (g_tensors g')}" using l F by (auto simp: finished_def)
  from op_children [OF l'] obtain cs where cs: "op_child_nodes oi g' = Inr cs"
    "set cs = (\<Union>ti \<in> outs g' oi. set (tensor_children (g_tensors g' ! ti)))" by blast
  have "(\<Union>ti \<in> outs g' oi. set (tensor_children (g_tensors g' ! ti))) = (\<Union>ti \<in> outs g oi. set (tensor_children (g_tensors g ! ti)))"
    using F l(2) by (intro SUP_cong) (auto simp: finished_def)
  note cs = cs [unfolded this]
  have cs_ops: "set cs \<subseteq> set ?ops" and cs_in: "\<forall>x \<in> set cs. \<exists>ti \<in> outs g oi. Some ti \<in> set (op_inputs (g_ops g ! x))"
    using c m(1) by (fastforce simp: cs(2) closed_def)+
  obtain ex' where n: "foldE notify_child (sp\<lparr>sp_executable := ?ex\<rparr>, g') cs = Inr (sp\<lparr>sp_executable := ex'\<rparr>, g')"
    "distinct ex'" "set ex' = set ?ex \<union> {c \<in> set cs. ready g' c}"
    using notify_all [of sp g' cs ?ex] c' [of "sp_executable sp"] a' [of "sp_executable sp"] d ids cs_ops e ex by auto
  have fin: "finish_operation ?i (sp, g) = Inr (sp\<lparr>sp_executable := ex'\<rparr>, g')"
    using op_of_member [OF c d m(1)] sf cs(1) n(1) by (simp add: finish_operation_def Let_def)
  have "{oj \<in> set ?ops. \<not> op_finish (g_ops g' ! oj) \<and> ready g' oj} = set ex'"
  proof (intro set_eqI iffI)
    fix oj assume "oj \<in> set ex'"
    then show "oj \<in> {oj \<in> set ?ops. \<not> op_finish (g_ops g' ! oj) \<and> ready g' oj}"
    proof (unfold n(3), elim UnE)
      assume "oj \<in> set ?ex"
      with e ex(2) F finished_ready(1) [OF F] show ?thesis by (auto simp: finished_def)
    next
      assume oj: "oj \<in> {c \<in> set cs. ready g' c}"
      with cs_in obtain ti where ti: "ti \<in> outs g oi" "Some ti \<in> set (op_inputs (g_ops g ! oj))" by auto
      with st m have "\<not> produced_at g ti" by auto
      with ti(2) have "\<not> ready g oj" by (auto simp: ready_def)
      with oj cs_ops st m(3) F show ?thesis by (auto simp: finished_def)
    qed
  next
    fix oj assume oj: "oj \<in> {oj \<in> set ?ops. \<not> op_finish (g_ops g' ! oj) \<and> ready g' oj}"
    show "oj \<in> set ex'"
    proof (cases "ready g oj")
      case True
      with oj e ex(2) F n(3) show ?thesis by (auto simp: finished_def)
    next
      case False
      with finished_ready(2) [OF F, of oj] oj obtain ti where ti: "Some ti \<in> set (op_inputs (g_ops g ! oj))" "ti \<in> outs g oi" by auto
      from oj obtain k where k: "k < length ?ops" "oj = ?ops ! k" by (auto simp: in_set_conv_nth)
      with a ti(1) have "supplied g ?ops k ti" unfolding all_supplied_def split_conv by fastforce
      moreover have "\<not> produced_at g ti" using st m ti(2) by auto
      ultimately have "oj \<in> set (tensor_children (g_tensors g ! ti))" using k by (simp add: supplied_def)
      with ti oj n(3) cs(2) show ?thesis by auto
    qed
  qed
  moreover have "if op_finish (g_ops g' ! oj) then ready g' oj else \<forall>ti \<in> outs g' oj. \<not> produced_at g' ti" if "oj \<in> set ?ops" for oj
  proof (cases "op_finish (g_ops g' ! oj)")
    case True
    then have "ready g oj" using F st m(3) that by (auto simp: finished_def)
    with True finished_ready(1) [OF F] show ?thesis by simp
  next
    case False
    then have "\<not> op_finish (g_ops g ! oj)" "oj \<noteq> oi" using F by (auto simp: finished_def)
    with st sep m(1) that have "\<forall>ti \<in> outs g oj. \<not> produced_at g ti \<and> ti \<notin> outs g oi" by (auto simp: separate_def disjoint_iff)
    with False F show ?thesis by (simp add: finished_def)
  qed
  moreover have "separate g' ?ops" using sep F by (simp add: separate_def finished_def)
  ultimately have "prog_inv (sp\<lparr>sp_executable := ex'\<rparr>, g')"
    using c' [of ex'] a' [of ex'] d n(2) by (simp add: prog_inv_def Let_def ids)
  with fin F show ?thesis by blast
qed

text \<open>A run of a program: operations that are in the list of executable ones end, in any order.\<close>

inductive runs :: "stage_program \<times> graph \<Rightarrow> nat \<Rightarrow> stage_program \<times> graph \<Rightarrow> bool" for s0 where
  start: "runs s0 0 s0"
| finish: "\<lbrakk>runs s0 n (sp, g); oi \<in> set (sp_executable sp); finish_operation (op_id (g_ops g ! oi)) (sp, g) = Inr s'\<rbrakk> \<Longrightarrow>
     runs s0 (Suc n) s'"

definition unfinished :: "stage_program \<times> graph \<Rightarrow> nat set" where
  "unfinished = (\<lambda>(sp, g). {oi \<in> set (sp_op_map sp). \<not> op_finish (g_ops g ! oi)})"

lemma finite_unfinished [simp]: "finite (unfinished s)"
  by (cases s) (simp add: unfinished_def)

lemma runs_inv:
  assumes "runs s0 n s" "prog_inv s0"
  shows "prog_inv s \<and> sp_op_map (fst s) = sp_op_map (fst s0) \<and> n + card (unfinished s) = card (unfinished s0)"
  using assms
proof induction
  case (finish n sp g oi s')
  then have I: "prog_inv (sp, g)" and n: "n + card (unfinished (sp, g)) = card (unfinished s0)" by auto
  from finish_operation_inv [OF I finish(2)] finish(3) obtain ex g' where s': "s' = (sp\<lparr>sp_executable := ex\<rparr>, g')"
    "prog_inv s'" "finished oi g g'" by auto
  have oi: "oi \<in> unfinished (sp, g)" using I finish(2) by (auto simp: prog_inv_def Let_def unfinished_def)
  then have "unfinished s' = unfinished (sp, g) - {oi}" using s'(3) by (auto simp: s'(1) unfinished_def finished_def)
  with oi have "Suc (card (unfinished s')) = card (unfinished (sp, g))" by (simp add: card_Suc_Diff1 del: card_Diff_insert)
  with s' n finish show ?case by simp
qed simp

text \<open>The first operation that is not finished is ready: it waits for earlier ones only.\<close>

lemma prog_inv_progress:
  assumes I: "prog_inv (sp, g)" and u: "unfinished (sp, g) \<noteq> {}"
  shows "sp_executable sp \<noteq> []"
proof -
  let ?ops = "sp_op_map sp"
  let ?P = "\<lambda>k. k < length ?ops \<and> \<not> op_finish (g_ops g ! (?ops ! k))"
  from u obtain k0 where "?P k0" by (auto simp: unfinished_def in_set_conv_nth)
  then obtain k where k: "?P k" and min: "\<forall>j<k. \<not> ?P j" using exists_least_iff [of ?P] by blast
  have "ready g (?ops ! k)"
    unfolding ready_def
  proof
    fix r assume r: "r \<in> set (op_inputs (g_ops g ! (?ops ! k)))"
    have "all_supplied (sp, g)" using I by (simp add: prog_inv_def Let_def)
    with r k obtain ti where ti: "r = Some ti" "supplied g ?ops k ti" unfolding all_supplied_def split_conv by blast
    have "\<not> (\<exists>j<k. \<not> op_finish (g_ops g ! (?ops ! j)) \<and> ti \<in> outs g (?ops ! j))"
      using min k by auto
    with ti show "\<exists>ti. r = Some ti \<and> produced_at g ti" by (auto simp: supplied_def)
  qed
  moreover have "?ops ! k \<in> set ?ops" "\<not> op_finish (g_ops g ! (?ops ! k))" using k by simp_all
  ultimately have "?ops ! k \<in> set (sp_executable sp)" using I by (simp add: prog_inv_def Let_def)
  then show ?thesis by auto
qed

lemma sp_check_finish_iff:
  assumes "closed (sp, g)"
  shows "sp_check_finish (sp, g) = Inr (unfinished (sp, g) = {})"
proof -
  have "foldE (\<lambda>b oi. bindE (get_op oi g) (\<lambda>oper. Inr (b \<and> op_finish oper))) b ois =
      Inr (b \<and> (\<forall>oi \<in> set ois. op_finish (g_ops g ! oi)))" if "set ois \<subseteq> set (sp_op_map sp)" for b ois
    using that assms by (induction ois arbitrary: b) (auto simp: get_op_def closed_def)
  then show ?thesis by (simp add: sp_check_finish_def unfinished_def) blast
qed

subsection \<open>The blocks build programs\<close>

text \<open>The parameters that the blocks of a layer look up.\<close>

definition layer_params :: "(string \<times> string) list" where
  "layer_params = [(''attn'', ''ln''), (''attn'', ''QKVgen''), (''attn'', ''proj''), (''ffn'', ''ln''), (''ffn'', ''fc1''), (''ffn'', ''fc2'')]"

definition weights_loaded :: "model \<Rightarrow> graph \<Rightarrow> bool" where
  "weights_loaded mo g \<longleftrightarrow> (\<forall>(b, o') \<in> set layer_params. all_produced g (get_params mo 0 b o'))"

lemma weights_kept: "\<lbrakk>weights_loaded mo g; kept g g'\<rbrakk> \<Longrightarrow> weights_loaded mo g'"
  by (fastforce simp: weights_loaded_def all_produced_def kept_def)

lemma weights_of: "\<lbrakk>weights_loaded mo g; (b, o') \<in> set layer_params\<rbrakk> \<Longrightarrow> all_produced g (get_params mo 0 b o')"
  by (auto simp: weights_loaded_def)

text \<open>A program in which \<open>inputs\<close> are outputs of its operations.\<close>

definition chained :: "nat \<Rightarrow> model \<Rightarrow> nat list \<Rightarrow> stage_program \<times> graph \<Rightarrow> bool" where
  "chained start mo inputs s \<longleftrightarrow> built start s \<and> weights_loaded mo (snd s) \<and> sp_op_map (fst s) \<noteq> [] \<and> inputs \<noteq> [] \<and>
     set inputs \<subseteq> outs_of (snd s) (sp_op_map (fst s))"

text \<open>The block starts with the input of the program, or goes on from another block.\<close>

definition entering :: "nat \<Rightarrow> model \<Rightarrow> nat list \<Rightarrow> stage_program \<times> graph \<Rightarrow> bool" where
  "entering start mo inputs s \<longleftrightarrow> built start s \<and> weights_loaded mo (snd s) \<and> sp_op_map (fst s) = [] \<and> inputs = [start]"

context feeding_op
begin

lemma chained_step:
  assumes "make inputs s = Some (Inr (os, s'))" "chained start mo inputs s" "all_produced (snd s) ws"
  shows "chained start mo os s' \<and> outs_of (snd s) (sp_op_map (fst s)) \<subseteq> outs_of (snd s') (sp_op_map (fst s')) \<and>
    kept (snd s) (snd s')"
proof -
  from assms(2) have c: "built start s" "sp_op_map (fst s) \<noteq> []" "inputs \<noteq> []" "set inputs \<subseteq> outs_of (snd s) (sp_op_map (fst s))"
    "weights_loaded mo (snd s)" by (auto simp: chained_def)
  then have "\<exists>ti \<in> set inputs. ti \<in> outs_of (snd s) (sp_op_map (fst s))" by (cases inputs) auto
  with chain [OF assms(1) c(1,2) _ _ assms(3)] c weights_kept show ?thesis unfolding chained_def by blast
qed

lemma entering_step:
  assumes "make inputs s = Some (Inr (os, s'))" "entering start mo inputs s" "all_produced (snd s) ws"
  shows "chained start mo os s' \<and> kept (snd s) (snd s')"
proof -
  obtain sp g where s: "s = (sp, g)" by (cases s)
  from assms(2) have c: "built start s" "weights_loaded mo (snd s)" "frontier start s inputs"
    by (auto simp: entering_def s frontier_def Let_def built_def)
  from extend [OF assms(1) c(1,3) assms(3)] feeds [OF assms(1)] c(2) weights_kept show ?thesis
    unfolding chained_def by blast
qed

end

lemma projection_block_chained:
  assumes "projection_block e mo rows inputs s = Some (Inr (os, s'))" "entering start mo inputs s"
  shows "chained start mo os s'"
proof -
  obtain sp g where s: "s = (sp, g)" by (cases s)
  from assms(1) obtain res_buf g1 mid s1 where
    r: "new_act_tensor e ''residual_buffer'' [rows, model_n_embd (e_cfg e)] True g = Inr (res_buf, g1)"
    and m: "mat_mul e (dotted [dotted [LAYER 0, ''attn''], ''proj'']) (get_params mo 0 ''attn'' ''proj'') inputs (sp, g1) = Some (Inr (mid, s1))"
    and a: "add_residual e (dotted [dotted [LAYER 0, ''attn''], ''res'']) (mid @ [res_buf]) s1 = Some (Inr (os, s'))"
    by (auto simp: projection_block_def s Let_def split: prod.splits)
  from new_act_tensor_extends [OF r] obtain t where t: "tensor_produced t" "tensor_children t = []" "res_buf = length (g_tensors g)"
    "g_tensors g1 = g_tensors g @ [t]" "g_ops g1 = g_ops g" by auto
  from assms(2) have b: "built start (sp, g)" "weights_loaded mo g" "sp_op_map sp = []" "inputs = [start]" by (auto simp: entering_def s)
  have "kept g g1" by (auto simp: kept_def produced_at_def t nth_append)
  with b have e1: "entering start mo inputs (sp, g1)"
    by (auto simp: entering_def intro: built_new_tensor [OF _ t(5,4)] weights_kept)
  have w: "all_produced (snd (sp, g1)) (get_params mo 0 ''attn'' ''proj'')"
    using e1 by (auto simp: entering_def layer_params_def intro: weights_of)
  from mm.entering_step [OF m e1 w] have c1: "chained start mo mid s1" and k1: "kept g1 (snd s1)" by auto
  have "produced_at (snd s1) res_buf" using k1 t by (auto simp: kept_def produced_at_def nth_append)
  moreover have "res_buf \<noteq> start" using b(1) t(3) by (auto simp: built_def Let_def produced_at_def)
  ultimately have fr: "\<forall>ti \<in> set (mid @ [res_buf]). ti \<in> outs_of (snd s1) (sp_op_map (fst s1)) \<or> produced_at (snd s1) ti \<and> ti \<noteq> start"
    "\<exists>ti \<in> set (mid @ [res_buf]). ti \<in> outs_of (snd s1) (sp_op_map (fst s1))"
    using c1 by (auto simp: chained_def neq_Nil_conv)
  have c1': "built start s1" "sp_op_map (fst s1) \<noteq> []" "weights_loaded mo (snd s1)" using c1 by (auto simp: chained_def)
  from ad.chain [OF a c1'(1,2) fr] c1'(3) weights_kept show ?thesis unfolding chained_def all_produced_def by fastforce
qed

lemma ffn1_block_chained:
  assumes "ffn1_block e mo inputs s = Some (Inr (os, s'))" "chained start mo inputs s"
  shows "chained start mo os s'"
proof -
  let ?p = "dotted [LAYER 0, ''ffn'']"
  from assms(1) obtain i1 s1 i2 s2 i3 s3 i4 s4 where ne: "0 < length inputs"
    and 1: "layer_norm e (dotted [?p, ''ln'']) (get_params mo 0 ''ffn'' ''ln'') inputs s = Some (Inr (i1, s1))"
    and 2: "mat_mul e (dotted [?p, ''fc1'']) (get_params mo 0 ''ffn'' ''fc1'') i1 s1 = Some (Inr (i2, s2))"
    and 3: "gelu_op e (dotted [?p, ''gelu'']) i2 s2 = Some (Inr (i3, s3))"
    and 4: "mat_mul e (dotted [?p, ''fc2'']) (get_params mo 0 ''ffn'' ''fc2'') i3 s3 = Some (Inr (i4, s4))"
    and 5: "add_residual e (dotted [?p, ''res'']) (i4 @ [inputs ! 0]) s4 = Some (Inr (os, s'))"
    by (auto simp: ffn1_block_def Let_def split: prod.splits)
  have w: "chained start mo i s \<Longrightarrow> (b, o') \<in> set layer_params \<Longrightarrow> all_produced (snd s) (get_params mo 0 b o')" for i s b o'
    by (auto simp: chained_def intro: weights_of)
  have p: "(''ffn'', ''ln'') \<in> set layer_params" "(''ffn'', ''fc1'') \<in> set layer_params" "(''ffn'', ''fc2'') \<in> set layer_params"
    by (simp_all add: layer_params_def)
  note c1 = ln.chained_step [OF 1 assms(2) w [OF assms(2) p(1)]]
  note c2 = mm.chained_step [OF 2 conjunct1 [OF c1] w [OF conjunct1 [OF c1] p(2)]]
  note c3 = ge.chained_step [OF 3 conjunct1 [OF c2]]
  have c3: "chained start mo i3 s3" "outs_of (snd s2) (sp_op_map (fst s2)) \<subseteq> outs_of (snd s3) (sp_op_map (fst s3))"
    using c3 by (simp_all add: all_produced_def)
  note c4 = mm.chained_step [OF 4 c3(1) w [OF c3(1) p(3)]]
  have c: "chained start mo i4 s4" and m: "outs_of (snd s) (sp_op_map (fst s)) \<subseteq> outs_of (snd s4) (sp_op_map (fst s4))"
    using c1 c2 c3 c4 by auto
  have "inputs ! 0 \<in> outs_of (snd s4) (sp_op_map (fst s4))" 
    using m nth_mem [OF ne] assms(2) unfolding chained_def by blast
  with c have "chained start mo (i4 @ [inputs ! 0]) s4" by (auto simp: chained_def)
  from ad.chained_step [OF 5 this] show ?thesis by (auto simp: all_produced_def)
qed

lemma qkv_gen_block_chained:
  assumes q: "qkv_gen_block e mo inputs s = Some (Inr (os, s'))" and c: "entering start mo inputs s \<or> chained start mo inputs s"
  shows "chained start mo os s'"
proof -
  let ?p = "dotted [LAYER 0, ''attn'']"
  from q obtain i1 s1 where
    1: "layer_norm e (dotted [?p, ''ln'']) (get_params mo 0 ''attn'' ''ln'') inputs s = Some (Inr (i1, s1))"
    and 2: "mat_mul e (dotted [?p, ''QKVgen'']) (get_params mo 0 ''attn'' ''QKVgen'') i1 s1 = Some (Inr (os, s'))"
    by (auto simp: qkv_gen_block_def Let_def split: prod.splits)
  have "weights_loaded mo (snd s)" using c by (auto simp: chained_def entering_def)
  then have w: "all_produced (snd s) (get_params mo 0 ''attn'' ''ln'')" by (auto simp: layer_params_def intro: weights_of)
  with c 1 have c1: "chained start mo i1 s1" using ln.entering_step ln.chained_step by blast
  then have "all_produced (snd s1) (get_params mo 0 ''attn'' ''QKVgen'')" by (auto simp: chained_def layer_params_def intro: weights_of)
  with mm.chained_step [OF 2 c1] show ?thesis by blast
qed

text \<open>The state in which \<open>StageProgram\<close> leaves its constructor.\<close>

definition fresh_prog :: "stage_program \<times> graph \<Rightarrow> bool" where
  "fresh_prog s \<longleftrightarrow> prog_inv s \<and> unfinished s = set (sp_op_map (fst s))"

lemma built_fresh_prog:
  assumes "built start s" "sp_op_map (fst s) \<noteq> []" "find_executable_node start s = Inr s'"
    and "distinct (map (\<lambda>oi. op_id (g_ops (snd s') ! oi)) (sp_op_map (fst s')))"
  shows "fresh_prog s'"
proof -
  obtain sp g where s: "s = (sp, g)" by (cases s)
  have "sp_op_map (fst s') = sp_op_map sp \<and> snd s' = g" using assms(3)
  proof -
    have "foldE (\<lambda>sp oi. bindE (check_executable oi g) (\<lambda>ok.
        Inr (if ok then sp\<lparr>sp_executable := sp_executable sp @ [oi]\<rparr> else sp))) sp cs = Inr sp' \<Longrightarrow> sp_op_map sp' = sp_op_map sp" for cs sp'
      by (drule foldE_io [where p = sp_op_map]) auto
    with assms(3) show ?thesis by (auto simp: s find_executable_node_def)
  qed
  with built_start [of start sp g s'] assms show ?thesis by (cases s') (auto simp: s fresh_prog_def unfinished_def)
qed

lemma if_Inl: "(if c then Inl x else m) = Inr y \<longleftrightarrow> \<not> c \<and> m = Inr y"
  by simp

lemma SA_program_fresh:
  assumes i: "init_SA_program e mo reqs (sp, g) = Some (Inr s)" and w: "weights_loaded mo g"
    and sp: "sp_op_map sp = []" "sp_executable sp = []" "sp_stage sp \<noteq> Stage_Finish"
    and d: "distinct (map (\<lambda>oi. op_id (g_ops (snd s) ! oi)) (sp_op_map (fst s)))"
  shows "fresh_prog s"
proof -
  let ?proj = "enable_proj_ffns (sp_stage sp)" and ?qkv = "enable_qkv_gen (sp_stage sp)"
  from i obtain N dims input g1 ins s1 os s2 where
    n: "new_act_tensor e ''input'' dims True g = Inr (input, g1)"
    and p: "(if ?proj then bindR (projection_block e mo N [input] (sp, g1)) (\<lambda>(inputs, s). ffn1_block e mo inputs s)
             else Some (Inr ([input], sp, g1))) = Some (Inr (ins, s1))"
    and q: "(if ?qkv then qkv_gen_block e mo ins s1 else Some (Inr (ins, s1))) = Some (Inr (os, s2))"
    and f: "find_executable_node input s2 = Inr s"
    unfolding init_SA_program_def Let_def split_conv by (clarsimp simp: if_Inl split del: if_split)
  from new_act_tensor_extends [OF n] obtain t where t: "tensor_produced t" "tensor_children t = []" "input = length (g_tensors g)"
    "g_tensors g1 = g_tensors g @ [t]" "g_ops g1 = g_ops g" by auto
  have "weights_loaded mo g1" by (rule weights_kept [OF w]) (auto simp: kept_def produced_at_def t nth_append)
  then have e: "entering input mo [input] (sp, g1)"
    by (auto simp: entering_def built_def Let_def sp closed_def all_supplied_def separate_def produced_at_def t)
  have c1: "(if ?proj then chained input mo ins s1 else entering input mo ins s1)"
  proof (cases ?proj)
    case True
    with p obtain mid s0 where "projection_block e mo N [input] (sp, g1) = Some (Inr (mid, s0))"
      "ffn1_block e mo mid s0 = Some (Inr (ins, s1))" by auto
    with e True show ?thesis using projection_block_chained ffn1_block_chained by simp
  next
    case False
    with p e show ?thesis by auto
  qed
  have "?proj \<or> ?qkv" using sp(3) by (cases "sp_stage sp") (auto simp: enable_proj_ffns_def enable_qkv_gen_def)
  with c1 q have "chained input mo os s2" by (auto split: if_splits dest: qkv_gen_block_chained)
  then show ?thesis using built_fresh_prog [OF _ _ f d] by (auto simp: chained_def)
qed

text \<open>The memory program: the queries and the caches are there before it starts.\<close>

definition caches_there :: "InferRequest list \<Rightarrow> batched_request \<Rightarrow> bool" where
  "caches_there reqs b \<longleftrightarrow> (\<forall>r \<in> set b. r < length reqs \<longrightarrow>
     (\<forall>t \<in> set (take 1 (K_cache (reqs ! r)) @ take 1 (V_cache (reqs ! r))). bt_produced t))"

definition pim_inputs_ok :: "graph \<Rightarrow> (nat list \<times> nat list \<times> nat list) \<times> graph \<Rightarrow> bool" where
  "pim_inputs_ok g = (\<lambda>((qs, ks, vs), g'). kept g g' \<and> distinct (qs @ ks @ vs) \<and>
     (\<forall>ti \<in> set (qs @ ks @ vs). produced_at g' ti) \<and> (\<forall>ti \<in> set qs. tensor_children (g_tensors g' ! ti) = []))"

lemma pim_input_ok:
  assumes "pim_input e reqs nh dk x r = Inr x'" "pim_inputs_ok g x" "caches_there reqs [r]"
  shows "pim_inputs_ok g x'"
proof -
  obtain qs ks vs g1 where x: "x = ((qs, ks, vs), g1)" by (cases x; cases "fst x") auto
  from assms(1) obtain q g2 where
    q: "new_act_tensor e ''query'' [nh, rows_of (reqs ! r), dk] True g1 = Inr (q, g2)" and r: "r < length reqs"
    and kv: "K_cache (reqs ! r) \<noteq> []" "V_cache (reqs ! r) \<noteq> []"
    and x': "x' = ((qs @ [q], ks @ [length (g_tensors g2)], vs @ [Suc (length (g_tensors g2))]),
       g2\<lparr>g_tensors := g_tensors g2 @ [PT (K_cache (reqs ! r) ! 0), PT (V_cache (reqs ! r) ! 0)]\<rparr>)"
    by (auto simp: pim_input_def x new_tensor_def split: prod.splits)
  from new_act_tensor_extends [OF q] obtain t where t: "tensor_produced t" "tensor_children t = []" "q = length (g_tensors g1)"
    "g_tensors g2 = g_tensors g1 @ [t]" "g_ops g2 = g_ops g1" by auto
  have "bt_produced (K_cache (reqs ! r) ! 0)" "bt_produced (V_cache (reqs ! r) ! 0)"
    using assms(3) r kv by (auto simp: caches_there_def neq_Nil_conv)
  then have p: "tensor_produced (PT (K_cache (reqs ! r) ! 0))" "tensor_produced (PT (V_cache (reqs ! r) ! 0))"
    by (simp_all add: tensor_produced_def)
  have old: "ti < length (g_tensors g1)" if "ti \<in> set (qs @ ks @ vs)" for ti
    using assms(2) that by (auto simp: pim_inputs_ok_def x produced_at_def)
  have k: "produced_at (snd x') ti" if "produced_at g1 ti" for ti
    using that by (auto simp: x' produced_at_def t nth_append)
  have "kept g (snd x')" using assms(2) k by (auto simp: pim_inputs_ok_def x kept_def)
  moreover have "produced_at (snd x') ti" if "ti \<in> set (qs @ ks @ vs)" for ti
    using assms(2) that k by (auto simp: pim_inputs_ok_def x)
  moreover have "produced_at (snd x') (length (g_tensors g1))" "produced_at (snd x') (Suc (length (g_tensors g1)))"
    "produced_at (snd x') (Suc (Suc (length (g_tensors g1))))"
    using p t by (auto simp: x' produced_at_def nth_append)
  moreover have "tensor_children (g_tensors (snd x') ! ti) = []" if "ti \<in> set qs" for ti
    using assms(2) that old [of ti] by (auto simp: x' t nth_append pim_inputs_ok_def x)
  moreover have "tensor_children (g_tensors (snd x') ! length (g_tensors g1)) = []" by (simp add: x' t nth_append)
  moreover have "distinct (qs @ ks @ vs)" using assms(2) by (simp add: pim_inputs_ok_def x)
  ultimately show ?thesis using old t by (fastforce simp: pim_inputs_ok_def x')
qed

lemma count_list_distinct: "distinct xs \<Longrightarrow> count_list xs x = (if x \<in> set xs then 1 else 0)"
  by (induction xs) auto

lemma PIM_program_fresh:
  assumes i: "init_PIM_program e reqs (sp, g) = Some (Inr s)" and c: "caches_there reqs (sp_breq sp)"
    and sp: "sp_op_map sp = []" "sp_executable sp = []"
    and d: "distinct (map (\<lambda>oi. op_id (g_ops (snd s) ! oi)) (sp_op_map (fst s)))"
  shows "fresh_prog s"
proof -
  let ?p = "[LAYER 0, ''attn'']"
  from i obtain nh dk qs ks vs g1 lg s1 os s2 where
    f: "foldE (pim_input e reqs nh dk) (([], [], []), g) (sp_breq sp) = Inr ((qs, ks, vs), g1)"
    and l: "logit_softmax e (dotted (?p @ [''NeuPIMSLogitSoftmax''])) (qs @ ks) (sp, g1) = Some (Inr (lg, s1))"
    and a: "attend e (dotted (?p @ [''NeuPIMSAttend''])) (lg @ vs) s1 = Some (Inr (os, s2))"
    and q: "qs \<noteq> []" "find_executable_node (last qs) s2 = Inr s"
    unfolding init_PIM_program_def Let_def split_conv by (clarsimp simp: if_Inl split del: if_split)
  have "pim_inputs_ok g ((qs, ks, vs), g1)"
    by (rule foldE_invariant [OF f]) (use pim_input_ok c in \<open>auto simp: pim_inputs_ok_def caches_there_def\<close>)
  then have ok: "distinct (qs @ ks @ vs)" "\<forall>ti \<in> set (qs @ ks @ vs). produced_at g1 ti"
    "\<forall>ti \<in> set qs. tensor_children (g_tensors g1 ! ti) = []" by (simp_all add: pim_inputs_ok_def)
  have b: "built (last qs) (sp, g1)"
    using ok q(1) by (auto simp: built_def Let_def sp closed_def all_supplied_def separate_def)
  have "count_list (qs @ ks) (last qs) = 1"
    using ok(1) q(1) by (subst count_list_distinct) auto
  with ok have "frontier (last qs) (sp, g1) (qs @ ks)" by (auto simp: frontier_def Let_def sp)
  note L = ls.extend [OF l b this] ls.feeds [OF l]
  have L: "built (last qs) s1" "kept g1 (snd s1)" "set lg \<subseteq> outs_of (snd s1) (sp_op_map (fst s1))" "sp_op_map (fst s1) \<noteq> []"
    "lg \<noteq> []" using L by (auto simp: all_produced_def)
  have st: "last qs \<notin> outs_of (snd s1) (sp_op_map (fst s1))" using L(1) by (cases s1) (auto simp: built_def Let_def outs_of_def)
  have "last qs \<notin> set vs" using ok(1) last_in_set [OF q(1)] by (auto simp: disjoint_iff)
  moreover have "\<forall>ti \<in> set vs. produced_at (snd s1) ti" using ok(2) L(2) by (auto simp: kept_def)
  ultimately have "frontier (last qs) s1 (lg @ vs)" using L(3-5) st by (cases s1; cases lg) (auto simp: frontier_def Let_def)
  from att.extend [OF a L(1) this] have "built (last qs) s2" "sp_op_map (fst s2) \<noteq> []" by (simp_all add: all_produced_def)
  then show ?thesis by (rule built_fresh_prog [OF _ _ q(2) d])
qed

lemma StageProgram_fresh:
  assumes i: "StageProgram_new e mo reqs b p stg g0 = Some (Inr s)" and w: "weights_loaded mo g0" and c: "caches_there reqs b"
    and d: "distinct (map (\<lambda>oi. op_id (g_ops (snd s) ! oi)) (sp_op_map (fst s)))"
  shows "fresh_prog s"
proof -
  define sp where "sp = \<lparr>sp_name = stagePlatformToString p @ ''_stage_'' @ stageToString stg, sp_breq = b, sp_platform = p,
    sp_stage = stg, sp_op_map = [], sp_executable = []\<rparr>"
  have n: "fresh_prog (sp, g0)"
    by (simp add: fresh_prog_def prog_inv_def Let_def sp_def closed_def all_supplied_def separate_def unfinished_def)
  have sp: "sp_op_map sp = []" "sp_executable sp = []" "sp_breq sp = b" by (simp_all add: sp_def)
  from i have "init_program e mo reqs (sp, g0) = Some (Inr s)" by (simp add: StageProgram_new_def sp_def)
  then have "s = (sp, g0) \<or> init_PIM_program e reqs (sp, g0) = Some (Inr s) \<or>
      init_SA_program e mo reqs (sp, g0) = Some (Inr s) \<and> sp_stage sp \<noteq> Stage_Finish"
    by (auto simp: init_program_def split: if_splits StagePlatform.splits)
  moreover have "fresh_prog s" if "init_PIM_program e reqs (sp, g0) = Some (Inr s)"
    by (rule PIM_program_fresh [OF that _ sp(1,2) d]) (simp add: sp c)
  moreover have "fresh_prog s" if "init_SA_program e mo reqs (sp, g0) = Some (Inr s)" "sp_stage sp \<noteq> Stage_Finish"
    by (rule SA_program_fresh [OF that(1) w sp(1,2) that(2) d])
  ultimately show ?thesis using n by blast
qed

subsection \<open>The weights of a model\<close>

definition wgt_ok :: "model \<times> graph \<Rightarrow> bool" where
  "wgt_ok = (\<lambda>(mo, g). \<forall>name ti. map_of (mo_wgt_map mo) name = Some ti \<longrightarrow> produced_at g ti)"

lemma create_weight_ok:
  assumes "create_weight e mg (name, dims) = Inr mg'" "wgt_ok mg"
  shows "wgt_ok mg' \<and> (\<forall>n. map_of (mo_wgt_map (fst mg')) n \<noteq> None \<longleftrightarrow> n = name \<or> map_of (mo_wgt_map (fst mg)) n \<noteq> None)"
proof -
  obtain mo g where mg: "mg = (mo, g)" by (cases mg)
  from assms(1) obtain t ms where t: "NPUTensor_new (e_cfg e) (e_alignment e) name dims WGT True (g_mem g) = Inr (t, ms)"
    and mg': "mg' = (mo\<lparr>mo_wgt_map := AList.update name (length (g_tensors g)) (mo_wgt_map mo)\<rparr>,
       g\<lparr>g_mem := ms, g_tensors := g_tensors g @ [NT t]\<rparr>)"
    by (auto simp: mg create_weight_def new_tensor_def)
  have "tensor_produced (NT t)" using NPUTensor_new_fresh [OF t] by simp
  then show ?thesis using assms(2)
    by (auto simp: mg mg' wgt_ok_def AList.update_conv' produced_at_def nth_append less_Suc_eq split: if_splits)
qed

definition weights_ok :: "(string \<times> u32 list) list \<Rightarrow> model \<times> graph \<Rightarrow> bool" where
  "weights_ok ws mg \<longleftrightarrow> wgt_ok mg \<and> (\<forall>(n, d) \<in> set ws. map_of (mo_wgt_map (fst mg)) n \<noteq> None)"

lemma create_weights_ok:
  assumes "foldE (create_weight e) mg ws = Inr mg'" "weights_ok ws0 mg"
  shows "weights_ok (ws0 @ ws) mg'"
  using assms
proof (induction ws arbitrary: mg ws0)
  case (Cons w ws)
  obtain n d where w: "w = (n, d)" by (cases w)
  from Cons.prems obtain mg1 where c: "create_weight e mg (n, d) = Inr mg1" and f: "foldE (create_weight e) mg1 ws = Inr mg'"
    by (auto simp: w)
  have "weights_ok (ws0 @ [w]) mg1" using create_weight_ok [OF c] Cons.prems(2) by (fastforce simp: weights_ok_def w)
  from Cons.IH [OF f this] show ?case by simp
qed simp

lemma weights_ok_mono: "\<lbrakk>weights_ok ws mg; set ws' \<subseteq> set ws\<rbrakk> \<Longrightarrow> weights_ok ws' mg"
  by (auto simp: weights_ok_def)

lemma layers_ok:
  assumes "foldE (\<lambda>mg i. foldE (create_weight e) mg (layer_weights cfg i)) mg is = Inr mg'" "weights_ok ws mg"
  shows "weights_ok ws mg'"
  by (rule foldE_invariant [OF assms(1), where I = "weights_ok ws"])
     (use assms(2) in \<open>auto dest!: create_weights_ok intro: weights_ok_mono\<close>)

lemma layer_params_weights:
  assumes "weights_ok (layer_weights cfg 0) (mo, g)"
  shows "weights_loaded mo g"
proof -
  have "\<exists>ti. find_tensor n mo = Some ti \<and> produced_at g ti" if "n \<in> fst ` set (layer_weights cfg 0)" for n
    using assms that by (force simp: weights_ok_def wgt_ok_def find_tensor_def)
  then show ?thesis
    by (simp add: weights_loaded_def layer_params_def all_produced_def get_params_def Let_def layer_weights_def dotted_def)
qed

lemma Model_new_loaded:
  assumes m: "Model_new e name g0 = Inr (mo, g)" and n: "model_n_layer (e_cfg e) \<noteq> 0"
  shows "weights_loaded mo g"
proof -
  let ?cfg = "e_cfg e"
  obtain i ms where gi: "generate_id (g_mem g0) = (i, ms)" by (cases "generate_id (g_mem g0)")
  define mg0 where "mg0 = (\<lparr>mo_name = name, mo_root_node_id = i, mo_wgt_map = [], mo_wgt_size = 0\<rparr>, g0\<lparr>g_mem := ms\<rparr>)"
  from m have "init_params e mg0 = Inr (mo, g)" by (simp add: Model_new_def gi mg0_def)
  then obtain mg1 mo2 g2 sz where f: "foldE (\<lambda>mg i. foldE (create_weight e) mg (layer_weights ?cfg i)) mg0 [0..<unat (model_n_layer ?cfg)] = Inr mg1"
    and h: "create_weight e mg1 (dotted [''lmhead'', ''weight''], [model_n_embd ?cfg, model_vocab_size ?cfg]) = Inr (mo2, g2)"
    and g: "mo = mo2\<lparr>mo_wgt_size := sz\<rparr>" "g = g2"
    by (auto simp: init_params_def Let_def if_Inl split: prod.splits)
  have "[0..<unat (model_n_layer ?cfg)] = 0 # [1..<unat (model_n_layer ?cfg)]" using n by (simp add: upt_conv_Cons unat_gt_0)
  with f obtain mg where a: "foldE (create_weight e) mg0 (layer_weights ?cfg 0) = Inr mg"
    and r: "foldE (\<lambda>mg i. foldE (create_weight e) mg (layer_weights ?cfg i)) mg [1..<unat (model_n_layer ?cfg)] = Inr mg1" by auto
  have "weights_ok [] mg0" by (simp add: weights_ok_def wgt_ok_def mg0_def)
  from create_weights_ok [OF a this] have "weights_ok (layer_weights ?cfg 0) mg" by simp
  from layers_ok [OF r this] have "weights_ok (layer_weights ?cfg 0) mg1" .
  with create_weight_ok [OF h] have "weights_ok (layer_weights ?cfg 0) (mo2, g2)" by (fastforce simp: weights_ok_def)
  then have "weights_ok (layer_weights ?cfg 0) (mo, g)" by (simp add: weights_ok_def wgt_ok_def g)
  then show ?thesis by (rule layer_params_weights)
qed

subsection \<open>A program runs to its end\<close>

text \<open>
  C10: A stage program never gets stuck, and it is finished after exactly as many operations as it has:
  after \<open>n\<close> ends of executable operations, in any order, \<open>check_finish\<close> says whether \<open>n\<close> is the number
  of operations, and before that there is an executable operation and the end of each one returns.
  The parameters of the layer are those of the model, the caches of the batch are filled, and the
  identifiers of the operations have not wrapped round.
\<close>

theorem stage_program_completes:
  assumes "Model_new e name g0 = Inr (mo, g1)" and "model_n_layer (e_cfg e) \<noteq> 0"
    and "kept g1 g2" and "StageProgram_new e mo reqs b p stg g2 = Some (Inr (sp, g))" and "caches_there reqs b"
    and "distinct (map (\<lambda>oi. op_id (g_ops g ! oi)) (sp_op_map sp))"
    and "runs (sp, g) n (sp', g')"
  shows "n \<le> length (sp_op_map sp) \<and> sp_check_finish (sp', g') = Inr (n = length (sp_op_map sp)) \<and>
    (n < length (sp_op_map sp) \<longrightarrow> sp_executable sp' \<noteq> [] \<and>
      (\<forall>oi \<in> set (sp_executable sp'). \<exists>s. finish_operation (op_id (g_ops g' ! oi)) (sp', g') = Inr s))"
proof -
  have w: "weights_loaded mo g2" by (rule weights_kept [OF Model_new_loaded [OF assms(1,2)] assms(3)])
  have "fresh_prog (sp, g)" by (rule StageProgram_fresh [OF assms(4) w assms(5)]) (use assms(6) in simp)
  then have I0: "prog_inv (sp, g)" and u: "unfinished (sp, g) = set (sp_op_map sp)" by (auto simp: fresh_prog_def)
  have "distinct (sp_op_map sp)" using assms(6) by (auto simp: distinct_map)
  then have c0: "card (unfinished (sp, g)) = length (sp_op_map sp)" by (simp add: u distinct_card)
  from runs_inv [OF assms(7) I0] c0 have I: "prog_inv (sp', g')"
    and c: "n + card (unfinished (sp', g')) = length (sp_op_map sp)" by auto
  have "sp_check_finish (sp', g') = Inr (unfinished (sp', g') = {})"
    by (rule sp_check_finish_iff) (use I in \<open>simp add: prog_inv_def Let_def\<close>)
  moreover have "unfinished (sp', g') = {} \<longleftrightarrow> n = length (sp_op_map sp)" using c by auto
  moreover have "\<exists>s. finish_operation (op_id (g_ops g' ! oi)) (sp', g') = Inr s" if "oi \<in> set (sp_executable sp')" for oi
    using finish_operation_inv [OF I that] by blast
  ultimately show ?thesis using c prog_inv_progress [OF I] by fastforce
qed

definition demo_stage_env :: env where
  "demo_stage_env = \<lparr>e_cfg = demo_pim_cfg\<lparr>model_n_layer := 1, model_vocab_size := 4\<rparr>, e_alignment = 64, e_channel_mask = 0,
     e_set_order = (\<lambda>xs. xs), e_stale_opcode = MOVIN\<rparr>"

definition demo_request :: InferRequest where
  "demo_request = \<lparr>ir_id = 0, arrival_cycle = 0, completed_cycle = 0, input_size = 1, output_size = 1, is_initiated = True,
     generated = 0, ir_channel = 0, K_cache = [demo_key], V_cache = [demo_key\<lparr>pt_kv_type := VALUE, pt_rows := [8]\<rparr>]\<rparr>"

definition demo_start :: graph where
  "demo_start = \<lparr>g_tensors = [], g_ops = [], g_mem = demo_pim_mem\<rparr>"


lemma get_allocated_seq_len_PIM_code [code]:
  "get_allocated_seq_len_PIM t =
     (let unit = (case pt_kv_type t of KEY \<Rightarrow> pt_bank_per_ch t | VALUE \<Rightarrow> pt_num_ele_per_row t);
          n = int (cdiv (unat (pt_seq_len t)) (unat unit)) * uint unit
      in if unit = 0 \<or> n \<ge> 2 ^ 32 then Inl Undefined else Inr (of_int n))"
proof -
  have 1: "of_nat (a * b) = (of_int (int a * int b) :: u32)" for a b :: nat
    by simp
  have 2: "a * b \<ge> 2 ^ 32 \<longleftrightarrow> int a * int b \<ge> 2 ^ 32" for a b :: nat
  proof -
    have "a * b \<ge> 2 ^ 32 \<longleftrightarrow> int (2 ^ 32) \<le> int (a * b)" by (simp only: of_nat_le_iff)
    then show ?thesis by simp
  qed
  show ?thesis by (simp only: get_allocated_seq_len_PIM_def Let_def uint_nat 1 2)
qed


definition demo_model0 :: "model \<times> graph" where
  "demo_model0 = (\<lparr>mo_name = ''m'', mo_root_node_id = 0, mo_wgt_map = [], mo_wgt_size = 0\<rparr>, demo_start\<lparr>g_mem := demo_pim_mem\<lparr>ms_next_id := 1\<rparr>\<rparr>)"

definition demo_result :: "(model \<times> graph \<times> stage_program \<times> graph) option" where
  "demo_result = (case init_params demo_stage_env demo_model0 of Inl _ \<Rightarrow> None
     | Inr (mo, g1) \<Rightarrow> (case StageProgram_new demo_stage_env mo [demo_request] [0] PIM Stage_B g1 of
         Some (Inr (sp, g)) \<Rightarrow> Some (mo, g1, sp, g) | _ \<Rightarrow> None))"


definition demo_shape :: "(nat list \<times> nat list \<times> u32 list) option" where
  "demo_shape = (case demo_result of None \<Rightarrow> None | Some (mo, g1, sp, g) \<Rightarrow>
     Some (sp_op_map sp, sp_executable sp, map (\<lambda>oi. op_id (g_ops g ! oi)) (sp_op_map sp)))"

lemma demo_shape_eq: "demo_shape = Some ([0, 1], [0], [15, 17])"
  by code_simp

lemma demo_program:
  "\<exists>mo g1 sp g. Model_new demo_stage_env ''m'' demo_start = Inr (mo, g1) \<and>
     StageProgram_new demo_stage_env mo [demo_request] [0] PIM Stage_B g1 = Some (Inr (sp, g)) \<and>
     sp_op_map sp = [0, 1] \<and> sp_executable sp = [0] \<and> map (\<lambda>oi. op_id (g_ops g ! oi)) (sp_op_map sp) = [15, 17]"
proof -
  obtain mo g1 sp g where r: "demo_result = Some (mo, g1, sp, g)" "sp_op_map sp = [0, 1]" "sp_executable sp = [0]"
    "map (\<lambda>oi. op_id (g_ops g ! oi)) (sp_op_map sp) = [15, 17]"
    using demo_shape_eq by (auto simp: demo_shape_def split: option.splits)
  from r(1) have "init_params demo_stage_env demo_model0 = Inr (mo, g1)"
    "StageProgram_new demo_stage_env mo [demo_request] [0] PIM Stage_B g1 = Some (Inr (sp, g))"
    by (auto simp: demo_result_def split: sum.splits option.splits)
  moreover have "Model_new demo_stage_env ''m'' demo_start = init_params demo_stage_env demo_model0"
    by (simp add: Model_new_def generate_id_def demo_model0_def demo_start_def demo_pim_mem_def demo_mem_def)
  ultimately show ?thesis using r(2-4) by auto
qed

theorem stage_program_completes_witness:
  "\<exists>mo g1 sp g s. Model_new demo_stage_env ''m'' demo_start = Inr (mo, g1) \<and>
     StageProgram_new demo_stage_env mo [demo_request] [0] PIM Stage_B g1 = Some (Inr (sp, g)) \<and>
     sp_op_map sp = [0, 1] \<and> runs (sp, g) 1 s \<and> sp_check_finish s = Inr False"
proof -
  obtain mo g1 sp g where m: "Model_new demo_stage_env ''m'' demo_start = Inr (mo, g1)"
    and p: "StageProgram_new demo_stage_env mo [demo_request] [0] PIM Stage_B g1 = Some (Inr (sp, g))"
    and sh: "sp_op_map sp = [0, 1]" "sp_executable sp = [0]" "map (\<lambda>oi. op_id (g_ops g ! oi)) (sp_op_map sp) = [15, 17]"
    using demo_program by (elim exE conjE) (rule that)
  have n: "model_n_layer (e_cfg demo_stage_env) \<noteq> 0" by (simp add: demo_stage_env_def)
  have c: "caches_there [demo_request] [0]" by (simp add: caches_there_def demo_request_def demo_key_def)
  have d: "distinct (map (\<lambda>oi. op_id (g_ops g ! oi)) (sp_op_map sp))" by (simp add: sh(3))
  note complete = stage_program_completes [OF m n kept_refl p c d]
  from complete [OF runs.start] sh obtain s where s: "finish_operation (op_id (g_ops g ! 0)) (sp, g) = Inr s" by auto
  have r: "runs (sp, g) (Suc 0) s" by (rule runs.finish [OF runs.start _ s]) (simp add: sh)
  obtain sp' g' where s': "s = (sp', g')" by (cases s)
  from complete [OF r [unfolded s']] have "sp_check_finish s = Inr False" by (simp add: s' sh)
  with m p sh(1) r show ?thesis unfolding One_nat_def by blast
qed

end
