(* ===== verification/Scheduler.thy ===== *)
theory Scheduler
  imports ProgramRun Partition
begin

text \<open>
  \<open>Scheduler\<close> (scheduler/Scheduler.h, Scheduler.cc): it takes the requests of the client, groups them
  into two sub-batches, builds the two programs of each stage and hands out their tiles.

  The objects the scheduler shares by pointer with the rest of the simulator are part of its state
  here: the store of all requests (\<open>sc_reqs\<close>), the operation graph (\<open>sc_graph\<close>) and the model
  (\<open>sc_model\<close>).  \<open>now\<close> is the value behind \<open>_core_cycle\<close>.
\<close>

subsection \<open>State\<close>

record RunningOperationStat =
  ro_id :: u32
  ro_request_id :: u32
  ro_name :: string
  ro_start_cycle :: cycle_type
  ro_total_tiles :: u32
  ro_remain_tiles :: u32
  ro_launched_tiles :: u32

definition RunningOperationStat0 :: RunningOperationStat where
  "RunningOperationStat0 = \<lparr>ro_id = 0, ro_request_id = 0, ro_name = '''', ro_start_cycle = 0, ro_total_tiles = 0, ro_remain_tiles = 0,
     ro_launched_tiles = 0\<rparr>"

type_synonym op_stats = "(u32 \<times> RunningOperationStat) list"

record scheduler =
  sc_model :: model
  sc_reqs :: "InferRequest list"
  sc_graph :: graph
  sc_program1 :: "stage_program option"
  sc_program2 :: "stage_program option"
  sc_tiles1 :: "Tile list"
  sc_tiles2 :: "Tile list"
  sc_finished :: op_stats
  sc_active :: op_stats
  sc_prev_stage :: Stage
  sc_stage_changed :: bool
  sc_cycles :: u32
  sc_request_queue :: "nat list"
  sc_completed :: "nat list"
  sc_active_queues :: "nat list list"
  sc_latency_queues :: "u32 list list"
  sc_accum_latency :: "u32 list"
  sc_max_batch_size :: u32
  sc_max_active_reqs :: u32
  sc_breq1 :: "nat list"
  sc_breq2 :: "nat list"
  sc_next_ch :: u32
  sc_nh :: u32
  sc_dk :: u32
  sc_effective_e :: u32
  sc_channels :: u32
  sc_page_size :: u32
  sc_banks :: u32
  sc_active_reqs :: u32
  sc_stage :: Stage
  sc_init_stage :: Stage
  sc_just_one_stage :: bool
  sc_total_tiles :: u32
  sc_total_available :: u32
  sc_available :: "u32 list"
  sc_key_period :: u32
  sc_value_period :: u32
  sc_key_page_size :: u32
  sc_value_page_size :: u32
  sc_stage_stats :: "(string \<times> u32) list"

text \<open>
  The constructor computes the number of PIM tiles in double precision; the operands are integers
  below \<open>2^53\<close>, so the floor of the quotient is the integer quotient.  The conversion of a negative
  or a too large double to an unsigned integer is undefined.  The latencies of a GEMV are constants.
\<close>

definition floor_u32 :: "int \<Rightarrow> int \<Rightarrow> fault + u32" where
  "floor_u32 a b = (if b = 0 then Inl Undefined else
     let q = a div b in if q < 0 \<or> q \<ge> 2 ^ 32 then Inl Undefined else Inr (of_int q))"

definition gwrite_latency :: u32 where "gwrite_latency = 100"
definition gemv_latency :: u32 where "gemv_latency = 184"

definition Scheduler_new :: "env \<Rightarrow> model \<Rightarrow> graph \<Rightarrow> Stage \<Rightarrow> fault + scheduler" where
  "Scheduler_new e mo g junk =
     (let cfg = e_cfg e; ch = dram_channels cfg in
      if n_tp cfg = 0 \<or> model_n_head cfg = 0 \<or> precision cfg = 0 then Inl Undefined
      else
       let nh = model_n_head cfg div n_tp cfg; dk = model_n_embd cfg div model_n_head cfg; eff = nh * dk;
           page = dram_page_size cfg div precision cfg;
           model_weight = sint (model_params_b cfg * precision cfg div n_tp cfg);
           available_for_kv = sint ch - model_weight;
           pim_tile_size = sint (dram_page_size cfg * dram_banks_per_ch cfg)
       in bindE (floor_u32 (available_for_kv * 1024 * 1024 * 1024) pim_tile_size) (\<lambda>total.
          bindE (if ch = 0 then Inl Undefined else Inr (total div ch)) (\<lambda>per_channel.
          bindE (ceil_div eff page) (\<lambda>key_page.
          bindE (ceil_div eff (dram_banks_per_ch cfg)) (\<lambda>value_page.
          Inr \<lparr>sc_model = mo, sc_reqs = [], sc_graph = g, sc_program1 = None, sc_program2 = None, sc_tiles1 = [], sc_tiles2 = [],
               sc_finished = [], sc_active = [], sc_prev_stage = junk, sc_stage_changed = False, sc_cycles = 0,
               sc_request_queue = [], sc_completed = [], sc_active_queues = replicate (unat ch) [],
               sc_latency_queues = replicate (unat ch) [], sc_accum_latency = replicate (unat ch) 0,
               sc_max_batch_size = 1024, sc_max_active_reqs = 1024, sc_breq1 = [], sc_breq2 = [], sc_next_ch = 0,
               sc_nh = nh, sc_dk = dk, sc_effective_e = eff, sc_channels = ch, sc_page_size = page,
               sc_banks = dram_banks_per_ch cfg, sc_active_reqs = 0, sc_stage = Stage_A, sc_init_stage = Stage_A,
               sc_just_one_stage = False, sc_total_tiles = total, sc_total_available = total,
               sc_available = replicate (unat ch) per_channel, sc_key_period = dram_banks_per_ch cfg, sc_value_period = page,
               sc_key_page_size = key_page, sc_value_page_size = value_page, sc_stage_stats = []\<rparr>)))))"

subsection \<open>Channels and latencies\<close>

text \<open>
  \<open>ceil\<close> of a quotient of doubles, stored in an int.
\<close>

definition int_range :: "int \<Rightarrow> fault + int" where
  "int_range i = (if - (2 ^ 31) \<le> i \<and> i < 2 ^ 31 then Inr i else Inl Undefined)"

definition ceil_int :: "int \<Rightarrow> u32 \<Rightarrow> fault + int" where
  "ceil_int a b = (if b = 0 then Inl Undefined else int_range (- ((- a) div uint b)))"

text \<open>
  \<open>allocate_pim_tile\<close>: the channel of a request, \<open>None\<close> for \<open>-1\<close>.  The simulator does not call it
  any more: the data set names the channel.
\<close>

definition required_tiles :: "u32 \<Rightarrow> scheduler \<Rightarrow> fault + int" where
  "required_tiles seq_len s = bindE (ceil_int (uint seq_len) (sc_key_period s)) (\<lambda>key_pages.
     bindE (ceil_int (uint seq_len) (sc_value_period s)) (\<lambda>value_pages.
       int_range (sint (of_int key_pages * sc_key_page_size s) + sint (of_int value_pages * sc_value_page_size s))))"

fun laziest :: "int \<Rightarrow> (nat \<times> int) option \<Rightarrow> nat \<Rightarrow> (u32 \<times> u32) list \<Rightarrow> (nat \<times> int) option" where
  "laziest required best i [] = best"
| "laziest required best i ((available, latency) # chs) =
     laziest required
       (if sint available < required then best
        else if (case best of None \<Rightarrow> 2147483647 | Some (_, m) \<Rightarrow> m) > sint latency then Some (i, sint latency) else best)
       (Suc i) chs"

fun round_robin :: "int \<Rightarrow> nat \<Rightarrow> scheduler \<Rightarrow> fault + (nat option \<times> scheduler)" where
  "round_robin required 0 s = Inr (None, s)"
| "round_robin required (Suc trial) s = bindE (at (sc_available s) (unat (sc_next_ch s mod sc_channels s))) (\<lambda>av.
     if sint av \<ge> required then Inr (Some (unat (sc_next_ch s mod sc_channels s)), s)
     else round_robin required trial (s\<lparr>sc_next_ch := sc_next_ch s + 1\<rparr>))"

definition take_tiles :: "nat \<Rightarrow> int \<Rightarrow> scheduler \<Rightarrow> scheduler" where
  "take_tiles ch required s = s\<lparr>sc_available := (sc_available s)[ch := sc_available s ! ch - of_int required],
     sc_total_available := sc_total_available s - of_int required\<rparr>"

definition allocate_pim_tile :: "env \<Rightarrow> u32 \<Rightarrow> scheduler \<Rightarrow> fault + (nat option \<times> scheduler)" where
  "allocate_pim_tile e seq_len s = bindE (required_tiles seq_len s) (\<lambda>required.
     if ch_load_balancing (e_cfg e)
     then (case laziest required None 0 (zip (sc_available s) (sc_accum_latency s)) of
             None \<Rightarrow> Inr (None, s) | Some (ch, _) \<Rightarrow> Inr (Some ch, take_tiles ch required s))
     else if sc_channels s = 0 then Inl Undefined
     else bindE (at (sc_available s) (unat (sc_next_ch s mod sc_channels s))) (\<lambda>av.
       bindE (if sint av \<ge> required then Inr (Some (unat (sc_next_ch s mod sc_channels s)), s)
              else round_robin required (unat (sc_channels s)) s) (\<lambda>(ch, s). case ch of
         None \<Rightarrow> Inr (None, s)
       | Some ch \<Rightarrow> Inr (Some ch, (take_tiles ch required s)\<lparr>sc_next_ch := sc_next_ch s + 1\<rparr>))))"

text \<open>The sums and products are those of 32-bit unsigned integers: \<open>int\<close> operands are converted.\<close>

definition estimate_mha_latency :: "scheduler \<Rightarrow> InferRequest \<Rightarrow> fault + u32" where
  "estimate_mha_latency s request =
     (let seq_len = sint (input_size request) in
      bindE (ceil_int (uint (sc_effective_e s)) (sc_page_size s)) (\<lambda>chunks. bindE (ceil_int seq_len (sc_banks s)) (\<lambda>tiles.
      let latency = of_int chunks * gwrite_latency + of_int chunks * of_int tiles * gemv_latency in
      bindE (if sc_page_size s = 0 then Inl Undefined
             else int_range (- ((- seq_len) div uint (sc_page_size s)) * uint (sc_nh s))) (\<lambda>chunks.
      bindE (ceil_int (uint (sc_dk s)) (sc_banks s)) (\<lambda>tiles.
        Inr (latency + of_int chunks * gwrite_latency + of_int chunks * of_int tiles * gemv_latency))))))"

subsection \<open>Accepting requests\<close>

text \<open>
  \<open>allocate_requests\<close>: the loop over the request queue; \<open>None\<close> in the state marks the \<open>break\<close>.
  \<open>batch_size\<close> counts the requests of the batch, also those that were accepted earlier.
\<close>

definition upd_req :: "nat \<Rightarrow> (InferRequest \<Rightarrow> InferRequest) \<Rightarrow> scheduler \<Rightarrow> scheduler" where
  "upd_req r f s = s\<lparr>sc_reqs := (sc_reqs s)[r := f (sc_reqs s ! r)]\<rparr>"

definition initiate_request :: "env \<Rightarrow> nat \<Rightarrow> scheduler \<Rightarrow> fault + scheduler" where
  "initiate_request e r s = bindE (at (sc_reqs s) r) (\<lambda>request.
     let ch = ir_channel request; seq_len = input_size request; cfg = e_cfg e;
         cache_name = (\<lambda>kind. dotted [show_nat (unat (ir_id request)), kind, show_nat 0]);
         s = s\<lparr>sc_active_reqs := sc_active_reqs s + 1\<rparr>
     in bindE (PIMTensor_new cfg (cache_name ''KEY'') ch [sc_nh s, sc_dk s, seq_len] KEY True (g_mem (sc_graph s))) (\<lambda>(k, ms).
        bindE (PIMTensor_new cfg (cache_name ''VALUE'') ch [sc_nh s, seq_len, sc_dk s] VALUE True ms) (\<lambda>(v, ms).
        bindE (at (sc_active_queues s) (unat ch)) (\<lambda>queue. bindE (at (sc_latency_queues s) (unat ch)) (\<lambda>latencies.
        bindE (at (sc_accum_latency s) (unat ch)) (\<lambda>accum. bindE (estimate_mha_latency s request) (\<lambda>mha_latency.
          Inr (upd_req r (\<lambda>q. q\<lparr>K_cache := K_cache q @ [k], V_cache := V_cache q @ [v], is_initiated := True\<rparr>)
                 (s\<lparr>sc_graph := (sc_graph s)\<lparr>g_mem := ms\<rparr>,
                    sc_active_queues := (sc_active_queues s)[unat ch := queue @ [r]],
                    sc_latency_queues := (sc_latency_queues s)[unat ch := latencies @ [mha_latency]],
                    sc_accum_latency := (sc_accum_latency s)[unat ch := accum + mha_latency]\<rparr>)))))))))"

definition allocate_step :: "env \<Rightarrow> u32 option \<times> scheduler \<Rightarrow> nat \<Rightarrow> fault + (u32 option \<times> scheduler)" where
  "allocate_step e = (\<lambda>(batch_size, s) r. case batch_size of None \<Rightarrow> Inr (None, s)
     | Some n \<Rightarrow>
         if n = sc_max_batch_size s then Inr (None, s)
         else bindE (at (sc_reqs s) r) (\<lambda>request. ast (output_size request > generated request)
           (if is_initiated request then Inr (Some (n + 1), s)
            else ast (ir_channel request < sc_channels s)
              (if ir_channel request = - 1 then Inr (Some n, s)
               else if sc_active_reqs s \<ge> sc_max_active_reqs s then Inr (Some n, s)
               else bindE (initiate_request e r s) (\<lambda>s. Inr (Some (n + 1), s))))))"

definition allocate_requests :: "env \<Rightarrow> scheduler \<Rightarrow> fault + scheduler" where
  "allocate_requests e s = bindE (foldE (allocate_step e) (Some 0, s) (sc_request_queue s)) (\<lambda>(_, s). Inr s)"

text \<open>
  \<open>group_sub_batches\<close>: without sub-batches all requests go into the first batch; otherwise the
  requests of each channel are halved, the odd one going to the two batches in turn, or partitioned
  by latency.
\<close>

definition group_channel :: "env \<Rightarrow> scheduler \<Rightarrow> bool \<times> nat list \<times> nat list \<Rightarrow> nat \<Rightarrow> fault + (bool \<times> nat list \<times> nat list)" where
  "group_channel e s = (\<lambda>(ceil_turn, b1, b2) ch.
     bindE (at (sc_active_queues s) ch) (\<lambda>queue. bindE (at (sc_latency_queues s) ch) (\<lambda>latencies.
      ast (length queue = length latencies)
       (if partition_alg_simple (e_cfg e)
        then let n = length queue; odd_n = (n mod 2 \<noteq> 0); size1 = (if odd_n \<and> ceil_turn then (n + 1) div 2 else n div 2)
             in Inr (if odd_n then \<not> ceil_turn else ceil_turn, b1 @ take size1 queue, b2 @ drop size1 queue)
        else bindE (partition_lists_dp latencies) (\<lambda>(list1, list2).
               Inr (ceil_turn, b1 @ map ((!) queue) list1, b2 @ map ((!) queue) list2))))))"

definition group_sub_batches :: "env \<Rightarrow> scheduler \<Rightarrow> fault + scheduler" where
  "group_sub_batches e s =
     (if \<not> sub_batch_mode (e_cfg e)
      then bindE (foldE (\<lambda>b ch. bindE (at (sc_active_queues s) ch) (\<lambda>queue. Inr (b @ queue))) (sc_breq1 s) [0..<unat (sc_channels s)])
             (\<lambda>b1. Inr (s\<lparr>sc_breq1 := b1\<rparr>))
      else bindE (foldE (group_channel e s) (True, sc_breq1 s, sc_breq2 s) [0..<unat (sc_channels s)])
             (\<lambda>(_, b1, b2). Inr (s\<lparr>sc_breq1 := b1, sc_breq2 := b2\<rparr>)))"

definition init_batches :: "env \<Rightarrow> scheduler \<Rightarrow> fault + scheduler" where
  "init_batches e s = bindE (allocate_requests e s) (group_sub_batches e)"

definition add_request :: "nat \<Rightarrow> scheduler \<Rightarrow> scheduler" where
  "add_request r s = s\<lparr>sc_request_queue := sc_request_queue s @ [r]\<rparr>"

definition has_completed_request :: "scheduler \<Rightarrow> bool" where
  "has_completed_request s \<longleftrightarrow> sc_completed s \<noteq> []"

definition pop_completed_request :: "scheduler \<Rightarrow> fault + (nat \<times> scheduler)" where
  "pop_completed_request s = bindE (front (sc_completed s)) (\<lambda>r. Inr (r, s\<lparr>sc_completed := tl (sc_completed s)\<rparr>))"

definition sc_running :: "scheduler \<Rightarrow> bool" where
  "sc_running s \<longleftrightarrow> sc_request_queue s \<noteq> [] \<or> sc_completed s \<noteq> []"

subsection \<open>The two programs\<close>

text \<open>
  The functions for the systolic array (\<open>_model_program1\<close>) and the memory (\<open>_model_program2\<close>) differ
  only in the program and the tile queue they work on.
\<close>

definition program :: "StagePlatform \<Rightarrow> scheduler \<Rightarrow> stage_program option" where
  "program p s = (if p = SA then sc_program1 s else sc_program2 s)"

definition set_program :: "StagePlatform \<Rightarrow> stage_program option \<Rightarrow> scheduler \<Rightarrow> scheduler" where
  "set_program p sp s = (if p = SA then s\<lparr>sc_program1 := sp\<rparr> else s\<lparr>sc_program2 := sp\<rparr>)"

definition tiles :: "StagePlatform \<Rightarrow> scheduler \<Rightarrow> Tile list" where
  "tiles p s = (if p = SA then sc_tiles1 s else sc_tiles2 s)"

definition set_tiles :: "StagePlatform \<Rightarrow> Tile list \<Rightarrow> scheduler \<Rightarrow> scheduler" where
  "set_tiles p ts s = (if p = SA then s\<lparr>sc_tiles1 := ts\<rparr> else s\<lparr>sc_tiles2 := ts\<rparr>)"

definition empty1 :: "scheduler \<Rightarrow> bool" where "empty1 s \<longleftrightarrow> sc_program1 s = None"
definition empty2 :: "scheduler \<Rightarrow> bool" where "empty2 s \<longleftrightarrow> sc_program2 s = None"

text \<open>The next stage; the enumeration is counted up, and \<open>Finish\<close> has no successor.\<close>

fun next_stage :: "Stage \<Rightarrow> fault + Stage" where
  "next_stage Stage_A = Inr Stage_B"
| "next_stage Stage_B = Inr Stage_C"
| "next_stage Stage_C = Inr Stage_D"
| "next_stage Stage_D = Inr Stage_E"
| "next_stage Stage_E = Inr Stage_F"
| "next_stage Stage_F = Inr Stage_Finish"
| "next_stage Stage_Finish = Inl Undefined"

definition refresh_stage :: "env \<Rightarrow> scheduler \<Rightarrow> fault + scheduler" where
  "refresh_stage e s =
     (if sc_program1 s = None \<and> sc_program2 s = None
      then bindE (next_stage (sc_stage s)) (\<lambda>st.
        let st = (if \<not> sub_batch_mode (e_cfg e) \<and> st = Stage_C then Stage_E else st);
            st = (if \<not> sub_batch_mode (e_cfg e) \<and> st = Stage_F then Stage_Finish else st);
            st = (if sc_just_one_stage s then Stage_Finish else st)
        in Inr (s\<lparr>sc_stage_stats := sc_stage_stats s @ [(stageToString (sc_stage s), sc_cycles s)],
                  sc_prev_stage := sc_stage s, sc_stage := st, sc_stage_changed := True\<rparr>))
      else Inr s)"

definition finish_program :: "env \<Rightarrow> StagePlatform \<Rightarrow> scheduler \<Rightarrow> fault + scheduler" where
  "finish_program e p s = refresh_stage e (set_program p None s)"

definition count_active_operations :: "scheduler \<Rightarrow> u32" where
  "count_active_operations s = of_nat (length (sc_active s))"

text \<open>
  A program that is finished is dropped.  Otherwise, when all tiles of the current operation are
  handed out, the first executable operation is started, unless it is the current one.
\<close>

definition start_operation :: "cycle_type \<Rightarrow> StagePlatform \<Rightarrow> stage_program \<Rightarrow> scheduler \<Rightarrow> fault + scheduler" where
  "start_operation now p sp s =
     bindE (front (sp_executable sp)) (\<lambda>oi. bindE (get_op oi (sc_graph s)) (\<lambda>oper.
       if count_active_operations s \<noteq> 0 \<and> map_of (sc_active s) (op_id oper) \<noteq> None then Inr s
       else ast (op_tiles oper \<noteq> [])
         (let n = of_nat (length (op_tiles oper))
          in Inr ((set_tiles p (op_tiles oper) s)\<lparr>sc_active := AList.update (op_id oper)
               \<lparr>ro_id = op_id oper, ro_request_id = 0, ro_name = op_name oper, ro_start_cycle = now, ro_total_tiles = n, ro_remain_tiles = n,
                ro_launched_tiles = 0\<rparr> (sc_active s)\<rparr>))))"

definition drop_finished :: "env \<Rightarrow> StagePlatform \<Rightarrow> scheduler \<Rightarrow> fault + scheduler" where
  "drop_finished e p s = (case program p s of None \<Rightarrow> Inr s
     | Some sp \<Rightarrow> bindE (sp_check_finish (sp, sc_graph s)) (\<lambda>fin. if fin then finish_program e p s else Inr s))"

definition refresh_status :: "env \<Rightarrow> cycle_type \<Rightarrow> StagePlatform \<Rightarrow> scheduler \<Rightarrow> fault + scheduler" where
  "refresh_status e now p s = bindE (drop_finished e p s) (\<lambda>s.
     case program p s of None \<Rightarrow> Inr s
     | Some sp \<Rightarrow> if tiles p s = [] then start_operation now p sp s else Inr s)"

definition refresh_status1 :: "env \<Rightarrow> cycle_type \<Rightarrow> scheduler \<Rightarrow> fault + scheduler" where
  "refresh_status1 e now = refresh_status e now SA"

definition refresh_status2 :: "env \<Rightarrow> cycle_type \<Rightarrow> scheduler \<Rightarrow> fault + scheduler" where
  "refresh_status2 e now = refresh_status e now PIM"

text \<open>The sub-batch on the systolic array in a stage, and the one in the memory.\<close>

fun stage_index :: "Stage \<Rightarrow> nat" where
  "stage_index Stage_A = 0"
| "stage_index Stage_B = 1"
| "stage_index Stage_C = 2"
| "stage_index Stage_D = 3"
| "stage_index Stage_E = 4"
| "stage_index Stage_F = 5"
| "stage_index Stage_Finish = 6"

definition batch_on :: "StagePlatform \<Rightarrow> scheduler \<Rightarrow> batched_request" where
  "batch_on p s = (if even (stage_index (sc_stage s)) = (p = SA) then sc_breq1 s else sc_breq2 s)"

definition build_program :: "env \<Rightarrow> StagePlatform \<Rightarrow> scheduler \<Rightarrow> scheduler run" where
  "build_program e p s = bindR (StageProgram_new e (sc_model s) (sc_reqs s) (batch_on p s) p (sc_stage s) (sc_graph s)) (\<lambda>(sp, g).
     Some (Inr (set_program p (Some sp) (s\<lparr>sc_graph := g\<rparr>))))"

definition make_program :: "env \<Rightarrow> cycle_type \<Rightarrow> scheduler \<Rightarrow> scheduler run" where
  "make_program e now s = bindR (build_program e SA s) (\<lambda>s. bindR (build_program e PIM s) (\<lambda>s.
     Some (bindE (refresh_status1 e now s) (refresh_status2 e now))))"

text \<open>
  The end of a batch.  \<open>clear_child_nodes\<close> on the caches has no effect on the model, whose graph
  holds copies of them.
\<close>

definition cleanup_request :: "scheduler \<Rightarrow> nat \<Rightarrow> fault + scheduler" where
  "cleanup_request s r = bindE (at (sc_reqs s) r) (\<lambda>request.
     if K_cache request = [] \<or> V_cache request = [] then Inl Undefined
     else let s = upd_req r (\<lambda>q. q\<lparr>is_initiated := True, generated := generated q + 1\<rparr>) s
          in if output_size request = generated request + 1
             then bindE (foldE (\<lambda>(kept, n) c. bindE (at (sc_reqs s) c) (\<lambda>cur.
                           Inr (if ir_id cur = ir_id request then (kept, n - 1) else (kept @ [c], n))))
                         ([], sc_active_reqs s) (sc_request_queue s))
                    (\<lambda>(queue, n). Inr (s\<lparr>sc_completed := sc_completed s @ [r], sc_request_queue := queue, sc_active_reqs := n\<rparr>))
             else Inr s)"

definition cleanup_sub_batch :: "nat list \<Rightarrow> scheduler \<Rightarrow> fault + scheduler" where
  "cleanup_sub_batch b s = foldE cleanup_request s b"

definition end_batches :: "scheduler \<Rightarrow> fault + scheduler" where
  "end_batches s = bindE (cleanup_sub_batch (sc_breq1 s) s) (\<lambda>s. bindE (cleanup_sub_batch (sc_breq2 s) s) (\<lambda>s.
     Inr (s\<lparr>sc_breq1 := [], sc_breq2 := []\<rparr>)))"

definition may_make_program :: "env \<Rightarrow> scheduler \<Rightarrow> bool" where
  "may_make_program e s \<longleftrightarrow> sc_program1 s = None \<and> sc_program2 s = None \<and>
     (if sub_batch_mode (e_cfg e) then sc_breq1 s \<noteq> [] \<and> sc_breq2 s \<noteq> [] else sc_breq2 s \<noteq> [] \<or> sc_breq1 s \<noteq> [])"

definition Scheduler_cycle :: "env \<Rightarrow> cycle_type \<Rightarrow> scheduler \<Rightarrow> scheduler run" where
  "Scheduler_cycle e now s =
     bindR (Some (if sc_program1 s = None \<and> sc_program2 s = None \<and> sc_stage s = sc_init_stage s \<and> sc_request_queue s \<noteq> []
                  then init_batches e s else Inr s)) (\<lambda>s.
       let s = s\<lparr>sc_cycles := sc_cycles s + 1\<rparr>
       in if \<not> may_make_program e s then Some (Inr s)
          else if sc_stage s = Stage_Finish then Some (end_batches s)
          else make_program e now s)"

text \<open>The two subclasses: \<open>NeuPIMScheduler\<close> asserts that it is not used.\<close>

definition OrcaScheduler_cycle :: "env \<Rightarrow> cycle_type \<Rightarrow> scheduler \<Rightarrow> scheduler run" where
  "OrcaScheduler_cycle = Scheduler_cycle"

definition NeuPIMScheduler_cycle :: "env \<Rightarrow> cycle_type \<Rightarrow> scheduler \<Rightarrow> scheduler run" where
  "NeuPIMScheduler_cycle e now s = Some (Inl AssertFailed)"

subsection \<open>Handing out tiles\<close>

text \<open>
  \<open>top_tile\<close> returns a reference to the tile at the head of the queue, after writing the platform
  into it, or to an empty tile.
\<close>

definition empty_tile :: Tile where
  "empty_tile = Tile0\<lparr>tl_status := EMPTY\<rparr>"

definition top_tile :: "StagePlatform \<Rightarrow> scheduler \<Rightarrow> Tile \<times> scheduler" where
  "top_tile p s = (case tiles p s of [] \<Rightarrow> (empty_tile, s)
     | t # ts \<Rightarrow> if tl_status t = TILE_BAR then (empty_tile, s)
                else let t = t\<lparr>tl_stage_platform := p\<rparr> in (t, set_tiles p (t # ts) s))"

definition top_tile1 :: "scheduler \<Rightarrow> Tile \<times> scheduler" where "top_tile1 = top_tile SA"
definition top_tile2 :: "scheduler \<Rightarrow> Tile \<times> scheduler" where "top_tile2 = top_tile PIM"

text \<open>
  A barrier is popped when the tiles before it are done; the code then reads the tile through its
  dangling reference.  \<open>operator[]\<close> enters a missing entry.
\<close>

definition stat_entry :: "u32 \<Rightarrow> op_stats \<Rightarrow> RunningOperationStat \<times> op_stats" where
  "stat_entry i m = (case map_of m i of Some st \<Rightarrow> (st, m)
     | None \<Rightarrow> (RunningOperationStat0, AList.update i RunningOperationStat0 m))"

definition get_tile :: "StagePlatform \<Rightarrow> scheduler \<Rightarrow> fault + scheduler" where
  "get_tile p s = (case tiles p s of [] \<Rightarrow> Inr s
     | t # ts \<Rightarrow>
         if tl_status t = TILE_BAR
         then let (st, m) = stat_entry (tl_operation_id t) (sc_finished s)
              in if ro_launched_tiles st + ro_remain_tiles st = ro_total_tiles st then Inl Undefined
                 else Inr (s\<lparr>sc_finished := m\<rparr>)
         else let (st, m) = stat_entry (tl_operation_id t) (sc_active s)
              in Inr (set_tiles p ts (s\<lparr>sc_active := AList.update (tl_operation_id t)
                   (st\<lparr>ro_launched_tiles := ro_launched_tiles st + 1\<rparr>) m\<rparr>)))"

definition get_tile1 :: "scheduler \<Rightarrow> fault + scheduler" where "get_tile1 = get_tile SA"
definition get_tile2 :: "scheduler \<Rightarrow> fault + scheduler" where "get_tile2 = get_tile PIM"

text \<open>The end of a tile: of the operation, too, if it was its last one.\<close>

definition on_program :: "StagePlatform \<Rightarrow> (stage_program \<times> graph \<Rightarrow> fault + (stage_program \<times> graph)) \<Rightarrow> scheduler \<Rightarrow>
    fault + scheduler" where
  "on_program p f s = (case program p s of None \<Rightarrow> Inl Undefined
     | Some sp \<Rightarrow> bindE (f (sp, sc_graph s)) (\<lambda>(sp, g). Inr (set_program p (Some sp) (s\<lparr>sc_graph := g\<rparr>))))"

definition tile_unit :: "Tile \<Rightarrow> StagePlatform" where
  "tile_unit tile = (if tl_stage_platform tile = SA then SA else PIM)"

definition end_tile :: "Tile \<Rightarrow> scheduler \<Rightarrow> fault + (bool \<times> scheduler)" where
  "end_tile tile s = (let i = tl_operation_id tile; p = tile_unit tile in
     case map_of (sc_active s) i of None \<Rightarrow> Inl AssertFailed
     | Some st \<Rightarrow> ast (map_of (sc_finished s) i = None) (ast (ro_remain_tiles st > 0)
        (let st = st\<lparr>ro_remain_tiles := ro_remain_tiles st - 1\<rparr>;
             s = s\<lparr>sc_active := AList.update i st (sc_active s)\<rparr>
         in bindE (on_program p (finish_operation_tile tile) s) (\<lambda>s.
            if ro_remain_tiles st = 0
            then bindE (on_program p (finish_operation i) s) (\<lambda>s.
              Inr (True, s\<lparr>sc_finished := AList.update i st (sc_finished s), sc_active := AList.delete i (sc_active s)\<rparr>))
            else Inr (False, s)))))"

definition finish_tile :: "env \<Rightarrow> cycle_type \<Rightarrow> Tile \<Rightarrow> scheduler \<Rightarrow> fault + (bool \<times> scheduler)" where
  "finish_tile e now tile s = bindE (end_tile tile s) (\<lambda>(result, s).
     bindE (if tile_unit tile = SA then refresh_status1 e now s else refresh_status2 e now s) (\<lambda>s. Inr (result, s)))"

end
