(* ===== verification/SchedulerRun.thy ===== *)
theory SchedulerRun
  imports Scheduler "HOL-Library.Sublist"
begin

text \<open>
  The scheduler as a machine: what its operations do to the programs and to the stage, the steps the
  simulator makes with it, and the pipeline of jobs that the stages implement.
\<close>

subsection \<open>What a program is for\<close>

definition sp_info :: "stage_program \<Rightarrow> batched_request \<times> StagePlatform \<times> Stage" where
  "sp_info sp = (sp_breq sp, sp_platform sp, sp_stage sp)"

lemma add_op_info [simp]: "sp_info (add_op oi sp) = sp_info sp"
  by (simp add: add_op_def sp_info_def)

lemma sp_executable_info [simp]: "sp_info (sp\<lparr>sp_executable := ex\<rparr>) = sp_info sp"
  by (simp add: sp_info_def)

lemma with_op_info: "with_op new f inputs s = Some (Inr (os, s')) \<Longrightarrow> sp_info (fst s') = sp_info (fst s)"
  by (cases s) (auto simp: with_op_def)

lemma layer_norm_info: "layer_norm e name ws inputs s = Some (Inr (os, s')) \<Longrightarrow> sp_info (fst s') = sp_info (fst s)"
  by (cases s) (auto simp: layer_norm_def)

lemma block_ops_info:
  "mat_mul e name ws inputs s = Some (Inr (os, s')) \<Longrightarrow> sp_info (fst s') = sp_info (fst s)"
  "add_residual e name inputs s = Some (Inr (os, s')) \<Longrightarrow> sp_info (fst s') = sp_info (fst s)"
  "gelu_op e name inputs s = Some (Inr (os, s')) \<Longrightarrow> sp_info (fst s') = sp_info (fst s)"
  "logit_softmax e name inputs s = Some (Inr (os, s')) \<Longrightarrow> sp_info (fst s') = sp_info (fst s)"
  "attend e name inputs s = Some (Inr (os, s')) \<Longrightarrow> sp_info (fst s') = sp_info (fst s)"
  unfolding mat_mul_def add_residual_def gelu_op_def logit_softmax_def attend_def by (rule with_op_info, assumption)+

lemmas op_infos = block_ops_info layer_norm_info

lemma projection_block_info: "projection_block e mo n inputs s = Some (Inr (os, s')) \<Longrightarrow> sp_info (fst s') = sp_info (fst s)"
  by (cases s) (auto simp: projection_block_def Let_def dest!: op_infos)

lemma ffn1_block_info: "ffn1_block e mo inputs s = Some (Inr (os, s')) \<Longrightarrow> sp_info (fst s') = sp_info (fst s)"
  by (auto simp: ffn1_block_def Let_def dest!: op_infos)

lemma qkv_gen_block_info: "qkv_gen_block e mo inputs s = Some (Inr (os, s')) \<Longrightarrow> sp_info (fst s') = sp_info (fst s)"
  by (auto simp: qkv_gen_block_def Let_def dest!: op_infos)

lemma find_executable_node_info: "find_executable_node ti s = Inr s' \<Longrightarrow> sp_info (fst s') = sp_info (fst s)"
proof -
  assume f: "find_executable_node ti s = Inr s'"
  obtain sp g where s: "s = (sp, g)" by (cases s)
  from f obtain t sp' where "foldE (\<lambda>sp oi. bindE (check_executable oi g) (\<lambda>ok.
      Inr (if ok then sp\<lparr>sp_executable := sp_executable sp @ [oi]\<rparr> else sp))) sp (tensor_children t) = Inr sp'" "s' = (sp', g)"
    by (auto simp: find_executable_node_def s)
  then show ?thesis by (auto simp: s dest!: foldE_io [where p = sp_info])
qed

lemma StageProgram_new_info:
  assumes "StageProgram_new e mo reqs b p stg g = Some (Inr (sp, g'))"
  shows "sp_info sp = (b, p, stg) \<and> stg \<noteq> Stage_Finish"
proof -
  let ?sp = "\<lparr>sp_name = stagePlatformToString p @ ''_stage_'' @ stageToString stg, sp_breq = b, sp_platform = p,
    sp_stage = stg, sp_op_map = [], sp_executable = []\<rparr>"
  have i: "init_program e mo reqs (?sp, g) = Some (Inr (sp, g'))" using assms by (simp add: StageProgram_new_def)
  have pim: "sp_info sp = sp_info ?sp" if "init_PIM_program e reqs (?sp, g) = Some (Inr (sp, g'))"
    using that by (auto simp: init_PIM_program_def Let_def split: if_splits dest!: op_infos find_executable_node_info)
  have sa: "sp_info sp = sp_info ?sp" if "init_SA_program e mo reqs (?sp, g) = Some (Inr (sp, g'))"
    using that by (auto simp: init_SA_program_def Let_def split: if_splits
        dest!: projection_block_info ffn1_block_info qkv_gen_block_info find_executable_node_info)
  have "sp_info sp = sp_info ?sp" using i pim sa by (auto simp: init_program_def split: if_splits StagePlatform.splits)
  moreover have "stg \<noteq> Stage_Finish" using i by (auto simp: init_program_def)
  ultimately show ?thesis by (simp add: sp_info_def)
qed

lemma finish_operation_info: "finish_operation i s = Inr s' \<Longrightarrow> sp_info (fst s') = sp_info (fst s)"
proof -
  assume f: "finish_operation i s = Inr s'"
  obtain sp g where s: "s = (sp, g)" by (cases s)
  have "notify_child x oi = Inr y \<Longrightarrow> sp_info (fst y) = sp_info (fst x)" for x oi y
    by (cases x) (auto simp: notify_child_def split: if_splits)
  with f show ?thesis by (auto simp: finish_operation_def s Let_def dest!: foldE_io [where p = "\<lambda>x. sp_info (fst x)"])
qed

lemma finish_operation_tile_info: "finish_operation_tile t s = Inr s' \<Longrightarrow> fst s' = fst s"
  by (cases s) (auto simp: finish_operation_tile_def)

subsection \<open>The operations of a program\<close>

definition op_names :: "graph \<Rightarrow> string list" where
  "op_names g = map op_name (g_ops g)"

text \<open>The program and the graph have grown by operations of these names.\<close>

definition grows :: "string list \<Rightarrow> stage_program \<times> graph \<Rightarrow> stage_program \<times> graph \<Rightarrow> bool" where
  "grows names s s' \<longleftrightarrow> op_names (snd s') = op_names (snd s) @ names \<and>
     sp_op_map (fst s') = sp_op_map (fst s) @ [length (g_ops (snd s))..<length (g_ops (snd s'))]"

lemma op_names_length: "op_names g' = op_names g @ names \<Longrightarrow> length (g_ops g') = length (g_ops g) + length names"
  unfolding op_names_def by (metis length_append length_map)

lemma grows_trans: "grows ns s s1 \<Longrightarrow> grows ms s1 s2 \<Longrightarrow> grows (ns @ ms) s s2"
proof -
  assume g: "grows ns s s1" "grows ms s1 s2"
  then have "length (g_ops (snd s)) \<le> length (g_ops (snd s1))" "length (g_ops (snd s1)) \<le> length (g_ops (snd s2))"
    using op_names_length unfolding grows_def by (metis le_add1)+
  then have "[length (g_ops (snd s))..<length (g_ops (snd s1))] @ [length (g_ops (snd s1))..<length (g_ops (snd s2))] =
      [length (g_ops (snd s))..<length (g_ops (snd s2))]"
    by (metis le_add_diff_inverse upt_add_eq_append)
  then show ?thesis using g unfolding grows_def by (metis append_assoc)
qed

lemma Operation_new_names: "Operation_new name ins g = (oi, g') \<Longrightarrow> op_names g' = op_names g @ [name]"
  by (auto simp: Operation_new_def op_names_def split: prod.splits)

lemma map_update_same: "f x = f (xs ! i) \<Longrightarrow> map f (xs[i := x]) = map f xs"
  by (induction xs arbitrary: i) (auto split: nat.splits)

lemma upd_op_names: "upd_op oi f g = Inr g' \<Longrightarrow> (\<And>oper. op_name (f oper) = op_name oper) \<Longrightarrow> op_names g' = op_names g"
  by (simp add: upd_op_Inr op_names_def map_update_same)

lemma outputs_made_names: "outputs_made oi inputs wi os g g' \<Longrightarrow> op_names g' = op_names g"
  unfolding outputs_made_def op_names_def by (elim conjE exE) (simp add: map_update_same)

lemma add_op_grows:
  assumes "op_names g1 = op_names g @ [name]" "outputs_made (length (g_ops g)) inputs wi os g1 g2"
  shows "grows [name] (sp, g) (add_op (length (g_ops g)) sp, g2)"
proof -
  have n: "op_names g2 = op_names g @ [name]" using outputs_made_names [OF assms(2)] assms(1) by simp
  then show ?thesis using op_names_length [OF n] by (simp add: grows_def add_op_def)
qed

lemma with_op_grows:
  assumes "with_op new f inputs s = Some (Inr (os, s'))"
    and "\<And>g oi g1. new g = Inr (oi, g1) \<Longrightarrow> oi = length (g_ops g) \<and> op_names g1 = op_names g @ [name]"
    and "\<And>oi g1 os g2. f oi inputs g1 = Some (Inr (os, g2)) \<Longrightarrow> \<exists>wi. outputs_made oi inputs wi os g1 g2"
  shows "grows [name] s s'"
proof -
  obtain sp g where s: "s = (sp, g)" by (cases s)
  obtain oi g1 g2 where n: "new g = Inr (oi, g1)" "f oi inputs g1 = Some (Inr (os, g2))" "s' = (add_op oi sp, g2)"
    using assms(1) by (auto simp: s with_op_Inr)
  then show ?thesis using assms(2) [OF n(1)] assms(3) [OF n(2)] add_op_grows by (auto simp: s)
qed

lemma Operation_new_at: "Operation_new name ins g = (oi, g') \<Longrightarrow> oi = length (g_ops g)"
  by (auto simp: Operation_new_def split: prod.splits)

lemma block_ops_grow:
  "mat_mul e name ws inputs s = Some (Inr (os, s')) \<Longrightarrow> grows [name] s s'"
  "add_residual e name inputs s = Some (Inr (os, s')) \<Longrightarrow> grows [name] s s'"
  "gelu_op e name inputs s = Some (Inr (os, s')) \<Longrightarrow> grows [name] s s'"
  "logit_softmax e name inputs s = Some (Inr (os, s')) \<Longrightarrow> grows [name] s s'"
  "attend e name inputs s = Some (Inr (os, s')) \<Longrightarrow> grows [name] s s'"
  unfolding mat_mul_def add_residual_def gelu_op_def logit_softmax_def attend_def
  by (erule with_op_grows; force simp: MatMul_new_def Add_new_def Gelu_new_def NeuPIMSLogitSoftmax_new_def NeuPIMSAttend_new_def
      dest: Operation_new_names Operation_new_at MatMul_outputs_made Add_outputs_made Gelu_outputs_made
        LogitSoftmax_outputs_made Attend_outputs_made split: if_splits)+

lemma layer_norm_grows: "layer_norm e name ws inputs s = Some (Inr (os, s')) \<Longrightarrow> grows [name] s s'"
proof -
  assume l: "layer_norm e name ws inputs s = Some (Inr (os, s'))"
  obtain sp g where s: "s = (sp, g)" by (cases s)
  obtain oi wd g1 g2 where n: "LayerNorm_new name ws g = Inr (oi, wd, g1)" "LayerNorm_get_outputs e oi wd inputs g1 = Some (Inr (os, g2))"
    "s' = (add_op oi sp, g2)" using l by (auto simp: s layer_norm_def)
  obtain g0 where o: "Operation_new name [] g = (oi, g0)" "set_inputs oi (None # ws) g0 = Inr g1"
    using n(1) by (auto simp: LayerNorm_new_def split: prod.splits if_splits)
  have "op_names g1 = op_names g @ [name]"
    using Operation_new_names [OF o(1)] upd_op_names [OF o(2) [unfolded set_inputs_def]] by simp
  then show ?thesis using add_op_grows LayerNorm_outputs_made [OF n(2)] Operation_new_at [OF o(1)] by (auto simp: s n(3))
qed

lemmas ops_grow = block_ops_grow layer_norm_grows

subsection \<open>The jobs of a layer\<close>

text \<open>
  The work on a layer is three jobs, in this order; the first and the last are for the systolic array,
  the attention is for the memory.  Each job is a list of operations.
\<close>

datatype job = QKV_gen | Attention | Proj_FFN

fun unit_of :: "job \<Rightarrow> StagePlatform" where
  "unit_of QKV_gen = SA"
| "unit_of Attention = PIM"
| "unit_of Proj_FFN = SA"

fun job_ops :: "job \<Rightarrow> string list" where
  "job_ops QKV_gen = [''layer0.attn.ln'', ''layer0.attn.QKVgen'']"
| "job_ops Attention = [''layer0.attn.NeuPIMSLogitSoftmax'', ''layer0.attn.NeuPIMSAttend'']"
| "job_ops Proj_FFN = [''layer0.attn.proj'', ''layer0.attn.res'', ''layer0.ffn.ln'', ''layer0.ffn.fc1'', ''layer0.ffn.gelu'',
     ''layer0.ffn.fc2'', ''layer0.ffn.res'']"

definition ops_of :: "job list \<Rightarrow> string list" where
  "ops_of js = concat (map job_ops js)"

definition layers :: "nat \<Rightarrow> job list" where
  "layers n = concat (replicate n [QKV_gen, Attention, Proj_FFN])"

text \<open>The jobs of a unit in a stage, and the operations of the program that is built for it.\<close>

definition stage_jobs :: "StagePlatform \<Rightarrow> Stage \<Rightarrow> job list" where
  "stage_jobs p st = (if p = SA then (if enable_proj_ffns st then [Proj_FFN] else []) @ (if enable_qkv_gen st then [QKV_gen] else [])
     else if skip_pim_stage st then [] else [Attention])"

lemma op_name_simps:
  "dotted [dotted [LAYER 0, ''attn''], ''ln''] = ''layer0.attn.ln''" "dotted [dotted [LAYER 0, ''attn''], ''QKVgen''] = ''layer0.attn.QKVgen''"
  "dotted [dotted [LAYER 0, ''attn''], ''proj''] = ''layer0.attn.proj''" "dotted [dotted [LAYER 0, ''attn''], ''res''] = ''layer0.attn.res''"
  "dotted [dotted [LAYER 0, ''ffn''], ''ln''] = ''layer0.ffn.ln''" "dotted [dotted [LAYER 0, ''ffn''], ''fc1''] = ''layer0.ffn.fc1''"
  "dotted [dotted [LAYER 0, ''ffn''], ''gelu''] = ''layer0.ffn.gelu''" "dotted [dotted [LAYER 0, ''ffn''], ''fc2''] = ''layer0.ffn.fc2''"
  "dotted [dotted [LAYER 0, ''ffn''], ''res''] = ''layer0.ffn.res''"
  "dotted [LAYER 0, ''attn'', ''NeuPIMSLogitSoftmax''] = ''layer0.attn.NeuPIMSLogitSoftmax''"
  "dotted [LAYER 0, ''attn'', ''NeuPIMSAttend''] = ''layer0.attn.NeuPIMSAttend''"
  by code_simp+

lemma grows_new_act:
  "new_act_tensor e name dims pr g = Inr (ti, g') \<Longrightarrow> grows ns (sp, g') s \<Longrightarrow> grows ns (sp, g) s"
  by (auto simp: grows_def op_names_def dest: new_act_tensor_extends)

lemma projection_block_grows:
  assumes "projection_block e mo n inputs s = Some (Inr (os, s'))"
  shows "grows [''layer0.attn.proj'', ''layer0.attn.res''] s s'"
proof -
  obtain sp g where s: "s = (sp, g)" by (cases s)
  obtain rb g1 ins s1 where p: "new_act_tensor e ''residual_buffer'' [n, model_n_embd (e_cfg e)] True g = Inr (rb, g1)"
    "mat_mul e ''layer0.attn.proj'' (get_params mo 0 ''attn'' ''proj'') inputs (sp, g1) = Some (Inr (ins, s1))"
    "add_residual e ''layer0.attn.res'' (ins @ [rb]) s1 = Some (Inr (os, s'))"
    using assms by (auto simp: s projection_block_def Let_def op_name_simps)
  have "grows ([''layer0.attn.proj''] @ [''layer0.attn.res'']) (sp, g1) s'"
    by (rule grows_trans [OF ops_grow(1) [OF p(2)] ops_grow(2) [OF p(3)]])
  then show ?thesis using grows_new_act [OF p(1)] by (simp add: s)
qed

lemma ffn1_block_grows:
  assumes "ffn1_block e mo inputs s = Some (Inr (os, s'))"
  shows "grows [''layer0.ffn.ln'', ''layer0.ffn.fc1'', ''layer0.ffn.gelu'', ''layer0.ffn.fc2'', ''layer0.ffn.res''] s s'"
proof -
  obtain rb i1 s1 i2 s2 i3 s3 i4 s4 where p: "layer_norm e ''layer0.ffn.ln'' (get_params mo 0 ''ffn'' ''ln'') inputs s = Some (Inr (i1, s1))"
    "mat_mul e ''layer0.ffn.fc1'' (get_params mo 0 ''ffn'' ''fc1'') i1 s1 = Some (Inr (i2, s2))"
    "gelu_op e ''layer0.ffn.gelu'' i2 s2 = Some (Inr (i3, s3))"
    "mat_mul e ''layer0.ffn.fc2'' (get_params mo 0 ''ffn'' ''fc2'') i3 s3 = Some (Inr (i4, s4))"
    "add_residual e ''layer0.ffn.res'' (i4 @ [rb]) s4 = Some (Inr (os, s'))"
    using assms by (auto simp: ffn1_block_def Let_def op_name_simps)
  show ?thesis
    using grows_trans [OF ops_grow(6) [OF p(1)] grows_trans [OF ops_grow(1) [OF p(2)] grows_trans [OF ops_grow(3) [OF p(3)]
      grows_trans [OF ops_grow(1) [OF p(4)] ops_grow(2) [OF p(5)]]]]] by simp
qed

lemma qkv_gen_block_grows:
  assumes "qkv_gen_block e mo inputs s = Some (Inr (os, s'))"
  shows "grows [''layer0.attn.ln'', ''layer0.attn.QKVgen''] s s'"
proof -
  obtain i1 s1 where p: "layer_norm e ''layer0.attn.ln'' (get_params mo 0 ''attn'' ''ln'') inputs s = Some (Inr (i1, s1))"
    "mat_mul e ''layer0.attn.QKVgen'' (get_params mo 0 ''attn'' ''QKVgen'') i1 s1 = Some (Inr (os, s'))"
    using assms by (auto simp: qkv_gen_block_def Let_def op_name_simps)
  show ?thesis using grows_trans [OF ops_grow(6) [OF p(1)] ops_grow(1) [OF p(2)]] by simp
qed

lemma find_executable_node_grows: "find_executable_node ti s = Inr s' \<Longrightarrow> sp_op_map (fst s') = sp_op_map (fst s) \<and> snd s' = snd s"
proof -
  assume f: "find_executable_node ti s = Inr s'"
  obtain sp g where s: "s = (sp, g)" by (cases s)
  from f obtain t sp' where "foldE (\<lambda>sp oi. bindE (check_executable oi g) (\<lambda>ok.
      Inr (if ok then sp\<lparr>sp_executable := sp_executable sp @ [oi]\<rparr> else sp))) sp (tensor_children t) = Inr sp'" "s' = (sp', g)"
    by (auto simp: find_executable_node_def s)
  then show ?thesis by (auto simp: s dest!: foldE_io [where p = sp_op_map])
qed

lemma grows_find: "grows ns s s1 \<Longrightarrow> find_executable_node ti s1 = Inr s' \<Longrightarrow> grows ns s s'"
  using find_executable_node_grows by (simp add: grows_def)

lemma init_SA_grows:
  assumes "init_SA_program e mo reqs (sp, g) = Some (Inr s')"
  shows "grows (ops_of (stage_jobs SA (sp_stage sp))) (sp, g) s'"
proof -
  let ?st = "sp_stage sp"
  obtain n inp g1 dims ins s1 os s2 where p: "new_act_tensor e ''input'' dims True g = Inr (inp, g1)"
    "(if enable_proj_ffns ?st then bindR (projection_block e mo n [inp] (sp, g1)) (\<lambda>(inputs, s). ffn1_block e mo inputs s)
      else Some (Inr ([inp], sp, g1))) = Some (Inr (ins, s1))"
    "(if enable_qkv_gen ?st then qkv_gen_block e mo ins s1 else Some (Inr (ins, s1))) = Some (Inr (os, s2))"
    "find_executable_node inp s2 = Inr s'"
    using assms unfolding init_SA_program_def Let_def by (auto simp: if_Inl simp del: bindR_simps)
  have 1: "grows (ops_of (if enable_proj_ffns ?st then [Proj_FFN] else [])) (sp, g1) s1"
  proof (cases "enable_proj_ffns ?st")
    case True
    then obtain i t where b: "projection_block e mo n [inp] (sp, g1) = Some (Inr (i, t))" "ffn1_block e mo i t = Some (Inr (ins, s1))"
      using p(2) by auto
    show ?thesis using grows_trans [OF projection_block_grows [OF b(1)] ffn1_block_grows [OF b(2)]] True by (simp add: ops_of_def)
  next
    case False then show ?thesis using p(2) by (simp add: grows_def ops_of_def)
  qed
  have 2: "grows (ops_of (if enable_qkv_gen ?st then [QKV_gen] else [])) s1 s2"
    using p(3) qkv_gen_block_grows by (auto simp: grows_def ops_of_def split: if_splits)
  have "grows (ops_of (stage_jobs SA ?st)) (sp, g1) s2" using grows_trans [OF 1 2] by (simp add: stage_jobs_def ops_of_def)
  then show ?thesis using grows_new_act [OF p(1)] grows_find p(4) by blast
qed

lemma pim_input_ops: "pim_input e reqs nh dk x r = Inr y \<Longrightarrow> g_ops (snd y) = g_ops (snd x)"
  by (cases x) (auto simp: pim_input_def new_tensor_def Let_def split: if_splits dest!: new_act_tensor_extends)

lemma init_PIM_grows:
  assumes "init_PIM_program e reqs (sp, g) = Some (Inr s')"
  shows "grows (ops_of [Attention]) (sp, g) s'"
proof -
  obtain nh dk qs ks vs g1 i1 s1 os s2 where p: "foldE (pim_input e reqs nh dk) (([], [], []), g) (sp_breq sp) = Inr ((qs, ks, vs), g1)"
    "logit_softmax e ''layer0.attn.NeuPIMSLogitSoftmax'' (qs @ ks) (sp, g1) = Some (Inr (i1, s1))"
    "attend e ''layer0.attn.NeuPIMSAttend'' (i1 @ vs) s1 = Some (Inr (os, s2))" "find_executable_node (last qs) s2 = Inr s'"
    using assms by (auto simp: init_PIM_program_def Let_def op_name_simps split: if_splits)
  have "g_ops g1 = g_ops g" using foldE_io [where p = "\<lambda>x. g_ops (snd x)", OF p(1) pim_input_ops] by simp
  moreover have "grows (ops_of [Attention]) (sp, g1) s2"
    using grows_trans [OF ops_grow(4) [OF p(2)] ops_grow(5) [OF p(3)]] by (simp add: ops_of_def)
  ultimately have "grows (ops_of [Attention]) (sp, g) s2" by (simp add: grows_def op_names_def)
  then show ?thesis using grows_find p(4) by blast
qed

text \<open>The program of a stage for a batch with requests has the operations of its jobs, in this order.\<close>

lemma StageProgram_new_ops:
  assumes "StageProgram_new e mo reqs b p stg g = Some (Inr (sp, g'))" "p \<in> {SA, PIM}"
  shows "sp_op_map sp = [length (g_ops g)..<length (g_ops g')] \<and>
     op_names g' = op_names g @ (if b = [] then [] else ops_of (stage_jobs p stg))"
proof -
  let ?sp = "\<lparr>sp_name = stagePlatformToString p @ ''_stage_'' @ stageToString stg, sp_breq = b, sp_platform = p,
    sp_stage = stg, sp_op_map = [], sp_executable = []\<rparr>"
  have i: "init_program e mo reqs (?sp, g) = Some (Inr (sp, g'))" using assms(1) by (simp add: StageProgram_new_def)
  have sa: "grows (ops_of (stage_jobs SA stg)) (?sp, g) (sp, g')" if "init_SA_program e mo reqs (?sp, g) = Some (Inr (sp, g'))"
    using init_SA_grows [OF that] by simp
  have "grows (if b = [] then [] else ops_of (stage_jobs p stg)) (?sp, g) (sp, g')"
    using i assms(2) sa init_PIM_grows
    by (auto simp: init_program_def stage_jobs_def grows_def op_names_def ops_of_def split: if_splits)
  then show ?thesis by (simp add: grows_def)
qed

subsection \<open>The pipeline of the stages\<close>

text \<open>
  The specification: two sub-batches of requests; the operations that have been done for each, and the unit
  that is at work on one with the operations of the program.  The batches are chosen before the
  work begins.  The two start together, on different units, with the next jobs of their layers,
  and end in any order.  When whole layers are done, the batches can be given back.
\<close>

record pipeline =
  pl_batch1 :: "nat list"
  pl_batch2 :: "nat list"
  pl_done1 :: "string list"
  pl_done2 :: "string list"
  pl_run1 :: "(StagePlatform \<times> nat list \<times> string list) option"
  pl_run2 :: "(StagePlatform \<times> nat list \<times> string list) option"

definition next_jobs :: "string list \<Rightarrow> StagePlatform \<Rightarrow> string list \<Rightarrow> bool" where
  "next_jobs d u os \<longleftrightarrow> (\<exists>n. prefix (d @ os) (ops_of (layers n))) \<and> (\<exists>js. os = ops_of js \<and> (\<forall>j \<in> set js. unit_of j = u))"

inductive pipe_step :: "pipeline \<Rightarrow> pipeline \<Rightarrow> bool" where
  pipe_batch: "\<lbrakk>pl_run1 q = None; pl_run2 q = None; pl_done1 q = []; pl_done2 q = []\<rbrakk>
    \<Longrightarrow> pipe_step q (q\<lparr>pl_batch1 := b1, pl_batch2 := b2\<rparr>)"
| pipe_start: "\<lbrakk>pl_run1 q = None; pl_run2 q = None; u1 \<noteq> u2; next_jobs (pl_done1 q) u1 os1; next_jobs (pl_done2 q) u2 os2\<rbrakk>
    \<Longrightarrow> pipe_step q (q\<lparr>pl_run1 := Some (u1, pl_batch1 q, os1), pl_run2 := Some (u2, pl_batch2 q, os2)\<rparr>)"
| pipe_end1: "pl_run1 q = Some (u, b, os) \<Longrightarrow> pipe_step q (q\<lparr>pl_done1 := pl_done1 q @ os, pl_run1 := None\<rparr>)"
| pipe_end2: "pl_run2 q = Some (u, b, os) \<Longrightarrow> pipe_step q (q\<lparr>pl_done2 := pl_done2 q @ os, pl_run2 := None\<rparr>)"
| pipe_close: "\<lbrakk>pl_run1 q = None; pl_run2 q = None; pl_done1 q = ops_of (layers n); pl_done2 q = ops_of (layers m); 0 < n\<rbrakk>
    \<Longrightarrow> pipe_step q (q\<lparr>pl_batch1 := [], pl_batch2 := []\<rparr>)"

text \<open>
  The pipeline a scheduler state stands for: its batches, the stages that are recorded as done, the program that
  is done in the present stage, and the programs at work, each with the requests it was made with and
  the names of the operations it holds.
\<close>

definition unit_in :: "bool \<Rightarrow> Stage \<Rightarrow> StagePlatform" where
  "unit_in first st = (if even (stage_index st) = first then SA else PIM)"

definition jobs_in :: "env \<Rightarrow> bool \<Rightarrow> Stage \<Rightarrow> job list" where
  "jobs_in e first st = (if first \<or> sub_batch_mode (e_cfg e) then stage_jobs (unit_in first st) st else [])"

definition all_stages :: "Stage list" where
  "all_stages = [Stage_A, Stage_B, Stage_C, Stage_D, Stage_E, Stage_F]"

definition stages_done :: "scheduler \<Rightarrow> Stage list" where
  "stages_done s = filter (\<lambda>st. stageToString st \<in> set (map fst (sc_stage_stats s))) all_stages"

definition abs_done :: "env \<Rightarrow> bool \<Rightarrow> scheduler \<Rightarrow> string list" where
  "abs_done e first s = ops_of (concat (map (jobs_in e first) (stages_done s)) @
     (if program (unit_in first (sc_stage s)) s = None \<and> program (unit_in (\<not> first) (sc_stage s)) s \<noteq> None
      then jobs_in e first (sc_stage s) else []))"

definition prog_ops :: "graph \<Rightarrow> stage_program \<Rightarrow> string list" where
  "prog_ops g sp = map ((!) (op_names g)) (sp_op_map sp)"

definition abs_run :: "bool \<Rightarrow> scheduler \<Rightarrow> (StagePlatform \<times> nat list \<times> string list) option" where
  "abs_run first s = map_option (\<lambda>sp. (sp_platform sp, sp_breq sp, prog_ops (sc_graph s) sp)) (program (unit_in first (sc_stage s)) s)"

definition pipeline_of :: "env \<Rightarrow> scheduler \<Rightarrow> pipeline" where
  "pipeline_of e s = \<lparr>pl_batch1 = sc_breq1 s, pl_batch2 = sc_breq2 s, pl_done1 = abs_done e True s, pl_done2 = abs_done e False s,
     pl_run1 = abs_run True s, pl_run2 = abs_run False s\<rparr>"

text \<open>The stages before a stage, with and without sub-batches.\<close>

definition stages_before :: "env \<Rightarrow> Stage \<Rightarrow> Stage list" where
  "stages_before e st = filter (\<lambda>x. stage_index x < stage_index st \<and>
     (sub_batch_mode (e_cfg e) \<or> x \<in> {Stage_A, Stage_B, Stage_E})) all_stages"

text \<open>Which of the sub-batches a unit works for.\<close>

definition first_on :: "StagePlatform \<Rightarrow> Stage \<Rightarrow> bool" where
  "first_on p st \<longleftrightarrow> even (stage_index st) = (p = SA)"

text \<open>What a program is for, and its operations; \<open>names\<close> are those of the graph.\<close>

definition pr_info :: "string list \<Rightarrow> stage_program \<Rightarrow> batched_request \<times> StagePlatform \<times> Stage \<times> string list" where
  "pr_info names sp = (sp_breq sp, sp_platform sp, sp_stage sp, map ((!) names) (sp_op_map sp))"

definition expected :: "env \<Rightarrow> StagePlatform \<Rightarrow> scheduler \<Rightarrow> batched_request \<times> StagePlatform \<times> Stage \<times> string list" where
  "expected e p s = (if first_on p (sc_stage s) then sc_breq1 s else sc_breq2 s, p, sc_stage s, ops_of (jobs_in e (first_on p (sc_stage s)) (sc_stage s)))"

definition pinv :: "env \<Rightarrow> scheduler \<Rightarrow> bool" where
  "pinv e s \<longleftrightarrow> sc_init_stage s = Stage_A \<and> \<not> sc_just_one_stage s \<and>
     (sub_batch_mode (e_cfg e) \<or> sc_breq2 s = [] \<and> sc_stage s \<in> {Stage_A, Stage_B, Stage_E, Stage_Finish}) \<and>
     map fst (sc_stage_stats s) = map stageToString (stages_before e (sc_stage s)) \<and>
     (\<forall>sp. sc_program1 s = Some sp \<longrightarrow> pr_info (op_names (sc_graph s)) sp = expected e SA s) \<and>
     (\<forall>sp. sc_program2 s = Some sp \<longrightarrow> pr_info (op_names (sc_graph s)) sp = expected e PIM s) \<and>
     (sc_stage s = Stage_Finish \<longrightarrow> sc_program1 s = None \<and> sc_program2 s = None)"

lemma batch_first: "p \<in> {SA, PIM} \<Longrightarrow> batch_on p s = (if first_on p (sc_stage s) then sc_breq1 s else sc_breq2 s)"
  by (simp add: batch_on_def first_on_def)

lemma ops_of_append [simp]: "ops_of (js @ ks) = ops_of js @ ops_of ks"
  by (simp add: ops_of_def)

lemma ops_of_Nil [simp]: "ops_of [] = []"
  by (simp add: ops_of_def)

lemma next_in_layers: "st \<noteq> Stage_Finish \<Longrightarrow> sub_batch_mode (e_cfg e) \<or> st \<in> {Stage_A, Stage_B, Stage_E} \<Longrightarrow>
    (\<exists>n. prefix (concat (map (jobs_in e first) (stages_before e st)) @ jobs_in e first st) (layers n)) \<and>
    (\<forall>j \<in> set (jobs_in e first st). unit_of j = unit_in first st)"
  apply (rule conjI)
   apply (rule exI [where x = "Suc (Suc 0)"])
   apply (cases st; cases first; cases "sub_batch_mode (e_cfg e)"; simp add: jobs_in_def stages_before_def all_stages_def
    stage_jobs_def unit_in_def layers_def enable_proj_ffns_def enable_qkv_gen_def skip_pim_stage_def)
  apply (cases st; cases first; cases "sub_batch_mode (e_cfg e)"; simp add: jobs_in_def stage_jobs_def unit_in_def
    enable_proj_ffns_def enable_qkv_gen_def skip_pim_stage_def)
  done

lemma next_jobs_in:
  assumes "st \<noteq> Stage_Finish" "sub_batch_mode (e_cfg e) \<or> st \<in> {Stage_A, Stage_B, Stage_E}"
  shows "next_jobs (ops_of (concat (map (jobs_in e first) (stages_before e st)))) (unit_in first st) (ops_of (jobs_in e first st))"
proof -
  obtain n where n: "prefix (concat (map (jobs_in e first) (stages_before e st)) @ jobs_in e first st) (layers n)"
    using next_in_layers [OF assms] by blast
  then obtain ks where "layers n = (concat (map (jobs_in e first) (stages_before e st)) @ jobs_in e first st) @ ks" by (auto simp: prefix_def)
  then have "ops_of (layers n) = (ops_of (concat (map (jobs_in e first) (stages_before e st))) @ ops_of (jobs_in e first st)) @ ops_of ks" by simp
  then have "prefix (ops_of (concat (map (jobs_in e first) (stages_before e st))) @ ops_of (jobs_in e first st)) (ops_of (layers n))"
    unfolding prefix_def by blast
  then show ?thesis using next_in_layers [OF assms] unfolding next_jobs_def by blast
qed

lemma stages_done_before: "map fst (sc_stage_stats s) = map stageToString (stages_before e st) \<Longrightarrow> stages_done s = stages_before e st"
  unfolding stages_done_def
  by (simp only: set_map, cases st; cases "sub_batch_mode (e_cfg e)"; simp add: stages_before_def all_stages_def stageToString_def)

lemma layers_2: "layers 2 = [QKV_gen, Attention, Proj_FFN, QKV_gen, Attention, Proj_FFN]"
  by (simp add: layers_def numeral_2_eq_2)

lemma layers_1: "layers (Suc 0) = [QKV_gen, Attention, Proj_FFN]"
  by (simp add: layers_def)

lemma layers_complete: "concat (map (jobs_in e first) (stages_before e Stage_Finish)) =
    (if sub_batch_mode (e_cfg e) then layers 2 else if first then layers 1 else [])"
  by (cases first; cases "sub_batch_mode (e_cfg e)"; simp add: jobs_in_def stages_before_def all_stages_def
    stage_jobs_def unit_in_def layers_2 layers_1 enable_proj_ffns_def enable_qkv_gen_def skip_pim_stage_def)

subsection \<open>The scheduler follows the pipeline\<close>

text \<open>What the pipeline depends on; most operations do not touch it.\<close>

definition view :: "scheduler \<Rightarrow> (Stage \<times> string list \<times> Stage \<times> bool) \<times> (nat list \<times> nat list) \<times>
    (batched_request \<times> StagePlatform \<times> Stage \<times> string list) option \<times> (batched_request \<times> StagePlatform \<times> Stage \<times> string list) option" where
  "view s = ((sc_stage s, map fst (sc_stage_stats s), sc_init_stage s, sc_just_one_stage s), (sc_breq1 s, sc_breq2 s),
     map_option (pr_info (op_names (sc_graph s))) (sc_program1 s), map_option (pr_info (op_names (sc_graph s))) (sc_program2 s))"

lemma view_eqD:
  assumes "view s = view s'"
  shows "sc_stage s = sc_stage s'" "map fst (sc_stage_stats s) = map fst (sc_stage_stats s')"
    "sc_init_stage s = sc_init_stage s'" "sc_just_one_stage s = sc_just_one_stage s'"
    "sc_breq1 s = sc_breq1 s'" "sc_breq2 s = sc_breq2 s'"
    "map_option (pr_info (op_names (sc_graph s))) (program p s) = map_option (pr_info (op_names (sc_graph s'))) (program p s')"
  using assms by (auto simp: view_def program_def)

lemma map_option_None: "map_option f x = map_option g y \<Longrightarrow> x = None \<longleftrightarrow> y = None"
  by (metis option.map_disc_iff)

lemma abs_run_view: "abs_run first s = map_option (\<lambda>(b, p, st, os). (p, b, os))
    (map_option (pr_info (op_names (sc_graph s))) (program (unit_in first (sc_stage s)) s))"
  by (simp add: abs_run_def pr_info_def prog_ops_def option.map_comp comp_def)

lemma view_pipeline_of: "view s = view s' \<Longrightarrow> pipeline_of e s = pipeline_of e s'"
proof -
  assume v: "view s = view s'"
  have n: "program p s = None \<longleftrightarrow> program p s' = None" for p using map_option_None [OF view_eqD(7) [OF v]] .
  have "abs_run f s = abs_run f s'" for f unfolding abs_run_view view_eqD(1) [OF v] view_eqD(7) [OF v] ..
  then show ?thesis using n view_eqD(1,2,5,6) [OF v]
    by (simp add: pipeline_of_def abs_done_def stages_done_def)
qed

lemma all_info: "(\<forall>sp. x = Some sp \<longrightarrow> f sp = i) \<longleftrightarrow> map_option f x \<in> {None, Some i}"
  by (cases x) auto

lemma view_pinv: "view s = view s' \<Longrightarrow> pinv e s \<Longrightarrow> pinv e s'"
proof -
  assume v: "view s = view s'" and i: "pinv e s"
  have m: "map_option (pr_info (op_names (sc_graph s))) (sc_program1 s) = map_option (pr_info (op_names (sc_graph s'))) (sc_program1 s')"
    "map_option (pr_info (op_names (sc_graph s))) (sc_program2 s) = map_option (pr_info (op_names (sc_graph s'))) (sc_program2 s')"
    using v by (simp_all add: view_def)
  have "expected e p s' = expected e p s" for p using view_eqD(1,5,6) [OF v] by (simp add: expected_def)
  then show ?thesis using i unfolding pinv_def all_info view_eqD(1-6) [OF v] m map_option_None [OF m(1)] map_option_None [OF m(2)]
    by simp
qed

lemma program_simps [simp]:
  "program SA (s\<lparr>sc_program1 := x\<rparr>) = x" "program SA (s\<lparr>sc_program2 := x\<rparr>) = program SA s"
  "program PIM (s\<lparr>sc_program2 := x\<rparr>) = x" "program PIM (s\<lparr>sc_program1 := x\<rparr>) = program PIM s"
  by (simp_all add: program_def)

lemma view_set_tiles [simp]: "view (set_tiles p ts s) = view s"
  by (simp add: view_def set_tiles_def)

lemma view_updates [simp]:
  "view (s\<lparr>sc_active := a\<rparr>) = view s" "view (s\<lparr>sc_finished := a\<rparr>) = view s"
  "view (s\<lparr>sc_request_queue := q\<rparr>) = view s" "view (s\<lparr>sc_completed := q\<rparr>) = view s" "view (s\<lparr>sc_cycles := c\<rparr>) = view s"
  "view (s\<lparr>sc_stage_changed := b\<rparr>) = view s"
  by (simp_all add: view_def)

lemma start_operation_view: "start_operation now p sp s = Inr s' \<Longrightarrow> view s' = view s"
  by (auto simp: start_operation_def Let_def split: if_splits)

text \<open>A step of a program that keeps what it is for and the names of all operations.\<close>

definition same_duty :: "stage_program \<times> graph \<Rightarrow> stage_program \<times> graph \<Rightarrow> bool" where
  "same_duty s s' \<longleftrightarrow> sp_info (fst s') = sp_info (fst s) \<and> sp_op_map (fst s') = sp_op_map (fst s) \<and> op_names (snd s') = op_names (snd s)"

lemma on_program_view:
  assumes "on_program p f s = Inr s'" "\<And>x y. f x = Inr y \<Longrightarrow> same_duty x y"
  shows "view s' = view s"
proof -
  obtain sp sp' g where f: "program p s = Some sp" "f (sp, sc_graph s) = Inr (sp', g)"
    "s' = set_program p (Some sp') (s\<lparr>sc_graph := g\<rparr>)"
    using assms(1) by (auto simp: on_program_def split: option.splits)
  have w: "pr_info (op_names g) sp' = pr_info (op_names (sc_graph s)) sp" "op_names g = op_names (sc_graph s)"
    using assms(2) [OF f(2)] by (simp_all add: same_duty_def pr_info_def sp_info_def)
  then show ?thesis using f(1,3) by (cases "p = SA") (simp_all add: view_def set_program_def program_def)
qed

lemma foldE_upd_tensor_names: "foldE (\<lambda>g ti. upd_tensor ti f g) g tis = Inr g' \<Longrightarrow> op_names g' = op_names g"
  by (rule foldE_io [where p = op_names]) (auto simp: upd_tensor_def op_names_def)

lemma set_finish_names: "set_finish oi g = Inr g' \<Longrightarrow> op_names g' = op_names g"
  by (auto simp: set_finish_def dest!: foldE_upd_tensor_names upd_op_names)

lemma finish_operation_duty: "finish_operation i s = Inr s' \<Longrightarrow> same_duty s s'"
proof -
  assume f: "finish_operation i s = Inr s'"
  obtain sp g where s: "s = (sp, g)" by (cases s)
  have n: "notify_child x oi = Inr y \<Longrightarrow> (sp_op_map (fst y), snd y) = (sp_op_map (fst x), snd x)" for x oi y
    by (cases x) (auto simp: notify_child_def split: if_splits)
  obtain oi g1 sp1 ch where 1: "set_finish oi g = Inr g1" "foldE notify_child (sp1, g1) ch = Inr s'" "sp_op_map sp1 = sp_op_map sp"
    using f by (auto simp: finish_operation_def s Let_def)
  have "(sp_op_map (fst s'), snd s') = (sp_op_map sp1, g1)"
    using foldE_io [where p = "\<lambda>x. (sp_op_map (fst x), snd x)", OF 1(2) n] by simp
  then show ?thesis using finish_operation_info [OF f] set_finish_names [OF 1(1)] 1(3) by (simp add: same_duty_def s)
qed

lemma finish_operation_tile_duty: "finish_operation_tile t s = Inr s' \<Longrightarrow> same_duty s s'"
  by (cases s) (auto simp: finish_operation_tile_def reduce_tile_def same_duty_def dest: upd_op_names)

lemma on_program_views:
  "on_program p (finish_operation i) s = Inr s' \<Longrightarrow> view s' = view s"
  "on_program p (finish_operation_tile t) s = Inr s' \<Longrightarrow> view s' = view s"
  using on_program_view finish_operation_duty finish_operation_tile_duty by blast+

lemma end_tile_view: "end_tile t s = Inr (r, s') \<Longrightarrow> view s' = view s"
  by (auto simp: end_tile_def Let_def split: option.splits if_splits dest!: on_program_views)

text \<open>A program that is dropped has ended its jobs.\<close>

lemma next_stage_props: "next_stage st = Inr st' \<Longrightarrow> stage_index st' = Suc (stage_index st) \<and> st \<noteq> Stage_Finish"
  by (cases st) auto

lemma stages_before_next:
  assumes "next_stage st = Inr st'" "sub_batch_mode (e_cfg e) \<or> st \<in> {Stage_A, Stage_B, Stage_E}"
    "st'' = (if \<not> sub_batch_mode (e_cfg e) \<and> st' = Stage_C then Stage_E else if \<not> sub_batch_mode (e_cfg e) \<and> st' = Stage_F then Stage_Finish else st')"
  shows "stages_before e st'' = stages_before e st @ [st]"
  using assms by (cases st; cases "sub_batch_mode (e_cfg e)") (simp_all add: stages_before_def all_stages_def)

lemma refresh_stage_graph: "refresh_stage e t = Inr s' \<Longrightarrow> sc_graph s' = sc_graph t"
  by (cases "sc_program1 t = None \<and> sc_program2 t = None") (auto simp: refresh_stage_def Let_def split del: if_split)

lemma refresh_stage_done:
  assumes "pinv e s" "sc_program1 s = None" "sc_program2 s = None" "sc_stage s \<noteq> Stage_Finish" "refresh_stage e s = Inr s'"
  shows "pinv e s' \<and> stages_done s' = stages_done s @ [sc_stage s] \<and> sc_program1 s' = None \<and> sc_program2 s' = None"
proof -
  obtain st where st: "next_stage (sc_stage s) = Inr st" using assms(4) by (cases "sc_stage s") auto
  define st'' where "st'' = (if \<not> sub_batch_mode (e_cfg e) \<and> st = Stage_C then Stage_E
    else if \<not> sub_batch_mode (e_cfg e) \<and> st = Stage_F then Stage_Finish else st)"
  have s': "s' = s\<lparr>sc_stage_stats := sc_stage_stats s @ [(stageToString (sc_stage s), sc_cycles s)],
     sc_prev_stage := sc_stage s, sc_stage := st'', sc_stage_changed := True\<rparr>"
    using assms st by (auto simp: refresh_stage_def pinv_def st''_def Let_def)
  have m: "sub_batch_mode (e_cfg e) \<or> sc_stage s \<in> {Stage_A, Stage_B, Stage_E}" using assms(1,4) by (auto simp: pinv_def)
  have b: "stages_before e st'' = stages_before e (sc_stage s) @ [sc_stage s]"
    using stages_before_next [OF st m] by (simp add: st''_def)
  have m': "sub_batch_mode (e_cfg e) \<or> st'' \<in> {Stage_A, Stage_B, Stage_E, Stage_Finish}"
    using m st by (auto simp: st''_def)
  have names: "map fst (sc_stage_stats s) = map stageToString (stages_before e (sc_stage s))" using assms(1) by (simp add: pinv_def)
  then have names': "map fst (sc_stage_stats s') = map stageToString (stages_before e st'')" by (simp add: s' b)
  have "pinv e s'" using assms(1-3) m' names' by (auto simp: pinv_def s')
  moreover have "stages_done s' = stages_done s @ [sc_stage s]"
    using stages_done_before [OF names] stages_done_before [OF names'] b by simp
  ultimately show ?thesis using assms(2,3) by (simp add: s')
qed

lemma stages_done_simps [simp]: "stages_done (s\<lparr>sc_program1 := x\<rparr>) = stages_done s" "stages_done (s\<lparr>sc_program2 := x\<rparr>) = stages_done s"
  by (simp_all add: stages_done_def)

lemma pinv_drop: "pinv e s \<Longrightarrow> pinv e (s\<lparr>sc_program1 := None\<rparr>)" "pinv e s \<Longrightarrow> pinv e (s\<lparr>sc_program2 := None\<rparr>)"
  by (auto simp: pinv_def expected_def)

lemma unit_first [simp]: "p \<in> {SA, PIM} \<Longrightarrow> unit_in (first_on p st) st = p"
  "unit_in (\<not> first_on SA st) st = PIM" "unit_in (\<not> first_on PIM st) st = SA"
  by (auto simp: unit_in_def first_on_def)

definition done_of :: "bool \<Rightarrow> pipeline \<Rightarrow> string list" where
  "done_of first q = (if first then pl_done1 q else pl_done2 q)"

definition run_of :: "bool \<Rightarrow> pipeline \<Rightarrow> (StagePlatform \<times> nat list \<times> string list) option" where
  "run_of first q = (if first then pl_run1 q else pl_run2 q)"

lemma pipe_end:
  assumes "run_of first q = Some (u, b, os)" "done_of first q' = done_of first q @ os" "run_of first q' = None"
    "done_of (\<not> first) q' = done_of (\<not> first) q" "run_of (\<not> first) q' = run_of (\<not> first) q"
    "pl_batch1 q' = pl_batch1 q" "pl_batch2 q' = pl_batch2 q"
  shows "pipe_step q q'"
proof (cases first)
  case True
  then have q: "pl_run1 q = Some (u, b, os)" "q' = q\<lparr>pl_done1 := pl_done1 q @ os, pl_run1 := None\<rparr>"
    using assms by (auto simp: run_of_def done_of_def intro: pipeline.equality)
  show ?thesis unfolding q(2) by (rule pipe_end1) (rule q(1))
next
  case False
  then have q: "pl_run2 q = Some (u, b, os)" "q' = q\<lparr>pl_done2 := pl_done2 q @ os, pl_run2 := None\<rparr>"
    using assms by (auto simp: run_of_def done_of_def intro: pipeline.equality)
  show ?thesis unfolding q(2) by (rule pipe_end2) (rule q(1))
qed

lemma pipeline_of_parts: "done_of f (pipeline_of e s) = abs_done e f s" "run_of f (pipeline_of e s) = abs_run f s"
  "pl_batch1 (pipeline_of e s) = sc_breq1 s" "pl_batch2 (pipeline_of e s) = sc_breq2 s"
  by (simp_all add: pipeline_of_def done_of_def run_of_def)

lemma refresh_stage_batches: "refresh_stage e t = Inr s' \<Longrightarrow> sc_breq1 s' = sc_breq1 t \<and> sc_breq2 s' = sc_breq2 t"
  by (cases "sc_program1 t = None \<and> sc_program2 t = None") (auto simp: refresh_stage_def Let_def split del: if_split)

lemma finish_program_step:
  assumes i: "pinv e s" and p: "p \<in> {SA, PIM}" and sp: "program p s = Some sp" and f: "finish_program e p s = Inr s'"
  shows "pinv e s' \<and> pipe_step (pipeline_of e s) (pipeline_of e s') \<and> program p s' = None \<and> sc_graph s' = sc_graph s"
proof -
  define st where "st = sc_stage s"
  define t where "t = set_program p None s"
  define o' where "o' = (if p = SA then PIM else SA)"
  have po: "p \<noteq> o'" "o' \<in> {SA, PIM}" "unit_in (\<not> first_on p st) st = o'" "unit_in (first_on p st) st = p" using p by (auto simp: o'_def)
  have r: "refresh_stage e t = Inr s'" using f by (simp add: finish_program_def t_def)
  have it: "pinv e t" using pinv_drop [OF i] by (simp add: t_def set_program_def)
  have info: "pr_info (op_names (sc_graph s)) sp = expected e p s" "st \<noteq> Stage_Finish"
    using i sp p by (auto simp: pinv_def program_def st_def split: if_splits)
  obtain b where run: "abs_run (first_on p st) s = Some (p, b, ops_of (jobs_in e (first_on p st) st))"
    using info(1) sp po(4) by (simp add: abs_run_def pr_info_def expected_def prog_ops_def flip: st_def)
  then have run: "run_of (first_on p st) (pipeline_of e s) = Some (p, b, ops_of (jobs_in e (first_on p st) st))"
    by (simp add: pipeline_of_parts)
  have t: "program p t = None" "program o' t = program o' s" "sc_stage t = st" "stages_done t = stages_done s" "sc_graph t = sc_graph s"
    "sc_breq1 t = sc_breq1 s" "sc_breq2 t = sc_breq2 s"
    using p by (auto simp: t_def set_program_def st_def o'_def program_def)
  show ?thesis
  proof (cases "program o' s")
    case None
    have tn: "sc_program1 t = None" "sc_program2 t = None" using t None p by (auto simp: program_def o'_def split: if_splits)
    have d: "pinv e s'" "stages_done s' = stages_done s @ [st]" "sc_program1 s' = None" "sc_program2 s' = None"
      using refresh_stage_done [OF it tn _ r] t info(2) by auto
    have n: "program q s' = None" for q using d by (simp add: program_def)
    have g: "sc_graph s' = sc_graph s" using refresh_stage_graph [OF r] t(5) by simp
    have b: "sc_breq1 s' = sc_breq1 s" "sc_breq2 s' = sc_breq2 s" using refresh_stage_batches [OF r] t(6,7) by simp_all
    have "pipe_step (pipeline_of e s) (pipeline_of e s')"
      by (rule pipe_end [OF run])
        (use None sp po d(2) b in \<open>simp_all add: pipeline_of_parts abs_done_def abs_run_def n flip: st_def\<close>)
    then show ?thesis using d n g by simp
  next
    case (Some x)
    have "s' = t" using r t Some p by (auto simp: refresh_stage_def program_def o'_def split: if_splits)
    moreover have "pipe_step (pipeline_of e s) (pipeline_of e t)"
      by (rule pipe_end [OF run])
        (use Some sp po t in \<open>simp_all add: pipeline_of_parts abs_done_def abs_run_def flip: st_def\<close>)
    ultimately show ?thesis using it t by simp
  qed
qed

text \<open>All operations of a program are finished.\<close>

definition ops_ended :: "graph \<Rightarrow> stage_program \<Rightarrow> bool" where
  "ops_ended g sp \<longleftrightarrow> (\<forall>oi \<in> set (sp_op_map sp). oi < length (g_ops g) \<and> op_finish (g_ops g ! oi))"

lemma check_finish_ended: "sp_check_finish (sp, g) = Inr True \<Longrightarrow> ops_ended g sp"
proof -
  assume f: "sp_check_finish (sp, g) = Inr True"
  have "foldE (\<lambda>b oi. bindE (get_op oi g) (\<lambda>oper. Inr (b \<and> op_finish oper))) b ois = Inr True \<Longrightarrow>
      b \<and> (\<forall>oi \<in> set ois. oi < length (g_ops g) \<and> op_finish (g_ops g ! oi))" for b ois
    by (induction ois arbitrary: b) (auto simp: get_op_Inr)
  with f show ?thesis by (simp add: sp_check_finish_def ops_ended_def)
qed

text \<open>From \<open>s\<close> to \<open>s'\<close> every program is kept, except for those whose operations are finished.\<close>

definition keeps_or_ends :: "scheduler \<Rightarrow> scheduler \<Rightarrow> bool" where
  "keeps_or_ends s s' \<longleftrightarrow> (\<forall>p sp. program p s = Some sp \<longrightarrow>
     (\<exists>sp'. program p s' = Some sp' \<and> sp_op_map sp' = sp_op_map sp) \<or> (program p s' = None \<and> ops_ended (sc_graph s') sp))"

lemma start_operation_keeps: "start_operation now p sp s = Inr s' \<Longrightarrow> program q s' = program q s \<and> sc_graph s' = sc_graph s"
  by (auto simp: start_operation_def Let_def program_def set_tiles_def split: if_splits)

lemma finish_program_other:
  assumes "finish_program e p s = Inr s'" "(q = SA) \<noteq> (p = SA)" shows "program q s' = program q s"
proof -
  have r: "program q s' = program q t" if "refresh_stage e t = Inr s'" for t
    using that by (cases "sc_program1 t = None \<and> sc_program2 t = None"; cases "q = SA") (auto simp: refresh_stage_def Let_def program_def split del: if_split)
  have "refresh_stage e (set_program p None s) = Inr s'" using assms(1) by (simp add: finish_program_def)
  from r [OF this] show ?thesis using assms(2) by (cases "p = SA") (simp_all add: program_def set_program_def)
qed

lemma program_PIM: "p \<noteq> SA \<Longrightarrow> program p s = program PIM s"
  by (simp add: program_def)

lemma refresh_status_step:
  assumes i: "pinv e s" and p: "p \<in> {SA, PIM}" and r: "refresh_status e now p s = Inr s'"
  shows "pinv e s' \<and> pipe_step\<^sup>*\<^sup>* (pipeline_of e s) (pipeline_of e s') \<and> keeps_or_ends s s'"
proof -
  obtain t where t: "drop_finished e p s = Inr t"
    and u: "(case program p t of None \<Rightarrow> Inr t | Some sp \<Rightarrow> if tiles p t = [] then start_operation now p sp t else Inr t) = Inr s'"
    using r by (auto simp: refresh_status_def)
  have v: "view s' = view t" "\<And>q. program q s' = program q t" "sc_graph s' = sc_graph t"
    using u by (auto split: option.splits if_splits dest: start_operation_view start_operation_keeps)
  have "pinv e t \<and> pipe_step\<^sup>*\<^sup>* (pipeline_of e s) (pipeline_of e t) \<and> keeps_or_ends s t"
  proof (cases "t = s")
    case True then show ?thesis using i by (auto simp: keeps_or_ends_def)
  next
    case False
    then obtain sp where sp: "program p s = Some sp" "sp_check_finish (sp, sc_graph s) = Inr True" "finish_program e p s = Inr t"
      using t by (auto simp: drop_finished_def split: option.splits if_splits)
    have f: "pinv e t" "pipe_step (pipeline_of e s) (pipeline_of e t)" "program p t = None" "sc_graph t = sc_graph s"
      using finish_program_step [OF i p sp(1,3)] by auto
    have "keeps_or_ends s t"
      unfolding keeps_or_ends_def
    proof (intro allI impI)
      fix q sp' assume q: "program q s = Some sp'"
      show "(\<exists>sp''. program q t = Some sp'' \<and> sp_op_map sp'' = sp_op_map sp') \<or> program q t = None \<and> ops_ended (sc_graph t) sp'"
      proof (cases "(q = SA) = (p = SA)")
        case True
        then have "program q x = program p x" for x using p by (auto simp: program_def)
        then show ?thesis using f sp q check_finish_ended [OF sp(2)] by simp
      next
        case False then show ?thesis using finish_program_other [OF sp(3)] q by auto
      qed
    qed
    then show ?thesis using f by auto
  qed
  then show ?thesis using view_pinv [OF v(1) [symmetric]] view_pipeline_of [OF v(1)] v(2,3) by (simp add: keeps_or_ends_def)
qed

definition same_maps :: "scheduler \<Rightarrow> scheduler \<Rightarrow> bool" where
  "same_maps s s' \<longleftrightarrow> (\<forall>p. map_option sp_op_map (program p s') = map_option sp_op_map (program p s))"

lemma on_program_maps:
  assumes "on_program p f s = Inr s'" "\<And>x y. f x = Inr y \<Longrightarrow> same_duty x y"
  shows "same_maps s s'"
proof -
  obtain sp sp' g where f: "program p s = Some sp" "f (sp, sc_graph s) = Inr (sp', g)"
    "s' = set_program p (Some sp') (s\<lparr>sc_graph := g\<rparr>)"
    using assms(1) by (auto simp: on_program_def split: option.splits)
  show ?thesis using f assms(2) [OF f(2)] unfolding same_maps_def by (cases "p = SA") (simp_all add: program_def set_program_def same_duty_def)
qed

lemma on_program_same_maps:
  "on_program p (finish_operation i) s = Inr s' \<Longrightarrow> same_maps s s'"
  "on_program p (finish_operation_tile t) s = Inr s' \<Longrightarrow> same_maps s s'"
  using on_program_maps finish_operation_duty finish_operation_tile_duty by blast+

lemma same_maps_trans: "same_maps s t \<Longrightarrow> same_maps t u \<Longrightarrow> same_maps s u"
  by (simp add: same_maps_def)

lemma same_maps_updates [simp]:
  "same_maps (s\<lparr>sc_active := a\<rparr>) t = same_maps s t"  "same_maps s (t\<lparr>sc_active := a\<rparr>) = same_maps s t"
  "same_maps s (t\<lparr>sc_finished := a\<rparr>) = same_maps s t"
  by (simp_all add: same_maps_def program_def)

lemma end_tile_maps: "end_tile t s = Inr (r, s') \<Longrightarrow> same_maps s s'"
  by (auto simp: end_tile_def Let_def split: option.splits if_splits dest!: on_program_same_maps intro: same_maps_trans)

lemma finish_tile_step:
  assumes i: "pinv e s" and r: "finish_tile e now tile s = Inr (b, s')"
  shows "pinv e s' \<and> pipe_step\<^sup>*\<^sup>* (pipeline_of e s) (pipeline_of e s') \<and> keeps_or_ends s s'"
proof -
  obtain t where t: "end_tile tile s = Inr (b, t)"
    and u: "(if tile_unit tile = SA then refresh_status1 e now t else refresh_status2 e now t) = Inr s'"
    using r by (auto simp: finish_tile_def)
  have v: "view t = view s" by (rule end_tile_view [OF t])
  have it: "pinv e t" by (rule view_pinv [OF v [symmetric] i])
  have "refresh_status e now (tile_unit tile) t = Inr s'" "tile_unit tile \<in> {SA, PIM}"
    using u by (auto simp: refresh_status1_def refresh_status2_def tile_unit_def split: if_splits)
  from refresh_status_step [OF it this(2,1)]
  have s': "pinv e s'" "pipe_step\<^sup>*\<^sup>* (pipeline_of e t) (pipeline_of e s')" "keeps_or_ends t s'" by auto
  have "keeps_or_ends s s'" unfolding keeps_or_ends_def
  proof (intro allI impI)
    fix p sp assume "program p s = Some sp"
    then obtain sp' where sp': "program p t = Some sp'" "sp_op_map sp' = sp_op_map sp"
      using end_tile_maps [OF t] by (metis map_option_eq_Some same_maps_def)
    then show "(\<exists>sp''. program p s' = Some sp'' \<and> sp_op_map sp'' = sp_op_map sp) \<or> program p s' = None \<and> ops_ended (sc_graph s') sp"
      using s'(3) [unfolded keeps_or_ends_def, rule_format, OF sp'(1)] sp'(2) by (simp add: ops_ended_def)
  qed
  then show ?thesis using s' view_pipeline_of [OF v] by simp
qed

subsection \<open>The cycle of the scheduler\<close>

text \<open>The batches may change while there is no program.\<close>

lemma no_program_pinv:
  assumes "pinv e s" "sc_program1 s = None" "sc_program2 s = None" "sub_batch_mode (e_cfg e) \<or> sc_breq2 s' = []"
    "sc_program1 s' = None" "sc_program2 s' = None" "sc_stage s' = sc_stage s" "sc_stage_stats s' = sc_stage_stats s"
    "sc_init_stage s' = sc_init_stage s" "sc_just_one_stage s' = sc_just_one_stage s"
  shows "pinv e s' \<and> pipeline_of e s' = (pipeline_of e s)\<lparr>pl_batch1 := sc_breq1 s', pl_batch2 := sc_breq2 s'\<rparr>"
proof -
  have "pinv e s'" using assms by (auto simp: pinv_def)
  moreover have "stages_done s' = stages_done s" using assms by (simp add: stages_done_def)
  then have "pipeline_of e s' = (pipeline_of e s)\<lparr>pl_batch1 := sc_breq1 s', pl_batch2 := sc_breq2 s'\<rparr>"
    using assms by (simp add: pipeline_of_def abs_done_def abs_run_def program_def)
  ultimately show ?thesis by simp
qed

definition frame :: "scheduler \<Rightarrow> stage_program option \<times> stage_program option \<times> Stage \<times> (string \<times> u32) list \<times> Stage \<times> bool" where
  "frame s = (sc_program1 s, sc_program2 s, sc_stage s, sc_stage_stats s, sc_init_stage s, sc_just_one_stage s)"

definition batches :: "scheduler \<Rightarrow> nat list \<times> nat list" where
  "batches s = (sc_breq1 s, sc_breq2 s)"

lemma initiate_request_frame: "initiate_request e r s = Inr s' \<Longrightarrow> frame s' = frame s \<and> batches s' = batches s"
  by (auto simp: initiate_request_def Let_def upd_req_def frame_def batches_def)

lemma allocate_requests_frame: "allocate_requests e s = Inr s' \<Longrightarrow> frame s' = frame s \<and> batches s' = batches s"
proof -
  assume "allocate_requests e s = Inr s'"
  then obtain b where f: "foldE (allocate_step e) (Some 0, s) (sc_request_queue s) = Inr (b, s')"
    by (auto simp: allocate_requests_def)
  have "allocate_step e x r = Inr y \<Longrightarrow> (frame (snd y), batches (snd y)) = (frame (snd x), batches (snd x))" for x r y
    by (cases x) (auto simp: allocate_step_def initiate_request_frame split: option.splits if_splits)
  from foldE_io [where p = "\<lambda>x. (frame (snd x), batches (snd x))", OF f this] show ?thesis by simp
qed

lemma group_sub_batches_frame: "group_sub_batches e s = Inr s' \<Longrightarrow> frame s' = frame s \<and> (sub_batch_mode (e_cfg e) \<or> sc_breq2 s' = sc_breq2 s)"
  by (auto simp: group_sub_batches_def frame_def split: if_splits)

lemma init_batches_frame: "init_batches e s = Inr s' \<Longrightarrow> frame s' = frame s \<and> (sub_batch_mode (e_cfg e) \<or> sc_breq2 s' = sc_breq2 s)"
  by (auto simp: init_batches_def batches_def dest!: allocate_requests_frame group_sub_batches_frame)

lemma cleanup_request_frame: "cleanup_request s r = Inr s' \<Longrightarrow> frame s' = frame s"
  by (auto simp: cleanup_request_def Let_def upd_req_def frame_def split: if_splits)

lemma cleanup_sub_batch_frame: "cleanup_sub_batch b s = Inr s' \<Longrightarrow> frame s' = frame s"
  unfolding cleanup_sub_batch_def by (rule foldE_io [where p = frame]) (auto dest: cleanup_request_frame)

lemma end_batches_frame: "end_batches s = Inr s' \<Longrightarrow> frame s' = frame s \<and> batches s' = ([], [])"
  by (auto simp: end_batches_def frame_def batches_def dest!: cleanup_sub_batch_frame)

lemma build_program_eq: "build_program e p s = Some (Inr s') \<Longrightarrow>
    \<exists>sp g. StageProgram_new e (sc_model s) (sc_reqs s) (batch_on p s) p (sc_stage s) (sc_graph s) = Some (Inr (sp, g)) \<and>
      s' = set_program p (Some sp) (s\<lparr>sc_graph := g\<rparr>)"
  by (auto simp: build_program_def)

lemma unit_in_neq: "unit_in True st \<noteq> unit_in False st"
  by (simp add: unit_in_def)

lemma prog_ops_built:
  assumes "sp_op_map sp = [length (g_ops g)..<length (g_ops g1)]" "op_names g1 = op_names g @ os" "op_names g2 = op_names g1 @ os'"
  shows "prog_ops g2 sp = os"
proof (rule nth_equalityI)
  have l: "length (g_ops g1) = length (g_ops g) + length os" by (rule op_names_length [OF assms(2)])
  then show "length (prog_ops g2 sp) = length os" by (simp add: prog_ops_def assms(1))
  fix k assume "k < length (prog_ops g2 sp)"
  then have k: "k < length os" using l by (simp add: prog_ops_def assms(1))
  have "length (op_names g) = length (g_ops g)" by (simp add: op_names_def)
  then show "prog_ops g2 sp ! k = os ! k" using k l by (simp add: prog_ops_def assms nth_append)
qed

lemma batch_on_jobs:
  assumes "pinv e s" "may_make_program e s" "p \<in> {SA, PIM}"
  shows "(if batch_on p s = [] then [] else ops_of (stage_jobs p (sc_stage s))) = ops_of (jobs_in e (first_on p (sc_stage s)) (sc_stage s))"
proof -
  let ?f = "first_on p (sc_stage s)"
  have "jobs_in e ?f (sc_stage s) = (if ?f \<or> sub_batch_mode (e_cfg e) then stage_jobs p (sc_stage s) else [])"
    unfolding jobs_in_def unit_first(1) [OF assms(3)] ..
  moreover have "sub_batch_mode (e_cfg e) \<or> sc_breq2 s = []" using assms(1) by (auto simp: pinv_def)
  ultimately show ?thesis using assms(2) unfolding batch_first [OF assms(3)] may_make_program_def by auto
qed

lemma make_program_step:
  assumes i: "pinv e s" and may: "may_make_program e s" and m: "make_program e now s = Some (Inr s')"
  shows "pinv e s' \<and> pipe_step\<^sup>*\<^sup>* (pipeline_of e s) (pipeline_of e s')"
proof -
  have n: "sc_program1 s = None" "sc_program2 s = None" using may by (simp_all add: may_make_program_def)
  obtain t u v where t: "build_program e SA s = Some (Inr t)" and u: "build_program e PIM t = Some (Inr u)"
    and v: "refresh_status1 e now u = Inr v" and s': "refresh_status2 e now v = Inr s'" using m by (auto simp: make_program_def)
  define st where "st = sc_stage s"
  obtain sp1 g1 where 1: "StageProgram_new e (sc_model s) (sc_reqs s) (batch_on SA s) SA st (sc_graph s) = Some (Inr (sp1, g1))"
    "t = set_program SA (Some sp1) (s\<lparr>sc_graph := g1\<rparr>)" using build_program_eq [OF t] by (auto simp: st_def)
  have bt: "batch_on PIM t = batch_on PIM s" "sc_stage t = st" by (simp_all add: 1 batch_on_def set_program_def st_def)
  obtain sp2 g2 where 2: "StageProgram_new e (sc_model t) (sc_reqs t) (batch_on PIM s) PIM st g1 = Some (Inr (sp2, g2))"
    "u = set_program PIM (Some sp2) (t\<lparr>sc_graph := g2\<rparr>)" using build_program_eq [OF u] bt by (auto simp: 1 set_program_def)
  have u: "u = s\<lparr>sc_program1 := Some sp1, sc_program2 := Some sp2, sc_graph := g2\<rparr>" by (simp add: 1 2 set_program_def)
  define os1 where "os1 = ops_of (jobs_in e (first_on SA st) st)"
  define os2 where "os2 = ops_of (jobs_in e (first_on PIM st) st)"
  have info: "sp_info sp1 = (batch_on SA s, SA, st)" "sp_info sp2 = (batch_on PIM s, PIM, st)" and st: "st \<noteq> Stage_Finish"
    using StageProgram_new_info [OF 1(1)] StageProgram_new_info [OF 2(1)] by auto
  have jobs: "p \<in> {SA, PIM} \<Longrightarrow> (if batch_on p s = [] then [] else ops_of (stage_jobs p st)) = ops_of (jobs_in e (first_on p st) st)" for p
    using batch_on_jobs [OF i may] by (simp only: st_def)
  have o1: "sp_op_map sp1 = [length (g_ops (sc_graph s))..<length (g_ops g1)]" "op_names g1 = op_names (sc_graph s) @ os1"
    using StageProgram_new_ops [OF 1(1)] jobs [of SA] unfolding os1_def by simp_all
  have o2: "sp_op_map sp2 = [length (g_ops g1)..<length (g_ops g2)]" "op_names g2 = op_names g1 @ os2"
    using StageProgram_new_ops [OF 2(1)] jobs [of PIM] unfolding os2_def by simp_all
  have ops: "prog_ops g2 sp1 = os1" "prog_ops g2 sp2 = os2"
    using prog_ops_built [OF o1 o2(2)] prog_ops_built [OF o2, of g2 "[]"] by simp_all
  have ex: "pr_info (op_names g2) sp1 = expected e SA s" "pr_info (op_names g2) sp2 = expected e PIM s"
    using info ops batch_first [of SA s] batch_first [of PIM s]
    by (simp_all add: pr_info_def expected_def sp_info_def prog_ops_def os1_def os2_def flip: st_def)
  have "expected e p u = expected e p s" for p by (simp add: expected_def u)
  then have iu: "pinv e u" using i ex st by (auto simp: pinv_def u st_def)
  have stages: "sub_batch_mode (e_cfg e) \<or> st \<in> {Stage_A, Stage_B, Stage_E}" using i st by (auto simp: pinv_def st_def)
  have before: "stages_done s = stages_before e st" using i by (intro stages_done_before) (simp add: pinv_def st_def)
  have p: "program p u = (if p = SA then Some sp1 else Some sp2)" "program p s = None" for p by (simp_all add: program_def u n)
  let ?q = "pipeline_of e s"
  have idle: "pl_run1 ?q = None" "pl_run2 ?q = None" by (simp_all add: pipeline_of_def abs_run_def p)
  have dn: "pl_done1 ?q = ops_of (concat (map (jobs_in e True) (stages_before e st)))"
    "pl_done2 ?q = ops_of (concat (map (jobs_in e False) (stages_before e st)))" by (simp_all add: pipeline_of_def abs_done_def p before)
  have sd: "stages_done u = stages_done s" by (simp add: u stages_done_def)
  have ru: "sc_stage u = st" "sc_graph u = g2" "sc_breq1 u = sc_breq1 s" "sc_breq2 u = sc_breq2 s" by (simp_all add: u st_def)
  have run: "abs_run first u = Some (unit_in first st, if first then sc_breq1 s else sc_breq2 s, ops_of (jobs_in e first st))" for first
    using info ops batch_first [of SA s] batch_first [of PIM s]
    by (cases first) (auto simp: abs_run_def p ru sp_info_def os1_def os2_def unit_in_def first_on_def split: if_splits simp flip: st_def)
  have uq: "pipeline_of e u = ?q\<lparr>pl_run1 := Some (unit_in True st, pl_batch1 ?q, ops_of (jobs_in e True st)),
      pl_run2 := Some (unit_in False st, pl_batch2 ?q, ops_of (jobs_in e False st))\<rparr>"
    by (simp add: pipeline_of_def run) (simp add: abs_done_def p sd ru flip: st_def)
  have "pipe_step ?q (pipeline_of e u)" unfolding uq
    by (rule pipe_start) (use idle dn next_jobs_in [OF st stages] in \<open>simp_all add: unit_in_neq\<close>)
  moreover have "pinv e v \<and> pipe_step\<^sup>*\<^sup>* (pipeline_of e u) (pipeline_of e v)"
    using refresh_status_step [OF iu _ v [unfolded refresh_status1_def]] by simp
  moreover from this have "pinv e s' \<and> pipe_step\<^sup>*\<^sup>* (pipeline_of e v) (pipeline_of e s')"
    using refresh_status_step [OF _ _ s' [unfolded refresh_status2_def]] by simp
  ultimately show ?thesis by (meson converse_rtranclp_into_rtranclp rtranclp_trans)
qed

lemma frame_eqD: "frame s' = frame s \<Longrightarrow> sc_program1 s' = sc_program1 s \<and> sc_program2 s' = sc_program2 s \<and> sc_stage s' = sc_stage s \<and>
    sc_stage_stats s' = sc_stage_stats s \<and> sc_init_stage s' = sc_init_stage s \<and> sc_just_one_stage s' = sc_just_one_stage s"
  by (simp add: frame_def)

lemma frame_pinv:
  assumes "pinv e s" "sc_program1 s = None" "sc_program2 s = None" "frame s' = frame s"
    "sub_batch_mode (e_cfg e) \<or> sc_breq2 s' = sc_breq2 s \<or> sc_breq2 s' = []"
  shows "pinv e s' \<and> pipeline_of e s' = (pipeline_of e s)\<lparr>pl_batch1 := sc_breq1 s', pl_batch2 := sc_breq2 s'\<rparr>"
  by (rule no_program_pinv [OF assms(1-3)]) (use assms frame_eqD [OF assms(4)] in \<open>auto simp: pinv_def\<close>)

text \<open>Without programs, the pipeline is idle; what it has done depends on the stage.\<close>

lemma idle_pipeline:
  assumes "pinv e s" "sc_program1 s = None" "sc_program2 s = None"
  shows "pl_run1 (pipeline_of e s) = None" "pl_run2 (pipeline_of e s) = None"
    "pl_done1 (pipeline_of e s) = ops_of (concat (map (jobs_in e True) (stages_before e (sc_stage s))))"
    "pl_done2 (pipeline_of e s) = ops_of (concat (map (jobs_in e False) (stages_before e (sc_stage s))))"
proof -
  have "stages_done s = stages_before e (sc_stage s)" using assms(1) by (intro stages_done_before) (simp add: pinv_def)
  then show "pl_run1 (pipeline_of e s) = None" "pl_run2 (pipeline_of e s) = None"
    "pl_done1 (pipeline_of e s) = ops_of (concat (map (jobs_in e True) (stages_before e (sc_stage s))))"
    "pl_done2 (pipeline_of e s) = ops_of (concat (map (jobs_in e False) (stages_before e (sc_stage s))))"
    using assms(2,3) by (simp_all add: pipeline_of_def abs_run_def abs_done_def program_def)
qed

lemma finished_pipeline:
  assumes "pinv e s" "sc_stage s = Stage_Finish"
  shows "pl_run1 (pipeline_of e s) = None" "pl_run2 (pipeline_of e s) = None"
    "pl_done1 (pipeline_of e s) = ops_of (layers (if sub_batch_mode (e_cfg e) then 2 else 1))"
    "pl_done2 (pipeline_of e s) = ops_of (layers (if sub_batch_mode (e_cfg e) then 2 else 0))"
proof -
  have n: "sc_program1 s = None" "sc_program2 s = None" using assms by (simp_all add: pinv_def)
  show "pl_run1 (pipeline_of e s) = None" "pl_run2 (pipeline_of e s) = None"
    "pl_done1 (pipeline_of e s) = ops_of (layers (if sub_batch_mode (e_cfg e) then 2 else 1))"
    "pl_done2 (pipeline_of e s) = ops_of (layers (if sub_batch_mode (e_cfg e) then 2 else 0))"
    using idle_pipeline [OF assms(1) n] by (simp_all add: assms(2) layers_complete) (simp_all add: layers_def)
qed

lemma init_batches_step:
  assumes "pinv e s" "sc_program1 s = None" "sc_program2 s = None" "sc_stage s = sc_init_stage s" "init_batches e s = Inr t"
  shows "pinv e t \<and> pipe_step (pipeline_of e s) (pipeline_of e t)"
proof -
  note f = init_batches_frame [OF assms(5)]
  have d: "sub_batch_mode (e_cfg e) \<or> sc_breq2 t = sc_breq2 s \<or> sc_breq2 t = []" using f by blast
  note t = frame_pinv [OF assms(1-3) conjunct1 [OF f] d, THEN conjunct1] frame_pinv [OF assms(1-3) conjunct1 [OF f] d, THEN conjunct2]
  have "sc_stage s = Stage_A" using assms(1,4) by (simp add: pinv_def)
  then have "stages_before e (sc_stage s) = []" by (simp add: stages_before_def)
  then have "pipe_step (pipeline_of e s) (pipeline_of e t)" unfolding t(2)
    by (intro pipe_batch) (simp_all add: idle_pipeline [OF assms(1-3)])
  then show ?thesis using t(1) by simp
qed

lemma end_batches_step:
  assumes "pinv e s" "sc_stage s = Stage_Finish" "end_batches s = Inr t"
  shows "pinv e t \<and> pipe_step (pipeline_of e s) (pipeline_of e t)"
proof -
  have n: "sc_program1 s = None" "sc_program2 s = None" using assms by (simp_all add: pinv_def)
  have b: "frame t = frame s" "sc_breq1 t = []" "sc_breq2 t = []" using end_batches_frame [OF assms(3)] by (simp_all add: batches_def)
  have t: "pinv e t" "pipeline_of e t = (pipeline_of e s)\<lparr>pl_batch1 := [], pl_batch2 := []\<rparr>"
    using frame_pinv [OF assms(1) n b(1)] b(2,3) by simp_all
  have "pipe_step (pipeline_of e s) (pipeline_of e t)" unfolding t(2)
    by (rule pipe_close [OF finished_pipeline [OF assms(1,2)]]) simp
  then show ?thesis using t(1) by simp
qed

lemma cycle_step:
  assumes i: "pinv e s" and c: "Scheduler_cycle e now s = Some (Inr s')"
  shows "pinv e s' \<and> pipe_step\<^sup>*\<^sup>* (pipeline_of e s) (pipeline_of e s') \<and> keeps_or_ends s s'"
proof -
  obtain t where t: "(if sc_program1 s = None \<and> sc_program2 s = None \<and> sc_stage s = sc_init_stage s \<and> sc_request_queue s \<noteq> []
      then init_batches e s else Inr s) = Inr t"
    and u: "(let s = t\<lparr>sc_cycles := sc_cycles t + 1\<rparr> in if \<not> may_make_program e s then Some (Inr s)
       else if sc_stage s = Stage_Finish then Some (end_batches s) else make_program e now s) = Some (Inr s')"
    using c by (auto simp: Scheduler_cycle_def)
  define u where "u = t\<lparr>sc_cycles := sc_cycles t + 1\<rparr>"
  have f: "frame t = frame s" using t by (auto split: if_splits dest: init_batches_frame)
  have t': "pinv e t \<and> pipe_step\<^sup>*\<^sup>* (pipeline_of e s) (pipeline_of e t)"
  proof (cases "t = s")
    case True then show ?thesis using i by simp
  next
    case False
    then show ?thesis using t init_batches_step [OF i] by (auto split: if_splits)
  qed
  have v: "view u = view t" by (simp add: u_def)
  have iu: "pinv e u" "pipe_step\<^sup>*\<^sup>* (pipeline_of e s) (pipeline_of e u)"
    using t' view_pinv [OF v [symmetric]] view_pipeline_of [OF v] by auto
  have pu: "program p u = program p s" for p using f by (simp add: u_def frame_def program_def)
  have u: "(if \<not> may_make_program e u then Some (Inr u)
       else if sc_stage u = Stage_Finish then Some (end_batches u) else make_program e now u) = Some (Inr s')"
    using u by (simp only: u_def Let_def)
  show ?thesis
  proof (cases "may_make_program e u")
    case False then show ?thesis using u iu pu by (auto simp: keeps_or_ends_def)
  next
    case True
    then have n: "sc_program1 u = None" "sc_program2 u = None" by (simp_all add: may_make_program_def)
    have "pinv e s' \<and> pipe_step\<^sup>*\<^sup>* (pipeline_of e u) (pipeline_of e s')"
    proof (cases "sc_stage u = Stage_Finish")
      case fin: True
      then have "end_batches u = Inr s'" using u True by simp
      then show ?thesis using end_batches_step [OF iu(1) fin] by blast
    next
      case fin: False
      then show ?thesis using u True make_program_step [OF iu(1) True] by simp
    qed
    moreover have "program p s = None" for p using pu [of p] n by (cases "p = SA") (simp_all add: program_def)
    ultimately show ?thesis using iu by (auto simp: keeps_or_ends_def)
  qed
qed

text \<open>
  The steps the simulator makes with the scheduler: a cycle, the hand-out of a tile to a core, the end
  of a tile, and the exchange of requests with the client.
\<close>

inductive sched_step :: "env \<Rightarrow> scheduler \<Rightarrow> scheduler \<Rightarrow> bool" for e where
  step_cycle: "Scheduler_cycle e now s = Some (Inr s') \<Longrightarrow> sched_step e s s'"
| step_issue: "\<lbrakk>top_tile p s = (t, s1); tl_status t \<noteq> EMPTY; get_tile p s1 = Inr s'\<rbrakk> \<Longrightarrow> sched_step e s s'"
| step_look: "top_tile p s = (t, s') \<Longrightarrow> sched_step e s s'"
| step_finish: "finish_tile e now t s = Inr (b, s') \<Longrightarrow> sched_step e s s'"
| step_new: "sched_step e s (add_request (length (sc_reqs s)) (s\<lparr>sc_reqs := sc_reqs s @ [q]\<rparr>))"
| step_pop: "pop_completed_request s = Inr (r, s') \<Longrightarrow> sched_step e s s'"
| step_reset: "sched_step e s (s\<lparr>sc_stage_changed := False\<rparr>)"

inductive_cases sched_stepE: "sched_step e s s'"

lemma top_tile_view: "top_tile p s = (t, s') \<Longrightarrow> view s' = view s \<and> (\<forall>q. program q s' = program q s)"
  by (auto simp: top_tile_def program_def set_tiles_def view_def Let_def split: list.splits if_splits)

lemma get_tile_view: "get_tile p s = Inr s' \<Longrightarrow> view s' = view s \<and> (\<forall>q. program q s' = program q s)"
  by (auto simp: get_tile_def program_def set_tiles_def view_def Let_def split: list.splits if_splits prod.splits)

lemma view_step:
  assumes "pinv e s" "view s' = view s" "\<And>q. program q s' = program q s"
  shows "pinv e s' \<and> pipe_step\<^sup>*\<^sup>* (pipeline_of e s) (pipeline_of e s') \<and> keeps_or_ends s s'"
  using view_pinv [OF assms(2) [symmetric] assms(1)] view_pipeline_of [OF assms(2)] assms(3) by (simp add: keeps_or_ends_def)

lemma sched_step_refines:
  assumes "pinv e s" "sched_step e s s'"
  shows "pinv e s' \<and> pipe_step\<^sup>*\<^sup>* (pipeline_of e s) (pipeline_of e s') \<and> keeps_or_ends s s'"
  using assms(2)
proof cases
  case (step_cycle now) then show ?thesis using cycle_step [OF assms(1)] by blast
next
  case (step_issue p t s1)
  then have "view s' = view s" "program q s' = program q s" for q
    using top_tile_view [OF step_issue(1)] get_tile_view [OF step_issue(3)] by auto
  then show ?thesis by (rule view_step [OF assms(1)])
next
  case (step_look p t)
  then show ?thesis using top_tile_view [OF step_look] by (intro view_step [OF assms(1)]) simp_all
next
  case (step_finish now t b) then show ?thesis using finish_tile_step [OF assms(1)] by blast
next
  case (step_new q)
  show ?thesis by (rule view_step [OF assms(1)]) (simp_all add: step_new add_request_def program_def view_def)
next
  case (step_pop r)
  then show ?thesis by (intro view_step [OF assms(1)]) (auto simp: pop_completed_request_def program_def view_def)
next
  case step_reset
  show ?thesis by (rule view_step [OF assms(1)]) (simp_all add: step_reset program_def)
qed

definition pipeline0 :: pipeline where
  "pipeline0 = \<lparr>pl_batch1 = [], pl_batch2 = [], pl_done1 = [], pl_done2 = [], pl_run1 = None, pl_run2 = None\<rparr>"

lemma Scheduler_new_frame: "Scheduler_new e mo g junk = Inr s \<Longrightarrow>
    frame s = (None, None, Stage_A, [], Stage_A, False) \<and> batches s = ([], [])"
  by (clarsimp simp: Scheduler_new_def Let_def if_Inl frame_def batches_def split del: if_split)

lemma Scheduler_new_pinv: "Scheduler_new e mo g junk = Inr s \<Longrightarrow> pinv e s \<and> pipeline_of e s = pipeline0"
  by (drule Scheduler_new_frame) (simp add: frame_def batches_def pinv_def stages_before_def pipeline_of_def abs_done_def
      abs_run_def stages_done_def program_def pipeline0_def)

lemma sched_run_refines:
  "(sched_step e)\<^sup>*\<^sup>* s0 s \<Longrightarrow> pinv e s0 \<Longrightarrow> pinv e s \<and> pipe_step\<^sup>*\<^sup>* (pipeline_of e s0) (pipeline_of e s)"
  by (induction rule: rtranclp_induct) (auto dest: sched_step_refines intro: rtranclp_trans)

text \<open>
  C1: The scheduler refines the pipeline of the two sub-batches.  From the constructor on, whatever the
  order of cycles, tiles and requests, every step of the scheduler is a sequence of steps of the
  specification.  Each of the two batches, chosen before the work begins, passes through the operations of its
  layers in order; the programs at work hold the requests of their batch and the very operations that come
  next, one program on the systolic array and the other in the memory.  A program is only given up when all its
  operations are finished, and in the last stage both sub-batches have two complete layers, or the only
  batch has one.
\<close>

theorem scheduler_refines_pipeline:
  assumes "Scheduler_new e mo g junk = Inr s0" "(sched_step e)\<^sup>*\<^sup>* s0 s"
  shows "pipeline_of e s0 = pipeline0 \<and> pipe_step\<^sup>*\<^sup>* pipeline0 (pipeline_of e s) \<and>
    (\<forall>s'. sched_step e s s' \<longrightarrow> pipe_step\<^sup>*\<^sup>* (pipeline_of e s) (pipeline_of e s') \<and> keeps_or_ends s s') \<and>
    (sc_stage s = Stage_Finish \<longrightarrow> pl_run1 (pipeline_of e s) = None \<and> pl_run2 (pipeline_of e s) = None \<and>
       pl_done1 (pipeline_of e s) = ops_of (layers (if sub_batch_mode (e_cfg e) then 2 else 1)) \<and>
       pl_done2 (pipeline_of e s) = ops_of (layers (if sub_batch_mode (e_cfg e) then 2 else 0)))"
proof -
  have 0: "pinv e s0" "pipeline_of e s0 = pipeline0" using Scheduler_new_pinv [OF assms(1)] by auto
  have s: "pinv e s" "pipe_step\<^sup>*\<^sup>* pipeline0 (pipeline_of e s)" using sched_run_refines [OF assms(2) 0(1)] 0(2) by auto
  show ?thesis using 0(2) s(2) sched_step_refines [OF s(1)] finished_pipeline [OF s(1)] by blast
qed

definition demo_sched_env :: env where
  "demo_sched_env = demo_stage_env\<lparr>e_cfg := (e_cfg demo_stage_env)\<lparr>sub_batch_mode := False, core_width := 2, core_height := 2,
     dram_req_size := 4\<rparr>\<rparr>"

definition demo_sched_graph :: graph where
  "demo_sched_graph = demo_start\<lparr>g_mem := demo_pim_mem\<lparr>ms_next_id := 1,
     ms_kv := (ms_kv demo_pim_mem)\<lparr>kv_rows := [map of_nat [7..<40]]\<rparr>\<rparr>\<rparr>"

definition demo_sched_init :: "fault + scheduler" where
  "demo_sched_init = bindE (init_params demo_sched_env (fst demo_model0, demo_sched_graph)) (\<lambda>(mo, g).
     Scheduler_new demo_sched_env mo g Stage_A)"

definition demo_new :: "scheduler \<Rightarrow> scheduler" where
  "demo_new s = add_request (length (sc_reqs s)) (s\<lparr>sc_reqs := sc_reqs s @ [demo_request\<lparr>is_initiated := False, K_cache := [], V_cache := []\<rparr>]\<rparr>)"

definition demo_cycle :: "fault + scheduler" where
  "demo_cycle = bindE demo_sched_init (\<lambda>s. case Scheduler_cycle demo_sched_env 0 (demo_new (demo_new s)) of None \<Rightarrow> Inl Exited | Some r \<Rightarrow> r)"

lemma demo_cycle_shape: "(case demo_cycle of Inl _ \<Rightarrow> None
     | Inr s \<Rightarrow> Some (stageToString (sc_stage s), map_option (\<lambda>sp. (sp_platform sp, sp_breq sp, prog_ops (sc_graph s) sp)) (sc_program1 s),
         length (sc_tiles1 s), sc_program2 s = None)) =
   Some (''A'', Some (SA, [0, 1], [''layer0.attn.ln'', ''layer0.attn.QKVgen'']), 1, True)"
  by code_simp

theorem scheduler_refines_pipeline_witness:
  "\<exists>s0 s. demo_sched_init = Inr s0 \<and> (sched_step demo_sched_env)\<^sup>*\<^sup>* s0 s \<and> pipe_step\<^sup>*\<^sup>* pipeline0 (pipeline_of demo_sched_env s) \<and>
     pl_run1 (pipeline_of demo_sched_env s) = Some (SA, [0, 1], [''layer0.attn.ln'', ''layer0.attn.QKVgen''])"
proof -
  obtain s where s: "demo_cycle = Inr s" "stageToString (sc_stage s) = ''A''"
    "map_option (\<lambda>sp. (sp_platform sp, sp_breq sp, prog_ops (sc_graph s) sp)) (sc_program1 s) =
       Some (SA, [0, 1], [''layer0.attn.ln'', ''layer0.attn.QKVgen''])"
    using demo_cycle_shape by (auto split: sum.splits)
  from s(1) obtain s0 where s0: "demo_sched_init = Inr s0" "Scheduler_cycle demo_sched_env 0 (demo_new (demo_new s0)) = Some (Inr s)"
    unfolding demo_cycle_def by (auto split: option.splits)
  then obtain mo g where n: "Scheduler_new demo_sched_env mo g Stage_A = Inr s0" by (auto simp: demo_sched_init_def)
  have a: "sched_step demo_sched_env s (demo_new s)" for s unfolding demo_new_def by (rule step_new)
  have r: "(sched_step demo_sched_env)\<^sup>*\<^sup>* s0 s"
    using a [of s0] a [of "demo_new s0"] step_cycle [OF s0(2)] by (meson converse_rtranclp_into_rtranclp rtranclp.rtrancl_refl)
  have "sc_stage s = Stage_A" using s(2) by (cases "sc_stage s") (simp_all add: stageToString_def)
  then have "pl_run1 (pipeline_of demo_sched_env s) = Some (SA, [0, 1], [''layer0.attn.ln'', ''layer0.attn.QKVgen''])"
    using s(3) by (simp add: pipeline_of_def abs_run_def unit_in_def program_def)
  with scheduler_refines_pipeline [OF n r] s0(1) r show ?thesis by blast
qed

end
