(* ===== verification/Simulator.thy ===== *)
theory Simulator
  imports MemSystem SchedulerRun CoreInv Requests
begin

text \<open>
  \<open>Simulator\<close> (Simulator.h, Simulator.cc): the parts of the simulator, the clocks that drive them, and the loop
  that moves tiles between the scheduler and the cores, and requests between the cores, the network and the
  memory.
\<close>

subsection \<open>State\<close>

text \<open>What the end of a stage records; the utilisation of the memory, a double that is only printed, is left out.\<close>

record StageStat =
  sg_stage :: Stage
  sg_done_cycle :: u64
  sg_pim_cycles :: u64
  sg_per_channel :: "u64 list"
  sg_pim_max :: u64
  sg_pim_min :: u64
  sg_npu_cycles :: u64

text \<open>
  The parts of the simulator.  \<open>si_statics\<close> are the static variables of \<open>MemoryAccess\<close>, which all cores
  share.  The store of the requests is that of the client until they are handed over, then that of the scheduler;
  both number them in the order in which the client issues them.
\<close>

record simulator =
  si_core_cycles :: cycle_type
  si_cores :: "core list"
  si_statics :: req_state
  si_icnt :: icnt
  si_dram :: pim_memory
  si_sched :: scheduler
  si_client :: client
  si_stage_stats :: "StageStat list"

text \<open>
  The constructor, and \<open>launch\<close>, which gives the scheduler its model.  \<open>rr\<close> and \<open>junk\<close> are the values of members that no
  constructor sets, \<open>file\<close> is the data set.  A type of scheduler that is neither of the two leaves the pointer
  null; the first call then is undefined.
\<close>

definition Simulator_new :: "env \<Rightarrow> mem_config \<Rightarrow> int \<Rightarrow> u32 \<Rightarrow> Stage \<Rightarrow> req_state \<Rightarrow> model \<Rightarrow> graph \<Rightarrow> string option \<Rightarrow> request_generator \<Rightarrow>
    fault + simulator" where
  "Simulator_new e m epoch rr junk statics mo g file rg = (let cfg = e_cfg e in
     bindE (PIM_new cfg m epoch) (\<lambda>d. ast (icnt_type cfg = SIMPLE)
      (bindE (if scheduler_type cfg \<in> {''simple'', ''neupims''} then Scheduler_new e mo g junk else Inl Undefined) (\<lambda>sc.
       bindE (Client_new cfg file rg) (\<lambda>cl.
       Inr \<lparr>si_core_cycles = 0, si_cores = map (\<lambda>i. NeuPIMSCore_new e (of_nat i) statics) [0..<unat (num_cores cfg)],
         si_statics = statics, si_icnt = SimpleInterconnect_new cfg rr, si_dram = d, si_sched = sc, si_client = cl, si_stage_stats = []\<rparr>)))))"

subsection \<open>The clocks\<close>

text \<open>
  The times are doubles.  The model takes any ordered type with an addition, which need not be exact.  The mask
  says which of the core, memory and network clocks tick.
\<close>

record 't clocks =
  core_period :: 't
  dram_period :: 't
  icnt_period :: 't
  core_time :: 't
  dram_time :: 't
  icnt_time :: 't

definition set_cycle_mask :: "'t::{linorder,plus} clocks \<Rightarrow> (bool \<times> bool \<times> bool) \<times> 't clocks" where
  "set_cycle_mask k = (let t = min (core_time k) (min (dram_time k) (icnt_time k));
      c = (core_time k \<le> t); d = (dram_time k \<le> t); i = (icnt_time k \<le> t)
    in ((c, d, i), k\<lparr>core_time := (if c then core_time k + core_period k else core_time k),
          dram_time := (if d then dram_time k + dram_period k else dram_time k),
          icnt_time := (if i then icnt_time k + icnt_period k else icnt_time k)\<rparr>))"

subsection \<open>The core clock\<close>

text \<open>All waiting requests of the client go to the scheduler, all completed ones back.\<close>

definition hand_over :: "simulator \<Rightarrow> fault + simulator" where
  "hand_over s = bindE (pop_request (si_client s)) (\<lambda>(r, cl). bindE (at (cl_reqs cl) r) (\<lambda>q.
     let sc = si_sched s
     in Inr (s\<lparr>si_client := cl, si_sched := add_request (length (sc_reqs sc)) (sc\<lparr>sc_reqs := sc_reqs sc @ [q]\<rparr>)\<rparr>)))"

definition hand_back :: "simulator \<Rightarrow> fault + simulator" where
  "hand_back s = bindE (pop_completed_request (si_sched s)) (\<lambda>(r, sc). bindE (at (sc_reqs sc) r) (\<lambda>q.
     let cl = si_client s
     in bindE (receive_response r (cl\<lparr>cl_reqs := (cl_reqs cl)[r := q]\<rparr>)) (\<lambda>cl. Inr (s\<lparr>si_client := cl, si_sched := sc\<rparr>))))"

definition update_stage_stat :: "simulator \<Rightarrow> fault + simulator" where
  "update_stage_stat s = bindE (PIM_log (si_dram s)) (\<lambda>d.
     let per_channel = GetPIMCycles (pm_mem d)
     in bindE (PIM_get_avg_pim_cycle d) (\<lambda>(avg, d). if per_channel = [] then Inl Undefined else
       Inr (s\<lparr>si_dram := PIM_get_avg_bw_util d,
              si_stage_stats := si_stage_stats s @ [\<lparr>sg_stage = sc_prev_stage (si_sched s), sg_done_cycle = si_core_cycles s,
                sg_pim_cycles = avg, sg_per_channel = per_channel, sg_pim_max = Max (set per_channel), sg_pim_min = Min (set per_channel),
                sg_npu_cycles = 0\<rparr>]\<rparr>)))"

definition end_stage :: "simulator \<Rightarrow> fault + simulator" where
  "end_stage s = (if sc_stage_changed (si_sched s) then update_stage_stat (s\<lparr>si_sched := (si_sched s)\<lparr>sc_stage_changed := False\<rparr>\<rparr>) else Inr s)"

text \<open>One core: it gives back a finished tile, takes new ones, and makes a cycle.\<close>

definition finish_on :: "env \<Rightarrow> nat \<Rightarrow> simulator \<Rightarrow> fault + simulator" where
  "finish_on e i s = bindE (at (si_cores s) i) (\<lambda>c. let (t, c) = pop_finished_tile c; s = s\<lparr>si_cores := (si_cores s)[i := c]\<rparr> in
     case t of None \<Rightarrow> Inr s
     | Some t \<Rightarrow> if tl_status t = FINISH
         then bindE (finish_tile e (si_core_cycles s) t (si_sched s)) (\<lambda>(_, sc). Inr (s\<lparr>si_sched := sc\<rparr>)) else Inr s)"

definition issue_on :: "StagePlatform \<Rightarrow> nat \<Rightarrow> simulator \<Rightarrow> fault + simulator" where
  "issue_on p i s = (if program p (si_sched s) = None then Inr s else bindE (at (si_cores s) i) (\<lambda>c.
     let (t, sc) = top_tile p (si_sched s); s = s\<lparr>si_sched := sc\<rparr> in
     if tl_status t \<noteq> EMPTY \<and> (if p = SA then can_issue t c else can_issue_pim c) \<and> tl_status t = INITIALIZED
     then ast (tl_stage_platform t = p) (bindE (if p = SA then issue t c else issue_pim t c) (\<lambda>c. bindE (get_tile p sc) (\<lambda>sc.
       Inr (s\<lparr>si_cores := (si_cores s)[i := c], si_sched := sc\<rparr>))))
     else Inr s))"

definition cycle_on :: "env \<Rightarrow> nat \<Rightarrow> simulator \<Rightarrow> fault + simulator" where
  "cycle_on e i s = bindE (at (si_cores s) i) (\<lambda>c. bindE (NeuPIMSystolicWS_cycle e (c\<lparr>c_req := si_statics s\<rparr>)) (\<lambda>c.
     Inr (s\<lparr>si_cores := (si_cores s)[i := c], si_statics := c_req c\<rparr>)))"

definition core_part :: "env \<Rightarrow> simulator \<Rightarrow> nat \<Rightarrow> fault + simulator" where
  "core_part e s i = bindE (finish_on e i s) (\<lambda>s.
     if empty1 (si_sched s) \<and> empty2 (si_sched s) then Inr s
     else bindE (issue_on SA i s) (\<lambda>s. bindE (issue_on PIM i s) (cycle_on e i)))"

definition sched_cycle :: "env \<Rightarrow> simulator \<Rightarrow> simulator run" where
  "sched_cycle e s = bindR ((if scheduler_type (e_cfg e) = ''simple'' then OrcaScheduler_cycle else NeuPIMScheduler_cycle)
     e (si_core_cycles s) (si_sched s)) (\<lambda>sc. Some (Inr (s\<lparr>si_sched := sc\<rparr>)))"

definition core_clock :: "env \<Rightarrow> simulator \<Rightarrow> simulator run" where
  "core_clock e s =
     bindR (Some (iterE (length (waiting_queue (si_client s))) hand_over s)) (\<lambda>s.
     bindR (client_cycle (si_client s)) (\<lambda>cl. let s = s\<lparr>si_client := cl\<rparr> in
     bindR (Some (iterE (length (sc_completed (si_sched s))) hand_back s)) (\<lambda>s.
     bindR (Some (end_stage s)) (\<lambda>s.
     bindR (sched_cycle e s) (\<lambda>s.
     bindR (Some (foldE (core_part e) s [0..<unat (num_cores (e_cfg e))])) (\<lambda>s.
     Some (Inr (s\<lparr>si_core_cycles := si_core_cycles s + 1\<rparr>))))))))"

subsection \<open>The memory clock and the network clock\<close>

definition dram_clock :: "mem_config \<Rightarrow> simulator \<Rightarrow> fault + simulator" where
  "dram_clock m s = bindE (PIM_cycle m (si_dram s)) (\<lambda>d. Inr (s\<lparr>si_dram := d\<rparr>))"

text \<open>A request goes to the node of its channel, an answer to the port of its core and channel.\<close>

definition get_dest_node :: "sim_config \<Rightarrow> mem_config \<Rightarrow> MemoryAccess \<Rightarrow> fault + u32" where
  "get_dest_node cfg m a = (let ch = PIM_get_channel_id m a;
      dest = (if ma_request a then num_cores cfg * dram_channels cfg + ch else ma_core_id a * dram_channels cfg + ch)
    in ast (dest < 100) (Inr dest))"

text \<open>The port that the loop computes for a core and a channel.\<close>

definition core_port :: "sim_config \<Rightarrow> nat \<Rightarrow> nat \<Rightarrow> u32" where
  "core_port cfg i ch = of_nat i * num_cores cfg + of_nat ch"

definition send_request :: "env \<Rightarrow> mem_config \<Rightarrow> StagePlatform \<Rightarrow> nat \<Rightarrow> nat \<Rightarrow> simulator \<Rightarrow> fault + simulator" where
  "send_request e m p i ch s = bindE (at (si_cores s) i) (\<lambda>c.
     bindE (if p = SA then has_memory_request1 ch c else has_memory_request2 ch c) (\<lambda>has. if \<not> has then Inr s else
     bindE (if p = SA then pop_memory_request1 ch c else pop_memory_request2 ch c) (\<lambda>(a, c).
       let a = a\<lparr>ma_core_id := of_nat i\<rparr>; port = unat (core_port (e_cfg e) i ch) in
       if icnt_is_full port a (si_icnt s) then Inr s else
       bindE (get_dest_node (e_cfg e) m a) (\<lambda>dest. bindE (icnt_push port dest a (si_icnt s)) (\<lambda>ic.
         Inr (s\<lparr>si_cores := (si_cores s)[i := c], si_icnt := ic\<rparr>))))))"

definition take_answer :: "env \<Rightarrow> nat \<Rightarrow> nat \<Rightarrow> simulator \<Rightarrow> fault + simulator" where
  "take_answer e i ch s = (let port = core_port (e_cfg e) i ch in
     bindE (icnt_is_empty port (si_icnt s)) (\<lambda>emp. if emp then Inr s else
     bindE (icnt_top port (si_icnt s)) (\<lambda>a. bindE (at (si_cores s) i) (\<lambda>c. bindE (push_memory_response a c) (\<lambda>c.
     bindE (icnt_pop (e_cfg e) port (si_icnt s)) (\<lambda>ic. Inr (s\<lparr>si_cores := (si_cores s)[i := c], si_icnt := ic\<rparr>)))))))"

definition core_exchange :: "env \<Rightarrow> mem_config \<Rightarrow> simulator \<Rightarrow> nat \<times> nat \<Rightarrow> fault + simulator" where
  "core_exchange e m s = (\<lambda>(i, ch). bindE (send_request e m SA i ch s) (\<lambda>s. bindE (send_request e m PIM i ch s) (take_answer e i ch)))"

definition to_memory :: "mem_config \<Rightarrow> StagePlatform \<Rightarrow> nat \<Rightarrow> simulator \<Rightarrow> fault + simulator" where
  "to_memory m p ch s = (let ic = si_icnt s; qs = (if p = SA then mem_req_queue1 ic else mem_req_queue2 ic) in
     bindE (has_memreq ch qs) (\<lambda>has. if \<not> has then Inr s else
     bindE (memreq_top ch qs) (\<lambda>a. bindE (PIM_is_full m a (si_dram s)) (\<lambda>full. if full then Inr s else
     bindE (PIM_push m ch a (si_dram s)) (\<lambda>d. bindE (if p = SA then memreq_pop1 ch ic else memreq_pop2 ch ic) (\<lambda>ic.
       Inr (s\<lparr>si_dram := d, si_icnt := ic\<rparr>)))))))"

definition from_memory :: "env \<Rightarrow> mem_config \<Rightarrow> nat \<Rightarrow> simulator \<Rightarrow> fault + simulator" where
  "from_memory e m ch s = (let d = si_dram s; node = unat (num_cores (e_cfg e) * dram_channels (e_cfg e) + of_nat ch) in
     bindE (PIM_is_empty ch d) (\<lambda>emp. if emp then Inr s else
     bindE (PIM_top ch d) (\<lambda>a. if icnt_is_full node a (si_icnt s) then Inr s else
     bindE (get_dest_node (e_cfg e) m a) (\<lambda>dest. bindE (icnt_push node dest a (si_icnt s)) (\<lambda>ic.
     bindE (PIM_pop ch d) (\<lambda>d. Inr (s\<lparr>si_icnt := ic, si_dram := d\<rparr>)))))))"

definition memory_exchange :: "env \<Rightarrow> mem_config \<Rightarrow> simulator \<Rightarrow> nat \<Rightarrow> fault + simulator" where
  "memory_exchange e m s ch = bindE (to_memory m SA ch s) (\<lambda>s. bindE (to_memory m PIM ch s) (from_memory e m ch))"

definition icnt_clock :: "env \<Rightarrow> mem_config \<Rightarrow> simulator \<Rightarrow> fault + simulator" where
  "icnt_clock e m s = (let n = unat (dram_channels (e_cfg e)) in
     bindE (foldE (core_exchange e m) s (List.product [0..<unat (num_cores (e_cfg e))] [0..<n])) (\<lambda>s.
     bindE (foldE (memory_exchange e m) s [0..<n]) (\<lambda>s.
     bindE (icnt_cycle (e_cfg e) (si_icnt s)) (\<lambda>ic. Inr (s\<lparr>si_icnt := ic\<rparr>)))))"

subsection \<open>The loop\<close>

text \<open>The network and the memory never say that they run.\<close>

definition simulator_running :: "simulator \<Rightarrow> bool" where
  "simulator_running s \<longleftrightarrow> list_ex core_running (si_cores s) \<or> PIM_running (si_dram s) \<or> sc_running (si_sched s) \<or> client_running (si_client s)"

definition simulator_step :: "env \<Rightarrow> mem_config \<Rightarrow> bool \<times> bool \<times> bool \<Rightarrow> simulator \<Rightarrow> simulator run" where
  "simulator_step e m = (\<lambda>(core_mask, dram_mask, icnt_mask) s.
     bindR (if core_mask then core_clock e s else Some (Inr s)) (\<lambda>s.
     Some (bindE (if dram_mask then dram_clock m s else Inr s) (\<lambda>s. if icnt_mask then icnt_clock e m s else Inr s))))"

partial_function (option) Simulator_cycle :: "env \<Rightarrow> mem_config \<Rightarrow> 't::{linorder,plus} clocks \<Rightarrow> simulator \<Rightarrow> simulator run" where
  "Simulator_cycle e m k s = (if \<not> simulator_running s then Some (Inr s) else
     let (mask, k) = set_cycle_mask k in
     case simulator_step e m mask s of None \<Rightarrow> None | Some (Inl f) \<Rightarrow> Some (Inl f) | Some (Inr s) \<Rightarrow> Simulator_cycle e m k s)"

end
