(* ===== verification/Spec2Isabelle.thy ===== *)
theory Spec2Isabelle
  imports Tensor CoreInv Partition Requests PimOps Simulator
begin

text \<open>
  NeuPIMs is a cycle-level simulator of an accelerator for the inference of language models: the matrix
  multiplications of a batch run on systolic arrays (NPU), the attention of its requests runs in the banks of
  the memory (PIM), and two sub-batches alternate between the two units.  This development models its C++
  sources, \<open>src/src/cpp/src\<close> and the memory simulator \<open>src/src/cpp/extern/NewtonSim/src\<close>, as
  executable definitions, and proves what makes the parts correct.

  \<^bold>\<open>How the program works.\<close>  \<open>main_lib\<close> reads the configuration, makes the \<open>Model\<close>, whose
  weights get addresses from \<open>WgtAlloc\<close>, and sets up \<open>ActAlloc\<close> and \<open>KVCacheAlloc\<close> above them.
  \<open>Simulator::cycle\<close> then clocks the parts.  The \<open>Client\<close> takes requests from a data set and hands them to
  the \<open>Scheduler\<close>, which assigns each to a memory channel, allocates its key/value cache, splits the requests
  of a channel into two sub-batches of similar latency, and walks through the stages A to F: in each stage
  one \<open>StageProgram\<close> runs on the arrays for one sub-batch and one in the memory for the other.  A program is a
  graph of operations over tensors; an executable operation is cut into tiles, a tile into instructions.
  A core (\<open>NeuPIMSystolicWS\<close>) issues the tiles, keeps their data in two scratchpads and turns loads,
  stores and memory commands into requests.  The interconnect carries the requests to the channels of the
  memory, whose controllers turn them into commands for the banks, and carries the answers back.

  \<^bold>\<open>Conventions\<close> (Prelude).  A class is a record, an enumeration a datatype with the source's names, an
  integer of fixed width a word.  A function that can stop the process (assert, exit, exception, access
  out of range) is a function into \<open>fault + 'a\<close>, where \<open>Inl\<close> is the reason; \<open>bindE\<close> sequences such
  functions.  A shared pointer is an index into a list of objects.  A loop whose end depends on its data is
  a \<open>partial_function (option)\<close>, where \<open>None\<close> is a loop that does not end, or a recursion on
  fuel with a lemma that the fuel is enough (\<open>client_fuel\<close>).  Quotients that the code computes in doubles
  and rounds are computed with exact integers, which agrees where the doubles are exact.  Logging, printing
  and the statistics that nothing reads back are left out.  What two parts promise each other is a locale
  with an interpretation on the definitions of the part that promises it.

  \<^bold>\<open>Theories\<close>, each with the files it models:
  \<^item> Config (SimulationConfig.h), Addr (namespace AddressConfig of Common.cc): the configuration, and
    addresses made of channel, rank, bank, row and column.
  \<^item> Allocator (allocator/): the three allocators; ranges and blocks are disjoint and inside the memory,
    rows of a channel are never handed out twice.
  \<^item> Tensor (tensor/): tensors map indices to addresses, injectively; the key/value caches grow with their
    sequence.
  \<^item> Instr (Common.h, Common.cc): instructions, tiles, memory accesses and the requests an instruction makes.
  \<^item> SramModel (Sram.cc): the scratchpads and their accounting.
  \<^item> Core (NeuPIMSCore.cc), Systolic (NeuPIMSystolicWS.cc), CoreInv: the operations and the cycle of a core;
    its steps as an inductive relation with an invariant, that the counters of every tile equal
    its work in flight.
  \<^item> Icnt (Interconnect.cc): the interconnect; its cycle is a round-robin over the ports, it neither loses nor
    doubles a request and serves every port.
  \<^item> Partition (the partition functions of scheduler/Scheduler.cc): the dynamic program that splits a channel
    is optimal.
  \<^item> Requests (RequestGenerator.cc, client/Client.cc, BatchedRequest.cc): the data set with its parser, the
    client and batches.
  \<^item> Ops (operations/Operation.cc), VecOps (Add.cc, Gelu.cc, LayerNorm.cc, Softmax.cc), MatMul (MatMul.cc),
    PimOps (NeuPIMSLogitSoftmax.cc, NeuPIMSAttend.cc): the operations; how they split their loops, when this
    ends, and the instructions of their tiles.
  \<^item> Program (Model.cc, StageProgram.cc), ProgramRun: the programs of the stages; none gets stuck before
    all its operations are finished.
  \<^item> Scheduler (scheduler/), SchedulerRun: the scheduler, its steps, and its refinement of a pipeline
    in which every program holds its own batch and the operations that come next.
  \<^item> MemConfig (configuration.cc, common.h): memory configuration, addresses, transactions and commands; the
    encodings of headers and computations on the two sides fit.
  \<^item> MemTiming (timing.cc), MemBank (bankstate.cc), MemChannel (channel_state.cc, refresh.cc), MemChannelRun:
    timing tables, the state machine of a bank, a channel of banks, and runs of a channel: what it answers can
    be executed, the activation window holds, and the delays are kept in every bank a command is checked in
    (a group activation only in the one that answers it).
  \<^item> MemQueue (neupims_command_queue.cc), MemController (neupims_controller.cc), MemControllerInv,
    MemControllerRun: command queues and controller of a channel, a clock tick as a sequence of steps, and the
    invariant of what is pending and what is on its way: one read for all pending reads of an address, every
    pending write, and the pending operations in memory, of which a command queue below 128 entries
    can lose some.
  \<^item> MemSystem (NewtonSim.cc, dram_system.cc, Dram.cc): the controllers of all channels with their response
    queues, and the class PIM around them; the requests are conserved, and every answer finds its request and
    room.
  \<^item> Simulator (Simulator.cc): the parts together, the three clocks, and the loop that moves tiles and
    requests between the parts.

  \<^bold>\<open>Properties\<close> carry the identifiers C1, C2 and so on, in the order of their importance; each has a theorem
  that applies it to a concrete input where it has hypotheses.  Some of them state what the code does where
  it does not do what it means to (operations in memory lost by a short queue, tiles that share a request,
  stores past the end of a tensor).

  \<^bold>\<open>Parameters.\<close>  The reader of the memory's configuration file is a library: its look-ups are arguments
  of the definitions that use them.  Unspecified values of the C++ program (a port number that no
  constructor sets, the order of a hash table) are arguments or quantified.

  \<^bold>\<open>Not modelled.\<close>  The controllers for other memories (\<open>dram_controller.cc\<close>, \<open>newton_controller.cc\<close>) and
  \<open>IdealDRAMSystem\<close>, which no configuration of the simulator selects; the operations, the program and the core of the older simulator (\<open>ModelProgram.cc\<close>, \<open>Core.cc\<close>,
  \<open>SystolicWS.cc\<close>, \<open>Attention.cc\<close> and others), which nothing builds any more; the reading of JSON files and of the
  command line, log files and statistics; Booksim, which is third-party code and which stops the
  simulator when selected; the Rust programs.
\<close>

end
